(* ===== verification/Prelude.thy ===== *)
theory Prelude
  imports Main "HOL-Library.Word"
begin

unbundle bit_operations_syntax

text \<open>
  Shared ground of the development: the C integer types of \<open>kernel/types.h\<close>, the page
  arithmetic of \<open>kernel/cputwo.h\<close>, little-endian words in a byte memory, and the generic
  facts about words, pages and byte lists that the component theories rest on.

  \<^item> \<open>u8\<close>, \<open>u16\<close>, \<open>u32\<close> are \<open>uchar\<close>, \<open>ushort\<close> and \<open>uint\<close>/\<open>uint32\<close>; \<open>+\<close> wraps
    around as it does in C. A signed \<open>int\<close> read from a \<open>u32\<close> is \<open>sint\<close> of it.
  \<^item> A physical memory is a function from addresses to bytes; \<open>load32\<close> and \<open>store32\<close>
    are the CPU's little-endian word accesses.
\<close>

type_synonym u8 = "8 word"
type_synonym u16 = "16 word"
type_synonym u32 = "32 word"
type_synonym memory = "u32 \<Rightarrow> u8"

section \<open>Lists\<close>

text \<open>Where a loop over \<open>0, \<dots>, n - 1\<close> stands.\<close>

lemma upt_split:
  assumes "[0..<n] = ys @ i # zs"
  shows "i = length ys \<and> i < n"
proof -
  have "length ys < length [0..<n]" unfolding assms by simp
  then have l: "length ys < n" by simp
  have "i = [0..<n] ! length ys" unfolding assms by simp
  also have "\<dots> = length ys" using l by simp
  finally show ?thesis using l by simp
qed

section \<open>Words\<close>

lemma and_split: "(a::'a::len word) = (a AND m) + (a AND NOT m)"
proof -
  have "(a AND m) + (a AND NOT m) = (a AND m) OR (a AND NOT m)"
    by (rule disjunctive_add) (auto simp: bit_and_iff bit_not_iff)
  also have "\<dots> = a"
    by (auto intro!: bit_word_eqI simp: bit_or_iff bit_and_iff bit_not_iff)
  finally show ?thesis by simp
qed

lemma and_mask_mod:
  "(a::u32) AND 3 = a mod 4" "(a::u32) AND 1023 = a mod 1024" "(a::u32) AND 4095 = a mod 4096"
  using word_mod_2p_is_mask [of 2 a] word_mod_2p_is_mask [of 10 a] word_mod_2p_is_mask [of 12 a]
  by (simp_all add: mask_numeral)

lemma unat_u32_less [simp]: "unat (a::u32) < 4294967296"
  using unsigned_less [of a] by simp

lemma unat_add_nat:
  assumes "unat (a::u32) + n < 4294967296"
  shows "unat (a + of_nat n) = unat a + n"
proof -
  have "unat (of_nat n :: u32) = n"
    using assms by (simp add: unat_of_nat take_bit_eq_mod)
  with assms show ?thesis
    using unat_add_lem [of a "of_nat n"] by simp
qed

lemma unat_add_less:
  assumes "(i::u32) + n \<le> m" "unat i + unat n < 4294967296"
  shows "unat i + unat n \<le> unat m"
  using assms by (simp add: word_le_nat_alt unat_word_ariths)

lemma unat_diff:
  "unat ((a::u32) - b) = (if unat b \<le> unat a then unat a - unat b else unat a + 4294967296 - unat b)"
  using unat_sub_if_size [of a b] by (simp add: word_size)

lemma unat_suc:
  assumes "(i::u32) < n"
  shows "unat (i + 1) = Suc (unat i)"
proof -
  have "unat i < unat n" using assms by (simp add: word_less_nat_alt)
  then have "unat i + 1 < 4294967296" using unat_u32_less [of n] by linarith
  from unat_add_nat [OF this] show ?thesis by simp
qed

lemma of_nat_unat_u32 [simp]: "of_nat (unat (a::u32)) = a"
  by simp

section \<open>Little-endian words in byte memory\<close>

definition load32 :: "memory \<Rightarrow> u32 \<Rightarrow> u32" where
  "load32 m a = ucast (m a) OR push_bit 8 (ucast (m (a + 1)))
     OR push_bit 16 (ucast (m (a + 2))) OR push_bit 24 (ucast (m (a + 3)))"

definition store32 :: "memory \<Rightarrow> u32 \<Rightarrow> u32 \<Rightarrow> memory" where
  "store32 m a v = m(a := ucast v, a + 1 := ucast (drop_bit 8 v),
     a + 2 := ucast (drop_bit 16 v), a + 3 := ucast (drop_bit 24 v))"

definition aligned4 :: "u32 \<Rightarrow> bool" where
  "aligned4 a \<longleftrightarrow> a AND 3 = 0"

text \<open>The bytes of a region, and a region overwritten by a list of bytes. Addresses are
  taken modulo \<open>2 ^ 32\<close>, so a region may wrap around as pointer arithmetic does.\<close>

definition read_bytes :: "memory \<Rightarrow> u32 \<Rightarrow> nat \<Rightarrow> u8 list" where
  "read_bytes m a n = map (\<lambda>i. m (a + of_nat i)) [0..<n]"

definition write_bytes :: "memory \<Rightarrow> u32 \<Rightarrow> u8 list \<Rightarrow> memory" where
  "write_bytes m a bs = (\<lambda>x. if unat (x - a) < length bs then bs ! unat (x - a) else m x)"

lemma word_of_bytes:
  fixes v :: u32
  shows "ucast (ucast v :: u8) OR push_bit 8 (ucast (ucast (drop_bit 8 v) :: u8))
    OR push_bit 16 (ucast (ucast (drop_bit 16 v) :: u8))
    OR push_bit 24 (ucast (ucast (drop_bit 24 v) :: u8)) = v" (is "?w = v")
proof (rule bit_word_eqI)
  fix n assume "n < LENGTH(32)"
  then consider "n < 8" | "8 \<le> n \<and> n < 16" | "16 \<le> n \<and> n < 24" | "24 \<le> n \<and> n < 32"
    by fastforce
  then show "bit ?w n = bit v n"
    by cases (auto simp: bit_or_iff bit_push_bit_iff bit_ucast_iff bit_drop_bit_eq)
qed

lemma load32_store32_same [simp]: "load32 (store32 m a v) a = v"
  by (simp add: load32_def store32_def word_of_bytes)

lemma unat_aligned4: "aligned4 a \<longleftrightarrow> unat a mod 4 = 0"
proof -
  have "aligned4 a \<longleftrightarrow> a mod 4 = 0" by (simp add: aligned4_def and_mask_mod)
  also have "\<dots> \<longleftrightarrow> unat (a mod 4) = 0" by (simp add: unat_eq_zero)
  finally show ?thesis by (simp add: unat_mod_distrib)
qed

lemma aligned4_add:
  assumes "aligned4 a" "i < 4"
  shows "unat (a + of_nat i) = unat a + i"
proof -
  have "unat a mod 4 = 0" using assms(1) by (simp add: unat_aligned4)
  moreover have "unat a < 4294967296" by simp
  ultimately have "unat a + i < 4294967296" using assms(2) by presburger
  then show ?thesis by (rule unat_add_nat)
qed

lemma aligned4_disjoint:
  assumes "aligned4 a" "aligned4 b" "a \<noteq> b" "i < 4" "j < 4"
  shows "a + of_nat i \<noteq> b + of_nat j"
proof
  assume "a + of_nat i = b + of_nat j"
  then have e: "unat a + i = unat b + j"
    using aligned4_add [OF assms(1,4)] aligned4_add [OF assms(2,5)] by simp
  moreover have "unat a mod 4 = 0" "unat b mod 4 = 0"
    using assms(1,2) by (simp_all add: unat_aligned4)
  ultimately have "unat a = unat b" using assms(4,5) by presburger
  with assms(3) show False by (simp add: word_unat_eq_iff)
qed

lemma store32_other:
  assumes "\<And>i. i < 4 \<Longrightarrow> x \<noteq> a + of_nat i"
  shows "store32 m a v x = m x"
  using assms [of 0] assms [of 1] assms [of 2] assms [of 3] by (simp add: store32_def)

lemma load32_cong:
  assumes "\<And>i. i < 4 \<Longrightarrow> m (a + of_nat i) = n (a + of_nat i)"
  shows "load32 m a = load32 n a"
  using assms [of 0] assms [of 1] assms [of 2] assms [of 3] by (simp add: load32_def)

lemma load32_store32_other [simp]:
  assumes "aligned4 a" "aligned4 b" "a \<noteq> b"
  shows "load32 (store32 m a v) b = load32 m b"
  by (rule load32_cong, rule store32_other) (use assms aligned4_disjoint in blast)

lemma length_read_bytes [simp]: "length (read_bytes m a n) = n"
  by (simp add: read_bytes_def)

lemma read_bytes_nth [simp]: "i < n \<Longrightarrow> read_bytes m a n ! i = m (a + of_nat i)"
  by (simp add: read_bytes_def)

lemma read_write_bytes:
  assumes "length bs \<le> 4294967296"
  shows "read_bytes (write_bytes m a bs) a (length bs) = bs"
proof (rule nth_equalityI)
  fix i assume i: "i < length (read_bytes (write_bytes m a bs) a (length bs))"
  then have "unat (of_nat i :: u32) = i"
    using assms by (simp add: unat_of_nat take_bit_eq_mod)
  with i show "read_bytes (write_bytes m a bs) a (length bs) ! i = bs ! i"
    by (simp add: write_bytes_def)
qed simp

lemma write_bytes_Nil [simp]: "write_bytes m a [] = m"
  by (simp add: write_bytes_def)

text \<open>A word as the four bytes it occupies in memory, and two bytes for a short.\<close>

definition bytes32 :: "u32 \<Rightarrow> u8 list" where
  "bytes32 v = [ucast v, ucast (drop_bit 8 v), ucast (drop_bit 16 v), ucast (drop_bit 24 v)]"

definition word32 :: "u8 list \<Rightarrow> u32" where
  "word32 bs = ucast (bs ! 0) OR push_bit 8 (ucast (bs ! 1)) OR push_bit 16 (ucast (bs ! 2))
     OR push_bit 24 (ucast (bs ! 3))"

definition bytes16 :: "u16 \<Rightarrow> u8 list" where
  "bytes16 v = [ucast v, ucast (drop_bit 8 v)]"

definition word16 :: "u8 list \<Rightarrow> u16" where
  "word16 bs = ucast (bs ! 0) OR push_bit 8 (ucast (bs ! 1))"

lemma length_bytes [simp]: "length (bytes32 v) = 4" "length (bytes16 w) = 2"
  by (simp_all add: bytes32_def bytes16_def)

lemma word32_bytes32 [simp]: "word32 (bytes32 v @ xs) = v" "word32 (bytes32 v) = v"
  by (simp_all add: word32_def bytes32_def word_of_bytes)

lemma word16_bytes16 [simp]: "word16 (bytes16 v @ xs) = v" "word16 (bytes16 v) = v"
proof -
  have "ucast (ucast v :: u8) OR push_bit 8 (ucast (ucast (drop_bit 8 v) :: u8)) = v" (is "?w = v")
  proof (rule bit_word_eqI)
    fix n assume "n < LENGTH(16)"
    then consider "n < 8" | "8 \<le> n \<and> n < 16" by fastforce
    then show "bit ?w n = bit v n"
      by cases (auto simp: bit_or_iff bit_push_bit_iff bit_ucast_iff bit_drop_bit_eq)
  qed
  then show "word16 (bytes16 v @ xs) = v" "word16 (bytes16 v) = v" by (simp_all add: word16_def bytes16_def)
qed

text \<open>The bytes of a string literal, without the terminating NUL.\<close>

definition cs :: "string \<Rightarrow> u8 list" where
  "cs = map of_char"

section \<open>Pages\<close>

definition PGSIZE :: u32 where
  "PGSIZE = 4096"

definition PGROUNDUP :: "u32 \<Rightarrow> u32" where
  "PGROUNDUP sz = (sz + PGSIZE - 1) AND NOT (PGSIZE - 1)"

definition PGROUNDDOWN :: "u32 \<Rightarrow> u32" where
  "PGROUNDDOWN a = a AND NOT (PGSIZE - 1)"

definition page_aligned :: "u32 \<Rightarrow> bool" where
  "page_aligned a \<longleftrightarrow> a mod PGSIZE = 0"

lemma and_not_4095: "(a::u32) AND NOT 4095 = a - a mod 4096"
  using and_split [of a 4095] and_mask_mod(3) [of a] by (metis add_diff_cancel_left')

lemma PGROUNDDOWN_alt: "PGROUNDDOWN a = a - a mod 4096"
  by (simp only: PGROUNDDOWN_def PGSIZE_def and_not_4095 [symmetric]) simp

lemma unat_PGROUNDDOWN: "unat (PGROUNDDOWN a) = unat a - unat a mod 4096"
proof -
  have "a mod 4096 \<le> a" by (simp add: word_le_nat_alt unat_mod_distrib)
  then show ?thesis by (simp add: PGROUNDDOWN_alt unat_sub unat_mod_distrib)
qed

lemma unat_page_aligned: "page_aligned a \<longleftrightarrow> unat a mod 4096 = 0"
proof -
  have "page_aligned a \<longleftrightarrow> unat (a mod 4096) = 0"
    by (simp add: page_aligned_def PGSIZE_def unat_eq_zero)
  then show ?thesis by (simp add: unat_mod_distrib)
qed

lemma unat_PGROUNDUP:
  assumes "unat a \<le> 4294963200"
  shows "unat (PGROUNDUP a) = 4096 * ((unat a + 4095) div 4096)"
proof -
  have u: "unat (a + 4095) = unat a + 4095"
    using assms by (simp add: unat_word_ariths)
  have "PGROUNDUP a = PGROUNDDOWN (a + 4095)"
    by (simp add: PGROUNDUP_def PGROUNDDOWN_def PGSIZE_def add.commute)
  then show ?thesis
    unfolding unat_PGROUNDDOWN u by (simp add: unat_PGROUNDDOWN u minus_mod_eq_mult_div)
qed

lemma page_aligned_PGROUNDDOWN [simp]: "page_aligned (PGROUNDDOWN a)"
  by (simp add: unat_page_aligned unat_PGROUNDDOWN minus_mod_eq_mult_div)

lemma PGROUNDDOWN_aligned [simp]: "page_aligned a \<Longrightarrow> PGROUNDDOWN a = a"
  by (simp add: page_aligned_def PGSIZE_def PGROUNDDOWN_alt)

lemma page_aligned_PGROUNDUP [simp]: "page_aligned (PGROUNDUP a)"
proof -
  have "PGROUNDUP a = PGROUNDDOWN (a + 4095)"
    by (simp add: PGROUNDUP_def PGROUNDDOWN_def PGSIZE_def add.commute)
  then show ?thesis by simp
qed

lemma PGROUNDDOWN_idem: "PGROUNDDOWN (PGROUNDDOWN a) = PGROUNDDOWN a"
  by simp

lemma page_aligned_aligned4 [simp]: "page_aligned a \<Longrightarrow> aligned4 a"
proof -
  assume "page_aligned a"
  then have "unat a mod 4096 = 0" by (simp add: unat_page_aligned)
  then obtain q where "unat a = 4096 * q" by (auto simp: mod_eq_0_iff_dvd)
  then have "unat a mod 4 = 0" by (simp add: mod_eq_0_iff_dvd)
  then show ?thesis by (simp add: unat_aligned4)
qed

text \<open>An offset below the page size stays in the page.\<close>

lemma page_offset:
  assumes "page_aligned p" "i < 4096"
  shows "unat (p + of_nat i) = unat p + i" "PGROUNDDOWN (p + of_nat i) = p"
proof -
  obtain q where q: "unat p = 4096 * q"
    using assms(1) by (auto simp: unat_page_aligned mod_eq_0_iff_dvd)
  have "4096 * q < 4294967296" unfolding q [symmetric] by simp
  then have "unat p + i < 4294967296" using assms(2) q by simp
  then show u: "unat (p + of_nat i) = unat p + i" by (rule unat_add_nat)
  have "(unat p + i) - (unat p + i) mod 4096 = unat p"
    using q assms(2) by simp
  then show "PGROUNDDOWN (p + of_nat i) = p"
    by (simp add: word_unat_eq_iff unat_PGROUNDDOWN u)
qed

lemma PGROUNDDOWN_word_bytes:
  assumes "aligned4 a" "i < 4"
  shows "PGROUNDDOWN (a + of_nat i) = PGROUNDDOWN a"
proof -
  have "4 dvd unat a" using assms(1) by (simp add: unat_aligned4 mod_eq_0_iff_dvd)
  then have "(unat a + i) div 4 = unat a div 4" using assms(2) by auto
  then have "(unat a + i) div 4 div 1024 = unat a div 4 div 1024" by simp
  then have "(unat a + i) div 4096 = unat a div 4096" by (simp add: div_mult2_eq [symmetric])
  then have "(unat a + i) - (unat a + i) mod 4096 = unat a - unat a mod 4096"
    by (simp add: minus_mod_eq_mult_div)
  then show ?thesis
    by (simp add: word_unat_eq_iff unat_PGROUNDDOWN aligned4_add [OF assms])
qed

lemma store32_other_page:
  assumes "aligned4 a" "PGROUNDDOWN x \<noteq> PGROUNDDOWN a"
  shows "store32 m a v x = m x"
  by (rule store32_other) (use assms PGROUNDDOWN_word_bytes in metis)

text \<open>A word read only depends on the bytes of its page.\<close>

lemma load32_page_cong:
  assumes "aligned4 a" "\<And>x. PGROUNDDOWN x = PGROUNDDOWN a \<Longrightarrow> m x = n x"
  shows "load32 m a = load32 n a"
  by (rule load32_cong) (use assms PGROUNDDOWN_word_bytes in metis)

lemma in_page_iff:
  assumes "page_aligned p"
  shows "PGROUNDDOWN x = p \<longleftrightarrow> unat (x - p) < 4096"
proof
  assume x: "PGROUNDDOWN x = p"
  have "unat p = unat x - unat x mod 4096" using x unat_PGROUNDDOWN [of x] by simp
  then have "p \<le> x" by (simp add: word_le_nat_alt)
  then have "unat (x - p) = unat x - unat p" by (rule unat_sub)
  with \<open>unat p = _\<close> show "unat (x - p) < 4096" by simp
next
  assume "unat (x - p) < 4096"
  then have "PGROUNDDOWN (p + of_nat (unat (x - p))) = p"
    by (rule page_offset(2) [OF assms])
  then show "PGROUNDDOWN x = p" by simp
qed

lemma write_bytes_other_page:
  assumes "page_aligned p" "off + length bs \<le> 4096" "PGROUNDDOWN x \<noteq> p"
  shows "write_bytes m (p + of_nat off) bs x = m x"
proof (cases "unat (x - (p + of_nat off)) < length bs")
  case True
  let ?i = "unat (x - (p + of_nat off))"
  have "x = p + of_nat (off + ?i)" by simp
  moreover have "off + ?i < 4096" using True assms(2) by simp
  ultimately have "PGROUNDDOWN x = p" using page_offset(2) [OF assms(1)] by metis
  with assms(3) show ?thesis by contradiction
next
  case False
  then show ?thesis by (simp add: write_bytes_def)
qed

section \<open>Constants\<close>

text \<open>\<open>kernel/memlayout.h\<close>, \<open>kernel/param.h\<close> and \<open>kernel/cputwo.h\<close>.\<close>

definition KERNBASE :: u32 where "KERNBASE = 0"
definition PHYSTOP :: u32 where "PHYSTOP = 0x03E7E000"
definition TRAMPOLINE :: u32 where "TRAMPOLINE = 0x03EFE000"
definition TRAPFRAME :: u32 where "TRAPFRAME = TRAMPOLINE - PGSIZE"
definition MAXVA :: u32 where "MAXVA = push_bit 31 1"

definition KSTACK :: "nat \<Rightarrow> u32" where
  "KSTACK p = TRAMPOLINE - (of_nat p + 1) * 2 * PGSIZE"

definition NPROC :: nat where "NPROC = 64"
definition NOFILE :: nat where "NOFILE = 16"
definition NFILE :: nat where "NFILE = 100"
definition NINODE :: nat where "NINODE = 50"
definition NDEV :: nat where "NDEV = 10"
definition ROOTDEV :: u32 where "ROOTDEV = 1"
definition MAXARG :: nat where "MAXARG = 32"
definition MAXOPBLOCKS :: nat where "MAXOPBLOCKS = 10"
definition LOGBLOCKS :: nat where "LOGBLOCKS = MAXOPBLOCKS * 3"
definition NBUF :: nat where "NBUF = MAXOPBLOCKS * 3"
definition MAXPATH :: nat where "MAXPATH = 128"
definition USERSTACK :: u32 where "USERSTACK = 1"

lemmas layout_defs = KERNBASE_def PHYSTOP_def TRAMPOLINE_def TRAPFRAME_def MAXVA_def KSTACK_def
  PGSIZE_def

end
