(* ===== verification/User.thy ===== *)
theory User
  imports Prelude
begin

text \<open>
  User programs. A program is a function of the operating system it runs on and of the state of the world
  outside the process; the system calls of \<open>user/user.h\<close> are the parameters of that system. The
  kernel's side of the calls is modelled by the theories on \<open>Syscall\<close>; here a program is correct against
  whatever answers the calls give, and hypotheses on a system are stated where a property needs them.
  A computation ends with a value, with the exit of the process, with the replacement of the
  process image by a successful \<open>exec\<close>, or not at all; what the C standard leaves undefined (a missing
  variable argument, a write outside an array) is the result \<open>Undef\<close>.
\<close>

section \<open>System calls\<close>

record stat_t =
  st_dev :: int
  st_ino :: nat
  st_type :: int
  st_nlink :: int
  st_size :: nat

record 'w os =
  os_fork :: "'w \<Rightarrow> int \<times> 'w"
  os_wait :: "'w \<Rightarrow> (int \<times> int) \<times> 'w"
  os_pipe :: "'w \<Rightarrow> (int \<times> int \<times> int) \<times> 'w"
  os_write :: "int \<Rightarrow> u8 list \<Rightarrow> 'w \<Rightarrow> int \<times> 'w"
  os_read :: "int \<Rightarrow> nat \<Rightarrow> 'w \<Rightarrow> (int \<times> u8 list) \<times> 'w"
  os_close :: "int \<Rightarrow> 'w \<Rightarrow> int \<times> 'w"
  os_kill :: "int \<Rightarrow> 'w \<Rightarrow> int \<times> 'w"
  os_exec :: "u8 list \<Rightarrow> u8 list list \<Rightarrow> 'w \<Rightarrow> int option \<times> 'w"
  os_open :: "u8 list \<Rightarrow> int \<Rightarrow> 'w \<Rightarrow> int \<times> 'w"
  os_mknod :: "u8 list \<Rightarrow> int \<Rightarrow> int \<Rightarrow> 'w \<Rightarrow> int \<times> 'w"
  os_unlink :: "u8 list \<Rightarrow> 'w \<Rightarrow> int \<times> 'w"
  os_fstat :: "int \<Rightarrow> 'w \<Rightarrow> (int \<times> stat_t) \<times> 'w"
  os_link :: "u8 list \<Rightarrow> u8 list \<Rightarrow> 'w \<Rightarrow> int \<times> 'w"
  os_mkdir :: "u8 list \<Rightarrow> 'w \<Rightarrow> int \<times> 'w"
  os_chdir :: "u8 list \<Rightarrow> 'w \<Rightarrow> int \<times> 'w"
  os_dup :: "int \<Rightarrow> 'w \<Rightarrow> int \<times> 'w"
  os_getpid :: "'w \<Rightarrow> int \<times> 'w"
  os_sbrk :: "int \<Rightarrow> int \<Rightarrow> 'w \<Rightarrow> u32 \<times> 'w"
  os_pause :: "int \<Rightarrow> 'w \<Rightarrow> int \<times> 'w"
  os_uptime :: "'w \<Rightarrow> int \<times> 'w"

definition O_RDONLY :: int where "O_RDONLY = 0x000"
definition O_WRONLY :: int where "O_WRONLY = 0x001"
definition O_RDWR :: int where "O_RDWR = 0x002"
definition O_CREATE :: int where "O_CREATE = 0x200"
definition O_TRUNC :: int where "O_TRUNC = 0x400"

section \<open>Programs\<close>

datatype ('a, 'w) uresult = Val 'a 'w | Exited int 'w | Replaced "u8 list" "u8 list list" 'w | Spins 'w | Undef 'w

type_synonym ('w, 'a) user = "'w os \<Rightarrow> 'w \<Rightarrow> ('a, 'w) uresult"

definition val :: "'a \<Rightarrow> ('w, 'a) user" where
  "val x S w = Val x w"

definition ubind :: "('w, 'a) user \<Rightarrow> ('a \<Rightarrow> ('w, 'b) user) \<Rightarrow> ('w, 'b) user" where
  "ubind m f S w = (case m S w of Val x v \<Rightarrow> f x S v | Exited c v \<Rightarrow> Exited c v | Replaced p a v \<Rightarrow> Replaced p a v | Spins v \<Rightarrow> Spins v | Undef v \<Rightarrow> Undef v)"

definition sys :: "('w os \<Rightarrow> 'w \<Rightarrow> 'a \<times> 'w) \<Rightarrow> ('w, 'a) user" where
  "sys c S w = (case c S w of (x, v) \<Rightarrow> Val x v)"

definition u_exit :: "int \<Rightarrow> ('w, 'a) user" where
  "u_exit c S w = Exited c w"

definition u_spin :: "('w, 'a) user" where
  "u_spin S w = Spins w"

definition u_undef :: "('w, 'a) user" where
  "u_undef S w = Undef w"

definition u_exec :: "u8 list \<Rightarrow> u8 list list \<Rightarrow> ('w, int) user" where
  "u_exec path argv S w = (case os_exec S path argv w of (Some r, v) \<Rightarrow> Val r v | (None, v) \<Rightarrow> Replaced path argv v)"

abbreviation u_fork :: "('w, int) user" where "u_fork \<equiv> sys os_fork"
abbreviation u_wait :: "('w, int \<times> int) user" where "u_wait \<equiv> sys os_wait"
abbreviation u_pipe :: "('w, int \<times> int \<times> int) user" where "u_pipe \<equiv> sys os_pipe"
abbreviation u_write :: "int \<Rightarrow> u8 list \<Rightarrow> ('w, int) user" where "u_write fd bs \<equiv> sys (\<lambda>S. os_write S fd bs)"
abbreviation u_read :: "int \<Rightarrow> nat \<Rightarrow> ('w, int \<times> u8 list) user" where "u_read fd n \<equiv> sys (\<lambda>S. os_read S fd n)"
abbreviation u_close :: "int \<Rightarrow> ('w, int) user" where "u_close fd \<equiv> sys (\<lambda>S. os_close S fd)"
abbreviation u_kill :: "int \<Rightarrow> ('w, int) user" where "u_kill pid \<equiv> sys (\<lambda>S. os_kill S pid)"
abbreviation u_open :: "u8 list \<Rightarrow> int \<Rightarrow> ('w, int) user" where "u_open path mode \<equiv> sys (\<lambda>S. os_open S path mode)"
abbreviation u_mknod :: "u8 list \<Rightarrow> int \<Rightarrow> int \<Rightarrow> ('w, int) user" where "u_mknod path a b \<equiv> sys (\<lambda>S. os_mknod S path a b)"
abbreviation u_unlink :: "u8 list \<Rightarrow> ('w, int) user" where "u_unlink path \<equiv> sys (\<lambda>S. os_unlink S path)"
abbreviation u_fstat :: "int \<Rightarrow> ('w, int \<times> stat_t) user" where "u_fstat fd \<equiv> sys (\<lambda>S. os_fstat S fd)"
abbreviation u_link :: "u8 list \<Rightarrow> u8 list \<Rightarrow> ('w, int) user" where "u_link a b \<equiv> sys (\<lambda>S. os_link S a b)"
abbreviation u_mkdir :: "u8 list \<Rightarrow> ('w, int) user" where "u_mkdir path \<equiv> sys (\<lambda>S. os_mkdir S path)"
abbreviation u_chdir :: "u8 list \<Rightarrow> ('w, int) user" where "u_chdir path \<equiv> sys (\<lambda>S. os_chdir S path)"
abbreviation u_dup :: "int \<Rightarrow> ('w, int) user" where "u_dup fd \<equiv> sys (\<lambda>S. os_dup S fd)"
abbreviation u_getpid :: "('w, int) user" where "u_getpid \<equiv> sys os_getpid"
abbreviation u_sbrk :: "int \<Rightarrow> int \<Rightarrow> ('w, u32) user" where "u_sbrk n t \<equiv> sys (\<lambda>S. os_sbrk S n t)"
abbreviation u_pause :: "int \<Rightarrow> ('w, int) user" where "u_pause n \<equiv> sys (\<lambda>S. os_pause S n)"
abbreviation u_uptime :: "('w, int) user" where "u_uptime \<equiv> sys os_uptime"

named_theorems user_simps \<open>running user programs\<close>

lemma ubind_simps [user_simps]:
  "ubind (val x) f S w = f x S w"
  "ubind (u_exit c) f S w = Exited c w"
  "ubind (ubind m f) g = ubind m (\<lambda>x. ubind (f x) g)"
  "ubind (sys k) f S w = (case k S w of (x, v) \<Rightarrow> f x S v)"
  by (auto simp: fun_eq_iff ubind_def val_def sys_def u_exit_def split: uresult.splits prod.splits)

lemma user_run [user_simps]: "val x S w = Val x w" "u_exit c S w = Exited c w" "sys k S w = (case k S w of (x, v) \<Rightarrow> Val x v)" "u_spin S w = Spins w"
  "u_undef S w = Undef w"
  by (simp_all add: val_def u_exit_def sys_def u_spin_def u_undef_def)

text \<open>C strings: reading past the last character gives the terminator.\<close>

definition ch :: "u8 list \<Rightarrow> nat \<Rightarrow> u8" where
  "ch s i = (if i < length s then s ! i else 0)"

lemma ch_simps [simp]: "ch [] i = 0" "ch (c # s) 0 = c" "ch (c # s) (Suc i) = ch s i"
  by (simp_all add: ch_def)

section \<open>Input and output\<close>

text \<open>What programs rely on when they read a file to its end and write to the standard output: a read
  returns some of the bytes that follow, at least one unless none is asked for or left, and a write
  appends all of its bytes.\<close>

definition streams :: "'w os \<Rightarrow> int \<Rightarrow> ('w \<Rightarrow> u8 list) \<Rightarrow> ('w \<Rightarrow> u8 list) \<Rightarrow> bool" where
  "streams S fd rest out \<longleftrightarrow>
     (\<forall>w n. \<exists>k v. os_read S fd n w = ((int k, take k (rest w)), v) \<and> k \<le> n \<and> k \<le> length (rest w)
        \<and> (k = 0 \<longrightarrow> n = 0 \<or> rest w = []) \<and> rest v = drop k (rest w) \<and> out v = out w)
   \<and> (\<forall>w bs. \<exists>v. os_write S 1 bs w = (int (length bs), v) \<and> rest v = rest w \<and> out v = out w @ bs)"

text \<open>A system with one open file whose reads return at most \<open>c + 1\<close> bytes, for examples.\<close>

record stdio =
  inp :: "u8 list"
  outp :: "u8 list"

definition stdio_os :: "nat \<Rightarrow> stdio os" where
  "stdio_os c = \<lparr>os_fork = (\<lambda>w. (-1, w)), os_wait = (\<lambda>w. ((-1, 0), w)), os_pipe = (\<lambda>w. ((-1, 0, 0), w)),
     os_write = (\<lambda>fd bs w. (int (length bs), if fd = 1 then w\<lparr>outp := outp w @ bs\<rparr> else w)),
     os_read = (\<lambda>fd n w. let k = min (min n (Suc c)) (length (inp w)) in ((int k, take k (inp w)), w\<lparr>inp := drop k (inp w)\<rparr>)),
     os_close = (\<lambda>fd w. (0, w)), os_kill = (\<lambda>p w. (-1, w)), os_exec = (\<lambda>p a w. (Some (-1), w)), os_open = (\<lambda>p m w. (3, w)),
     os_mknod = (\<lambda>p a b w. (-1, w)), os_unlink = (\<lambda>p w. (-1, w)),
     os_fstat = (\<lambda>fd w. ((-1, \<lparr>st_dev = 0, st_ino = 0, st_type = 0, st_nlink = 0, st_size = 0\<rparr>), w)),
     os_link = (\<lambda>a b w. (-1, w)), os_mkdir = (\<lambda>p w. (-1, w)), os_chdir = (\<lambda>p w. (-1, w)), os_dup = (\<lambda>fd w. (-1, w)),
     os_getpid = (\<lambda>w. (1, w)), os_sbrk = (\<lambda>n t w. (-1, w)), os_pause = (\<lambda>n w. (0, w)), os_uptime = (\<lambda>w. (0, w))\<rparr>"

lemma streams_stdio: "streams (stdio_os c) fd inp outp"
  unfolding streams_def
proof (intro conjI allI)
  fix w n
  show "\<exists>k v. os_read (stdio_os c) fd n w = ((int k, take k (inp w)), v) \<and> k \<le> n \<and> k \<le> length (inp w)
      \<and> (k = 0 \<longrightarrow> n = 0 \<or> inp w = []) \<and> inp v = drop k (inp w) \<and> outp v = outp w"
    by (rule exI [of _ "min (min n (Suc c)) (length (inp w))"]) (auto simp: stdio_os_def Let_def min_def)
qed (simp add: stdio_os_def)

end
