(* ===== verification/Ulib.thy ===== *)
theory Ulib
  imports User
begin

text \<open>
  The user library, \<open>user/ulib.c\<close>. A pointer into an array is the array, as the list of its bytes, and an
  index; a read-only string argument is the list of its characters up to the terminator.
\<close>

section \<open>Strings\<close>

function strcpy_loop :: "u8 list \<Rightarrow> nat \<Rightarrow> u8 list \<Rightarrow> nat \<Rightarrow> u8 list" where
  "strcpy_loop s i t j =
     (let s' = s[i := ch t j] in if ch t j \<noteq> 0 then strcpy_loop s' (i + 1) t (j + 1) else s')"
  by auto
termination by (relation "measure (\<lambda>(s, i, t, j). length t - j)") (auto simp: ch_def split: if_splits)

definition ustrcpy :: "u8 list \<Rightarrow> nat \<Rightarrow> u8 list \<Rightarrow> u8 list" where
  "ustrcpy s i t = strcpy_loop s i t 0"

function strcmp_loop :: "u8 list \<Rightarrow> u8 list \<Rightarrow> nat \<Rightarrow> int" where
  "strcmp_loop p q i =
     (if ch p i \<noteq> 0 \<and> ch p i = ch q i then strcmp_loop p q (i + 1) else uint (ch p i) - uint (ch q i))"
  by auto
termination by (relation "measure (\<lambda>(p, q, i). length p - i)") (auto simp: ch_def split: if_splits)

definition ustrcmp :: "u8 list \<Rightarrow> u8 list \<Rightarrow> int" where
  "ustrcmp p q = strcmp_loop p q 0"

function strlen_loop :: "u8 list \<Rightarrow> nat \<Rightarrow> nat \<Rightarrow> nat" where
  "strlen_loop s p n = (if ch s (p + n) \<noteq> 0 then strlen_loop s p (n + 1) else n)"
  by auto
termination by (relation "measure (\<lambda>(s, p, n). length s - (p + n))") (auto simp: ch_def split: if_splits)

definition ustrlen :: "u8 list \<Rightarrow> nat \<Rightarrow> nat" where
  "ustrlen s p = strlen_loop s p 0"

function ustrchr :: "u8 list \<Rightarrow> nat \<Rightarrow> u8 \<Rightarrow> nat option" where
  "ustrchr s p c = (if ch s p = 0 then None else if ch s p = c then Some p else ustrchr s (p + 1) c)"
  by auto
termination by (relation "measure (\<lambda>(s, p, c). length s - p)") (auto simp: ch_def split: if_splits)

function atoi_loop :: "u8 list \<Rightarrow> nat \<Rightarrow> u32 \<Rightarrow> u32" where
  "atoi_loop s p n = (if 48 \<le> ch s p \<and> ch s p \<le> 57 then atoi_loop s (p + 1) (n * 10 + ucast (ch s p) - 48) else n)"
  by auto
termination by (relation "measure (\<lambda>(s, p, n). length s - p)") (auto simp: ch_def split: if_splits)

definition atoi :: "u8 list \<Rightarrow> int" where
  "atoi s = sint (atoi_loop s 0 0)"

declare strcpy_loop.simps [simp del] strcmp_loop.simps [simp del] strlen_loop.simps [simp del] ustrchr.simps [simp del]
  atoi_loop.simps [simp del]

section \<open>Memory\<close>

fun memset_loop :: "u8 list \<Rightarrow> nat \<Rightarrow> u8 \<Rightarrow> nat \<Rightarrow> u8 list" where
  "memset_loop dst i c 0 = dst"
| "memset_loop dst i c (Suc n) = memset_loop (dst[i := c]) (i + 1) c n"

definition umemset :: "u8 list \<Rightarrow> nat \<Rightarrow> u8 \<Rightarrow> nat \<Rightarrow> u8 list" where
  "umemset dst i c n = memset_loop dst i c n"

fun move_up :: "u8 list \<Rightarrow> nat \<Rightarrow> nat \<Rightarrow> nat \<Rightarrow> u8 list" where
  "move_up a dst src 0 = a"
| "move_up a dst src (Suc n) = move_up (a[dst := a ! src]) (dst + 1) (src + 1) n"

fun move_down :: "u8 list \<Rightarrow> nat \<Rightarrow> nat \<Rightarrow> nat \<Rightarrow> u8 list" where
  "move_down a dst src 0 = a"
| "move_down a dst src (Suc n) = move_down (a[dst - 1 := a ! (src - 1)]) (dst - 1) (src - 1) n"

definition umemmove :: "u8 list \<Rightarrow> nat \<Rightarrow> nat \<Rightarrow> int \<Rightarrow> u8 list" where
  "umemmove a dst src n =
     (if dst < src then move_up a dst src (nat n)
      else move_down a (nat (int dst + n)) (nat (int src + n)) (nat n))"

fun memcmp_loop :: "u8 list \<Rightarrow> u8 list \<Rightarrow> nat \<Rightarrow> nat \<Rightarrow> int" where
  "memcmp_loop s1 s2 i 0 = 0"
| "memcmp_loop s1 s2 i (Suc n) =
     (if s1 ! i \<noteq> s2 ! i then sint (s1 ! i) - sint (s2 ! i) else memcmp_loop s1 s2 (i + 1) n)"

definition umemcmp :: "u8 list \<Rightarrow> u8 list \<Rightarrow> nat \<Rightarrow> int" where
  "umemcmp s1 s2 n = memcmp_loop s1 s2 0 n"

definition umemcpy :: "u8 list \<Rightarrow> nat \<Rightarrow> nat \<Rightarrow> int \<Rightarrow> u8 list" where
  "umemcpy a dst src n = umemmove a dst src n"

section \<open>Wrappers of system calls\<close>

function gets_loop :: "u8 list \<Rightarrow> nat \<Rightarrow> nat \<Rightarrow> ('w, u8 list \<times> nat) user" where
  "gets_loop buf i m =
     (if i + 1 < m
      then
        ubind (u_read 0 1) (\<lambda>(cc, bs).
        if cc < 1 then val (buf, i)
        else
          let c = ch bs 0; buf' = buf[i := c] in
          if c = 10 \<or> c = 13 then val (buf', i + 1) else gets_loop buf' (i + 1) m)
      else val (buf, i))"
  by auto
termination by (relation "measure (\<lambda>(buf, i, m). m - i)") auto

declare gets_loop.simps [simp del]

definition ugets :: "u8 list \<Rightarrow> nat \<Rightarrow> ('w, u8 list) user" where
  "ugets buf m = ubind (gets_loop buf 0 m) (\<lambda>(buf, i). val (buf[i := 0]))"

definition ustat :: "u8 list \<Rightarrow> ('w, int \<times> stat_t option) user" where
  "ustat n =
     ubind (u_open n O_RDONLY) (\<lambda>fd.
     if fd < 0 then val (-1, None)
     else ubind (u_fstat fd) (\<lambda>(r, st). ubind (u_close fd) (\<lambda>_. val (r, Some st))))"

definition SBRK_EAGER :: int where "SBRK_EAGER = 1"
definition SBRK_LAZY :: int where "SBRK_LAZY = 2"

definition sbrk :: "int \<Rightarrow> ('w, u32) user" where
  "sbrk n = u_sbrk n SBRK_EAGER"

definition sbrklazy :: "int \<Rightarrow> ('w, u32) user" where
  "sbrklazy n = u_sbrk n SBRK_LAZY"

definition ustart :: "(u8 list list \<Rightarrow> ('w, int) user) \<Rightarrow> u8 list list \<Rightarrow> ('w, unit) user" where
  "ustart main argv = ubind (main argv) (\<lambda>r. u_exit r)"

section \<open>What they compute\<close>

lemma move_up_copies:
  "d < s \<Longrightarrow> s + n \<le> length a \<Longrightarrow> move_up a d s n = take d a @ take n (drop s a) @ drop (d + n) a"
proof (induction n arbitrary: a d s)
  case (Suc n)
  let ?b = "a[d := a ! s]"
  have "move_up ?b (d + 1) (s + 1) n = take (d + 1) ?b @ take n (drop (s + 1) ?b) @ drop (d + 1 + n) ?b"
    using Suc.prems by (intro Suc.IH) simp_all
  also have "\<dots> = take d a @ (a ! s # take n (drop (s + 1) a)) @ drop (d + Suc n) a"
    using Suc.prems by (simp add: take_Suc_conv_app_nth)
  also have "a ! s # take n (drop (s + 1) a) = take (Suc n) (drop s a)"
    using Suc.prems Cons_nth_drop_Suc [of s a, symmetric] by simp
  finally show ?case by simp
qed simp

lemma move_down_copies:
  "s \<le> d \<Longrightarrow> d + n \<le> length a \<Longrightarrow> move_down a (d + n) (s + n) n = take d a @ take n (drop s a) @ drop (d + n) a"
proof (induction n arbitrary: a)
  case (Suc n)
  let ?b = "a[d + n := a ! (s + n)]"
  have "move_down ?b (d + n) (s + n) n = take d ?b @ take n (drop s ?b) @ drop (d + n) ?b"
    using Suc.prems by (intro Suc.IH) simp_all
  also have "\<dots> = take d a @ (take n (drop s a) @ [a ! (s + n)]) @ drop (d + Suc n) a"
  proof -
    have "take n (drop s ?b) = take n (drop s a)" using Suc.prems by (auto simp: list_eq_iff_nth_eq nth_list_update)
    moreover have "drop (d + n) ?b = a ! (s + n) # drop (d + Suc n) a"
      using Suc.prems by (simp add: drop_update_swap Cons_nth_drop_Suc [symmetric])
    ultimately show ?thesis by simp
  qed
  also have "take n (drop s a) @ [a ! (s + n)] = take (Suc n) (drop s a)"
    using Suc.prems by (simp add: take_Suc_conv_app_nth)
  finally show ?case by simp
qed simp

lemma umemmove_copies:
  assumes "d + n \<le> length a" "s + n \<le> length a"
  shows "umemmove a d s (int n) = take d a @ take n (drop s a) @ drop (d + n) a"
proof (cases "d < s")
  case True
  then show ?thesis using move_up_copies assms by (simp add: umemmove_def)
next
  case False
  moreover have "nat (int d + int n) = d + n" "nat (int s + int n) = s + n" by arith+
  ultimately show ?thesis using move_down_copies [of s d n a] assms by (simp add: umemmove_def)
qed

lemma ch_drop:
  assumes "drop p a = x # t"
  shows "ch a p = x" "drop (p + 1) a = t"
proof -
  have "p < length a" using assms by (metis drop_all linorder_not_le list.distinct(1))
  then show "ch a p = x" "drop (p + 1) a = t" using assms Cons_nth_drop_Suc [of p a] by (simp_all add: ch_def)
qed

lemma ustrchr_found: "drop p a = l @ c # t \<Longrightarrow> 0 \<notin> set l \<Longrightarrow> c \<notin> set l \<Longrightarrow> c \<noteq> 0 \<Longrightarrow> ustrchr a p c = Some (p + length l)"
proof (induction l arbitrary: p)
  case Nil
  then show ?case using ch_drop [of p a c t] by (subst ustrchr.simps) simp
next
  case (Cons x l)
  then show ?case using ch_drop [of p a x "l @ c # t"] Cons.IH [of "p + 1"] by (subst ustrchr.simps) auto
qed

lemma ustrchr_missing: "drop p a = l @ 0 # t \<Longrightarrow> 0 \<notin> set l \<Longrightarrow> c \<notin> set l \<Longrightarrow> ustrchr a p c = None"
proof (induction l arbitrary: p)
  case Nil
  then show ?case using ch_drop [of p a 0 t] by (subst ustrchr.simps) simp
next
  case (Cons x l)
  then show ?case using ch_drop [of p a x "l @ 0 # t"] Cons.IH [of "p + 1"] by (subst ustrchr.simps) auto
qed

end
