(* ===== verification/Uprintf.thy ===== *)
theory Uprintf
  imports Ulib
begin

text \<open>
  Formatted output of user programs, \<open>user/printf.c\<close>. Numbers are widened to the 64 bits of
  \<open>long long\<close>; \<open>int\<close>, \<open>long\<close> and pointers have 32. As in the kernel's version, a format that asks for an
  argument that was not passed, undefined in C, has no value in the model.
\<close>

definition udigits :: "u8 list" where
  "udigits = cs ''0123456789ABCDEF''"

definition u_putc :: "int \<Rightarrow> u8 \<Rightarrow> ('w, unit) user" where
  "u_putc fd c = ubind (u_write fd [c]) (\<lambda>_. val ())"

fun u_puts :: "int \<Rightarrow> u8 list \<Rightarrow> ('w, unit) user" where
  "u_puts fd [] = val ()"
| "u_puts fd (c # s) = ubind (u_putc fd c) (\<lambda>_. u_puts fd s)"

text \<open>The digits of \<open>x\<close>, least significant first, into a buffer with room for \<open>room\<close> of them.\<close>

fun uprintint_digits :: "nat \<Rightarrow> 64 word \<Rightarrow> 64 word \<Rightarrow> u8 list option" where
  "uprintint_digits 0 x base = None"
| "uprintint_digits (Suc room) x base =
     (let d = udigits ! unat (x mod base); x' = x div base in
      if x' \<noteq> 0 then map_option ((#) d) (uprintint_digits room x' base) else Some [d])"

definition uprintint :: "int \<Rightarrow> 64 word \<Rightarrow> 64 word \<Rightarrow> bool \<Rightarrow> ('w, unit) user" where
  "uprintint fd xx base sg =
     (let neg = sg \<and> xx <s 0; x = (if neg then - xx else xx) in
      case uprintint_digits 20 x base of
        None \<Rightarrow> u_undef
      | Some buf \<Rightarrow>
          if neg
          then (if length buf < 20 then u_puts fd (rev (buf @ cs ''-'')) else u_undef)
          else u_puts fd (rev buf))"

definition uprintptr :: "int \<Rightarrow> u32 \<Rightarrow> ('w, unit) user" where
  "uprintptr fd x =
     ubind (u_putc fd 48) (\<lambda>_.
     ubind (u_putc fd 120) (\<lambda>_.
     u_puts fd (map (\<lambda>i. udigits ! unat (drop_bit 28 (push_bit (4 * i) x))) [0..<8])))"

datatype uarg = Num u32 | Str "u8 list option"

datatype uconv = Signed nat | Wide nat | Unsigned nat "64 word" | Pointer | Character | String | Percent | Unknown

text \<open>The conversion that starts with the characters \<open>c0\<close>, \<open>c1\<close>, \<open>c2\<close>: for numbers, how many characters
  more than one it consumes. \<open>Wide\<close> is a signed conversion of an argument fetched as \<open>uint64\<close>.\<close>

definition uconv_of :: "u8 \<Rightarrow> u8 \<Rightarrow> u8 \<Rightarrow> uconv" where
  "uconv_of c0 c1 c2 =
     (if c0 = of_char CHR ''d'' then Signed 0
      else if c0 = of_char CHR ''l'' \<and> c1 = of_char CHR ''d'' then Wide 1
      else if c0 = of_char CHR ''l'' \<and> c1 = of_char CHR ''l'' \<and> c2 = of_char CHR ''d'' then Wide 2
      else if c0 = of_char CHR ''u'' then Unsigned 0 10
      else if c0 = of_char CHR ''l'' \<and> c1 = of_char CHR ''u'' then Unsigned 1 10
      else if c0 = of_char CHR ''l'' \<and> c1 = of_char CHR ''l'' \<and> c2 = of_char CHR ''u'' then Unsigned 2 10
      else if c0 = of_char CHR ''x'' then Unsigned 0 16
      else if c0 = of_char CHR ''l'' \<and> c1 = of_char CHR ''x'' then Unsigned 1 16
      else if c0 = of_char CHR ''l'' \<and> c1 = of_char CHR ''l'' \<and> c2 = of_char CHR ''x'' then Unsigned 2 16
      else if c0 = of_char CHR ''p'' then Pointer
      else if c0 = of_char CHR ''c'' then Character
      else if c0 = of_char CHR ''s'' then String
      else if c0 = of_char CHR ''%'' then Percent
      else Unknown)"

text \<open>What a conversion prints; the remaining arguments and the characters it skips.\<close>

definition uconvert :: "int \<Rightarrow> u8 \<Rightarrow> uconv \<Rightarrow> uarg list \<Rightarrow> ('w, uarg list \<times> nat) user" where
  "uconvert fd c0 cv args =
     (case (cv, args) of
        (Signed k, Num n # ap) \<Rightarrow> ubind (uprintint fd (scast n) 10 True) (\<lambda>_. val (ap, k))
      | (Wide k, Num n # ap) \<Rightarrow> ubind (uprintint fd (ucast n) 10 True) (\<lambda>_. val (ap, k))
      | (Unsigned k base, Num n # ap) \<Rightarrow> ubind (uprintint fd (ucast n) base False) (\<lambda>_. val (ap, k))
      | (Pointer, Num n # ap) \<Rightarrow> ubind (uprintptr fd n) (\<lambda>_. val (ap, 0))
      | (Character, Num n # ap) \<Rightarrow> ubind (u_putc fd (ucast n)) (\<lambda>_. val (ap, 0))
      | (String, Str s # ap) \<Rightarrow> ubind (u_puts fd (case s of None \<Rightarrow> cs ''(null)'' | Some s \<Rightarrow> s)) (\<lambda>_. val (ap, 0))
      | (Percent, ap) \<Rightarrow> ubind (u_putc fd (of_char CHR ''%'')) (\<lambda>_. val (ap, 0))
      | (Unknown, ap) \<Rightarrow> ubind (u_putc fd (of_char CHR ''%'')) (\<lambda>_. ubind (u_putc fd c0) (\<lambda>_. val (ap, 0)))
      | _ \<Rightarrow> u_undef)"

text \<open>The loop over the format; \<open>st\<close> says that a percent sign has been seen.\<close>

function vprintf_loop :: "int \<Rightarrow> u8 list \<Rightarrow> nat \<Rightarrow> bool \<Rightarrow> uarg list \<Rightarrow> ('w, unit) user" where
  "vprintf_loop fd fmt i st ap =
     (let c0 = ch fmt i in
      if c0 = 0 then val ()
      else if \<not> st
      then
        (if c0 = of_char CHR ''%'' then vprintf_loop fd fmt (i + 1) True ap
         else ubind (u_putc fd c0) (\<lambda>_. vprintf_loop fd fmt (i + 1) False ap))
      else
        (let c1 = ch fmt (i + 1); c2 = (if c1 \<noteq> 0 then ch fmt (i + 2) else 0) in
         ubind (uconvert fd c0 (uconv_of c0 c1 c2) ap) (\<lambda>(ap, k). vprintf_loop fd fmt (i + k + 1) False ap)))"
  by auto
termination by (relation "measure (\<lambda>(fd, fmt, i, st, ap). length fmt - i)") (auto simp: ch_def split: if_splits)

declare vprintf_loop.simps [simp del]

definition vprintf :: "int \<Rightarrow> u8 list \<Rightarrow> uarg list \<Rightarrow> ('w, unit) user" where
  "vprintf fd fmt ap = vprintf_loop fd fmt 0 False ap"

definition fprintf :: "int \<Rightarrow> u8 list \<Rightarrow> uarg list \<Rightarrow> ('w, unit) user" where
  "fprintf fd fmt ap = vprintf fd fmt ap"

definition uprintf :: "u8 list \<Rightarrow> uarg list \<Rightarrow> ('w, unit) user" where
  "uprintf fmt ap = vprintf 1 fmt ap"

end
