(* ===== verification/Grep.thy ===== *)
theory Grep
  imports Uprintf
begin

text \<open>
  \<open>user/grep.c\<close>: the regular expression matcher, shown equivalent to the languages its patterns denote, and
  the loop that splits its input into lines.
\<close>

section \<open>The matcher\<close>

function (sequential) matchhere :: "u8 list \<Rightarrow> u8 list \<Rightarrow> bool" and matchstar :: "u8 \<Rightarrow> u8 list \<Rightarrow> u8 list \<Rightarrow> bool" where
  "matchhere re tx =
     (if ch re 0 = 0 then True
      else if ch re 1 = 42 then matchstar (ch re 0) (drop 2 re) tx
      else if ch re 0 = 36 \<and> ch re 1 = 0 then ch tx 0 = 0
      else if ch tx 0 \<noteq> 0 \<and> (ch re 0 = 46 \<or> ch re 0 = ch tx 0) then matchhere (drop 1 re) (drop 1 tx)
      else False)"
| "matchstar c re tx =
     (if matchhere re tx then True
      else if ch tx 0 \<noteq> 0 \<and> (ch tx 0 = c \<or> c = 46) then matchstar c re (drop 1 tx)
      else False)"
  by pat_completeness auto
termination
proof (relation "measures [\<lambda>x. case x of Inl (re, tx) \<Rightarrow> length re | Inr (c, re, tx) \<Rightarrow> length re,
    \<lambda>x. case x of Inl (re, tx) \<Rightarrow> length tx | Inr (c, re, tx) \<Rightarrow> length tx,
    \<lambda>x. case x of Inl _ \<Rightarrow> 0 | Inr _ \<Rightarrow> 1]")
qed (auto simp: ch_def split: if_splits)

declare matchhere.simps [simp del] matchstar.simps [simp del]

function match_from :: "u8 list \<Rightarrow> u8 list \<Rightarrow> bool" where
  "match_from re tx =
     (if matchhere re tx then True else if ch tx 0 \<noteq> 0 then match_from re (drop 1 tx) else False)"
  by auto
termination by (relation "measure (\<lambda>(re, tx). length tx)") (auto simp: ch_def split: if_splits)

declare match_from.simps [simp del]

definition match :: "u8 list \<Rightarrow> u8 list \<Rightarrow> bool" where
  "match re tx = (if ch re 0 = 94 then matchhere (drop 1 re) tx else match_from re tx)"

section \<open>The language of a pattern\<close>

text \<open>A pattern is a sequence of items; a \<open>$\<close> at its end anchors it at the end of the text.\<close>

datatype atom = Lit u8 | Any

datatype item = One atom | Star atom

definition atom_of :: "u8 \<Rightarrow> atom" where
  "atom_of c = (if c = 46 then Any else Lit c)"

fun items_of :: "u8 list \<Rightarrow> item list \<times> bool" where
  "items_of [] = ([], False)"
| "items_of [c] = (if c = 36 then ([], True) else ([One (atom_of c)], False))"
| "items_of (c # d # re) =
     (if d = 42 then apfst ((#) (Star (atom_of c))) (items_of re) else apfst ((#) (One (atom_of c))) (items_of (d # re)))"

fun accepts :: "atom \<Rightarrow> u8 \<Rightarrow> bool" where
  "accepts (Lit c) x \<longleftrightarrow> x = c"
| "accepts Any x \<longleftrightarrow> True"

fun item_lang :: "item \<Rightarrow> u8 list set" where
  "item_lang (One a) = {[x] | x. accepts a x}"
| "item_lang (Star a) = {u. \<forall>x \<in> set u. accepts a x}"

fun lang :: "item list \<Rightarrow> u8 list set" where
  "lang [] = {[]}"
| "lang (i # its) = {u @ v | u v. u \<in> item_lang i \<and> v \<in> lang its}"

text \<open>The pattern occurs at the beginning of the text.\<close>

definition begins :: "item list \<times> bool \<Rightarrow> u8 list \<Rightarrow> bool" where
  "begins p tx \<longleftrightarrow> (\<exists>u v. tx = u @ v \<and> u \<in> lang (fst p) \<and> (snd p \<longrightarrow> v = []))"

lemma begins_cons: "begins (i # its, e) tx \<longleftrightarrow> (\<exists>u t. tx = u @ t \<and> u \<in> item_lang i \<and> begins (its, e) t)"
  unfolding begins_def by (simp, metis append_assoc)

lemma begins_one: "begins (One a # its, e) tx \<longleftrightarrow> (\<exists>x t. tx = x # t \<and> accepts a x \<and> begins (its, e) t)"
  by (simp add: begins_cons) (metis append_Cons append_Nil)

lemma begins_star: "begins (Star a # its, e) tx \<longleftrightarrow>
  begins (its, e) tx \<or> (\<exists>x t. tx = x # t \<and> accepts a x \<and> begins (Star a # its, e) t)"
proof
  assume "begins (Star a # its, e) tx"
  then obtain u t where "tx = u @ t" "\<forall>x \<in> set u. accepts a x" "begins (its, e) t" by (auto simp: begins_cons)
  then show "begins (its, e) tx \<or> (\<exists>x t. tx = x # t \<and> accepts a x \<and> begins (Star a # its, e) t)"
    by (cases u) (auto simp: begins_cons)
next
  assume "begins (its, e) tx \<or> (\<exists>x t. tx = x # t \<and> accepts a x \<and> begins (Star a # its, e) t)"
  then show "begins (Star a # its, e) tx"
  proof (elim disjE exE conjE)
    assume "begins (its, e) tx"
    then show ?thesis unfolding begins_cons by (intro exI [of _ "[]"] exI [of _ tx]) simp
  next
    fix x t assume t: "tx = x # t" "accepts a x" "begins (Star a # its, e) t"
    then obtain u v where "t = u @ v" "\<forall>y \<in> set u. accepts a y" "begins (its, e) v" by (auto simp: begins_cons)
    with t show ?thesis unfolding begins_cons by (intro exI [of _ "x # u"] exI [of _ v]) simp
  qed
qed

section \<open>The matcher decides it\<close>

lemma accepts_atom_of: "accepts (atom_of c) x \<longleftrightarrow> c = 46 \<or> x = c"
  by (simp add: atom_of_def)

lemma begins_nil: "begins ([], e) tx \<longleftrightarrow> (e \<longrightarrow> tx = [])"
  by (auto simp: begins_def)

lemma ch_Cons1: "ch (c # s) 1 = ch s 0"
  by (simp add: ch_def nth_Cons')

text \<open>One step of the matcher, by the form of the pattern.\<close>

lemma matchhere_step:
  assumes "0 \<notin> set tx"
  shows "matchhere [] tx"
    "c \<noteq> 0 \<Longrightarrow> matchhere [c] tx = (if c = 36 then tx = [] else tx \<noteq> [] \<and> (c = 46 \<or> c = hd tx))"
    "c \<noteq> 0 \<Longrightarrow> matchhere (c # 42 # re) tx = matchstar c re tx"
    "c \<noteq> 0 \<Longrightarrow> d \<noteq> 0 \<Longrightarrow> d \<noteq> 42 \<Longrightarrow>
      matchhere (c # d # re) tx = (tx \<noteq> [] \<and> (c = 46 \<or> c = hd tx) \<and> matchhere (d # re) (tl tx))"
proof -
  show nil: "matchhere [] tx" by (simp add: matchhere.simps)
  have "matchhere [] (tl tx)" by (simp add: matchhere.simps)
  then show "c \<noteq> 0 \<Longrightarrow> matchhere [c] tx = (if c = 36 then tx = [] else tx \<noteq> [] \<and> (c = 46 \<or> c = hd tx))"
    using assms by (subst matchhere.simps) (cases tx; auto simp: ch_Cons1)
  show "c \<noteq> 0 \<Longrightarrow> matchhere (c # 42 # re) tx = matchstar c re tx" by (subst matchhere.simps) (simp add: ch_Cons1)
  show "c \<noteq> 0 \<Longrightarrow> d \<noteq> 0 \<Longrightarrow> d \<noteq> 42 \<Longrightarrow>
      matchhere (c # d # re) tx = (tx \<noteq> [] \<and> (c = 46 \<or> c = hd tx) \<and> matchhere (d # re) (tl tx))"
    using assms by (subst matchhere.simps) (cases tx; auto simp: ch_Cons1)
qed

lemma matchhere_begins:
  "0 \<notin> set re \<Longrightarrow> 0 \<notin> set tx \<Longrightarrow> matchhere re tx = begins (items_of re) tx"
  "0 \<notin> set re \<Longrightarrow> 0 \<notin> set tx \<Longrightarrow> matchstar c re tx = begins (apfst ((#) (Star (atom_of c))) (items_of re)) tx"
proof (induction re tx and c re tx rule: matchhere_matchstar.induct)
  case (1 re tx)
  note step = matchhere_step [OF "1.prems"(2)]
  show ?case
  proof (cases re rule: items_of.cases)
    case 1
    then show ?thesis using step(1) by (simp add: begins_nil)
  next
    case (2 c)
    then show ?thesis using step(2) [of c] "1.prems" by (cases tx) (auto simp: begins_nil begins_one accepts_atom_of)
  next
    case (3 c d re')
    obtain its e where p: "items_of (d # re') = (its, e)" by fastforce
    show ?thesis
    proof (cases "d = 42")
      case True
      then show ?thesis using 3 "1.IH"(1) "1.prems" step(3) [of c re'] by (simp add: ch_Cons1)
    next
      case False
      have "matchhere (d # re') (tl tx) = begins (its, e) (tl tx)" if "tx \<noteq> []" "c = 46 \<or> c = hd tx"
        using "1.IH"(2) 3 False "1.prems" p that by (cases tx) (auto simp: ch_Cons1)
      then show ?thesis using 3 False p "1.prems" step(4) [of c d re'] by (cases tx) (auto simp: begins_one accepts_atom_of)
    qed
  qed
next
  case (2 c re tx)
  obtain its e where p: "items_of re = (its, e)" by fastforce
  have h: "matchhere re tx = begins (its, e) tx" using 2 p by simp
  show ?case
  proof (cases tx)
    case Nil
    then show ?thesis using h p by (subst matchstar.simps) (simp add: begins_star [of _ _ _ "[]"])
  next
    case (Cons x t)
    have "matchstar c re t = begins (Star (atom_of c) # its, e) t" if "\<not> matchhere re tx" "x = c \<or> c = 46"
      using 2 Cons that p by auto
    then show ?thesis using h p Cons "2.prems" begins_star [of "atom_of c" its e tx]
      by (subst matchstar.simps) (auto simp: accepts_atom_of)
  qed
qed

lemma matchstar_step:
  "matchstar c re [] = matchhere re []"
  "x \<noteq> 0 \<Longrightarrow> matchstar c re (x # t) = (matchhere re (x # t) \<or> (x = c \<or> c = 46) \<and> matchstar c re t)"
  by (subst matchstar.simps, simp)+

lemma match_from_step:
  "match_from re [] = matchhere re []"
  "x \<noteq> 0 \<Longrightarrow> match_from re (x # t) = (matchhere re (x # t) \<or> match_from re t)"
  by (subst match_from.simps, simp)+

lemma match_from_begins:
  assumes "0 \<notin> set re" "0 \<notin> set tx"
  shows "match_from re tx \<longleftrightarrow> (\<exists>pre t. tx = pre @ t \<and> begins (items_of re) t)"
  using assms(2)
proof (induction tx)
  case Nil
  then show ?case using matchhere_begins(1) [OF assms(1), of "[]"] by (subst match_from.simps) simp
next
  case (Cons x tx)
  have "match_from re (x # tx) \<longleftrightarrow> begins (items_of re) (x # tx) \<or> match_from re tx"
    using Cons.prems matchhere_begins(1) [OF assms(1) Cons.prems] by (subst match_from.simps) auto
  also have "\<dots> \<longleftrightarrow> (\<exists>pre t. x # tx = pre @ t \<and> begins (items_of re) t)"
    using Cons by (auto simp: Cons_eq_append_conv)
  finally show ?case .
qed

text \<open>C30: The matcher of \<open>grep\<close> decides its regular expressions: \<open>match\<close> (whose loops and recursion
  terminate) finds a pattern in a text exactly if some stretch of the text belongs to the language of the
  pattern, where \<open>.\<close> stands for any character, \<open>c*\<close> for any repetition of \<open>c\<close>, every other character
  for itself, a leading \<open>^\<close> requires the stretch to begin the text and a final \<open>$\<close> to end it.\<close>

theorem match_regular:
  assumes "0 \<notin> set re" "0 \<notin> set tx"
  shows "match re tx \<longleftrightarrow> (\<exists>pre mid post. tx = pre @ mid @ post
    \<and> mid \<in> lang (fst (items_of (if ch re 0 = 94 then tl re else re)))
    \<and> (ch re 0 = 94 \<longrightarrow> pre = []) \<and> (snd (items_of (if ch re 0 = 94 then tl re else re)) \<longrightarrow> post = []))"
proof (cases "ch re 0 = 94")
  case True
  have "0 \<notin> set (tl re)" using assms(1) by (cases re) auto
  then show ?thesis using True matchhere_begins(1) [OF _ assms(2), of "tl re"] by (auto simp: match_def begins_def drop_Suc)
next
  case False
  then show ?thesis using match_from_begins [OF assms] by (simp add: match_def begins_def) blast
qed

theorem match_regular_witness:
  "match (cs ''^a.*b$'') (cs ''axxb'') \<and> \<not> match (cs ''^b'') (cs ''ab'')
   \<and> (\<exists>pre mid post. cs ''axxb'' = pre @ mid @ post \<and> mid \<in> lang (fst (items_of (cs ''a.*b$''))))"
proof -
  have m: "match (cs ''^a.*b$'') (cs ''axxb'')" "\<not> match (cs ''^b'') (cs ''ab'')"
    by (simp_all add: match_def cs_def matchhere.simps matchstar.simps ch_def of_char_def)
  have c: "ch (cs ''^a.*b$'') 0 = 94" "tl (cs ''^a.*b$'') = cs ''a.*b$''" "0 \<notin> set (cs ''^a.*b$'')" "0 \<notin> set (cs ''axxb'')"
    by (simp_all add: cs_def ch_def of_char_def)
  obtain pre mid post where "cs ''axxb'' = pre @ mid @ post" "mid \<in> lang (fst (items_of (cs ''a.*b$'')))"
    using match_regular [OF c(3,4), THEN iffD1, OF m(1)] unfolding c(1,2) if_P [OF refl] by metis
  with m show ?thesis by metis
qed

section \<open>Lines\<close>

text \<open>The string that starts at index \<open>p\<close> of an array.\<close>

definition str_at :: "u8 list \<Rightarrow> nat \<Rightarrow> u8 list" where
  "str_at a p = takeWhile (\<lambda>c. c \<noteq> 0) (drop p a)"

lemma ustrchr_bounds: "ustrchr s p c = Some q \<Longrightarrow> p \<le> q \<and> q < length s"
proof (induction s p c rule: ustrchr.induct)
  case (1 s p c)
  then show ?case by (subst (asm) ustrchr.simps) (auto simp: ch_def split: if_splits dest: "1.IH")
qed

function grep_lines :: "u8 list \<Rightarrow> u8 list \<Rightarrow> nat \<Rightarrow> ('w, u8 list \<times> nat) user" where
  "grep_lines pattern buf p =
     (case ustrchr buf p 10 of
        None \<Rightarrow> val (buf, p)
      | Some q \<Rightarrow>
          let buf0 = buf[q := 0] in
          if match pattern (str_at buf0 p)
          then
            (let buf1 = buf0[q := 10] in
             ubind (u_write 1 (take (q + 1 - p) (drop p buf1))) (\<lambda>_. grep_lines pattern buf1 (q + 1)))
          else grep_lines pattern buf0 (q + 1))"
  by auto
termination by (relation "measure (\<lambda>(pattern, buf, p). length buf - p)") (auto dest: ustrchr_bounds)

declare grep_lines.simps [simp del]

definition grep_bufsize :: nat where "grep_bufsize = 1024"

text \<open>The bytes \<open>bs\<close> that a read stores at index \<open>m\<close>.\<close>

definition store_at :: "u8 list \<Rightarrow> nat \<Rightarrow> u8 list \<Rightarrow> u8 list" where
  "store_at buf m bs = take m buf @ bs @ drop (m + length bs) buf"

fun grep_loop :: "nat \<Rightarrow> u8 list \<Rightarrow> int \<Rightarrow> u8 list \<Rightarrow> nat \<Rightarrow> ('w, u8 list) user" where
  "grep_loop 0 pattern fd buf m = u_spin"
| "grep_loop (Suc fuel) pattern fd buf m =
     ubind (u_read fd (grep_bufsize - m - 1)) (\<lambda>(n, bs).
     if 0 < n
     then
       (let m1 = m + nat n; buf1 = (store_at buf m bs)[m1 := 0] in
        ubind (grep_lines pattern buf1 0) (\<lambda>(buf2, p).
        if 0 < m1
        then grep_loop fuel pattern fd (umemmove buf2 0 p (int m1 - int p)) (m1 - p)
        else grep_loop fuel pattern fd buf2 m1))
     else val buf)"

text \<open>The array \<open>buf\<close> is global: what one call leaves in it the next one finds.\<close>

definition grep :: "nat \<Rightarrow> u8 list \<Rightarrow> int \<Rightarrow> u8 list \<Rightarrow> ('w, u8 list) user" where
  "grep fuel pattern fd buf = grep_loop fuel pattern fd buf 0"

fun grep_files :: "nat \<Rightarrow> u8 list \<Rightarrow> u8 list list \<Rightarrow> u8 list \<Rightarrow> ('w, int) user" where
  "grep_files fuel pattern [] buf = u_exit 0"
| "grep_files fuel pattern (f # fs) buf =
     ubind (u_open f O_RDONLY) (\<lambda>fd.
     if fd < 0 then ubind (uprintf (cs ''grep: cannot open %s'' @ [10]) [Str (Some f)]) (\<lambda>_. u_exit 1)
     else ubind (grep fuel pattern fd buf) (\<lambda>buf. ubind (u_close fd) (\<lambda>_. grep_files fuel pattern fs buf)))"

definition grep_main :: "nat \<Rightarrow> u8 list list \<Rightarrow> ('w, int) user" where
  "grep_main fuel argv =
     (let buf = replicate grep_bufsize 0 in
      case argv of
        a0 # pattern # files \<Rightarrow>
          if files = [] then ubind (grep fuel pattern 0 buf) (\<lambda>_. u_exit 0) else grep_files fuel pattern files buf
      | _ \<Rightarrow> ubind (fprintf 2 (cs ''usage: grep pattern [file ...]'' @ [10]) []) (\<lambda>_. u_exit 1))"

subsection \<open>Complete lines\<close>

text \<open>The complete lines of a text, without their newlines, and what follows the last newline.\<close>

fun split_lines :: "u8 list \<Rightarrow> u8 list list \<times> u8 list" where
  "split_lines [] = ([], [])"
| "split_lines (x # xs) =
     (let (ls, r) = split_lines xs in
      if x = 10 then ([] # ls, r) else case ls of [] \<Rightarrow> ([], x # r) | l # ls' \<Rightarrow> ((x # l) # ls', r))"

definition unlines :: "u8 list list \<Rightarrow> u8 list" where
  "unlines ls = concat (map (\<lambda>l. l @ [10]) ls)"

lemma unlines_simps [simp]: "unlines [] = []" "unlines (l # ls) = l @ 10 # unlines ls" "unlines (ls @ ks) = unlines ls @ unlines ks"
  by (simp_all add: unlines_def)

lemma split_lines_join:
  "split_lines xs = (ls, r) \<Longrightarrow> xs = unlines ls @ r \<and> (\<forall>l \<in> set ls. 10 \<notin> set l) \<and> 10 \<notin> set r"
  by (induction xs arbitrary: ls r) (auto split: prod.splits if_splits list.splits)

lemma split_lines_none: "10 \<notin> set r \<Longrightarrow> split_lines r = ([], r)"
  by (induction r) auto

lemma split_lines_line: "10 \<notin> set l \<Longrightarrow> split_lines (l @ 10 # t) = (l # fst (split_lines t), snd (split_lines t))"
  by (induction l) (auto split: prod.splits)

lemma split_lines_unlines:
  "\<forall>l \<in> set ls. 10 \<notin> set l \<Longrightarrow> split_lines (unlines ls @ t) = (ls @ fst (split_lines t), snd (split_lines t))"
  by (induction ls) (simp_all add: split_lines_line)

lemma split_lines_append:
  assumes "split_lines xs = (ls, r)"
  shows "split_lines (xs @ ys) = (ls @ fst (split_lines (r @ ys)), snd (split_lines (r @ ys)))"
proof -
  have "xs = unlines ls @ r" "\<forall>l \<in> set ls. 10 \<notin> set l" using split_lines_join [OF assms] by simp_all
  then show ?thesis using split_lines_unlines [of ls "r @ ys"] by simp
qed

section \<open>The loops\<close>

lemma drop_below: "p \<le> m \<Longrightarrow> m \<le> length buf \<Longrightarrow> drop p buf = drop p (take m buf) @ drop m buf"
  using append_take_drop_id [of m buf] drop_append [of p "take m buf" "drop m buf"] by simp

text \<open>After a line, in the array with any byte in place of its newline.\<close>

lemma after_line:
  assumes "length buf = N" "m < N" "buf ! m = 0" "p \<le> m" "drop p (take m buf) = l @ 10 # t" "b = buf[p + length l := x]"
  shows "length b = N" "b ! m = 0" "p + length l + 1 \<le> m" "drop (p + length l + 1) (take m b) = t"
    "drop p b = l @ x # drop (p + length l + 1) b"
proof -
  have "length (drop p (take m buf)) = length l + 1 + length t" by (simp add: assms(5))
  moreover have "length (drop p (take m buf)) = m - p" using assms(1-4) by simp
  ultimately have len: "m = p + length l + 1 + length t" using assms(4) by simp
  show "length b = N" "b ! m = 0" "p + length l + 1 \<le> m" using assms len by simp_all
  have "drop (length l + 1) (drop p (take m buf)) = t" by (simp add: assms(5))
  then show "drop (p + length l + 1) (take m b) = t" using assms(6) by (simp add: take_update_swap add.commute add.left_commute)
  have "take (length l) (drop p buf) = l" using drop_below [of p m buf] assms by simp
  then have "take (length l) (drop p b) = l" using assms(6) by (simp add: drop_update_swap)
  moreover have "drop p b = take (length l) (drop p b) @ drop (p + length l) b" by (metis append_take_drop_id drop_drop add.commute)
  moreover have "drop (p + length l) b = x # drop (p + length l + 1) b"
    using Cons_nth_drop_Suc [of "p + length l" b] assms len by simp
  ultimately show "drop p b = l @ x # drop (p + length l + 1) b" by simp
qed

lemma grep_lines_spec:
  assumes S: "streams S fd rest out"
  shows "length buf = N \<Longrightarrow> m < N \<Longrightarrow> buf ! m = 0 \<Longrightarrow> p \<le> m \<Longrightarrow> 0 \<notin> set (drop p (take m buf)) \<Longrightarrow>
    split_lines (drop p (take m buf)) = (ls, r) \<Longrightarrow>
    \<exists>buf' v. grep_lines pattern buf p S w = Val (buf', m - length r) v \<and> length buf' = N \<and> length r \<le> m
      \<and> drop (m - length r) (take m buf') = r \<and> rest v = rest w \<and> out v = out w @ unlines (filter (match pattern) ls)"
proof (induction ls arbitrary: p buf w)
  case Nil
  have e: "drop p (take m buf) = r" "10 \<notin> set r" using split_lines_join [OF Nil.prems(6)] by simp_all
  have "drop p buf = r @ 0 # drop (Suc m) buf" using drop_below [of p m buf] e Nil.prems Cons_nth_drop_Suc [of m buf] by simp
  then have "ustrchr buf p 10 = None" using ustrchr_missing e Nil.prems(5) by auto
  moreover have "m - length r = p" "length r \<le> m" using e(1) Nil.prems by auto
  ultimately show ?case using e Nil.prems by (subst grep_lines.simps) (simp add: user_simps)
next
  case (Cons l ls)
  let ?t = "unlines ls @ r" let ?q = "p + length l" let ?b0 = "buf[?q := 0]" let ?b1 = "?b0[?q := 10]"
  have e: "drop p (take m buf) = l @ 10 # ?t" "10 \<notin> set l" "\<forall>l \<in> set ls. 10 \<notin> set l" "10 \<notin> set r"
    using split_lines_join [OF Cons.prems(6)] by simp_all
  note after = after_line [OF Cons.prems(1-4) e(1)]
  have z: "0 \<notin> set l" "0 \<notin> set ?t" using Cons.prems(5) e(1) by simp_all
  have t: "split_lines ?t = (ls, r)" using split_lines_unlines [OF e(3), of r] split_lines_none [OF e(4)] by simp
  have q: "ustrchr buf p 10 = Some ?q"
    using ustrchr_found [of p buf l 10] drop_below [of p m buf] e z Cons.prems by simp
  have "\<forall>x \<in> set l. x \<noteq> 0" using z(1) by auto
  then have l: "str_at ?b0 p = l" using after(5) [OF refl, of 0] by (simp add: str_at_def)
  have w1: "take (?q + 1 - p) (drop p ?b1) = l @ [10]" using after(5) [of ?b1 10] by simp
  have "\<exists>buf' v. grep_lines pattern b (?q + 1) S u = Val (buf', m - length r) v \<and> length buf' = N \<and> length r \<le> m
      \<and> drop (m - length r) (take m buf') = r \<and> rest v = rest u \<and> out v = out u @ unlines (filter (match pattern) ls)"
    if b: "b = buf[?q := x]" for b x u
    using Cons.IH [of b "?q + 1" u] after(1-4) [OF b] z(2) t Cons.prems(2) by simp
  note step = this [of ?b0 0] this [of ?b1 10]
  obtain v where v: "os_write S 1 (l @ [10]) w = (int (length (l @ [10])), v)" "rest v = rest w" "out v = out w @ l @ [10]"
    using S unfolding streams_def by blast
  show ?case
  proof (cases "match pattern l")
    case True
    then show ?thesis using step(2) [of v] v q l w1 by (subst grep_lines.simps) (simp add: user_simps Let_def)
  next
    case False
    then show ?thesis using step(1) [of w] q l by (subst grep_lines.simps) (simp add: Let_def)
  qed
qed

text \<open>The buffer after a read of \<open>bs\<close> behind the pending bytes.\<close>

lemma after_read:
  assumes "length buf = N" "m + length bs < N"
  shows "length ((store_at buf m bs)[m + length bs := 0]) = N" "(store_at buf m bs)[m + length bs := 0] ! (m + length bs) = 0"
    "take (m + length bs) ((store_at buf m bs)[m + length bs := 0]) = take m buf @ bs"
  using assms by (simp_all add: store_at_def)

lemma pending_line:
  assumes "split_lines (q @ t) = (l # ls, r)" "10 \<notin> set q"
  shows "length q \<le> length l"
proof (rule ccontr)
  assume "\<not> length q \<le> length l"
  moreover have "q @ t = l @ 10 # unlines ls @ r" using split_lines_join [OF assms(1)] by simp
  then have "(q @ t) ! length l = 10" by simp
  ultimately show False using assms(2) by (metis linorder_not_le nth_append nth_mem)
qed

text \<open>The pending bytes after a round are moved to the front.\<close>

lemma after_round:
  assumes "length buf = N" "m1 \<le> N" "length r \<le> m1" "drop (m1 - length r) (take m1 buf) = r"
  shows "length (umemmove buf 0 (m1 - length r) (int m1 - int (m1 - length r))) = N"
    "take (length r) (umemmove buf 0 (m1 - length r) (int m1 - int (m1 - length r))) = r"
proof -
  have "int m1 - int (m1 - length r) = int (length r)" using assms(3) by simp
  moreover have "take (length r) (drop (m1 - length r) buf) = r" using assms(3,4) by (simp add: take_drop)
  ultimately have "umemmove buf 0 (m1 - length r) (int m1 - int (m1 - length r)) = r @ drop (length r) buf"
    using umemmove_copies [of 0 "length r" buf "m1 - length r"] assms(1-3) by simp
  then show "length (umemmove buf 0 (m1 - length r) (int m1 - int (m1 - length r))) = N"
    "take (length r) (umemmove buf 0 (m1 - length r) (int m1 - int (m1 - length r))) = r" using assms(1-3) by simp_all
qed

lemma grep_loop_spec:
  assumes S: "streams S fd rest out"
  shows "length (rest w) < fuel \<Longrightarrow> length buf = grep_bufsize \<Longrightarrow> m < grep_bufsize \<Longrightarrow>
    10 \<notin> set (take m buf) \<Longrightarrow> 0 \<notin> set (take m buf @ rest w) \<Longrightarrow>
    \<forall>l \<in> set (fst (split_lines (take m buf @ rest w))). length l < grep_bufsize - 1 \<Longrightarrow>
    \<exists>buf' v. grep_loop fuel pattern fd buf m S w = Val buf' v
      \<and> out v = out w @ unlines (filter (match pattern) (fst (split_lines (take m buf @ rest w))))"
proof (induction fuel arbitrary: w buf m)
  case (Suc fuel)
  let ?pend = "take m buf" and ?N = grep_bufsize
  have lp: "length ?pend = m" using Suc.prems by simp
  obtain k v where k: "os_read S fd (?N - m - 1) w = ((int k, take k (rest w)), v)" "k \<le> ?N - m - 1" "k \<le> length (rest w)"
    "k = 0 \<longrightarrow> ?N - m - 1 = 0 \<or> rest w = []" "rest v = drop k (rest w)" "out v = out w"
    using S unfolding streams_def by blast
  show ?case
  proof (cases "k = 0")
    case True
    have "fst (split_lines (?pend @ rest w)) = []"
    proof (cases "rest w = []")
      case False
      then have "m = ?N - 1" using True k(4) Suc.prems(3) by simp
      then show ?thesis using pending_line [of ?pend "rest w"] Suc.prems(4,6) lp by (cases "split_lines (?pend @ rest w)"; cases "fst (split_lines (?pend @ rest w))") force+
    qed (use split_lines_none [OF Suc.prems(4)] in simp)
    then show ?thesis using True k by (simp add: user_simps)
  next
    case False
    let ?bs = "take k (rest w)" let ?m1 = "m + k" let ?b = "(store_at buf m ?bs)[?m1 := 0]"
    have kl: "length ?bs = k" "?m1 < ?N" using k(2,3) False Suc.prems(3) by auto
    note b = after_read [OF Suc.prems(2), of m ?bs, unfolded kl(1), OF kl(2)]
    obtain ls r where ls: "split_lines (?pend @ ?bs) = (ls, r)" by fastforce
    have j: "?pend @ ?bs = unlines ls @ r" "10 \<notin> set r" using split_lines_join [OF ls] by simp_all
    have nz: "0 \<notin> set (?pend @ ?bs)" using Suc.prems(5) by (auto dest: in_set_takeD)
    then have nr: "0 \<notin> set (r @ drop k (rest w))" using Suc.prems(5) unfolding j(1) by (auto dest: in_set_dropD)
    obtain b2 u where g: "grep_lines pattern ?b 0 S v = Val (b2, ?m1 - length r) u" "length b2 = ?N" "length r \<le> ?m1"
      "drop (?m1 - length r) (take ?m1 b2) = r" "rest u = rest v" "out u = out v @ unlines (filter (match pattern) ls)"
      using grep_lines_spec [OF S b(1) kl(2) b(2), of 0 ls r pattern v] nz ls b(3) by auto
    let ?b3 = "umemmove b2 0 (?m1 - length r) (int ?m1 - int (?m1 - length r))"
    note b3 = after_round [OF g(2) less_imp_le [OF kl(2)] g(3,4)]
    have all: "split_lines (?pend @ rest w) = (ls @ fst (split_lines (r @ drop k (rest w))), snd (split_lines (r @ drop k (rest w))))"
      using split_lines_append [OF ls, of "drop k (rest w)"] by simp
    have "\<exists>buf' x. grep_loop fuel pattern fd ?b3 (length r) S u = Val buf' x
      \<and> out x = out u @ unlines (filter (match pattern) (fst (split_lines (take (length r) ?b3 @ rest u))))"
    proof (rule Suc.IH)
      show "length (rest u) < fuel" using Suc.prems(1) k(3,5) False g(5) by simp
      show "length ?b3 = ?N" by (rule b3(1))
      show "length r < ?N" using g(3) kl(2) by simp
      show "10 \<notin> set (take (length r) ?b3)" "0 \<notin> set (take (length r) ?b3 @ rest u)"
        unfolding b3(2) using j(2) nr g(5) k(5) by simp_all
      show "\<forall>l \<in> set (fst (split_lines (take (length r) ?b3 @ rest u))). length l < ?N - 1"
        unfolding b3(2) using Suc.prems(6) g(5) k(5) by (simp add: all)
    qed
    moreover have "grep_loop (Suc fuel) pattern fd buf m S w = grep_loop fuel pattern fd ?b3 (length r) S u"
      using k(1) False g(1,3) kl by (simp add: user_simps Let_def ubind_def)
    ultimately show ?thesis using all b3(2) g(5,6) k(5,6) by simp
  qed
qed simp

text \<open>C31: \<open>grep\<close> prints exactly the matching lines. For a file without NUL bytes whose complete lines have at
  most 1022 characters, however the reads cut it into pieces, the loop ends and what it has written are the
  lines that \<open>match\<close> the pattern, in order and each with its newline.\<close>

theorem grep_prints_matches:
  assumes "streams S fd rest out" "length (rest w) < fuel" "length buf = grep_bufsize" "0 \<notin> set (rest w)"
    "\<forall>l \<in> set (fst (split_lines (rest w))). length l \<le> 1022"
  shows "\<exists>buf' v. grep fuel pattern fd buf S w = Val buf' v
    \<and> out v = out w @ unlines (filter (match pattern) (fst (split_lines (rest w))))"
proof -
  have "\<forall>l \<in> set (fst (split_lines (rest w))). length l < grep_bufsize - 1" using assms(5) by (auto simp: grep_bufsize_def)
  then show ?thesis using grep_loop_spec [OF assms(1,2,3), of 0 pattern] assms(4) by (simp add: grep_def grep_bufsize_def)
qed

theorem grep_prints_matches_witness:
  "\<exists>buf' v. grep 20 (cs ''b*c'') 0 (replicate grep_bufsize 0) (stdio_os 2) \<lparr>inp = cs ''abc'' @ 10 # cs ''bd'' @ 10 # cs ''c'', outp = []\<rparr> = Val buf' v
    \<and> outp v = cs ''abc'' @ [10]"
proof -
  let ?w = "\<lparr>inp = cs ''abc'' @ 10 # cs ''bd'' @ 10 # cs ''c'', outp = []\<rparr>"
  have c: "cs ''b*c'' = [98, 42, 99]" "cs ''abc'' = [97, 98, 99]" "cs ''bd'' = [98, 100]" "cs ''c'' = [99]"
    by (simp_all add: cs_def of_char_def)
  have m: "match (cs ''b*c'') (cs ''abc'')" "\<not> match (cs ''b*c'') (cs ''bd'')"
    by (simp_all add: c match_def match_from_step matchhere_step matchstar_step)
  have l: "fst (split_lines (inp ?w)) = [cs ''abc'', cs ''bd'']" by (simp add: c)
  have h: "length (inp ?w) < 20" "0 \<notin> set (inp ?w)" by (simp_all add: c)
  have k: "\<forall>l \<in> set (fst (split_lines (inp ?w))). length l \<le> 1022" unfolding l by (simp add: c)
  from grep_prints_matches [where rest = inp and w = ?w and pattern = "cs ''b*c''", OF streams_stdio h(1) length_replicate h(2) k]
  show ?thesis unfolding l using m by simp
qed

end
