(* ===== verification/Machine.thy ===== *)
theory Machine
  imports Prelude
begin

text \<open>
  The machine and the way kernel code runs on it. A kernel function is an operation
  \<open>('s, 'a) op\<close>: given the platform and the state it returns one of four outcomes.
  \<^item> \<open>Ret x s\<close>: the function returns \<open>x\<close> in state \<open>s\<close>;
  \<^item> \<open>Panic msg s\<close>: it called \<open>panic(msg)\<close>, which prints the message and stops;
  \<^item> \<open>Hang s\<close>: it loops for ever without changing the state (a spin on a lock that
    nobody can release, a poll of a device that never answers);
  \<^item> \<open>Off s\<close>: it called \<open>swtch\<close> and the scheduler never switches back to it.
  Dereferencing a null \<open>struct\<close> pointer, which C leaves undefined, is the outcome
  \<open>Panic ''null''\<close>.

  The state is an extensible record. This theory declares the part every component sees:
  physical memory, the supervisor registers, the block device's sectors, the CPUs and the
  spin locks. Each component theory extends the record with its own globals, and every
  operation is typed over a record scheme, so that it runs on all later extensions.

  What lies outside the source tree is a parameter, the \<open>platform\<close>: the devices behind the
  memory-mapped registers, and what the rest of the system does while this thread is off
  the CPU. \<open>resume P ! n\<close> is the effect of everything that runs between the \<open>n\<close>-th time the
  thread calls \<open>swtch\<close> and the moment it is switched back to; the list ends where the
  thread is never resumed again, so a run with a list of length \<open>n\<close> sleeps at most
  \<open>n\<close> times and returns. \<open>polls P\<close> bounds how often a device register is polled before the
  poll counts as hanging.
\<close>

section \<open>Data\<close>

text \<open>\<^verbatim>\<open>struct spinlock\<close> of \<open>kernel/spinlock.h\<close>; \<open>sl_cpu\<close> is the index of the CPU that holds
  the lock. The address of a lock is the name of the variable or field it lives in.\<close>

record spinlock =
  sl_locked :: u32
  sl_name :: string
  sl_cpu :: "nat option"

datatype lock =
    KmemLock | PidLock | WaitLock | ProcLock nat
  | BcacheLock | BufLk nat | LogLock | ItableLock | InodeLk nat
  | FtableLock | PipeLock u32 | ConsLock | PrLock | TxLock | TicksLock | DiskLock

text \<open>\<^verbatim>\<open>struct context\<close> and \<^verbatim>\<open>struct cpu\<close> of \<open>kernel/proc.h\<close>; a \<open>struct proc *\<close> is the index
  of the process in the table, or \<open>None\<close> for the null pointer.\<close>

record kcontext =
  cx_lr :: u32
  cx_sp :: u32
  cx_r4 :: u32
  cx_r5 :: u32
  cx_r6 :: u32
  cx_r7 :: u32
  cx_r8 :: u32
  cx_r9 :: u32
  cx_r10 :: u32
  cx_r11 :: u32

record cpu =
  c_proc :: "nat option"
  c_context :: kcontext
  c_noff :: int
  c_intena :: bool

record mach =
  mem :: memory
  csr :: "u32 \<Rightarrow> u32"              \<comment> \<open>the supervisor registers, by address\<close>
  devregs :: "u32 \<Rightarrow> u32"              \<comment> \<open>device registers, by address\<close>
  disk :: "u32 \<Rightarrow> u8 list"          \<comment> \<open>the sectors of the block device\<close>
  disk_writes :: "(u32 \<times> u8 list) list"  \<comment> \<open>sector writes so far, oldest first\<close>
  cpus :: "nat \<Rightarrow> cpu"
  locks :: "lock \<Rightarrow> spinlock"
  swtches :: nat                   \<comment> \<open>how often this thread has left the CPU\<close>

record 's platform =
  mmio_rd :: "u32 \<Rightarrow> 's \<Rightarrow> u32 \<times> 's"
  mmio_wr :: "u32 \<Rightarrow> u32 \<Rightarrow> 's \<Rightarrow> 's"
  resume :: "('s \<Rightarrow> 's) list"
  polls :: nat

datatype ('a, 's) outcome = Ret 'a 's | Panic string 's | Hang 's | Off 's

type_synonym ('s, 'a) op = "'s platform \<Rightarrow> 's \<Rightarrow> ('a, 's) outcome"

section \<open>Sequencing\<close>

definition ret :: "'a \<Rightarrow> ('s, 'a) op" where
  "ret x P s = Ret x s"

definition bind :: "('s, 'a) op \<Rightarrow> ('a \<Rightarrow> ('s, 'b) op) \<Rightarrow> ('s, 'b) op" where
  "bind m f P s = (case m P s of
       Ret x t \<Rightarrow> f x P t
     | Panic msg t \<Rightarrow> Panic msg t
     | Hang t \<Rightarrow> Hang t
     | Off t \<Rightarrow> Off t)"

definition gets :: "('s \<Rightarrow> 'a) \<Rightarrow> ('s, 'a) op" where
  "gets f P s = Ret (f s) s"

definition modify :: "('s \<Rightarrow> 's) \<Rightarrow> ('s, unit) op" where
  "modify f P s = Ret () (f s)"

text \<open>\<open>panic\<close> of \<open>kernel/printf.c\<close> prints its argument and never returns.\<close>

definition panic :: "string \<Rightarrow> ('s, 'a) op" where
  "panic msg P s = Panic msg s"

definition hang :: "('s, 'a) op" where
  "hang P s = Hang s"

text \<open>A \<open>for\<close> loop over the elements of a list.\<close>

fun for_each :: "'b list \<Rightarrow> ('b \<Rightarrow> ('s, unit) op) \<Rightarrow> ('s, unit) op" where
  "for_each [] f = ret ()"
| "for_each (x # xs) f = bind (f x) (\<lambda>_. for_each xs f)"

text \<open>The results of running an operation \<open>n\<close> times.\<close>

fun collect :: "nat \<Rightarrow> ('s, 'a) op \<Rightarrow> ('s, 'a list) op" where
  "collect 0 m = ret []"
| "collect (Suc n) m = bind m (\<lambda>x. bind (collect n m) (\<lambda>xs. ret (x # xs)))"

definition deref :: "'a option \<Rightarrow> ('s, 'a) op" where
  "deref p = (case p of None \<Rightarrow> panic ''null'' | Some x \<Rightarrow> ret x)"

lemma deref_Some [simp]: "deref (Some x) = ret x"
  by (simp add: deref_def)

named_theorems run_simps \<comment> \<open>unfold the primitive operations on a given state\<close>

lemma ret_apply [run_simps]: "ret x P s = Ret x s"
  by (simp add: ret_def)

lemma gets_apply [simp]: "gets f P s = Ret (f s) s"
  by (simp add: gets_def)

lemma modify_apply [simp]: "modify f P s = Ret () (f s)"
  by (simp add: modify_def)

lemma panic_apply [run_simps]: "panic msg P s = Panic msg s"
  by (simp add: panic_def)

lemma hang_apply [run_simps]: "hang P s = Hang s"
  by (simp add: hang_def)

lemma bind_Ret [simp]: "m P s = Ret x t \<Longrightarrow> bind m f P s = f x P t"
  by (simp add: bind_def)

lemma bind_Panic [simp]: "m P s = Panic msg t \<Longrightarrow> bind m f P s = Panic msg t"
  by (simp add: bind_def)

lemma bind_Hang [simp]: "m P s = Hang t \<Longrightarrow> bind m f P s = Hang t"
  by (simp add: bind_def)

lemma bind_Off [simp]: "m P s = Off t \<Longrightarrow> bind m f P s = Off t"
  by (simp add: bind_def)

lemma bind_ret_right [simp]: "bind m ret = m"
  by (rule ext)+ (simp add: bind_def ret_def split: outcome.splits)

lemma bind_ret_left [simp]: "bind (ret x) f = f x"
  by (rule ext)+ (simp add: bind_def ret_def)

lemma bind_panic [simp]: "bind (panic msg) f = panic msg"
  by (rule ext)+ (simp add: bind_def panic_def)

lemma bind_hang [simp]: "bind hang f = hang"
  by (rule ext)+ (simp add: bind_def hang_def)

lemma bind_assoc: "bind (bind m f) g = bind m (\<lambda>x. bind (f x) g)"
  by (rule ext)+ (simp add: bind_def split: outcome.splits)

lemma bind_eq_Ret:
  "bind m f P s = Ret y u \<longleftrightarrow> (\<exists>x t. m P s = Ret x t \<and> f x P t = Ret y u)"
  by (auto simp: bind_def split: outcome.splits)

lemma bind_cong [fundef_cong]:
  assumes "m P s = m' P' s'" "\<And>x t. m' P' s' = Ret x t \<Longrightarrow> f x P t = f' x P' t"
  shows "bind m f P s = bind m' f' P' s'"
  using assms by (auto simp: bind_def split: outcome.splits)

section \<open>Total-correctness weakest preconditions\<close>

text \<open>\<open>wp m P s Q\<close>: from \<open>s\<close>, \<open>m\<close> returns (it neither panics nor hangs nor is left off the
  CPU), and its result and final state satisfy \<open>Q\<close>.\<close>

definition wp :: "('s, 'a) op \<Rightarrow> 's platform \<Rightarrow> 's \<Rightarrow> ('a \<Rightarrow> 's \<Rightarrow> bool) \<Rightarrow> bool" where
  "wp m P s Q = (case m P s of Ret x t \<Rightarrow> Q x t | _ \<Rightarrow> False)"

named_theorems wp_rules \<comment> \<open>rewrite rules and specifications for \<open>wp\<close>\<close>

lemma wp_ret [wp_rules]: "wp (ret x) P s Q = Q x s"
  by (simp add: wp_def ret_def)

lemma wp_gets [wp_rules]: "wp (gets f) P s Q = Q (f s) s"
  by (simp add: wp_def)

lemma wp_modify [wp_rules]: "wp (modify f) P s Q = Q () (f s)"
  by (simp add: wp_def)

lemma wp_panic [wp_rules]: "wp (panic msg) P s Q = False"
  by (simp add: wp_def panic_def)

lemma wp_hang [wp_rules]: "wp hang P s Q = False"
  by (simp add: wp_def hang_def)

lemma wp_bind [wp_rules]: "wp (bind m f) P s Q = wp m P s (\<lambda>x t. wp (f x) P t Q)"
  by (simp add: wp_def bind_def split: outcome.splits)

lemma wp_if [wp_rules]:
  "wp (if b then m else n) P s Q = (if b then wp m P s Q else wp n P s Q)"
  by simp

lemma wp_Ret: "m P s = Ret x t \<Longrightarrow> wp m P s Q = Q x t"
  by (simp add: wp_def)

lemma wp_iff: "wp m P s Q \<longleftrightarrow> (\<exists>x t. m P s = Ret x t \<and> Q x t)"
  by (simp add: wp_def split: outcome.splits)

lemma wp_mono:
  assumes "wp m P s Q" "\<And>x t. Q x t \<Longrightarrow> R x t"
  shows "wp m P s R"
  using assms by (auto simp: wp_iff)

lemma wp_conj: "wp m P s Q \<Longrightarrow> wp m P s R \<Longrightarrow> wp m P s (\<lambda>x t. Q x t \<and> R x t)"
  by (auto simp: wp_iff)

text \<open>A loop over a list keeps an invariant that records how far it has got.\<close>

lemma wp_for_each:
  assumes "I [] s"
    and "\<And>ys x zs t. xs = ys @ x # zs \<Longrightarrow> I ys t \<Longrightarrow> wp (f x) P t (\<lambda>_. I (ys @ [x]))"
  shows "wp (for_each xs f) P s (\<lambda>_. I xs)"
proof -
  have "wp (for_each zs f) P t (\<lambda>_. I xs)" if "xs = ys @ zs" "I ys t" for ys zs t
    using that
  proof (induction zs arbitrary: ys t)
    case Nil
    then show ?case by (simp add: wp_rules)
  next
    case (Cons x zs)
    have "wp (f x) P t (\<lambda>_. I (ys @ [x]))" using Cons.prems by (rule assms(2))
    then have "wp (f x) P t (\<lambda>_ u. wp (for_each zs f) P u (\<lambda>_. I xs))"
      by (rule wp_mono) (use Cons in auto)
    then show ?case by (simp add: wp_rules)
  qed
  from this [of "[]" xs s] assms(1) show ?thesis by simp
qed

text \<open>A loop whose body is the state change \<open>g x\<close> on the states of an invariant.\<close>

lemma for_each_fold:
  assumes "I s" "\<And>x t. x \<in> set xs \<Longrightarrow> I t \<Longrightarrow> f x P t = Ret () (g x t) \<and> I (g x t)"
  shows "for_each xs f P s = Ret () (fold g xs s) \<and> I (fold g xs s)"
  using assms
proof (induction xs arbitrary: s)
  case (Cons x xs)
  then show ?case by simp
qed (simp add: ret_def)

section \<open>Memory-mapped registers\<close>

text \<open>The supervisor registers of \<open>kernel/cputwo.h\<close> (lines 51--63) are part of the CPU and
  read back what was written; every other device address goes to the platform.\<close>

definition REG_EPC :: u32 where "REG_EPC = 0x03FFF000"
definition REG_EFLAGS :: u32 where "REG_EFLAGS = 0x03FFF004"
definition REG_EVEC :: u32 where "REG_EVEC = 0x03FFF008"
definition REG_CAUSE :: u32 where "REG_CAUSE = 0x03FFF00C"
definition REG_STATUS :: u32 where "REG_STATUS = 0x03FFF010"
definition REG_ESTATUS :: u32 where "REG_ESTATUS = 0x03FFF014"
definition REG_SATP :: u32 where "REG_SATP = 0x03FFF018"
definition REG_BADADDR :: u32 where "REG_BADADDR = 0x03FFF01C"
definition REG_WFI :: u32 where "REG_WFI = 0x03FFF020"

definition STATUS_IE :: u32 where "STATUS_IE = 2"

lemmas reg_defs = REG_EPC_def REG_EFLAGS_def REG_EVEC_def REG_CAUSE_def REG_STATUS_def
  REG_ESTATUS_def REG_SATP_def REG_BADADDR_def REG_WFI_def

definition mmio_r :: "u32 \<Rightarrow> ('a mach_scheme, u32) op" where
  "mmio_r addr P s =
     (if REG_EPC \<le> addr then Ret (csr s addr) s
      else (case mmio_rd P addr s of (v, t) \<Rightarrow> Ret v t))"

definition mmio_w :: "u32 \<Rightarrow> u32 \<Rightarrow> ('a mach_scheme, unit) op" where
  "mmio_w addr val P s =
     (if REG_EPC \<le> addr then Ret () (s\<lparr>csr := (csr s)(addr := val)\<rparr>)
      else Ret () (mmio_wr P addr val s))"

text \<open>Word accesses to memory through a kernel pointer; the kernel's mapping is the identity.\<close>

definition ld32 :: "u32 \<Rightarrow> ('a mach_scheme, u32) op" where
  "ld32 a = gets (\<lambda>s. load32 (mem s) a)"

definition st32 :: "u32 \<Rightarrow> u32 \<Rightarrow> ('a mach_scheme, unit) op" where
  "st32 a v = modify (\<lambda>s. s\<lparr>mem := store32 (mem s) a v\<rparr>)"

lemma ld32_apply [simp]: "ld32 a P s = Ret (load32 (mem s) a) s"
  by (simp add: ld32_def)

lemma st32_apply [simp]: "st32 a v P s = Ret () (s\<lparr>mem := store32 (mem s) a v\<rparr>)"
  by (simp add: st32_def)

text \<open>\<open>swtch\<close> (\<open>kernel/swtch.S\<close>) saves the thread's context and runs the scheduler; it
  returns when the scheduler switches back.\<close>

definition swtch :: "('a mach_scheme, unit) op" where
  "swtch P s =
     (if swtches s < length (resume P)
      then Ret () ((resume P ! swtches s) s \<lparr>swtches := Suc (swtches s)\<rparr>)
      else Off s)"

text \<open>How often the thread can still be resumed: fuel for loops whose body sleeps.\<close>

definition resumptions :: "'a mach_scheme platform \<Rightarrow> 'a mach_scheme \<Rightarrow> nat" where
  "resumptions P s = length (resume P) - swtches s"

lemma swtch_resumptions:
  "swtch P s = Ret () t \<Longrightarrow> Suc (resumptions P t) = resumptions P s"
  by (auto simp: swtch_def resumptions_def split: if_splits)

section \<open>A machine at reset\<close>

text \<open>All memory, registers and sectors are zero; used to instantiate theorems. A component's
  reset state extends it with its zeroed globals.\<close>

definition cpu0 :: cpu where
  "cpu0 = \<lparr>c_proc = None,
     c_context = \<lparr>cx_lr = 0, cx_sp = 0, cx_r4 = 0, cx_r5 = 0, cx_r6 = 0, cx_r7 = 0, cx_r8 = 0,
       cx_r9 = 0, cx_r10 = 0, cx_r11 = 0\<rparr>,
     c_noff = 0, c_intena = False\<rparr>"

definition mach0 :: mach where
  "mach0 = \<lparr>mem = (\<lambda>_. 0), csr = (\<lambda>_. 0), devregs = (\<lambda>_. 0), disk = (\<lambda>_. replicate 512 0),
     disk_writes = [], cpus = (\<lambda>_. cpu0), locks = (\<lambda>_. \<lparr>sl_locked = 0, sl_name = [], sl_cpu = None\<rparr>),
     swtches = 0\<rparr>"

text \<open>A platform without devices or other processes.\<close>

definition bare :: "'s platform" where
  "bare = \<lparr>mmio_rd = (\<lambda>a s. (0, s)), mmio_wr = (\<lambda>a v s. s), resume = [], polls = 0\<rparr>"

end
