(* ===== verification/Spinlock.thy ===== *)
theory Spinlock
  imports Machine
begin

text \<open>
  Spin locks: \<open>kernel/spinlock.c\<close>, with \<open>cpuid\<close>/\<open>mycpu\<close> of \<open>kernel/proc.c\<close> and the
  interrupt switches of \<open>kernel/cputwo.h\<close>. CPUTwo runs one CPU, so \<open>cpuid()\<close> is 0 and a
  lock found taken by \<open>cas_lock\<close> stays taken: the spin of \<open>acquire\<close> is then for ever.

  \<open>acquired l s\<close> and \<open>settle s\<close> describe the states after \<open>acquire\<close> and after a matching
  \<open>release\<close>; a critical section whose body leaves the lock bookkeeping alone
  (\<open>lock_neutral\<close>) runs as \<open>acquire_ok\<close> and \<open>release_ok\<close> say.
\<close>

definition cpuid :: nat where
  "cpuid = 0"

definition mycpu :: "'a mach_scheme \<Rightarrow> cpu" where
  "mycpu s = cpus s cpuid"

definition set_mycpu :: "(cpu \<Rightarrow> cpu) \<Rightarrow> 'a mach_scheme \<Rightarrow> 'a mach_scheme" where
  "set_mycpu f s = s\<lparr>cpus := (cpus s)(cpuid := f (cpus s cpuid))\<rparr>"

definition set_lock :: "lock \<Rightarrow> (spinlock \<Rightarrow> spinlock) \<Rightarrow> 'a mach_scheme \<Rightarrow> 'a mach_scheme" where
  "set_lock l f s = s\<lparr>locks := (locks s)(l := f (locks s l))\<rparr>"

section \<open>Interrupts\<close>

definition intr_on :: "('a mach_scheme, unit) op" where
  "intr_on = bind (mmio_r REG_STATUS) (\<lambda>v. mmio_w REG_STATUS (v OR STATUS_IE))"

definition intr_off :: "('a mach_scheme, unit) op" where
  "intr_off = bind (mmio_r REG_STATUS) (\<lambda>v. mmio_w REG_STATUS (v AND NOT STATUS_IE))"

definition intr_get :: "('a mach_scheme, bool) op" where
  "intr_get = bind (mmio_r REG_STATUS) (\<lambda>v. ret (v AND STATUS_IE \<noteq> 0))"

definition push_off :: "('a mach_scheme, unit) op" where
  "push_off =
     bind intr_get (\<lambda>old.
     bind intr_off (\<lambda>_.
     bind (gets (\<lambda>s. c_noff (mycpu s))) (\<lambda>n.
     bind (if n = 0 then modify (set_mycpu (\<lambda>c. c\<lparr>c_intena := old\<rparr>)) else ret ()) (\<lambda>_.
     modify (set_mycpu (\<lambda>c. c\<lparr>c_noff := c_noff c + 1\<rparr>))))))"

definition pop_off :: "('a mach_scheme, unit) op" where
  "pop_off =
     bind intr_get (\<lambda>on.
     if on then panic ''pop_off - interruptible''
     else bind (gets (\<lambda>s. c_noff (mycpu s))) (\<lambda>n.
       if n < 1 then panic ''pop_off''
       else bind (modify (set_mycpu (\<lambda>c. c\<lparr>c_noff := c_noff c - 1\<rparr>))) (\<lambda>_.
         bind (gets mycpu) (\<lambda>c.
         if c_noff c = 0 \<and> c_intena c then intr_on else ret ()))))"

section \<open>Locks\<close>

definition initlock :: "lock \<Rightarrow> string \<Rightarrow> ('a mach_scheme, unit) op" where
  "initlock lk name =
     modify (set_lock lk (\<lambda>_. \<lparr>sl_locked = 0, sl_name = name, sl_cpu = None\<rparr>))"

text \<open>Returns 1 when the compare-and-swap took the lock and 0 when it was taken already.\<close>

definition cas_lock :: "lock \<Rightarrow> ('a mach_scheme, int) op" where
  "cas_lock lk =
     bind (gets (\<lambda>s. sl_locked (locks s lk))) (\<lambda>old.
     if old = 0 then bind (modify (set_lock lk (\<lambda>k. k\<lparr>sl_locked := 1\<rparr>))) (\<lambda>_. ret 1)
     else ret 0)"

definition holding :: "lock \<Rightarrow> ('a mach_scheme, bool) op" where
  "holding lk = gets (\<lambda>s. sl_locked (locks s lk) \<noteq> 0 \<and> sl_cpu (locks s lk) = Some cpuid)"

definition acquire :: "lock \<Rightarrow> ('a mach_scheme, unit) op" where
  "acquire lk =
     bind push_off (\<lambda>_.
     bind (holding lk) (\<lambda>h.
     if h then panic ''acquire''
     else bind (cas_lock lk) (\<lambda>acquired.
       if acquired = 0 then hang
       else modify (set_lock lk (\<lambda>k. k\<lparr>sl_cpu := Some cpuid\<rparr>)))))"

definition release :: "lock \<Rightarrow> ('a mach_scheme, unit) op" where
  "release lk =
     bind (holding lk) (\<lambda>h.
     if \<not> h then panic ''release''
     else bind (modify (set_lock lk (\<lambda>k. k\<lparr>sl_cpu := None\<rparr>))) (\<lambda>_.
       bind (modify (set_lock lk (\<lambda>k. k\<lparr>sl_locked := 0\<rparr>))) (\<lambda>_.
       pop_off)))"

section \<open>What the operations do\<close>

definition ie :: "'a mach_scheme \<Rightarrow> bool" where
  "ie s \<longleftrightarrow> csr s REG_STATUS AND STATUS_IE \<noteq> 0"

text \<open>The CPU's invariant: inside \<open>push_off\<close>, interrupts are off.\<close>

definition cpu_ok :: "'a mach_scheme \<Rightarrow> bool" where
  "cpu_ok s \<longleftrightarrow> 0 \<le> c_noff (mycpu s) \<and> (0 < c_noff (mycpu s) \<longrightarrow> \<not> ie s)"

definition lock_free :: "lock \<Rightarrow> 'a mach_scheme \<Rightarrow> bool" where
  "lock_free l s \<longleftrightarrow> sl_locked (locks s l) = 0 \<and> sl_cpu (locks s l) = None"

definition lock_ok :: "lock \<Rightarrow> 'a mach_scheme \<Rightarrow> bool" where
  "lock_ok l s \<longleftrightarrow> cpu_ok s \<and> lock_free l s"

definition held :: "lock \<Rightarrow> 'a mach_scheme \<Rightarrow> bool" where
  "held l s \<longleftrightarrow> sl_locked (locks s l) \<noteq> 0 \<and> sl_cpu (locks s l) = Some cpuid"

text \<open>The state after a matched \<open>push_off\<close>/\<open>pop_off\<close>: only the remembered interrupt flag
  of the CPU can differ, and inside another critical section nothing differs.\<close>

definition settle :: "'a mach_scheme \<Rightarrow> 'a mach_scheme" where
  "settle s = set_mycpu (\<lambda>c. c\<lparr>c_intena := (if c_noff c = 0 then ie s else c_intena c)\<rparr>) s"

definition pushed :: "'a mach_scheme \<Rightarrow> 'a mach_scheme" where
  "pushed s = (settle s)
     \<lparr>csr := (csr s)(REG_STATUS := csr s REG_STATUS AND NOT STATUS_IE),
      cpus := (cpus (settle s))(cpuid := (mycpu (settle s))\<lparr>c_noff := c_noff (mycpu s) + 1\<rparr>)\<rparr>"

definition acquired :: "lock \<Rightarrow> 'a mach_scheme \<Rightarrow> 'a mach_scheme" where
  "acquired l s = set_lock l (\<lambda>k. k\<lparr>sl_locked := 1, sl_cpu := Some cpuid\<rparr>) (pushed s)"

definition lock_neutral :: "('a mach_scheme \<Rightarrow> 'a mach_scheme) \<Rightarrow> bool" where
  "lock_neutral f \<longleftrightarrow>
     (\<forall>s a b c. f (s\<lparr>csr := a, cpus := b, locks := c\<rparr>) = (f s)\<lparr>csr := a, cpus := b, locks := c\<rparr>)"

lemmas lock_defs = settle_def pushed_def acquired_def set_mycpu_def set_lock_def mycpu_def

lemma mmio_r_csr [simp]: "REG_EPC \<le> a \<Longrightarrow> mmio_r a P s = Ret (csr s a) s"
  by (simp add: mmio_r_def)

lemma mmio_w_csr [simp]:
  "REG_EPC \<le> a \<Longrightarrow> mmio_w a v P s = Ret () (s\<lparr>csr := (csr s)(a := v)\<rparr>)"
  by (simp add: mmio_w_def)

lemma REG_STATUS_csr [simp]: "REG_EPC \<le> REG_STATUS"
  by (simp add: reg_defs)

lemma and_not_ie: "((x::u32) AND NOT STATUS_IE) AND STATUS_IE = 0"
  by (rule bit_word_eqI) (simp add: bit_and_iff bit_not_iff)

lemma or_ie_back:
  assumes "(x::u32) AND STATUS_IE \<noteq> 0"
  shows "(x AND NOT STATUS_IE) OR STATUS_IE = x"
proof -
  have b: "bit x 1"
  proof (rule ccontr)
    assume "\<not> bit x 1"
    then have "x AND STATUS_IE = 0"
      by (auto intro!: bit_word_eqI simp: bit_and_iff STATUS_IE_def bit_2_iff)
    with assms show False by simp
  qed
  show ?thesis
  proof (rule bit_word_eqI)
    fix n assume "n < LENGTH(32)"
    then show "bit ((x AND NOT STATUS_IE) OR STATUS_IE) n = bit x n"
      using b by (cases "n = 1")
        (simp_all only: bit_and_iff bit_or_iff bit_not_iff STATUS_IE_def, simp_all add: bit_2_iff)
  qed
qed

lemma push_off_eq: "push_off P s = Ret () (pushed s)"
  by (simp add: push_off_def intr_get_def intr_off_def bind_def ret_def lock_defs ie_def)

lemma settle_select [simp]:
  "mem (settle s) = mem s" "csr (settle s) = csr s" "devregs (settle s) = devregs s"
  "disk (settle s) = disk s" "disk_writes (settle s) = disk_writes s"
  "locks (settle s) = locks s" "swtches (settle s) = swtches s" "mach.more (settle s) = mach.more s"
  "c_noff (mycpu (settle s)) = c_noff (mycpu s)" "c_proc (mycpu (settle s)) = c_proc (mycpu s)"
  by (simp_all add: lock_defs)

lemma settle_ok [simp]:
  "ie (settle s) = ie s" "cpu_ok (settle s) = cpu_ok s" "lock_free l (settle s) = lock_free l s"
  "lock_ok l (settle s) = lock_ok l s" "held l (settle s) = held l s"
  by (simp_all add: ie_def cpu_ok_def lock_free_def lock_ok_def held_def)

lemma settle_idem [simp]: "settle (settle s) = settle s"
  by (simp add: lock_defs ie_def)

lemma settle_nested: "c_noff (mycpu s) \<noteq> 0 \<Longrightarrow> settle s = s"
  by (simp add: lock_defs)

lemma ie_pushed [simp]: "\<not> ie (pushed s)"
  by (simp add: ie_def pushed_def and_not_ie)

lemma c_noff_pushed [simp]: "c_noff (mycpu (pushed s)) = c_noff (mycpu s) + 1"
  by (simp add: lock_defs)

lemma cpu_ok_pushed [simp]: "cpu_ok s \<Longrightarrow> cpu_ok (pushed s)"
  by (simp add: cpu_ok_def)

lemma locks_pushed [simp]: "locks (pushed s) = locks s"
  by (simp add: lock_defs)

lemma lock_free_not_held: "lock_free l s \<Longrightarrow> \<not> held l s"
  by (simp add: lock_free_def held_def)

lemma acquire_ok:
  assumes "lock_free l s"
  shows "acquire l P s = Ret () (acquired l s)"
  using assms
  by (simp add: acquire_def push_off_eq holding_def cas_lock_def lock_free_def bind_def ret_def
      acquired_def set_lock_def)

text \<open>Acquiring a lock the CPU already holds is a reported error; a lock marked taken by
  anyone else is never unlocked.\<close>

lemma acquire_held: "held l s \<Longrightarrow> acquire l P s = Panic ''acquire'' (pushed s)"
  by (simp add: acquire_def push_off_eq holding_def held_def bind_def panic_def)

lemma release_not_held: "\<not> held l s \<Longrightarrow> release l P s = Panic ''release'' s"
  by (simp add: release_def holding_def held_def bind_def panic_def)

definition popped :: "'a mach_scheme \<Rightarrow> 'a mach_scheme" where
  "popped t = (let c = (mycpu t)\<lparr>c_noff := c_noff (mycpu t) - 1\<rparr> in
     t\<lparr>cpus := (cpus t)(cpuid := c),
       csr := (if c_noff c = 0 \<and> c_intena c
               then (csr t)(REG_STATUS := csr t REG_STATUS OR STATUS_IE) else csr t)\<rparr>)"

lemma pop_off_eq: "\<not> ie t \<Longrightarrow> 1 \<le> c_noff (mycpu t) \<Longrightarrow> pop_off P t = Ret () (popped t)"
  by (simp add: pop_off_def intr_get_def intr_on_def bind_def ret_def popped_def set_mycpu_def
      mycpu_def ie_def)

lemma csr_status_off: "\<not> ie s \<Longrightarrow> csr s REG_STATUS AND NOT STATUS_IE = csr s REG_STATUS"
  using and_split [of "csr s REG_STATUS" STATUS_IE] by (simp add: ie_def)

lemma c_noff_same: "c_noff c = n \<Longrightarrow> c\<lparr>c_noff := n\<rparr> = c"
  by auto

lemma popped_pushed: "cpu_ok s \<Longrightarrow> popped (pushed s) = settle s"
proof (cases "ie s")
  case True
  moreover assume "cpu_ok s"
  ultimately have "c_noff (mycpu s) = 0" by (simp add: cpu_ok_def)
  with True show ?thesis
    by (simp add: popped_def lock_defs Let_def ie_def or_ie_back c_noff_same)
next
  case False
  then have "(csr s)(REG_STATUS := csr s REG_STATUS AND NOT STATUS_IE) = csr s"
    by (simp add: csr_status_off)
  with False show ?thesis
    by (simp add: popped_def lock_defs Let_def)
qed

text \<open>A neutral body commutes with the bookkeeping.\<close>

lemma neutralD:
  assumes "lock_neutral f"
  shows "f (s\<lparr>csr := a, cpus := b, locks := c\<rparr>) = (f s)\<lparr>csr := a, cpus := b, locks := c\<rparr>"
    "csr (f s) = csr s" "cpus (f s) = cpus s" "locks (f s) = locks s"
proof -
  show e: "f (s\<lparr>csr := a, cpus := b, locks := c\<rparr>) = (f s)\<lparr>csr := a, cpus := b, locks := c\<rparr>" for a b c
    using assms by (simp add: lock_neutral_def)
  have "f (s\<lparr>csr := csr s, cpus := cpus s, locks := locks s\<rparr>) =
      (f s)\<lparr>csr := csr s, cpus := cpus s, locks := locks s\<rparr>" by (rule e)
  then have "f s = (f s)\<lparr>csr := csr s, cpus := cpus s, locks := locks s\<rparr>" by simp
  then show "csr (f s) = csr s" "cpus (f s) = cpus s" "locks (f s) = locks s"
    by (metis mach.select_convs mach.surjective mach.update_convs)+
qed

lemma release_ok:
  assumes "lock_ok l s" "lock_neutral f"
  shows "release l P (f (acquired l s)) = Ret () (f (settle s))"
proof -
  let ?p = "pushed s"
  have acq: "acquired l s = ?p\<lparr>csr := csr ?p, cpus := cpus ?p,
      locks := (locks s)(l := (locks s l)\<lparr>sl_locked := 1, sl_cpu := Some cpuid\<rparr>)\<rparr>"
    by (simp add: acquired_def set_lock_def)
  have rel: "(locks s)(l := (locks s l)\<lparr>sl_cpu := None, sl_locked := 0\<rparr>) = locks s"
    using assms(1) by (auto simp: lock_ok_def lock_free_def)
  have fp: "(f ?p)\<lparr>csr := csr ?p, cpus := cpus ?p, locks := locks s\<rparr> = f ?p"
    using neutralD(2-4) [OF assms(2), of ?p] by simp
  have "release l P (f (acquired l s)) = pop_off P (f ?p)"
    unfolding acq neutralD(1) [OF assms(2)]
    by (simp add: release_def holding_def bind_def set_lock_def rel fp)
  also have "\<dots> = Ret () (popped (f ?p))"
    by (rule pop_off_eq)
      (use assms ie_pushed [of s] c_noff_pushed [of s] in
        \<open>auto simp: ie_def mycpu_def neutralD lock_ok_def cpu_ok_def\<close>)
  also have "popped (f ?p) = f (popped ?p)"
  proof -
    have p: "popped t = t\<lparr>csr := csr (popped t), cpus := cpus (popped t), locks := locks t\<rparr>"
      for t :: "'a mach_scheme" by (simp add: popped_def Let_def)
    have "csr (popped (f ?p)) = csr (popped ?p)" "cpus (popped (f ?p)) = cpus (popped ?p)"
      using neutralD(2-4) [OF assms(2), of ?p] by (simp_all add: popped_def Let_def mycpu_def)
    then show ?thesis
      using p [of "f ?p"] p [of ?p] neutralD(1) [OF assms(2), where s = ?p] neutralD(4) [OF assms(2), of ?p]
      by metis
  qed
  also have "popped ?p = settle s"
    using assms(1) by (simp add: popped_pushed lock_ok_def)
  finally show ?thesis .
qed

text \<open>Neutral bodies: state updates that do not touch registers, CPUs or locks.\<close>

lemma neutral_id [simp]: "lock_neutral (\<lambda>s. s)"
  by (simp add: lock_neutral_def)

lemma neutral_comp: "lock_neutral f \<Longrightarrow> lock_neutral g \<Longrightarrow> lock_neutral (\<lambda>s. f (g s))"
  by (simp add: lock_neutral_def)

lemma acquired_select [simp]:
  "mem (acquired l s) = mem s" "devregs (acquired l s) = devregs s" "disk (acquired l s) = disk s"
  "disk_writes (acquired l s) = disk_writes s" "swtches (acquired l s) = swtches s"
  "mach.more (acquired l s) = mach.more s" "c_proc (mycpu (acquired l s)) = c_proc (mycpu s)"
  by (simp_all add: lock_defs)

lemma acquired_ok [simp]:
  "cpu_ok s \<Longrightarrow> cpu_ok (acquired l s)"
  "c_noff (mycpu (acquired l s)) = c_noff (mycpu s) + 1"
  "held l (acquired l s)" "\<not> ie (acquired l s)"
  "l' \<noteq> l \<Longrightarrow> lock_free l' (acquired l s) = lock_free l' s"
  "l' \<noteq> l \<Longrightarrow> held l' (acquired l s) = held l' s"
  by (simp_all add: acquired_def cpu_ok_def held_def set_lock_def lock_free_def ie_pushed [unfolded ie_def]
      ie_def c_noff_pushed [unfolded mycpu_def] mycpu_def)

text \<open>The predicates look at registers, CPUs and locks only.\<close>

lemmas lock_preds = lock_ok_def lock_free_def cpu_ok_def held_def ie_def mycpu_def settle_def set_mycpu_def

lemma lock_mem [simp]:
  "lock_ok l (s\<lparr>mem := m\<rparr>) = lock_ok l s" "lock_free l (s\<lparr>mem := m\<rparr>) = lock_free l s"
  "cpu_ok (s\<lparr>mem := m\<rparr>) = cpu_ok s" "held l (s\<lparr>mem := m\<rparr>) = held l s"
  "mycpu (s\<lparr>mem := m\<rparr>) = mycpu s" "settle (s\<lparr>mem := m\<rparr>) = (settle s)\<lparr>mem := m\<rparr>"
  by (simp_all add: lock_preds)

text \<open>A critical section whose body only computes a neutral change of the state.\<close>

lemma critical_section:
  assumes "lock_ok l s" "lock_neutral f" "m P (acquired l s) = Ret x (f (acquired l s))"
  shows "bind (acquire l) (\<lambda>_. bind m (\<lambda>y. bind (release l) (\<lambda>_. k y))) P s = k x P (f (settle s))"
proof -
  have "acquire l P s = Ret () (acquired l s)"
    using assms(1) by (simp add: acquire_ok lock_ok_def)
  then show ?thesis
    using assms(3) release_ok [OF assms(1,2), of P] by simp
qed

text \<open>A release in any order: the lock becomes free and the nesting depth goes down by one.\<close>

definition unlocked :: "lock \<Rightarrow> 'a mach_scheme \<Rightarrow> 'a mach_scheme" where
  "unlocked l s = popped (set_lock l (\<lambda>k. k\<lparr>sl_cpu := None, sl_locked := 0\<rparr>) s)"

lemma release_eq:
  assumes "held l s" "cpu_ok s" "0 < c_noff (mycpu s)"
  shows "release l P s = Ret () (unlocked l s)"
proof -
  let ?t = "set_lock l (\<lambda>k. k\<lparr>sl_cpu := None, sl_locked := 0\<rparr>) s"
  have "set_lock l (\<lambda>k. k\<lparr>sl_locked := 0\<rparr>) (set_lock l (\<lambda>k. k\<lparr>sl_cpu := None\<rparr>) s) = ?t"
    by (simp add: set_lock_def)
  then have "release l P s = pop_off P ?t"
    using assms(1) by (simp add: release_def holding_def held_def bind_def)
  also have "\<dots> = Ret () (popped ?t)"
    using assms by (intro pop_off_eq) (auto simp: ie_def mycpu_def set_lock_def cpu_ok_def)
  finally show ?thesis by (simp add: unlocked_def)
qed

lemma unlocked_select [simp]:
  "mem (unlocked l s) = mem s" "swtches (unlocked l s) = swtches s" "mach.more (unlocked l s) = mach.more s"
  "c_noff (mycpu (unlocked l s)) = c_noff (mycpu s) - 1" "c_proc (mycpu (unlocked l s)) = c_proc (mycpu s)"
  "c_intena (mycpu (unlocked l s)) = c_intena (mycpu s)"
  "lock_free l (unlocked l s)" "l' \<noteq> l \<Longrightarrow> held l' (unlocked l s) = held l' s"
  "l' \<noteq> l \<Longrightarrow> lock_free l' (unlocked l s) = lock_free l' s"
  by (simp_all add: unlocked_def popped_def Let_def set_lock_def mycpu_def lock_free_def held_def)

lemma unlocked_nested: "1 < c_noff (mycpu s) \<Longrightarrow> cpu_ok s \<Longrightarrow> cpu_ok (unlocked l s) \<and> \<not> ie (unlocked l s)"
  by (simp add: unlocked_def popped_def Let_def set_lock_def mycpu_def cpu_ok_def ie_def)

section \<open>Properties\<close>

text \<open>\<open>push_off\<close> and \<open>pop_off\<close> nested \<open>n\<close> deep.\<close>

fun pushes :: "nat \<Rightarrow> ('a mach_scheme, unit) op" where
  "pushes 0 = ret ()"
| "pushes (Suc n) = bind push_off (\<lambda>_. pushes n)"

fun pops :: "nat \<Rightarrow> ('a mach_scheme, unit) op" where
  "pops 0 = ret ()"
| "pops (Suc n) = bind (pops n) (\<lambda>_. pop_off)"

lemma pushed_settle [simp]: "pushed (settle s) = pushed s"
  by (simp add: lock_defs ie_def)

lemma nest_pushes_pops:
  assumes "cpu_ok s" "0 < n"
  shows "bind (pushes n) (\<lambda>_. pops n) P s = Ret () (settle s)"
  using assms
proof (induction n arbitrary: s)
  case 0
  then show ?case by simp
next
  case (Suc n)
  have split: "bind (pushes (Suc n)) (\<lambda>_. pops (Suc n)) P s =
      bind (bind (pushes n) (\<lambda>_. pops n)) (\<lambda>_. pop_off) P (pushed s)"
    by (simp add: bind_assoc push_off_eq)
  have pop: "pop_off P (pushed s) = Ret () (settle s)"
    using Suc.prems pop_off_eq [of "pushed s" P]
    by (simp add: popped_pushed cpu_ok_def del: c_noff_pushed) (simp add: cpu_ok_def)
  show ?case
  proof (cases "n = 0")
    case True
    then show ?thesis by (simp add: push_off_eq pop bind_def ret_def)
  next
    case False
    have "bind (pushes n) (\<lambda>_. pops n) P (pushed s) = Ret () (settle (pushed s))"
      using Suc.prems False by (intro Suc.IH) auto
    also have "settle (pushed s) = pushed s"
      using Suc.prems by (intro settle_nested) (auto simp: cpu_ok_def)
    finally show ?thesis unfolding split by (simp add: pop)
  qed
qed

lemma lock_ok_mach0 [simp]:
  "lock_ok l (mach.extend mach0 x)" "lock_ok l mach0" "cpu_ok (mach.extend mach0 x)" "cpu_ok mach0"
  by (simp_all add: lock_preds mach0_def mach.defs cpu0_def)



text \<open>C6: The contract of a spin lock. From a state in which the lock is free, \<open>acquire\<close>
  returns with the lock held by this CPU and interrupts off; while it is held, a second
  \<open>acquire\<close> of the same lock panics instead of spinning; \<open>release\<close> frees it again and gives
  back the interrupt state, and a \<open>release\<close> of the free lock panics.\<close>

theorem acquire_release:
  assumes "lock_ok l s"
  shows "\<exists>t u. acquire l P s = Ret () t \<and> held l t \<and> \<not> ie t \<and> mem t = mem s
    \<and> (\<exists>v. acquire l P t = Panic ''acquire'' v)
    \<and> release l P t = Ret () u \<and> lock_ok l u \<and> ie u = ie s \<and> mem u = mem s
    \<and> release l P u = Panic ''release'' u"
proof (intro exI conjI)
  show "acquire l P s = Ret () (acquired l s)"
    using assms by (simp add: acquire_ok lock_ok_def)
  show "acquire l P (acquired l s) = Panic ''acquire'' (pushed (acquired l s))"
    by (rule acquire_held) simp
  show "release l P (acquired l s) = Ret () (settle s)"
    using release_ok [OF assms neutral_id, of P] by simp
  show "release l P (settle s) = Panic ''release'' (settle s)"
    using assms by (intro release_not_held) (simp add: lock_ok_def lock_free_not_held)
qed (use assms in simp_all)

theorem acquire_release_witness:
  "\<exists>t u. acquire KmemLock bare mach0 = Ret () t \<and> held KmemLock t \<and> \<not> ie t \<and> mem t = mem mach0
    \<and> (\<exists>v. acquire KmemLock bare t = Panic ''acquire'' v)
    \<and> release KmemLock bare t = Ret () u \<and> lock_ok KmemLock u \<and> ie u = ie mach0 \<and> mem u = mem mach0
    \<and> release KmemLock bare u = Panic ''release'' u"
  by (rule acquire_release) simp

end
