(* ===== verification/Kalloc.thy ===== *)
theory Kalloc
  imports Spinlock
begin

text \<open>
  The physical page allocator, \<open>kernel/kalloc.c\<close>. The free list is threaded through the free
  pages themselves (\<open>struct run\<close>): the first word of a free page is the address of the next
  one, 0 at the end. \<open>kend\<close> is the linker symbol \<open>_end\<close>.

  \<open>free_list s xs\<close> is the allocator's invariant: following the links from
  \<open>kmem_freelist\<close> visits exactly the pages \<open>xs\<close>, without repetition, each of them
  page-aligned and between the end of the kernel and \<open>PHYSTOP\<close>. The locale
  \<open>page_allocator\<close> is what the rest of the kernel relies on.
\<close>

record kmem = mach +
  kmem_freelist :: u32
  kend :: u32

section \<open>Operations\<close>

definition kfree :: "u32 \<Rightarrow> ('a kmem_scheme, unit) op" where
  "kfree pa =
     bind (gets kend) (\<lambda>e.
     if pa mod PGSIZE \<noteq> 0 \<or> pa < e \<or> PHYSTOP \<le> pa then panic ''kfree''
     else
       bind (acquire KmemLock) (\<lambda>_.
       bind (modify (\<lambda>s. s\<lparr>mem := store32 (mem s) pa (kmem_freelist s)\<rparr>)) (\<lambda>_.
       bind (modify (\<lambda>s. s\<lparr>kmem_freelist := pa\<rparr>)) (\<lambda>_.
       release KmemLock))))"

definition kalloc :: "('a kmem_scheme, u32) op" where
  "kalloc =
     bind (acquire KmemLock) (\<lambda>_.
     bind (gets kmem_freelist) (\<lambda>r.
     bind (if r \<noteq> 0 then modify (\<lambda>s. s\<lparr>kmem_freelist := load32 (mem s) r\<rparr>) else ret ()) (\<lambda>_.
     bind (release KmemLock) (\<lambda>_.
     ret r))))"

text \<open>The loop of \<open>freerange\<close>. Every iteration frees a page below \<open>PHYSTOP\<close> (or panics in
  \<open>kfree\<close>) and moves one page up, so as much fuel as there are pages below \<open>PHYSTOP\<close> is
  enough; \<open>freerange_fuel\<close> shows that it never runs out.\<close>

fun freerange_loop :: "nat \<Rightarrow> u32 \<Rightarrow> u32 \<Rightarrow> ('a kmem_scheme, unit) op" where
  "freerange_loop 0 p pa_end = hang"
| "freerange_loop (Suc fuel) p pa_end =
     (if p + PGSIZE \<le> pa_end
      then bind (kfree p) (\<lambda>_. freerange_loop fuel (p + PGSIZE) pa_end)
      else ret ())"

definition freerange :: "u32 \<Rightarrow> u32 \<Rightarrow> ('a kmem_scheme, unit) op" where
  "freerange pa_start pa_end =
     freerange_loop (Suc (Suc (unat PHYSTOP div 4096))) (PGROUNDUP pa_start) pa_end"

definition kinit :: "('a kmem_scheme, unit) op" where
  "kinit =
     bind (initlock KmemLock ''kmem'') (\<lambda>_.
     bind (gets kend) (\<lambda>e.
     freerange e PHYSTOP))"

section \<open>The free list\<close>

primrec links :: "memory \<Rightarrow> u32 \<Rightarrow> u32 list \<Rightarrow> bool" where
  "links m a [] \<longleftrightarrow> a = 0"
| "links m a (x # xs) \<longleftrightarrow> a = x \<and> x \<noteq> 0 \<and> links m (load32 m x) xs"

definition page_ok :: "u32 \<Rightarrow> u32 \<Rightarrow> bool" where
  "page_ok e p \<longleftrightarrow> page_aligned p \<and> e \<le> p \<and> p < PHYSTOP"

definition free_list :: "'a kmem_scheme \<Rightarrow> u32 list \<Rightarrow> bool" where
  "free_list s xs \<longleftrightarrow> 0 < kend s \<and> links (mem s) (kmem_freelist s) xs \<and> distinct xs
     \<and> (\<forall>x \<in> set xs. page_ok (kend s) x)"

lemma links_cong:
  assumes "\<And>x. x \<in> set xs \<Longrightarrow> load32 m x = load32 n x"
  shows "links m a xs = links n a xs"
  using assms by (induction xs arbitrary: a) auto

lemma page_ok_aligned [simp]: "page_ok e p \<Longrightarrow> page_aligned p"
  by (simp add: page_ok_def)

lemma page_ok_nonzero: "0 < e \<Longrightarrow> page_ok e p \<Longrightarrow> p \<noteq> 0"
  unfolding page_ok_def by (metis leD)

text \<open>The list does not depend on memory outside the free pages.\<close>

lemma free_list_frame:
  assumes "free_list s xs"
    and "\<And>a. PGROUNDDOWN a \<in> set xs \<Longrightarrow> mem t a = mem s a"
    and "kmem_freelist t = kmem_freelist s" "kend t = kend s"
  shows "free_list t xs"
proof -
  have "load32 (mem s) x = load32 (mem t) x" if "x \<in> set xs" for x
  proof (rule load32_page_cong)
    show "aligned4 x" using assms(1) that by (auto simp: free_list_def)
    show "mem s a = mem t a" if "PGROUNDDOWN a = PGROUNDDOWN x" for a
      using assms(1,2) \<open>x \<in> set xs\<close> that by (auto simp: free_list_def)
  qed
  then have "links (mem s) (kmem_freelist s) xs = links (mem t) (kmem_freelist s) xs"
    by (rule links_cong)
  with assms show ?thesis by (auto simp: free_list_def)
qed

lemma free_list_settle [simp]: "free_list (settle s) xs = free_list s xs"
  by (simp add: free_list_def lock_defs)

lemma kmem_settle [simp]:
  "kmem_freelist (settle s) = kmem_freelist s" "kend (settle s) = kend s"
  "kmem_freelist (acquired l s) = kmem_freelist s" "kend (acquired l s) = kend s"
  by (simp_all add: lock_defs)

lemma lock_kmem [simp]:
  "lock_ok l (s\<lparr>kmem_freelist := p\<rparr>) = lock_ok l s" "lock_free l (s\<lparr>kmem_freelist := p\<rparr>) = lock_free l s"
  "cpu_ok (s\<lparr>kmem_freelist := p\<rparr>) = cpu_ok s" "held l (s\<lparr>kmem_freelist := p\<rparr>) = held l s"
  "mycpu (s\<lparr>kmem_freelist := p\<rparr>) = mycpu s"
  "settle (s\<lparr>kmem_freelist := p\<rparr>) = (settle s)\<lparr>kmem_freelist := p\<rparr>"
  by (simp_all add: lock_preds)

lemma kalloc_eq:
  assumes "lock_ok KmemLock s"
  shows "kalloc P s = Ret (kmem_freelist s)
    (if kmem_freelist s = 0 then settle s
     else (settle s)\<lparr>kmem_freelist := load32 (mem s) (kmem_freelist s)\<rparr>)"
proof -
  let ?r = "kmem_freelist s"
  let ?f = "\<lambda>s. if ?r = 0 then s else s\<lparr>kmem_freelist := load32 (mem s) ?r\<rparr>"
  have "lock_neutral ?f" by (simp add: lock_neutral_def)
  with assms have "release KmemLock P (?f (acquired KmemLock s)) = Ret () (?f (settle s))"
    by (rule release_ok)
  then show ?thesis
    using assms by (cases "?r = 0") (simp_all add: kalloc_def acquire_ok lock_ok_def ret_def)
qed

lemma kfree_eq:
  assumes "lock_ok KmemLock s" "page_ok (kend s) pa"
  shows "kfree pa P s =
    Ret () ((settle s)\<lparr>mem := store32 (mem s) pa (kmem_freelist s), kmem_freelist := pa\<rparr>)"
proof -
  let ?f = "\<lambda>s. s\<lparr>mem := store32 (mem s) pa (kmem_freelist s), kmem_freelist := pa\<rparr>"
  have "lock_neutral ?f" by (simp add: lock_neutral_def)
  with assms(1) have "release KmemLock P (?f (acquired KmemLock s)) = Ret () (?f (settle s))"
    by (rule release_ok)
  then show ?thesis
    using assms by (auto simp: kfree_def acquire_ok lock_ok_def page_ok_def page_aligned_def)
qed

lemma kfree_panic:
  "\<not> page_ok (kend s) pa \<Longrightarrow> kfree pa P s = Panic ''kfree'' s"
  by (simp add: kfree_def page_ok_def page_aligned_def panic_def not_less not_le)

lemma kalloc_empty: "free_list s [] \<Longrightarrow> lock_ok KmemLock s \<Longrightarrow> kalloc P s = Ret 0 (settle s)"
  by (simp add: kalloc_eq free_list_def)

lemma kalloc_page:
  assumes "free_list s (p # ps)" "lock_ok KmemLock s"
  defines "t \<equiv> (settle s)\<lparr>kmem_freelist := load32 (mem s) p\<rparr>"
  shows "kalloc P s = Ret p t" "free_list t ps" "p \<notin> set ps"
  using assms(1,2) unfolding t_def
  by (auto simp: kalloc_eq free_list_def lock_defs)

lemma free_list_push:
  assumes "free_list s xs" "page_ok (kend s) p" "p \<notin> set xs"
  shows "free_list ((settle s)\<lparr>mem := store32 (mem s) p (kmem_freelist s), kmem_freelist := p\<rparr>) (p # xs)"
proof -
  have "load32 (mem s) x = load32 (store32 (mem s) p (kmem_freelist s)) x" if "x \<in> set xs" for x
    using assms that by (intro load32_store32_other [symmetric]) (auto simp: free_list_def)
  then have "links (mem s) a xs = links (store32 (mem s) p (kmem_freelist s)) a xs" for a
    by (rule links_cong)
  then show ?thesis
    using assms page_ok_nonzero by (auto simp: free_list_def)
qed

section \<open>Building the list\<close>

text \<open>The \<open>n\<close> pages from page number \<open>k\<close> on.\<close>

definition page_run :: "nat \<Rightarrow> nat \<Rightarrow> u32 list" where
  "page_run k n = map (\<lambda>i. of_nat (4096 * i)) [k..<k + n]"

lemma page_run_Suc: "page_run k (Suc n) = of_nat (4096 * k) # page_run (Suc k) n"
  by (simp add: page_run_def upt_conv_Cons del: upt_Suc)

lemma unat_page_number: "k < 2 ^ 20 \<Longrightarrow> unat (of_nat (4096 * k) :: u32) = 4096 * k"
  by (simp add: unat_of_nat take_bit_eq_mod del: of_nat_mult)

lemma page_number_eq: "j < 2 ^ 20 \<Longrightarrow> k < 2 ^ 20 \<Longrightarrow> of_nat (4096 * j) = (of_nat (4096 * k) :: u32) \<longleftrightarrow> j = k"
  by (metis mult_cancel1 unat_page_number zero_neq_numeral)

lemma page_aligned_page_number [simp]: "k < 2 ^ 20 \<Longrightarrow> page_aligned (of_nat (4096 * k))"
  by (simp add: unat_page_aligned unat_page_number del: of_nat_mult)

lemma unat_PHYSTOP: "unat PHYSTOP = 4096 * 15998"
  by (simp add: PHYSTOP_def)

lemma freerange_loop_ok:
  assumes "free_list s xs" "lock_ok KmemLock s" "kend s \<le> of_nat (4096 * k)" "k + n = 15998"
    "n < fuel" "\<forall>x \<in> set xs. unat x < 4096 * k"
  shows "\<exists>t. freerange_loop fuel (of_nat (4096 * k)) PHYSTOP P s = Ret () t
     \<and> free_list t (rev (page_run k n) @ xs) \<and> lock_ok KmemLock t \<and> kend t = kend s"
  using assms
proof (induction n arbitrary: s xs k fuel)
  case 0
  then obtain f where "fuel = Suc f" by (cases fuel) auto
  moreover have "\<not> of_nat (4096 * k) + PGSIZE \<le> PHYSTOP"
    using 0 by (simp add: PGSIZE_def PHYSTOP_def)
  ultimately show ?case
    using 0 by (simp add: page_run_def ret_def)
next
  case (Suc n)
  then obtain f where f: "fuel = Suc f" "n < f" by (cases fuel) auto
  let ?p = "of_nat (4096 * k) :: u32"
  let ?t = "(settle s)\<lparr>mem := store32 (mem s) ?p (kmem_freelist s), kmem_freelist := ?p\<rparr>"
  have u: "unat ?p = 4096 * k" using Suc.prems(4) by (intro unat_page_number) simp
  have p: "page_ok (kend s) ?p"
    using Suc.prems(3,4) u by (simp add: page_ok_def word_less_nat_alt unat_PHYSTOP del: of_nat_mult)
  have fresh: "?p \<notin> set xs" using Suc.prems(6) u by auto
  have next_page: "?p + PGSIZE = of_nat (4096 * Suc k)" by (simp add: PGSIZE_def algebra_simps)
  have u': "unat (of_nat (4096 * Suc k) :: u32) = 4096 * Suc k"
    using Suc.prems(4) by (intro unat_page_number) simp
  have less: "?p + PGSIZE \<le> PHYSTOP"
    unfolding next_page word_le_nat_alt u' unat_PHYSTOP using Suc.prems(4) by simp
  have "\<exists>u. freerange_loop f (of_nat (4096 * Suc k)) PHYSTOP P ?t = Ret () u
     \<and> free_list u (rev (page_run (Suc k) n) @ ?p # xs) \<and> lock_ok KmemLock u \<and> kend u = kend ?t"
  proof (rule Suc.IH)
    show "free_list ?t (?p # xs)" using Suc.prems(1) p fresh by (rule free_list_push)
    show "lock_ok KmemLock ?t" using Suc.prems(2) by simp
    show "kend ?t \<le> of_nat (4096 * Suc k)"
      using Suc.prems(3) unfolding word_le_nat_alt u u' by simp
    show "\<forall>x\<in>set (?p # xs). unat x < 4096 * Suc k" using Suc.prems(6) u by auto
  qed (use Suc.prems f in auto)
  then show ?case
    using less f Suc.prems(2) p
    by (simp add: kfree_eq next_page page_run_Suc del: of_nat_mult of_nat_Suc mult_Suc_right)
qed

lemma PGROUNDUP_page_number:
  assumes "unat a \<le> unat PHYSTOP"
  shows "PGROUNDUP a = of_nat (4096 * ((unat a + 4095) div 4096))"
proof -
  have "unat a \<le> 4294963200" using assms by (simp add: unat_PHYSTOP)
  then show ?thesis using unat_PGROUNDUP [of a] by (metis of_nat_unat_u32)
qed

lemma kinit_ok:
  assumes "cpu_ok s" "kmem_freelist s = 0" "0 < kend s" "kend s \<le> PHYSTOP"
  defines "k \<equiv> (unat (kend s) + 4095) div 4096"
  shows "wp kinit P s (\<lambda>_ t. free_list t (rev (page_run k (15998 - k))) \<and> lock_ok KmemLock t
    \<and> kend t = kend s)"
proof -
  let ?s = "set_lock KmemLock (\<lambda>k. \<lparr>sl_locked = 0, sl_name = ''kmem'', sl_cpu = None\<rparr>) s"
  have k: "k \<le> 15998" "unat (kend s) \<le> 4096 * k"
    using assms(4) by (auto simp: k_def word_le_nat_alt unat_PHYSTOP)
  have i: "initlock KmemLock ''kmem'' P s = Ret () ?s" by (simp add: initlock_def)
  have "\<exists>t. freerange_loop (Suc (Suc (unat PHYSTOP div 4096))) (of_nat (4096 * k)) PHYSTOP P ?s = Ret () t
     \<and> free_list t (rev (page_run k (15998 - k)) @ []) \<and> lock_ok KmemLock t \<and> kend t = kend ?s"
  proof (rule freerange_loop_ok)
    show "kend ?s \<le> of_nat (4096 * k)"
      using k unat_page_number [of k] by (simp add: set_lock_def word_le_nat_alt del: of_nat_mult)
    show "lock_ok KmemLock ?s"
      using assms(1) by (simp add: set_lock_def lock_ok_def lock_free_def cpu_ok_def ie_def mycpu_def)
    show "free_list ?s []" using assms by (simp add: set_lock_def free_list_def)
  qed (use k in \<open>auto simp: unat_PHYSTOP\<close>)
  moreover have "PGROUNDUP (kend s) = of_nat (4096 * k)"
    using assms(4) unfolding k_def word_le_nat_alt by (rule PGROUNDUP_page_number)
  ultimately show ?thesis
    using i by (auto simp: wp_iff kinit_def freerange_def set_lock_def simp del: freerange_loop.simps)
qed

lemma set_page_run:
  assumes "0 < e" "e \<le> PHYSTOP"
  defines "k \<equiv> (unat e + 4095) div 4096"
  shows "set (page_run k (15998 - k)) = {p. page_ok e p}"
proof (intro set_eqI iffI; clarsimp)
  fix p assume "p \<in> set (page_run k (15998 - k))"
  then obtain i where i: "k \<le> i" "i < 15998" "p = of_nat (4096 * i)" by (auto simp: page_run_def)
  moreover have "unat e \<le> 4096 * k" by (simp add: k_def)
  ultimately show "page_ok e p"
    using unat_page_number [of i]
    by (simp add: page_ok_def word_le_nat_alt word_less_nat_alt unat_PHYSTOP del: of_nat_mult)
next
  fix p assume p: "page_ok e p"
  then obtain i where i: "unat p = 4096 * i"
    by (auto simp: page_ok_def unat_page_aligned mod_eq_0_iff_dvd)
  have "i < 15998" "unat e \<le> 4096 * i"
    using p i by (auto simp: page_ok_def word_le_nat_alt word_less_nat_alt unat_PHYSTOP)
  then have "i \<in> set [k..<k + (15998 - k)]" by (auto simp: k_def)
  moreover have "p = of_nat (4096 * i)" using i by (metis of_nat_unat ucast_id)
  ultimately show "p \<in> set (page_run k (15998 - k))" by (auto simp: page_run_def)
qed

text \<open>The fuel of \<open>freerange\<close> never runs out: the only other way to stop is a panic or an error
  of \<open>kfree\<close>.\<close>

lemma kfree_cases:
  assumes "lock_ok KmemLock s"
  shows "kfree p P s = Panic ''kfree'' s \<or>
    (\<exists>t. kfree p P s = Ret () t \<and> p < PHYSTOP \<and> lock_ok KmemLock t)"
proof (cases "page_ok (kend s) p")
  case True
  with assms show ?thesis
    by (auto simp: kfree_eq page_ok_def)
qed (simp add: kfree_panic)

section \<open>The allocator's contract\<close>

locale page_allocator =
  fixes alloc :: "('s, u32) op"
    and free :: "u32 \<Rightarrow> ('s, unit) op"
    and pool :: "'s \<Rightarrow> u32 list \<Rightarrow> bool"
    and managed :: "'s \<Rightarrow> u32 \<Rightarrow> bool"
  assumes alloc_none: "pool s [] \<Longrightarrow> wp alloc P s (\<lambda>r t. r = 0 \<and> pool t [])"
    and alloc_some: "pool s (p # ps) \<Longrightarrow> wp alloc P s (\<lambda>r t. r = p \<and> pool t ps \<and> managed t = managed s)"
    and free_page: "pool s ps \<Longrightarrow> managed s p \<Longrightarrow> p \<notin> set ps \<Longrightarrow>
      wp (free p) P s (\<lambda>_ t. pool t (p # ps) \<and> managed t = managed s)"
    and pool_distinct: "pool s ps \<Longrightarrow> distinct ps"
    and pool_managed: "pool s ps \<Longrightarrow> p \<in> set ps \<Longrightarrow> managed s p \<and> p \<noteq> 0"
begin

lemma alloc_free:
  assumes "pool s (p # ps)"
  shows "wp (bind alloc free) P s (\<lambda>_ t. pool t (p # ps))"
proof -
  have "managed s p" "p \<notin> set ps"
    using pool_managed [OF assms, of p] pool_distinct [OF assms] by auto
  then have "wp alloc P s (\<lambda>r t. wp (free r) P t (\<lambda>_ t. pool t (p # ps)))"
    by (auto intro!: wp_mono [OF alloc_some [OF assms]] wp_mono [OF free_page])
  then show ?thesis by (simp add: wp_rules)
qed

lemma free_alloc:
  assumes "pool s ps" "managed s p" "p \<notin> set ps"
  shows "wp (bind (free p) (\<lambda>_. alloc)) P s (\<lambda>r t. r = p \<and> pool t ps)"
  unfolding wp_bind
proof (rule wp_mono [OF free_page [OF assms]])
  fix t assume "pool t (p # ps) \<and> managed t = managed s"
  then have "wp alloc P t (\<lambda>r u. r = p \<and> pool u ps \<and> managed u = managed t)"
    by (intro alloc_some) simp
  then show "wp alloc P t (\<lambda>r u. r = p \<and> pool u ps)"
    by (rule wp_mono) simp
qed

lemma alloc_zeros:
  assumes "pool s []"
  shows "wp (collect n alloc) P s (\<lambda>rs t. rs = replicate n 0 \<and> pool t [])"
  using assms
proof (induction n arbitrary: s)
  case (Suc n)
  have "wp alloc P s (\<lambda>r t. wp (collect n alloc) P t (\<lambda>rs t. r # rs = replicate (Suc n) 0 \<and> pool t []))"
    by (rule wp_mono [OF alloc_none [OF Suc.prems]]) (auto intro: wp_mono [OF Suc.IH])
  then show ?case by (simp add: wp_rules)
qed (simp add: wp_rules)

lemma alloc_collect:
  assumes "pool s ps"
  shows "wp (collect n alloc) P s (\<lambda>rs t.
    rs = take n ps @ replicate (n - length ps) 0 \<and> pool t (drop n ps))"
  using assms
proof (induction ps arbitrary: s n)
  case Nil
  show ?case by (rule wp_mono [OF alloc_zeros [OF Nil]]) auto
next
  case (Cons p ps)
  show ?case
  proof (cases n)
    case 0
    with Cons.prems show ?thesis by (simp add: wp_rules)
  next
    case (Suc m)
    have "wp alloc P s (\<lambda>r t. wp (collect m alloc) P t (\<lambda>rs t.
      r # rs = p # take m ps @ replicate (m - length ps) 0 \<and> pool t (drop m ps)))"
      by (rule wp_mono [OF alloc_some [OF Cons.prems]]) (auto intro: wp_mono [OF Cons.IH])
    then show ?thesis by (simp add: wp_rules Suc)
  qed
qed

end

definition pool :: "'a kmem_scheme \<Rightarrow> u32 list \<Rightarrow> bool" where
  "pool s ps \<longleftrightarrow> free_list s ps \<and> lock_ok KmemLock s"

lemma pool_alloc:
  assumes "pool s (p # ps)"
  shows "wp kalloc P s (\<lambda>r t. r = p \<and> pool t ps \<and> kend t = kend s
    \<and> t = (settle s)\<lparr>kmem_freelist := kmem_freelist t\<rparr>)"
  using assms kalloc_page(1) [of s p ps P] kalloc_page(2) [of s p ps] unfolding pool_def
  by (auto simp: wp_iff)

lemma pool_free:
  assumes "pool s ps" "page_ok (kend s) p" "p \<notin> set ps"
  shows "wp (kfree p) P s (\<lambda>_ t. pool t (p # ps) \<and> kend t = kend s)"
  using assms free_list_push [of s ps p] unfolding pool_def
  by (auto simp: wp_iff kfree_eq)

interpretation ka: page_allocator kalloc kfree pool "\<lambda>s. page_ok (kend s)"
proof unfold_locales
  show "wp kalloc P s (\<lambda>r t. r = 0 \<and> pool t [])" if "pool s []" for s P
    using that kalloc_empty [of s P] by (simp add: pool_def wp_iff)
  show "wp kalloc P s (\<lambda>r t. r = p \<and> pool t ps \<and> page_ok (kend t) = page_ok (kend s))"
    if "pool s (p # ps)" for s p ps P
    by (rule wp_mono [OF pool_alloc [OF that]]) simp
  show "wp (kfree p) P s (\<lambda>_ t. pool t (p # ps) \<and> page_ok (kend t) = page_ok (kend s))"
    if "pool s ps" "page_ok (kend s) p" "p \<notin> set ps" for s ps p P
    by (rule wp_mono [OF pool_free [OF that]]) simp
qed (use page_ok_nonzero in \<open>auto simp: pool_def free_list_def\<close>)

section \<open>Properties\<close>

text \<open>A machine whose kernel image ends at 0x21234, and one whose two last pages are free.\<close>

definition kmem0 :: kmem where
  "kmem0 = mach.extend mach0 (kmem.fields 0 0x21234)"

definition kmem2 :: kmem where
  "kmem2 = kmem0\<lparr>mem := store32 (\<lambda>_. 0) 0x03E7D000 0x03E7C000, kmem_freelist := 0x03E7D000\<rparr>"

lemma pool_kmem2: "pool kmem2 [0x03E7D000, 0x03E7C000]"
proof -
  have "load32 (store32 (\<lambda>_. 0) 0x03E7D000 0x03E7C000) 0x03E7C000 = 0"
    by (subst load32_store32_other) (simp_all add: unat_aligned4 load32_def)
  then show ?thesis
    by (simp add: pool_def free_list_def kmem2_def kmem0_def kmem.defs mach.defs page_ok_def
        page_aligned_def PGSIZE_def PHYSTOP_def unat_aligned4) (simp add: lock_preds mach0_def cpu0_def)
qed

text \<open>C2: \<open>kinit\<close> puts every whole page between the end of the kernel and \<open>PHYSTOP\<close> on the free
  list, each exactly once: it returns with a well-formed list whose pages are exactly the
  page-aligned addresses \<open>p\<close> with \<open>_end \<le> p < PHYSTOP\<close>.\<close>

theorem kinit_pool:
  assumes "cpu_ok s" "kmem_freelist s = 0" "0 < kend s" "kend s \<le> PHYSTOP"
  shows "wp kinit P s (\<lambda>_ t. \<exists>ps. pool t ps \<and> distinct ps
    \<and> set ps = {p. page_aligned p \<and> kend s \<le> p \<and> p < PHYSTOP})"
proof (rule wp_mono [OF kinit_ok [OF assms]])
  let ?k = "(unat (kend s) + 4095) div 4096"
  let ?ps = "rev (page_run ?k (15998 - ?k))"
  fix t assume "free_list t ?ps \<and> lock_ok KmemLock t \<and> kend t = kend s"
  then have "pool t ?ps" by (simp add: pool_def)
  then show "\<exists>ps. pool t ps \<and> distinct ps
    \<and> set ps = {p. page_aligned p \<and> kend s \<le> p \<and> p < PHYSTOP}"
    using ka.pool_distinct set_page_run [OF assms(3,4)]
    by (intro exI [where x = ?ps] conjI) (simp_all only: set_rev page_ok_def)
qed

theorem kinit_pool_witness:
  "wp kinit bare kmem0 (\<lambda>_ t. \<exists>ps. pool t ps \<and> distinct ps
    \<and> set ps = {p. page_aligned p \<and> kend kmem0 \<le> p \<and> p < PHYSTOP})"
  by (rule kinit_pool) (simp_all add: kmem0_def, simp_all add: mach.defs kmem.defs PHYSTOP_def)

text \<open>C3: No page is handed out twice. With the pages \<open>ps\<close> free, \<open>n\<close> calls of \<open>kalloc\<close> return
  the first \<open>n\<close> of them, pairwise distinct and not null, and then null pointers once the list is
  empty; the pages not returned stay on the list.\<close>

theorem kalloc_distinct:
  assumes "pool s ps"
  shows "wp (collect n kalloc) P s (\<lambda>rs t.
    rs = take n ps @ replicate (n - length ps) 0 \<and> distinct (take n ps) \<and> 0 \<notin> set ps
    \<and> pool t (drop n ps))"
proof (rule wp_mono [OF ka.alloc_collect [OF assms, where n = n and P = P]])
  fix rs t
  assume "rs = take n ps @ replicate (n - length ps) 0 \<and> pool t (drop n ps)"
  then show "rs = take n ps @ replicate (n - length ps) 0 \<and> distinct (take n ps) \<and> 0 \<notin> set ps
    \<and> pool t (drop n ps)"
    using ka.pool_distinct [OF assms] ka.pool_managed [OF assms, of 0] by auto
qed

theorem kalloc_distinct_witness:
  "wp (collect 3 kalloc) bare kmem2 (\<lambda>rs t. rs = [0x03E7D000, 0x03E7C000, 0] \<and> pool t [])"
  by (rule wp_mono [OF kalloc_distinct [OF pool_kmem2]]) simp

text \<open>C4: \<open>kfree\<close> on every argument. A page that is not page-aligned or lies outside the
  allocator's range is refused with a panic and no change of state; any other page that is not
  already free is put back, and the next \<open>kalloc\<close> returns it, leaving the list as it was.\<close>

theorem kfree_kalloc:
  assumes "pool s ps"
  shows "if page_aligned p \<and> kend s \<le> p \<and> p < PHYSTOP
    then p \<notin> set ps \<longrightarrow> wp (bind (kfree p) (\<lambda>_. kalloc)) P s (\<lambda>r t. r = p \<and> pool t ps)
    else kfree p P s = Panic ''kfree'' s"
proof (cases "page_ok (kend s) p")
  case True
  then show ?thesis using ka.free_alloc [OF assms True, of P] by (simp add: page_ok_def)
next
  case False
  then show ?thesis using kfree_panic [OF False, of P] unfolding page_ok_def by (simp only: if_False)
qed

theorem kfree_kalloc_witness:
  "wp (bind (kfree 0x30000) (\<lambda>_. kalloc)) bare kmem2 (\<lambda>r t. r = 0x30000 \<and> pool t [0x03E7D000, 0x03E7C000])
    \<and> kfree 0x30004 bare kmem2 = Panic ''kfree'' kmem2"
  using kfree_kalloc [OF pool_kmem2, of "0x30000" bare] kfree_kalloc [OF pool_kmem2, of "0x30004" bare]
  by (simp add: kmem2_def kmem0_def kmem.defs mach.defs page_aligned_def PGSIZE_def PHYSTOP_def)

end
