(* ===== verification/CString.thy ===== *)
theory CString
  imports Machine
begin

text \<open>
  The memory and string routines of \<open>kernel/string.c\<close>.

  \<open>memset\<close> and \<open>memmove\<close> run on the byte memory, since the kernel applies them to physical
  pages. The functions that only read take a pointer as the bytes that follow it,
  \<open>ptr = nat \<Rightarrow> u8\<close>: \<open>at m a\<close> for an address of the memory, \<open>nth bs\<close> for an array of the
  kernel. The string copies write to such an array, a list of bytes. A loop with no bound of its
  own (the word loop of \<open>memset\<close>, whose index may wrap around, and \<open>strlen\<close>) is a partial
  function into \<open>option\<close>; the lemmas say when it returns.
\<close>

type_synonym ptr = "nat \<Rightarrow> u8"

definition at :: "memory \<Rightarrow> u32 \<Rightarrow> ptr" where
  "at m a = (\<lambda>i. m (a + of_nat i))"

section \<open>\<open>memset\<close>\<close>

function memset_bytes :: "(u32 \<Rightarrow> bool) \<Rightarrow> memory \<Rightarrow> u32 \<Rightarrow> u8 \<Rightarrow> u32 \<Rightarrow> u32 \<Rightarrow> memory \<times> u32" where
  "memset_bytes go m cdst c n i =
     (if i < n \<and> go (cdst + i) then memset_bytes go (m(cdst + i := c)) cdst c n (i + 1) else (m, i))"
  by pat_completeness auto
termination
  by (relation "measure (\<lambda>(go, m, cdst, c, n, i). unat n - unat i)")
    (auto simp: unat_suc, simp add: word_less_nat_alt)

declare memset_bytes.simps [simp del]

partial_function (option) memset_words :: "memory \<Rightarrow> u32 \<Rightarrow> u32 \<Rightarrow> u32 \<Rightarrow> u32 \<Rightarrow> (memory \<times> u32) option" where
  "memset_words m cdst w n i =
     (if i + 4 \<le> n then memset_words (store32 m (cdst + i) w) cdst w n (i + 4) else Some (m, i))"

definition memset :: "memory \<Rightarrow> u32 \<Rightarrow> u32 \<Rightarrow> u32 \<Rightarrow> memory option" where
  "memset m dst c n =
     (let w = ucast (ucast c :: u8) :: u32;
          w = w OR push_bit 8 w;
          w = w OR push_bit 16 w;
          (m, i) = memset_bytes (\<lambda>a. a AND 3 \<noteq> 0) m dst (ucast c) n 0
      in case memset_words m dst w n i of
           None \<Rightarrow> None
         | Some (m, i) \<Rightarrow> Some (fst (memset_bytes (\<lambda>_. True) m dst (ucast c) n i)))"

section \<open>\<open>memcmp\<close>, \<open>memmove\<close>\<close>

fun memcmp :: "ptr \<Rightarrow> ptr \<Rightarrow> nat \<Rightarrow> int" where
  "memcmp s1 s2 0 = 0"
| "memcmp s1 s2 (Suc n) =
     (if s1 0 \<noteq> s2 0 then uint (s1 0) - uint (s2 0)
      else memcmp (\<lambda>i. s1 (Suc i)) (\<lambda>i. s2 (Suc i)) n)"

fun memmove_down :: "memory \<Rightarrow> u32 \<Rightarrow> u32 \<Rightarrow> nat \<Rightarrow> memory" where
  "memmove_down m d s 0 = m"
| "memmove_down m d s (Suc n) = memmove_down (m(d - 1 := m (s - 1))) (d - 1) (s - 1) n"

fun memmove_up :: "memory \<Rightarrow> u32 \<Rightarrow> u32 \<Rightarrow> nat \<Rightarrow> memory" where
  "memmove_up m d s 0 = m"
| "memmove_up m d s (Suc n) = memmove_up (m(d := m s)) (d + 1) (s + 1) n"

definition memmove :: "memory \<Rightarrow> u32 \<Rightarrow> u32 \<Rightarrow> u32 \<Rightarrow> memory" where
  "memmove m dst src n =
     (if n = 0 then m
      else if src < dst \<and> dst < src + n then memmove_down m (dst + n) (src + n) (unat n)
      else memmove_up m dst src (unat n))"

section \<open>Strings\<close>

fun strncmp :: "ptr \<Rightarrow> ptr \<Rightarrow> nat \<Rightarrow> int" where
  "strncmp p q 0 = 0"
| "strncmp p q (Suc n) =
     (if p 0 \<noteq> 0 \<and> p 0 = q 0 then strncmp (\<lambda>i. p (Suc i)) (\<lambda>i. q (Suc i)) n
      else uint (p 0) - uint (q 0))"

fun strncpy_copy :: "u8 list \<Rightarrow> nat \<Rightarrow> ptr \<Rightarrow> nat \<Rightarrow> u8 list \<times> nat \<times> nat" where
  "strncpy_copy s i t 0 = (s, i, 0)"
| "strncpy_copy s i t (Suc n) =
     (if t i \<noteq> 0 then strncpy_copy (s[i := t i]) (Suc i) t n else (s[i := t i], Suc i, n))"

fun strncpy_pad :: "u8 list \<Rightarrow> nat \<Rightarrow> nat \<Rightarrow> u8 list" where
  "strncpy_pad s i 0 = s"
| "strncpy_pad s i (Suc n) = strncpy_pad (s[i := 0]) (Suc i) n"

definition strncpy :: "u8 list \<Rightarrow> ptr \<Rightarrow> int \<Rightarrow> u8 list" where
  "strncpy s t n = (case strncpy_copy s 0 t (nat n) of (s, i, n) \<Rightarrow> strncpy_pad s i n)"

fun safestrcpy_copy :: "u8 list \<Rightarrow> nat \<Rightarrow> ptr \<Rightarrow> nat \<Rightarrow> u8 list \<times> nat" where
  "safestrcpy_copy s i t 0 = (s, i)"
| "safestrcpy_copy s i t (Suc n) =
     (if t i \<noteq> 0 then safestrcpy_copy (s[i := t i]) (Suc i) t n else (s[i := t i], Suc i))"

definition safestrcpy :: "u8 list \<Rightarrow> ptr \<Rightarrow> int \<Rightarrow> u8 list" where
  "safestrcpy s t n =
     (if n \<le> 0 then s
      else case safestrcpy_copy s 0 t (nat (n - 1)) of (s, i) \<Rightarrow> s[i := 0])"

partial_function (option) strlen_loop :: "ptr \<Rightarrow> nat \<Rightarrow> nat option" where
  "strlen_loop s n = (if s n \<noteq> 0 then strlen_loop s (Suc n) else Some n)"

definition strlen :: "ptr \<Rightarrow> nat option" where
  "strlen s = strlen_loop s 0"

section \<open>\<open>memset\<close> fills\<close>

lemma write_bytes_snoc:
  assumes "k < 4294967296" "x = a + of_nat k" "length bs = k"
  shows "(write_bytes m a bs)(x := c) = write_bytes m a (bs @ [c])"
proof (rule ext)
  fix y
  have "unat (of_nat k :: u32) = k" using assms by (simp add: unat_of_nat take_bit_eq_mod)
  moreover have "y = x \<longleftrightarrow> unat (y - a) = unat (of_nat k :: u32)"
    unfolding assms(2) by (metis add.commute add_diff_cancel_right' diff_add_cancel word_unat_eq_iff)
  ultimately show "((write_bytes m a bs)(x := c)) y = write_bytes m a (bs @ [c]) y"
    using assms(3) by (auto simp: write_bytes_def nth_append)
qed

lemma memset_bytes_prefix:
  assumes "unat i \<le> unat n"
  shows "\<exists>j. unat i \<le> unat j \<and> unat j \<le> unat n
    \<and> memset_bytes go (write_bytes m dst (replicate (unat i) c)) dst c n i =
        (write_bytes m dst (replicate (unat j) c), j)
    \<and> \<not> (j < n \<and> go (dst + j))"
  using assms
proof (induction "unat n - unat i" arbitrary: i)
  case 0
  then have "\<not> i < n" by (simp add: word_less_nat_alt)
  with 0 show ?case by (intro exI [of _ i]) (simp add: memset_bytes.simps)
next
  case (Suc d)
  show ?case
  proof (cases "i < n \<and> go (dst + i)")
    case True
    then have u: "unat (i + 1) = Suc (unat i)" using unat_suc by blast
    have "(write_bytes m dst (replicate (unat i) c))(dst + i := c) =
        write_bytes m dst (replicate (unat i) c @ [c])"
      by (rule write_bytes_snoc [where k = "unat i"]) simp_all
    then have e: "(write_bytes m dst (replicate (unat i) c))(dst + i := c) =
        write_bytes m dst (replicate (unat (i + 1)) c)"
      by (simp add: u replicate_append_same)
    have "d = unat n - unat (i + 1)" "unat (i + 1) \<le> unat n" using Suc.hyps(2) u by simp_all
    from Suc.hyps(1) [OF this] u True e show ?thesis
      by (subst memset_bytes.simps) (auto intro: Suc_leD)
  next
    case False
    then show ?thesis
      by (intro exI [of _ i] conjI; (subst memset_bytes.simps)?) (use Suc.prems in auto)
  qed
qed

lemma fill_word:
  fixes c :: u8
  defines "w \<equiv> ucast c :: u32"
  defines "v \<equiv> (w OR push_bit 8 w) OR push_bit 16 (w OR push_bit 8 w)"
  shows "ucast v = c" "ucast (drop_bit 8 v) = c" "ucast (drop_bit 16 v) = c" "ucast (drop_bit 24 v) = c"
  unfolding v_def w_def
  by (rule bit_word_eqI; auto simp: bit_or_iff bit_push_bit_iff bit_ucast_iff bit_drop_bit_eq
      dest: bit_imp_le_length)+

lemma store32_fill:
  assumes "k + 4 \<le> 4294967296" "a = dst + of_nat k" "length bs = k"
    "ucast v = c" "ucast (drop_bit 8 v) = c" "ucast (drop_bit 16 v) = c" "ucast (drop_bit 24 v) = c"
  shows "store32 (write_bytes m dst bs) a v = write_bytes m dst (bs @ [c, c, c, c])"
proof -
  have "store32 (write_bytes m dst bs) a v =
      (((write_bytes m dst bs)(a := c, a + 1 := c))(a + 2 := c))(a + 3 := c)"
    by (simp add: store32_def assms)
  also have "(write_bytes m dst bs)(a := c) = write_bytes m dst (bs @ [c])"
    by (rule write_bytes_snoc) (use assms in auto)
  also have "(write_bytes m dst (bs @ [c]))(a + 1 := c) = write_bytes m dst ((bs @ [c]) @ [c])"
    by (rule write_bytes_snoc [where k = "k + 1"]) (use assms in auto)
  also have "(write_bytes m dst ((bs @ [c]) @ [c]))(a + 2 := c) = write_bytes m dst (((bs @ [c]) @ [c]) @ [c])"
    by (rule write_bytes_snoc [where k = "k + 2"]) (use assms in auto)
  also have "(write_bytes m dst (((bs @ [c]) @ [c]) @ [c]))(a + 3 := c) =
      write_bytes m dst ((((bs @ [c]) @ [c]) @ [c]) @ [c])"
    by (rule write_bytes_snoc [where k = "k + 3"]) (use assms in auto)
  finally show ?thesis by simp
qed

lemma memset_words_prefix:
  assumes "unat i \<le> unat n" "unat n < 4294967292"
    "ucast v = c" "ucast (drop_bit 8 v) = c" "ucast (drop_bit 16 v) = c" "ucast (drop_bit 24 v) = c"
  shows "\<exists>j. unat j \<le> unat n
    \<and> memset_words (write_bytes m dst (replicate (unat i) c)) dst v n i =
        Some (write_bytes m dst (replicate (unat j) c), j)"
  using assms(1)
proof (induction "unat n - unat i" arbitrary: i rule: less_induct)
  case less
  have u: "unat (i + 4) = unat i + 4" using less.prems assms(2) unat_add_nat [of i 4] by simp
  show ?case
  proof (cases "i + 4 \<le> n")
    case True
    then have le: "unat i + 4 \<le> unat n" by (simp add: word_le_nat_alt u)
    have "store32 (write_bytes m dst (replicate (unat i) c)) (dst + i) v =
        write_bytes m dst (replicate (unat i) c @ [c, c, c, c])"
      by (rule store32_fill [where k = "unat i"]) (use assms le in auto)
    also have "replicate (unat i) c @ [c, c, c, c] = replicate (unat (i + 4)) c"
      unfolding u by (rule nth_equalityI) (auto simp: nth_append nth_Cons' )
    finally show ?thesis
      using less.hyps [of "i + 4"] le u True by (subst memset_words.simps) simp
  next
    case False
    then show ?thesis
      by (intro exI [of _ i] conjI; (subst memset_words.simps)?) (use less.prems in auto)
  qed
qed

text \<open>Whenever \<open>n\<close> is below \<open>2 ^ 32 - 4\<close>, the three loops return and the word-wise fill is the
  byte-wise one.\<close>

lemma memset_fill:
  assumes "unat n < 4294967292"
  shows "memset m dst c n = Some (write_bytes m dst (replicate (unat n) (ucast c)))"
proof -
  let ?c = "ucast c :: u8"
  obtain i where i: "unat i \<le> unat n" and
    h: "memset_bytes (\<lambda>a. a AND 3 \<noteq> 0) m dst ?c n 0 = (write_bytes m dst (replicate (unat i) ?c), i)"
    using memset_bytes_prefix [of 0 n "\<lambda>a. a AND 3 \<noteq> 0" m dst ?c] by auto
  obtain j where j: "unat j \<le> unat n" and
    w: "memset_words (write_bytes m dst (replicate (unat i) ?c)) dst
        ((ucast ?c OR push_bit 8 (ucast ?c)) OR push_bit 16 (ucast ?c OR push_bit 8 (ucast ?c))) n i =
        Some (write_bytes m dst (replicate (unat j) ?c), j)"
    using memset_words_prefix [OF i assms fill_word, of m dst] by blast
  obtain k where k: "unat k \<le> unat n" "\<not> k < n" and
    t: "memset_bytes (\<lambda>_. True) (write_bytes m dst (replicate (unat j) ?c)) dst ?c n j =
      (write_bytes m dst (replicate (unat k) ?c), k)"
    using memset_bytes_prefix [of j n "\<lambda>_. True" m dst ?c] j by auto
  have "k = n" using k by (simp add: word_le_nat_alt word_less_nat_alt word_unat_eq_iff)
  with h w t show ?thesis by (simp add: memset_def Let_def)
qed

section \<open>\<open>memmove\<close> copies\<close>

lemma write_bytes_cons:
  assumes "length bs < 4294967296"
  shows "(write_bytes m (a + 1) bs)(a := c) = write_bytes m a (c # bs)"
proof (rule ext)
  fix y
  have "unat (y - (a + 1)) + 1 = unat (y - a)" if "y \<noteq> a"
  proof -
    have "unat (y - a) \<noteq> 0" using that by (simp add: unat_eq_zero)
    then have "unat ((y - a) - 1) + 1 = unat (y - a)" by (simp add: unat_diff [of "y - a" 1])
    moreover have "(y - a) - 1 = y - (a + 1)" by simp
    ultimately show ?thesis by metis
  qed
  then show "((write_bytes m (a + 1) bs)(a := c)) y = write_bytes m a (c # bs) y"
    by (cases "y = a") (auto simp: write_bytes_def nth_Cons' dest: sym)
qed

lemma read_bytes_take: "k \<le> n \<Longrightarrow> take k (read_bytes m a n) = read_bytes m a k"
  by (simp add: read_bytes_def take_map)

lemma memmove_up_eq:
  assumes "unat src + n \<le> 4294967296" "unat dst + n \<le> 4294967296"
    "unat dst \<le> unat src \<or> unat src + n \<le> unat dst" "k \<le> n"
  shows "memmove_up (write_bytes m dst (read_bytes m src k)) (dst + of_nat k) (src + of_nat k) (n - k) =
    write_bytes m dst (read_bytes m src n)"
  using assms(4)
proof (induction "n - k" arbitrary: k)
  case (Suc d)
  let ?x = "src + of_nat k"
  have k: "k < n" "n - k = Suc (n - Suc k)" "d = n - Suc k" using Suc.hyps(2) by auto
  have u: "unat ?x = unat src + k" using assms(1) k by (intro unat_add_nat) simp
  have "\<not> unat (?x - dst) < k" using assms(3) u k assms(2) by (auto simp: unat_diff)
  then have r: "write_bytes m dst (read_bytes m src k) ?x = m ?x" by (simp add: write_bytes_def)
  have "(write_bytes m dst (read_bytes m src k))(dst + of_nat k := m ?x) =
      write_bytes m dst (read_bytes m src k @ [m ?x])"
    by (rule write_bytes_snoc [where k = k]) (use k assms(1) in auto)
  also have "read_bytes m src k @ [m ?x] = read_bytes m src (Suc k)" by (simp add: read_bytes_def)
  finally have e: "(write_bytes m dst (read_bytes m src k))(dst + of_nat k := m ?x) =
      write_bytes m dst (read_bytes m src (Suc k))" .
  show ?case
    using Suc.hyps(1) [of "Suc k"] k r by (simp add: e add.assoc add.commute [of 1])
qed simp

lemma memmove_down_eq:
  assumes "unat src + n \<le> 4294967296" "unat dst + n \<le> 4294967296" "unat src < unat dst" "k \<le> n"
    "bs = read_bytes m src n"
  shows "memmove_down (write_bytes m (dst + of_nat k) (drop k bs)) (dst + of_nat k) (src + of_nat k) k =
    write_bytes m dst bs"
  using assms(4)
proof (induction k)
  case (Suc k)
  let ?x = "src + of_nat k" and ?d = "dst + of_nat k"
  let ?m = "write_bytes m (?d + 1) (drop (Suc k) bs)"
  have l: "length bs = n" using assms(5) by simp
  have u: "unat ?x = unat src + k" "unat ?d = unat dst + k"
    using Suc.prems assms(1,2) by (auto intro: unat_add_nat)
  have "\<not> unat (?x - (?d + 1)) < n - Suc k"
  proof (cases "unat ?d + 1 < 4294967296")
    case True
    then have "unat (?d + 1) = unat dst + k + 1" using unat_add_nat [of ?d 1] u by simp
    with u assms(2,3) Suc.prems show ?thesis by (subst unat_diff) simp
  next
    case False
    with u assms(2) Suc.prems show ?thesis by simp
  qed
  then have "?m ?x = bs ! k" using Suc.prems l assms(5) by (simp add: write_bytes_def)
  then have "?m(?d := ?m ?x) = write_bytes m ?d (bs ! k # drop (Suc k) bs)"
    using l assms(1) write_bytes_cons [of "drop (Suc k) bs" m ?d "bs ! k"] Suc.prems by simp
  also have "bs ! k # drop (Suc k) bs = drop k bs" using Suc.prems l by (simp add: Cons_nth_drop_Suc)
  finally have e: "?m(?d := ?m ?x) = write_bytes m ?d (drop k bs)" .
  show ?case
    using Suc.IH Suc.prems by (simp add: e add.assoc [symmetric] add.commute [of 1])
qed simp

lemma memmove_copy:
  assumes "unat src + unat n \<le> 4294967296" "unat dst + unat n \<le> 4294967296"
  shows "memmove m dst src n = write_bytes m dst (read_bytes m src (unat n))"
proof (cases "src < dst \<and> dst < src + n")
  case True
  then have "unat src < unat dst" by (simp add: word_less_nat_alt)
  from memmove_down_eq [OF assms this order.refl refl, of m] True show ?thesis
    by (auto simp: memmove_def)
next
  case False
  have "unat dst \<le> unat src \<or> unat src + unat n \<le> unat dst"
  proof (cases "unat src + unat n < 4294967296")
    case True
    then have "unat (src + n) = unat src + unat n" using unat_add_nat [of src "unat n"] by simp
    with False show ?thesis by (auto simp: word_less_nat_alt)
  qed (use assms in auto)
  from memmove_up_eq [OF assms this, of 0 m] False show ?thesis
    by (auto simp: memmove_def read_bytes_def)
qed

section \<open>Strings in arrays\<close>

text \<open>The string at a pointer, cut after \<open>n\<close> bytes.\<close>

definition cstr :: "ptr \<Rightarrow> nat \<Rightarrow> u8 list" where
  "cstr p n = takeWhile (\<lambda>c. c \<noteq> 0) (map p [0..<n])"

lemma cstr_0 [simp]: "cstr p 0 = []"
  by (simp add: cstr_def)

lemma cstr_Suc: "cstr p (Suc n) = (if p 0 = 0 then [] else p 0 # cstr (\<lambda>i. p (Suc i)) n)"
  by (simp add: cstr_def map_upt_Suc del: upt_Suc)

lemma length_cstr: "length (cstr p n) \<le> n"
  unfolding cstr_def using length_takeWhile_le [of _ "map p [0..<n]"] by (metis length_map length_upt diff_zero)

lemma cstr_nonzero: "c \<in> set (cstr p n) \<Longrightarrow> c \<noteq> 0"
  by (auto simp: cstr_def dest: set_takeWhileD)

lemma cstr_cong: "(\<And>i. i < n \<Longrightarrow> p i = q i) \<Longrightarrow> cstr p n = cstr q n"
  by (auto simp: cstr_def intro!: arg_cong [where f = "takeWhile _"])

lemma cstr_pad:
  assumes "0 \<notin> set xs" "length xs \<le> n"
  shows "cstr (nth (xs @ replicate k 0 @ ys)) (min n (length xs + k)) = xs"
  using assms
proof (induction xs arbitrary: n)
  case Nil
  then show ?case by (cases k; cases n) (auto simp: cstr_Suc)
next
  case (Cons x xs)
  then obtain m where m: "n = Suc m" by (cases n) auto
  have "min n (length (x # xs) + k) = Suc (min m (length xs + k))" by (simp add: m)
  with Cons m show ?case by (auto simp: cstr_Suc)
qed

lemma strncmp_eq_0_iff: "strncmp p q n = 0 \<longleftrightarrow> cstr p n = cstr q n"
  by (induction p q n rule: strncmp.induct) (auto simp: cstr_Suc word_uint_eq_iff [symmetric] uint_0_iff)

lemma memcmp_eq_0_iff: "memcmp p q n = 0 \<longleftrightarrow> map p [0..<n] = map q [0..<n]"
  by (induction p q n rule: memcmp.induct) (auto simp: map_upt_Suc word_uint_eq_iff [symmetric] simp del: upt_Suc)

lemma strncpy_pad_eq:
  "i + n \<le> length s \<Longrightarrow> strncpy_pad s i n = take i s @ replicate n 0 @ drop (i + n) s"
proof (induction s i n rule: strncpy_pad.induct)
  case (2 s i n)
  then have "i < length s" by simp
  then have "take (Suc i) (s[i := 0]) = take i s @ [0]" by (simp add: take_Suc_conv_app_nth)
  with 2 show ?case by (simp add: drop_update_cancel)
qed simp

lemma strncpy_copy_eq:
  fixes t :: ptr
  assumes "i + n \<le> length s"
  defines "c \<equiv> cstr (\<lambda>j. t (i + j)) n"
  shows "(case strncpy_copy s i t n of (s', i', n') \<Rightarrow> strncpy_pad s' i' n') =
    take i s @ c @ replicate (n - length c) 0 @ drop (i + n) s"
  using assms(1) unfolding c_def
proof (induction s i t n rule: strncpy_copy.induct)
  case (2 s i t n)
  then have "i < length s" by simp
  then have tk: "take (Suc i) (s[i := x]) = take i s @ [x]" for x by (simp add: take_Suc_conv_app_nth)
  show ?case
  proof (cases "t i = 0")
    case True
    with 2 tk show ?thesis by (simp add: cstr_Suc strncpy_pad_eq drop_update_cancel)
  next
    case False
    with 2 tk show ?thesis by (simp add: cstr_Suc drop_update_cancel)
  qed
qed simp

lemma strncpy_eq:
  fixes t :: ptr
  assumes "0 \<le> n" "nat n \<le> length s"
  defines "c \<equiv> cstr t (nat n)"
  shows "strncpy s t n = c @ replicate (nat n - length c) 0 @ drop (nat n) s"
  using strncpy_copy_eq [of 0 "nat n" s t] assms by (simp add: strncpy_def)

lemma safestrcpy_copy_eq:
  fixes t :: ptr
  assumes "i + n < length s" "safestrcpy_copy s i t n = (s', i')"
  defines "c \<equiv> cstr (\<lambda>j. t (i + j)) n"
  shows "length s' = length s \<and> i' < length s \<and> take (i + length c) s' = take i s @ c
    \<and> i + length c \<le> i' \<and> (i + length c < i' \<longrightarrow> s' ! (i + length c) = 0)
    \<and> drop (Suc (i + n)) s' = drop (Suc (i + n)) s \<and> i' \<le> i + n"
  using assms(1,2) unfolding c_def
proof (induction s i t n rule: safestrcpy_copy.induct)
  case (2 s i t n)
  then have "i < length s" by simp
  then have tk: "take (Suc i) (s[i := x]) = take i s @ [x]" for x by (simp add: take_Suc_conv_app_nth)
  show ?case
  proof (cases "t i = 0")
    case True
    with 2 tk show ?thesis by (auto simp: cstr_Suc)
  next
    case False
    with 2 tk show ?thesis by (simp add: cstr_Suc)
  qed
qed simp

text \<open>\<open>safestrcpy\<close> always leaves a terminated string: the source cut to \<open>n - 1\<close> bytes.\<close>

lemma safestrcpy_spec:
  fixes t :: ptr
  assumes "0 < n" "nat n \<le> length s"
  defines "r \<equiv> safestrcpy s t n" and "c \<equiv> cstr t (nat n - 1)"
  shows "length r = length s" "take (length c) r = c" "r ! length c = 0" "drop (nat n) r = drop (nat n) s"
proof -
  obtain s' i' where e: "safestrcpy_copy s 0 t (nat n - 1) = (s', i')"
    by (cases "safestrcpy_copy s 0 t (nat n - 1)")
  have r: "r = s'[i' := 0]"
    using assms(1) e by (simp add: r_def safestrcpy_def nat_diff_distrib)
  have "0 + (nat n - 1) < length s" using assms(1,2) by simp
  from safestrcpy_copy_eq [OF this e] assms(1)
  have f: "length s' = length s" "i' < length s" "take (length c) s' = c" "length c \<le> i'"
    "length c < i' \<longrightarrow> s' ! length c = 0" "drop (nat n) s' = drop (nat n) s" "i' \<le> nat n - 1"
    by (simp_all add: c_def)
  then show "length r = length s" "take (length c) r = c" "drop (nat n) r = drop (nat n) s"
    using assms(1) by (simp_all add: r)
  show "r ! length c = 0" using f by (cases "length c = i'") (simp_all add: r)
qed

lemma strlen_loop_Some:
  assumes "i \<le> n" "s n = 0" "\<And>j. i \<le> j \<Longrightarrow> j < n \<Longrightarrow> s j \<noteq> 0"
  shows "strlen_loop s i = Some n"
  using assms
proof (induction "n - i" arbitrary: i)
  case 0
  then show ?case by (simp add: strlen_loop.simps)
next
  case (Suc d)
  then show ?case by (subst strlen_loop.simps) simp
qed

definition least_zero :: "ptr \<Rightarrow> nat \<Rightarrow> nat \<Rightarrow> bool" where
  "least_zero s i n \<longleftrightarrow> s n = 0 \<and> i \<le> n \<and> (\<forall>j. i \<le> j \<longrightarrow> j < n \<longrightarrow> s j \<noteq> 0)"

lemma strlen_loop_sound: "strlen_loop s i = Some n \<Longrightarrow> least_zero s i n"
proof (rule strlen_loop.raw_induct [where P = least_zero])
  fix loop :: "ptr \<Rightarrow> nat \<Rightarrow> nat option" and s i n
  assume IH: "\<And>s i n. loop s i = Some n \<Longrightarrow> least_zero s i n"
    and r: "(if s i \<noteq> 0 then loop s (Suc i) else Some i) = Some n"
  show "least_zero s i n"
  proof (cases "s i = 0")
    case False
    with r have "least_zero s (Suc i) n" by (simp add: IH)
    with False show ?thesis unfolding least_zero_def by (metis Suc_leD Suc_leI le_neq_implies_less)
  qed (use r in \<open>auto simp: least_zero_def\<close>)
qed

lemma strlen_Some_iff: "strlen s = Some n \<longleftrightarrow> s n = 0 \<and> (\<forall>i < n. s i \<noteq> 0)"
proof
  assume "strlen s = Some n"
  then have "least_zero s 0 n" unfolding strlen_def by (rule strlen_loop_sound)
  then show "s n = 0 \<and> (\<forall>i < n. s i \<noteq> 0)" by (simp add: least_zero_def)
next
  assume "s n = 0 \<and> (\<forall>i < n. s i \<noteq> 0)"
  then have "strlen_loop s 0 = Some n" by (intro strlen_loop_Some) simp_all
  then show "strlen s = Some n" unfolding strlen_def .
qed

section \<open>Properties\<close>

text \<open>C14: \<open>memset\<close>, which fills whole words between an unaligned head and tail, returns for every
  length below \<open>2 ^ 32 - 4\<close> and has set exactly the \<open>n\<close> bytes from \<open>dst\<close> on to the low byte of
  its argument, whatever the alignment of \<open>dst\<close>.\<close>

theorem memset_exact:
  assumes "unat n < 4294967292"
  shows "\<exists>m'. memset m dst c n = Some m'
    \<and> (\<forall>a. m' a = (if unat (a - dst) < unat n then ucast c else m a))"
  unfolding memset_fill [OF assms] by (simp add: write_bytes_def)

theorem memset_exact_witness:
  "\<exists>m'. memset (\<lambda>_. 1) 0x1003 0x2AB 9 = Some m'
    \<and> (\<forall>a. m' a = (if unat (a - 0x1003) < unat (9::u32) then ucast (0x2AB::u32) else 1))"
  by (rule memset_exact) simp

text \<open>C13: \<open>memmove\<close> copies correctly also when the regions overlap: for regions that do not wrap
  around the address space, afterwards byte \<open>i\<close> of the destination is the byte \<open>i\<close> that the
  source had before the call, and no other byte changes.\<close>

theorem memmove_overlap:
  assumes "unat src + unat n \<le> 4294967296" "unat dst + unat n \<le> 4294967296"
  shows "read_bytes (memmove m dst src n) dst (unat n) = read_bytes m src (unat n)
    \<and> (\<forall>a. unat n \<le> unat (a - dst) \<longrightarrow> memmove m dst src n a = m a)"
  unfolding memmove_copy [OF assms]
  using read_write_bytes [of "read_bytes m src (unat n)" m dst]
  by (simp add: write_bytes_def order_less_imp_le [OF unat_u32_less])

theorem memmove_overlap_witness:
  "read_bytes (memmove (\<lambda>a. ucast a) 0x102 0x100 5) 0x102 (unat (5::u32)) = [0, 1, 2, 3, 4]
    \<and> read_bytes (memmove (\<lambda>a. ucast a) 0x100 0x102 5) 0x100 (unat (5::u32)) = [2, 3, 4, 5, 6]"
  using memmove_overlap [of "0x100" 5 "0x102" "\<lambda>a. ucast a"]
    memmove_overlap [of "0x102" 5 "0x100" "\<lambda>a. ucast a"]
  by (simp add: read_bytes_def upt_rec)

end
