(* ===== verification/ProcState.thy ===== *)
theory ProcState
  imports Kalloc CString
begin

text \<open>
  The process table as data: \<^verbatim>\<open>struct proc\<close> of \<open>kernel/proc.h\<close> and the globals of
  \<open>kernel/proc.c\<close> and \<open>kernel/vm.c\<close>. A process is its index in the table, its lock is
  \<open>ProcLock i\<close>; files and inodes are indices into their tables. A sleep channel, a bare address
  in C, is named by the object whose address it is. The addresses of symbols that the linker
  or the assembly files define are fields that no operation changes.
\<close>

datatype procstate = UNUSED | USED | SLEEPING | RUNNABLE | RUNNING | ZOMBIE

datatype chan =
    ProcChan nat            \<comment> \<open>a process, in \<open>kwait\<close>\<close>
  | PipeRdChan u32 | PipeWrChan u32  \<comment> \<open>\<open>&pi->nread\<close>, \<open>&pi->nwrite\<close>\<close>
  | TicksChan | ConsChan | TxChan | LogChan
  | SleepChan lock          \<comment> \<open>a sleep lock, named by its spin lock\<close>
  | DiskChan nat            \<comment> \<open>a buffer waiting for the disk\<close>

record proc =
  p_state :: procstate
  p_chan :: "chan option"
  p_killed :: u32
  p_xstate :: u32
  p_pid :: u32
  p_parent :: "nat option"
  p_kstack :: u32
  p_sz :: u32
  p_pagetable :: u32
  p_trapframe :: u32
  p_context :: kcontext
  p_ofile :: "nat \<Rightarrow> nat option"
  p_cwd :: "nat option"
  p_name :: "u8 list"

record procs = kmem +
  ptable :: "nat \<Rightarrow> proc"
  initproc :: "nat option"
  nextpid :: u32
  kernel_pagetable :: u32
  sym_trampoline_start :: u32
  sym_userret :: u32
  sym_forkret :: u32
  sym_usertrap :: u32

definition set_proc :: "nat \<Rightarrow> (proc \<Rightarrow> proc) \<Rightarrow> 'a procs_scheme \<Rightarrow> 'a procs_scheme" where
  "set_proc i f s = s\<lparr>ptable := (ptable s)(i := f (ptable s i))\<rparr>"

definition myproc :: "('a procs_scheme, nat option) op" where
  "myproc =
     bind push_off (\<lambda>_.
     bind (gets (\<lambda>s. c_proc (mycpu s))) (\<lambda>p.
     bind pop_off (\<lambda>_.
     ret p)))"

text \<open>\<open>myproc()\<close> where the result is dereferenced.\<close>

definition curproc :: "('a procs_scheme, nat) op" where
  "curproc = bind myproc deref"

lemma pop_off_pushed: "cpu_ok s \<Longrightarrow> pop_off P (pushed s) = Ret () (settle s)"
  by (subst pop_off_eq) (auto simp: popped_pushed cpu_ok_def)

lemma c_proc_pushed [simp]: "c_proc (mycpu (pushed s)) = c_proc (mycpu s)"
  by (simp add: lock_defs)

lemma myproc_eq: "cpu_ok s \<Longrightarrow> myproc P s = Ret (c_proc (mycpu s)) (settle s)"
  by (simp add: myproc_def push_off_eq pop_off_pushed ret_def)

lemma curproc_eq: "cpu_ok s \<Longrightarrow> c_proc (mycpu s) = Some p \<Longrightarrow> curproc P s = Ret p (settle s)"
  by (simp add: curproc_def myproc_eq ret_def)

lemma procs_settle [simp]:
  "ptable (settle s) = ptable s" "initproc (settle s) = initproc s" "nextpid (settle s) = nextpid s"
  "kernel_pagetable (settle s) = kernel_pagetable s"
  "sym_trampoline_start (settle s) = sym_trampoline_start s" "sym_userret (settle s) = sym_userret s"
  "sym_forkret (settle s) = sym_forkret s" "sym_usertrap (settle s) = sym_usertrap s"
  by (simp_all add: lock_defs)

lemma procs_acquired [simp]:
  "ptable (acquired l s) = ptable s" "initproc (acquired l s) = initproc s"
  "nextpid (acquired l s) = nextpid s" "kernel_pagetable (acquired l s) = kernel_pagetable s"
  "sym_trampoline_start (acquired l s) = sym_trampoline_start s" "sym_forkret (acquired l s) = sym_forkret s"
  by (simp_all add: lock_defs)

lemma lock_procs [simp]:
  "lock_ok l (s\<lparr>ptable := p\<rparr>) = lock_ok l s" "lock_free l (s\<lparr>ptable := p\<rparr>) = lock_free l s"
  "cpu_ok (s\<lparr>ptable := p\<rparr>) = cpu_ok s" "held l (s\<lparr>ptable := p\<rparr>) = held l s"
  "mycpu (s\<lparr>ptable := p\<rparr>) = mycpu s"
  "settle (s\<lparr>ptable := p\<rparr>) = (settle s)\<lparr>ptable := p\<rparr>"
  by (simp_all add: lock_preds)

text \<open>A zeroed process table, for examples.\<close>

definition proc0 :: proc where
  "proc0 = \<lparr>p_state = UNUSED, p_chan = None, p_killed = 0, p_xstate = 0, p_pid = 0, p_parent = None, p_kstack = 0,
     p_sz = 0, p_pagetable = 0, p_trapframe = 0, p_context = c_context cpu0, p_ofile = (\<lambda>_. None), p_cwd = None,
     p_name = replicate 16 0\<rparr>"

definition procs0 :: procs where
  "procs0 = kmem.extend kmem0 (procs.fields (\<lambda>_. proc0) None 1 0 0 0 0 0)"

end
