(* ===== verification/Vm.thy ===== *)
theory Vm
  imports ProcState
begin

text \<open>
  Page tables and user memory, \<open>kernel/vm.c\<close>. A page table is its address; its 1024 entries,
  and the second-level tables they point to, live in physical memory.

  A kernel buffer that is copied to or from user space is a list of bytes: \<open>copyout\<close> takes the
  list it writes, \<open>copyin\<close> and \<open>copyinstr\<close> return what they have stored at \<open>dst\<close>, together with
  the C return value. Loops that step through addresses by \<open>PGSIZE\<close> run in \<open>page_loop\<close> with
  fuel for every page of the 32-bit address space.
\<close>

section \<open>Page-table entries\<close>

definition PX :: "nat \<Rightarrow> u32 \<Rightarrow> u32" where
  "PX level va = drop_bit (12 + 10 * level) va AND 0x3FF"

definition PTE_V :: u32 where "PTE_V = 1"
definition PTE_R :: u32 where "PTE_R = push_bit 5 1"
definition PTE_W :: u32 where "PTE_W = push_bit 6 1"
definition PTE_X :: u32 where "PTE_X = push_bit 7 1"
definition PTE_U :: u32 where "PTE_U = push_bit 8 1"

definition PA2PTE :: "u32 \<Rightarrow> u32" where "PA2PTE pa = push_bit 12 (drop_bit 12 pa)"
definition PTE2PA :: "u32 \<Rightarrow> u32" where "PTE2PA pte = push_bit 12 (drop_bit 12 pte)"
definition PTE_FLAGS :: "u32 \<Rightarrow> u32" where "PTE_FLAGS pte = pte AND 0xFFF"
definition MAKE_SATP :: "u32 \<Rightarrow> u32" where "MAKE_SATP pt = push_bit 31 1 OR drop_bit 12 pt"

lemmas pte_defs = PTE_V_def PTE_R_def PTE_W_def PTE_X_def PTE_U_def

section \<open>Helpers\<close>

text \<open>\<open>memset\<close> and \<open>memmove\<close> on physical memory.\<close>

definition memset_at :: "u32 \<Rightarrow> u32 \<Rightarrow> u32 \<Rightarrow> ('a mach_scheme, unit) op" where
  "memset_at dst c n P s =
     (case memset (mem s) dst c n of None \<Rightarrow> Hang s | Some m \<Rightarrow> Ret () (s\<lparr>mem := m\<rparr>))"

definition memmove_at :: "u32 \<Rightarrow> u32 \<Rightarrow> u32 \<Rightarrow> ('a mach_scheme, unit) op" where
  "memmove_at dst src n = modify (\<lambda>s. s\<lparr>mem := memmove (mem s) dst src n\<rparr>)"

text \<open>\<open>for(a = start; a < stop; a += PGSIZE)\<close>; the body returns \<open>Some r\<close> to leave the loop.\<close>

fun page_loop :: "nat \<Rightarrow> (u32 \<Rightarrow> ('s, 'r option) op) \<Rightarrow> u32 \<Rightarrow> u32 \<Rightarrow> ('s, 'r option) op" where
  "page_loop 0 body a stop = hang"
| "page_loop (Suc fuel) body a stop =
     (if a < stop
      then bind (body a) (\<lambda>r.
           if r = None then page_loop fuel body (a + PGSIZE) stop else ret r)
      else ret None)"

definition all_pages :: nat where
  "all_pages = Suc (Suc 1048576)"

section \<open>Operations\<close>

fun walk_level :: "nat \<Rightarrow> u32 \<Rightarrow> u32 \<Rightarrow> bool \<Rightarrow> ('a kmem_scheme, u32) op" where
  "walk_level 0 pagetable va alloc = ret (pagetable + 4 * PX 0 va)"
| "walk_level (Suc l) pagetable va alloc =
     (let pte = pagetable + 4 * PX (Suc l) va in
      bind (ld32 pte) (\<lambda>e.
      if e AND PTE_V \<noteq> 0 then walk_level l (PTE2PA e) va alloc
      else if \<not> alloc then ret 0
      else bind kalloc (\<lambda>p.
        if p = 0 then ret 0
        else bind (memset_at p 0 PGSIZE) (\<lambda>_.
             bind (st32 pte (PA2PTE p OR PTE_V)) (\<lambda>_.
             walk_level l p va alloc)))))"

definition walk :: "u32 \<Rightarrow> u32 \<Rightarrow> bool \<Rightarrow> ('a kmem_scheme, u32) op" where
  "walk pagetable va alloc =
     (if MAXVA \<le> va then panic ''walk'' else walk_level 1 pagetable va alloc)"

definition walkaddr :: "u32 \<Rightarrow> u32 \<Rightarrow> ('a kmem_scheme, u32) op" where
  "walkaddr pagetable va =
     (if MAXVA \<le> va then ret 0
      else bind (walk pagetable va False) (\<lambda>pte.
           if pte = 0 then ret 0
           else bind (ld32 pte) (\<lambda>e.
                if e AND PTE_V = 0 then ret 0
                else if e AND PTE_U = 0 then ret 0
                else ret (PTE2PA e))))"

fun mappages_loop :: "nat \<Rightarrow> u32 \<Rightarrow> u32 \<Rightarrow> u32 \<Rightarrow> u32 \<Rightarrow> u32 \<Rightarrow> ('a kmem_scheme, int) op" where
  "mappages_loop 0 pagetable a last_a pa perm = hang"
| "mappages_loop (Suc fuel) pagetable a last_a pa perm =
     bind (walk pagetable a True) (\<lambda>pte.
     if pte = 0 then ret (-1)
     else bind (ld32 pte) (\<lambda>e.
       if e AND PTE_V \<noteq> 0 then panic ''mappages: remap''
       else bind (st32 pte (PA2PTE pa OR perm OR PTE_V)) (\<lambda>_.
         if a = last_a then ret 0
         else mappages_loop fuel pagetable (a + PGSIZE) last_a (pa + PGSIZE) perm)))"

definition mappages :: "u32 \<Rightarrow> u32 \<Rightarrow> u32 \<Rightarrow> u32 \<Rightarrow> u32 \<Rightarrow> ('a kmem_scheme, int) op" where
  "mappages pagetable va sz pa perm =
     (if va mod PGSIZE \<noteq> 0 then panic ''mappages: va not aligned''
      else if sz mod PGSIZE \<noteq> 0 then panic ''mappages: size not aligned''
      else if sz = 0 then panic ''mappages: size''
      else mappages_loop all_pages pagetable va (va + sz - PGSIZE) pa perm)"

definition kvmmap :: "u32 \<Rightarrow> u32 \<Rightarrow> u32 \<Rightarrow> u32 \<Rightarrow> u32 \<Rightarrow> ('a kmem_scheme, unit) op" where
  "kvmmap kpgtbl va pa sz perm =
     bind (mappages kpgtbl va sz pa perm) (\<lambda>r. if r \<noteq> 0 then panic ''kvmmap'' else ret ())"

definition uvmcreate :: "('a kmem_scheme, u32) op" where
  "uvmcreate =
     bind kalloc (\<lambda>pagetable.
     if pagetable = 0 then ret 0
     else bind (memset_at pagetable 0 PGSIZE) (\<lambda>_. ret pagetable))"

definition uvmunmap_page :: "u32 \<Rightarrow> bool \<Rightarrow> u32 \<Rightarrow> ('a kmem_scheme, unit option) op" where
  "uvmunmap_page pagetable do_free a =
     bind (walk pagetable a False) (\<lambda>pte.
     if pte = 0 then ret None
     else bind (ld32 pte) (\<lambda>e.
       if e AND PTE_V = 0 then ret None
       else bind (if do_free then kfree (PTE2PA e) else ret ()) (\<lambda>_.
            bind (st32 pte 0) (\<lambda>_. ret None))))"

definition uvmunmap :: "u32 \<Rightarrow> u32 \<Rightarrow> u32 \<Rightarrow> bool \<Rightarrow> ('a kmem_scheme, unit) op" where
  "uvmunmap pagetable va npages do_free =
     (if va mod PGSIZE \<noteq> 0 then panic ''uvmunmap: not aligned''
      else bind (page_loop all_pages (uvmunmap_page pagetable do_free) va (va + npages * PGSIZE))
             (\<lambda>_. ret ()))"

definition uvmdealloc :: "u32 \<Rightarrow> u32 \<Rightarrow> u32 \<Rightarrow> ('a kmem_scheme, u32) op" where
  "uvmdealloc pagetable oldsz newsz =
     (if oldsz \<le> newsz then ret oldsz
      else bind (if PGROUNDUP newsz < PGROUNDUP oldsz
                 then uvmunmap pagetable (PGROUNDUP newsz)
                        ((PGROUNDUP oldsz - PGROUNDUP newsz) div PGSIZE) True
                 else ret ())
             (\<lambda>_. ret newsz))"

definition uvmalloc_page :: "u32 \<Rightarrow> u32 \<Rightarrow> u32 \<Rightarrow> u32 \<Rightarrow> ('a kmem_scheme, u32 option) op" where
  "uvmalloc_page pagetable oldsz xperm a =
     bind kalloc (\<lambda>p.
     if p = 0 then bind (uvmdealloc pagetable a oldsz) (\<lambda>_. ret (Some 0))
     else bind (memset_at p 0 PGSIZE) (\<lambda>_.
          bind (mappages pagetable a PGSIZE p (PTE_R OR PTE_U OR xperm)) (\<lambda>r.
          if r \<noteq> 0
          then bind (kfree p) (\<lambda>_. bind (uvmdealloc pagetable a oldsz) (\<lambda>_. ret (Some 0)))
          else ret None)))"

definition uvmalloc :: "u32 \<Rightarrow> u32 \<Rightarrow> u32 \<Rightarrow> u32 \<Rightarrow> ('a kmem_scheme, u32) op" where
  "uvmalloc pagetable oldsz newsz xperm =
     (if newsz < oldsz then ret oldsz
      else let oldsz = PGROUNDUP oldsz in
        bind (page_loop all_pages (uvmalloc_page pagetable oldsz xperm) oldsz newsz) (\<lambda>r.
        case r of None \<Rightarrow> ret newsz | Some e \<Rightarrow> ret e))"

text \<open>\<open>freewalk\<close> recurses into the tables below; on a table that contains itself it would not
  return, so the depth of the recursion is bounded by the number of pages there are.\<close>

fun freewalk_depth :: "nat \<Rightarrow> u32 \<Rightarrow> ('a kmem_scheme, unit) op" where
  "freewalk_depth 0 pagetable = hang"
| "freewalk_depth (Suc d) pagetable =
     bind (for_each [0..<1024] (\<lambda>i.
       let a = pagetable + 4 * of_nat i in
       bind (ld32 a) (\<lambda>pte.
       if pte AND PTE_V \<noteq> 0 \<and> pte AND (PTE_R OR PTE_W OR PTE_X) = 0
       then bind (freewalk_depth d (PTE2PA pte)) (\<lambda>_. st32 a 0)
       else if pte AND PTE_V \<noteq> 0 then panic ''freewalk: leaf''
       else ret ()))) (\<lambda>_.
     kfree pagetable)"

definition freewalk :: "u32 \<Rightarrow> ('a kmem_scheme, unit) op" where
  "freewalk pagetable = freewalk_depth all_pages pagetable"

definition uvmfree :: "u32 \<Rightarrow> u32 \<Rightarrow> ('a kmem_scheme, unit) op" where
  "uvmfree pagetable sz =
     bind (if 0 < sz then uvmunmap pagetable 0 (PGROUNDUP sz div PGSIZE) True else ret ()) (\<lambda>_.
     freewalk pagetable)"

definition uvmcopy_page :: "u32 \<Rightarrow> u32 \<Rightarrow> u32 \<Rightarrow> ('a kmem_scheme, u32 option) op" where
  "uvmcopy_page old new i =
     bind (walk old i False) (\<lambda>pte.
     if pte = 0 then ret None
     else bind (ld32 pte) (\<lambda>e.
       if e AND PTE_V = 0 then ret None
       else bind kalloc (\<lambda>p.
         if p = 0 then ret (Some i)
         else bind (memmove_at p (PTE2PA e) PGSIZE) (\<lambda>_.
              bind (mappages new i PGSIZE p (PTE_FLAGS e)) (\<lambda>r.
              if r \<noteq> 0 then bind (kfree p) (\<lambda>_. ret (Some i)) else ret None)))))"

definition uvmcopy :: "u32 \<Rightarrow> u32 \<Rightarrow> u32 \<Rightarrow> ('a kmem_scheme, int) op" where
  "uvmcopy old new sz =
     bind (page_loop all_pages (uvmcopy_page old new) 0 sz) (\<lambda>r.
     case r of None \<Rightarrow> ret 0
     | Some i \<Rightarrow> bind (uvmunmap new 0 (i div PGSIZE) True) (\<lambda>_. ret (-1)))"

definition uvmclear :: "u32 \<Rightarrow> u32 \<Rightarrow> ('a kmem_scheme, unit) op" where
  "uvmclear pagetable va =
     bind (walk pagetable va False) (\<lambda>pte.
     if pte = 0 then panic ''uvmclear''
     else bind (ld32 pte) (\<lambda>e. st32 pte (e AND NOT PTE_U)))"

definition ismapped :: "u32 \<Rightarrow> u32 \<Rightarrow> ('a kmem_scheme, bool) op" where
  "ismapped pagetable va =
     bind (walk pagetable va False) (\<lambda>pte.
     if pte = 0 then ret False else bind (ld32 pte) (\<lambda>e. ret (e AND PTE_V \<noteq> 0)))"

definition vmfault :: "u32 \<Rightarrow> u32 \<Rightarrow> bool \<Rightarrow> ('a procs_scheme, u32) op" where
  "vmfault pagetable va read =
     bind curproc (\<lambda>p.
     bind (gets (\<lambda>s. ptable s p)) (\<lambda>pr.
     if p_sz pr \<le> va then ret 0
     else let va = PGROUNDDOWN va in
       bind (ismapped pagetable va) (\<lambda>b.
       if b then ret 0
       else bind kalloc (\<lambda>q.
         if q = 0 then ret 0
         else bind (memset_at q 0 PGSIZE) (\<lambda>_.
              bind (mappages (p_pagetable pr) va PGSIZE q (PTE_W OR PTE_U OR PTE_R)) (\<lambda>r.
              if r \<noteq> 0 then bind (kfree q) (\<lambda>_. ret 0) else ret q))))))"

section \<open>Copying between user and kernel\<close>

text \<open>How many bytes of a page lie at and above an address.\<close>

definition page_rest :: "u32 \<Rightarrow> u32" where
  "page_rest va = PGSIZE - (va - PGROUNDDOWN va)"

lemma page_rest_bounds: "0 < unat (page_rest va)" "unat (page_rest va) \<le> 4096"
  "unat (page_rest va) = 4096 - unat va mod 4096"
proof -
  have "va - PGROUNDDOWN va = va mod 4096" by (simp add: PGROUNDDOWN_alt)
  moreover have "unat (va mod 4096) = unat va mod 4096" by (simp add: unat_mod_distrib)
  ultimately have "unat (page_rest va) = 4096 - unat va mod 4096"
    by (simp add: page_rest_def PGSIZE_def unat_diff)
  moreover have "unat va mod 4096 < 4096" by simp
  ultimately show "0 < unat (page_rest va)" "unat (page_rest va) \<le> 4096"
    "unat (page_rest va) = 4096 - unat va mod 4096" by linarith+
qed

text \<open>The physical page for a user access: mapped already, or faulted in.\<close>

definition user_page :: "u32 \<Rightarrow> u32 \<Rightarrow> ('a procs_scheme, u32) op" where
  "user_page pagetable va0 =
     bind (walkaddr pagetable va0) (\<lambda>pa0.
     if pa0 = 0 then vmfault pagetable va0 False else ret pa0)"

function copyout :: "u32 \<Rightarrow> u32 \<Rightarrow> u8 list \<Rightarrow> ('a procs_scheme, int) op" where
  "copyout pagetable dstva src =
     (if src = [] then ret 0
      else let va0 = PGROUNDDOWN dstva; n = min (unat (page_rest dstva)) (length src) in
        if MAXVA \<le> va0 then ret (-1)
        else bind (user_page pagetable va0) (\<lambda>pa0.
          if pa0 = 0 then ret (-1)
          else bind (walk pagetable va0 False) (\<lambda>pte.
               bind (ld32 pte) (\<lambda>e.
               if e AND PTE_W = 0 then ret (-1)
               else bind (modify (\<lambda>s. s\<lparr>mem := write_bytes (mem s) (pa0 + (dstva - va0)) (take n src)\<rparr>)) (\<lambda>_.
                    copyout pagetable (va0 + PGSIZE) (drop n src))))))"
  by pat_completeness auto
termination
  by (relation "measure (\<lambda>(pagetable, dstva, src). length src)") (auto simp: page_rest_bounds)

declare copyout.simps [simp del]

function copyin :: "u32 \<Rightarrow> u32 \<Rightarrow> nat \<Rightarrow> ('a procs_scheme, int \<times> u8 list) op" where
  "copyin pagetable srcva len =
     (if len = 0 then ret (0, [])
      else let va0 = PGROUNDDOWN srcva; n = min (unat (page_rest srcva)) len in
        bind (user_page pagetable va0) (\<lambda>pa0.
        if pa0 = 0 then ret (-1, [])
        else bind (gets (\<lambda>s. read_bytes (mem s) (pa0 + (srcva - va0)) n)) (\<lambda>bs.
             bind (copyin pagetable (va0 + PGSIZE) (len - n)) (\<lambda>(r, cs).
             ret (r, bs @ cs)))))"
  by pat_completeness auto
termination
  by (relation "measure (\<lambda>(pagetable, srcva, len). len)") (auto simp: page_rest_bounds)

declare copyin.simps [simp del]

text \<open>The inner loop of \<open>copyinstr\<close>: the bytes stored, and whether a null was found.\<close>

fun copy_until_null :: "memory \<Rightarrow> u32 \<Rightarrow> nat \<Rightarrow> u8 list \<times> bool" where
  "copy_until_null m p 0 = ([], False)"
| "copy_until_null m p (Suc n) =
     (if m p = 0 then ([0], True)
      else case copy_until_null m (p + 1) n of (bs, got_null) \<Rightarrow> (m p # bs, got_null))"

function copyinstr :: "u32 \<Rightarrow> u32 \<Rightarrow> nat \<Rightarrow> ('a kmem_scheme, int \<times> u8 list) op" where
  "copyinstr pagetable srcva max_n =
     (if max_n = 0 then ret (-1, [])
      else let va0 = PGROUNDDOWN srcva; n = min (unat (page_rest srcva)) max_n in
        bind (walkaddr pagetable va0) (\<lambda>pa0.
        if pa0 = 0 then ret (-1, [])
        else bind (gets (\<lambda>s. copy_until_null (mem s) (pa0 + (srcva - va0)) n)) (\<lambda>(bs, got_null).
             if got_null then ret (0, bs)
             else bind (copyinstr pagetable (va0 + PGSIZE) (max_n - n)) (\<lambda>(r, cs).
                  ret (r, bs @ cs)))))"
  by pat_completeness auto
termination
  by (relation "measure (\<lambda>(pagetable, srcva, max_n). max_n)") (auto simp: page_rest_bounds)

declare copyinstr.simps [simp del]

end
