(* ===== verification/PageTable.thy ===== *)
theory PageTable
  imports Vm
begin

text \<open>
  What a page table means, and that \<open>walk\<close>, \<open>mappages\<close> and \<open>walkaddr\<close> respect it.

  \<open>leaf m pt va\<close> is the page-table entry that the two-level walk finds for \<open>va\<close>, 0 where there
  is no second-level table. \<open>pt_wf m pt\<close> says that the tables are laid out sanely: the root and
  the second-level tables are pairwise different pages. \<open>vm_inv s pt ps\<close> adds that the
  allocator's free pages \<open>ps\<close> are none of them. \<open>vm_frame s t\<close>: from \<open>s\<close> to \<open>t\<close> only memory, the
  free list and the remembered interrupt flag have changed.
\<close>

section \<open>Indices and entries\<close>

lemma unat_and_1023: "unat ((x::u32) AND 1023) = unat x mod 1024"
  by (simp add: and_mask_mod unat_mod_distrib)

lemma unat_PX0: "unat (PX 0 va) = unat va div 4096 mod 1024"
proof -
  have "unat (drop_bit 12 va) = unat va div 4096" by (simp add: drop_bit_eq_div unat_div_distrib)
  then show ?thesis by (simp add: PX_def unat_and_1023)
qed

lemma unat_PX1: "unat (PX (Suc 0) va) = unat va div 4194304"
proof -
  have "unat (drop_bit 22 va) = unat va div 4194304" by (simp add: drop_bit_eq_div unat_div_distrib)
  moreover have "unat va div 4194304 < 1024"
    using unat_u32_less [of va] by (simp add: less_mult_imp_div_less)
  ultimately show ?thesis by (simp add: PX_def unat_and_1023)
qed

lemma PX_less: "unat (PX 0 va) < 1024" "unat (PX (Suc 0) va) < 1024"
  using unat_u32_less [of va] by (simp_all add: unat_PX0 unat_PX1 less_mult_imp_div_less)

lemma PX_same_page:
  "PX (Suc 0) va = PX (Suc 0) vb \<and> PX 0 va = PX 0 vb \<longleftrightarrow> PGROUNDDOWN va = PGROUNDDOWN vb"
proof -
  have "unat va div 4096 = unat vb div 4096 \<longleftrightarrow>
      unat va div 4194304 = unat vb div 4194304 \<and> unat va div 4096 mod 1024 = unat vb div 4096 mod 1024"
  proof -
    have "x div 4194304 = x div 4096 div 1024" for x :: nat by (simp add: div_mult2_eq [symmetric])
    then show ?thesis by (metis div_mult_mod_eq)
  qed
  moreover have "PGROUNDDOWN va = PGROUNDDOWN vb \<longleftrightarrow> unat va div 4096 = unat vb div 4096"
    by (simp add: word_unat_eq_iff unat_PGROUNDDOWN minus_mod_eq_mult_div)
  ultimately show ?thesis
    by (simp add: word_unat_eq_iff unat_PX0 unat_PX1)
qed

lemma push_drop_12: "push_bit 12 (drop_bit 12 (a::u32)) = PGROUNDDOWN a"
proof -
  have "PGROUNDDOWN a = a AND NOT (mask 12)"
    by (simp add: PGROUNDDOWN_def PGSIZE_def mask_numeral)
  also have "\<dots> = push_bit 12 (drop_bit 12 a)"
    by (rule bit_word_eqI)
      (auto simp: bit_push_bit_iff bit_drop_bit_eq bit_and_iff bit_not_iff bit_mask_iff)
  finally show ?thesis by simp
qed

lemma PTE2PA_eq: "PTE2PA e = PGROUNDDOWN e"
  by (simp add: PTE2PA_def push_drop_12)

lemma PA2PTE_eq: "PA2PTE e = PGROUNDDOWN e"
  by (simp add: PA2PTE_def push_drop_12)

lemma flags_take_bit: "unat (f::u32) < 4096 \<longleftrightarrow> take_bit 12 f = f"
  by (simp add: take_bit_eq_mod word_unat_eq_iff unat_mod_distrib) (metis mod_less mod_less_divisor zero_less_numeral)

lemma flags_or: "unat (f::u32) < 4096 \<Longrightarrow> unat g < 4096 \<Longrightarrow> unat (f OR g) < 4096"
  by (simp add: flags_take_bit)

lemma unat_PTE_flags [simp]:
  "unat PTE_V < 4096" "unat PTE_R < 4096" "unat PTE_W < 4096" "unat PTE_X < 4096" "unat PTE_U < 4096"
  by (simp_all add: pte_defs)

text \<open>An entry made of a page address and flags in the low 12 bits.\<close>

lemma pte_make:
  assumes "page_aligned pa" "unat f < 4096"
  shows "PTE2PA (PA2PTE pa OR f) = pa" "PTE_FLAGS (PA2PTE pa OR f) = f"
    "PTE2PA pa = pa" "PA2PTE pa = pa"
proof -
  have p: "pa = push_bit 12 (drop_bit 12 pa)" using assms(1) by (simp add: push_drop_12)
  have f: "\<not> bit f n" if "12 \<le> n" for n
  proof
    assume "bit f n"
    moreover have "f = take_bit 12 f"
      using assms(2) by (simp add: take_bit_eq_mod word_unat_eq_iff unat_mod_distrib)
    ultimately show False using that by (metis bit_take_bit_iff not_le)
  qed
  then have f2: "bit f n \<Longrightarrow> n < 12" for n by (meson not_le)
  have "push_bit 12 (drop_bit 12 (pa OR f)) = push_bit 12 (drop_bit 12 pa)"
    by (rule bit_word_eqI) (auto simp: bit_push_bit_iff bit_drop_bit_eq bit_or_iff f)
  then show "PTE2PA (PA2PTE pa OR f) = pa" using p by (simp add: PTE2PA_def PA2PTE_def)
  have "(push_bit 12 (drop_bit 12 pa) OR f) AND mask 12 = f"
    by (rule bit_word_eqI) (auto simp: bit_push_bit_iff bit_and_iff bit_or_iff bit_mask_iff dest: f2)
  then show "PTE_FLAGS (PA2PTE pa OR f) = f" by (simp add: PTE_FLAGS_def PA2PTE_def mask_numeral)
  show "PTE2PA pa = pa" "PA2PTE pa = pa" using assms(1) by (simp_all add: PTE2PA_eq PA2PTE_eq)
qed

lemma page_aligned_PTE2PA [simp]: "page_aligned (PTE2PA e)"
  by (simp add: PTE2PA_eq)

lemma or_PTE_V [simp]: "(x OR PTE_V) AND PTE_V \<noteq> 0"
proof -
  have "bit ((x OR PTE_V) AND PTE_V) 0" by (simp add: bit_and_iff bit_or_iff PTE_V_def)
  then show ?thesis by (metis bit_0_eq bot_apply bot_bool_def)
qed

lemma table_entry_no_rwx:
  "(PA2PTE p OR PTE_V) AND (PTE_R OR PTE_W OR PTE_X) = 0"
proof (rule bit_word_eqI)
  fix n
  have b: "bit (PTE_R OR PTE_W OR PTE_X) n \<longleftrightarrow> n = 5 \<or> n = 6 \<or> n = 7"
    unfolding pte_defs bit_or_iff bit_push_bit_iff by (auto simp: bit_1_iff)
  have "bit (PA2PTE p OR PTE_V) n \<Longrightarrow> n = 0 \<or> 12 \<le> n"
    by (auto simp: bit_or_iff PA2PTE_def bit_push_bit_iff PTE_V_def bit_1_iff)
  with b show "bit ((PA2PTE p OR PTE_V) AND (PTE_R OR PTE_W OR PTE_X)) n = bit (0::u32) n"
    by (auto simp: bit_and_iff)
qed

text \<open>The words of a table.\<close>

lemma entry_offset:
  assumes "page_aligned pt" "unat (x::u32) < 1024"
  shows "unat (pt + 4 * x) = unat pt + 4 * unat x" "PGROUNDDOWN (pt + 4 * x) = pt"
proof -
  have "4 * x = of_nat (4 * unat x)" by simp
  moreover have "4 * unat x < 4096" using assms(2) by simp
  ultimately show "unat (pt + 4 * x) = unat pt + 4 * unat x" "PGROUNDDOWN (pt + 4 * x) = pt"
    using page_offset [OF assms(1)] by metis+
qed

lemma entry_aligned:
  assumes "page_aligned pt" "unat (x::u32) < 1024"
  shows "aligned4 (pt + 4 * x)"
proof -
  have "unat pt mod 4 = 0" using page_aligned_aligned4 [OF assms(1)] by (simp add: unat_aligned4)
  then show ?thesis unfolding unat_aligned4 entry_offset(1) [OF assms] by presburger
qed

lemma entry_eq:
  assumes "page_aligned pt" "page_aligned qt" "unat (x::u32) < 1024" "unat (y::u32) < 1024"
  shows "pt + 4 * x = qt + 4 * y \<longleftrightarrow> pt = qt \<and> x = y"
proof
  assume e: "pt + 4 * x = qt + 4 * y"
  then have "pt = qt" using entry_offset(2) [OF assms(1,3)] entry_offset(2) [OF assms(2,4)] by metis
  then show "pt = qt \<and> x = y"
    using e entry_offset(1) [OF assms(1,3)] entry_offset(1) [OF assms(2,4)]
    by (metis mult_cancel1 add_left_cancel word_unat_eq_iff zero_neq_numeral)
qed simp

lemma load_entry_store:
  assumes "page_aligned pt" "page_aligned qt" "unat (x::u32) < 1024" "unat (y::u32) < 1024"
  shows "load32 (store32 m (qt + 4 * y) v) (pt + 4 * x) =
    (if pt = qt \<and> x = y then v else load32 m (pt + 4 * x))"
  using assms entry_aligned entry_eq by (cases "pt = qt \<and> x = y") auto

lemma load_entry_cong:
  assumes "page_aligned pt" "unat (x::u32) < 1024" "\<And>a. PGROUNDDOWN a = pt \<Longrightarrow> m a = n a"
  shows "load32 m (pt + 4 * x) = load32 n (pt + 4 * x)"
  using assms entry_aligned entry_offset(2) by (intro load32_page_cong) auto

section \<open>Page tables\<close>

definition valid :: "u32 \<Rightarrow> bool" where
  "valid e \<longleftrightarrow> e AND PTE_V \<noteq> 0"

definition entry :: "memory \<Rightarrow> u32 \<Rightarrow> u32 \<Rightarrow> u32" where
  "entry m pt x = load32 m (pt + 4 * x)"

definition pt_wf :: "memory \<Rightarrow> u32 \<Rightarrow> bool" where
  "pt_wf m pt \<longleftrightarrow> page_aligned pt \<and> pt \<noteq> 0 \<and>
     (\<forall>x < 1024. valid (entry m pt x) \<longrightarrow> entry m pt x AND (PTE_R OR PTE_W OR PTE_X) = 0 \<and>
        PTE2PA (entry m pt x) \<noteq> pt \<and> PTE2PA (entry m pt x) \<noteq> 0 \<and>
        (\<forall>y < 1024. x \<noteq> y \<and> valid (entry m pt y) \<longrightarrow> PTE2PA (entry m pt x) \<noteq> PTE2PA (entry m pt y)))"

definition pt_pages :: "memory \<Rightarrow> u32 \<Rightarrow> u32 set" where
  "pt_pages m pt = insert pt {PTE2PA (entry m pt x) | x. x < 1024 \<and> valid (entry m pt x)}"

definition leaf :: "memory \<Rightarrow> u32 \<Rightarrow> u32 \<Rightarrow> u32" where
  "leaf m pt va = (let e = entry m pt (PX (Suc 0) va) in
     if valid e then entry m (PTE2PA e) (PX 0 va) else 0)"

lemma less_1024: "(x::u32) < 1024 \<longleftrightarrow> unat x < 1024"
  by (simp add: word_less_nat_alt)

lemma PX_less_1024 [simp]: "PX 0 va < 1024" "PX (Suc 0) va < 1024"
  by (simp_all add: less_1024 PX_less)

lemma valid_or [simp]: "valid (x OR PTE_V)" "valid (x OR (y OR PTE_V))"
proof -
  show v: "valid (x OR PTE_V)" for x unfolding valid_def by (rule or_PTE_V)
  show "valid (x OR (y OR PTE_V))" using v [of "x OR y"] by (simp add: or.assoc)
qed

lemma not_valid_0 [simp]: "\<not> valid 0"
  by (simp add: valid_def)

lemma entry_store:
  assumes "page_aligned pt" "page_aligned qt" "x < 1024" "y < 1024"
  shows "entry (store32 m (qt + 4 * y) v) pt x = (if pt = qt \<and> x = y then v else entry m pt x)"
  using assms by (simp add: entry_def load_entry_store less_1024)

lemma entry_cong:
  assumes "page_aligned pt" "x < 1024" "\<And>a. PGROUNDDOWN a = pt \<Longrightarrow> m a = n a"
  shows "entry m pt x = entry n pt x"
  unfolding entry_def using assms by (intro load_entry_cong) (auto simp: less_1024)

lemma pt_wf_aligned: "pt_wf m pt \<Longrightarrow> page_aligned pt"
  by (simp add: pt_wf_def)

text \<open>A table means the same in two memories that agree on its pages.\<close>

lemma pt_cong:
  assumes "page_aligned pt" "\<And>a. PGROUNDDOWN a \<in> pt_pages m pt \<Longrightarrow> n a = m a"
  shows "leaf n pt va = leaf m pt va" "pt_pages n pt = pt_pages m pt" "pt_wf n pt = pt_wf m pt"
proof -
  have e: "entry n pt x = entry m pt x" if "x < 1024" for x
    using that assms by (intro entry_cong) (auto simp: pt_pages_def)
  have e2: "entry n (PTE2PA (entry m pt x)) y = entry m (PTE2PA (entry m pt x)) y"
    if "x < 1024" "y < 1024" "valid (entry m pt x)" for x y
    using that assms(2) by (intro entry_cong) (auto simp: pt_pages_def)
  show "leaf n pt va = leaf m pt va" by (simp add: leaf_def Let_def e e2)
  show "pt_pages n pt = pt_pages m pt" unfolding pt_pages_def using e by (metis (lifting))
  show "pt_wf n pt = pt_wf m pt" unfolding pt_wf_def using e by (metis (lifting))
qed

text \<open>Writing a leaf entry changes the translation of one page and nothing else.\<close>

lemma store_leaf:
  fixes e :: u32
  assumes wf: "pt_wf m pt" and v: "valid (entry m pt (PX (Suc 0) va))"
  defines "n \<equiv> store32 m (PTE2PA (entry m pt (PX (Suc 0) va)) + 4 * PX 0 va) e"
  shows "leaf n pt vb = (if PGROUNDDOWN vb = PGROUNDDOWN va then e else leaf m pt vb)"
    "pt_pages n pt = pt_pages m pt" "pt_wf n pt"
    "x < 1024 \<Longrightarrow> entry n pt x = entry m pt x"
proof -
  let ?q = "PTE2PA (entry m pt (PX (Suc 0) va))"
  have q: "?q \<noteq> pt" "page_aligned pt" using wf v by (auto simp: pt_wf_def)
  show root: "entry n pt x = entry m pt x" if "x < 1024" for x
    using that q by (simp add: n_def entry_store)
  show "pt_pages n pt = pt_pages m pt" unfolding pt_pages_def using root by (metis (lifting))
  show "pt_wf n pt" using wf unfolding pt_wf_def using root by (metis (lifting))
  show "leaf n pt vb = (if PGROUNDDOWN vb = PGROUNDDOWN va then e else leaf m pt vb)"
  proof (cases "valid (entry m pt (PX (Suc 0) vb))")
    case True
    have "PTE2PA (entry m pt (PX (Suc 0) vb)) = ?q \<longleftrightarrow> PX (Suc 0) vb = PX (Suc 0) va"
      using wf v True unfolding pt_wf_def by (metis PX_less_1024(2))
    moreover have "entry n (PTE2PA x) (PX 0 vb) =
        (if PTE2PA x = ?q \<and> PX 0 vb = PX 0 va then e else entry m (PTE2PA x) (PX 0 vb))" for x
      by (simp add: n_def entry_store)
    ultimately show ?thesis
      using True by (simp add: leaf_def Let_def root PX_same_page [symmetric])
  next
    case False
    with v have "\<not> PGROUNDDOWN vb = PGROUNDDOWN va" by (auto simp: PX_same_page [symmetric])
    with False show ?thesis by (simp add: leaf_def Let_def root)
  qed
qed

text \<open>A fresh zeroed page hung into the root as a new second-level table changes no
  translation.\<close>

definition zero_page :: "memory \<Rightarrow> u32 \<Rightarrow> memory" where
  "zero_page m p = write_bytes m p (replicate 4096 0)"

lemma zero_page_apply:
  "page_aligned p \<Longrightarrow> zero_page m p a = (if PGROUNDDOWN a = p then 0 else m a)"
  by (simp add: zero_page_def write_bytes_def in_page_iff)

lemma memset_at_page: "memset_at p 0 PGSIZE P s = Ret () (s\<lparr>mem := zero_page (mem s) p\<rparr>)"
  by (simp add: memset_at_def memset_fill PGSIZE_def zero_page_def)

lemma entry_zero_page:
  assumes "page_aligned p" "page_aligned q" "x < 1024"
  shows "entry (zero_page m p) q x = (if q = p then 0 else entry m q x)"
proof (cases "q = p")
  case True
  have "entry (zero_page m p) p x = entry (\<lambda>_. 0) p x"
    using assms by (intro entry_cong) (auto simp: zero_page_apply)
  with True show ?thesis by (simp add: entry_def load32_def)
next
  case False
  with assms show ?thesis by (simp, intro entry_cong) (auto simp: zero_page_apply)
qed

lemma new_table:
  assumes wf: "pt_wf m pt" and i: "i < 1024" "\<not> valid (entry m pt i)"
    and p: "page_aligned p" "p \<noteq> 0" "p \<notin> pt_pages m pt"
  defines "n \<equiv> store32 (zero_page m p) (pt + 4 * i) (PA2PTE p OR PTE_V)"
  shows "leaf n pt vb = leaf m pt vb" "pt_pages n pt = insert p (pt_pages m pt)" "pt_wf n pt"
    "entry n pt i = PA2PTE p OR PTE_V" "valid (entry n pt i)" "PTE2PA (entry n pt i) = p"
proof -
  have pt: "page_aligned pt" "p \<noteq> pt" using wf p by (auto simp: pt_wf_def pt_pages_def)
  have root: "entry n pt x = (if x = i then PA2PTE p OR PTE_V else entry m pt x)" if "x < 1024" for x
    using that i pt p by (simp add: n_def entry_store entry_zero_page)
  then show ei: "entry n pt i = PA2PTE p OR PTE_V" using i by simp
  have "PTE_V = 1" by (simp add: PTE_V_def)
  then show pa: "PTE2PA (entry n pt i) = p" using pte_make(1) [OF p(1), of PTE_V] ei by simp
  show v: "valid (entry n pt i)" unfolding ei valid_def by (rule or_PTE_V)
  have sub: "x < 1024 \<Longrightarrow> valid (entry m pt x) \<Longrightarrow> PTE2PA (entry m pt x) \<noteq> p" for x
    using p(3) by (auto simp: pt_pages_def)
  have "leaf n pt vb = leaf m pt vb"
  proof (cases "PX (Suc 0) vb = i")
    case True
    with i v pa pt p show ?thesis by (simp add: leaf_def Let_def) (simp add: n_def entry_store entry_zero_page)
  next
    case False
    then have e: "entry n pt (PX (Suc 0) vb) = entry m pt (PX (Suc 0) vb)" by (simp add: root)
    show ?thesis
    proof (cases "valid (entry m pt (PX (Suc 0) vb))")
      case True
      then have "PTE2PA (entry m pt (PX (Suc 0) vb)) \<noteq> pt" "PTE2PA (entry m pt (PX (Suc 0) vb)) \<noteq> p"
        using wf sub by (auto simp: pt_wf_def)
      with True e pt p i show ?thesis
        by (simp add: leaf_def Let_def) (simp add: n_def entry_store entry_zero_page)
    qed (simp add: leaf_def e)
  qed
  then show "leaf n pt vb = leaf m pt vb" .
  show "pt_pages n pt = insert p (pt_pages m pt)"
  proof -
    have "{PTE2PA (entry n pt x) |x. x < 1024 \<and> valid (entry n pt x)} =
        insert p {PTE2PA (entry m pt x) |x. x < 1024 \<and> valid (entry m pt x)}"
    proof (intro equalityI subsetI)
      fix y assume "y \<in> insert p {PTE2PA (entry m pt x) |x. x < 1024 \<and> valid (entry m pt x)}"
      then show "y \<in> {PTE2PA (entry n pt x) |x. x < 1024 \<and> valid (entry n pt x)}"
        using i v pa root by (clarsimp, metis)
    qed (use i root pa in \<open>auto split: if_splits\<close>)
    then show ?thesis by (auto simp: pt_pages_def)
  qed
  show "pt_wf n pt"
    using wf sub pt p v pa i root table_entry_no_rwx [of p] unfolding pt_wf_def by (metis (lifting))
qed

section \<open>What the operations leave alone\<close>

definition vm_frame :: "'a kmem_scheme \<Rightarrow> 'a kmem_scheme \<Rightarrow> bool" where
  "vm_frame s t \<longleftrightarrow> settle t = (settle s)\<lparr>mem := mem t, kmem_freelist := kmem_freelist t\<rparr>"

lemma kmem_more_settle [simp]: "kmem.more (settle s) = kmem.more s"
  by (simp add: lock_defs)

lemma vm_frame_refl [simp, intro]: "vm_frame s s"
  by (simp add: vm_frame_def)

lemma vm_frame_trans: "vm_frame s t \<Longrightarrow> vm_frame t u \<Longrightarrow> vm_frame s u"
  by (simp add: vm_frame_def)

lemma vm_frame_mem: "vm_frame s t \<Longrightarrow> vm_frame s (t\<lparr>mem := m\<rparr>)"
  by (simp add: vm_frame_def)

lemma vm_frame_settle: "vm_frame s t \<Longrightarrow> vm_frame s (settle t)"
  by (simp add: vm_frame_def)

lemma vm_frame_freelist: "vm_frame s t \<Longrightarrow> vm_frame s (t\<lparr>kmem_freelist := p\<rparr>)"
  by (simp add: vm_frame_def)

lemma vm_frameD:
  assumes "vm_frame s t"
  shows "kend t = kend s" "kmem.more t = kmem.more s" "csr t = csr s" "locks t = locks s"
    "devregs t = devregs s" "disk t = disk s" "disk_writes t = disk_writes s" "swtches t = swtches s"
    "lock_ok l t = lock_ok l s" "cpu_ok t = cpu_ok s" "c_proc (mycpu t) = c_proc (mycpu s)"
    "c_noff (mycpu t) = c_noff (mycpu s)" "held l t = held l s"
proof -
  let ?u = "(settle s)\<lparr>mem := mem t, kmem_freelist := kmem_freelist t\<rparr>"
  have e: "settle t = ?u" using assms by (simp add: vm_frame_def)
  show "kend t = kend s" "kmem.more t = kmem.more s" "csr t = csr s" "locks t = locks s"
    "devregs t = devregs s" "disk t = disk s" "disk_writes t = disk_writes s" "swtches t = swtches s"
    "lock_ok l t = lock_ok l s" "cpu_ok t = cpu_ok s" "c_proc (mycpu t) = c_proc (mycpu s)"
    "c_noff (mycpu t) = c_noff (mycpu s)" "held l t = held l s"
    using arg_cong [OF e, of kend] arg_cong [OF e, of kmem.more] arg_cong [OF e, of csr]
      arg_cong [OF e, of locks] arg_cong [OF e, of devregs] arg_cong [OF e, of disk]
      arg_cong [OF e, of disk_writes] arg_cong [OF e, of swtches] arg_cong [OF e, of "lock_ok l"]
      arg_cong [OF e, of cpu_ok] arg_cong [OF e, of "\<lambda>s. c_proc (mycpu s)"]
      arg_cong [OF e, of "\<lambda>s. c_noff (mycpu s)"] arg_cong [OF e, of "held l"]
    by simp_all
qed

definition vm_inv :: "'a kmem_scheme \<Rightarrow> u32 \<Rightarrow> u32 list \<Rightarrow> bool" where
  "vm_inv s pt ps \<longleftrightarrow> pool s ps \<and> pt_wf (mem s) pt \<and> pt_pages (mem s) pt \<inter> set ps = {}
     \<and> (\<forall>p \<in> pt_pages (mem s) pt. page_ok (kend s) p)"

text \<open>The table has taken some of the free pages as new second-level tables; memory outside the
  table's pages is as before.\<close>

definition grows :: "u32 \<Rightarrow> 'a kmem_scheme \<Rightarrow> u32 list \<Rightarrow> 'a kmem_scheme \<Rightarrow> u32 list \<Rightarrow> bool" where
  "grows pt s ps t qs \<longleftrightarrow> vm_frame s t \<and> vm_inv t pt qs
     \<and> (\<exists>us. ps = us @ qs \<and> pt_pages (mem t) pt = pt_pages (mem s) pt \<union> set us)
     \<and> (\<forall>x. PGROUNDDOWN x \<notin> pt_pages (mem t) pt \<longrightarrow> mem t x = mem s x)"

lemma grows_refl: "vm_inv s pt ps \<Longrightarrow> grows pt s ps s ps"
  by (simp add: grows_def)

lemma grows_trans:
  assumes "grows pt s ps t qs" "grows pt t qs u rs"
  shows "grows pt s ps u rs"
proof -
  obtain us where us: "ps = us @ qs" "pt_pages (mem t) pt = pt_pages (mem s) pt \<union> set us"
    using assms(1) by (auto simp: grows_def)
  obtain vs where vs: "qs = vs @ rs" "pt_pages (mem u) pt = pt_pages (mem t) pt \<union> set vs"
    using assms(2) by (auto simp: grows_def)
  have "ps = (us @ vs) @ rs" "pt_pages (mem u) pt = pt_pages (mem s) pt \<union> set (us @ vs)"
    using us vs by auto
  then have ex: "\<exists>us. ps = us @ rs \<and> pt_pages (mem u) pt = pt_pages (mem s) pt \<union> set us" by blast
  have fr: "vm_frame s u" using assms vm_frame_trans by (auto simp: grows_def)
  have "mem u x = mem s x" if "PGROUNDDOWN x \<notin> pt_pages (mem u) pt" for x
  proof -
    have "PGROUNDDOWN x \<notin> pt_pages (mem t) pt" using that vs(2) by auto
    with that assms show ?thesis by (simp add: grows_def)
  qed
  with ex fr assms(2) show ?thesis by (simp add: grows_def)
qed

lemma vm_inv_aligned: "vm_inv s pt ps \<Longrightarrow> page_aligned pt"
  by (auto simp: vm_inv_def pt_wf_def)

lemma vm_inv_pages: "vm_inv s pt ps \<Longrightarrow> p \<in> pt_pages (mem s) pt \<Longrightarrow> p \<noteq> 0 \<and> page_aligned p"
  by (auto simp: vm_inv_def pool_def free_list_def dest: page_ok_nonzero)

lemma entry_page_in:
  "valid (entry m pt x) \<Longrightarrow> x < 1024 \<Longrightarrow> PTE2PA (entry m pt x) \<in> pt_pages m pt"
  by (auto simp: pt_pages_def)

text \<open>The pool does not depend on memory that is not free.\<close>

lemma pool_mem:
  assumes "pool s ps" "\<And>x. PGROUNDDOWN x \<in> set ps \<Longrightarrow> m x = mem s x"
  shows "pool (s\<lparr>mem := m\<rparr>) ps"
  using assms free_list_frame [of s ps "s\<lparr>mem := m\<rparr>"] by (simp add: pool_def)

section \<open>\<open>walk\<close>\<close>

lemma walk_noalloc:
  assumes "va < MAXVA"
  shows "walk pt va False P s =
    Ret (let e = entry (mem s) pt (PX (Suc 0) va) in
         if valid e then PTE2PA e + 4 * PX 0 va else 0) s"
proof -
  have "\<not> MAXVA \<le> va" using assms by simp
  then show ?thesis by (simp add: walk_def valid_def entry_def Let_def ret_def)
qed

lemma leaf_addr_nonzero:
  assumes "pt_wf m pt" "valid (entry m pt (PX (Suc 0) va))"
  shows "PTE2PA (entry m pt (PX (Suc 0) va)) + 4 * PX 0 va \<noteq> 0"
proof
  let ?q = "PTE2PA (entry m pt (PX (Suc 0) va))"
  assume "?q + 4 * PX 0 va = 0"
  moreover have "PGROUNDDOWN (?q + 4 * PX 0 va) = ?q" by (rule entry_offset) (simp_all add: PX_less)
  ultimately have "?q = 0" by (simp add: PGROUNDDOWN_def)
  with assms show False by (auto simp: pt_wf_def)
qed

lemma walkaddr_eq:
  assumes "pt_wf (mem s) pt"
  shows "walkaddr pt va P s = Ret (let e = leaf (mem s) pt va in
    if va < MAXVA \<and> valid e \<and> e AND PTE_U \<noteq> 0 then PTE2PA e else 0) s"
  using leaf_addr_nonzero [OF assms, of va]
  by (auto simp: walkaddr_def walk_noalloc leaf_def Let_def valid_def entry_def ret_def not_le)

text \<open>\<open>walk\<close> with \<open>alloc\<close> set: it finds the leaf entry's address, taking a free page for a missing
  second-level table, or returns 0 because no page is free. No translation changes.\<close>

lemma vm_inv_new_table:
  assumes inv: "vm_inv s pt (p # ps)" and i: "i < 1024" "\<not> valid (entry (mem s) pt i)"
  defines "m \<equiv> store32 (zero_page (mem s) p) (pt + 4 * i) (PA2PTE p OR PTE_V)"
  defines "t \<equiv> (settle s)\<lparr>kmem_freelist := load32 (mem s) p, mem := m\<rparr>"
  shows "grows pt s (p # ps) t ps" "leaf m pt vb = leaf (mem s) pt vb"
    "valid (entry m pt i)" "PTE2PA (entry m pt i) = p"
proof -
  have pool: "pool s (p # ps)" and wf: "pt_wf (mem s) pt" and pt: "page_aligned pt"
    using inv by (auto simp: vm_inv_def pt_wf_def)
  have p: "page_aligned p" "p \<noteq> 0" "p \<notin> pt_pages (mem s) pt" "p \<notin> set ps" "page_ok (kend s) p"
    using inv ka.pool_managed [OF pool, of p] ka.pool_distinct [OF pool]
    by (auto simp: vm_inv_def)
  note nt = new_table [OF wf i p(1-3), folded m_def]
  show "leaf m pt vb = leaf (mem s) pt vb" "valid (entry m pt i)" "PTE2PA (entry m pt i) = p"
    by (fact nt)+
  have mx: "m x = mem s x" if "PGROUNDDOWN x \<noteq> p" "PGROUNDDOWN x \<noteq> pt" for x
    using that p(1) i pt entry_aligned [of pt i] entry_offset(2) [of pt i]
    by (simp add: m_def store32_other_page zero_page_apply less_1024)
  have "pool ((settle s)\<lparr>kmem_freelist := load32 (mem s) p\<rparr>) ps"
    using kalloc_page(2) [of s p ps] pool by (simp add: pool_def)
  moreover have "pt \<notin> set ps" using inv by (auto simp: vm_inv_def pt_pages_def)
  ultimately have "pool t ps"
    unfolding t_def using p(4) by (intro pool_mem) (simp_all, metis mx)
  moreover have "kend t = kend s" "mem t = m" by (simp_all add: t_def)
  moreover have "vm_frame s t" by (simp add: t_def vm_frame_def)
  ultimately show "grows pt s (p # ps) t ps"
    using nt(2,3) inv p mx by (auto simp: grows_def vm_inv_def pt_pages_def [of "mem s"] intro!: exI [of _ "[p]"])
qed

definition walk_post :: "u32 \<Rightarrow> u32 \<Rightarrow> 'a kmem_scheme \<Rightarrow> u32 list \<Rightarrow> u32 \<Rightarrow> 'a kmem_scheme \<Rightarrow> u32 list \<Rightarrow> bool" where
  "walk_post pt va s ps a t qs \<longleftrightarrow> grows pt s ps t qs \<and> leaf (mem t) pt = leaf (mem s) pt
     \<and> (if a = 0 then ps = []
        else valid (entry (mem t) pt (PX (Suc 0) va))
          \<and> a = PTE2PA (entry (mem t) pt (PX (Suc 0) va)) + 4 * PX 0 va)"

lemma walk_alloc:
  assumes inv: "vm_inv s pt ps" and va: "va < MAXVA"
  shows "wp (walk pt va True) P s (\<lambda>a t. \<exists>qs. walk_post pt va s ps a t qs)"
proof -
  let ?i = "PX (Suc 0) va"
  let ?e = "entry (mem s) pt ?i"
  have nle: "\<not> MAXVA \<le> va" using va by simp
  have wf: "pt_wf (mem s) pt" and pl: "pool s ps" using inv by (auto simp: vm_inv_def)
  show ?thesis
  proof (cases "valid ?e")
    case True
    then have "walk pt va True P s = Ret (PTE2PA ?e + 4 * PX 0 va) s"
      using nle by (simp add: walk_def valid_def entry_def ret_def Let_def)
    then show ?thesis
      using True inv leaf_addr_nonzero [OF wf True]
      by (auto simp: wp_iff walk_post_def intro!: exI [of _ ps] grows_refl)
  next
    case False
    then have "load32 (mem s) (pt + 4 * ?i) AND PTE_V = 0" by (simp add: valid_def entry_def)
    note unf = walk_def this nle Let_def
    show ?thesis
    proof (cases ps)
      case Nil
      then have "kalloc P s = Ret 0 (settle s)" using pl by (simp add: pool_def kalloc_empty)
      then have "walk pt va True P s = Ret 0 (settle s)" by (simp add: unf ret_def)
      moreover have "grows pt s ps (settle s) ps"
        using inv Nil by (simp add: grows_def vm_inv_def pool_def vm_frame_def)
      ultimately show ?thesis by (auto simp: wp_iff walk_post_def Nil intro!: exI [of _ "[]"])
    next
      case (Cons p qs)
      let ?m = "store32 (zero_page (mem s) p) (pt + 4 * ?i) (PA2PTE p OR PTE_V)"
      let ?t = "(settle s)\<lparr>kmem_freelist := load32 (mem s) p, mem := ?m\<rparr>"
      have pnz: "p \<noteq> 0" using ka.pool_managed [OF pl, of p] Cons by simp
      have "kalloc P s = Ret p ((settle s)\<lparr>kmem_freelist := load32 (mem s) p\<rparr>)"
        using pl Cons kalloc_page(1) [of s p qs P] by (simp add: pool_def)
      then have r: "walk pt va True P s = Ret (p + 4 * PX 0 va) ?t"
        using pnz by (simp add: unf memset_at_page ret_def)
      have g: "grows pt s (p # qs) ?t qs" "valid (entry (mem ?t) pt ?i)" "PTE2PA (entry (mem ?t) pt ?i) = p"
        "leaf (mem ?t) pt = leaf (mem s) pt"
        using vm_inv_new_table [of s pt p qs ?i] inv Cons False by auto
      have "pt_wf (mem ?t) pt" using g(1) by (auto simp: grows_def vm_inv_def)
      from leaf_addr_nonzero [OF this g(2)] g(3) have "p + 4 * PX 0 va \<noteq> 0" by simp
      with r g Cons show ?thesis
        by (auto simp: wp_iff walk_post_def intro!: exI [of _ qs])
    qed
  qed
qed

end
