(* ===== verification/MapPages.thy ===== *)
theory MapPages
  imports PageTable
begin

text \<open>
  \<open>mappages\<close>: the translation after mapping a range. \<open>map_range va k pa perm f\<close> is the
  translation \<open>f\<close> with the first \<open>k\<close> pages from \<open>va\<close> on mapped to the pages from \<open>pa\<close> on.
\<close>

definition map_range :: "u32 \<Rightarrow> nat \<Rightarrow> u32 \<Rightarrow> u32 \<Rightarrow> (u32 \<Rightarrow> u32) \<Rightarrow> u32 \<Rightarrow> u32" where
  "map_range va k pa perm f vb =
     (if unat (vb - va) < 4096 * k then PA2PTE (pa + (PGROUNDDOWN vb - va)) OR perm OR PTE_V
      else f vb)"

lemma map_range_0 [simp]: "map_range va 0 pa perm f = f"
  by (simp add: map_range_def fun_eq_iff)

lemma map_range_1:
  assumes "page_aligned va"
  shows "map_range va (Suc 0) pa perm f vb =
    (if PGROUNDDOWN vb = PGROUNDDOWN va then PA2PTE pa OR perm OR PTE_V else f vb)"
  using in_page_iff [OF assms, of vb] assms by (auto simp: map_range_def)

lemma map_range_Suc:
  assumes "4096 * Suc k \<le> 4294967296"
  shows "map_range (va + PGSIZE) k (pa + PGSIZE) perm (map_range va (Suc 0) pa perm f) =
    map_range va (Suc k) pa perm f"
proof (rule ext)
  fix vb
  let ?d = "unat (vb - va)"
  have s: "unat (vb - (va + PGSIZE)) = (if 4096 \<le> ?d then ?d - 4096 else ?d + 4294967296 - 4096)"
    using unat_diff [of "vb - va" 4096] by (simp add: PGSIZE_def diff_diff_eq [symmetric])
  have e: "pa + PGSIZE + (PGROUNDDOWN vb - (va + PGSIZE)) = pa + (PGROUNDDOWN vb - va)" by simp
  show "map_range (va + PGSIZE) k (pa + PGSIZE) perm (map_range va (Suc 0) pa perm f) vb =
      map_range va (Suc k) pa perm f vb"
    using assms unat_u32_less [of "vb - va"] by (auto simp: map_range_def s e)
qed

text \<open>The tables after mapping one page whose entry was not valid.\<close>

lemma map_one:
  fixes pa perm :: u32
  assumes w: "walk_post pt a s ps pte t qs" and nz: "pte \<noteq> 0" and al: "page_aligned a"
  defines "u \<equiv> t\<lparr>mem := store32 (mem t) pte (PA2PTE pa OR perm OR PTE_V)\<rparr>"
  shows "grows pt s ps u qs"
    "leaf (mem u) pt = map_range a (Suc 0) pa perm (leaf (mem s) pt)"
    "load32 (mem t) pte = leaf (mem s) pt a"
proof -
  let ?q = "PTE2PA (entry (mem t) pt (PX (Suc 0) a))"
  have v: "valid (entry (mem t) pt (PX (Suc 0) a))" and pte: "pte = ?q + 4 * PX 0 a"
    and g: "grows pt s ps t qs" and l: "leaf (mem t) pt = leaf (mem s) pt"
    using w nz by (auto simp: walk_post_def)
  have inv: "vm_inv t pt qs" and wf: "pt_wf (mem t) pt" using g by (auto simp: grows_def vm_inv_def)
  note st = store_leaf [OF wf v, of "PA2PTE pa OR perm OR PTE_V", folded pte]
  have q: "?q \<in> pt_pages (mem t) pt" using v by (simp add: entry_page_in)
  have "PGROUNDDOWN pte = ?q" "aligned4 pte"
    unfolding pte by (rule entry_offset entry_aligned; simp add: PX_less)+
  then have out: "mem u x = mem t x" if "PGROUNDDOWN x \<notin> pt_pages (mem t) pt" for x
    using that q by (simp add: u_def) (metis store32_other_page)
  have "pool u qs"
    unfolding u_def
  proof (rule pool_mem)
    show "pool t qs" using inv by (simp add: vm_inv_def)
    fix x assume "PGROUNDDOWN x \<in> set qs"
    then have "PGROUNDDOWN x \<notin> pt_pages (mem t) pt" using inv by (auto simp: vm_inv_def)
    then show "store32 (mem t) pte (PA2PTE pa OR perm OR PTE_V) x = mem t x"
      using out by (simp add: u_def)
  qed
  moreover have "mem u = store32 (mem t) pte (PA2PTE pa OR perm OR PTE_V)" "kend u = kend t"
    by (simp_all add: u_def)
  ultimately have "vm_inv u pt qs" using inv st(2,3) by (simp add: vm_inv_def)
  then have "grows pt t qs u qs"
    using out st(2) by (simp add: grows_def u_def vm_frame_mem)
  with g show "grows pt s ps u qs" by (rule grows_trans)
  show "leaf (mem u) pt = map_range a (Suc 0) pa perm (leaf (mem s) pt)"
    using st(1) al l by (simp add: u_def map_range_1 fun_eq_iff)
  show "load32 (mem t) pte = leaf (mem s) pt a"
    using v by (simp add: l [symmetric] leaf_def Let_def pte entry_def)
qed

definition range_ok :: "u32 \<Rightarrow> nat \<Rightarrow> bool" where
  "range_ok va n \<longleftrightarrow> page_aligned va \<and> unat va + 4096 * n \<le> 2147483648"

lemma range_ok_Suc: "range_ok va (Suc n) \<Longrightarrow> range_ok (va + PGSIZE) n \<and> va < MAXVA"
proof -
  assume r: "range_ok va (Suc n)"
  obtain q where q: "unat va = 4096 * q"
    using r by (auto simp: range_ok_def unat_page_aligned mod_eq_0_iff_dvd)
  have u: "unat (va + PGSIZE) = unat va + 4096"
    using r unat_add_nat [of va 4096] by (simp add: range_ok_def PGSIZE_def)
  have "page_aligned (va + PGSIZE)" unfolding unat_page_aligned u q by simp
  then show "range_ok (va + PGSIZE) n \<and> va < MAXVA"
    using r by (simp add: range_ok_def u MAXVA_def word_less_nat_alt)
qed

lemma mappages_step:
  assumes inv: "vm_inv s pt ps" and va: "va < MAXVA" "page_aligned va"
    and nv: "\<not> valid (leaf (mem s) pt va)"
    and fail: "\<And>u. grows pt s ps u [] \<Longrightarrow> leaf (mem u) pt = leaf (mem s) pt \<Longrightarrow> Q (-1) u"
    and cont: "\<And>u qs. grows pt s ps u qs \<Longrightarrow>
      leaf (mem u) pt = map_range va (Suc 0) pa perm (leaf (mem s) pt) \<Longrightarrow> wp m P u Q"
  shows "wp (bind (walk pt va True) (\<lambda>pte.
     if pte = 0 then ret (-1)
     else bind (ld32 pte) (\<lambda>e.
       if e AND PTE_V \<noteq> 0 then panic ''mappages: remap''
       else bind (st32 pte (PA2PTE pa OR perm OR PTE_V)) (\<lambda>_. m)))) P s Q"
  unfolding wp_bind
proof (rule wp_mono [OF walk_alloc [OF inv va(1)]])
  fix pte t assume "\<exists>qs. walk_post pt va s ps pte t qs"
  then obtain qs where w: "walk_post pt va s ps pte t qs" by blast
  show "wp (if pte = 0 then ret (-1)
     else bind (ld32 pte) (\<lambda>e. if e AND PTE_V \<noteq> 0 then panic ''mappages: remap''
       else bind (st32 pte (PA2PTE pa OR perm OR PTE_V)) (\<lambda>_. m))) P t Q"
  proof (cases "pte = 0")
    case True
    then have "grows pt s ps t []" "leaf (mem t) pt = leaf (mem s) pt"
      using w by (auto simp: walk_post_def grows_def)
    with True fail show ?thesis by (simp add: wp_rules)
  next
    case False
    have "load32 (mem t) pte AND PTE_V = 0"
      using nv map_one(3) [OF w False va(2)] by (simp add: valid_def)
    with False cont [OF map_one(1,2) [OF w False va(2)]] show ?thesis by (simp add: wp_iff)
  qed
qed

definition mapped :: "u32 \<Rightarrow> u32 \<Rightarrow> nat \<Rightarrow> u32 \<Rightarrow> u32 \<Rightarrow> 'a kmem_scheme \<Rightarrow> u32 list \<Rightarrow> int \<Rightarrow> 'a kmem_scheme \<Rightarrow> bool" where
  "mapped pt va n pa perm s ps r t \<longleftrightarrow>
     (\<exists>qs k. grows pt s ps t qs \<and> leaf (mem t) pt = map_range va k pa perm (leaf (mem s) pt)
        \<and> (r = 0 \<and> k = n \<or> r = -1 \<and> k < n \<and> qs = []))"

lemma mapped_fail:
  "grows pt s ps u [] \<Longrightarrow> leaf (mem u) pt = leaf (mem s) pt \<Longrightarrow> 0 < n \<Longrightarrow> mapped pt va n pa perm s ps (-1) u"
  unfolding mapped_def by (intro exI [of _ "[]"] exI [of _ "0::nat"]) simp

lemma mappages_loop_spec:
  assumes "vm_inv s pt ps" "range_ok va (Suc n)" "n < fuel"
    "\<And>vb. unat (vb - va) < 4096 * Suc n \<Longrightarrow> \<not> valid (leaf (mem s) pt vb)"
  shows "wp (mappages_loop fuel pt va (va + of_nat n * PGSIZE) pa perm) P s (mapped pt va (Suc n) pa perm s ps)"
  using assms
proof (induction n arbitrary: s ps va pa fuel)
  case 0
  then obtain f where f: "fuel = Suc f" by (cases fuel) auto
  have va: "va < MAXVA" "page_aligned va" using range_ok_Suc [of va 0] 0 by (auto simp: range_ok_def)
  have nv: "\<not> valid (leaf (mem s) pt va)" using 0(4) [of va] by simp
  show ?case
    unfolding f mappages_loop.simps
    by (rule mappages_step [OF 0(1) va nv])
      (auto simp: mapped_fail, auto simp: mapped_def wp_rules)
next
  case (Suc n)
  then obtain f where f: "fuel = Suc f" "n < f" by (cases fuel) auto
  have va: "va < MAXVA" "page_aligned va" and r: "range_ok (va + PGSIZE) n" "range_ok (va + PGSIZE) (Suc n)"
    using range_ok_Suc [OF Suc.prems(2)] Suc.prems(2) by (auto simp: range_ok_def)
  have nv: "\<not> valid (leaf (mem s) pt va)" using Suc.prems(4) [of va] by simp
  let ?last = "va + of_nat (Suc n) * PGSIZE"
  have last: "?last = (va + PGSIZE) + of_nat n * PGSIZE" by (simp add: algebra_simps)
  have n: "Suc n < 1048576" using Suc.prems(2) by (auto simp: range_ok_def)
  have "unat (of_nat (Suc n) * PGSIZE :: u32) = Suc n * 4096"
    using n by (simp add: PGSIZE_def unat_word_ariths unat_of_nat take_bit_eq_mod del: of_nat_Suc)
  then have "of_nat (Suc n) * PGSIZE \<noteq> (0::u32)" by (metis mult_is_0 nat.distinct(1) unat_0 zero_neq_numeral)
  then have ne: "va \<noteq> ?last" by simp
  have size: "4096 * Suc (Suc n) \<le> 4294967296" using Suc.prems(2) by (simp add: range_ok_def)
  show ?case
    unfolding f mappages_loop.simps
  proof (rule mappages_step [OF Suc.prems(1) va nv])
    fix u qs
    assume g: "grows pt s ps u qs"
      and l: "leaf (mem u) pt = map_range va (Suc 0) pa perm (leaf (mem s) pt)"
    have "wp (mappages_loop f pt (va + PGSIZE) ((va + PGSIZE) + of_nat n * PGSIZE) (pa + PGSIZE) perm) P u
        (mapped pt (va + PGSIZE) (Suc n) (pa + PGSIZE) perm u qs)"
    proof (rule Suc.IH [OF _ r(2) f(2)])
      show "vm_inv u pt qs" using g by (simp add: grows_def)
      fix vb assume b: "unat (vb - (va + PGSIZE)) < 4096 * Suc n"
      let ?d = "unat (vb - va)"
      have "unat (vb - (va + PGSIZE)) = (if 4096 \<le> ?d then ?d - 4096 else ?d + 4294967296 - 4096)"
        using unat_diff [of "vb - va" 4096] by (simp add: PGSIZE_def diff_diff_eq [symmetric])
      with b size have d: "4096 \<le> ?d" "?d < 4096 * Suc (Suc n)" by (auto split: if_splits)
      then show "\<not> valid (leaf (mem u) pt vb)" using Suc.prems(4) [of vb] l by (simp add: map_range_def)
    qed
    then have "wp (mappages_loop f pt (va + PGSIZE) ?last (pa + PGSIZE) perm) P u
        (mapped pt va (Suc (Suc n)) pa perm s ps)"
      unfolding last
    proof (rule wp_mono)
      fix r t assume "mapped pt (va + PGSIZE) (Suc n) (pa + PGSIZE) perm u qs r t"
      then obtain rs k where t: "grows pt u qs t rs"
        "leaf (mem t) pt = map_range (va + PGSIZE) k (pa + PGSIZE) perm (leaf (mem u) pt)"
        "r = 0 \<and> k = Suc n \<or> r = -1 \<and> k < Suc n \<and> rs = []"
        by (auto simp: mapped_def)
      have "leaf (mem t) pt = map_range va (Suc k) pa perm (leaf (mem s) pt)"
        unfolding t(2) l by (rule map_range_Suc) (use t(3) size in auto)
      with t(3) grows_trans [OF g t(1)] show "mapped pt va (Suc (Suc n)) pa perm s ps r t"
        unfolding mapped_def by (intro exI [of _ rs] exI [of _ "Suc k"]) auto
    qed
    with ne show "wp (if va = ?last then ret 0
       else mappages_loop f pt (va + PGSIZE) ?last (pa + PGSIZE) perm) P u (mapped pt va (Suc (Suc n)) pa perm s ps)"
      by simp
  qed (simp add: mapped_fail)
qed

lemma mappages_spec:
  assumes inv: "vm_inv s pt ps" and r: "range_ok va n" "0 < n"
    and nv: "\<And>vb. unat (vb - va) < 4096 * n \<Longrightarrow> \<not> valid (leaf (mem s) pt vb)"
  shows "wp (mappages pt va (of_nat n * PGSIZE) pa perm) P s (mapped pt va n pa perm s ps)"
proof -
  obtain k where k: "n = Suc k" using r(2) by (cases n) auto
  have n: "n < 1048576" using r by (auto simp: range_ok_def)
  have u: "unat (of_nat n * PGSIZE :: u32) = n * 4096"
    using n by (simp add: PGSIZE_def unat_word_ariths unat_of_nat take_bit_eq_mod)
  have "of_nat n * PGSIZE \<noteq> (0::u32)" using u r(2) by (metis mult_is_0 neq0_conv unat_0 zero_neq_numeral)
  moreover have "page_aligned (of_nat n * PGSIZE)" by (simp add: unat_page_aligned u)
  moreover have "page_aligned va" using r by (simp add: range_ok_def)
  ultimately have g: "mappages pt va (of_nat n * PGSIZE) pa perm =
      mappages_loop all_pages pt va (va + of_nat n * PGSIZE - PGSIZE) pa perm"
    by (simp add: mappages_def page_aligned_def)
  have l: "va + of_nat n * PGSIZE - PGSIZE = va + of_nat k * PGSIZE" by (simp add: k algebra_simps)
  have "wp (mappages_loop all_pages pt va (va + of_nat k * PGSIZE) pa perm) P s (mapped pt va (Suc k) pa perm s ps)"
    by (rule mappages_loop_spec [OF inv]) (use r nv n k in \<open>auto simp: all_pages_def\<close>)
  then show ?thesis unfolding g l by (simp only: k)
qed

lemma leaf_same_page: "PGROUNDDOWN va = PGROUNDDOWN vb \<Longrightarrow> leaf m pt va = leaf m pt vb"
  unfolding PX_same_page [symmetric] by (simp add: leaf_def Let_def)

lemma mappages_page:
  assumes inv: "vm_inv s pt ps" and va: "page_aligned va" "unat va + 4096 \<le> 2147483648"
    and nv: "\<not> valid (leaf (mem s) pt va)"
  shows "wp (mappages pt va PGSIZE pa perm) P s (mapped pt va (Suc 0) pa perm s ps)"
proof -
  have "\<not> valid (leaf (mem s) pt vb)" if "unat (vb - va) < 4096 * Suc 0" for vb
  proof -
    have "PGROUNDDOWN vb = PGROUNDDOWN va" using that va by (simp add: in_page_iff)
    then have "leaf (mem s) pt vb = leaf (mem s) pt va" by (rule leaf_same_page)
    with nv show ?thesis by simp
  qed
  with mappages_spec [OF inv, of va "Suc 0" pa perm P] va show ?thesis by (simp add: range_ok_def)
qed

section \<open>Stepping through pages\<close>

lemma page_loop_wp:
  assumes lt: "\<And>k. k < n \<Longrightarrow> a + of_nat k * PGSIZE < stop" and ge: "\<not> a + of_nat n * PGSIZE < stop"
    and fuel: "n < fuel" and init: "I 0 s"
    and step: "\<And>k t. k < n \<Longrightarrow> I k t \<Longrightarrow>
      wp (body (a + of_nat k * PGSIZE)) P t (\<lambda>r u. if r = None then I (Suc k) u else Q r u)"
    and fin: "\<And>t. I n t \<Longrightarrow> Q None t"
  shows "wp (page_loop fuel body a stop) P s Q"
proof -
  have "wp (page_loop (fuel - k) body (a + of_nat k * PGSIZE) stop) P t Q" if "k \<le> n" "I k t" for k t
    using that
  proof (induction "n - k" arbitrary: k t)
    case 0
    then have "k = n" by simp
    moreover obtain f where "fuel - k = Suc f" using fuel 0 by (cases "fuel - k") auto
    ultimately show ?case using ge fin 0 by (simp add: wp_rules)
  next
    case (Suc d)
    then have k: "k < n" by simp
    obtain f where f: "fuel - k = Suc f" "fuel - Suc k = f" using fuel k by (cases "fuel - k") auto
    have "wp (body (a + of_nat k * PGSIZE)) P t (\<lambda>r u.
        wp (if r = None then page_loop f body (a + of_nat k * PGSIZE + PGSIZE) stop else ret r) P u Q)"
    proof (rule wp_mono [OF step [OF k Suc.prems(2)]])
      fix r u assume r: "if r = None then I (Suc k) u else Q r u"
      have "wp (page_loop f body (a + of_nat (Suc k) * PGSIZE) stop) P u Q" if "I (Suc k) u"
        using Suc.hyps(1) [of "Suc k" u] Suc.hyps(2) k that f by simp
      moreover have "a + of_nat (Suc k) * PGSIZE = a + of_nat k * PGSIZE + PGSIZE"
        by (simp add: algebra_simps)
      ultimately show "wp (if r = None then page_loop f body (a + of_nat k * PGSIZE + PGSIZE) stop else ret r) P u Q"
        using r by (auto simp: wp_rules simp del: of_nat_Suc split: if_splits)
    qed
    then show ?case using f lt [OF k] by (simp add: wp_rules)
  qed
  from this [of 0 s] init show ?thesis by simp
qed

text \<open>The addresses a loop from a page-aligned \<open>a\<close> below \<open>stop\<close> visits.\<close>

definition page_count :: "u32 \<Rightarrow> u32 \<Rightarrow> nat" where
  "page_count a stop = (unat stop + 4095 - unat a) div 4096"

lemma page_count:
  assumes "page_aligned a" "unat stop \<le> 2147483648" "unat a \<le> unat stop + 4095"
  shows "k \<le> page_count a stop \<Longrightarrow> unat (a + of_nat k * PGSIZE) = unat a + 4096 * k"
    "k < page_count a stop \<Longrightarrow> a + of_nat k * PGSIZE < stop"
    "\<not> a + of_nat (page_count a stop) * PGSIZE < stop"
    "page_count a stop < all_pages"
    "k \<le> page_count a stop \<Longrightarrow> page_aligned (a + of_nat k * PGSIZE)"
proof -
  let ?n = "page_count a stop"
  have le: "4096 * ?n \<le> unat stop + 4095 - unat a" by (simp add: page_count_def)
  have gt: "unat stop - unat a \<le> 4096 * ?n" by (auto simp: page_count_def)
  show u: "unat (a + of_nat k * PGSIZE) = unat a + 4096 * k" if "k \<le> ?n" for k
  proof -
    have "4096 * k \<le> 4096 * ?n" using that by simp
    then have "unat a + 4096 * k < 4294967296" using le assms(2,3) by linarith
    then show ?thesis using unat_add_nat [of a "4096 * k"] by (simp add: PGSIZE_def mult.commute)
  qed
  show "a + of_nat k * PGSIZE < stop" if "k < ?n" for k
  proof -
    have "4096 * k + 4096 \<le> 4096 * ?n" using that by simp
    with le have "unat a + 4096 * k < unat stop" using assms(3) that by linarith
    then show ?thesis using u [of k] that by (simp add: word_less_nat_alt)
  qed
  show "\<not> a + of_nat ?n * PGSIZE < stop" using u [of ?n] gt by (simp add: word_less_nat_alt)
  show "?n < all_pages" using le assms(2) by (simp add: all_pages_def)
  obtain q where "unat a = 4096 * q" using assms(1) by (auto simp: unat_page_aligned mod_eq_0_iff_dvd)
  then show "page_aligned (a + of_nat k * PGSIZE)" if "k \<le> ?n"
    unfolding unat_page_aligned u [OF that] by simp
qed

end
