(* ===== verification/UserMem.thy ===== *)
theory UserMem
  imports MapPages
begin

text \<open>
  Growing, shrinking, copying and freeing user memory. \<open>owns s pt D ps\<close> is the ownership
  invariant behind these operations: the data pages that the table maps at the addresses in
  \<open>D\<close> are allocatable pages, pairwise different, and neither free nor part of the table.
\<close>

section \<open>Unmapping\<close>

definition clear_range :: "u32 \<Rightarrow> nat \<Rightarrow> (u32 \<Rightarrow> u32) \<Rightarrow> u32 \<Rightarrow> u32" where
  "clear_range va n f vb = (if unat (vb - va) < 4096 * n \<and> valid (f vb) then 0 else f vb)"

definition data_page :: "memory \<Rightarrow> u32 \<Rightarrow> u32 \<Rightarrow> u32" where
  "data_page m pt va = PTE2PA (leaf m pt va)"

definition owns :: "'a kmem_scheme \<Rightarrow> u32 \<Rightarrow> (u32 \<Rightarrow> bool) \<Rightarrow> u32 list \<Rightarrow> bool" where
  "owns s pt D ps \<longleftrightarrow> vm_inv s pt ps \<and>
     (\<forall>va. D va \<and> page_aligned va \<and> valid (leaf (mem s) pt va) \<longrightarrow>
        page_ok (kend s) (data_page (mem s) pt va) \<and>
        data_page (mem s) pt va \<notin> set ps \<and> data_page (mem s) pt va \<notin> pt_pages (mem s) pt \<and>
        (\<forall>vb. D vb \<and> page_aligned vb \<and> valid (leaf (mem s) pt vb) \<and> va \<noteq> vb \<longrightarrow>
           data_page (mem s) pt va \<noteq> data_page (mem s) pt vb))"

lemma owns_vm_inv: "owns s pt D ps \<Longrightarrow> vm_inv s pt ps"
  by (simp add: owns_def)

text \<open>The data pages mapped in the \<open>n\<close> pages from \<open>va\<close> on.\<close>

definition range_pages :: "memory \<Rightarrow> u32 \<Rightarrow> u32 \<Rightarrow> nat \<Rightarrow> u32 set" where
  "range_pages m pt va n =
     {data_page m pt vb | vb. page_aligned vb \<and> unat (vb - va) < 4096 * n \<and> valid (leaf m pt vb)}"

definition unmapped :: "u32 \<Rightarrow> u32 \<Rightarrow> nat \<Rightarrow> bool \<Rightarrow> 'a kmem_scheme \<Rightarrow> u32 list \<Rightarrow> 'a kmem_scheme \<Rightarrow> u32 list \<Rightarrow> bool" where
  "unmapped pt va n do_free s ps t qs \<longleftrightarrow> vm_frame s t \<and> vm_inv t pt qs
     \<and> pt_pages (mem t) pt = pt_pages (mem s) pt
     \<and> leaf (mem t) pt = clear_range va n (leaf (mem s) pt)
     \<and> set qs = set ps \<union> (if do_free then range_pages (mem s) pt va n else {})
     \<and> (\<forall>x. PGROUNDDOWN x \<notin> pt_pages (mem s) pt \<and> (do_free \<longrightarrow> PGROUNDDOWN x \<notin> range_pages (mem s) pt va n)
          \<longrightarrow> mem t x = mem s x)"

text \<open>Clearing a valid leaf entry.\<close>

lemma clear_leaf:
  assumes inv: "vm_inv s pt ps" and va: "page_aligned va"
    and v: "valid (leaf (mem s) pt va)"
  defines "t \<equiv> s\<lparr>mem := store32 (mem s) (PTE2PA (entry (mem s) pt (PX (Suc 0) va)) + 4 * PX 0 va) 0\<rparr>"
  shows "vm_inv t pt ps" "pt_pages (mem t) pt = pt_pages (mem s) pt"
    "leaf (mem t) pt = clear_range va (Suc 0) (leaf (mem s) pt)"
    "PGROUNDDOWN x \<notin> pt_pages (mem s) pt \<Longrightarrow> mem t x = mem s x"
proof -
  let ?e = "entry (mem s) pt (PX (Suc 0) va)"
  let ?a = "PTE2PA ?e + 4 * PX 0 va"
  have ve: "valid ?e" using v by (auto simp: leaf_def Let_def split: if_splits)
  have wf: "pt_wf (mem s) pt" using inv by (simp add: vm_inv_def)
  note st = store_leaf [OF wf ve, of 0]
  have q: "PTE2PA ?e \<in> pt_pages (mem s) pt" using ve by (simp add: entry_page_in)
  have a: "PGROUNDDOWN ?a = PTE2PA ?e" "aligned4 ?a"
    by (rule entry_offset entry_aligned; simp add: PX_less)+
  show out: "mem t x = mem s x" if "PGROUNDDOWN x \<notin> pt_pages (mem s) pt" for x
    using that q a unfolding t_def by (simp, metis store32_other_page)
  have "pool t ps"
    unfolding t_def
  proof (rule pool_mem)
    show "pool s ps" using inv by (simp add: vm_inv_def)
    fix x assume "PGROUNDDOWN x \<in> set ps"
    then have "PGROUNDDOWN x \<notin> pt_pages (mem s) pt" using inv by (auto simp: vm_inv_def)
    then show "store32 (mem s) ?a 0 x = mem s x" using out by (simp add: t_def)
  qed
  then show "vm_inv t pt ps" using inv st(2,3) by (simp add: vm_inv_def t_def)
  show "pt_pages (mem t) pt = pt_pages (mem s) pt" using st(2) by (simp add: t_def)
  show "leaf (mem t) pt = clear_range va (Suc 0) (leaf (mem s) pt)"
  proof (rule ext)
    fix vb
    have "valid (leaf (mem s) pt vb)" if "PGROUNDDOWN vb = PGROUNDDOWN va"
      using v leaf_same_page [OF that] by simp
    then show "leaf (mem t) pt vb = clear_range va (Suc 0) (leaf (mem s) pt) vb"
      using st(1) [of vb] va in_page_iff [OF va, of vb] by (auto simp: t_def clear_range_def)
  qed
qed

text \<open>Giving a data page back to the allocator keeps the table.\<close>

lemma vm_inv_kfree:
  assumes inv: "vm_inv s pt ps" and p: "page_ok (kend s) p" "p \<notin> set ps" "p \<notin> pt_pages (mem s) pt"
  defines "t \<equiv> (settle s)\<lparr>mem := store32 (mem s) p (kmem_freelist s), kmem_freelist := p\<rparr>"
  shows "kfree p P s = Ret () t" "vm_inv t pt (p # ps)" "leaf (mem t) pt = leaf (mem s) pt"
    "pt_pages (mem t) pt = pt_pages (mem s) pt" "PGROUNDDOWN x \<noteq> p \<Longrightarrow> mem t x = mem s x"
    "entry (mem t) pt (PX (Suc 0) va) = entry (mem s) pt (PX (Suc 0) va)"
proof -
  have pl: "pool s ps" and al: "page_aligned pt" using inv by (auto simp: vm_inv_def pt_wf_def)
  have "lock_ok KmemLock s" using pl by (simp add: pool_def)
  then show k: "kfree p P s = Ret () t" for P unfolding t_def using p(1) by (rule kfree_eq)
  show out: "mem t x = mem s x" if "PGROUNDDOWN x \<noteq> p" for x
    using that p(1) by (simp add: t_def store32_other_page)
  have same: "mem t x = mem s x" if "PGROUNDDOWN x \<in> pt_pages (mem s) pt" for x
    using that p(3) out by metis
  note c = pt_cong [OF al, of "mem s" "mem t", OF same]
  show "leaf (mem t) pt = leaf (mem s) pt" "pt_pages (mem t) pt = pt_pages (mem s) pt"
    using c by (auto simp: fun_eq_iff)
  show "entry (mem t) pt (PX (Suc 0) va) = entry (mem s) pt (PX (Suc 0) va)"
    using al same by (intro entry_cong) (auto simp: pt_pages_def)
  have "pool t (p # ps)"
    using pl p free_list_push [of s ps p] by (simp add: pool_def t_def)
  moreover have "kend t = kend s" by (simp add: t_def)
  ultimately show "vm_inv t pt (p # ps)" using inv c p(3) by (simp add: vm_inv_def)
qed

lemma range_index:
  assumes "4096 * Suc k \<le> 4294967296"
  shows "unat (vb - (va + of_nat k * PGSIZE)) < 4096 \<longleftrightarrow>
    4096 * k \<le> unat (vb - va) \<and> unat (vb - va) < 4096 * Suc k"
proof -
  have u: "unat (of_nat k * PGSIZE :: u32) = 4096 * k"
    using assms by (simp add: PGSIZE_def unat_word_ariths unat_of_nat take_bit_eq_mod)
  have "vb - (va + of_nat k * PGSIZE) = (vb - va) - of_nat k * PGSIZE" by simp
  then have "unat (vb - (va + of_nat k * PGSIZE)) =
      (if 4096 * k \<le> unat (vb - va) then unat (vb - va) - 4096 * k
       else unat (vb - va) + 4294967296 - 4096 * k)"
    by (simp only: unat_diff [of "vb - va" "of_nat k * PGSIZE"] u)
  then show ?thesis using assms by auto
qed

lemma unmapped_refl: "vm_inv s pt ps \<Longrightarrow> unmapped pt va 0 df s ps s ps"
  by (auto simp: unmapped_def clear_range_def range_pages_def fun_eq_iff)

lemma clear_range_Suc:
  assumes "4096 * Suc k \<le> 4294967296"
  shows "clear_range (va + of_nat k * PGSIZE) (Suc 0) (clear_range va k f) = clear_range va (Suc k) f"
  using range_index [OF assms, of _ va]
  by (auto simp: clear_range_def fun_eq_iff not_less)

lemma range_pages_Suc:
  assumes "4096 * Suc k \<le> 4294967296" "leaf m' pt = clear_range va k (leaf m pt)"
  shows "range_pages m pt va (Suc k) =
    range_pages m pt va k \<union> range_pages m' pt (va + of_nat k * PGSIZE) (Suc 0)"
proof (intro set_eqI iffI)
  fix p assume "p \<in> range_pages m pt va (Suc k)"
  then obtain vb where vb: "p = data_page m pt vb" "page_aligned vb" "unat (vb - va) < 4096 * Suc k"
    "valid (leaf m pt vb)" by (auto simp: range_pages_def)
  show "p \<in> range_pages m pt va k \<union> range_pages m' pt (va + of_nat k * PGSIZE) (Suc 0)"
  proof (cases "unat (vb - va) < 4096 * k")
    case True
    with vb show ?thesis by (auto simp: range_pages_def)
  next
    case False
    then have "leaf m' pt vb = leaf m pt vb" by (simp add: assms(2) clear_range_def)
    with False vb range_index [OF assms(1), of vb va] show ?thesis
      by (intro UnI2) (auto simp: range_pages_def data_page_def intro!: exI [of _ vb])
  qed
next
  fix p assume "p \<in> range_pages m pt va k \<union> range_pages m' pt (va + of_nat k * PGSIZE) (Suc 0)"
  then show "p \<in> range_pages m pt va (Suc k)"
  proof
    assume "p \<in> range_pages m' pt (va + of_nat k * PGSIZE) (Suc 0)"
    then obtain vb where vb: "p = data_page m' pt vb" "page_aligned vb"
      "4096 * k \<le> unat (vb - va)" "unat (vb - va) < 4096 * Suc k" "valid (leaf m' pt vb)"
      using range_index [OF assms(1), of _ va] by (auto simp: range_pages_def)
    moreover have "leaf m' pt vb = leaf m pt vb" using vb(3) by (simp add: assms(2) clear_range_def)
    ultimately show ?thesis by (auto simp: range_pages_def data_page_def)
  qed (fastforce simp: range_pages_def)
qed

lemma unmapped_Suc:
  assumes "unmapped pt va k df s ps t qs" "unmapped pt (va + of_nat k * PGSIZE) (Suc 0) df t qs u rs"
    "4096 * Suc k \<le> 4294967296"
  shows "unmapped pt va (Suc k) df s ps u rs"
proof -
  have l: "leaf (mem t) pt = clear_range va k (leaf (mem s) pt)" using assms(1) by (simp add: unmapped_def)
  note r = range_pages_Suc [OF assms(3) l]
  have fr: "vm_frame s u" using assms(1,2) vm_frame_trans by (auto simp: unmapped_def)
  have "mem u x = mem s x" if "PGROUNDDOWN x \<notin> pt_pages (mem s) pt"
    "df \<longrightarrow> PGROUNDDOWN x \<notin> range_pages (mem s) pt va (Suc k)" for x
    using assms(1,2) that unfolding unmapped_def r by auto
  moreover have "set rs = set ps \<union> (if df then range_pages (mem s) pt va (Suc k) else {})"
    using assms(1,2) unfolding unmapped_def r by auto
  moreover have "leaf (mem u) pt = clear_range va (Suc k) (leaf (mem s) pt)"
    using assms(2) l clear_range_Suc [OF assms(3)] by (simp add: unmapped_def)
  ultimately show ?thesis
    using assms(1,2) fr by (simp add: unmapped_def)
qed

lemma unmapped_owns:
  assumes o: "owns s pt D ps" and u: "unmapped pt va n df s ps t qs"
    and d: "df \<Longrightarrow> (\<And>vb. page_aligned vb \<Longrightarrow> unat (vb - va) < 4096 * n \<Longrightarrow> D vb)"
  shows "owns t pt D qs"
proof -
  have kend: "kend t = kend s" using u by (simp add: unmapped_def vm_frameD)
  have old: "leaf (mem t) pt vb = leaf (mem s) pt vb \<and> \<not> unat (vb - va) < 4096 * n"
    if "valid (leaf (mem t) pt vb)" for vb
    using u that by (auto simp: unmapped_def clear_range_def split: if_splits)
  have free: "data_page (mem s) pt vb \<notin> set qs"
    if "D vb" "page_aligned vb" "valid (leaf (mem s) pt vb)" "\<not> unat (vb - va) < 4096 * n" for vb
  proof
    assume "data_page (mem s) pt vb \<in> set qs"
    moreover have "data_page (mem s) pt vb \<notin> set ps" using o that by (simp add: owns_def)
    ultimately have "df" "data_page (mem s) pt vb \<in> range_pages (mem s) pt va n"
      using u by (auto simp: unmapped_def split: if_splits)
    then obtain vc where "data_page (mem s) pt vb = data_page (mem s) pt vc" "page_aligned vc"
      "unat (vc - va) < 4096 * n" "valid (leaf (mem s) pt vc)" by (auto simp: range_pages_def)
    with o that d [OF \<open>df\<close>] show False unfolding owns_def by metis
  qed
  have dp: "data_page (mem t) pt vb = data_page (mem s) pt vb" if "valid (leaf (mem t) pt vb)" for vb
    using old [OF that] by (simp add: data_page_def)
  have "pt_pages (mem t) pt = pt_pages (mem s) pt" "vm_inv t pt qs" using u by (simp_all add: unmapped_def)
  then show ?thesis
    using o old free dp kend unfolding owns_def by (auto simp del: split_paired_All)
qed

lemma unmap_page:
  assumes o: "owns s pt D ps" and va: "page_aligned va" "va < MAXVA" and d: "df \<Longrightarrow> D va"
  shows "wp (uvmunmap_page pt df va) P s (\<lambda>r t. r = None \<and> (\<exists>qs. unmapped pt va (Suc 0) df s ps t qs))"
proof (cases "valid (leaf (mem s) pt va)")
  case False
  have inv: "vm_inv s pt ps" and wf: "pt_wf (mem s) pt" using o by (auto simp: owns_def vm_inv_def)
  have "\<not> valid (leaf (mem s) pt vb)" if "unat (vb - va) < 4096" for vb
    using False leaf_same_page [of vb va "mem s" pt] that va by (simp add: in_page_iff)
  then have "unmapped pt va (Suc 0) df s ps s ps"
    using inv by (auto simp: unmapped_def clear_range_def range_pages_def fun_eq_iff)
  moreover have "uvmunmap_page pt df va P s = Ret None s"
    using False leaf_addr_nonzero [OF wf, of va]
    by (auto simp: uvmunmap_page_def walk_noalloc [OF va(2)] Let_def leaf_def ret_def valid_def entry_def)
  ultimately show ?thesis by (auto simp: wp_iff)
next
  case True
  let ?e = "entry (mem s) pt (PX (Suc 0) va)"
  let ?a = "PTE2PA ?e + 4 * PX 0 va"
  let ?p = "data_page (mem s) pt va"
  have inv: "vm_inv s pt ps" and wf: "pt_wf (mem s) pt" using o by (auto simp: owns_def vm_inv_def)
  have v: "valid ?e" "load32 (mem s) ?a = leaf (mem s) pt va"
    using True by (auto simp: leaf_def Let_def entry_def split: if_splits)
  have nz: "?a \<noteq> 0" by (rule leaf_addr_nonzero [OF wf v(1)])
  have rp: "range_pages (mem s) pt va (Suc 0) = {?p}"
  proof -
    have "vb = va" if "page_aligned vb" "unat (vb - va) < 4096" for vb
      using that va by (metis PGROUNDDOWN_aligned in_page_iff)
    then show ?thesis using True va by (auto simp: range_pages_def)
  qed
  show ?thesis
  proof (cases df)
    case False
    have "uvmunmap_page pt df va P s = Ret None (s\<lparr>mem := store32 (mem s) ?a 0\<rparr>)"
      using v nz True False by (simp add: uvmunmap_page_def walk_noalloc [OF va(2)] Let_def ret_def valid_def)
    with clear_leaf [OF inv va(1) True] False show ?thesis
      by (auto simp: wp_iff unmapped_def vm_frame_mem intro!: exI [of _ ps])
  next
    case True
    have p: "page_ok (kend s) ?p" "?p \<notin> set ps" "?p \<notin> pt_pages (mem s) pt"
      using o va True d \<open>valid (leaf (mem s) pt va)\<close> by (auto simp: owns_def)
    define t where "t = (settle s)\<lparr>mem := store32 (mem s) ?p (kmem_freelist s), kmem_freelist := ?p\<rparr>"
    note k = vm_inv_kfree [OF inv p, folded t_def]
    have e: "entry (mem t) pt (PX (Suc 0) va) = ?e" by (rule k(6))
    have r: "uvmunmap_page pt df va P s = Ret None (t\<lparr>mem := store32 (mem t) ?a 0\<rparr>)"
      using v nz True k(1) [of P] \<open>valid (leaf (mem s) pt va)\<close>
      by (simp add: uvmunmap_page_def walk_noalloc [OF va(2)] Let_def ret_def valid_def data_page_def)
    have vt: "valid (leaf (mem t) pt va)" using k(3) \<open>valid (leaf (mem s) pt va)\<close> by simp
    note c = clear_leaf [OF k(2) va(1) vt, unfolded e]
    have fr: "vm_frame s t" by (simp add: t_def vm_frame_def)
    have "unmapped pt va (Suc 0) df s ps (t\<lparr>mem := store32 (mem t) ?a 0\<rparr>) (?p # ps)"
      using c k(3-5) True fr by (auto simp: unmapped_def vm_frame_mem rp)
    with r show ?thesis by (auto simp: wp_iff)
  qed
qed

lemma uvmunmap_spec:
  assumes o: "owns s pt D ps" and r: "range_ok va n"
    and d: "\<And>vb. df \<Longrightarrow> page_aligned vb \<Longrightarrow> unat (vb - va) < 4096 * n \<Longrightarrow> D vb"
  shows "wp (uvmunmap pt va (of_nat n) df) P s (\<lambda>_ t. \<exists>qs. unmapped pt va n df s ps t qs \<and> owns t pt D qs)"
proof -
  let ?stop = "va + of_nat n * PGSIZE"
  have al: "page_aligned va" and sz: "unat va + 4096 * n \<le> 2147483648" using r by (auto simp: range_ok_def)
  have stop: "unat ?stop = unat va + 4096 * n"
    using sz unat_add_nat [of va "4096 * n"] by (simp add: PGSIZE_def mult.commute)
  have n: "page_count va ?stop = n" by (simp add: page_count_def stop)
  have b: "unat ?stop \<le> 2147483648" "unat va \<le> unat ?stop + 4095" using sz stop by simp_all
  note pc = page_count [OF al b, unfolded n]
  let ?Q = "\<lambda>r t. \<exists>qs. unmapped pt va n df s ps t qs \<and> owns t pt D qs"
  have "wp (page_loop all_pages (uvmunmap_page pt df) va ?stop) P s ?Q"
  proof (rule page_loop_wp [where I = "\<lambda>k t. \<exists>qs. unmapped pt va k df s ps t qs \<and> owns t pt D qs"])
    show "\<exists>qs. unmapped pt va 0 df s ps s qs \<and> owns s pt D qs"
      using o unmapped_refl owns_vm_inv by blast
  next
    fix k t assume k: "k < n" and "\<exists>qs. unmapped pt va k df s ps t qs \<and> owns t pt D qs"
    then obtain qs where t: "unmapped pt va k df s ps t qs" "owns t pt D qs" by blast
    let ?a = "va + of_nat k * PGSIZE"
    have a: "page_aligned ?a" "unat ?a = unat va + 4096 * k" using pc(1,5) k by simp_all
    have amax: "?a < MAXVA" using a(2) k sz by (simp add: MAXVA_def word_less_nat_alt)
    have big: "4096 * Suc k \<le> 4294967296" using k sz by simp
    have "D ?a" if df
    proof (rule d [OF that a(1)])
      show "unat (?a - va) < 4096 * n" using range_index [OF big, of ?a va] k by simp
    qed
    then have "wp (uvmunmap_page pt df ?a) P t (\<lambda>r u. r = None \<and> (\<exists>rs. unmapped pt ?a (Suc 0) df t qs u rs))"
      by (rule unmap_page [OF t(2) a(1) amax])
    then show "wp (uvmunmap_page pt df ?a) P t (\<lambda>r u.
        if r = None then \<exists>qs. unmapped pt va (Suc k) df s ps u qs \<and> owns u pt D qs else ?Q r u)"
    proof (rule wp_mono)
      fix r u assume "r = None \<and> (\<exists>rs. unmapped pt ?a (Suc 0) df t qs u rs)"
      then obtain rs where u: "r = None" "unmapped pt ?a (Suc 0) df t qs u rs" by blast
      have m: "unmapped pt va (Suc k) df s ps u rs" using t(1) u(2) big by (rule unmapped_Suc)
      moreover have "owns u pt D rs"
      proof (rule unmapped_owns [OF o m])
        fix vb assume df "page_aligned vb" "unat (vb - va) < 4096 * Suc k"
        then show "D vb" using d k by simp
      qed
      ultimately show "if r = None then \<exists>qs. unmapped pt va (Suc k) df s ps u qs \<and> owns u pt D qs else ?Q r u"
        using u(1) by auto
    qed
  qed (use pc in auto)
  then show ?thesis
    using al by (simp add: uvmunmap_def page_aligned_def wp_rules)
qed

text \<open>The number of pages a size needs.\<close>

definition npg :: "u32 \<Rightarrow> nat" where
  "npg a = (unat a + 4095) div 4096"

lemma unat_PGROUNDUP_npg: "unat a \<le> 2147483648 \<Longrightarrow> unat (PGROUNDUP a) = 4096 * npg a"
  by (simp add: unat_PGROUNDUP npg_def)

lemma npg_le: "unat a \<le> 2147483648 \<Longrightarrow> npg a \<le> 524288"
  by (simp add: npg_def)

lemma npg_mono: "unat a \<le> unat b \<Longrightarrow> npg a \<le> npg b"
  by (simp add: npg_def div_le_mono)

lemma uvmdealloc_spec:
  assumes o: "owns s pt D ps" and sz: "newsz < oldsz" "unat oldsz \<le> 2147483648"
    and d: "\<And>vb. page_aligned vb \<Longrightarrow> unat (vb - PGROUNDUP newsz) < 4096 * (npg oldsz - npg newsz) \<Longrightarrow> D vb"
  shows "wp (uvmdealloc pt oldsz newsz) P s (\<lambda>r t. r = newsz \<and>
    (\<exists>qs. unmapped pt (PGROUNDUP newsz) (npg oldsz - npg newsz) True s ps t qs \<and> owns t pt D qs))"
proof -
  let ?n = "npg oldsz - npg newsz"
  have new: "unat newsz \<le> 2147483648" "unat newsz \<le> unat oldsz"
    using sz by (simp_all add: word_less_nat_alt)
  note u = unat_PGROUNDUP_npg [OF sz(2)] unat_PGROUNDUP_npg [OF new(1)]
  have le: "npg newsz \<le> npg oldsz" "npg oldsz \<le> 524288" using npg_mono [OF new(2)] npg_le [OF sz(2)] .
  have ngt: "\<not> oldsz \<le> newsz" using sz(1) by simp
  show ?thesis
  proof (cases "?n = 0")
    case True
    then have "\<not> PGROUNDUP newsz < PGROUNDUP oldsz" using u le by (simp add: word_less_nat_alt)
    then show ?thesis
      using ngt True o unmapped_refl [OF owns_vm_inv [OF o]]
      by (auto simp: uvmdealloc_def wp_rules)
  next
    case False
    then have lt: "PGROUNDUP newsz < PGROUNDUP oldsz" using u le by (simp add: word_less_nat_alt)
    have "unat ((PGROUNDUP oldsz - PGROUNDUP newsz) div PGSIZE) = ?n"
      using u le by (simp add: unat_div_distrib unat_diff PGSIZE_def)
    then have n: "(PGROUNDUP oldsz - PGROUNDUP newsz) div PGSIZE = of_nat ?n" by (metis of_nat_unat_u32)
    have "wp (uvmunmap pt (PGROUNDUP newsz) (of_nat ?n) True) P s
        (\<lambda>_ t. \<exists>qs. unmapped pt (PGROUNDUP newsz) ?n True s ps t qs \<and> owns t pt D qs)"
      by (rule uvmunmap_spec [OF o]) (use u le d in \<open>auto simp: range_ok_def\<close>)
    then show ?thesis
      using ngt lt n by (simp add: uvmdealloc_def wp_rules)
  qed
qed

section \<open>Freeing a page table\<close>

lemma PX_surj:
  assumes "x < 1024" "y < 1024"
  shows "\<exists>va. PX (Suc 0) va = x \<and> PX 0 va = y"
proof (intro exI conjI)
  let ?n = "unat x * 4194304 + unat y * 4096"
  have xy: "unat x < 1024" "unat y < 1024" using assms by (simp_all add: less_1024)
  have u: "unat (of_nat ?n :: u32) = ?n"
    using xy by (simp add: unat_of_nat take_bit_eq_mod del: of_nat_add of_nat_mult)
  have "?n div 4194304 = unat x" using xy by simp
  then show "PX (Suc 0) (of_nat ?n) = x"
    unfolding word_unat_eq_iff unat_PX1 u .
  have "?n = (unat x * 1024 + unat y) * 4096" by simp
  then have "?n div 4096 = unat x * 1024 + unat y" by (metis nonzero_mult_div_cancel_right zero_neq_numeral)
  then show "PX 0 (of_nat ?n) = y"
    unfolding word_unat_eq_iff unat_PX0 u using xy by simp
qed

lemma for_each_skip:
  "(\<And>x. x \<in> set xs \<Longrightarrow> f x P s = Ret () s) \<Longrightarrow> for_each xs f P s = Ret () s"
  by (induction xs) (simp_all add: ret_def)

lemma of_nat_1024: "i < 1024 \<Longrightarrow> (of_nat i :: u32) < 1024 \<and> unat (of_nat i :: u32) = i"
  by (simp add: less_1024 unat_of_nat take_bit_eq_mod)

lemma freewalk_empty:
  assumes "\<And>x. x < 1024 \<Longrightarrow> \<not> valid (entry (mem s) q x)"
  shows "freewalk_depth (Suc d) q P s = kfree q P s"
proof -
  have "for_each [0..<1024] (\<lambda>i.
       let a = q + 4 * of_nat i in
       bind (ld32 a) (\<lambda>pte.
       if pte AND PTE_V \<noteq> 0 \<and> pte AND (PTE_R OR PTE_W OR PTE_X) = 0
       then bind (freewalk_depth d (PTE2PA pte)) (\<lambda>_. st32 a 0)
       else if pte AND PTE_V \<noteq> 0 then panic ''freewalk: leaf''
       else ret ())) P s = Ret () s"
  proof (rule for_each_skip)
    fix i :: nat assume "i \<in> set [0..<1024]"
    then have "load32 (mem s) (q + 4 * of_nat i) AND PTE_V = 0"
      using assms [of "of_nat i"] of_nat_1024 [of i] by (simp add: valid_def entry_def)
    then show "(let a = q + 4 * of_nat i in
       bind (ld32 a) (\<lambda>pte.
       if pte AND PTE_V \<noteq> 0 \<and> pte AND (PTE_R OR PTE_W OR PTE_X) = 0
       then bind (freewalk_depth d (PTE2PA pte)) (\<lambda>_. st32 a 0)
       else if pte AND PTE_V \<noteq> 0 then panic ''freewalk: leaf''
       else ret ())) P s = Ret () s" by (simp add: Let_def ret_def)
  qed
  then show ?thesis by simp
qed

text \<open>The children of the first \<open>k\<close> entries of a root table.\<close>

definition children :: "memory \<Rightarrow> u32 \<Rightarrow> nat \<Rightarrow> u32 set" where
  "children m pt k = {PTE2PA (entry m pt x) | x. unat x < k \<and> valid (entry m pt x)}"

lemma children_all: "pt_pages m pt = insert pt (children m pt 1024)"
  by (simp add: pt_pages_def children_def less_1024)

lemma children_Suc:
  assumes "k < 1024"
  shows "children m pt (Suc k) = children m pt k \<union>
    (if valid (entry m pt (of_nat k)) then {PTE2PA (entry m pt (of_nat k))} else {})"
proof -
  have "unat x < Suc k \<longleftrightarrow> unat x < k \<or> x = of_nat k" for x :: u32
    using of_nat_1024 [OF assms] by (metis less_Suc_eq of_nat_unat_u32)
  then show ?thesis by (auto simp: children_def)
qed

definition freed :: "u32 \<Rightarrow> 'a kmem_scheme \<Rightarrow> u32 list \<Rightarrow> nat \<Rightarrow> 'a kmem_scheme \<Rightarrow> bool" where
  "freed pt s ps k t \<longleftrightarrow> vm_frame s t \<and> (\<exists>qs. pool t qs \<and> set qs = set ps \<union> children (mem s) pt k)
     \<and> (\<forall>x < 1024. k \<le> unat x \<longrightarrow> entry (mem t) pt x = entry (mem s) pt x)
     \<and> (\<forall>x. PGROUNDDOWN x \<noteq> pt \<and> PGROUNDDOWN x \<notin> children (mem s) pt k \<longrightarrow> mem t x = mem s x)"

lemma freed_step:
  assumes inv: "vm_inv s pt ps" and empty: "\<And>va. \<not> valid (leaf (mem s) pt va)"
    and k: "k < 1024" and f: "freed pt s ps k t"
  shows "wp (let a = pt + 4 * of_nat k in
       bind (ld32 a) (\<lambda>pte.
       if pte AND PTE_V \<noteq> 0 \<and> pte AND (PTE_R OR PTE_W OR PTE_X) = 0
       then bind (freewalk_depth (Suc d) (PTE2PA pte)) (\<lambda>_. st32 a 0)
       else if pte AND PTE_V \<noteq> 0 then panic ''freewalk: leaf''
       else ret ())) P t (\<lambda>_. freed pt s ps (Suc k))"
proof -
  let ?x = "of_nat k :: u32"
  let ?e = "entry (mem s) pt ?x"
  have x: "?x < 1024" "unat ?x = k" using of_nat_1024 [OF k] by auto
  have e: "load32 (mem t) (pt + 4 * ?x) = ?e" using f x by (simp add: freed_def entry_def)
  have wf: "pt_wf (mem s) pt" and al: "page_aligned pt" using inv by (auto simp: vm_inv_def pt_wf_def)
  show ?thesis
  proof (cases "valid ?e")
    case False
    then have "?e AND PTE_V = 0" by (simp add: valid_def)
    moreover have "freed pt s ps (Suc k) t"
      using f False by (auto simp: freed_def children_Suc [OF k])
    ultimately show ?thesis by (simp add: Let_def wp_iff e ret_def)
  next
    case True
    let ?c = "PTE2PA ?e"
    obtain qs where qs: "pool t qs" "set qs = set ps \<union> children (mem s) pt k"
      using f by (auto simp: freed_def)
    have c: "?c \<noteq> pt" "?e AND (PTE_R OR PTE_W OR PTE_X) = 0" "?c \<in> pt_pages (mem s) pt"
      using wf True x(1) by (auto simp: pt_wf_def entry_page_in)
    have cnew: "?c \<notin> children (mem s) pt k"
    proof
      assume "?c \<in> children (mem s) pt k"
      then obtain y where "?c = PTE2PA (entry (mem s) pt y)" "unat y < k" "valid (entry (mem s) pt y)"
        by (auto simp: children_def)
      moreover then have "y \<noteq> ?x" "y < 1024" using x k by (auto simp: less_1024)
      ultimately show False using wf True x(1) by (metis pt_wf_def)
    qed
    have kend: "kend t = kend s" using f by (simp add: freed_def vm_frameD)
    have cq: "page_ok (kend t) ?c" "?c \<notin> set qs"
      using inv c(3) cnew qs(2) kend by (auto simp: vm_inv_def)
    have "\<not> valid (entry (mem t) ?c y)" if y: "y < 1024" for y
    proof -
      have "entry (mem t) ?c y = entry (mem s) ?c y"
        using f c(1) cnew y by (intro entry_cong) (auto simp: freed_def)
      moreover obtain va where "PX (Suc 0) va = ?x" "PX 0 va = y" using PX_surj [OF x(1) y] by blast
      ultimately show ?thesis using empty [of va] True by (simp add: leaf_def Let_def)
    qed
    note fw = freewalk_empty [OF this, of d P]
    define u where "u = (settle t)\<lparr>mem := store32 (mem t) ?c (kmem_freelist t), kmem_freelist := ?c\<rparr>"
    have kf: "kfree ?c P t = Ret () u" unfolding u_def using qs(1) cq(1) by (simp add: pool_def kfree_eq)
    define v where "v = u\<lparr>mem := store32 (mem u) (pt + 4 * ?x) 0\<rparr>"
    have ux: "mem u a = mem t a" if "PGROUNDDOWN a \<noteq> ?c" for a
      using that by (simp add: u_def store32_other_page)
    have vx: "mem v a = mem u a" if "PGROUNDDOWN a \<noteq> pt" for a
      using that al x k by (simp add: v_def store32_other_page entry_aligned entry_offset(2))
    have "pool u (?c # qs)" using qs(1) cq free_list_push [of t qs ?c] by (simp add: pool_def u_def)
    moreover have "pt \<notin> set (?c # qs)"
      using inv c(1) qs(2) wf by (auto simp: vm_inv_def pt_pages_def children_def pt_wf_def less_1024) (metis k less_1024 order.strict_trans)
    ultimately have "pool v (?c # qs)"
      unfolding v_def by (intro pool_mem) (assumption, metis vx [unfolded v_def, simplified])
    moreover have "vm_frame s v"
      using f by (simp add: freed_def v_def u_def vm_frame_mem vm_frame_freelist vm_frame_settle)
    moreover have "entry (mem v) pt y = entry (mem s) pt y" if "y < 1024" "Suc k \<le> unat y" for y
    proof -
      have "y \<noteq> ?x" using that x by auto
      then have "entry (mem v) pt y = entry (mem u) pt y" using al that x by (simp add: v_def entry_store)
      also have "\<dots> = entry (mem t) pt y" using al that ux c(1) by (intro entry_cong) auto
      finally show ?thesis using f that by (simp add: freed_def)
    qed
    moreover have "mem v a = mem s a"
      if "PGROUNDDOWN a \<noteq> pt" "PGROUNDDOWN a \<notin> children (mem s) pt (Suc k)" for a
      using that ux vx f True by (auto simp: children_Suc [OF k] freed_def)
    moreover have "set (?c # qs) = set ps \<union> children (mem s) pt (Suc k)"
      using qs(2) True by (auto simp: children_Suc [OF k])
    ultimately have "freed pt s ps (Suc k) v" unfolding freed_def by blast
    moreover have "?e AND PTE_V \<noteq> 0" using True by (simp add: valid_def)
    ultimately show ?thesis
      using c(2) fw kf by (simp add: Let_def wp_iff e v_def [symmetric] del: freewalk_depth.simps)
  qed
qed

lemma freewalk_spec:
  assumes inv: "vm_inv s pt ps" and empty: "\<And>va. \<not> valid (leaf (mem s) pt va)"
  shows "wp (freewalk pt) P s (\<lambda>_ t. vm_frame s t \<and>
    (\<exists>qs. pool t qs \<and> set qs = set ps \<union> pt_pages (mem s) pt)
    \<and> (\<forall>x. PGROUNDDOWN x \<notin> pt_pages (mem s) pt \<longrightarrow> mem t x = mem s x))"
proof -
  let ?body = "\<lambda>i. let a = pt + 4 * of_nat i in
       bind (ld32 a) (\<lambda>pte.
       if pte AND PTE_V \<noteq> 0 \<and> pte AND (PTE_R OR PTE_W OR PTE_X) = 0
       then bind (freewalk_depth (Suc 1048576) (PTE2PA pte)) (\<lambda>_. st32 a 0)
       else if pte AND PTE_V \<noteq> 0 then panic ''freewalk: leaf''
       else ret ())"
  have "wp (for_each [0..<1024] ?body) P s (\<lambda>_. freed pt s ps (length [0..<1024::nat]))"
  proof (rule wp_for_each [where I = "\<lambda>ys. freed pt s ps (length ys)"])
    show "freed pt s ps (length ([] :: nat list)) s"
      using inv by (auto simp: freed_def children_def vm_inv_def)
  next
    fix ys i zs t assume y: "[0..<1024] = ys @ i # zs" and f: "freed pt s ps (length ys) t"
    have i: "length ys < 1024" "i = length ys" using upt_split [OF y] by simp_all
    show "wp (?body i) P t (\<lambda>_. freed pt s ps (length (ys @ [i])))"
      using freed_step [OF inv empty i(1) f, of 1048576 P] i(2) by simp
  qed
  then have "wp (for_each [0..<1024] ?body) P s (\<lambda>_ t. wp (kfree pt) P t (\<lambda>_ t. vm_frame s t \<and>
    (\<exists>qs. pool t qs \<and> set qs = set ps \<union> pt_pages (mem s) pt)
    \<and> (\<forall>x. PGROUNDDOWN x \<notin> pt_pages (mem s) pt \<longrightarrow> mem t x = mem s x)))"
  proof (rule wp_mono)
    fix u t assume "freed pt s ps (length [0..<1024::nat]) t"
    then have f: "freed pt s ps 1024 t" by simp
    then obtain qs where qs: "pool t qs" "set qs = set ps \<union> children (mem s) pt 1024"
      by (auto simp: freed_def)
    have "pt \<notin> children (mem s) pt 1024" using inv by (auto simp: vm_inv_def pt_wf_def children_def less_1024)
    moreover have "pt \<in> pt_pages (mem s) pt" by (simp add: pt_pages_def)
    moreover have "kend t = kend s" using f by (simp add: freed_def vm_frameD)
    ultimately have p: "page_ok (kend t) pt" "pt \<notin> set qs" using inv qs(2) by (auto simp: vm_inv_def)
    define v where "v = (settle t)\<lparr>mem := store32 (mem t) pt (kmem_freelist t), kmem_freelist := pt\<rparr>"
    have "kfree pt P t = Ret () v" using qs(1) p(1) by (simp add: pool_def kfree_eq v_def)
    moreover have "pool v (pt # qs)" using qs(1) p free_list_push [of t qs pt] by (simp add: pool_def v_def)
    moreover have "vm_frame s v"
      using f by (simp add: freed_def v_def vm_frame_mem vm_frame_freelist vm_frame_settle)
    moreover have "mem v x = mem s x" if "PGROUNDDOWN x \<notin> pt_pages (mem s) pt" for x
      using that f p(1) by (simp add: children_all v_def freed_def store32_other_page)
    ultimately show "wp (kfree pt) P t (\<lambda>_ t. vm_frame s t \<and>
      (\<exists>qs. pool t qs \<and> set qs = set ps \<union> pt_pages (mem s) pt)
      \<and> (\<forall>x. PGROUNDDOWN x \<notin> pt_pages (mem s) pt \<longrightarrow> mem t x = mem s x))"
      using qs(2) children_all by (auto simp: wp_iff intro!: exI [of _ "pt # qs"])
  qed
  then show ?thesis by (simp only: freewalk_def all_pages_def freewalk_depth.simps(2) [of "Suc 1048576"] wp_bind)
qed

end
