(* ===== verification/UserSpace.thy ===== *)
theory UserSpace
  imports UserMem
begin

text \<open>
  The contracts of the operations on user memory as a whole: freeing an address space gives
  back every page it had, growing it adds fresh zeroed pages or undoes itself, copying it gives
  the child equal contents in pages of its own.
\<close>

lemma uvmfree_spec:
  assumes o: "owns s pt D ps" and sz: "unat sz \<le> 2147483648"
    and below: "\<And>va. valid (leaf (mem s) pt va) \<Longrightarrow> unat va < 4096 * npg sz"
    and d: "\<And>va. page_aligned va \<Longrightarrow> unat va < 4096 * npg sz \<Longrightarrow> D va"
  shows "wp (uvmfree pt sz) P s (\<lambda>_ t. vm_frame s t \<and>
    (\<exists>qs. pool t qs \<and> set qs = set ps \<union> range_pages (mem s) pt 0 (npg sz) \<union> pt_pages (mem s) pt) \<and>
    (\<forall>x. PGROUNDDOWN x \<notin> range_pages (mem s) pt 0 (npg sz) \<union> pt_pages (mem s) pt \<longrightarrow> mem t x = mem s x))"
    (is "wp _ _ _ ?Q")
proof -
  have step: "wp (freewalk pt) P t ?Q" if "unmapped pt 0 (npg sz) True s ps t qs" for t qs
  proof -
    have inv: "vm_inv t pt qs" using that by (simp add: unmapped_def)
    have empty: "\<not> valid (leaf (mem t) pt va)" for va
      using that below [of va] by (auto simp: unmapped_def clear_range_def)
    have fr: "vm_frame s t" "pt_pages (mem t) pt = pt_pages (mem s) pt"
      "set qs = set ps \<union> range_pages (mem s) pt 0 (npg sz)"
      using that by (simp_all add: unmapped_def)
    have out: "mem t x = mem s x"
      if "PGROUNDDOWN x \<notin> range_pages (mem s) pt 0 (npg sz)" "PGROUNDDOWN x \<notin> pt_pages (mem s) pt" for x
      using \<open>unmapped pt 0 (npg sz) True s ps t qs\<close> that by (simp add: unmapped_def)
    show ?thesis
      by (rule wp_mono [OF freewalk_spec [OF inv empty]])
        (use fr out vm_frame_trans in \<open>auto simp: Un_assoc\<close>)
  qed
  show ?thesis
  proof (cases "sz = 0")
    case True
    then have "unmapped pt 0 (npg sz) True s ps s ps"
      using unmapped_refl [OF owns_vm_inv [OF o]] by (simp add: npg_def)
    with step show ?thesis using True by (simp add: uvmfree_def)
  next
    case False
    have n: "PGROUNDUP sz div PGSIZE = of_nat (npg sz)"
    proof -
      have "unat (PGROUNDUP sz div PGSIZE) = npg sz"
        using unat_PGROUNDUP_npg [OF sz] by (simp add: unat_div_distrib PGSIZE_def)
      then show ?thesis by (metis of_nat_unat_u32)
    qed
    have "range_ok 0 (npg sz)" using npg_le [OF sz] by (simp add: range_ok_def unat_page_aligned)
    then have "wp (uvmunmap pt 0 (of_nat (npg sz)) True) P s
        (\<lambda>_ t. \<exists>qs. unmapped pt 0 (npg sz) True s ps t qs \<and> owns t pt D qs)"
      by (rule uvmunmap_spec [OF o]) (use d in auto)
    then have "wp (uvmunmap pt 0 (of_nat (npg sz)) True) P s (\<lambda>_ t. wp (freewalk pt) P t ?Q)"
      by (rule wp_mono) (use step in blast)
    moreover have "0 < sz" using False by (simp add: word_neq_0_conv [symmetric])
    ultimately show ?thesis by (simp add: uvmfree_def wp_rules n)
  qed
qed

section \<open>Fresh pages\<close>

lemma vm_inv_mem:
  assumes inv: "vm_inv s pt ps" and m: "\<And>x. PGROUNDDOWN x \<in> set ps \<union> pt_pages (mem s) pt \<Longrightarrow> m x = mem s x"
  shows "vm_inv (s\<lparr>mem := m\<rparr>) pt ps" "leaf m pt = leaf (mem s) pt" "pt_pages m pt = pt_pages (mem s) pt"
proof -
  have al: "page_aligned pt" using inv by (rule vm_inv_aligned)
  note c = pt_cong [OF al, of "mem s" m]
  show "leaf m pt = leaf (mem s) pt" "pt_pages m pt = pt_pages (mem s) pt" using c m by auto
  have "pool (s\<lparr>mem := m\<rparr>) ps" using inv m by (intro pool_mem) (auto simp: vm_inv_def)
  moreover have "pt_wf m pt" using c(3) m inv by (auto simp: vm_inv_def)
  ultimately show "vm_inv (s\<lparr>mem := m\<rparr>) pt ps"
    using inv \<open>pt_pages m pt = _\<close> by (simp add: vm_inv_def)
qed

text \<open>Taking a page from the allocator.\<close>

definition taken :: "u32 \<Rightarrow> 'a kmem_scheme \<Rightarrow> 'a kmem_scheme" where
  "taken p s = (settle s)\<lparr>kmem_freelist := load32 (mem s) p\<rparr>"

lemma mem_taken [simp]: "mem (taken p s) = mem s" "kend (taken p s) = kend s"
  by (simp_all add: taken_def)

lemma take_page:
  assumes o: "owns s pt D (p # ps)"
  shows "kalloc P s = Ret p (taken p s)" "owns (taken p s) pt D ps" "vm_frame s (taken p s)"
    "p \<notin> set ps" "p \<notin> pt_pages (mem s) pt" "page_ok (kend s) p" "p \<noteq> 0"
    "D va \<Longrightarrow> page_aligned va \<Longrightarrow> valid (leaf (mem s) pt va) \<Longrightarrow> data_page (mem s) pt va \<noteq> p"
proof -
  have pl: "pool s (p # ps)" using o by (simp add: owns_def vm_inv_def)
  show "kalloc P s = Ret p (taken p s)" for P
    using pl kalloc_page(1) [of s p ps P] by (simp add: pool_def taken_def)
  have "pool (taken p s) ps" using pl kalloc_page(2) [of s p ps] by (simp add: pool_def taken_def)
  then show "owns (taken p s) pt D ps" using o by (auto simp: owns_def vm_inv_def)
  show "vm_frame s (taken p s)" by (simp add: taken_def vm_frame_def)
  show "p \<notin> set ps" "page_ok (kend s) p" "p \<noteq> 0"
    using ka.pool_managed [OF pl, of p] ka.pool_distinct [OF pl] by auto
  show "p \<notin> pt_pages (mem s) pt" using o by (auto simp: owns_def vm_inv_def)
  show "data_page (mem s) pt va \<noteq> p" if "D va" "page_aligned va" "valid (leaf (mem s) pt va)"
    using o that by (auto simp: owns_def)
qed

lemma owns_mem:
  assumes o: "owns s pt D ps" and m: "\<And>x. PGROUNDDOWN x \<in> set ps \<union> pt_pages (mem s) pt \<Longrightarrow> m x = mem s x"
  shows "owns (s\<lparr>mem := m\<rparr>) pt D ps"
  using vm_inv_mem [of s pt ps m] o m by (simp add: owns_def data_page_def)

text \<open>Mapping an unmapped address to a page of its own.\<close>

lemma map_fresh:
  assumes o: "owns s pt D ps" and p: "page_ok (kend s) p" "p \<notin> set ps" "p \<notin> pt_pages (mem s) pt"
    "\<And>vb. D vb \<Longrightarrow> page_aligned vb \<Longrightarrow> valid (leaf (mem s) pt vb) \<Longrightarrow> data_page (mem s) pt vb \<noteq> p"
    and va: "page_aligned va" "unat va + 4096 \<le> 2147483648" "\<not> valid (leaf (mem s) pt va)"
    and perm: "unat perm < 4096"
  shows "wp (mappages pt va PGSIZE p perm) P s (\<lambda>r t. \<exists>qs. grows pt s ps t qs \<and> owns t pt D qs \<and>
    (r = 0 \<and> leaf (mem t) pt = map_range va (Suc 0) p perm (leaf (mem s) pt) \<or>
     r = -1 \<and> leaf (mem t) pt = leaf (mem s) pt \<and> qs = []))"
proof (rule wp_mono [OF mappages_page [OF owns_vm_inv [OF o] va]])
  fix r t assume "mapped pt va (Suc 0) p perm s ps r t"
  then obtain qs where g: "grows pt s ps t qs"
    and c: "r = 0 \<and> leaf (mem t) pt = map_range va (Suc 0) p perm (leaf (mem s) pt) \<or>
     r = -1 \<and> leaf (mem t) pt = leaf (mem s) pt \<and> qs = []"
    by (auto simp: mapped_def)
  have inv: "vm_inv t pt qs" and kend: "kend t = kend s" using g by (auto simp: grows_def vm_frameD)
  obtain us where us: "ps = us @ qs" "pt_pages (mem t) pt = pt_pages (mem s) pt \<union> set us"
    using g by (auto simp: grows_def)
  have sub: "set qs \<subseteq> set ps" "pt_pages (mem t) pt \<subseteq> pt_pages (mem s) pt \<union> set ps" using us by auto
  have "unat (perm OR PTE_V) < 4096" using perm by (simp add: flags_or)
  from pte_make(1) [OF page_ok_aligned [OF p(1)] this]
  have pte: "PTE2PA (PA2PTE p OR perm OR PTE_V) = p" by simp
  have new: "vb = va \<and> data_page (mem t) pt vb = p \<or> leaf (mem t) pt vb = leaf (mem s) pt vb"
    if "page_aligned vb" for vb
    using c that va(1) pte by (auto simp: data_page_def map_range_1 split: if_splits)
  have old: "page_ok (kend s) (data_page (mem s) pt vb) \<and> data_page (mem s) pt vb \<notin> set ps
      \<and> data_page (mem s) pt vb \<notin> pt_pages (mem s) pt \<and> data_page (mem s) pt vb \<noteq> p
      \<and> (\<forall>vc. D vc \<and> page_aligned vc \<and> valid (leaf (mem s) pt vc) \<and> vb \<noteq> vc \<longrightarrow>
           data_page (mem s) pt vb \<noteq> data_page (mem s) pt vc)"
    if "D vb" "page_aligned vb" "valid (leaf (mem s) pt vb)" for vb
    using o p(4) that unfolding owns_def by blast
  have "owns t pt D qs"
    unfolding owns_def kend
  proof (intro conjI allI impI; (elim conjE)?)
    fix vb assume vb: "D vb" "page_aligned vb" "valid (leaf (mem t) pt vb)"
    have cases: "data_page (mem t) pt vb = p \<or>
        data_page (mem t) pt vb = data_page (mem s) pt vb \<and> valid (leaf (mem s) pt vb)"
      using new [OF vb(2)] vb(3) by (auto simp: data_page_def)
    show "page_ok (kend s) (data_page (mem t) pt vb)" "data_page (mem t) pt vb \<notin> set qs"
      "data_page (mem t) pt vb \<notin> pt_pages (mem t) pt"
      using cases old [OF vb(1,2)] p(1-3) sub by auto
    fix vc assume vc: "D vc" "page_aligned vc" "valid (leaf (mem t) pt vc)" "vb \<noteq> vc"
    show "data_page (mem t) pt vb \<noteq> data_page (mem t) pt vc"
      using new [OF vb(2)] new [OF vc(2)] old [OF vb(1,2)] old [OF vc(1,2)] vb vc
      by (auto simp: data_page_def)
  qed (rule inv)
  with g c show "\<exists>qs. grows pt s ps t qs \<and> owns t pt D qs \<and>
    (r = 0 \<and> leaf (mem t) pt = map_range va (Suc 0) p perm (leaf (mem s) pt) \<or>
     r = -1 \<and> leaf (mem t) pt = leaf (mem s) pt \<and> qs = [])" by blast
qed

lemma owns_kfree:
  assumes o: "owns s pt D ps" and p: "page_ok (kend s) p" "p \<notin> set ps" "p \<notin> pt_pages (mem s) pt"
    "\<And>vb. D vb \<Longrightarrow> page_aligned vb \<Longrightarrow> valid (leaf (mem s) pt vb) \<Longrightarrow> data_page (mem s) pt vb \<noteq> p"
  shows "wp (kfree p) P s (\<lambda>_ t. owns t pt D (p # ps) \<and> vm_frame s t \<and> leaf (mem t) pt = leaf (mem s) pt
    \<and> pt_pages (mem t) pt = pt_pages (mem s) pt \<and> (\<forall>x. PGROUNDDOWN x \<noteq> p \<longrightarrow> mem t x = mem s x))"
proof -
  let ?t = "(settle s)\<lparr>mem := store32 (mem s) p (kmem_freelist s), kmem_freelist := p\<rparr>"
  note k = vm_inv_kfree [OF owns_vm_inv [OF o] p(1-3)]
  have dp: "data_page (mem ?t) pt = data_page (mem s) pt" using k(3) by (simp add: data_page_def fun_eq_iff)
  have "owns ?t pt D (p # ps)"
    using o p(4) k(2) unfolding owns_def k(3,4) dp by auto
  moreover have "vm_frame s ?t" by (simp add: vm_frame_def)
  ultimately show ?thesis using k(1) [of P] k(3,4,5) by (simp add: wp_iff)
qed

section \<open>\<open>uvmalloc\<close>\<close>

text \<open>What a page is to be mapped to: nothing, or a page with the given flags and contents.\<close>

type_synonym page_src = "(u32 \<times> (u32 \<Rightarrow> u8)) option"

definition fill_page :: "memory \<Rightarrow> u32 \<Rightarrow> (u32 \<Rightarrow> u8) \<Rightarrow> memory" where
  "fill_page m p c = (\<lambda>x. if PGROUNDDOWN x = p then c (x - p) else m x)"

lemma zero_page_fill: "page_aligned p \<Longrightarrow> zero_page m p = fill_page m p (\<lambda>_. 0)"
  by (rule ext) (simp add: zero_page_apply fill_page_def)

definition as_src :: "memory \<Rightarrow> u32 \<Rightarrow> u32 \<Rightarrow> page_src \<Rightarrow> bool" where
  "as_src m pt vb src = (case src of None \<Rightarrow> \<not> valid (leaf m pt vb)
     | Some (fl, c) \<Rightarrow> valid (leaf m pt vb) \<and> PTE_FLAGS (leaf m pt vb) = fl
         \<and> (\<forall>x. PGROUNDDOWN x = data_page m pt vb \<longrightarrow> m x = c (x - data_page m pt vb)))"

lemma as_src_cong:
  assumes "leaf n pt vb = leaf m pt vb"
    "\<And>x. valid (leaf m pt vb) \<Longrightarrow> PGROUNDDOWN x = data_page m pt vb \<Longrightarrow> n x = m x"
  shows "as_src n pt vb src = as_src m pt vb src"
  using assms by (auto simp: as_src_def data_page_def split: option.splits)

text \<open>The state after the \<open>k\<close> pages from \<open>b\<close> on have been handled: as \<open>src\<close> says, they map to pages
  taken from the free list with the given flags and contents, everything else is as in \<open>s\<close>, and no page is
  lost.\<close>

definition added :: "u32 \<Rightarrow> (u32 \<Rightarrow> bool) \<Rightarrow> u32 \<Rightarrow> (u32 \<Rightarrow> page_src) \<Rightarrow> 'a kmem_scheme \<Rightarrow> u32 list \<Rightarrow> nat \<Rightarrow> 'a kmem_scheme \<Rightarrow> u32 list \<Rightarrow> bool" where
  "added pt D b src s ps k t qs \<longleftrightarrow> owns t pt D qs \<and> vm_frame s t
     \<and> set qs \<union> pt_pages (mem t) pt \<union> range_pages (mem t) pt b k = set ps \<union> pt_pages (mem s) pt
     \<and> (\<forall>vb. \<not> unat (vb - b) < 4096 * k \<longrightarrow> leaf (mem t) pt vb = leaf (mem s) pt vb)
     \<and> (\<forall>vb. page_aligned vb \<and> unat (vb - b) < 4096 * k \<longrightarrow> as_src (mem t) pt vb (src vb))
     \<and> (\<forall>x. PGROUNDDOWN x \<notin> set ps \<union> pt_pages (mem s) pt \<longrightarrow> mem t x = mem s x)"

lemma range_pages_grow:
  assumes "4096 * Suc k \<le> 4294967296" "page_aligned (b + of_nat k * PGSIZE)"
    and v: "valid (leaf m' pt (b + of_nat k * PGSIZE))"
    and old: "\<And>vb. page_aligned vb \<Longrightarrow> unat (vb - b) < 4096 * k \<Longrightarrow> leaf m' pt vb = leaf m pt vb"
  shows "range_pages m' pt b (Suc k) =
    insert (data_page m' pt (b + of_nat k * PGSIZE)) (range_pages m pt b k)"
proof -
  let ?a = "b + of_nat k * PGSIZE"
  have a: "unat (vb - b) < 4096 * Suc k \<longleftrightarrow> unat (vb - b) < 4096 * k \<or> vb = ?a" if "page_aligned vb" for vb
    using range_index [OF assms(1), of vb b] range_index [OF assms(1), of ?a b] in_page_iff [OF assms(2), of vb]
      that by auto
  show ?thesis
  proof (intro set_eqI iffI)
    fix p assume "p \<in> range_pages m' pt b (Suc k)"
    then obtain vb where vb: "page_aligned vb" "unat (vb - b) < 4096 * Suc k" "valid (leaf m' pt vb)"
      "p = data_page m' pt vb" by (auto simp: range_pages_def)
    show "p \<in> insert (data_page m' pt ?a) (range_pages m pt b k)"
    proof (cases "vb = ?a")
      case False
      then have "unat (vb - b) < 4096 * k" using a vb by blast
      with vb old [of vb] show ?thesis by (auto simp: range_pages_def data_page_def)
    qed (use vb in simp)
  next
    fix p assume "p \<in> insert (data_page m' pt ?a) (range_pages m pt b k)"
    then show "p \<in> range_pages m' pt b (Suc k)"
    proof
      assume "p = data_page m' pt ?a"
      then show ?thesis using v assms(2) a [OF assms(2)] by (auto simp: range_pages_def)
    next
      assume "p \<in> range_pages m pt b k"
      then obtain vb where vb: "page_aligned vb" "unat (vb - b) < 4096 * k" "valid (leaf m pt vb)"
        "p = data_page m pt vb" by (auto simp: range_pages_def)
      then show ?thesis using old [OF vb(1,2)] a [OF vb(1)]
        by (auto simp: range_pages_def data_page_def intro!: exI [of _ vb])
    qed
  qed
qed

text \<open>One more page: the taken and filled page \<open>p\<close> has been mapped at the next address.\<close>

lemma fill_inv:
  assumes o: "owns t pt D (p # qs)"
  shows "owns ((taken p t)\<lparr>mem := fill_page (mem t) p c\<rparr>) pt D qs"
    "leaf (fill_page (mem t) p c) pt = leaf (mem t) pt"
    "pt_pages (fill_page (mem t) p c) pt = pt_pages (mem t) pt"
proof -
  note tp = take_page [OF o]
  have same: "fill_page (mem t) p c x = mem (taken p t) x"
    if "PGROUNDDOWN x \<in> set qs \<union> pt_pages (mem (taken p t)) pt" for x
    using that tp(4,5) by (auto simp: fill_page_def)
  note vi = vm_inv_mem [OF owns_vm_inv [OF tp(2)], OF same]
  show "owns ((taken p t)\<lparr>mem := fill_page (mem t) p c\<rparr>) pt D qs" by (rule owns_mem [OF tp(2) same])
  show "leaf (fill_page (mem t) p c) pt = leaf (mem t) pt"
    "pt_pages (fill_page (mem t) p c) pt = pt_pages (mem t) pt" using vi(2,3) by simp_all
qed

lemma added_frame_fill:
  assumes "added pt D b src s ps k t (p # qs)" "grows pt ((taken p t)\<lparr>mem := m\<rparr>) qs u rs"
  shows "vm_frame s u" "kend u = kend t"
proof -
  have o: "owns t pt D (p # qs)" and st: "vm_frame s t" using assms(1) by (simp_all add: added_def)
  have "vm_frame s ((taken p t)\<lparr>mem := m\<rparr>)"
    using vm_frame_trans [OF st take_page(3) [OF o]] by (rule vm_frame_mem)
  then show su: "vm_frame s u" using assms(2) vm_frame_trans by (auto simp: grows_def)
  show "kend u = kend t" using vm_frameD(1) [OF su] vm_frameD(1) [OF st] by simp
qed

lemma added_Suc:
  fixes p :: u32
  assumes t: "added pt D b src s ps k t (p # qs)" and size: "4096 * Suc k \<le> 4294967296"
    and a: "a = b + of_nat k * PGSIZE" "page_aligned a" and perm: "unat perm < 4096"
    and src: "src a = Some (perm OR PTE_V, c)"
    and D: "\<And>vb. page_aligned vb \<Longrightarrow> unat (vb - b) < 4096 * k \<Longrightarrow> D vb"
    and u: "grows pt ((taken p t)\<lparr>mem := fill_page (mem t) p c\<rparr>) qs u rs" "owns u pt D rs"
      "leaf (mem u) pt = map_range a (Suc 0) p perm (leaf (mem t) pt)"
  shows "added pt D b src s ps (Suc k) u rs"
proof -
  have o: "owns t pt D (p # qs)" using t by (simp add: added_def)
  note tp = take_page [OF o]
  have pa: "page_aligned p" using tp(6) by simp
  obtain us where us: "qs = us @ rs" "pt_pages (mem u) pt = pt_pages (mem t) pt \<union> set us"
    using u(1) fill_inv(3) [OF o, of c] by (auto simp: grows_def)
  have mu: "mem u x = fill_page (mem t) p c x" if "PGROUNDDOWN x \<notin> pt_pages (mem u) pt" for x
    using u(1) that by (auto simp: grows_def)
  have "unat (perm OR PTE_V) < 4096" using perm by (simp add: flags_or)
  note pm = pte_make(1,2) [OF pa this]
  have idx: "unat (vb - a) < 4096 \<longleftrightarrow> 4096 * k \<le> unat (vb - b) \<and> unat (vb - b) < 4096 * Suc k" for vb
    unfolding a(1) by (rule range_index [OF size])
  have leaf_u: "leaf (mem u) pt vb = (if unat (vb - a) < 4096 then PA2PTE p OR perm OR PTE_V else leaf (mem t) pt vb)" for vb
    using in_page_iff [OF a(2), of vb] a(2) unfolding u(3) by (simp add: map_range_1)
  have at_a: "leaf (mem u) pt a = PA2PTE p OR perm OR PTE_V" by (simp add: leaf_u)
  then have va: "valid (leaf (mem u) pt a)" "data_page (mem u) pt a = p"
    using pm by (simp_all add: data_page_def)
  have old: "leaf (mem u) pt vb = leaf (mem t) pt vb" if "unat (vb - b) < 4096 * k" for vb
    using that idx [of vb] by (simp add: leaf_u)
  have rp: "range_pages (mem u) pt b (Suc k) = insert p (range_pages (mem t) pt b k)"
    using range_pages_grow [OF size, of b "mem u" pt "mem t"] a va old by auto
  have "set rs \<union> pt_pages (mem u) pt \<union> range_pages (mem u) pt b (Suc k) = set ps \<union> pt_pages (mem s) pt"
    using t us unfolding rp by (auto simp: added_def)
  moreover have "vm_frame s u" using added_frame_fill [OF t u(1)] by simp
  moreover have "leaf (mem u) pt vb = leaf (mem s) pt vb" if "\<not> unat (vb - b) < 4096 * Suc k" for vb
    using that idx [of vb] t by (simp add: leaf_u added_def)
  moreover have "as_src (mem u) pt vb (src vb)"
    if vb: "page_aligned vb" "unat (vb - b) < 4096 * Suc k" for vb
  proof (cases "unat (vb - b) < 4096 * k")
    case True
    have same: "mem u x = mem t x" if "valid (leaf (mem t) pt vb)" "PGROUNDDOWN x = data_page (mem t) pt vb" for x
    proof -
      have "data_page (mem t) pt vb \<notin> set (p # qs)" "data_page (mem t) pt vb \<notin> pt_pages (mem t) pt"
        using o D [OF vb(1) True] vb(1) that(1) by (auto simp: owns_def)
      then have "PGROUNDDOWN x \<notin> pt_pages (mem u) pt" "PGROUNDDOWN x \<noteq> p" using that(2) us by auto
      then show ?thesis by (simp add: mu fill_page_def)
    qed
    have "as_src (mem t) pt vb (src vb)" using t vb(1) True by (simp add: added_def)
    then show ?thesis using as_src_cong [OF old [OF True] same] by blast
  next
    case False
    then have "unat (vb - a) < 4096" using vb(2) idx [of vb] by simp
    then have "vb = a" using vb(1) a(2) in_page_iff [OF a(2), of vb] by simp
    moreover have "p \<notin> pt_pages (mem u) pt" using us tp(4,5) by auto
    ultimately show ?thesis using va pm(2) at_a mu src by (simp add: fill_page_def as_src_def)
  qed
  moreover have "mem u x = mem s x" if "PGROUNDDOWN x \<notin> set ps \<union> pt_pages (mem s) pt" for x
  proof -
    have sub: "set (p # qs) \<union> pt_pages (mem t) pt \<subseteq> set ps \<union> pt_pages (mem s) pt"
      using t by (auto simp: added_def)
    have "PGROUNDDOWN x \<notin> pt_pages (mem u) pt" "PGROUNDDOWN x \<noteq> p" using that sub us by auto
    then show ?thesis using mu that t by (simp add: added_def fill_page_def)
  qed
  ultimately show ?thesis using u(2) by (auto simp only: added_def)
qed

text \<open>Nothing visible has changed and no page is lost, although some free pages may now be
  second-level tables.\<close>

definition restored :: "u32 \<Rightarrow> (u32 \<Rightarrow> bool) \<Rightarrow> 'a kmem_scheme \<Rightarrow> u32 list \<Rightarrow> 'a kmem_scheme \<Rightarrow> bool" where
  "restored pt D s ps t \<longleftrightarrow> vm_frame s t \<and>
     (\<exists>qs. owns t pt D qs \<and> set qs \<union> pt_pages (mem t) pt = set ps \<union> pt_pages (mem s) pt)
     \<and> (\<forall>vb. leaf (mem t) pt vb = leaf (mem s) pt vb \<or>
          \<not> valid (leaf (mem t) pt vb) \<and> \<not> valid (leaf (mem s) pt vb))
     \<and> (\<forall>x. PGROUNDDOWN x \<notin> set ps \<union> pt_pages (mem s) pt \<longrightarrow> mem t x = mem s x)"

lemma added_unmapped:
  assumes t: "added pt D b src s ps k t qs" and u: "unmapped pt b k True t qs u rs" "owns u pt D rs"
    and nv: "\<And>vb. unat (vb - b) < 4096 * k \<Longrightarrow> \<not> valid (leaf (mem s) pt vb)"
  shows "restored pt D s ps u"
proof -
  have "range_pages (mem t) pt b k \<union> (set qs \<union> pt_pages (mem t) pt) = set ps \<union> pt_pages (mem s) pt"
    using t by (auto simp: added_def)
  then have cons: "set rs \<union> pt_pages (mem u) pt = set ps \<union> pt_pages (mem s) pt"
    "range_pages (mem t) pt b k \<union> pt_pages (mem t) pt \<subseteq> set ps \<union> pt_pages (mem s) pt"
    using u(1) by (auto simp: unmapped_def)
  have "vm_frame s u" using t u(1) vm_frame_trans by (auto simp: added_def unmapped_def)
  moreover have "leaf (mem u) pt vb = leaf (mem s) pt vb \<or>
        \<not> valid (leaf (mem u) pt vb) \<and> \<not> valid (leaf (mem s) pt vb)" for vb
    using u(1) t nv [of vb] by (auto simp: unmapped_def added_def clear_range_def)
  moreover have "mem u x = mem s x" if "PGROUNDDOWN x \<notin> set ps \<union> pt_pages (mem s) pt" for x
  proof -
    have "mem t x = mem s x" using t that by (simp add: added_def)
    moreover have "PGROUNDDOWN x \<notin> range_pages (mem t) pt b k" "PGROUNDDOWN x \<notin> pt_pages (mem t) pt"
      using that cons(2) by auto
    ultimately show ?thesis using u(1) by (simp add: unmapped_def)
  qed
  ultimately show ?thesis using u(2) cons(1) unfolding restored_def by blast
qed

lemma added_undo:
  assumes t: "added pt D b src s ps k t qs" and b: "page_aligned b" "a = b + of_nat k * PGSIZE"
    "unat a = unat b + 4096 * k" "unat a \<le> 2147483648"
    and D: "\<And>vb. page_aligned vb \<Longrightarrow> unat (vb - b) < 4096 * k \<Longrightarrow> D vb"
    and nv: "\<And>vb. unat (vb - b) < 4096 * k \<Longrightarrow> \<not> valid (leaf (mem s) pt vb)"
  shows "wp (uvmdealloc pt a b) P t (\<lambda>_. restored pt D s ps)"
proof (cases "k = 0")
  case True
  have o: "owns t pt D qs" using t by (simp add: added_def)
  then have "restored pt D s ps t"
    using added_unmapped [OF t _ o nv] True unmapped_refl [OF owns_vm_inv [OF o]] by auto
  then show ?thesis using True b(2) by (simp add: uvmdealloc_def wp_rules)
next
  case False
  have o: "owns t pt D qs" using t by (simp add: added_def)
  have lt: "b < a" using False b(3) by (simp add: word_less_nat_alt)
  obtain q where q: "unat b = 4096 * q" using b(1) by (auto simp: unat_page_aligned mod_eq_0_iff_dvd)
  have k: "npg a - npg b = k" using b(3) q by (simp add: npg_def)
  have r: "PGROUNDUP b = b"
    using unat_PGROUNDUP_npg [of b] b(3,4) q by (simp add: word_unat_eq_iff npg_def)
  have "wp (uvmdealloc pt a b) P t (\<lambda>r u. r = b \<and>
      (\<exists>rs. unmapped pt (PGROUNDUP b) (npg a - npg b) True t qs u rs \<and> owns u pt D rs))"
    by (rule uvmdealloc_spec [OF o lt b(4)]) (use D r k in auto)
  then show ?thesis
  proof (rule wp_mono)
    fix x u assume "x = b \<and> (\<exists>rs. unmapped pt (PGROUNDUP b) (npg a - npg b) True t qs u rs \<and> owns u pt D rs)"
    then obtain rs where u: "unmapped pt b k True t qs u rs" "owns u pt D rs" by (auto simp: r k)
    show "restored pt D s ps u" using nv by (rule added_unmapped [OF t u])
  qed
qed

lemma added_settle: "added pt D b src s ps k t qs \<Longrightarrow> added pt D b src s ps k (settle t) qs"
  by (simp add: added_def owns_def vm_inv_def pool_def vm_frame_settle)

text \<open>The state in which mapping the taken page \<open>p\<close> has failed and \<open>p\<close> has been given back.\<close>

lemma added_giveback:
  fixes p :: u32
  assumes t: "added pt D b src s ps k t (p # qs)"
    and D: "\<And>vb. page_aligned vb \<Longrightarrow> unat (vb - b) < 4096 * k \<Longrightarrow> D vb"
    and u: "grows pt ((taken p t)\<lparr>mem := fill_page (mem t) p c\<rparr>) qs u []" "owns u pt D []"
      "leaf (mem u) pt = leaf (mem t) pt"
  shows "wp (kfree p) P u (\<lambda>_ v. added pt D b src s ps k v [p])"
proof -
  have o: "owns t pt D (p # qs)" using t by (simp add: added_def)
  note tp = take_page [OF o]
  have pu: "pt_pages (mem u) pt = pt_pages (mem t) pt \<union> set qs"
    using u(1) fill_inv(3) [OF o, of c] by (auto simp: grows_def)
  note fr = added_frame_fill [OF t u(1)]
  have dp: "data_page (mem u) pt = data_page (mem t) pt" using u(3) by (simp add: data_page_def fun_eq_iff)
  have mu: "mem u x = fill_page (mem t) p c x" if "PGROUNDDOWN x \<notin> pt_pages (mem u) pt" for x
    using u(1) that by (auto simp: grows_def)
  have "wp (kfree p) P u (\<lambda>_ v. owns v pt D [p] \<and> vm_frame u v \<and> leaf (mem v) pt = leaf (mem u) pt
    \<and> pt_pages (mem v) pt = pt_pages (mem u) pt \<and> (\<forall>x. PGROUNDDOWN x \<noteq> p \<longrightarrow> mem v x = mem u x))"
    by (rule owns_kfree [OF u(2)]) (use tp(4-8) fr(2) pu dp u(3) in auto)
  then show ?thesis
  proof (rule wp_mono)
    fix x v assume v: "owns v pt D [p] \<and> vm_frame u v \<and> leaf (mem v) pt = leaf (mem u) pt
      \<and> pt_pages (mem v) pt = pt_pages (mem u) pt \<and> (\<forall>x. PGROUNDDOWN x \<noteq> p \<longrightarrow> mem v x = mem u x)"
    have l: "leaf (mem v) pt = leaf (mem t) pt" "data_page (mem v) pt = data_page (mem t) pt"
      using v u(3) by (simp_all add: data_page_def fun_eq_iff)
    have rp: "range_pages (mem v) pt b k = range_pages (mem t) pt b k" by (simp add: range_pages_def l)
    have same: "mem v x = mem t x"
      if "page_aligned vb" "unat (vb - b) < 4096 * k" "valid (leaf (mem t) pt vb)"
        "PGROUNDDOWN x = data_page (mem t) pt vb" for x vb
    proof -
      have "data_page (mem t) pt vb \<notin> set (p # qs) \<union> pt_pages (mem t) pt"
        using o D [OF that(1,2)] that(1,3) by (auto simp: owns_def)
      then have "PGROUNDDOWN x \<notin> pt_pages (mem u) pt" "PGROUNDDOWN x \<noteq> p" using that(4) pu by auto
      then show ?thesis using v by (simp add: mu fill_page_def)
    qed
    have "as_src (mem v) pt vb (src vb)"
      if vb: "page_aligned vb" "unat (vb - b) < 4096 * k" for vb
    proof -
      have "as_src (mem t) pt vb (src vb)" using t vb by (simp add: added_def)
      then show ?thesis using as_src_cong [OF fun_cong [OF l(1)] same [OF vb]] by blast
    qed
    moreover have "leaf (mem v) pt vb = leaf (mem s) pt vb" if "\<not> unat (vb - b) < 4096 * k" for vb
      using that t l(1) by (simp add: added_def)
    moreover have "mem v x = mem s x" if "PGROUNDDOWN x \<notin> set ps \<union> pt_pages (mem s) pt" for x
    proof -
      have "set (p # qs) \<union> pt_pages (mem t) pt \<subseteq> set ps \<union> pt_pages (mem s) pt" using t by (auto simp: added_def)
      then have "PGROUNDDOWN x \<noteq> p" "PGROUNDDOWN x \<notin> pt_pages (mem u) pt" using that pu by auto
      then show ?thesis using v mu t that by (simp add: added_def fill_page_def)
    qed
    moreover have "vm_frame s v" using fr(1) v vm_frame_trans by blast
    moreover have "set [p] \<union> pt_pages (mem v) pt \<union> range_pages (mem v) pt b k = set ps \<union> pt_pages (mem s) pt"
      using t v pu unfolding rp by (auto simp: added_def)
    ultimately show "added pt D b src s ps k v [p]"
      using v by (auto simp only: added_def)
  qed
qed

text \<open>Mapping the taken and filled page: it is added, or there was no page for a table and \<open>p\<close> can
  be given back.\<close>

lemma place_page:
  assumes t: "added pt D b src s ps k t (p # rs)" and size: "unat a + 4096 \<le> 2147483648"
    and b: "a = b + of_nat k * PGSIZE" "unat a = unat b + 4096 * k" "page_aligned a"
    and perm: "unat perm < 4096" and src: "src a = Some (perm OR PTE_V, c)"
    and D: "\<And>vb. page_aligned vb \<Longrightarrow> unat (vb - b) < 4096 * k \<Longrightarrow> D vb"
    and la: "\<not> valid (leaf (mem s) pt a)"
  shows "wp (mappages pt a PGSIZE p perm) P ((taken p t)\<lparr>mem := fill_page (mem t) p c\<rparr>) (\<lambda>r u.
    r = 0 \<and> (\<exists>qs. added pt D b src s ps (Suc k) u qs) \<or>
    r = -1 \<and> wp (kfree p) P u (\<lambda>_ v. added pt D b src s ps k v [p]))"
proof -
  let ?t2 = "(taken p t)\<lparr>mem := fill_page (mem t) p c\<rparr>"
  have o: "owns t pt D (p # rs)" using t by (simp add: added_def)
  note tp = take_page [OF o] and fi = fill_inv [OF o, of c]
  have sz: "4096 * Suc k \<le> 4294967296" using b(2) size by simp
  have "unat (a - b) = 4096 * k" using b(2) by (simp add: unat_diff)
  then have la': "\<not> valid (leaf (mem t) pt a)" using t la by (simp add: added_def)
  have "wp (mappages pt a PGSIZE p perm) P ?t2 (\<lambda>r u. \<exists>qs. grows pt ?t2 rs u qs \<and> owns u pt D qs \<and>
    (r = 0 \<and> leaf (mem u) pt = map_range a (Suc 0) p perm (leaf (mem ?t2) pt) \<or>
     r = -1 \<and> leaf (mem u) pt = leaf (mem ?t2) pt \<and> qs = []))"
  proof (rule map_fresh [OF fi(1)])
    show "data_page (mem ?t2) pt vb \<noteq> p" if "D vb" "page_aligned vb" "valid (leaf (mem ?t2) pt vb)" for vb
      using tp(8) [OF that(1,2)] that(3) by (simp add: data_page_def fi(2))
  qed (use tp(4-6) b(3) size la' fi perm in auto)
  then show ?thesis
  proof (rule wp_mono)
    fix r :: int and u assume "\<exists>qs. grows pt ?t2 rs u qs \<and> owns u pt D qs \<and>
      (r = 0 \<and> leaf (mem u) pt = map_range a (Suc 0) p perm (leaf (mem ?t2) pt) \<or>
       r = -1 \<and> leaf (mem u) pt = leaf (mem ?t2) pt \<and> qs = [])"
    then obtain ws where u: "grows pt ?t2 rs u ws" "owns u pt D ws"
      "r = 0 \<and> leaf (mem u) pt = map_range a (Suc 0) p perm (leaf (mem t) pt) \<or>
       r = -1 \<and> leaf (mem u) pt = leaf (mem t) pt \<and> ws = []"
      by (auto simp: fi(2))
    show "r = 0 \<and> (\<exists>qs. added pt D b src s ps (Suc k) u qs) \<or>
      r = -1 \<and> wp (kfree p) P u (\<lambda>_ v. added pt D b src s ps k v [p])"
    proof (cases "r = 0")
      case True
      then have "added pt D b src s ps (Suc k) u ws"
        using u by (intro added_Suc [OF t sz b(1,3) perm src D u(1,2)]) auto
      with True show ?thesis by blast
    next
      case False
      then have g: "grows pt ?t2 rs u []" "owns u pt D []" "leaf (mem u) pt = leaf (mem t) pt" "r = -1"
        using u by auto
      have "wp (kfree p) P u (\<lambda>_ v. added pt D b src s ps k v [p])"
        using D by (rule added_giveback [OF t _ g(1-3)])
      with g(4) show ?thesis by blast
    qed
  qed
qed

definition zeroed :: "u32 \<Rightarrow> u32 \<Rightarrow> page_src" where
  "zeroed xperm = (\<lambda>_. Some (PTE_R OR PTE_U OR xperm OR PTE_V, \<lambda>_. 0))"

lemma uvmalloc_page_spec:
  assumes t: "added pt D b (zeroed xperm) s ps k t qs"
    and b: "page_aligned b" "a = b + of_nat k * PGSIZE" "unat a = unat b + 4096 * k" "page_aligned a"
      "unat a + 4096 \<le> 2147483648"
    and x: "unat xperm < 4096"
    and D: "\<And>vb. page_aligned vb \<Longrightarrow> unat (vb - b) < 4096 * Suc k \<Longrightarrow> D vb"
    and nv: "\<And>vb. unat (vb - b) < 4096 * Suc k \<Longrightarrow> \<not> valid (leaf (mem s) pt vb)"
  shows "wp (uvmalloc_page pt b xperm a) P t (\<lambda>r u.
    r = None \<and> (\<exists>qs. added pt D b (zeroed xperm) s ps (Suc k) u qs) \<or> r = Some 0 \<and> restored pt D s ps u)"
    (is "wp _ _ _ ?Q")
proof -
  let ?perm = "PTE_R OR PTE_U OR xperm"
  have perm: "unat ?perm < 4096" using x by (simp add: flags_or)
  have src: "zeroed xperm a = Some (?perm OR PTE_V, \<lambda>_. 0)" by (simp add: zeroed_def or.assoc)
  have o: "owns t pt D qs" using t by (simp add: added_def)
  have D': "page_aligned vb \<Longrightarrow> unat (vb - b) < 4096 * k \<Longrightarrow> D vb" for vb using D [of vb] by simp
  have nv': "unat (vb - b) < 4096 * k \<Longrightarrow> \<not> valid (leaf (mem s) pt vb)" for vb using nv [of vb] by simp
  have "unat (a - b) = 4096 * k" using b(3) by (simp add: unat_diff)
  then have la: "\<not> valid (leaf (mem s) pt a)" using nv [of a] by simp
  have amax: "unat a \<le> 2147483648" using b(5) by simp
  have undo: "wp (uvmdealloc pt a b) P v (\<lambda>_. restored pt D s ps)"
    if "added pt D b (zeroed xperm) s ps k v rs" for v rs
    by (rule added_undo [OF that b(1-3) amax D' nv'])
  show ?thesis
  proof (cases qs)
    case Nil
    then have "pool t []" using o by (simp add: owns_def vm_inv_def)
    then have "kalloc P t = Ret 0 (settle t)" by (simp add: pool_def kalloc_empty)
    then show ?thesis
      using undo [OF added_settle [OF t]] by (simp add: uvmalloc_page_def wp_bind wp_Ret wp_ret)
  next
    case (Cons p rs)
    have t': "added pt D b (zeroed xperm) s ps k t (p # rs)" using t Cons by simp
    note tp = take_page [OF o [unfolded Cons]]
    have "wp (mappages pt a PGSIZE p ?perm) P ((taken p t)\<lparr>mem := fill_page (mem t) p (\<lambda>_. 0)\<rparr>) (\<lambda>r u.
        wp (if r \<noteq> 0
          then bind (kfree p) (\<lambda>_. bind (uvmdealloc pt a b) (\<lambda>_. ret (Some 0)))
          else ret None) P u ?Q)"
    proof (rule wp_mono [OF place_page [OF t' b(5) b(2-4) perm src D' la]], assumption, assumption)
      fix r :: int and u
      assume "r = 0 \<and> (\<exists>qs. added pt D b (zeroed xperm) s ps (Suc k) u qs) \<or>
        r = -1 \<and> wp (kfree p) P u (\<lambda>_ v. added pt D b (zeroed xperm) s ps k v [p])"
      then show "wp (if r \<noteq> 0
          then bind (kfree p) (\<lambda>_. bind (uvmdealloc pt a b) (\<lambda>_. ret (Some 0)))
          else ret None) P u ?Q"
      proof
        assume f: "r = -1 \<and> wp (kfree p) P u (\<lambda>_ v. added pt D b (zeroed xperm) s ps k v [p])"
        have "wp (kfree p) P u (\<lambda>_ v. wp (uvmdealloc pt a b) P v (\<lambda>_. restored pt D s ps))"
          by (rule wp_mono [OF conjunct2 [OF f]]) (rule undo)
        with f show ?thesis by (simp add: wp_bind wp_ret)
      qed (simp add: wp_ret)
    qed
    moreover have "zero_page (mem t) p = fill_page (mem t) p (\<lambda>_. 0)" using tp(6) by (simp add: zero_page_fill)
    ultimately show ?thesis
      using tp(7) by (simp add: uvmalloc_page_def wp_bind wp_Ret [where m = kalloc, OF tp(1)]
        wp_Ret [where m = "memset_at p 0 PGSIZE", OF memset_at_page])
  qed
qed

lemma uvmalloc_spec:
  assumes o: "owns s pt D ps" and sz: "oldsz \<le> newsz" "unat newsz \<le> 2147483648" and x: "unat xperm < 4096"
    and b: "b = PGROUNDUP oldsz" "n = page_count b newsz"
    and D: "\<And>vb. page_aligned vb \<Longrightarrow> unat (vb - b) < 4096 * n \<Longrightarrow> D vb"
    and nv: "\<And>vb. unat (vb - b) < 4096 * n \<Longrightarrow> \<not> valid (leaf (mem s) pt vb)"
  shows "wp (uvmalloc pt oldsz newsz xperm) P s (\<lambda>r t.
    r = newsz \<and> (\<exists>qs. added pt D b (zeroed xperm) s ps n t qs) \<or> r = 0 \<and> restored pt D s ps t)"
proof -
  let ?R = "\<lambda>r t. r = None \<and> (\<exists>qs. added pt D b (zeroed xperm) s ps n t qs) \<or> r = Some 0 \<and> restored pt D s ps t"
  have ge: "\<not> newsz < oldsz" using sz(1) by simp
  have ab: "page_aligned b" using b by simp
  have "unat oldsz \<le> 2147483648" using sz by (simp add: word_le_nat_alt)
  then have bb: "unat b \<le> unat newsz + 4095"
    using sz(1) unat_PGROUNDUP_npg [of oldsz] b(1) by (simp add: npg_def word_le_nat_alt)
  note pc = page_count [OF ab sz(2) bb, folded b(2)]
  have "wp (page_loop all_pages (uvmalloc_page pt b xperm) b newsz) P s ?R"
  proof (rule page_loop_wp [where I = "\<lambda>k t. \<exists>qs. added pt D b (zeroed xperm) s ps k t qs"])
    show "\<exists>qs. added pt D b (zeroed xperm) s ps 0 s qs"
      using o by (auto simp: added_def range_pages_def intro!: exI [of _ ps])
  next
    fix k t assume k: "k < n" and "\<exists>qs. added pt D b (zeroed xperm) s ps k t qs"
    then obtain qs where t: "added pt D b (zeroed xperm) s ps k t qs" by blast
    let ?a = "b + of_nat k * PGSIZE"
    have a: "unat ?a = unat b + 4096 * k" "page_aligned ?a" "?a < newsz"
      using pc(1,2,5) k by simp_all
    obtain q where "unat ?a = 4096 * q" using a(2) by (auto simp: unat_page_aligned mod_eq_0_iff_dvd)
    then have "unat ?a + 4096 \<le> 2147483648" using a(3) sz(2) by (simp add: word_less_nat_alt)
    then have "wp (uvmalloc_page pt b xperm ?a) P t (\<lambda>r u.
      r = None \<and> (\<exists>qs. added pt D b (zeroed xperm) s ps (Suc k) u qs) \<or> r = Some 0 \<and> restored pt D s ps u)"
      using k D nv by (intro uvmalloc_page_spec [OF t ab refl a(1,2) _ x]) auto
    then show "wp (uvmalloc_page pt b xperm ?a) P t (\<lambda>r u.
        if r = None then \<exists>qs. added pt D b (zeroed xperm) s ps (Suc k) u qs else ?R r u)"
      by (rule wp_mono) auto
  qed (use pc in auto)
  then have "wp (page_loop all_pages (uvmalloc_page pt b xperm) b newsz) P s (\<lambda>r t.
     wp (case r of None \<Rightarrow> ret newsz | Some e \<Rightarrow> ret e) P t (\<lambda>r t.
    r = newsz \<and> (\<exists>qs. added pt D b (zeroed xperm) s ps n t qs) \<or> r = 0 \<and> restored pt D s ps t))"
    by (rule wp_mono) (auto simp: wp_rules split: option.splits)
  then show ?thesis using ge b(1) by (simp add: uvmalloc_def Let_def wp_rules)
qed

section \<open>\<open>uvmcopy\<close>\<close>

definition copy_src :: "memory \<Rightarrow> u32 \<Rightarrow> u32 \<Rightarrow> page_src" where
  "copy_src m old vb = (if valid (leaf m old vb)
     then Some (PTE_FLAGS (leaf m old vb), \<lambda>i. m (data_page m old vb + i)) else None)"

lemma valid_flags: "valid e \<Longrightarrow> PTE_FLAGS e OR PTE_V = PTE_FLAGS e"
proof (rule bit_word_eqI)
  fix n assume v: "valid e"
  have "bit e 0"
  proof (rule ccontr)
    assume "\<not> bit e 0"
    then have "e AND PTE_V = 0" by (auto intro!: bit_word_eqI simp: bit_and_iff PTE_V_def bit_1_iff)
    with v show False by (simp add: valid_def)
  qed
  then show "bit (PTE_FLAGS e OR PTE_V) n = bit (PTE_FLAGS e) n"
    by (auto simp: PTE_FLAGS_def bit_or_iff bit_and_iff PTE_V_def bit_1_iff)
qed

lemma PTE_FLAGS_less: "unat (PTE_FLAGS e) < 4096"
  by (simp add: PTE_FLAGS_def and_mask_mod unat_mod_distrib)

lemma memmove_page:
  assumes "page_aligned p" "page_aligned q"
  shows "memmove m p q PGSIZE = fill_page m p (\<lambda>i. m (q + i))"
proof -
  have sz: "unat (p::u32) + 4096 \<le> 4294967296" if al: "page_aligned p" for p
  proof -
    obtain k where k: "unat p = 4096 * k" using al by (auto simp: unat_page_aligned mod_eq_0_iff_dvd)
    have "4096 * k < 4294967296" unfolding k [symmetric] by simp
    then show ?thesis using k by simp
  qed
  have "memmove m p q PGSIZE = write_bytes m p (read_bytes m q (unat PGSIZE))"
    by (rule memmove_copy) (use sz assms in \<open>simp_all add: PGSIZE_def\<close>)
  also have "\<dots> = fill_page m p (\<lambda>i. m (q + i))"
    by (rule ext) (simp add: write_bytes_def fill_page_def in_page_iff [OF assms(1)] PGSIZE_def)
  finally show ?thesis .
qed

lemma added_skip:
  assumes t: "added pt D b src s ps k t qs" and size: "4096 * Suc k \<le> 4294967296"
    and a: "a = b + of_nat k * PGSIZE" "page_aligned a" "unat (a - b) = 4096 * k"
    and src: "src a = None" and nv: "\<not> valid (leaf (mem s) pt a)"
  shows "added pt D b src s ps (Suc k) t qs"
proof -
  have la: "\<not> valid (leaf (mem t) pt a)" using t a(3) nv by (simp add: added_def)
  have idx: "unat (vb - b) < 4096 * Suc k \<longleftrightarrow> unat (vb - b) < 4096 * k \<or> vb = a" if "page_aligned vb" for vb
    using range_index [OF size, of vb b] in_page_iff [OF a(2), of vb] that a(1,3) by auto
  have "range_pages (mem t) pt b (Suc k) = range_pages (mem t) pt b k"
    unfolding range_pages_def using idx la by blast
  moreover have "as_src (mem t) pt vb (src vb)" if "page_aligned vb" "unat (vb - b) < 4096 * Suc k" for vb
    using that idx la t src by (auto simp: added_def as_src_def)
  ultimately show ?thesis using t by (simp add: added_def)
qed

text \<open>What the copy relies on: the child's table has nothing mapped below the size, and the
  parent's tables and data pages are neither free nor part of the child's table.\<close>

definition copy_pre :: "'a kmem_scheme \<Rightarrow> u32 \<Rightarrow> u32 \<Rightarrow> nat \<Rightarrow> u32 list \<Rightarrow> bool" where
  "copy_pre s old new n ps \<longleftrightarrow> pt_wf (mem s) old
     \<and> pt_pages (mem s) old \<inter> (set ps \<union> pt_pages (mem s) new) = {}
     \<and> range_pages (mem s) old 0 n \<inter> (set ps \<union> pt_pages (mem s) new) = {}
     \<and> (\<forall>vb. unat vb < 4096 * n \<longrightarrow> \<not> valid (leaf (mem s) new vb))"

lemma copy_old_same:
  assumes c: "copy_pre s old new n ps" and t: "added new D 0 src s ps k t qs"
  shows "leaf (mem t) old = leaf (mem s) old"
    "entry (mem t) old (PX (Suc 0) a) = entry (mem s) old (PX (Suc 0) a)"
    "page_aligned vb \<Longrightarrow> unat vb < 4096 * n \<Longrightarrow> valid (leaf (mem s) old vb) \<Longrightarrow>
       PGROUNDDOWN x = data_page (mem s) old vb \<Longrightarrow> mem t x = mem s x"
    "pt_wf (mem t) old"
proof -
  have al: "page_aligned old" using c by (simp add: copy_pre_def pt_wf_def)
  have same: "mem t x = mem s x" if "PGROUNDDOWN x \<in> pt_pages (mem s) old" for x
    using that c t by (auto simp: copy_pre_def added_def)
  show "leaf (mem t) old = leaf (mem s) old" "pt_wf (mem t) old"
    using pt_cong [OF al, of "mem s" "mem t", OF same] c by (auto simp: copy_pre_def fun_eq_iff)
  show "entry (mem t) old (PX (Suc 0) a) = entry (mem s) old (PX (Suc 0) a)"
    using al same by (intro entry_cong) (auto simp: pt_pages_def)
  show "mem t x = mem s x" if "page_aligned vb" "unat vb < 4096 * n" "valid (leaf (mem s) old vb)"
    "PGROUNDDOWN x = data_page (mem s) old vb"
  proof -
    have "PGROUNDDOWN x \<in> range_pages (mem s) old 0 n" using that by (auto simp: range_pages_def)
    then show ?thesis using c t by (auto simp: copy_pre_def added_def)
  qed
qed

lemma uvmcopy_page_spec:
  assumes c: "copy_pre s old new n ps" and t: "added new D 0 (copy_src (mem s) old) s ps k t qs"
    and k: "k < n" "n \<le> 524288" "a = of_nat k * PGSIZE" "unat a = 4096 * k" "page_aligned a"
    and D: "\<And>vb. page_aligned vb \<Longrightarrow> unat vb < 4096 * n \<Longrightarrow> D vb"
  shows "wp (uvmcopy_page old new a) P t (\<lambda>r u.
    r = None \<and> (\<exists>qs. added new D 0 (copy_src (mem s) old) s ps (Suc k) u qs) \<or>
    r = Some a \<and> (\<exists>qs. added new D 0 (copy_src (mem s) old) s ps k u qs))" (is "wp _ _ _ ?Q")
proof -
  have o: "owns t new D qs" using t by (simp add: added_def)
  note same = copy_old_same [OF c t]
  have amax: "a < MAXVA" "unat a + 4096 \<le> 2147483648" using k by (simp_all add: MAXVA_def word_less_nat_alt)
  have D': "page_aligned vb \<Longrightarrow> unat (vb - 0) < 4096 * k \<Longrightarrow> D vb" for vb using D [of vb] k(1) by simp
  have la: "\<not> valid (leaf (mem s) new a)" using c k(1,4) by (simp add: copy_pre_def)
  show ?thesis
  proof (cases "valid (leaf (mem s) old a)")
    case False
    have "added new D 0 (copy_src (mem s) old) s ps (Suc k) t qs"
      by (rule added_skip [OF t]) (use k la False in \<open>auto simp: copy_src_def\<close>)
    moreover have "uvmcopy_page old new a P t = Ret None t"
      using False leaf_addr_nonzero [OF same(4), of a] same(1)
      by (auto simp: uvmcopy_page_def walk_noalloc [OF amax(1)] Let_def leaf_def fun_eq_iff ret_def valid_def entry_def
        dest!: spec [of _ a])
    ultimately show ?thesis by (auto simp: wp_iff)
  next
    case True
    let ?e = "leaf (mem s) old a"
    let ?q = "data_page (mem s) old a"
    let ?pte = "PTE2PA (entry (mem t) old (PX (Suc 0) a)) + 4 * PX 0 a"
    have v: "valid (entry (mem t) old (PX (Suc 0) a))" "load32 (mem t) ?pte = ?e"
      using True same(1) [symmetric] by (auto simp: leaf_def Let_def entry_def fun_eq_iff split: if_splits)
    have nz: "?pte \<noteq> 0" by (rule leaf_addr_nonzero [OF same(4) v(1)])
    have run: "wp (uvmcopy_page old new a) P t ?Q = wp (bind kalloc (\<lambda>p.
         if p = 0 then ret (Some a)
         else bind (memmove_at p ?q PGSIZE) (\<lambda>_.
              bind (mappages new a PGSIZE p (PTE_FLAGS ?e)) (\<lambda>r.
              if r \<noteq> 0 then bind (kfree p) (\<lambda>_. ret (Some a)) else ret None)))) P t ?Q"
      unfolding data_page_def using v nz True
      by (simp add: uvmcopy_page_def walk_noalloc [OF amax(1)] Let_def valid_def wp_iff)
    show ?thesis
    proof (cases qs)
      case Nil
      then have "pool t []" using o by (simp add: owns_def vm_inv_def)
      then have "kalloc P t = Ret 0 (settle t)" by (simp add: pool_def kalloc_empty)
      then show ?thesis unfolding run using added_settle [OF t] by (auto simp: wp_bind wp_Ret wp_ret)
    next
      case (Cons p rs)
      have t': "added new D 0 (copy_src (mem s) old) s ps k t (p # rs)" using t Cons by simp
      note tp = take_page [OF o [unfolded Cons]]
      let ?c = "\<lambda>i. mem s (?q + i)"
      have fill: "memmove (mem t) p ?q PGSIZE = fill_page (mem t) p ?c"
      proof -
        have "mem t (?q + (x - p)) = mem s (?q + (x - p))" if "PGROUNDDOWN x = p" for x
        proof (rule same(3) [OF k(5) _ True])
          have "unat (x - p) < 4096" using that tp(6) in_page_iff [of p x] by simp
          then have "PGROUNDDOWN (?q + of_nat (unat (x - p))) = ?q"
            by (intro page_offset) (simp_all add: data_page_def)
          then show "PGROUNDDOWN (?q + (x - p)) = ?q" by simp
        qed (use k in simp)
        then show ?thesis
          using memmove_page [of p ?q "mem t"] tp(6) by (auto simp: data_page_def fill_page_def fun_eq_iff)
      qed
      have src: "copy_src (mem s) old a = Some (PTE_FLAGS ?e OR PTE_V, ?c)"
        using True by (simp add: copy_src_def valid_flags)
      have "wp (mappages new a PGSIZE p (PTE_FLAGS ?e)) P ((taken p t)\<lparr>mem := fill_page (mem t) p ?c\<rparr>) (\<lambda>r u.
          wp (if r \<noteq> 0 then bind (kfree p) (\<lambda>_. ret (Some a)) else ret None) P u ?Q)"
      proof (rule wp_mono [OF place_page [OF t' amax(2) _ _ k(5) PTE_FLAGS_less src D' la]])
        fix r :: int and u
        assume "r = 0 \<and> (\<exists>qs. added new D 0 (copy_src (mem s) old) s ps (Suc k) u qs) \<or>
          r = -1 \<and> wp (kfree p) P u (\<lambda>_ v. added new D 0 (copy_src (mem s) old) s ps k v [p])"
        then show "wp (if r \<noteq> 0 then bind (kfree p) (\<lambda>_. ret (Some a)) else ret None) P u ?Q"
          by (auto simp: wp_bind wp_ret elim!: wp_mono)
      qed (use k in auto)
      then show ?thesis
        unfolding run using tp(7) fill
        by (simp add: wp_bind wp_Ret [where m = kalloc, OF tp(1)] memmove_at_def wp_modify)
    qed
  qed
qed

lemma uvmcopy_spec:
  assumes c: "copy_pre s old new (npg sz) ps" and o: "owns s new D ps" and sz: "unat sz \<le> 2147483648"
    and D: "\<And>vb. page_aligned vb \<Longrightarrow> unat vb < 4096 * npg sz \<Longrightarrow> D vb"
  shows "wp (uvmcopy old new sz) P s (\<lambda>r t.
    r = 0 \<and> (\<exists>qs. added new D 0 (copy_src (mem s) old) s ps (npg sz) t qs) \<or>
    r = -1 \<and> restored new D s ps t)" (is "wp _ _ _ ?Q")
proof -
  let ?n = "npg sz"
  let ?I = "\<lambda>k t. \<exists>qs. added new D 0 (copy_src (mem s) old) s ps k t qs"
  let ?R = "\<lambda>r t. case r of None \<Rightarrow> ?I ?n t | Some i \<Rightarrow> \<exists>k < ?n. i = of_nat k * PGSIZE \<and> unat i = 4096 * k \<and> ?I k t"
  have n: "?n \<le> 524288" by (rule npg_le [OF sz])
  have pc0: "page_count 0 sz = ?n" by (simp add: page_count_def npg_def)
  have "page_aligned 0" by (simp add: unat_page_aligned)
  note pc = page_count [OF this sz, unfolded pc0, simplified]
  have nv: "\<not> valid (leaf (mem s) new vb)" if "unat vb < 4096 * ?n" for vb
    using c that by (simp add: copy_pre_def)
  have "wp (page_loop all_pages (uvmcopy_page old new) 0 sz) P s ?R"
  proof (rule page_loop_wp [where I = ?I and n = ?n])
    show "?I 0 s" using o by (auto simp: added_def range_pages_def intro!: exI [of _ ps])
  next
    fix k t assume k: "k < ?n" and "?I k t"
    then obtain qs where t: "added new D 0 (copy_src (mem s) old) s ps k t qs" by blast
    let ?a = "of_nat k * PGSIZE :: u32"
    have a: "unat ?a = 4096 * k" "page_aligned ?a" using pc(1,5) k by simp_all
    have "wp (uvmcopy_page old new ?a) P t (\<lambda>r u. r = None \<and> ?I (Suc k) u \<or> r = Some ?a \<and> ?I k u)"
      by (rule uvmcopy_page_spec [OF c t k n refl a D])
    then show "wp (uvmcopy_page old new (0 + ?a)) P t (\<lambda>r u. if r = None then ?I (Suc k) u else ?R r u)"
      unfolding add_0 by (rule wp_mono) (use k a in auto)
  qed (use pc in auto)
  then have "wp (page_loop all_pages (uvmcopy_page old new) 0 sz) P s (\<lambda>r t.
     wp (case r of None \<Rightarrow> ret 0 | Some i \<Rightarrow> bind (uvmunmap new 0 (i div PGSIZE) True) (\<lambda>_. ret (-1))) P t ?Q)"
  proof (rule wp_mono)
    fix r t assume R: "?R r t"
    show "wp (case r of None \<Rightarrow> ret 0 | Some i \<Rightarrow> bind (uvmunmap new 0 (i div PGSIZE) True) (\<lambda>_. ret (-1))) P t ?Q"
    proof (cases r)
      case None
      with R show ?thesis by (simp add: wp_ret)
    next
      case (Some i)
      then obtain k qs where k: "k < ?n" "unat i = 4096 * k"
        and t: "added new D 0 (copy_src (mem s) old) s ps k t qs" using R by auto
      have "unat (i div PGSIZE) = k" using k(2) by (simp add: unat_div_distrib PGSIZE_def)
      then have i: "i div PGSIZE = of_nat k" by (metis of_nat_unat_u32)
      have ot: "owns t new D qs" using t by (simp add: added_def)
      have "wp (uvmunmap new 0 (of_nat k) True) P t (\<lambda>_ u. \<exists>rs. unmapped new 0 k True t qs u rs \<and> owns u new D rs)"
        by (rule uvmunmap_spec [OF ot]) (use k n D in \<open>auto simp: range_ok_def unat_page_aligned\<close>)
      then have "wp (uvmunmap new 0 (of_nat k) True) P t (\<lambda>_. restored new D s ps)"
      proof (rule wp_mono, elim exE conjE)
        fix u rs assume u: "unmapped new 0 k True t qs u rs" "owns u new D rs"
        show "restored new D s ps u" by (rule added_unmapped [OF t u]) (use nv k(1) in auto)
      qed
      then show ?thesis by (simp add: Some i wp_bind wp_ret)
    qed
  qed
  then show ?thesis by (simp add: uvmcopy_def wp_bind)
qed

end
