(* ===== verification/UserCopy.thy ===== *)
theory UserCopy
  imports UserSpace
begin

text \<open>
  \<open>copyout\<close>, \<open>copyin\<close> and \<open>copyinstr\<close> against the user's view of memory: \<open>ubyte m pt va\<close> is the
  byte a user program reads at \<open>va\<close> through the page table, if it may. Also the page fault
  handler \<open>vmfault\<close>, which adds a zeroed page.
\<close>

definition uvalid :: "memory \<Rightarrow> u32 \<Rightarrow> u32 \<Rightarrow> bool" where
  "uvalid m pt va \<longleftrightarrow> va < MAXVA \<and> valid (leaf m pt va) \<and> leaf m pt va AND PTE_U \<noteq> 0"

definition ubyte :: "memory \<Rightarrow> u32 \<Rightarrow> u32 \<Rightarrow> u8 option" where
  "ubyte m pt va = (if uvalid m pt va then Some (m (data_page m pt va + (va - PGROUNDDOWN va))) else None)"

text \<open>User-accessible pages are pairwise different and not part of the table.\<close>

definition uspace_ok :: "memory \<Rightarrow> u32 \<Rightarrow> bool" where
  "uspace_ok m pt \<longleftrightarrow> pt_wf m pt \<and>
     (\<forall>va. page_aligned va \<and> uvalid m pt va \<longrightarrow>
        data_page m pt va \<noteq> 0 \<and> data_page m pt va \<notin> pt_pages m pt \<and>
        (\<forall>vb. page_aligned vb \<and> uvalid m pt vb \<and> va \<noteq> vb \<longrightarrow> data_page m pt va \<noteq> data_page m pt vb))"

lemma PGROUNDDOWN_le: "PGROUNDDOWN va \<le> va"
  by (simp add: word_le_nat_alt unat_PGROUNDDOWN)

lemma MAXVA_page: "PGROUNDDOWN va < MAXVA \<longleftrightarrow> va < MAXVA"
proof
  assume "PGROUNDDOWN va < MAXVA"
  then have "unat va - unat va mod 4096 < 2147483648" by (simp add: word_less_nat_alt unat_PGROUNDDOWN MAXVA_def)
  then have "4096 * (unat va div 4096) < 4096 * 524288" by (simp add: minus_mod_eq_mult_div)
  then have "unat va div 4096 < 524288" by simp
  then have "unat va < 2147483648" by linarith
  then show "va < MAXVA" by (simp add: word_less_nat_alt MAXVA_def)
qed (use PGROUNDDOWN_le le_less_trans in blast)

lemma leaf_PGROUNDDOWN: "leaf m pt (PGROUNDDOWN va) = leaf m pt va"
  by (rule leaf_same_page) simp

lemma uvalid_page: "uvalid m pt (PGROUNDDOWN va) = uvalid m pt va"
  by (simp add: uvalid_def leaf_PGROUNDDOWN MAXVA_page)

lemma data_page_page: "data_page m pt (PGROUNDDOWN va) = data_page m pt va"
  by (simp add: data_page_def leaf_PGROUNDDOWN)

lemma page_offset_less: "unat (va - PGROUNDDOWN va) < 4096"
  using in_page_iff [of "PGROUNDDOWN va" va] by simp

lemma data_page_nonzero: "uspace_ok m pt \<Longrightarrow> uvalid m pt va \<Longrightarrow> data_page m pt va \<noteq> 0"
  by (metis data_page_page page_aligned_PGROUNDDOWN uspace_ok_def uvalid_page)

lemma user_page_mapped:
  assumes ok: "uspace_ok (mem s) pt" and v: "uvalid (mem s) pt va"
  shows "user_page pt (PGROUNDDOWN va) P s = Ret (data_page (mem s) pt va) s" "data_page (mem s) pt va \<noteq> 0"
proof -
  have wf: "pt_wf (mem s) pt" using ok by (simp add: uspace_ok_def)
  show nz: "data_page (mem s) pt va \<noteq> 0" by (rule data_page_nonzero [OF ok v])
  have "walkaddr pt (PGROUNDDOWN va) P s = Ret (data_page (mem s) pt va) s"
    unfolding walkaddr_eq [OF wf] using v
    by (simp add: Let_def uvalid_def leaf_PGROUNDDOWN MAXVA_page data_page_def)
  with nz show "user_page pt (PGROUNDDOWN va) P s = Ret (data_page (mem s) pt va) s"
    by (simp add: user_page_def ret_def)
qed

text \<open>Writing into a user page is seen at the corresponding user addresses only.\<close>

lemma write_user_page:
  assumes ok: "uspace_ok m pt" and v: "uvalid m pt va" and n: "length bs \<le> unat (page_rest va)"
  defines "m' \<equiv> write_bytes m (data_page m pt va + (va - PGROUNDDOWN va)) bs"
  shows "leaf m' pt = leaf m pt" "uspace_ok m' pt" "uvalid m' pt vb = uvalid m pt vb"
    "ubyte m' pt vb = (if uvalid m pt vb \<and> unat (vb - va) < length bs then Some (bs ! unat (vb - va)) else ubyte m pt vb)"
    "PGROUNDDOWN x \<noteq> data_page m pt va \<Longrightarrow> m' x = m x"
proof -
  let ?q = "data_page m pt va"
  let ?o = "unat (va - PGROUNDDOWN va)"
  have q: "page_aligned ?q" "?q \<notin> pt_pages m pt"
    using ok v uvalid_page [of m pt va] data_page_page [of m pt va]
    by (simp add: data_page_def, metis page_aligned_PGROUNDDOWN uspace_ok_def)
  have off: "?o = unat va mod 4096" by (simp add: PGROUNDDOWN_alt unat_mod_distrib)
  then have size: "?o + length bs \<le> 4096" using n page_rest_bounds(3) [of va] by simp
  have m': "m' = write_bytes m (?q + of_nat ?o) bs" by (simp add: m'_def)
  show out: "m' x = m x" if "PGROUNDDOWN x \<noteq> ?q" for x
    unfolding m' by (rule write_bytes_other_page [OF q(1) size that])
  have wf: "pt_wf m pt" using ok by (simp add: uspace_ok_def)
  have same: "m' x = m x" if "PGROUNDDOWN x \<in> pt_pages m pt" for x using that q(2) out by metis
  note c = pt_cong [OF pt_wf_aligned [OF wf], of m m', OF same]
  show l: "leaf m' pt = leaf m pt" using c by (simp add: fun_eq_iff)
  then have u: "uvalid m' pt = uvalid m pt" "data_page m' pt = data_page m pt"
    by (simp_all add: uvalid_def data_page_def fun_eq_iff)
  show "uvalid m' pt vb = uvalid m pt vb" by (simp add: u)
  show "uspace_ok m' pt" using ok c by (simp add: uspace_ok_def u)
  show "ubyte m' pt vb = (if uvalid m pt vb \<and> unat (vb - va) < length bs then Some (bs ! unat (vb - va)) else ubyte m pt vb)"
  proof (cases "uvalid m pt vb")
    case True
    let ?x = "data_page m pt vb + (vb - PGROUNDDOWN vb)"
    show ?thesis
    proof (cases "PGROUNDDOWN vb = PGROUNDDOWN va")
      case same_page: True
      have "data_page m pt vb = ?q" using leaf_same_page [OF same_page] by (simp add: data_page_def)
      then have d: "?x - (?q + (va - PGROUNDDOWN va)) = vb - va" using same_page by simp
      have "m' ?x = (if unat (vb - va) < length bs then bs ! unat (vb - va) else m ?x)"
        unfolding m'_def write_bytes_def by (simp only: d)
      then show ?thesis using True by (simp add: ubyte_def u)
    next
      case other: False
      have "data_page m pt vb \<noteq> ?q"
        using ok v True other uvalid_page data_page_page unfolding uspace_ok_def
        by (metis page_aligned_PGROUNDDOWN)
      moreover have "PGROUNDDOWN ?x = data_page m pt vb"
        using page_offset(2) [of "data_page m pt vb" "unat (vb - PGROUNDDOWN vb)"] page_offset_less [of vb]
        by (simp add: data_page_def)
      ultimately have "m' ?x = m ?x" using out by simp
      moreover have "\<not> unat (vb - va) < length bs"
      proof
        assume "unat (vb - va) < length bs"
        then have "?o + unat (vb - va) < 4096" using size by simp
        then have "PGROUNDDOWN (PGROUNDDOWN va + of_nat (?o + unat (vb - va))) = PGROUNDDOWN va"
          by (intro page_offset) simp_all
        moreover have "PGROUNDDOWN va + of_nat (?o + unat (vb - va)) = vb" by simp
        ultimately show False using other by simp
      qed
      ultimately show ?thesis using True by (simp add: ubyte_def u)
    qed
  next
    case False
    then show ?thesis by (simp add: ubyte_def u)
  qed
qed

section \<open>\<open>copyout\<close>\<close>

text \<open>The user may access (and write) the \<open>n\<close> bytes from \<open>va\<close> on.\<close>

definition accessible :: "memory \<Rightarrow> u32 \<Rightarrow> u32 \<Rightarrow> nat \<Rightarrow> bool" where
  "accessible m pt va n \<longleftrightarrow> unat va + n \<le> 2147483648 \<and> (\<forall>i < n. uvalid m pt (va + of_nat i))"

definition writable :: "memory \<Rightarrow> u32 \<Rightarrow> u32 \<Rightarrow> nat \<Rightarrow> bool" where
  "writable m pt va n \<longleftrightarrow> accessible m pt va n \<and> (\<forall>i < n. leaf m pt (va + of_nat i) AND PTE_W \<noteq> 0)"

lemma next_chunk:
  assumes "n = unat (page_rest va)" "unat va + n \<le> 2147483648"
  shows "PGROUNDDOWN va + PGSIZE = va + of_nat n"
proof -
  have "of_nat n = page_rest va" using assms(1) by simp
  then show ?thesis by (simp add: page_rest_def)
qed

lemma accessible_drop:
  assumes "accessible m pt va len" "n \<le> len"
  shows "accessible m pt (va + of_nat n) (len - n)"
proof -
  have "unat (va + of_nat n) = unat va + n"
    using assms by (intro unat_add_nat) (auto simp: accessible_def)
  moreover have "uvalid m pt (va + of_nat n + of_nat i)" if "i < len - n" for i
  proof -
    have "n + i < len" using assms(2) that by simp
    then have "uvalid m pt (va + of_nat (n + i))" using assms(1) unfolding accessible_def by blast
    then show ?thesis by (simp add: add.assoc)
  qed
  ultimately show ?thesis using assms by (simp add: accessible_def)
qed

lemma writable_drop:
  assumes "writable m pt va len" "n \<le> len"
  shows "writable m pt (va + of_nat n) (len - n)"
proof -
  have "leaf m pt (va + of_nat n + of_nat i) AND PTE_W \<noteq> 0" if "i < len - n" for i
  proof -
    have "n + i < len" using assms(2) that by simp
    then have "leaf m pt (va + of_nat (n + i)) AND PTE_W \<noteq> 0" using assms(1) unfolding writable_def by blast
    then show ?thesis by (simp add: add.assoc)
  qed
  then show ?thesis using assms accessible_drop [of m pt va len n] by (simp add: writable_def)
qed

lemma split_index:
  fixes va vb :: u32
  assumes "unat va + len \<le> 2147483648" "n \<le> len"
  shows "unat (vb - (va + of_nat n)) < len - n \<longleftrightarrow> n \<le> unat (vb - va) \<and> unat (vb - va) < len"
    "n \<le> unat (vb - va) \<Longrightarrow> unat (vb - (va + of_nat n)) = unat (vb - va) - n"
proof -
  have u: "unat (of_nat n :: u32) = n" using assms by (simp add: unat_of_nat take_bit_eq_mod)
  have "vb - (va + of_nat n) = (vb - va) - of_nat n" by simp
  then have e: "unat (vb - (va + of_nat n)) =
      (if n \<le> unat (vb - va) then unat (vb - va) - n else unat (vb - va) + 4294967296 - n)"
    using unat_diff [of "vb - va" "of_nat n"] u by metis
  then show "n \<le> unat (vb - va) \<Longrightarrow> unat (vb - (va + of_nat n)) = unat (vb - va) - n" by simp
  show "unat (vb - (va + of_nat n)) < len - n \<longleftrightarrow> n \<le> unat (vb - va) \<and> unat (vb - va) < len"
    unfolding e using assms by auto
qed

definition copied :: "u32 \<Rightarrow> u32 \<Rightarrow> u8 list \<Rightarrow> 'a kmem_scheme \<Rightarrow> 'a kmem_scheme \<Rightarrow> bool" where
  "copied pt va src s t \<longleftrightarrow> t = s\<lparr>mem := mem t\<rparr> \<and> uspace_ok (mem t) pt \<and> leaf (mem t) pt = leaf (mem s) pt
     \<and> (\<forall>vb. ubyte (mem t) pt vb = (if uvalid (mem s) pt vb \<and> unat (vb - va) < length src
          then Some (src ! unat (vb - va)) else ubyte (mem s) pt vb))"

lemma copyout_chunk:
  assumes ok: "uspace_ok (mem s) pt" and w: "writable (mem s) pt va (length src)" and ne: "src \<noteq> []"
    and n: "n = min (unat (page_rest va)) (length src)"
  defines "t \<equiv> s\<lparr>mem := write_bytes (mem s) (data_page (mem s) pt va + (va - PGROUNDDOWN va)) (take n src)\<rparr>"
  shows "copyout pt va src P s = copyout pt (PGROUNDDOWN va + PGSIZE) (drop n src) P t"
    "copied pt va (take n src) s t"
proof -
  let ?va0 = "PGROUNDDOWN va"
  have v: "uvalid (mem s) pt va" and pw: "leaf (mem s) pt va AND PTE_W \<noteq> 0"
    using w ne by (auto simp: writable_def accessible_def dest!: spec [of _ 0])
  have mx: "?va0 < MAXVA" using v MAXVA_page by (simp add: uvalid_def)
  then have max: "\<not> MAXVA \<le> ?va0" by simp
  have "valid (leaf (mem s) pt ?va0)" using v by (simp add: uvalid_def leaf_PGROUNDDOWN)
  then have ve: "valid (entry (mem s) pt (PX (Suc 0) ?va0))" by (auto simp: leaf_def Let_def split: if_splits)
  then have wk: "walk pt ?va0 False P s = Ret (PTE2PA (entry (mem s) pt (PX (Suc 0) ?va0)) + 4 * PX 0 ?va0) s"
    by (simp add: walk_noalloc [OF mx])
  have ld: "load32 (mem s) (PTE2PA (entry (mem s) pt (PX (Suc 0) ?va0)) + 4 * PX 0 ?va0) = leaf (mem s) pt va"
    using ve leaf_PGROUNDDOWN [of "mem s" pt va] by (simp add: leaf_def Let_def entry_def)
  show "copyout pt va src P s = copyout pt (?va0 + PGSIZE) (drop n src) P t"
    unfolding copyout.simps [of pt va src] Let_def n [symmetric]
    using ne max user_page_mapped(1) [OF ok v, of P] user_page_mapped(2) [OF ok v] wk ld pw
    by (simp add: t_def)
  have "length (take n src) \<le> unat (page_rest va)" by (simp add: n)
  note wu = write_user_page [OF ok v this]
  show "copied pt va (take n src) s t"
    using wu by (simp add: copied_def t_def)
qed

lemma copied_append:
  assumes a: "copied pt va (take n src) s t" and b: "copied pt (va + of_nat n) (drop n src) t u"
    and n: "n \<le> length src" "unat va + length src \<le> 2147483648"
  shows "copied pt va src s u"
proof -
  have l: "leaf (mem u) pt = leaf (mem s) pt" and uv: "uvalid (mem t) pt vb = uvalid (mem s) pt vb" for vb
    using a b by (simp_all add: copied_def uvalid_def)
  note si = split_index [OF n(2,1)]
  have "ubyte (mem u) pt vb = (if uvalid (mem s) pt vb \<and> unat (vb - va) < length src
      then Some (src ! unat (vb - va)) else ubyte (mem s) pt vb)" for vb
  proof -
    have u: "ubyte (mem u) pt vb = (if uvalid (mem s) pt vb \<and> unat (vb - (va + of_nat n)) < length src - n
      then Some (drop n src ! unat (vb - (va + of_nat n))) else ubyte (mem t) pt vb)"
      using b by (simp add: copied_def uv)
    have t: "ubyte (mem t) pt vb = (if uvalid (mem s) pt vb \<and> unat (vb - va) < n
      then Some (src ! unat (vb - va)) else ubyte (mem s) pt vb)"
      using a n(1) by (auto simp: copied_def)
    show ?thesis
    proof (cases "n \<le> unat (vb - va)")
      case True
      with u t si(1) [of vb] si(2) [OF True] n(1) show ?thesis by auto
    next
      case False
      with u t si(1) [of vb] n(1) show ?thesis by auto
    qed
  qed
  moreover have "u = s\<lparr>mem := mem u\<rparr>"
  proof -
    have "t = s\<lparr>mem := mem t\<rparr>" "u = t\<lparr>mem := mem u\<rparr>" using a b by (simp_all only: copied_def)
    then have "u = (s\<lparr>mem := mem t\<rparr>)\<lparr>mem := mem u\<rparr>" by metis
    then show ?thesis by simp
  qed
  moreover have "uspace_ok (mem u) pt" using b by (simp add: copied_def)
  ultimately show ?thesis using l unfolding copied_def by blast
qed

lemma copyout_spec:
  assumes "uspace_ok (mem s) pt" "writable (mem s) pt va (length src)"
  shows "wp (copyout pt va src) P s (\<lambda>r t. r = 0 \<and> copied pt va src s t)"
  using assms
proof (induction "length src" arbitrary: s va src rule: less_induct)
  case less
  show ?case
  proof (cases "src = []")
    case True
    with less.prems show ?thesis by (simp add: copyout.simps wp_ret copied_def)
  next
    case False
    obtain n where n: "n = min (unat (page_rest va)) (length src)" by blast
    have n0: "0 < n" "n \<le> length src" using False page_rest_bounds(1) [of va] by (simp_all add: n)
    have size: "unat va + length src \<le> 2147483648" using less.prems(2) by (simp add: writable_def accessible_def)
    define t where "t = s\<lparr>mem := write_bytes (mem s) (data_page (mem s) pt va + (va - PGROUNDDOWN va)) (take n src)\<rparr>"
    note ch = copyout_chunk [OF less.prems False n, folded t_def]
    have lt: "leaf (mem t) pt = leaf (mem s) pt" "uspace_ok (mem t) pt" using ch(2) by (simp_all add: copied_def)
    have "wp (copyout pt (PGROUNDDOWN va + PGSIZE) (drop n src)) P t (\<lambda>r u. r = 0 \<and> copied pt (va + of_nat n) (drop n src) t u)"
    proof (cases "n = length src")
      case True
      then show ?thesis using lt(2) by (simp add: copyout.simps wp_ret copied_def)
    next
      case False
      then have "n = unat (page_rest va)" "n < length src" using n n0 by auto
      then have e: "PGROUNDDOWN va + PGSIZE = va + of_nat n" using size by (intro next_chunk) auto
      have "writable (mem t) pt (va + of_nat n) (length src - n)"
        using writable_drop [OF less.prems(2) n0(2)] lt(1) by (simp add: writable_def accessible_def uvalid_def)
      then show ?thesis
        unfolding e using lt(2) n0 \<open>n < length src\<close> by (intro less.hyps) simp_all
    qed
    then have "wp (copyout pt (PGROUNDDOWN va + PGSIZE) (drop n src)) P t (\<lambda>r u. r = 0 \<and> copied pt va src s u)"
      by (rule wp_mono) (use copied_append [OF ch(2) _ n0(2) size] in blast)
    then show ?thesis unfolding wp_def ch(1) .
  qed
qed

section \<open>\<open>copyin\<close>\<close>

text \<open>The bytes a user sees at \<open>n\<close> accessible addresses.\<close>

definition ubytes :: "memory \<Rightarrow> u32 \<Rightarrow> u32 \<Rightarrow> nat \<Rightarrow> u8 list" where
  "ubytes m pt va n = map (\<lambda>i. the (ubyte m pt (va + of_nat i))) [0..<n]"

lemma ubytes_split:
  assumes "n \<le> len"
  shows "ubytes m pt va len = ubytes m pt va n @ ubytes m pt (va + of_nat n) (len - n)"
proof -
  have "[0..<n + (len - n)] = [0..<n] @ [n..<n + (len - n)]" by (rule upt_add_eq_append) simp
  moreover have "[n..<n + (len - n)] = map (\<lambda>i. i + n) [0..<len - n]" by (simp add: map_add_upt add.commute)
  ultimately have "[0..<len] = [0..<n] @ map (\<lambda>i. i + n) [0..<len - n]" using assms by simp
  then show ?thesis by (simp add: ubytes_def algebra_simps)
qed

lemma ubytes_chunk:
  assumes a: "accessible m pt va n" and n: "n \<le> unat (page_rest va)"
  shows "read_bytes m (data_page m pt va + (va - PGROUNDDOWN va)) n = ubytes m pt va n"
proof (rule nth_equalityI)
  fix i assume "i < length (read_bytes m (data_page m pt va + (va - PGROUNDDOWN va)) n)"
  then have i: "i < n" by simp
  let ?o = "unat (va - PGROUNDDOWN va)"
  have off: "?o = unat va mod 4096" by (simp add: PGROUNDDOWN_alt unat_mod_distrib)
  have "?o + i < 4096" using i n page_rest_bounds(3) [of va] off by simp
  then have "PGROUNDDOWN (PGROUNDDOWN va + of_nat (?o + i)) = PGROUNDDOWN va" by (intro page_offset) simp_all
  moreover have "PGROUNDDOWN va + of_nat (?o + i) = va + of_nat i" by simp
  ultimately have p: "PGROUNDDOWN (va + of_nat i) = PGROUNDDOWN va" by simp
  have "data_page m pt (va + of_nat i) = data_page m pt va"
    using leaf_same_page [OF p] by (simp add: data_page_def)
  moreover have "uvalid m pt (va + of_nat i)" using a i by (simp add: accessible_def)
  ultimately show "read_bytes m (data_page m pt va + (va - PGROUNDDOWN va)) n ! i = ubytes m pt va n ! i"
    using i p by (simp add: ubytes_def ubyte_def algebra_simps)
qed (simp add: ubytes_def)

lemma accessible_take: "accessible m pt va len \<Longrightarrow> n \<le> len \<Longrightarrow> accessible m pt va n"
  by (auto simp: accessible_def)

lemma copyin_spec:
  assumes ok: "uspace_ok (mem s) pt" and "accessible (mem s) pt va len"
  shows "copyin pt va len P s = Ret (0, ubytes (mem s) pt va len) s"
  using assms(2)
proof (induction len arbitrary: va rule: less_induct)
  case (less len)
  show ?case
  proof (cases "len = 0")
    case True
    then show ?thesis by (simp add: copyin.simps ret_def ubytes_def)
  next
    case False
    obtain n where n: "n = min (unat (page_rest va)) len" by blast
    have n0: "0 < n" "n \<le> len" using False page_rest_bounds(1) [of va] by (simp_all add: n)
    have size: "unat va + len \<le> 2147483648" and v: "uvalid (mem s) pt va"
      using less.prems False by (auto simp: accessible_def dest!: spec [of _ 0])
    have bs: "read_bytes (mem s) (data_page (mem s) pt va + (va - PGROUNDDOWN va)) n = ubytes (mem s) pt va n"
      by (rule ubytes_chunk [OF accessible_take [OF less.prems n0(2)]]) (simp add: n)
    have rest: "copyin pt (PGROUNDDOWN va + PGSIZE) (len - n) P s =
        Ret (0, ubytes (mem s) pt (va + of_nat n) (len - n)) s"
    proof (cases "n = len")
      case True
      then show ?thesis by (simp add: copyin.simps ret_def ubytes_def)
    next
      case False
      then have "n = unat (page_rest va)" "n < len" using n n0 by auto
      then have e: "PGROUNDDOWN va + PGSIZE = va + of_nat n" using size by (intro next_chunk) auto
      show ?thesis
        unfolding e by (rule less.IH) (use n0 False accessible_drop [OF less.prems n0(2)] in auto)
    qed
    show ?thesis
      unfolding copyin.simps [of pt va len] Let_def n [symmetric]
      using False user_page_mapped(1) [OF ok v, of P] user_page_mapped(2) [OF ok v] bs rest ubytes_split [OF n0(2)]
      by (simp add: ret_def)
  qed
qed

text \<open>Inaccessible memory above the process size is reported, whatever the page table says.\<close>

lemma user_page_fail:
  assumes wf: "pt_wf (mem s) pt" and nv: "\<not> uvalid (mem s) pt va"
    and p: "cpu_ok s" "c_proc (mycpu s) = Some p" "p_sz (ptable s p) \<le> PGROUNDDOWN va"
  shows "user_page pt (PGROUNDDOWN va) P s = Ret 0 (settle s)"
proof -
  have "walkaddr pt (PGROUNDDOWN va) P s = Ret 0 s"
    unfolding walkaddr_eq [OF wf] using nv uvalid_page [of "mem s" pt va]
    by (auto simp: Let_def uvalid_def)
  then show ?thesis
    using p by (simp add: user_page_def vmfault_def curproc_eq ret_def)
qed

section \<open>\<open>copyinstr\<close>\<close>

lemma read_bytes_Suc: "read_bytes m p (Suc n) = m p # read_bytes m (p + 1) n"
  by (simp add: read_bytes_def map_upt_Suc algebra_simps del: upt_Suc)

lemma copy_until_null_no:
  "0 \<notin> set (read_bytes m p n) \<Longrightarrow> copy_until_null m p n = (read_bytes m p n, False)"
proof (induction m p n rule: copy_until_null.induct)
  case (1 m p)
  then show ?case by (simp add: read_bytes_def)
next
  case (2 m p n)
  then show ?case by (simp add: read_bytes_Suc)
qed

lemma copy_until_null_yes:
  "k < n \<Longrightarrow> 0 \<notin> set (read_bytes m p k) \<Longrightarrow> m (p + of_nat k) = 0 \<Longrightarrow>
    copy_until_null m p n = (read_bytes m p (Suc k), True)"
proof (induction m p n arbitrary: k rule: copy_until_null.induct)
  case (2 m p n)
  show ?case
  proof (cases k)
    case 0
    with 2 show ?thesis by (simp add: read_bytes_def)
  next
    case (Suc j)
    with 2(2-) have "m p \<noteq> 0" "j < n" "0 \<notin> set (read_bytes m (p + 1) j)" "m (p + 1 + of_nat j) = 0"
      by (auto simp: read_bytes_Suc algebra_simps)
    with 2(1) [of j] Suc show ?thesis by (simp add: read_bytes_Suc)
  qed
qed simp

lemma walkaddr_mapped:
  assumes ok: "uspace_ok (mem s) pt" and v: "uvalid (mem s) pt va"
  shows "walkaddr pt (PGROUNDDOWN va) P s = Ret (data_page (mem s) pt va) s"
proof -
  have wf: "pt_wf (mem s) pt" using ok by (simp add: uspace_ok_def)
  show ?thesis
    unfolding walkaddr_eq [OF wf] using v
    by (simp add: Let_def uvalid_def leaf_PGROUNDDOWN MAXVA_page data_page_def)
qed

lemma ubytes_nth: "i < n \<Longrightarrow> ubytes m pt va n ! i = the (ubyte m pt (va + of_nat i))"
  by (simp add: ubytes_def)

lemma length_ubytes [simp]: "length (ubytes m pt va n) = n"
  by (simp add: ubytes_def)

lemma copyinstr_chunk:
  assumes ok: "uspace_ok (mem s) pt" and v: "uvalid (mem s) pt va" and m: "0 < mx"
    and n: "n = min (unat (page_rest va)) mx"
  defines "p \<equiv> data_page (mem s) pt va + (va - PGROUNDDOWN va)"
  shows "copyinstr pt va mx P s = (case copy_until_null (mem s) p n of (bs, got_null) \<Rightarrow>
     if got_null then Ret (0, bs) s
     else bind (copyinstr pt (PGROUNDDOWN va + PGSIZE) (mx - n)) (\<lambda>(r, cs). ret (r, bs @ cs)) P s)"
  unfolding copyinstr.simps [of pt va mx] Let_def n [symmetric]
  using m data_page_nonzero [OF ok v] walkaddr_mapped [OF ok v, of P]
  by (simp add: p_def ret_def split: prod.splits)

text \<open>A string whose null comes within \<open>mx\<close> bytes is copied with its null.\<close>

lemma copyinstr_found:
  assumes ok: "uspace_ok (mem s) pt"
    and "accessible (mem s) pt va (Suc k)" "k < mx" "0 \<notin> set (ubytes (mem s) pt va k)"
      "ubyte (mem s) pt (va + of_nat k) = Some 0"
  shows "copyinstr pt va mx P s = Ret (0, ubytes (mem s) pt va (Suc k)) s"
  using assms(2-)
proof (induction mx arbitrary: va k rule: less_induct)
  case (less mx)
  obtain n where n: "n = min (unat (page_rest va)) mx" by blast
  have n0: "0 < n" "n \<le> mx" "n \<le> unat (page_rest va)"
    using less.prems(2) page_rest_bounds(1) [of va] by (simp_all add: n)
  have size: "unat va + Suc k \<le> 2147483648" and v: "uvalid (mem s) pt va"
    using less.prems(1) by (auto simp: accessible_def dest!: spec [of _ 0])
  let ?p = "data_page (mem s) pt va + (va - PGROUNDDOWN va)"
  have mx: "0 < mx" using less.prems(2) by simp
  note ch = copyinstr_chunk [OF ok v mx n, of P]
  show ?case
  proof (cases "k < n")
    case True
    have b: "read_bytes (mem s) ?p (Suc k) = ubytes (mem s) pt va (Suc k)"
      using ubytes_chunk [OF less.prems(1)] True n0(3) by simp
    have b': "read_bytes (mem s) ?p k = ubytes (mem s) pt va k"
      using ubytes_chunk [OF accessible_take [OF less.prems(1)], of k] True n0(3) by simp
    have "mem s (?p + of_nat k) = 0"
      using arg_cong [OF b, of "\<lambda>xs. xs ! k"] less.prems(4) ubytes_nth [of k "Suc k"] by simp
    then have "copy_until_null (mem s) ?p n = (ubytes (mem s) pt va (Suc k), True)"
      using copy_until_null_yes [OF True, of "mem s" ?p] less.prems(3) b b' by simp
    then show ?thesis unfolding ch by simp
  next
    case False
    then have "n = unat (page_rest va)" using n n0 less.prems(2) by auto
    then have e: "PGROUNDDOWN va + PGSIZE = va + of_nat n" using size False by (intro next_chunk) auto
    have b: "read_bytes (mem s) ?p n = ubytes (mem s) pt va n"
      using ubytes_chunk [OF accessible_take [OF less.prems(1)], of n] False n0(3) by simp
    have sp: "ubytes (mem s) pt va k = ubytes (mem s) pt va n @ ubytes (mem s) pt (va + of_nat n) (k - n)"
      using False by (intro ubytes_split) simp
    have "copy_until_null (mem s) ?p n = (ubytes (mem s) pt va n, False)"
      using copy_until_null_no [of "mem s" ?p n] less.prems(3) sp b by simp
    moreover have "copyinstr pt (va + of_nat n) (mx - n) P s =
        Ret (0, ubytes (mem s) pt (va + of_nat n) (Suc (k - n))) s"
    proof (rule less.IH)
      show "accessible (mem s) pt (va + of_nat n) (Suc (k - n))"
        using accessible_drop [OF less.prems(1), of n] False by (simp add: Suc_diff_le)
      show "0 \<notin> set (ubytes (mem s) pt (va + of_nat n) (k - n))" using less.prems(3) sp by simp
      have "va + of_nat n + of_nat (k - n) = va + of_nat k" using False by (simp add: of_nat_diff)
      then show "ubyte (mem s) pt (va + of_nat n + of_nat (k - n)) = Some 0" using less.prems(4) by (simp only:)
    qed (use less.prems(2) n0 False in auto)
    moreover have "ubytes (mem s) pt va (Suc k) =
        ubytes (mem s) pt va n @ ubytes (mem s) pt (va + of_nat n) (Suc (k - n))"
      using False ubytes_split [of n "Suc k" "mem s" pt va] by (simp add: Suc_diff_le)
    ultimately show ?thesis unfolding ch e by (simp add: ret_def)
  qed
qed

text \<open>Without a null in \<open>mx\<close> accessible bytes the copy fails.\<close>

lemma copyinstr_missing:
  assumes ok: "uspace_ok (mem s) pt"
    and "accessible (mem s) pt va mx" "0 \<notin> set (ubytes (mem s) pt va mx)"
  shows "copyinstr pt va mx P s = Ret (-1, ubytes (mem s) pt va mx) s"
  using assms(2-)
proof (induction mx arbitrary: va rule: less_induct)
  case (less mx)
  show ?case
  proof (cases "mx = 0")
    case True
    then show ?thesis by (simp add: copyinstr.simps ret_def ubytes_def)
  next
    case False
    obtain n where n: "n = min (unat (page_rest va)) mx" by blast
    have n0: "0 < n" "n \<le> mx" "n \<le> unat (page_rest va)"
      using False page_rest_bounds(1) [of va] by (simp_all add: n)
    have size: "unat va + mx \<le> 2147483648" and v: "uvalid (mem s) pt va"
      using less.prems(1) False by (auto simp: accessible_def dest!: spec [of _ 0])
    let ?p = "data_page (mem s) pt va + (va - PGROUNDDOWN va)"
    have b: "read_bytes (mem s) ?p n = ubytes (mem s) pt va n"
      using ubytes_chunk [OF accessible_take [OF less.prems(1) n0(2)] n0(3)] .
    have sp: "ubytes (mem s) pt va mx = ubytes (mem s) pt va n @ ubytes (mem s) pt (va + of_nat n) (mx - n)"
      by (rule ubytes_split [OF n0(2)])
    have c: "copy_until_null (mem s) ?p n = (ubytes (mem s) pt va n, False)"
      using copy_until_null_no [of "mem s" ?p n] less.prems(2) sp b by simp
    have rest: "copyinstr pt (PGROUNDDOWN va + PGSIZE) (mx - n) P s =
        Ret (-1, ubytes (mem s) pt (va + of_nat n) (mx - n)) s"
    proof (cases "n = mx")
      case True
      then show ?thesis by (simp add: copyinstr.simps ret_def ubytes_def)
    next
      case False
      then have "n = unat (page_rest va)" using n by auto
      then have e: "PGROUNDDOWN va + PGSIZE = va + of_nat n" using size n0(2) by (intro next_chunk) auto
      show ?thesis
        unfolding e by (rule less.IH) (use n0 False accessible_drop [OF less.prems(1) n0(2)] less.prems(2) sp in auto)
    qed
    have "0 < mx" using False by simp
    from copyinstr_chunk [OF ok v this n, of P] show ?thesis
      using c rest sp by (simp add: ret_def)
  qed
qed

end
