(* ===== verification/Proc.thy ===== *)
theory Proc
  imports UserCopy
begin

text \<open>
  Processes, \<open>kernel/proc.c\<close>: the table and its allocation, the state machine
  (\<open>sleep\<close>, \<open>wakeup\<close>, \<open>yield\<close>, the scheduler), killing, waiting, and the process's page table.
  \<open>kfork\<close>, \<open>kexit\<close>, \<open>userinit\<close> and \<open>forkret\<close> use the file system and follow in \<open>Exec\<close> and \<open>Trap\<close>.

  Giving up the CPU is \<open>swtch\<close> of \<open>Machine\<close>. A loop whose body sleeps has one more round of fuel
  than the thread can be resumed, so the fuel cannot run out before the thread is left off the CPU.
\<close>

section \<open>Table and page tables\<close>

definition proc_mapstacks :: "u32 \<Rightarrow> ('a kmem_scheme, unit) op" where
  "proc_mapstacks kpgtbl =
     for_each [0..<NPROC] (\<lambda>i.
       bind kalloc (\<lambda>pa.
       if pa = 0 then panic ''kalloc''
       else kvmmap kpgtbl (KSTACK i) pa PGSIZE (PTE_R OR PTE_W)))"

definition kvmmake :: "('a procs_scheme, u32) op" where
  "kvmmake =
     bind kalloc (\<lambda>kpgtbl.
     bind (memset_at kpgtbl 0 PGSIZE) (\<lambda>_.
     bind (kvmmap kpgtbl 0x03F00000 0x03F00000 0x100000 (PTE_R OR PTE_W)) (\<lambda>_.
     bind (kvmmap kpgtbl KERNBASE KERNBASE (PHYSTOP - KERNBASE) (PTE_R OR PTE_W OR PTE_X)) (\<lambda>_.
     bind (if PHYSTOP < 0x03F00000
           then kvmmap kpgtbl 0x03EFF000 0x03EFF000 PGSIZE (PTE_R OR PTE_W) else ret ()) (\<lambda>_.
     bind (gets sym_trampoline_start) (\<lambda>tr.
     bind (kvmmap kpgtbl TRAMPOLINE tr PGSIZE (PTE_R OR PTE_X)) (\<lambda>_.
     bind (proc_mapstacks kpgtbl) (\<lambda>_.
     ret kpgtbl))))))))"

definition kvminit :: "('a procs_scheme, unit) op" where
  "kvminit = bind kvmmake (\<lambda>kp. modify (\<lambda>s. s\<lparr>kernel_pagetable := kp\<rparr>))"

definition kvminithart :: "('a procs_scheme, unit) op" where
  "kvminithart = bind (gets kernel_pagetable) (\<lambda>kp. mmio_w REG_SATP (MAKE_SATP kp))"

definition procinit :: "('a procs_scheme, unit) op" where
  "procinit =
     bind (initlock PidLock ''nextpid'') (\<lambda>_.
     bind (initlock WaitLock ''wait_lock'') (\<lambda>_.
     for_each [0..<NPROC] (\<lambda>i.
       bind (initlock (ProcLock i) ''proc'') (\<lambda>_.
       modify (set_proc i (\<lambda>p. p\<lparr>p_state := UNUSED, p_kstack := KSTACK i\<rparr>))))))"

definition allocpid :: "('a procs_scheme, u32) op" where
  "allocpid =
     bind (acquire PidLock) (\<lambda>_.
     bind (gets nextpid) (\<lambda>pid.
     bind (modify (\<lambda>s. s\<lparr>nextpid := nextpid s + 1\<rparr>)) (\<lambda>_.
     bind (release PidLock) (\<lambda>_.
     ret pid))))"

definition proc_pagetable :: "nat \<Rightarrow> ('a procs_scheme, u32) op" where
  "proc_pagetable p =
     bind uvmcreate (\<lambda>pagetable.
     if pagetable = 0 then ret 0
     else
       bind (gets sym_trampoline_start) (\<lambda>tr.
       bind (mappages pagetable TRAMPOLINE PGSIZE tr (PTE_R OR PTE_X)) (\<lambda>r.
       if r < 0 then bind (uvmfree pagetable 0) (\<lambda>_. ret 0)
       else
         bind (gets (\<lambda>s. p_trapframe (ptable s p))) (\<lambda>tf.
         bind (mappages pagetable TRAPFRAME PGSIZE tf (PTE_R OR PTE_W)) (\<lambda>r.
         if r < 0
         then bind (uvmunmap pagetable TRAMPOLINE 1 False) (\<lambda>_.
              bind (uvmfree pagetable 0) (\<lambda>_. ret 0))
         else ret pagetable)))))"

definition proc_freepagetable :: "u32 \<Rightarrow> u32 \<Rightarrow> ('a kmem_scheme, unit) op" where
  "proc_freepagetable pagetable sz =
     bind (uvmunmap pagetable TRAMPOLINE 1 False) (\<lambda>_.
     bind (uvmunmap pagetable TRAPFRAME 1 False) (\<lambda>_.
     uvmfree pagetable sz))"

definition freeproc :: "nat \<Rightarrow> ('a procs_scheme, unit) op" where
  "freeproc p =
     bind (gets (\<lambda>s. p_trapframe (ptable s p))) (\<lambda>tf.
     bind (if tf \<noteq> 0 then kfree tf else ret ()) (\<lambda>_.
     bind (modify (set_proc p (\<lambda>q. q\<lparr>p_trapframe := 0\<rparr>))) (\<lambda>_.
     bind (gets (\<lambda>s. ptable s p)) (\<lambda>q.
     bind (if p_pagetable q \<noteq> 0 then proc_freepagetable (p_pagetable q) (p_sz q) else ret ()) (\<lambda>_.
     modify (set_proc p (\<lambda>q. q\<lparr>p_pagetable := 0, p_sz := 0, p_pid := 0, p_parent := None,
       p_name := (p_name q)[0 := 0], p_chan := None, p_killed := 0, p_xstate := 0, p_state := UNUSED\<rparr>)))))))"

definition zero_context :: kcontext where
  "zero_context = \<lparr>cx_lr = 0, cx_sp = 0, cx_r4 = 0, cx_r5 = 0, cx_r6 = 0, cx_r7 = 0, cx_r8 = 0,
     cx_r9 = 0, cx_r10 = 0, cx_r11 = 0\<rparr>"

fun allocproc_scan :: "nat list \<Rightarrow> ('a procs_scheme, nat option) op" where
  "allocproc_scan [] = ret None"
| "allocproc_scan (p # ps) =
     bind (acquire (ProcLock p)) (\<lambda>_.
     bind (gets (\<lambda>s. p_state (ptable s p))) (\<lambda>st.
     if st = UNUSED then ret (Some p)
     else bind (release (ProcLock p)) (\<lambda>_. allocproc_scan ps)))"

definition allocproc_fail :: "nat \<Rightarrow> ('a procs_scheme, nat option) op" where
  "allocproc_fail p = bind (freeproc p) (\<lambda>_. bind (release (ProcLock p)) (\<lambda>_. ret None))"

definition allocproc :: "('a procs_scheme, nat option) op" where
  "allocproc =
     bind (allocproc_scan [0..<NPROC]) (\<lambda>found.
     case found of None \<Rightarrow> ret None
     | Some p \<Rightarrow>
         bind allocpid (\<lambda>pid.
         bind (modify (set_proc p (\<lambda>q. q\<lparr>p_pid := pid, p_state := USED\<rparr>))) (\<lambda>_.
         bind kalloc (\<lambda>tf.
         bind (modify (set_proc p (\<lambda>q. q\<lparr>p_trapframe := tf\<rparr>))) (\<lambda>_.
         if tf = 0 then allocproc_fail p
         else
           bind (proc_pagetable p) (\<lambda>pt.
           bind (modify (set_proc p (\<lambda>q. q\<lparr>p_pagetable := pt\<rparr>))) (\<lambda>_.
           if pt = 0 then allocproc_fail p
           else
             bind (gets sym_forkret) (\<lambda>fr.
             bind (modify (set_proc p (\<lambda>q. q\<lparr>p_context :=
               zero_context\<lparr>cx_lr := fr, cx_sp := p_kstack q + PGSIZE\<rparr>\<rparr>))) (\<lambda>_.
             ret (Some p))))))))))"

definition growproc :: "u32 \<Rightarrow> ('a procs_scheme, int) op" where
  "growproc n =
     bind curproc (\<lambda>p.
     bind (gets (\<lambda>s. ptable s p)) (\<lambda>q.
     let sz = p_sz q in
     if 0 <s n
     then if TRAPFRAME < sz + n then ret (-1)
          else bind (uvmalloc (p_pagetable q) sz (sz + n) PTE_W) (\<lambda>sz'.
               if sz' = 0 then ret (-1)
               else bind (modify (set_proc p (\<lambda>q. q\<lparr>p_sz := sz'\<rparr>))) (\<lambda>_. ret 0))
     else bind (if n <s 0 then uvmdealloc (p_pagetable q) sz (sz + n) else ret sz) (\<lambda>sz'.
          bind (modify (set_proc p (\<lambda>q. q\<lparr>p_sz := sz'\<rparr>))) (\<lambda>_. ret 0))))"

section \<open>Scheduling\<close>

definition sched :: "('a procs_scheme, unit) op" where
  "sched =
     bind curproc (\<lambda>p.
     bind (holding (ProcLock p)) (\<lambda>h.
     if \<not> h then panic ''sched p->lock''
     else
       bind (gets (\<lambda>s. (mycpu s, ptable s p))) (\<lambda>(c, q).
       if c_noff c \<noteq> 1 then panic ''sched locks''
       else if p_state q = RUNNING then panic ''sched RUNNING''
       else
         bind intr_get (\<lambda>i.
         if i then panic ''sched interruptible''
         else
           bind swtch (\<lambda>_.
           modify (set_mycpu (\<lambda>c'. c'\<lparr>c_intena := c_intena c\<rparr>)))))))"

definition yield :: "('a procs_scheme, unit) op" where
  "yield =
     bind curproc (\<lambda>p.
     bind (acquire (ProcLock p)) (\<lambda>_.
     bind (modify (set_proc p (\<lambda>q. q\<lparr>p_state := RUNNABLE\<rparr>))) (\<lambda>_.
     bind sched (\<lambda>_.
     release (ProcLock p)))))"

definition sleep :: "chan option \<Rightarrow> lock \<Rightarrow> ('a procs_scheme, unit) op" where
  "sleep chan lk =
     bind curproc (\<lambda>p.
     bind (acquire (ProcLock p)) (\<lambda>_.
     bind (release lk) (\<lambda>_.
     bind (modify (set_proc p (\<lambda>q. q\<lparr>p_chan := chan, p_state := SLEEPING\<rparr>))) (\<lambda>_.
     bind sched (\<lambda>_.
     bind (modify (set_proc p (\<lambda>q. q\<lparr>p_chan := None\<rparr>))) (\<lambda>_.
     bind (release (ProcLock p)) (\<lambda>_.
     acquire lk)))))))"

definition wakeup_one :: "chan option \<Rightarrow> nat \<Rightarrow> ('a procs_scheme, unit) op" where
  "wakeup_one chan i =
     bind myproc (\<lambda>me.
     if me = Some i then ret ()
     else
       bind (acquire (ProcLock i)) (\<lambda>_.
       bind (gets (\<lambda>s. ptable s i)) (\<lambda>q.
       bind (if p_state q = SLEEPING \<and> p_chan q = chan
             then modify (set_proc i (\<lambda>q. q\<lparr>p_state := RUNNABLE\<rparr>)) else ret ()) (\<lambda>_.
       release (ProcLock i)))))"

definition wakeup :: "chan option \<Rightarrow> ('a procs_scheme, unit) op" where
  "wakeup chan = for_each [0..<NPROC] (wakeup_one chan)"

text \<open>One scan of the table by the scheduler; the result says whether a process was run.\<close>

fun scheduler_scan :: "nat list \<Rightarrow> bool \<Rightarrow> ('a procs_scheme, bool) op" where
  "scheduler_scan [] found = ret found"
| "scheduler_scan (p # ps) found =
     bind (acquire (ProcLock p)) (\<lambda>_.
     bind (gets (\<lambda>s. p_state (ptable s p))) (\<lambda>st.
     bind (if st = RUNNABLE
           then bind (modify (set_proc p (\<lambda>q. q\<lparr>p_state := RUNNING\<rparr>))) (\<lambda>_.
                bind (modify (set_mycpu (\<lambda>c. c\<lparr>c_proc := Some p\<rparr>))) (\<lambda>_.
                bind swtch (\<lambda>_.
                bind (modify (set_mycpu (\<lambda>c. c\<lparr>c_proc := None\<rparr>))) (\<lambda>_.
                ret True))))
           else ret found) (\<lambda>found'.
     bind (release (ProcLock p)) (\<lambda>_.
     scheduler_scan ps found'))))"

text \<open>\<open>scheduler\<close> never returns; \<open>rounds\<close> bounds how many scans are followed.\<close>

fun scheduler_rounds :: "nat \<Rightarrow> ('a procs_scheme, unit) op" where
  "scheduler_rounds 0 = hang"
| "scheduler_rounds (Suc rounds) =
     bind intr_on (\<lambda>_.
     bind (scheduler_scan [0..<NPROC] False) (\<lambda>found.
     bind (if \<not> found then mmio_w REG_WFI 0 else ret ()) (\<lambda>_.
     scheduler_rounds rounds)))"

definition scheduler :: "nat \<Rightarrow> ('a procs_scheme, unit) op" where
  "scheduler rounds =
     bind (modify (set_mycpu (\<lambda>c. c\<lparr>c_proc := None\<rparr>))) (\<lambda>_. scheduler_rounds rounds)"

section \<open>Killing and waiting\<close>

fun kkill_scan :: "u32 \<Rightarrow> nat list \<Rightarrow> ('a procs_scheme, int) op" where
  "kkill_scan pid [] = ret (-1)"
| "kkill_scan pid (p # ps) =
     bind (acquire (ProcLock p)) (\<lambda>_.
     bind (gets (\<lambda>s. ptable s p)) (\<lambda>q.
     if p_pid q = pid
     then bind (modify (set_proc p (\<lambda>q. q\<lparr>p_killed := 1,
            p_state := (if p_state q = SLEEPING then RUNNABLE else p_state q)\<rparr>))) (\<lambda>_.
          bind (release (ProcLock p)) (\<lambda>_. ret 0))
     else bind (release (ProcLock p)) (\<lambda>_. kkill_scan pid ps)))"

definition kkill :: "u32 \<Rightarrow> ('a procs_scheme, int) op" where
  "kkill pid = kkill_scan pid [0..<NPROC]"

definition setkilled :: "nat \<Rightarrow> ('a procs_scheme, unit) op" where
  "setkilled p =
     bind (acquire (ProcLock p)) (\<lambda>_.
     bind (modify (set_proc p (\<lambda>q. q\<lparr>p_killed := 1\<rparr>))) (\<lambda>_.
     release (ProcLock p)))"

definition killed :: "nat \<Rightarrow> ('a procs_scheme, u32) op" where
  "killed p =
     bind (acquire (ProcLock p)) (\<lambda>_.
     bind (gets (\<lambda>s. p_killed (ptable s p))) (\<lambda>k.
     bind (release (ProcLock p)) (\<lambda>_.
     ret k)))"

definition reparent :: "nat \<Rightarrow> ('a procs_scheme, unit) op" where
  "reparent p =
     for_each [0..<NPROC] (\<lambda>i.
       bind (gets (\<lambda>s. p_parent (ptable s i))) (\<lambda>par.
       if par = Some p
       then bind (gets initproc) (\<lambda>ip.
            bind (modify (set_proc i (\<lambda>q. q\<lparr>p_parent := ip\<rparr>))) (\<lambda>_.
            wakeup (map_option ProcChan ip)))
       else ret ()))"

text \<open>The scan of \<open>kwait\<close>: a result to return, or whether there are children.\<close>

fun kwait_scan :: "nat \<Rightarrow> u32 \<Rightarrow> nat list \<Rightarrow> bool \<Rightarrow> ('a procs_scheme, u32 + bool) op" where
  "kwait_scan p addr [] havekids = ret (Inr havekids)"
| "kwait_scan p addr (i # is) havekids =
     bind (gets (\<lambda>s. p_parent (ptable s i))) (\<lambda>par.
     if par = Some p
     then
       bind (acquire (ProcLock i)) (\<lambda>_.
       bind (gets (\<lambda>s. (ptable s i, ptable s p))) (\<lambda>(q, me).
       if p_state q = ZOMBIE
       then
         bind (if addr \<noteq> 0 then copyout (p_pagetable me) addr (bytes32 (p_xstate q)) else ret 0) (\<lambda>r.
         if r < 0
         then bind (release (ProcLock i)) (\<lambda>_. bind (release WaitLock) (\<lambda>_. ret (Inl (-1))))
         else
           bind (freeproc i) (\<lambda>_.
           bind (release (ProcLock i)) (\<lambda>_.
           bind (release WaitLock) (\<lambda>_.
           ret (Inl (p_pid q))))))
       else bind (release (ProcLock i)) (\<lambda>_. kwait_scan p addr is True)))
     else kwait_scan p addr is havekids)"

fun kwait_loop :: "nat \<Rightarrow> nat \<Rightarrow> u32 \<Rightarrow> ('a procs_scheme, u32) op" where
  "kwait_loop 0 p addr = hang"
| "kwait_loop (Suc fuel) p addr =
     bind (kwait_scan p addr [0..<NPROC] False) (\<lambda>r.
     case r of Inl x \<Rightarrow> ret x
     | Inr havekids \<Rightarrow>
         bind (if havekids then killed p else ret 1) (\<lambda>k.
         if k \<noteq> 0 then bind (release WaitLock) (\<lambda>_. ret (-1))
         else bind (sleep (Some (ProcChan p)) WaitLock) (\<lambda>_. kwait_loop fuel p addr)))"

definition kwait :: "u32 \<Rightarrow> ('a procs_scheme, u32) op" where
  "kwait addr =
     bind curproc (\<lambda>p.
     bind (acquire WaitLock) (\<lambda>_.
     (\<lambda>P s. kwait_loop (Suc (resumptions P s)) p addr P s)))"

section \<open>Copying to user or kernel\<close>

definition either_copyout :: "bool \<Rightarrow> u32 \<Rightarrow> u8 list \<Rightarrow> ('a procs_scheme, int) op" where
  "either_copyout user_dst dst src =
     bind myproc (\<lambda>me.
     if user_dst
     then bind (deref me) (\<lambda>p.
          bind (gets (\<lambda>s. p_pagetable (ptable s p))) (\<lambda>pt. copyout pt dst src))
     else bind (modify (\<lambda>s. s\<lparr>mem := write_bytes (mem s) dst src\<rparr>)) (\<lambda>_. ret 0))"

definition either_copyin :: "bool \<Rightarrow> u32 \<Rightarrow> nat \<Rightarrow> ('a procs_scheme, int \<times> u8 list) op" where
  "either_copyin user_src src len =
     bind myproc (\<lambda>me.
     if user_src
     then bind (deref me) (\<lambda>p.
          bind (gets (\<lambda>s. p_pagetable (ptable s p))) (\<lambda>pt. copyin pt src len))
     else bind (gets (\<lambda>s. read_bytes (mem s) src len)) (\<lambda>bs. ret (0, bs)))"

end
