(* ===== verification/Sleeplock.thy ===== *)
theory Sleeplock
  imports Proc
begin

text \<open>
  Sleep locks, \<open>kernel/sleeplock.c\<close>. A sleep lock is named by the spin lock inside it.
\<close>

record sleeplock =
  lk_locked :: u32
  lk_name :: string
  lk_pid :: u32

record slocks = procs +
  sleeplocks :: "lock \<Rightarrow> sleeplock"

definition set_sleeplock :: "lock \<Rightarrow> (sleeplock \<Rightarrow> sleeplock) \<Rightarrow> 'a slocks_scheme \<Rightarrow> 'a slocks_scheme" where
  "set_sleeplock lk f s = s\<lparr>sleeplocks := (sleeplocks s)(lk := f (sleeplocks s lk))\<rparr>"

definition initsleeplock :: "lock \<Rightarrow> string \<Rightarrow> ('a slocks_scheme, unit) op" where
  "initsleeplock lk name =
     bind (initlock lk ''sleep lock'') (\<lambda>_.
     modify (set_sleeplock lk (\<lambda>_. \<lparr>lk_locked = 0, lk_name = name, lk_pid = 0\<rparr>)))"

fun acquiresleep_wait :: "nat \<Rightarrow> lock \<Rightarrow> ('a slocks_scheme, unit) op" where
  "acquiresleep_wait 0 lk = hang"
| "acquiresleep_wait (Suc fuel) lk =
     bind (gets (\<lambda>s. lk_locked (sleeplocks s lk))) (\<lambda>locked.
     if locked \<noteq> 0
     then bind (sleep (Some (SleepChan lk)) lk) (\<lambda>_. acquiresleep_wait fuel lk)
     else ret ())"

definition acquiresleep :: "lock \<Rightarrow> ('a slocks_scheme, unit) op" where
  "acquiresleep lk =
     bind (acquire lk) (\<lambda>_.
     bind (\<lambda>P s. acquiresleep_wait (Suc (resumptions P s)) lk P s) (\<lambda>_.
     bind (modify (set_sleeplock lk (\<lambda>k. k\<lparr>lk_locked := 1\<rparr>))) (\<lambda>_.
     bind curproc (\<lambda>p.
     bind (modify (\<lambda>s. set_sleeplock lk (\<lambda>k. k\<lparr>lk_pid := p_pid (ptable s p)\<rparr>) s)) (\<lambda>_.
     release lk)))))"

definition releasesleep :: "lock \<Rightarrow> ('a slocks_scheme, unit) op" where
  "releasesleep lk =
     bind (acquire lk) (\<lambda>_.
     bind (modify (set_sleeplock lk (\<lambda>k. k\<lparr>lk_locked := 0, lk_pid := 0\<rparr>))) (\<lambda>_.
     bind (wakeup (Some (SleepChan lk))) (\<lambda>_.
     release lk)))"

definition holdingsleep :: "lock \<Rightarrow> ('a slocks_scheme, bool) op" where
  "holdingsleep lk =
     bind (acquire lk) (\<lambda>_.
     bind (gets (\<lambda>s. sleeplocks s lk)) (\<lambda>k.
     bind (if lk_locked k \<noteq> 0
           then bind curproc (\<lambda>p. gets (\<lambda>s. lk_pid k = p_pid (ptable s p))) else ret False) (\<lambda>r.
     bind (release lk) (\<lambda>_.
     ret r))))"

end
