(* ===== verification/Uart.thy ===== *)
theory Uart
  imports Sleeplock
begin

text \<open>
  The serial line, \<open>kernel/uart.c\<close> (\<open>uartintr\<close> feeds the console and is in \<open>Console\<close>), and the
  globals of \<open>uart.c\<close>, \<open>printf.c\<close> and \<open>console.c\<close>. Spinning on the transmitter is bounded by
  \<open>polls\<close> of the platform.
\<close>

record console = slocks +
  tx_busy :: bool
  panicking :: bool
  panicked :: bool
  cons_buf :: "u8 list"
  cons_r :: u32
  cons_w :: u32
  cons_e :: u32
  devsw :: "nat \<Rightarrow> bool"      \<comment> \<open>whether the slot holds \<open>consoleread\<close> and \<open>consolewrite\<close>\<close>

definition UART_STATUS :: u32 where "UART_STATUS = 0x03F00000"
definition UART_TX :: u32 where "UART_TX = 0x03F00004"
definition UART_RX :: u32 where "UART_RX = 0x03F00008"
definition UART_CTRL :: u32 where "UART_CTRL = 0x03F0000C"
definition UART_STATUS_TX_READY :: u32 where "UART_STATUS_TX_READY = 1"
definition UART_STATUS_RX_AVAIL :: u32 where "UART_STATUS_RX_AVAIL = 2"
definition UART_CTRL_RX_IRQ :: u32 where "UART_CTRL_RX_IRQ = 1"
definition UART_CTRL_TX_IRQ :: u32 where "UART_CTRL_TX_IRQ = 2"

definition uartinit :: "('a console_scheme, unit) op" where
  "uartinit = bind (mmio_w UART_CTRL UART_CTRL_RX_IRQ) (\<lambda>_. initlock TxLock ''uart'')"

fun uartwrite_wait :: "nat \<Rightarrow> ('a console_scheme, unit) op" where
  "uartwrite_wait 0 = hang"
| "uartwrite_wait (Suc fuel) =
     bind (gets tx_busy) (\<lambda>busy.
     if busy then bind (sleep (Some TxChan) TxLock) (\<lambda>_. uartwrite_wait fuel) else ret ())"

definition uartwrite :: "u8 list \<Rightarrow> ('a console_scheme, unit) op" where
  "uartwrite buf =
     bind (acquire TxLock) (\<lambda>_.
     bind (for_each buf (\<lambda>c.
       bind (\<lambda>P s. uartwrite_wait (Suc (resumptions P s)) P s) (\<lambda>_.
       bind (mmio_w UART_TX (ucast c)) (\<lambda>_.
       bind (modify (\<lambda>s. s\<lparr>tx_busy := True\<rparr>)) (\<lambda>_.
       mmio_w UART_CTRL (UART_CTRL_RX_IRQ OR UART_CTRL_TX_IRQ)))))) (\<lambda>_.
     release TxLock))"

fun uart_tx_ready :: "nat \<Rightarrow> ('a mach_scheme, unit) op" where
  "uart_tx_ready 0 = hang"
| "uart_tx_ready (Suc n) =
     bind (mmio_r UART_STATUS) (\<lambda>st.
     if st AND UART_STATUS_TX_READY = 0 then uart_tx_ready n else ret ())"

definition uartputc_sync :: "u32 \<Rightarrow> ('a console_scheme, unit) op" where
  "uartputc_sync c =
     bind (gets panicking) (\<lambda>pg.
     bind (if \<not> pg then push_off else ret ()) (\<lambda>_.
     bind (gets panicked) (\<lambda>pd.
     if pd then hang
     else
       bind (\<lambda>P s. uart_tx_ready (Suc (polls P)) P s) (\<lambda>_.
       bind (mmio_w UART_TX (c AND 0xFF)) (\<lambda>_.
       bind (gets panicking) (\<lambda>pg.
       if \<not> pg then pop_off else ret ()))))))"

definition uartgetc :: "('a mach_scheme, int) op" where
  "uartgetc =
     bind (mmio_r UART_STATUS) (\<lambda>st.
     if st AND UART_STATUS_RX_AVAIL \<noteq> 0
     then bind (mmio_r UART_RX) (\<lambda>c. ret (uint (c AND 0xFF)))
     else ret (-1))"

end
