(* ===== verification/Printf.thy ===== *)
theory Printf
  imports Uart
begin

text \<open>
  Formatted console output, \<open>kernel/printf.c\<close>, with \<open>consputc\<close> of \<open>kernel/console.c\<close> and
  \<open>procdump\<close> of \<open>kernel/proc.c\<close>. A variable argument is a word or a string pointer; a format
  that asks for an argument that was not passed, undefined in C, is \<open>Panic ''va_arg''\<close>, and
  filling the digit buffer beyond its 20 bytes would be \<open>Panic ''printint''\<close>.
  Everywhere else in the model \<open>panic\<close> is the outcome \<open>Panic\<close>; what it prints is \<open>kpanic\<close>.
\<close>

definition BACKSPACE :: u32 where "BACKSPACE = 0x100"

definition consputc :: "u32 \<Rightarrow> ('a console_scheme, unit) op" where
  "consputc c =
     (if c = BACKSPACE
      then bind (uartputc_sync 8) (\<lambda>_. bind (uartputc_sync 32) (\<lambda>_. uartputc_sync 8))
      else uartputc_sync c)"

definition putchars :: "u8 list \<Rightarrow> ('a console_scheme, unit) op" where
  "putchars bs = for_each bs (\<lambda>b. consputc (ucast b))"

datatype fmt_arg = ANum u32 | AStr "u8 list option"

definition digits :: "u8 list" where
  "digits = cs ''0123456789abcdef''"

text \<open>The digits of \<open>x\<close>, least significant first, into a buffer with room for \<open>room\<close> of them.\<close>

fun printint_digits :: "nat \<Rightarrow> u32 \<Rightarrow> u32 \<Rightarrow> u8 list option" where
  "printint_digits 0 x base = None"
| "printint_digits (Suc room) x base =
     (let d = digits ! unat (x mod base); x' = x div base in
      if x' = 0 then Some [d] else map_option ((#) d) (printint_digits room x' base))"

definition printint_buf :: "u32 \<Rightarrow> u32 \<Rightarrow> bool \<Rightarrow> u8 list option" where
  "printint_buf xx base sign =
     (let neg = sign \<and> xx <s 0; x = (if neg then - xx else xx) in
      case printint_digits 20 x base of None \<Rightarrow> None
      | Some buf \<Rightarrow> if neg then (if length buf < 20 then Some (buf @ cs ''-'') else None) else Some buf)"

definition printint :: "u32 \<Rightarrow> u32 \<Rightarrow> bool \<Rightarrow> ('a console_scheme, unit) op" where
  "printint xx base sign =
     (case printint_buf xx base sign of None \<Rightarrow> panic ''printint'' | Some buf \<Rightarrow> putchars (rev buf))"

definition ptr_digits :: "u32 \<Rightarrow> u8 list" where
  "ptr_digits x = map (\<lambda>i. digits ! unat (drop_bit 28 (push_bit (4 * i) x))) [0..<8]"

definition printptr :: "u32 \<Rightarrow> ('a console_scheme, unit) op" where
  "printptr x = putchars (cs ''0x'' @ ptr_digits x)"

text \<open>A conversion: the characters after the percent sign that it consumes, and what it does.\<close>

datatype conversion = CInt u32 bool | CPtr | CChar | CStr | CPercent

definition conversion_of :: "u8 list \<Rightarrow> (conversion \<times> nat) option" where
  "conversion_of f =
     (let c = (\<lambda>i. if i < length f then f ! i else 0) in
      if c 0 = of_char CHR ''d'' then Some (CInt 10 True, 1)
      else if c 0 = of_char CHR ''l'' \<and> c 1 = of_char CHR ''d'' then Some (CInt 10 True, 2)
      else if c 0 = of_char CHR ''l'' \<and> c 1 = of_char CHR ''l'' \<and> c 2 = of_char CHR ''d'' then Some (CInt 10 True, 3)
      else if c 0 = of_char CHR ''u'' then Some (CInt 10 False, 1)
      else if c 0 = of_char CHR ''l'' \<and> c 1 = of_char CHR ''u'' then Some (CInt 10 False, 2)
      else if c 0 = of_char CHR ''l'' \<and> c 1 = of_char CHR ''l'' \<and> c 2 = of_char CHR ''u'' then Some (CInt 10 False, 3)
      else if c 0 = of_char CHR ''x'' then Some (CInt 16 False, 1)
      else if c 0 = of_char CHR ''l'' \<and> c 1 = of_char CHR ''x'' then Some (CInt 16 False, 2)
      else if c 0 = of_char CHR ''l'' \<and> c 1 = of_char CHR ''l'' \<and> c 2 = of_char CHR ''x'' then Some (CInt 16 False, 3)
      else if c 0 = of_char CHR ''p'' then Some (CPtr, 1)
      else if c 0 = of_char CHR ''c'' then Some (CChar, 1)
      else if c 0 = of_char CHR ''s'' then Some (CStr, 1)
      else if c 0 = of_char CHR ''%'' then Some (CPercent, 1)
      else None)"

definition print_conversion :: "conversion \<Rightarrow> fmt_arg list \<Rightarrow> ('a console_scheme, fmt_arg list) op" where
  "print_conversion cv args =
     (case (cv, args) of
        (CInt base sign, ANum n # ap) \<Rightarrow> bind (printint n base sign) (\<lambda>_. ret ap)
      | (CPtr, ANum n # ap) \<Rightarrow> bind (printptr n) (\<lambda>_. ret ap)
      | (CChar, ANum n # ap) \<Rightarrow> bind (consputc n) (\<lambda>_. ret ap)
      | (CStr, AStr (Some str) # ap) \<Rightarrow> bind (putchars str) (\<lambda>_. ret ap)
      | (CStr, AStr None # ap) \<Rightarrow> bind (putchars (cs ''(null)'')) (\<lambda>_. ret ap)
      | (CPercent, ap) \<Rightarrow> bind (consputc (of_char CHR ''%'')) (\<lambda>_. ret ap)
      | _ \<Rightarrow> panic ''va_arg'')"

function printf_loop :: "u8 list \<Rightarrow> fmt_arg list \<Rightarrow> ('a console_scheme, unit) op" where
  "printf_loop [] ap = ret ()"
| "printf_loop (cx # f) ap =
     (if cx \<noteq> of_char CHR ''%'' then bind (consputc (ucast cx)) (\<lambda>_. printf_loop f ap)
      else case conversion_of f of
        Some (cv, k) \<Rightarrow> bind (print_conversion cv ap) (\<lambda>ap'. printf_loop (drop k f) ap')
      | None \<Rightarrow>
          (case f of [] \<Rightarrow> ret ()
           | c0 # f' \<Rightarrow>
               bind (consputc (of_char CHR ''%'')) (\<lambda>_.
               bind (consputc (ucast c0)) (\<lambda>_. printf_loop f' ap))))"
  by pat_completeness auto
termination by (relation "measure (\<lambda>(f, ap). length f)") auto

definition printf :: "u8 list \<Rightarrow> fmt_arg list \<Rightarrow> ('a console_scheme, unit) op" where
  "printf fmt ap =
     bind (gets panicking) (\<lambda>pg.
     bind (if \<not> pg then acquire PrLock else ret ()) (\<lambda>_.
     bind (printf_loop fmt ap) (\<lambda>_.
     bind (gets panicking) (\<lambda>pg.
     if \<not> pg then release PrLock else ret ()))))"

definition kpanic :: "string \<Rightarrow> ('a console_scheme, unit) op" where
  "kpanic msg =
     bind (modify (\<lambda>s. s\<lparr>panicking := True\<rparr>)) (\<lambda>_.
     bind (printf (cs ''panic: '') []) (\<lambda>_.
     bind (printf (cs ''%s'' @ [10]) [AStr (Some (cs msg))]) (\<lambda>_.
     bind (modify (\<lambda>s. s\<lparr>panicked := True\<rparr>)) (\<lambda>_.
     hang))))"

definition printfinit :: "('a console_scheme, unit) op" where
  "printfinit = initlock PrLock ''pr''"

definition state_name :: "procstate \<Rightarrow> string" where
  "state_name st = (case st of UNUSED \<Rightarrow> ''unused'' | USED \<Rightarrow> ''used'' | SLEEPING \<Rightarrow> ''sleep ''
     | RUNNABLE \<Rightarrow> ''runble'' | RUNNING \<Rightarrow> ''run   '' | ZOMBIE \<Rightarrow> ''zombie'')"

definition procdump :: "('a console_scheme, unit) op" where
  "procdump =
     bind (printf [10] []) (\<lambda>_.
     for_each [0..<NPROC] (\<lambda>i.
       bind (gets (\<lambda>s. ptable s i)) (\<lambda>p.
       if p_state p = UNUSED then ret ()
       else
         bind (printf (cs ''%d %s %s'')
           [ANum (p_pid p), AStr (Some (cs (state_name (p_state p)))),
            AStr (Some (takeWhile (\<lambda>c. c \<noteq> 0) (p_name p)))]) (\<lambda>_.
         printf [10] []))))"

end
