(* ===== verification/Console.thy ===== *)
theory Console
  imports Printf
begin

text \<open>
  The console device, \<open>kernel/console.c\<close>, and \<open>uartintr\<close> of \<open>kernel/uart.c\<close>: a ring of 128
  bytes with a read, a write and an edit index, filled by the interrupt handler and emptied
  line by line by \<open>consoleread\<close>.
\<close>

section \<open>Operations\<close>

definition INPUT_BUF_SIZE :: u32 where "INPUT_BUF_SIZE = 128"

definition cons_at :: "'a console_scheme \<Rightarrow> u32 \<Rightarrow> u8" where
  "cons_at s i = cons_buf s ! unat (i mod INPUT_BUF_SIZE)"

definition CONSOLE :: nat where "CONSOLE = 1"
definition CTRL_D :: u8 where "CTRL_D = 4"
definition NL :: u8 where "NL = 10"

fun consolewrite_loop :: "bool \<Rightarrow> u32 \<Rightarrow> nat \<Rightarrow> nat \<Rightarrow> ('a console_scheme, nat) op" where
  "consolewrite_loop user_src src i 0 = ret i"
| "consolewrite_loop user_src src i (Suc rest) =
     bind (either_copyin user_src (src + of_nat i) 1) (\<lambda>(r, c).
     if r = -1 then ret i
     else bind (uartputc_sync (ucast (hd c))) (\<lambda>_. consolewrite_loop user_src src (Suc i) rest))"

definition consolewrite :: "bool \<Rightarrow> u32 \<Rightarrow> int \<Rightarrow> ('a console_scheme, int) op" where
  "consolewrite user_src src n = bind (consolewrite_loop user_src src 0 (nat n)) (\<lambda>i. ret (int i))"

text \<open>Wait for input; the result says whether to go on (the process was not killed).\<close>

fun consoleread_wait :: "nat \<Rightarrow> ('a console_scheme, bool) op" where
  "consoleread_wait 0 = hang"
| "consoleread_wait (Suc fuel) =
     bind (gets (\<lambda>s. cons_r s = cons_w s)) (\<lambda>empty.
     if \<not> empty then ret True
     else
       bind curproc (\<lambda>p.
       bind (killed p) (\<lambda>k.
       if k \<noteq> 0 then ret False
       else bind (sleep (Some ConsChan) ConsLock) (\<lambda>_. consoleread_wait fuel))))"

text \<open>\<open>target - n\<close> bytes have been delivered so far.\<close>

fun consoleread_loop :: "bool \<Rightarrow> u32 \<Rightarrow> nat \<Rightarrow> nat \<Rightarrow> ('a console_scheme, int) op" where
  "consoleread_loop user_dst dst target 0 = bind (release ConsLock) (\<lambda>_. ret (int target))"
| "consoleread_loop user_dst dst target (Suc m) =
     bind (\<lambda>P s. consoleread_wait (Suc (resumptions P s)) P s) (\<lambda>go.
     if \<not> go then bind (release ConsLock) (\<lambda>_. ret (-1))
     else
       let stop = (\<lambda>n. bind (release ConsLock) (\<lambda>_. ret (int target - int n))) in
       bind (gets (\<lambda>s. cons_at s (cons_r s))) (\<lambda>c.
       bind (modify (\<lambda>s. s\<lparr>cons_r := cons_r s + 1\<rparr>)) (\<lambda>_.
       if c = CTRL_D
       then bind (modify (\<lambda>s. if Suc m < target then s\<lparr>cons_r := cons_r s - 1\<rparr> else s)) (\<lambda>_. stop (Suc m))
       else
         bind (either_copyout user_dst dst [c]) (\<lambda>r.
         if r = -1 then stop (Suc m)
         else if c = NL then stop m
         else consoleread_loop user_dst (dst + 1) target m))))"

definition consoleread :: "bool \<Rightarrow> u32 \<Rightarrow> int \<Rightarrow> ('a console_scheme, int) op" where
  "consoleread user_dst dst n =
     bind (acquire ConsLock) (\<lambda>_.
     if n \<le> 0 then bind (release ConsLock) (\<lambda>_. ret 0)
     else consoleread_loop user_dst dst (nat n) (nat n))"

text \<open>Kill line: at most \<open>INPUT_BUF_SIZE\<close> characters lie between the write and the edit index;
  \<open>fuel\<close> counts all index values.\<close>

fun console_kill_line :: "nat \<Rightarrow> ('a console_scheme, unit) op" where
  "console_kill_line 0 = hang"
| "console_kill_line (Suc fuel) =
     bind (gets (\<lambda>s. cons_e s \<noteq> cons_w s \<and> cons_at s (cons_e s - 1) \<noteq> NL)) (\<lambda>more.
     if \<not> more then ret ()
     else
       bind (modify (\<lambda>s. s\<lparr>cons_e := cons_e s - 1\<rparr>)) (\<lambda>_.
       bind (consputc BACKSPACE) (\<lambda>_.
       console_kill_line fuel)))"

definition consoleintr_char :: "u8 \<Rightarrow> ('a console_scheme, unit) op" where
  "consoleintr_char c0 =
     bind (gets (\<lambda>s. c0 \<noteq> 0 \<and> cons_e s - cons_r s < INPUT_BUF_SIZE)) (\<lambda>room.
     if \<not> room then ret ()
     else
       let c = (if c0 = 13 then NL else c0) in
       bind (consputc (ucast c)) (\<lambda>_.
       bind (modify (\<lambda>s. s\<lparr>cons_buf := (cons_buf s)[unat (cons_e s mod INPUT_BUF_SIZE) := c],
         cons_e := cons_e s + 1\<rparr>)) (\<lambda>_.
       bind (gets (\<lambda>s. c = NL \<or> c = CTRL_D \<or> cons_e s - cons_r s = INPUT_BUF_SIZE)) (\<lambda>line.
       if line
       then bind (modify (\<lambda>s. s\<lparr>cons_w := cons_e s\<rparr>)) (\<lambda>_. wakeup (Some ConsChan))
       else ret ()))))"

definition consoleintr :: "u8 \<Rightarrow> ('a console_scheme, unit) op" where
  "consoleintr c =
     bind (acquire ConsLock) (\<lambda>_.
     bind (if c = 16 then procdump
           else if c = 21 then console_kill_line (2 ^ 32)
           else if c = 8 \<or> c = 0x7f
           then bind (gets (\<lambda>s. cons_e s \<noteq> cons_w s)) (\<lambda>some.
                if some then bind (modify (\<lambda>s. s\<lparr>cons_e := cons_e s - 1\<rparr>)) (\<lambda>_. consputc BACKSPACE)
                else ret ())
           else consoleintr_char c) (\<lambda>_.
     release ConsLock))"

definition consoleinit :: "('a console_scheme, unit) op" where
  "consoleinit = bind (initlock ConsLock ''cons'') (\<lambda>_.
     bind uartinit (\<lambda>_.
     modify (\<lambda>s. s\<lparr>devsw := (devsw s)(CONSOLE := True)\<rparr>)))"

fun uartintr_drain :: "nat \<Rightarrow> ('a console_scheme, unit) op" where
  "uartintr_drain 0 = hang"
| "uartintr_drain (Suc n) =
     bind uartgetc (\<lambda>c.
     if c = -1 then ret () else bind (consoleintr (of_int c)) (\<lambda>_. uartintr_drain n))"

definition uartintr :: "('a console_scheme, unit) op" where
  "uartintr =
     bind (acquire TxLock) (\<lambda>_.
     bind (mmio_r UART_STATUS) (\<lambda>st.
     bind (gets tx_busy) (\<lambda>busy.
     bind (if st AND UART_STATUS_TX_READY \<noteq> 0 \<and> busy
           then bind (modify (\<lambda>s. s\<lparr>tx_busy := False\<rparr>)) (\<lambda>_.
                bind (mmio_w UART_CTRL UART_CTRL_RX_IRQ) (\<lambda>_.
                wakeup (Some TxChan)))
           else ret ()) (\<lambda>_.
     bind (release TxLock) (\<lambda>_.
     (\<lambda>P s. uartintr_drain (Suc (polls P)) P s))))))"

end
