(* ===== verification/Disk.thy ===== *)
theory Disk
  imports Console
begin

text \<open>
  The block device driver, \<open>kernel/virtio_disk.c\<close>, and \<^verbatim>\<open>struct buf\<close> of \<open>kernel/buf.h\<close>.
  A buffer is its index in \<open>bcache_buf\<close>; index \<open>NBUF\<close> is the list head \<open>bcache_head\<close>.

  The device itself is behind the platform. What the driver relies on is \<open>blk_dev\<close> of \<open>DiskProps\<close>: a command
  moves one 512-byte sector between the disk and the memory at \<open>BLK_BUFFER\<close> and completes at
  once, as the comments of the driver document it.
\<close>

definition BSIZE :: nat where "BSIZE = 1024"

definition BLK_SECTOR :: u32 where "BLK_SECTOR = 0x03F03000"
definition BLK_BUFFER :: u32 where "BLK_BUFFER = 0x03F03004"
definition BLK_CMD :: u32 where "BLK_CMD = 0x03F03008"
definition BLK_STATUS :: u32 where "BLK_STATUS = 0x03F0300C"
definition BLK_CTRL :: u32 where "BLK_CTRL = 0x03F03010"

definition BLK_CMD_READ :: u32 where "BLK_CMD_READ = 1"
definition BLK_CMD_WRITE :: u32 where "BLK_CMD_WRITE = 2"
definition BLK_STATUS_BUSY :: u32 where "BLK_STATUS_BUSY = 1"
definition BLK_STATUS_ERR :: u32 where "BLK_STATUS_ERR = 2"

definition SECTOR_SIZE :: nat where "SECTOR_SIZE = 512"
definition SECTORS_PER_BLOCK :: nat where "SECTORS_PER_BLOCK = BSIZE div SECTOR_SIZE"

record buf =
  b_valid :: bool
  b_dev :: u32
  b_blockno :: u32
  b_refcnt :: u32
  b_prev :: nat
  b_next :: nat
  b_data :: "u8 list"

record bcache = console +
  bufs :: "nat \<Rightarrow> buf"
  inflight :: "nat option"
  bounce :: u32             \<comment> \<open>the address of the bounce buffer\<close>

definition set_buf :: "nat \<Rightarrow> (buf \<Rightarrow> buf) \<Rightarrow> 'a bcache_scheme \<Rightarrow> 'a bcache_scheme" where
  "set_buf b f s = s\<lparr>bufs := (bufs s)(b := f (bufs s b))\<rparr>"

definition virtio_disk_init :: "('a bcache_scheme, unit) op" where
  "virtio_disk_init = bind (initlock DiskLock ''blkdev'') (\<lambda>_. mmio_w BLK_CTRL 0)"

text \<open>Read the status until the device is not busy; the value read last.\<close>

fun blk_poll :: "nat \<Rightarrow> ('a mach_scheme, u32) op" where
  "blk_poll 0 = hang"
| "blk_poll (Suc n) =
     bind (mmio_r BLK_STATUS) (\<lambda>st. if st = BLK_STATUS_BUSY then blk_poll n else ret st)"

definition blk_wait :: "('a mach_scheme, u32) op" where
  "blk_wait P s = blk_poll (Suc (polls P)) P s"

definition virtio_disk_sector :: "nat \<Rightarrow> bool \<Rightarrow> nat \<Rightarrow> ('a bcache_scheme, unit) op" where
  "virtio_disk_sector b write i =
     bind (gets (\<lambda>s. (b_blockno (bufs s b), bounce s))) (\<lambda>(blockno, bb).
     let sector = blockno * of_nat SECTORS_PER_BLOCK + of_nat i; buf_pa = bb + of_nat (i * SECTOR_SIZE) in
     bind (mmio_w BLK_SECTOR sector) (\<lambda>_.
     bind (mmio_w BLK_BUFFER buf_pa) (\<lambda>_.
     bind (mmio_w BLK_CMD (if write then BLK_CMD_WRITE else BLK_CMD_READ)) (\<lambda>_.
     bind blk_wait (\<lambda>st.
     if st = BLK_STATUS_ERR then panic ''virtio_disk_rw: I/O error'' else ret ())))))"

definition virtio_disk_rw :: "nat \<Rightarrow> bool \<Rightarrow> ('a bcache_scheme, unit) op" where
  "virtio_disk_rw b write =
     bind (acquire DiskLock) (\<lambda>_.
     bind blk_wait (\<lambda>_.
     bind (if write
           then modify (\<lambda>s. s\<lparr>mem := write_bytes (mem s) (bounce s) (take BSIZE (b_data (bufs s b)))\<rparr>)
           else ret ()) (\<lambda>_.
     bind (for_each [0..<SECTORS_PER_BLOCK] (virtio_disk_sector b write)) (\<lambda>_.
     bind (if \<not> write
           then modify (\<lambda>s. set_buf b (\<lambda>q. q\<lparr>b_data := read_bytes (mem s) (bounce s) BSIZE\<rparr>) s)
           else ret ()) (\<lambda>_.
     release DiskLock)))))"

definition virtio_disk_intr :: "('a bcache_scheme, unit) op" where
  "virtio_disk_intr =
     bind (acquire DiskLock) (\<lambda>_.
     bind (gets inflight) (\<lambda>b.
     bind (if b \<noteq> None then wakeup (map_option DiskChan b) else ret ()) (\<lambda>_.
     release DiskLock)))"

end
