(* ===== verification/Bio.thy ===== *)
theory Bio
  imports Disk
begin

text \<open>
  The buffer cache, \<open>kernel/bio.c\<close>: a doubly linked list of buffers through \<open>b_next\<close> and
  \<open>b_prev\<close>, most recently used first. The list has \<open>NBUF\<close> elements, so \<open>Suc NBUF\<close> steps of a
  traversal come back to the head.
\<close>

section \<open>Operations\<close>

definition bhead :: nat where
  "bhead = NBUF"

definition bcache_insert :: "nat \<Rightarrow> 'a bcache_scheme \<Rightarrow> 'a bcache_scheme" where
  "bcache_insert b s =
     (let s = set_buf b (\<lambda>q. q\<lparr>b_next := b_next (bufs s bhead)\<rparr>) s;
          s = set_buf b (\<lambda>q. q\<lparr>b_prev := bhead\<rparr>) s;
          s = set_buf (b_next (bufs s bhead)) (\<lambda>q. q\<lparr>b_prev := b\<rparr>) s
      in set_buf bhead (\<lambda>q. q\<lparr>b_next := b\<rparr>) s)"

definition bcache_remove :: "nat \<Rightarrow> 'a bcache_scheme \<Rightarrow> 'a bcache_scheme" where
  "bcache_remove b s =
     (let s = set_buf (b_next (bufs s b)) (\<lambda>q. q\<lparr>b_prev := b_prev (bufs s b)\<rparr>) s
      in set_buf (b_prev (bufs s b)) (\<lambda>q. q\<lparr>b_next := b_next (bufs s b)\<rparr>) s)"

definition binit :: "('a bcache_scheme, unit) op" where
  "binit =
     bind (initlock BcacheLock ''bcache'') (\<lambda>_.
     bind (modify (set_buf bhead (\<lambda>q. q\<lparr>b_prev := bhead, b_next := bhead\<rparr>))) (\<lambda>_.
     for_each [0..<NBUF] (\<lambda>b.
       bind (initsleeplock (BufLk b) ''buffer'') (\<lambda>_.
       modify (bcache_insert b)))))"

text \<open>The two searches of \<open>bget\<close>: forwards for the block, backwards for an unused buffer.\<close>

fun bget_cached :: "nat \<Rightarrow> (nat \<Rightarrow> buf) \<Rightarrow> u32 \<Rightarrow> u32 \<Rightarrow> nat \<Rightarrow> nat option" where
  "bget_cached 0 bs dev blockno b = None"
| "bget_cached (Suc n) bs dev blockno b =
     (if b = bhead then None
      else if b_dev (bs b) = dev \<and> b_blockno (bs b) = blockno then Some b
      else bget_cached n bs dev blockno (b_next (bs b)))"

fun bget_unused :: "nat \<Rightarrow> (nat \<Rightarrow> buf) \<Rightarrow> nat \<Rightarrow> nat option" where
  "bget_unused 0 bs b = None"
| "bget_unused (Suc n) bs b =
     (if b = bhead then None
      else if b_refcnt (bs b) = 0 then Some b
      else bget_unused n bs (b_prev (bs b)))"

definition bget :: "u32 \<Rightarrow> u32 \<Rightarrow> ('a bcache_scheme, nat) op" where
  "bget dev blockno =
     bind (acquire BcacheLock) (\<lambda>_.
     bind (gets bufs) (\<lambda>bs.
     case bget_cached (Suc NBUF) bs dev blockno (b_next (bs bhead)) of
       Some b \<Rightarrow>
         bind (modify (set_buf b (\<lambda>q. q\<lparr>b_refcnt := b_refcnt q + 1\<rparr>))) (\<lambda>_.
         bind (release BcacheLock) (\<lambda>_.
         bind (acquiresleep (BufLk b)) (\<lambda>_.
         ret b)))
     | None \<Rightarrow>
         (case bget_unused (Suc NBUF) bs (b_prev (bs bhead)) of
            Some b \<Rightarrow>
              bind (modify (set_buf b (\<lambda>q. q\<lparr>b_dev := dev, b_blockno := blockno, b_valid := False,
                b_refcnt := 1\<rparr>))) (\<lambda>_.
              bind (release BcacheLock) (\<lambda>_.
              bind (acquiresleep (BufLk b)) (\<lambda>_.
              ret b)))
          | None \<Rightarrow> panic ''bget: no buffers'')))"

definition bread :: "u32 \<Rightarrow> u32 \<Rightarrow> ('a bcache_scheme, nat) op" where
  "bread dev blockno =
     bind (bget dev blockno) (\<lambda>b.
     bind (gets (\<lambda>s. b_valid (bufs s b))) (\<lambda>v.
     bind (if \<not> v
           then bind (virtio_disk_rw b False) (\<lambda>_. modify (set_buf b (\<lambda>q. q\<lparr>b_valid := True\<rparr>)))
           else ret ()) (\<lambda>_.
     ret b)))"

definition bwrite :: "nat \<Rightarrow> ('a bcache_scheme, unit) op" where
  "bwrite b =
     bind (holdingsleep (BufLk b)) (\<lambda>h.
     if \<not> h then panic ''bwrite'' else virtio_disk_rw b True)"

definition brelse :: "nat \<Rightarrow> ('a bcache_scheme, unit) op" where
  "brelse b =
     bind (holdingsleep (BufLk b)) (\<lambda>h.
     if \<not> h then panic ''brelse''
     else
       bind (releasesleep (BufLk b)) (\<lambda>_.
       bind (acquire BcacheLock) (\<lambda>_.
       bind (modify (set_buf b (\<lambda>q. q\<lparr>b_refcnt := b_refcnt q - 1\<rparr>))) (\<lambda>_.
       bind (modify (\<lambda>s. if b_refcnt (bufs s b) = 0 then bcache_insert b (bcache_remove b s) else s)) (\<lambda>_.
       release BcacheLock)))))"

definition bpin :: "nat \<Rightarrow> ('a bcache_scheme, unit) op" where
  "bpin b =
     bind (acquire BcacheLock) (\<lambda>_.
     bind (modify (set_buf b (\<lambda>q. q\<lparr>b_refcnt := b_refcnt q + 1\<rparr>))) (\<lambda>_.
     release BcacheLock))"

definition bunpin :: "nat \<Rightarrow> ('a bcache_scheme, unit) op" where
  "bunpin b =
     bind (acquire BcacheLock) (\<lambda>_.
     bind (modify (set_buf b (\<lambda>q. q\<lparr>b_refcnt := b_refcnt q - 1\<rparr>))) (\<lambda>_.
     release BcacheLock))"

end
