(* ===== verification/Lru.thy ===== *)
theory Lru
  imports Bio
begin

text \<open>
  The doubly linked list of the buffer cache. \<open>lru bs\<close> is the order of the buffers from the most to the
  least recently used; \<open>lru_ok bs\<close> says that both chains of pointers run through it. Moving a
  buffer to the front keeps it, and the two searches of \<open>bget\<close> are searches in that order.
\<close>

section \<open>Chains\<close>

fun chain :: "(nat \<Rightarrow> buf) \<Rightarrow> nat list \<Rightarrow> bool" where
  "chain bs (x # y # zs) \<longleftrightarrow> b_next (bs x) = y \<and> b_prev (bs y) = x \<and> chain bs (y # zs)"
| "chain bs xs \<longleftrightarrow> True"

definition ring :: "(nat \<Rightarrow> buf) \<Rightarrow> nat list \<Rightarrow> bool" where
  "ring bs xs \<longleftrightarrow> chain bs (bhead # xs @ [bhead])"

fun follow :: "nat \<Rightarrow> (nat \<Rightarrow> buf) \<Rightarrow> nat \<Rightarrow> nat list" where
  "follow 0 bs b = []"
| "follow (Suc n) bs b = b # follow n bs (b_next (bs b))"

definition lru :: "(nat \<Rightarrow> buf) \<Rightarrow> nat list" where
  "lru bs = follow NBUF bs (b_next (bs bhead))"

definition lru_ok :: "(nat \<Rightarrow> buf) \<Rightarrow> bool" where
  "lru_ok bs \<longleftrightarrow> distinct (lru bs) \<and> set (lru bs) = set [0..<NBUF] \<and> ring bs (lru bs)"

lemma chain_cong:
  assumes "\<And>x. x \<in> set (butlast l) \<Longrightarrow> b_next (bs x) = b_next (ds x)"
    "\<And>y. y \<in> set (tl l) \<Longrightarrow> b_prev (bs y) = b_prev (ds y)"
  shows "chain bs l = chain ds l"
  using assms
proof (induction bs l rule: chain.induct)
  case (1 bs x y zs)
  have "chain bs (y # zs) = chain ds (y # zs)" using "1.prems" by (intro "1.IH") (auto split: if_splits)
  then show ?case using "1.prems" by simp
qed auto

lemma chain_append: "chain bs (xs @ x # ys) \<longleftrightarrow> chain bs (xs @ [x]) \<and> chain bs (x # ys)"
proof (induction xs)
  case (Cons a xs)
  then show ?case by (cases xs) auto
qed simp

text \<open>Following the pointers from the head gives the elements of the ring.\<close>

lemma follow_chain: "chain bs (x # xs @ [e]) \<Longrightarrow> follow (length xs) bs (b_next (bs x)) = xs"
proof (induction xs arbitrary: x)
  case (Cons y ys)
  then show ?case by (cases ys) auto
qed simp

lemma lru_ring: "ring bs xs \<Longrightarrow> length xs = NBUF \<Longrightarrow> lru bs = xs"
  using follow_chain [of bs bhead xs bhead] by (simp add: ring_def lru_def)

lemma length_lru [simp]: "length (lru bs) = NBUF"
proof -
  have "length (follow n bs b) = n" for n b by (induction n arbitrary: b) auto
  then show ?thesis by (simp add: lru_def)
qed

lemma lru_okI: "ring bs xs \<Longrightarrow> distinct xs \<Longrightarrow> set xs = set [0..<NBUF] \<Longrightarrow> lru_ok bs \<and> lru bs = xs"
proof -
  assume a: "ring bs xs" "distinct xs" "set xs = set [0..<NBUF]"
  have "length xs = card (set xs)" using a(2) by (simp add: distinct_card)
  then have "length xs = NBUF" unfolding a(3) by simp
  then show ?thesis using lru_ring [OF a(1)] a by (simp add: lru_ok_def)
qed

text \<open>Only the pointers matter.\<close>

lemma lru_cong: "(\<And>b. b_next (ds b) = b_next (bs b)) \<Longrightarrow> lru ds = lru bs"
proof -
  assume n: "\<And>b. b_next (ds b) = b_next (bs b)"
  have "follow k ds b = follow k bs b" for k b by (induction k arbitrary: b) (simp_all add: n)
  then show ?thesis by (simp add: lru_def n)
qed

lemma lru_ok_cong:
  "(\<And>b. b_next (ds b) = b_next (bs b)) \<Longrightarrow> (\<And>b. b_prev (ds b) = b_prev (bs b)) \<Longrightarrow> lru_ok ds = lru_ok bs"
  using lru_cong [of ds bs] chain_cong [of "bhead # lru bs @ [bhead]" ds bs] by (simp add: lru_ok_def ring_def)

section \<open>Moving buffers\<close>

definition links_insert :: "nat \<Rightarrow> (nat \<Rightarrow> buf) \<Rightarrow> nat \<Rightarrow> buf" where
  "links_insert b bs = (let n = b_next (bs bhead);
     bs = bs(b := (bs b)\<lparr>b_next := n, b_prev := bhead\<rparr>);
     bs = bs(b_next (bs bhead) := (bs (b_next (bs bhead)))\<lparr>b_prev := b\<rparr>)
   in bs(bhead := (bs bhead)\<lparr>b_next := b\<rparr>))"

definition links_remove :: "nat \<Rightarrow> (nat \<Rightarrow> buf) \<Rightarrow> nat \<Rightarrow> buf" where
  "links_remove b bs = (let bs = bs(b_next (bs b) := (bs (b_next (bs b)))\<lparr>b_prev := b_prev (bs b)\<rparr>)
     in bs(b_prev (bs b) := (bs (b_prev (bs b)))\<lparr>b_next := b_next (bs b)\<rparr>))"

lemma bcache_insert_links: "bcache_insert b s = s\<lparr>bufs := links_insert b (bufs s)\<rparr>"
  by (simp add: bcache_insert_def links_insert_def set_buf_def Let_def)

lemma bcache_remove_links: "bcache_remove b s = s\<lparr>bufs := links_remove b (bufs s)\<rparr>"
  by (simp add: bcache_remove_def links_remove_def set_buf_def Let_def)

lemma ring_insert:
  assumes r: "ring bs xs" and b: "b \<noteq> bhead" "b \<notin> set xs" and d: "distinct xs" "bhead \<notin> set xs"
  shows "ring (links_insert b bs) (b # xs)"
proof -
  obtain n l where l: "xs @ [bhead] = n # l" by (cases "xs @ [bhead]") auto
  have n: "b_next (bs bhead) = n" and c: "chain bs (n # l)" using r by (simp_all add: ring_def l)
  have nb: "n \<noteq> b" using l b by (cases xs) auto
  have nl: "n \<notin> set l" using l d by (cases xs) auto
  have lb: "b \<notin> set l" using arg_cong [OF l, of set] b by auto
  have bl: "butlast (n # l) = xs" using arg_cong [OF l, of butlast] by simp
  have "chain (links_insert b bs) (n # l) = chain bs (n # l)"
  proof (rule chain_cong)
    fix x assume "x \<in> set (butlast (n # l))"
    then have "x \<noteq> bhead" "x \<noteq> b" using bl b d by auto
    then show "b_next (links_insert b bs x) = b_next (bs x)" using b by (simp add: links_insert_def Let_def n)
  next
    fix y assume "y \<in> set (tl (n # l))"
    then have "y \<noteq> n" "y \<noteq> b" using nl lb by auto
    then show "b_prev (links_insert b bs y) = b_prev (bs y)" using b by (simp add: links_insert_def Let_def n)
  qed
  then show ?thesis using c b nb n by (auto simp: ring_def l links_insert_def Let_def)
qed

lemma ring_remove:
  assumes r: "ring bs (ys @ b # zs)" and d: "distinct (ys @ b # zs)" "bhead \<notin> set (ys @ b # zs)"
  shows "ring (links_remove b bs) (ys @ zs)"
proof -
  obtain l p where p: "bhead # ys = l @ [p]" by (metis rev_exhaust list.distinct(1))
  obtain n m where n: "zs @ [bhead] = n # m" by (cases "zs @ [bhead]") auto
  have full: "bhead # (ys @ b # zs) @ [bhead] = l @ p # b # n # m" using p n by simp
  have c: "chain bs (l @ [p])" "b_next (bs p) = b" "b_prev (bs b) = p" "b_next (bs b) = n" "b_prev (bs n) = b" "chain bs (n # m)"
    using chain_append [THEN iffD1, of bs l p "b # n # m"] r unfolding ring_def full by simp_all
  have ps: "p \<in> set (bhead # ys)" "n \<in> set (zs @ [bhead])" using p n by auto
  have pb: "p \<noteq> b" "n \<noteq> b" using ps d by auto
  have nx: "b_next (links_remove b bs x) = (if x = p then n else b_next (bs x))" for x
    using pb c by (simp add: links_remove_def Let_def)
  have pv: "b_prev (links_remove b bs y) = (if y = n then p else b_prev (bs y))" for y
    using pb c by (auto simp: links_remove_def Let_def)
  have "distinct (bhead # ys)" using d by simp
  then have dl: "p \<notin> set l" unfolding p by simp
  have "chain (links_remove b bs) (l @ [p]) = chain bs (l @ [p])"
  proof (rule chain_cong)
    show "b_next (links_remove b bs x) = b_next (bs x)" if "x \<in> set (butlast (l @ [p]))" for x
      using that dl by (auto simp: nx)
    have "tl (l @ [p]) = ys" using arg_cong [OF p, of tl] by simp
    then show "b_prev (links_remove b bs y) = b_prev (bs y)" if "y \<in> set (tl (l @ [p]))" for y
      using that ps(2) d by (auto simp: pv)
  qed
  moreover have "chain (links_remove b bs) (n # m) = chain bs (n # m)"
  proof (rule chain_cong)
    have "butlast (n # m) = zs" using arg_cong [OF n, of butlast] by simp
    then show "b_next (links_remove b bs x) = b_next (bs x)" if "x \<in> set (butlast (n # m))" for x
      using that ps(1) d by (auto simp: nx)
    have "n \<notin> set m" using n d by (cases zs) auto
    then show "b_prev (links_remove b bs y) = b_prev (bs y)" if "y \<in> set (tl (n # m))" for y
      using that by (auto simp: pv)
  qed
  moreover have "bhead # (ys @ zs) @ [bhead] = l @ p # n # m" using p n by simp
  ultimately show ?thesis using c chain_append [of "links_remove b bs" l p "n # m"] by (simp add: ring_def nx pv)
qed

lemma links_same:
  "b_dev (links_insert b bs x) = b_dev (bs x)" "b_blockno (links_insert b bs x) = b_blockno (bs x)"
  "b_valid (links_insert b bs x) = b_valid (bs x)" "b_refcnt (links_insert b bs x) = b_refcnt (bs x)"
  "b_data (links_insert b bs x) = b_data (bs x)"
  "b_dev (links_remove b bs x) = b_dev (bs x)" "b_blockno (links_remove b bs x) = b_blockno (bs x)"
  "b_valid (links_remove b bs x) = b_valid (bs x)" "b_refcnt (links_remove b bs x) = b_refcnt (bs x)"
  "b_data (links_remove b bs x) = b_data (bs x)"
  by (simp_all add: links_insert_def links_remove_def Let_def)

lemma bhead_not_buf: "set xs = set [0..<NBUF] \<Longrightarrow> bhead \<notin> set xs"
  by (simp add: bhead_def)

text \<open>\<open>brelse\<close> moves the buffer to the front.\<close>

lemma links_front:
  assumes ok: "lru_ok bs" and b: "b < NBUF"
  shows "lru_ok (links_insert b (links_remove b bs)) \<and> lru (links_insert b (links_remove b bs)) = b # remove1 b (lru bs)"
proof -
  have l: "distinct (lru bs)" "set (lru bs) = set [0..<NBUF]" "ring bs (lru bs)" using ok by (simp_all add: lru_ok_def)
  have "b \<in> set (lru bs)" using b l(2) by simp
  then obtain ys zs where yz: "lru bs = ys @ b # zs" "b \<notin> set ys" by (metis split_list_first)
  have r: "remove1 b (lru bs) = ys @ zs" using yz by (simp add: remove1_append)
  note h = bhead_not_buf [OF l(2)]
  have "ring (links_remove b bs) (ys @ zs)" using l h yz by (intro ring_remove) simp_all
  then have ring: "ring (links_insert b (links_remove b bs)) (b # ys @ zs)"
    by (rule ring_insert) (use l h yz b in \<open>auto simp: bhead_def\<close>)
  have d: "distinct (b # ys @ zs)" using l(1) yz by auto
  have st: "set (b # ys @ zs) = set [0..<NBUF]" unfolding l(2) [symmetric] yz by auto
  show ?thesis unfolding r by (rule lru_okI [OF ring d st])
qed

section \<open>Searching\<close>

lemma bget_cached_chain:
  assumes "chain bs (x # xs @ [bhead])" "bhead \<notin> set xs" "length xs < n"
  shows "bget_cached n bs dev blockno (b_next (bs x)) = find (\<lambda>b. b_dev (bs b) = dev \<and> b_blockno (bs b) = blockno) xs"
  using assms
proof (induction xs arbitrary: x n)
  case Nil
  then show ?case by (cases n) auto
next
  case (Cons y ys)
  then show ?case by (cases n; cases ys) auto
qed

lemma bget_unused_chain:
  assumes "chain bs (bhead # xs @ [x])" "bhead \<notin> set xs" "length xs < n"
  shows "bget_unused n bs (b_prev (bs x)) = find (\<lambda>b. b_refcnt (bs b) = 0) (rev xs)"
  using assms
proof (induction xs arbitrary: x n rule: rev_induct)
  case Nil
  then show ?case by (cases n) auto
next
  case (snoc y ys)
  have "chain bs ((bhead # ys) @ y # [x])" using snoc.prems by simp
  then have "chain bs (bhead # ys @ [y]) \<and> b_prev (bs x) = y"
    using chain_append [THEN iffD1, of bs "bhead # ys" y "[x]"] by simp
  then show ?case using snoc by (cases n) auto
qed

definition cached_at :: "(nat \<Rightarrow> buf) \<Rightarrow> u32 \<Rightarrow> u32 \<Rightarrow> nat option" where
  "cached_at bs dev blockno = find (\<lambda>b. b_dev (bs b) = dev \<and> b_blockno (bs b) = blockno) (lru bs)"

definition least_used :: "(nat \<Rightarrow> buf) \<Rightarrow> nat option" where
  "least_used bs = find (\<lambda>b. b_refcnt (bs b) = 0) (rev (lru bs))"

lemma bget_searches:
  assumes "lru_ok bs"
  shows "bget_cached (Suc NBUF) bs dev blockno (b_next (bs bhead)) = cached_at bs dev blockno"
    "bget_unused (Suc NBUF) bs (b_prev (bs bhead)) = least_used bs"
proof -
  have c: "chain bs (bhead # lru bs @ [bhead])" "bhead \<notin> set (lru bs)" "length (lru bs) < Suc NBUF"
    using assms bhead_not_buf [of "lru bs"] by (simp_all add: lru_ok_def ring_def)
  show "bget_cached (Suc NBUF) bs dev blockno (b_next (bs bhead)) = cached_at bs dev blockno"
    unfolding cached_at_def by (rule bget_cached_chain [OF c])
  show "bget_unused (Suc NBUF) bs (b_prev (bs bhead)) = least_used bs"
    unfolding least_used_def by (rule bget_unused_chain [OF c])
qed

lemma cached_at_Some:
  assumes "lru_ok bs" "cached_at bs dev blockno = Some b"
  shows "b < NBUF" "b_dev (bs b) = dev" "b_blockno (bs b) = blockno"
  using assms by (auto simp: cached_at_def find_Some_iff lru_ok_def dest!: nth_mem)

lemma cached_at_None:
  assumes "lru_ok bs" "cached_at bs dev blockno = None" "b < NBUF"
  shows "b_dev (bs b) \<noteq> dev \<or> b_blockno (bs b) \<noteq> blockno"
proof -
  have "b \<in> set (lru bs)" using assms by (simp add: lru_ok_def)
  then show ?thesis using assms(2) by (auto simp: cached_at_def find_None_iff)
qed

lemma least_used_Some:
  assumes "lru_ok bs" "least_used bs = Some b"
  shows "b < NBUF" "b_refcnt (bs b) = 0"
proof -
  obtain i where i: "i < length (rev (lru bs))" "b_refcnt (bs (rev (lru bs) ! i)) = 0" "b = rev (lru bs) ! i"
    using assms(2) unfolding least_used_def find_Some_iff by auto
  then have "b \<in> set (rev (lru bs))" by (simp add: nth_mem del: set_rev)
  then show "b < NBUF" "b_refcnt (bs b) = 0" using assms(1) i by (simp_all add: lru_ok_def)
qed

lemma least_used_None: "lru_ok bs \<Longrightarrow> least_used bs = None \<Longrightarrow> b < NBUF \<Longrightarrow> b_refcnt (bs b) \<noteq> 0"
  by (auto simp: least_used_def find_None_iff lru_ok_def)

end
