(* ===== verification/Keeps.thy ===== *)
theory Keeps
  imports Proc
begin

text \<open>
  Invariants of shared data. \<open>keeps I P m\<close>: from every state that satisfies \<open>I\<close>, the operation \<open>m\<close>
  ends in one, whether it returns, panics, hangs or is left off the CPU. An operation that sleeps
  hands the data to the rest of the system, so the platform must obey the invariant
  (\<open>obeys\<close>): that is what the theorems show of the kernel's own operations.

  The locale \<open>upper_inv\<close> is for the invariants of the components above the processes: one that only
  depends on their data is kept by every operation of locks, memory and processes.
\<close>

section \<open>Rules\<close>

fun final :: "('a, 's) outcome \<Rightarrow> 's" where
  "final (Ret x s) = s"
| "final (Panic msg s) = s"
| "final (Hang s) = s"
| "final (Off s) = s"

definition keeps :: "('s \<Rightarrow> bool) \<Rightarrow> 's platform \<Rightarrow> ('s, 'a) op \<Rightarrow> bool" where
  "keeps I P m \<longleftrightarrow> (\<forall>s. I s \<longrightarrow> I (final (m P s)))"

definition obeys :: "('s \<Rightarrow> bool) \<Rightarrow> 's platform \<Rightarrow> bool" where
  "obeys I P \<longleftrightarrow> (\<forall>r \<in> set (resume P). \<forall>s. I s \<longrightarrow> I (r s))"

text \<open>Devices work on their registers, on the disk and on memory; they know nothing of the kernel's
  variables.\<close>

definition dev_ok :: "'a procs_scheme platform \<Rightarrow> bool" where
  "dev_ok P \<longleftrightarrow> (\<forall>a s. procs.more (snd (mmio_rd P a s)) = procs.more s)
     \<and> (\<forall>a v s. procs.more (mmio_wr P a v s) = procs.more s)"

named_theorems keeps \<comment> \<open>operations that keep an invariant\<close>

lemma keepsD: "keeps I P m \<Longrightarrow> I s \<Longrightarrow> I (final (m P s))"
  by (simp add: keeps_def)

lemma keeps_ret [keeps]: "keeps I P (ret x)"
  by (simp add: keeps_def ret_def)

lemma keeps_gets [keeps]: "keeps I P (gets f)"
  by (simp add: keeps_def)

lemma keeps_panic [keeps]: "keeps I P (panic msg)"
  by (simp add: keeps_def panic_def)

lemma keeps_hang [keeps]: "keeps I P hang"
  by (simp add: keeps_def hang_def)

lemma keeps_modify [keeps]: "(\<And>s. I s \<Longrightarrow> I (f s)) \<Longrightarrow> keeps I P (modify f)"
  by (simp add: keeps_def)

lemma keeps_bind [keeps]:
  assumes "keeps I P m" "\<And>x. keeps I P (f x)"
  shows "keeps I P (bind m f)"
  unfolding keeps_def
proof (intro allI impI)
  fix s assume "I s"
  then have "I (final (m P s))" using assms(1) by (simp add: keeps_def)
  then show "I (final (bind m f P s))"
    using assms(2) by (cases "m P s") (simp_all add: keeps_def)
qed

lemma keeps_if [keeps]: "(b \<Longrightarrow> keeps I P m) \<Longrightarrow> (\<not> b \<Longrightarrow> keeps I P n) \<Longrightarrow> keeps I P (if b then m else n)"
  by simp

lemma keeps_option [keeps]:
  "keeps I P m \<Longrightarrow> (\<And>y. keeps I P (f y)) \<Longrightarrow> keeps I P (case x of None \<Rightarrow> m | Some y \<Rightarrow> f y)"
  by (simp split: option.splits)

lemma keeps_prod [keeps]: "(\<And>a b. keeps I P (f a b)) \<Longrightarrow> keeps I P (case p of (a, b) \<Rightarrow> f a b)"
  by (simp split: prod.splits)

lemma keeps_sum [keeps]:
  "(\<And>a. keeps I P (f a)) \<Longrightarrow> (\<And>b. keeps I P (g b)) \<Longrightarrow> keeps I P (case x of Inl a \<Rightarrow> f a | Inr b \<Rightarrow> g b)"
  by (simp split: sum.splits)

lemma keeps_list [keeps]:
  "keeps I P m \<Longrightarrow> (\<And>y ys. keeps I P (f y ys)) \<Longrightarrow> keeps I P (case xs of [] \<Rightarrow> m | y # ys \<Rightarrow> f y ys)"
  by (simp split: list.splits)

lemma keeps_let [keeps]: "keeps I P (f x) \<Longrightarrow> keeps I P (let y = x in f y)"
  by simp

lemma keeps_deref [keeps]: "keeps I P (deref x)"
  unfolding deref_def by (intro keeps)

lemma keeps_for_each [keeps]: "(\<And>x. keeps I P (f x)) \<Longrightarrow> keeps I P (for_each xs f)"
  by (induction xs) (auto intro: keeps)

lemma keeps_page_loop [keeps]: "(\<And>a. keeps I P (body a)) \<Longrightarrow> keeps I P (page_loop n body a stop)"
  by (induction n arbitrary: a) (auto intro!: keeps)


lemma keeps_swtch:
  assumes "obeys I P" "\<And>s n. I (s\<lparr>swtches := n\<rparr>) = I s"
  shows "keeps I P swtch"
  using assms by (auto simp: keeps_def swtch_def obeys_def)

text \<open>Where an operation tests the data first, the test is a stronger invariant up to the change it
  guards: \<open>leads J I P m\<close> starts in \<open>J\<close> and ends in \<open>I\<close>.\<close>

definition leads :: "('s \<Rightarrow> bool) \<Rightarrow> ('s \<Rightarrow> bool) \<Rightarrow> 's platform \<Rightarrow> ('s, 'a) op \<Rightarrow> bool" where
  "leads J I P m \<longleftrightarrow> (\<forall>s. J s \<longrightarrow> I (final (m P s)))"

lemma keeps_leads: "keeps I P m = leads I I P m"
  by (simp add: keeps_def leads_def)

lemma leads_keeps: "keeps I P m \<Longrightarrow> (\<And>s. J s \<Longrightarrow> I s) \<Longrightarrow> leads J I P m"
  by (simp add: keeps_def leads_def)

lemma leads_modify: "(\<And>s. J s \<Longrightarrow> I (f s)) \<Longrightarrow> leads J I P (modify f)"
  by (simp add: leads_def)

lemma leads_if: "(b \<Longrightarrow> leads J I P m) \<Longrightarrow> (\<not> b \<Longrightarrow> leads J I P n) \<Longrightarrow> leads J I P (if b then m else n)"
  by simp

lemma leads_prod: "(\<And>a b. leads J I P (f a b)) \<Longrightarrow> leads J I P (case p of (a, b) \<Rightarrow> f a b)"
  by (simp split: prod.splits)

text \<open>The first operation keeps the stronger invariant, or changes it to the weaker one.\<close>

lemma leads_bind:
  assumes "keeps J P m" "\<And>x. leads J I P (f x)" "\<And>s. J s \<Longrightarrow> I s"
  shows "leads J I P (bind m f)"
  unfolding leads_def
proof (intro allI impI)
  fix s assume "J s"
  then have "J (final (m P s))" using assms(1) by (simp add: keeps_def)
  then show "I (final (bind m f P s))"
    using assms(2,3) by (cases "m P s") (simp_all add: leads_def)
qed

lemma leads_then:
  assumes "leads J I P m" "\<And>x. keeps I P (f x)"
  shows "leads J I P (bind m f)"
  unfolding leads_def
proof (intro allI impI)
  fix s assume "J s"
  then have "I (final (m P s))" using assms(1) by (simp add: leads_def)
  then show "I (final (bind m f P s))"
    using assms(2) by (cases "m P s") (simp_all add: keeps_def)
qed

lemma leads_gets:
  "(\<And>x. leads (\<lambda>s. J s \<and> g s = x) I P (f x)) \<Longrightarrow> leads J I P (bind (gets g) f)"
  by (simp add: leads_def)

lemma keeps_test:
  assumes "leads (\<lambda>s. I s \<and> b s) I P m" "leads (\<lambda>s. I s \<and> \<not> b s) I P n"
  shows "keeps I P (bind (gets b) (\<lambda>x. if x then m else n))"
  using assms by (auto simp: keeps_def leads_def)

lemma keeps_test_not:
  assumes "leads (\<lambda>s. I s \<and> \<not> b s) I P m" "leads (\<lambda>s. I s \<and> b s) I P n"
  shows "keeps I P (bind (gets b) (\<lambda>x. if \<not> x then m else n))"
  using assms by (auto simp: keeps_def leads_def)

text \<open>The result of an operation may say more about the state it returns in.\<close>

definition ends :: "('s \<Rightarrow> bool) \<Rightarrow> ('a \<Rightarrow> 's \<Rightarrow> bool) \<Rightarrow> ('s \<Rightarrow> bool) \<Rightarrow> 's platform \<Rightarrow> ('s, 'a) op \<Rightarrow> bool" where
  "ends J Q I P m \<longleftrightarrow> (\<forall>s. J s \<longrightarrow> (case m P s of Ret x t \<Rightarrow> Q x t | Panic _ t \<Rightarrow> I t | Hang t \<Rightarrow> I t | Off t \<Rightarrow> I t))"

lemma leads_ends:
  assumes "ends J Q I P m" "\<And>x. leads (Q x) I P (f x)"
  shows "leads J I P (bind m f)"
  unfolding leads_def
proof (intro allI impI)
  fix s assume "J s"
  with assms show "I (final (bind m f P s))" by (cases "m P s") (auto simp: ends_def leads_def)
qed

lemma ends_bind:
  assumes "ends J Q I P m" "\<And>x. ends (Q x) R I P (f x)"
  shows "ends J R I P (bind m f)"
  unfolding ends_def
proof (intro allI impI)
  fix s assume "J s"
  with assms show "case bind m f P s of Ret x t \<Rightarrow> R x t | Panic _ t \<Rightarrow> I t | Hang t \<Rightarrow> I t | Off t \<Rightarrow> I t"
    by (cases "m P s") (auto simp: ends_def)
qed

lemma ends_if: "(b \<Longrightarrow> ends J Q I P m) \<Longrightarrow> (\<not> b \<Longrightarrow> ends J Q I P n) \<Longrightarrow> ends J Q I P (if b then m else n)"
  by simp

lemma ends_keeps: "keeps I P m \<Longrightarrow> ends I (\<lambda>_. I) I P m"
proof -
  assume k: "keeps I P m"
  have "case m P s of Ret x t \<Rightarrow> I t | Panic _ t \<Rightarrow> I t | Hang t \<Rightarrow> I t | Off t \<Rightarrow> I t" if "I s" for s
    using keepsD [OF k that] by (cases "m P s") simp_all
  then show ?thesis by (simp add: ends_def)
qed

lemma ends_ret: "ends J Q I P (ret x) = (\<forall>s. J s \<longrightarrow> Q x s)" "ends J Q I P (gets f) = (\<forall>s. J s \<longrightarrow> Q (f s) s)"
  "ends J Q I P hang = (\<forall>s. J s \<longrightarrow> I s)"
  by (simp_all add: ends_def ret_def hang_def)

lemma ends_modify: "ends J Q I P (modify g) = (\<forall>s. J s \<longrightarrow> Q () (g s))"
  by (simp add: ends_def)

lemmas ends_simps = ends_ret ends_modify

section \<open>Invariants above processes\<close>

locale upper_inv =
  fixes I :: "'a procs_scheme \<Rightarrow> bool"
  assumes indep: "procs.more s = procs.more t \<Longrightarrow> I s = I t"
begin

lemma same [simp]:
  "I (s\<lparr>mem := m\<rparr>) = I s" "I (s\<lparr>csr := x\<rparr>) = I s" "I (s\<lparr>cpus := c\<rparr>) = I s" "I (s\<lparr>locks := l\<rparr>) = I s"
  "I (s\<lparr>swtches := n\<rparr>) = I s" "I (s\<lparr>kmem_freelist := p\<rparr>) = I s" "I (s\<lparr>ptable := q\<rparr>) = I s"
  "I (s\<lparr>nextpid := u\<rparr>) = I s" "I (s\<lparr>kernel_pagetable := u\<rparr>) = I s" "I (s\<lparr>initproc := v\<rparr>) = I s"
  "I (set_mycpu f s) = I s" "I (set_lock lk g s) = I s" "I (set_proc i h s) = I s"
  by (rule indep, simp add: set_mycpu_def set_lock_def set_proc_def)+

lemma keeps_mmio:
  assumes "dev_ok P"
  shows "keeps I P (mmio_r a)" "keeps I P (mmio_w a v)"
proof -
  have d: "procs.more (snd (mmio_rd P a s)) = procs.more s" "procs.more (mmio_wr P a v s) = procs.more s" for s
    using assms by (simp_all add: dev_ok_def)
  have "I t = I s" if "mmio_rd P a s = (x, t)" for s x t using indep [OF d(1) [of s]] that by simp
  then show "keeps I P (mmio_r a)" by (auto simp: keeps_def mmio_r_def split: prod.splits)
  show "keeps I P (mmio_w a v)" using indep [OF d(2)] by (simp add: keeps_def mmio_w_def)
qed

lemma keeps_csr [keeps]: "REG_EPC \<le> a \<Longrightarrow> keeps I P (mmio_r a)" "REG_EPC \<le> a \<Longrightarrow> keeps I P (mmio_w a v)"
  by (simp_all add: keeps_def mmio_r_def mmio_w_def)

lemma keeps_intr [keeps]: "keeps I P intr_on" "keeps I P intr_off" "keeps I P intr_get"
  unfolding intr_on_def intr_off_def intr_get_def by (intro keeps; simp add: reg_defs)+

lemma keeps_push_off [keeps]: "keeps I P push_off"
  unfolding push_off_def by (intro keeps; simp)

lemma keeps_pop_off [keeps]: "keeps I P pop_off"
  unfolding pop_off_def by (intro keeps; simp)

lemma keeps_locks [keeps]: "keeps I P (initlock l nm)" "keeps I P (holding l)" "keeps I P (cas_lock l)"
  unfolding initlock_def holding_def cas_lock_def by (intro keeps; simp)+

lemma keeps_acquire [keeps]: "keeps I P (acquire l)"
  unfolding acquire_def by (intro keeps; simp)

lemma keeps_release [keeps]: "keeps I P (release l)"
  unfolding release_def by (intro keeps; simp)

lemma keeps_mem [keeps]: "keeps I P (ld32 a)" "keeps I P (st32 a v)" "keeps I P (memset_at d c n)" "keeps I P (memmove_at d a m)"
  unfolding ld32_def st32_def memmove_at_def
  by (intro keeps; simp)+ (auto simp: keeps_def memset_at_def split: option.splits)

lemma keeps_kalloc [keeps]: "keeps I P kalloc" "keeps I P (kfree p)"
  unfolding kalloc_def kfree_def by (intro keeps; simp)+

lemma keeps_walk_level: "keeps I P (walk_level l pt va alloc)"
  by (induction l arbitrary: pt) (unfold walk_level.simps, (intro keeps; simp)+)

lemma keeps_walk [keeps]: "keeps I P (walk pt va alloc)" "keeps I P (walkaddr pt va)"
  unfolding walkaddr_def walk_def by (intro keeps keeps_walk_level)+

lemma keeps_mappages_loop: "keeps I P (mappages_loop n pt a b pa perm)"
  by (induction n arbitrary: a pa) (unfold mappages_loop.simps, (intro keeps; simp)+)

lemma keeps_mappages [keeps]: "keeps I P (mappages pt va sz pa perm)" "keeps I P (kvmmap pt va pa sz perm)"
  unfolding kvmmap_def mappages_def by (intro keeps keeps_mappages_loop)+

lemma keeps_uvmunmap [keeps]: "keeps I P (uvmunmap pt va n f)"
  unfolding uvmunmap_def uvmunmap_page_def by (intro keeps)

lemma keeps_uvm [keeps]: "keeps I P uvmcreate" "keeps I P (uvmdealloc pt b c)" "keeps I P (uvmclear pt va)" "keeps I P (ismapped pt va)"
  unfolding uvmcreate_def uvmdealloc_def uvmclear_def ismapped_def by (intro keeps)+

lemma keeps_uvmalloc [keeps]: "keeps I P (uvmalloc pt b c x)"
  unfolding uvmalloc_def uvmalloc_page_def by (intro keeps)

lemma keeps_freewalk [keeps]: "keeps I P (freewalk pt)"
proof -
  have "keeps I P (freewalk_depth n pt)" for n
    by (induction n arbitrary: pt) (unfold freewalk_depth.simps, (intro keeps; simp)+)
  then show ?thesis by (simp add: freewalk_def)
qed

lemma keeps_uvmfree [keeps]: "keeps I P (uvmfree pt sz)" "keeps I P (uvmcopy old new sz)"
  unfolding uvmfree_def uvmcopy_def uvmcopy_page_def by (intro keeps)+

lemma keeps_myproc [keeps]: "keeps I P myproc" "keeps I P curproc"
  unfolding curproc_def myproc_def by (intro keeps)+

lemma keeps_user_page [keeps]: "keeps I P (vmfault pt va rd)" "keeps I P (user_page pt va)"
  unfolding user_page_def vmfault_def by (intro keeps)+

lemma keeps_copyout [keeps]: "keeps I P (copyout pt va src)"
  by (induction pt va src rule: copyout.induct) (subst copyout.simps, intro keeps; simp)

lemma keeps_copyin [keeps]: "keeps I P (copyin pt va n)"
  by (induction pt va n rule: copyin.induct) (subst copyin.simps, intro keeps; simp)

lemma keeps_copyinstr [keeps]: "keeps I P (copyinstr pt va n)"
  by (induction pt va n rule: copyinstr.induct) (subst copyinstr.simps, intro keeps; simp)

lemma keeps_either [keeps]: "keeps I P (either_copyout u d bs)" "keeps I P (either_copyin u a n)"
  unfolding either_copyout_def either_copyin_def by (intro keeps; simp)+

lemma keeps_wakeup [keeps]: "keeps I P (wakeup chan)"
  unfolding wakeup_def wakeup_one_def by (intro keeps; simp)

lemma keeps_killed [keeps]: "keeps I P (killed p)" "keeps I P (setkilled p)"
  unfolding killed_def setkilled_def by (intro keeps; simp)+

lemma keeps_sched: "obeys I P \<Longrightarrow> keeps I P sched"
  unfolding sched_def by (intro keeps keeps_swtch; simp)

lemma keeps_sleep: "obeys I P \<Longrightarrow> keeps I P (sleep chan lk)"
  unfolding sleep_def by (intro keeps keeps_sched; simp)

lemma keeps_yield: "obeys I P \<Longrightarrow> keeps I P yield"
  unfolding yield_def by (intro keeps keeps_sched; simp)

end

end
