(* ===== verification/Log.thy ===== *)
theory Log
  imports Bio
begin

text \<open>
  The redo log, \<open>kernel/log.c\<close>. The in-memory header is a count and an array of \<open>LOGBLOCKS\<close>
  block numbers; storing beyond the array, undefined in C, is \<open>Panic ''bounds''\<close>.
\<close>

section \<open>Operations\<close>

text \<open>Overwrite part of a block.\<close>

definition put_at :: "nat \<Rightarrow> u8 list \<Rightarrow> u8 list \<Rightarrow> u8 list" where
  "put_at off bs data = take off data @ bs @ drop (off + length bs) data"

definition get32 :: "u8 list \<Rightarrow> nat \<Rightarrow> u32" where
  "get32 data off = word32 (take 4 (drop off data))"

record log = bcache +
  log_start :: u32
  log_outstanding :: int
  log_committing :: bool
  log_dev :: u32
  log_n :: int
  log_block :: "u32 list"

definition set_data :: "nat \<Rightarrow> (u8 list \<Rightarrow> u8 list) \<Rightarrow> ('a bcache_scheme, unit) op" where
  "set_data b f = modify (set_buf b (\<lambda>q. q\<lparr>b_data := f (b_data q)\<rparr>))"

definition get_data :: "nat \<Rightarrow> ('a bcache_scheme, u8 list) op" where
  "get_data b = gets (\<lambda>s. b_data (bufs s b))"

definition install_one :: "bool \<Rightarrow> nat \<Rightarrow> ('a log_scheme, unit) op" where
  "install_one recovering tail =
     bind (gets (\<lambda>s. (log_dev s, log_start s, log_block s))) (\<lambda>(d, start, blocks).
     bind (if recovering
           then printf (cs ''recovering tail %d dst %d'' @ [10]) [ANum (of_nat tail), ANum (blocks ! tail)]
           else ret ()) (\<lambda>_.
     bind (bread d (start + of_nat tail + 1)) (\<lambda>lbuf.
     bind (bread d (blocks ! tail)) (\<lambda>dbuf.
     bind (get_data lbuf) (\<lambda>data.
     bind (set_data dbuf (\<lambda>_. data)) (\<lambda>_.
     bind (bwrite dbuf) (\<lambda>_.
     bind (if \<not> recovering then bunpin dbuf else ret ()) (\<lambda>_.
     bind (brelse lbuf) (\<lambda>_.
     brelse dbuf)))))))))"

definition install_trans :: "bool \<Rightarrow> ('a log_scheme, unit) op" where
  "install_trans recovering =
     bind (gets log_n) (\<lambda>n. for_each [0..<nat n] (install_one recovering))"

text \<open>The header block: the count, then the block numbers.\<close>

definition head_n :: "u8 list \<Rightarrow> int" where
  "head_n data = sint (get32 data 0)"

definition head_block :: "u8 list \<Rightarrow> nat \<Rightarrow> u32" where
  "head_block data i = get32 data (4 + 4 * i)"

definition read_head :: "('a log_scheme, unit) op" where
  "read_head =
     bind (gets (\<lambda>s. (log_dev s, log_start s))) (\<lambda>(d, start).
     bind (bread d start) (\<lambda>buf.
     bind (get_data buf) (\<lambda>data.
     let n = head_n data in
     bind (modify (\<lambda>s. s\<lparr>log_n := n\<rparr>)) (\<lambda>_.
     if int LOGBLOCKS < n then panic ''bounds''
     else
       bind (modify (\<lambda>s. s\<lparr>log_block :=
         map (head_block data) [0..<nat n] @ drop (nat n) (log_block s)\<rparr>)) (\<lambda>_.
       brelse buf)))))"

definition put_head :: "int \<Rightarrow> u32 list \<Rightarrow> u8 list \<Rightarrow> u8 list" where
  "put_head n blocks data =
     put_at 0 (bytes32 (of_int n) @ concat (map bytes32 (take (nat n) blocks))) data"

definition write_head :: "('a log_scheme, unit) op" where
  "write_head =
     bind (gets (\<lambda>s. (log_dev s, log_start s, log_n s, log_block s))) (\<lambda>(d, start, n, blocks).
     bind (bread d start) (\<lambda>buf.
     bind (set_data buf (put_head n blocks)) (\<lambda>_.
     bind (bwrite buf) (\<lambda>_.
     brelse buf))))"

definition recover_from_log :: "('a log_scheme, unit) op" where
  "recover_from_log =
     bind read_head (\<lambda>_.
     bind (install_trans True) (\<lambda>_.
     bind (modify (\<lambda>s. s\<lparr>log_n := 0\<rparr>)) (\<lambda>_.
     write_head)))"

definition initlog :: "u32 \<Rightarrow> u32 \<Rightarrow> ('a log_scheme, unit) op" where
  "initlog d logstart =
     (if BSIZE \<le> 4 + 4 * LOGBLOCKS then panic ''initlog: too big logheader''
      else
        bind (initlock LogLock ''log'') (\<lambda>_.
        bind (modify (\<lambda>s. s\<lparr>log_start := logstart, log_dev := d\<rparr>)) (\<lambda>_.
        recover_from_log)))"

fun begin_op_loop :: "nat \<Rightarrow> ('a log_scheme, unit) op" where
  "begin_op_loop 0 = hang"
| "begin_op_loop (Suc fuel) =
     bind (gets (\<lambda>s. log_committing s
       \<or> int LOGBLOCKS < log_n s + (log_outstanding s + 1) * int MAXOPBLOCKS)) (\<lambda>wait.
     if wait then bind (sleep (Some LogChan) LogLock) (\<lambda>_. begin_op_loop fuel)
     else
       bind (modify (\<lambda>s. s\<lparr>log_outstanding := log_outstanding s + 1\<rparr>)) (\<lambda>_.
       release LogLock))"

definition begin_op :: "('a log_scheme, unit) op" where
  "begin_op =
     bind (acquire LogLock) (\<lambda>_.
     (\<lambda>P s. begin_op_loop (Suc (resumptions P s)) P s))"

definition write_log_one :: "nat \<Rightarrow> ('a log_scheme, unit) op" where
  "write_log_one tail =
     bind (gets (\<lambda>s. (log_dev s, log_start s, log_block s))) (\<lambda>(d, start, blocks).
     bind (bread d (start + of_nat tail + 1)) (\<lambda>to.
     bind (bread d (blocks ! tail)) (\<lambda>from.
     bind (get_data from) (\<lambda>data.
     bind (set_data to (\<lambda>_. data)) (\<lambda>_.
     bind (bwrite to) (\<lambda>_.
     bind (brelse from) (\<lambda>_.
     brelse to)))))))"

definition write_log :: "('a log_scheme, unit) op" where
  "write_log = bind (gets log_n) (\<lambda>n. for_each [0..<nat n] write_log_one)"

definition commit :: "('a log_scheme, unit) op" where
  "commit =
     bind (gets log_n) (\<lambda>n.
     if 0 < n
     then
       bind write_log (\<lambda>_.
       bind write_head (\<lambda>_.
       bind (install_trans False) (\<lambda>_.
       bind (modify (\<lambda>s. s\<lparr>log_n := 0\<rparr>)) (\<lambda>_.
       write_head))))
     else ret ())"

definition end_op :: "('a log_scheme, unit) op" where
  "end_op =
     bind (acquire LogLock) (\<lambda>_.
     bind (modify (\<lambda>s. s\<lparr>log_outstanding := log_outstanding s - 1\<rparr>)) (\<lambda>_.
     bind (gets (\<lambda>s. (log_committing s, log_outstanding s))) (\<lambda>(committing, outstanding).
     if committing then panic ''log_committing''
     else
       let do_commit = (outstanding = 0) in
       bind (if do_commit then modify (\<lambda>s. s\<lparr>log_committing := True\<rparr>) else wakeup (Some LogChan)) (\<lambda>_.
       bind (release LogLock) (\<lambda>_.
       if do_commit
       then
         bind commit (\<lambda>_.
         bind (acquire LogLock) (\<lambda>_.
         bind (modify (\<lambda>s. s\<lparr>log_committing := False\<rparr>)) (\<lambda>_.
         bind (wakeup (Some LogChan)) (\<lambda>_.
         release LogLock))))
       else ret ())))))"

text \<open>The index \<open>log_write\<close> stores at: the first entry for the block, or the end.\<close>

fun log_index :: "u32 \<Rightarrow> u32 list \<Rightarrow> nat" where
  "log_index b [] = 0"
| "log_index b (x # xs) = (if x = b then 0 else Suc (log_index b xs))"

definition log_write :: "nat \<Rightarrow> ('a log_scheme, unit) op" where
  "log_write b =
     bind (acquire LogLock) (\<lambda>_.
     bind (gets (\<lambda>s. (log_n s, log_outstanding s))) (\<lambda>(n, outstanding).
     if int LOGBLOCKS \<le> n then panic ''too big a transaction''
     else if outstanding < 1 then panic ''log_write outside of trans''
     else
       bind (gets (\<lambda>s. (b_blockno (bufs s b), log_block s))) (\<lambda>(blockno, blocks).
       let i = log_index blockno (take (nat n) blocks) in
       bind (modify (\<lambda>s. s\<lparr>log_block := (log_block s)[i := blockno]\<rparr>)) (\<lambda>_.
       bind (if int i = n
             then bind (bpin b) (\<lambda>_. modify (\<lambda>s. s\<lparr>log_n := log_n s + 1\<rparr>))
             else ret ()) (\<lambda>_.
       release LogLock)))))"

end
