(* ===== verification/Fs.thy ===== *)
theory Fs
  imports Log
begin

text \<open>
  The file system, \<open>kernel/fs.c\<close>: blocks, inodes, directories and path names, with the on-disk
  formats of \<open>kernel/fs.h\<close> and \<^verbatim>\<open>struct inode\<close> of \<open>kernel/file.h\<close>. An in-memory inode is its
  index in \<open>itable_inode\<close>. A path is the list of its bytes without the final NUL; a
  \<open>name\<close> buffer has \<open>DIRSIZ\<close> bytes.

  Data goes to a user address, to a physical address, or to a variable of the caller
  (\<open>rdest\<close>), and comes from a user address or a variable (\<open>wsrc\<close>).
\<close>

section \<open>Formats\<close>

definition ROOTINO :: u32 where "ROOTINO = 1"
definition FSMAGIC :: u32 where "FSMAGIC = 0x10203040"
definition NDIRECT :: nat where "NDIRECT = 12"
definition NINDIRECT :: nat where "NINDIRECT = BSIZE div 4"
definition MAXFILE :: nat where "MAXFILE = NDIRECT + NINDIRECT"
definition BPB :: nat where "BPB = BSIZE * 8"
definition DIRSIZ :: nat where "DIRSIZ = 14"
definition DIRENT_SIZE :: nat where "DIRENT_SIZE = 16"
definition DINODE_SIZE :: nat where "DINODE_SIZE = 64"
definition IPB :: nat where "IPB = BSIZE div DINODE_SIZE"

definition T_DIR :: u16 where "T_DIR = 1"
definition T_FILE :: u16 where "T_FILE = 2"
definition T_DEVICE :: u16 where "T_DEVICE = 3"

lemmas fs_sizes = NDIRECT_def NINDIRECT_def MAXFILE_def BPB_def DIRSIZ_def DIRENT_SIZE_def
  DINODE_SIZE_def IPB_def BSIZE_def

record superblock =
  sb_magic :: u32
  sb_size :: u32
  sb_nblocks :: u32
  sb_ninodes :: u32
  sb_nlog :: u32
  sb_logstart :: u32
  sb_inodestart :: u32
  sb_bmapstart :: u32

definition superblock_of :: "u8 list \<Rightarrow> superblock" where
  "superblock_of data = \<lparr>sb_magic = get32 data 0, sb_size = get32 data 4, sb_nblocks = get32 data 8,
     sb_ninodes = get32 data 12, sb_nlog = get32 data 16, sb_logstart = get32 data 20,
     sb_inodestart = get32 data 24, sb_bmapstart = get32 data 28\<rparr>"

record dinode =
  di_type :: u16
  di_major :: u16
  di_minor :: u16
  di_nlink :: u16
  di_size :: u32
  di_addrs :: "u32 list"

definition get16 :: "u8 list \<Rightarrow> nat \<Rightarrow> u16" where
  "get16 data off = word16 (take 2 (drop off data))"

definition dinode_of :: "u8 list \<Rightarrow> dinode" where
  "dinode_of data = \<lparr>di_type = get16 data 0, di_major = get16 data 2, di_minor = get16 data 4,
     di_nlink = get16 data 6, di_size = get32 data 8,
     di_addrs = map (\<lambda>i. get32 data (12 + 4 * i)) [0..<Suc NDIRECT]\<rparr>"

definition bytes_of_dinode :: "dinode \<Rightarrow> u8 list" where
  "bytes_of_dinode d = bytes16 (di_type d) @ bytes16 (di_major d) @ bytes16 (di_minor d)
     @ bytes16 (di_nlink d) @ bytes32 (di_size d) @ concat (map bytes32 (di_addrs d))"

record inode =
  i_dev :: u32
  i_inum :: u32
  i_ref :: int
  i_valid :: bool
  i_type :: u16
  i_major :: u16
  i_minor :: u16
  i_nlink :: u16
  i_size :: u32
  i_addrs :: "u32 list"

record fs = log +
  sb :: superblock
  itable :: "nat \<Rightarrow> inode"

definition set_inode :: "nat \<Rightarrow> (inode \<Rightarrow> inode) \<Rightarrow> 'a fs_scheme \<Rightarrow> 'a fs_scheme" where
  "set_inode i f s = s\<lparr>itable := (itable s)(i := f (itable s i))\<rparr>"

definition IBLOCK :: "u32 \<Rightarrow> superblock \<Rightarrow> u32" where
  "IBLOCK i sbk = i div of_nat IPB + sb_inodestart sbk"

definition BBLOCK :: "u32 \<Rightarrow> superblock \<Rightarrow> u32" where
  "BBLOCK b sbk = b div of_nat BPB + sb_bmapstart sbk"

text \<open>Where the inode lies in its block.\<close>

definition dinode_at :: "u32 \<Rightarrow> nat" where
  "dinode_at inum = unat inum mod IPB * DINODE_SIZE"

definition get_dinode :: "u8 list \<Rightarrow> u32 \<Rightarrow> dinode" where
  "get_dinode data inum = dinode_of (take DINODE_SIZE (drop (dinode_at inum) data))"

definition put_dinode :: "u32 \<Rightarrow> dinode \<Rightarrow> u8 list \<Rightarrow> u8 list" where
  "put_dinode inum d = put_at (dinode_at inum) (bytes_of_dinode d)"

definition zero_dinode :: dinode where
  "zero_dinode = \<lparr>di_type = 0, di_major = 0, di_minor = 0, di_nlink = 0, di_size = 0,
     di_addrs = replicate (Suc NDIRECT) 0\<rparr>"

section \<open>Blocks\<close>

definition readsb :: "u32 \<Rightarrow> ('a fs_scheme, unit) op" where
  "readsb d =
     bind (bread d 1) (\<lambda>bp.
     bind (get_data bp) (\<lambda>data.
     bind (modify (\<lambda>s. s\<lparr>sb := superblock_of data\<rparr>)) (\<lambda>_.
     brelse bp)))"

definition bzero :: "u32 \<Rightarrow> u32 \<Rightarrow> ('a log_scheme, unit) op" where
  "bzero d bno =
     bind (bread d bno) (\<lambda>bp.
     bind (set_data bp (\<lambda>_. replicate BSIZE 0)) (\<lambda>_.
     bind (log_write bp) (\<lambda>_.
     brelse bp)))"

definition bit_mask :: "nat \<Rightarrow> u8" where
  "bit_mask bi = push_bit (bi mod 8) 1"

text \<open>The first clear bit of a bitmap block from \<open>bi\<close> on, among the next \<open>n\<close>.\<close>

fun free_bit :: "u8 list \<Rightarrow> nat \<Rightarrow> nat \<Rightarrow> nat option" where
  "free_bit data bi 0 = None"
| "free_bit data bi (Suc n) =
     (if (data ! (bi div 8)) AND bit_mask bi = 0 then Some bi else free_bit data (Suc bi) n)"

text \<open>\<open>b\<close> is the number of the first block the bitmap block is about.\<close>

fun balloc_scan :: "u32 \<Rightarrow> nat list \<Rightarrow> ('a fs_scheme, u32) op" where
  "balloc_scan d [] = bind (printf (cs ''balloc: out of blocks'' @ [10]) []) (\<lambda>_. ret 0)"
| "balloc_scan d (b # bs) =
     bind (gets sb) (\<lambda>sbk.
     bind (bread d (BBLOCK (of_nat b) sbk)) (\<lambda>bp.
     bind (get_data bp) (\<lambda>data.
     case free_bit data 0 (min BPB (unat (sb_size sbk) - b)) of
       Some bi \<Rightarrow>
         bind (set_data bp (\<lambda>data. data[bi div 8 := (data ! (bi div 8)) OR bit_mask bi])) (\<lambda>_.
         bind (log_write bp) (\<lambda>_.
         bind (brelse bp) (\<lambda>_.
         bind (bzero d (of_nat (b + bi))) (\<lambda>_.
         ret (of_nat (b + bi))))))
     | None \<Rightarrow> bind (brelse bp) (\<lambda>_. balloc_scan d bs))))"

definition balloc :: "u32 \<Rightarrow> ('a fs_scheme, u32) op" where
  "balloc d =
     bind (gets (\<lambda>s. unat (sb_size (sb s)))) (\<lambda>size.
     balloc_scan d (map (\<lambda>k. k * BPB) [0..<(size + BPB - 1) div BPB]))"

definition bfree :: "u32 \<Rightarrow> u32 \<Rightarrow> ('a fs_scheme, unit) op" where
  "bfree d b =
     bind (gets sb) (\<lambda>sbk.
     bind (bread d (BBLOCK b sbk)) (\<lambda>bp.
     bind (get_data bp) (\<lambda>data.
     let bi = unat b mod BPB; m = bit_mask bi in
     if (data ! (bi div 8)) AND m = 0 then panic ''freeing free block''
     else
       bind (set_data bp (\<lambda>data. data[bi div 8 := (data ! (bi div 8)) AND NOT m])) (\<lambda>_.
       bind (log_write bp) (\<lambda>_.
       brelse bp)))))"

section \<open>Inodes\<close>

definition iinit :: "('a fs_scheme, unit) op" where
  "iinit =
     bind (initlock ItableLock ''itable'') (\<lambda>_.
     for_each [0..<NINODE] (\<lambda>i. initsleeplock (InodeLk i) ''inode''))"

text \<open>The scan of \<open>iget\<close>: the entry for the inode, or the first free slot.\<close>

fun iget_scan :: "(nat \<Rightarrow> inode) \<Rightarrow> u32 \<Rightarrow> u32 \<Rightarrow> nat option \<Rightarrow> nat list \<Rightarrow> nat option \<times> nat option" where
  "iget_scan it d inum slot [] = (None, slot)"
| "iget_scan it d inum slot (i # is) =
     (if 0 < i_ref (it i) \<and> i_dev (it i) = d \<and> i_inum (it i) = inum then (Some i, slot)
      else iget_scan it d inum (if slot = None \<and> i_ref (it i) = 0 then Some i else slot) is)"

definition iget :: "u32 \<Rightarrow> u32 \<Rightarrow> ('a fs_scheme, nat) op" where
  "iget d inum =
     bind (acquire ItableLock) (\<lambda>_.
     bind (gets (\<lambda>s. iget_scan (itable s) d inum None [0..<NINODE])) (\<lambda>(found, slot).
     case found of
       Some i \<Rightarrow>
         bind (modify (set_inode i (\<lambda>n. n\<lparr>i_ref := i_ref n + 1\<rparr>))) (\<lambda>_.
         bind (release ItableLock) (\<lambda>_.
         ret i))
     | None \<Rightarrow>
         (case slot of None \<Rightarrow> panic ''iget: no inodes''
          | Some i \<Rightarrow>
              bind (modify (set_inode i (\<lambda>n. n\<lparr>i_dev := d, i_inum := inum, i_ref := 1, i_valid := False\<rparr>))) (\<lambda>_.
              bind (release ItableLock) (\<lambda>_.
              ret i)))))"

fun ialloc_scan :: "u32 \<Rightarrow> u16 \<Rightarrow> nat list \<Rightarrow> ('a fs_scheme, nat option) op" where
  "ialloc_scan d type [] = bind (printf (cs ''ialloc: no inodes'' @ [10]) []) (\<lambda>_. ret None)"
| "ialloc_scan d type (inum # inums) =
     bind (gets sb) (\<lambda>sbk.
     bind (bread d (IBLOCK (of_nat inum) sbk)) (\<lambda>bp.
     bind (get_data bp) (\<lambda>data.
     if di_type (get_dinode data (of_nat inum)) = 0
     then
       bind (set_data bp (put_dinode (of_nat inum) (zero_dinode\<lparr>di_type := type\<rparr>))) (\<lambda>_.
       bind (log_write bp) (\<lambda>_.
       bind (brelse bp) (\<lambda>_.
       bind (iget d (of_nat inum)) (\<lambda>i.
       ret (Some i)))))
     else bind (brelse bp) (\<lambda>_. ialloc_scan d type inums))))"

definition ialloc :: "u32 \<Rightarrow> u16 \<Rightarrow> ('a fs_scheme, nat option) op" where
  "ialloc d type =
     bind (gets (\<lambda>s. unat (sb_ninodes (sb s)))) (\<lambda>n. ialloc_scan d type [1..<n])"

definition inode_copy :: "inode \<Rightarrow> dinode" where
  "inode_copy n = \<lparr>di_type = i_type n, di_major = i_major n, di_minor = i_minor n,
     di_nlink = i_nlink n, di_size = i_size n, di_addrs = i_addrs n\<rparr>"

definition iupdate :: "nat \<Rightarrow> ('a fs_scheme, unit) op" where
  "iupdate ip =
     bind (gets (\<lambda>s. (itable s ip, sb s))) (\<lambda>(n, sbk).
     bind (bread (i_dev n) (IBLOCK (i_inum n) sbk)) (\<lambda>bp.
     bind (set_data bp (put_dinode (i_inum n) (inode_copy n))) (\<lambda>_.
     bind (log_write bp) (\<lambda>_.
     brelse bp))))"

definition idup :: "nat \<Rightarrow> ('a fs_scheme, nat) op" where
  "idup ip =
     bind (acquire ItableLock) (\<lambda>_.
     bind (modify (set_inode ip (\<lambda>n. n\<lparr>i_ref := i_ref n + 1\<rparr>))) (\<lambda>_.
     bind (release ItableLock) (\<lambda>_.
     ret ip)))"

definition load_dinode :: "dinode \<Rightarrow> inode \<Rightarrow> inode" where
  "load_dinode d n = n\<lparr>i_type := di_type d, i_major := di_major d, i_minor := di_minor d,
     i_nlink := di_nlink d, i_size := di_size d, i_addrs := di_addrs d\<rparr>"

definition ilock :: "nat option \<Rightarrow> ('a fs_scheme, unit) op" where
  "ilock p =
     (case p of None \<Rightarrow> panic ''ilock''
      | Some ip \<Rightarrow>
          bind (gets (\<lambda>s. i_ref (itable s ip))) (\<lambda>r.
          if r < 1 then panic ''ilock''
          else
            bind (acquiresleep (InodeLk ip)) (\<lambda>_.
            bind (gets (\<lambda>s. (itable s ip, sb s))) (\<lambda>(n, sbk).
            if \<not> i_valid n
            then
              bind (bread (i_dev n) (IBLOCK (i_inum n) sbk)) (\<lambda>bp.
              bind (get_data bp) (\<lambda>data.
              bind (modify (set_inode ip (load_dinode (get_dinode data (i_inum n))))) (\<lambda>_.
              bind (brelse bp) (\<lambda>_.
              bind (modify (set_inode ip (\<lambda>n. n\<lparr>i_valid := True\<rparr>))) (\<lambda>_.
              bind (gets (\<lambda>s. i_type (itable s ip))) (\<lambda>t.
              if t = 0 then panic ''ilock: no type'' else ret ()))))))
            else ret ()))))"

definition iunlock :: "nat option \<Rightarrow> ('a fs_scheme, unit) op" where
  "iunlock p =
     (case p of None \<Rightarrow> panic ''iunlock''
      | Some ip \<Rightarrow>
          bind (holdingsleep (InodeLk ip)) (\<lambda>h.
          bind (gets (\<lambda>s. i_ref (itable s ip))) (\<lambda>r.
          if \<not> h \<or> r < 1 then panic ''iunlock''
          else releasesleep (InodeLk ip))))"

definition bfree_addrs :: "u32 \<Rightarrow> u32 list \<Rightarrow> ('a fs_scheme, unit) op" where
  "bfree_addrs d as = for_each as (\<lambda>a. if a \<noteq> 0 then bfree d a else ret ())"

definition indirect_words :: "u8 list \<Rightarrow> u32 list" where
  "indirect_words data = map (\<lambda>j. get32 data (4 * j)) [0..<NINDIRECT]"

definition itrunc :: "nat \<Rightarrow> ('a fs_scheme, unit) op" where
  "itrunc ip =
     bind (for_each [0..<NDIRECT] (\<lambda>i.
       bind (gets (\<lambda>s. (i_dev (itable s ip), i_addrs (itable s ip) ! i))) (\<lambda>(d, a).
       if a \<noteq> 0
       then bind (bfree d a) (\<lambda>_. modify (set_inode ip (\<lambda>n. n\<lparr>i_addrs := (i_addrs n)[i := 0]\<rparr>)))
       else ret ()))) (\<lambda>_.
     bind (gets (\<lambda>s. (i_dev (itable s ip), i_addrs (itable s ip) ! NDIRECT))) (\<lambda>(d, a).
     bind (if a \<noteq> 0
           then
             bind (bread d a) (\<lambda>bp.
             bind (get_data bp) (\<lambda>data.
             bind (bfree_addrs d (indirect_words data)) (\<lambda>_.
             bind (brelse bp) (\<lambda>_.
             bind (bfree d a) (\<lambda>_.
             modify (set_inode ip (\<lambda>n. n\<lparr>i_addrs := (i_addrs n)[NDIRECT := 0]\<rparr>)))))))
           else ret ()) (\<lambda>_.
     bind (modify (set_inode ip (\<lambda>n. n\<lparr>i_size := 0\<rparr>))) (\<lambda>_.
     iupdate ip))))"

definition iput :: "nat \<Rightarrow> ('a fs_scheme, unit) op" where
  "iput ip =
     bind (acquire ItableLock) (\<lambda>_.
     bind (gets (\<lambda>s. itable s ip)) (\<lambda>n.
     bind (if i_ref n = 1 \<and> i_valid n \<and> i_nlink n = 0
           then
             bind (acquiresleep (InodeLk ip)) (\<lambda>_.
             bind (release ItableLock) (\<lambda>_.
             bind (itrunc ip) (\<lambda>_.
             bind (modify (set_inode ip (\<lambda>n. n\<lparr>i_type := 0\<rparr>))) (\<lambda>_.
             bind (iupdate ip) (\<lambda>_.
             bind (modify (set_inode ip (\<lambda>n. n\<lparr>i_valid := False\<rparr>))) (\<lambda>_.
             bind (releasesleep (InodeLk ip)) (\<lambda>_.
             acquire ItableLock)))))))
           else ret ()) (\<lambda>_.
     bind (modify (set_inode ip (\<lambda>n. n\<lparr>i_ref := i_ref n - 1\<rparr>))) (\<lambda>_.
     release ItableLock))))"

definition iunlockput :: "nat \<Rightarrow> ('a fs_scheme, unit) op" where
  "iunlockput ip = bind (iunlock (Some ip)) (\<lambda>_. iput ip)"

definition ireclaim_one :: "u32 \<Rightarrow> nat \<Rightarrow> ('a fs_scheme, unit) op" where
  "ireclaim_one d inum =
     bind (gets sb) (\<lambda>sbk.
     bind (bread d (IBLOCK (of_nat inum) sbk)) (\<lambda>bp.
     bind (get_data bp) (\<lambda>data.
     let dip = get_dinode data (of_nat inum) in
     bind (if di_type dip \<noteq> 0 \<and> di_nlink dip = 0
           then
             bind (printf (cs ''ireclaim: orphaned inode %d'' @ [10]) [ANum (of_nat inum)]) (\<lambda>_.
             bind (iget d (of_nat inum)) (\<lambda>i. ret (Some i)))
           else ret None) (\<lambda>p.
     bind (brelse bp) (\<lambda>_.
     case p of None \<Rightarrow> ret ()
     | Some ip \<Rightarrow>
         bind begin_op (\<lambda>_.
         bind (ilock p) (\<lambda>_.
         bind (iunlock p) (\<lambda>_.
         bind (iput ip) (\<lambda>_.
         end_op)))))))))"

definition ireclaim :: "u32 \<Rightarrow> ('a fs_scheme, unit) op" where
  "ireclaim d =
     bind (gets (\<lambda>s. unat (sb_ninodes (sb s)))) (\<lambda>n. for_each [1..<n] (ireclaim_one d))"

definition fsinit :: "u32 \<Rightarrow> ('a fs_scheme, unit) op" where
  "fsinit d =
     bind (readsb d) (\<lambda>_.
     bind (gets sb) (\<lambda>sbk.
     if sb_magic sbk \<noteq> FSMAGIC then panic ''invalid file system''
     else
       bind (printf (cs ''fsinit: sbp->magic=0x%x size=%d nblocks=%d ninodes=%d nlog=%d logstart=%d inodestart=%d bmapstart=%d'' @ [10])
         (map ANum [sb_magic sbk, sb_size sbk, sb_nblocks sbk, sb_ninodes sbk, sb_nlog sbk, sb_logstart sbk,
            sb_inodestart sbk, sb_bmapstart sbk])) (\<lambda>_.
       bind (initlog d (sb_logstart sbk)) (\<lambda>_.
       bind (gets sb) (\<lambda>sbk.
       bind (printf (cs ''fsinit: after initlog, sbp->inodestart=%d IPB=%d'' @ [10])
         [ANum (sb_inodestart sbk), ANum (of_nat IPB)]) (\<lambda>_.
       ireclaim d))))))"

section \<open>Content\<close>

datatype rdest = RUser u32 | RKern u32 | RLocal
datatype wsrc = WUser u32 | WLocal "u8 list"

text \<open>The block an indirect slot names, allocated if necessary.\<close>

definition bmap_indirect :: "nat \<Rightarrow> u32 \<Rightarrow> nat \<Rightarrow> ('a fs_scheme, u32) op" where
  "bmap_indirect ip ind k =
     bind (gets (\<lambda>s. i_dev (itable s ip))) (\<lambda>d.
     bind (bread d ind) (\<lambda>bp.
     bind (get_data bp) (\<lambda>data.
     let a = get32 data (4 * k) in
     bind (if a = 0
           then
             bind (balloc d) (\<lambda>addr.
             if addr \<noteq> 0
             then bind (set_data bp (put_at (4 * k) (bytes32 addr))) (\<lambda>_.
                  bind (log_write bp) (\<lambda>_. ret addr))
             else ret addr)
           else ret a) (\<lambda>addr.
     bind (brelse bp) (\<lambda>_.
     ret addr)))))"

text \<open>The block in slot \<open>i\<close> of \<open>addrs\<close>, allocated if necessary.\<close>

definition bmap_slot :: "nat \<Rightarrow> nat \<Rightarrow> ('a fs_scheme, u32) op" where
  "bmap_slot ip i =
     bind (gets (\<lambda>s. (i_dev (itable s ip), i_addrs (itable s ip) ! i))) (\<lambda>(d, a).
     if a = 0
     then
       bind (balloc d) (\<lambda>addr.
       if addr = 0 then ret 0
       else bind (modify (set_inode ip (\<lambda>n. n\<lparr>i_addrs := (i_addrs n)[i := addr]\<rparr>))) (\<lambda>_. ret addr))
     else ret a)"

definition bmap :: "nat \<Rightarrow> u32 \<Rightarrow> ('a fs_scheme, u32) op" where
  "bmap ip bn =
     (if unat bn < NDIRECT then bmap_slot ip (unat bn)
      else
        let k = unat bn - NDIRECT in
        if k < NINDIRECT
        then
          bind (bmap_slot ip NDIRECT) (\<lambda>ind.
          if ind = 0 then ret 0 else bmap_indirect ip ind k)
        else panic ''bmap: out of range'')"

record stat =
  st_dev :: u32
  st_ino :: u32
  st_type :: u16
  st_nlink :: u16
  st_size :: u32

definition stati :: "nat \<Rightarrow> ('a fs_scheme, stat) op" where
  "stati ip = gets (\<lambda>s. let n = itable s ip in
     \<lparr>st_dev = i_dev n, st_ino = i_inum n, st_type = i_type n, st_nlink = i_nlink n, st_size = i_size n\<rparr>)"

definition deliver :: "rdest \<Rightarrow> u8 list \<Rightarrow> ('a procs_scheme, int) op" where
  "deliver dst bs =
     (case dst of RUser va \<Rightarrow> either_copyout True va bs
      | RKern pa \<Rightarrow> either_copyout False pa bs
      | RLocal \<Rightarrow> bind myproc (\<lambda>_. ret 0))"

fun rdest_add :: "rdest \<Rightarrow> nat \<Rightarrow> rdest" where
  "rdest_add (RUser va) m = RUser (va + of_nat m)"
| "rdest_add (RKern pa) m = RKern (pa + of_nat m)"
| "rdest_add RLocal m = RLocal"

text \<open>How many of \<open>n\<close> bytes at offset \<open>off\<close> lie in one block.\<close>

definition in_block :: "u32 \<Rightarrow> nat \<Rightarrow> nat" where
  "in_block off n = min n (BSIZE - unat off mod BSIZE)"

lemma in_block_bounds: "0 < n \<Longrightarrow> 0 < in_block off n" "in_block off n \<le> n"
  "unat off mod BSIZE + in_block off n \<le> BSIZE"
proof -
  have "unat off mod BSIZE < BSIZE" by (simp add: BSIZE_def)
  then show "0 < n \<Longrightarrow> 0 < in_block off n" "in_block off n \<le> n" "unat off mod BSIZE + in_block off n \<le> BSIZE"
    by (auto simp: in_block_def)
qed

text \<open>\<open>tot\<close> bytes have been read and \<open>rest\<close> are to be read; the result is the count \<open>readi\<close> returns
  and the bytes delivered from here on.\<close>

function readi_loop :: "nat \<Rightarrow> rdest \<Rightarrow> u32 \<Rightarrow> nat \<Rightarrow> nat \<Rightarrow> ('a fs_scheme, int \<times> u8 list) op" where
  "readi_loop ip dst off tot rest =
     (if rest = 0 then ret (int tot, [])
      else
        bind (bmap ip (off div of_nat BSIZE)) (\<lambda>addr.
        if addr = 0 then ret (int tot, [])
        else
          bind (gets (\<lambda>s. i_dev (itable s ip))) (\<lambda>d.
          bind (bread d addr) (\<lambda>bp.
          bind (get_data bp) (\<lambda>data.
          let m = in_block off rest; bs = take m (drop (unat off mod BSIZE) data) in
          bind (deliver dst bs) (\<lambda>r.
          bind (brelse bp) (\<lambda>_.
          if r = -1 then ret (-1, [])
          else
            bind (readi_loop ip (rdest_add dst m) (off + of_nat m) (tot + m) (rest - m)) (\<lambda>(k, cs).
            ret (k, bs @ cs)))))))))"
  by pat_completeness auto
termination
  by (relation "measure (\<lambda>(ip, dst, off, tot, rest). rest)") (auto simp: in_block_bounds)

declare readi_loop.simps [simp del]

definition readi :: "nat \<Rightarrow> rdest \<Rightarrow> u32 \<Rightarrow> u32 \<Rightarrow> ('a fs_scheme, int \<times> u8 list) op" where
  "readi ip dst off n =
     bind (gets (\<lambda>s. i_size (itable s ip))) (\<lambda>size.
     if size < off \<or> off + n < off then ret (0, [])
     else readi_loop ip dst off 0 (unat (if size < off + n then size - off else n)))"

definition fetch :: "wsrc \<Rightarrow> nat \<Rightarrow> ('a procs_scheme, int \<times> u8 list) op" where
  "fetch src m =
     (case src of WUser va \<Rightarrow> either_copyin True va m
      | WLocal bs \<Rightarrow> bind myproc (\<lambda>_. ret (0, take m bs)))"

fun wsrc_add :: "wsrc \<Rightarrow> nat \<Rightarrow> wsrc" where
  "wsrc_add (WUser va) m = WUser (va + of_nat m)"
| "wsrc_add (WLocal bs) m = WLocal (drop m bs)"

text \<open>The result is the count and the offset reached.\<close>

function writei_loop :: "nat \<Rightarrow> wsrc \<Rightarrow> u32 \<Rightarrow> nat \<Rightarrow> nat \<Rightarrow> ('a fs_scheme, nat \<times> u32) op" where
  "writei_loop ip src off tot rest =
     (if rest = 0 then ret (tot, off)
      else
        bind (bmap ip (off div of_nat BSIZE)) (\<lambda>addr.
        if addr = 0 then ret (tot, off)
        else
          bind (gets (\<lambda>s. i_dev (itable s ip))) (\<lambda>d.
          bind (bread d addr) (\<lambda>bp.
          let m = in_block off rest in
          bind (fetch src m) (\<lambda>(r, bs).
          bind (set_data bp (put_at (unat off mod BSIZE) bs)) (\<lambda>_.
          if r = -1 then bind (brelse bp) (\<lambda>_. ret (tot, off))
          else
            bind (log_write bp) (\<lambda>_.
            bind (brelse bp) (\<lambda>_.
            writei_loop ip (wsrc_add src m) (off + of_nat m) (tot + m) (rest - m)))))))))"
  by pat_completeness auto
termination
  by (relation "measure (\<lambda>(ip, src, off, tot, rest). rest)") (auto simp: in_block_bounds)

declare writei_loop.simps [simp del]

definition writei :: "nat \<Rightarrow> wsrc \<Rightarrow> u32 \<Rightarrow> u32 \<Rightarrow> ('a fs_scheme, int) op" where
  "writei ip src off n =
     bind (gets (\<lambda>s. i_size (itable s ip))) (\<lambda>size.
     if size < off \<or> off + n < off then ret (-1)
     else if of_nat (MAXFILE * BSIZE) < off + n then ret (-1)
     else
       bind (writei_loop ip src off 0 (unat n)) (\<lambda>(tot, off').
       bind (modify (set_inode ip (\<lambda>i. if i_size i < off' then i\<lparr>i_size := off'\<rparr> else i))) (\<lambda>_.
       bind (iupdate ip) (\<lambda>_.
       ret (int tot)))))"

section \<open>Directories\<close>

text \<open>Reading beyond a list is reading the NUL that ends a string.\<close>

definition cptr :: "u8 list \<Rightarrow> ptr" where
  "cptr bs i = (if i < length bs then bs ! i else 0)"

definition namecmp :: "u8 list \<Rightarrow> u8 list \<Rightarrow> int" where
  "namecmp s t = strncmp (cptr s) (cptr t) DIRSIZ"

text \<open>The offsets of the entries of a directory of \<open>size\<close> bytes.\<close>

definition dir_offsets :: "u32 \<Rightarrow> u32 list" where
  "dir_offsets sz = map (\<lambda>k. of_nat (k * DIRENT_SIZE)) [0..<(unat sz + DIRENT_SIZE - 1) div DIRENT_SIZE]"

definition de_inum :: "u8 list \<Rightarrow> u16" where
  "de_inum de = get16 de 0"

definition de_name :: "u8 list \<Rightarrow> u8 list" where
  "de_name de = drop 2 de"

fun dirlookup_scan :: "nat \<Rightarrow> u8 list \<Rightarrow> u32 list \<Rightarrow> ('a fs_scheme, (nat \<times> u32) option) op" where
  "dirlookup_scan dp name [] = ret None"
| "dirlookup_scan dp name (off # offs) =
     bind (readi dp RLocal off (of_nat DIRENT_SIZE)) (\<lambda>(r, de).
     if r \<noteq> int DIRENT_SIZE then panic ''dirlookup read''
     else if de_inum de = 0 then dirlookup_scan dp name offs
     else if namecmp name (de_name de) = 0
     then
       bind (gets (\<lambda>s. i_dev (itable s dp))) (\<lambda>d.
       bind (iget d (ucast (de_inum de))) (\<lambda>ip.
       ret (Some (ip, off))))
     else dirlookup_scan dp name offs)"

definition dirlookup :: "nat \<Rightarrow> u8 list \<Rightarrow> ('a fs_scheme, (nat \<times> u32) option) op" where
  "dirlookup dp name =
     bind (gets (\<lambda>s. itable s dp)) (\<lambda>n.
     if i_type n \<noteq> T_DIR then panic ''dirlookup not DIR''
     else dirlookup_scan dp name (dir_offsets (i_size n)))"

text \<open>The offset of the first empty entry, or the offset at which the loop ends.\<close>

fun dirlink_scan :: "nat \<Rightarrow> u32 \<Rightarrow> u32 list \<Rightarrow> ('a fs_scheme, u32) op" where
  "dirlink_scan dp end_off [] = ret end_off"
| "dirlink_scan dp end_off (off # offs) =
     bind (readi dp RLocal off (of_nat DIRENT_SIZE)) (\<lambda>(r, de).
     if r \<noteq> int DIRENT_SIZE then panic ''dirlink read''
     else if de_inum de = 0 then ret off
     else dirlink_scan dp (off + of_nat DIRENT_SIZE) offs)"

definition dirent_bytes :: "u32 \<Rightarrow> u8 list \<Rightarrow> u8 list" where
  "dirent_bytes inum name = bytes16 (ucast inum) @ strncpy (replicate DIRSIZ 0) (cptr name) (int DIRSIZ)"

definition dirlink :: "nat \<Rightarrow> u8 list \<Rightarrow> u32 \<Rightarrow> ('a fs_scheme, int) op" where
  "dirlink dp name inum =
     bind (dirlookup dp name) (\<lambda>found.
     case found of Some (ip, _) \<Rightarrow> bind (iput ip) (\<lambda>_. ret (-1))
     | None \<Rightarrow>
         bind (gets (\<lambda>s. i_size (itable s dp))) (\<lambda>size.
         bind (dirlink_scan dp 0 (dir_offsets size)) (\<lambda>off.
         bind (writei dp (WLocal (dirent_bytes inum name)) off (of_nat DIRENT_SIZE)) (\<lambda>r.
         ret (if r \<noteq> int DIRENT_SIZE then -1 else 0)))))"

section \<open>Paths\<close>

definition SLASH :: u8 where "SLASH = 47"

text \<open>The rest of the path and the new content of the \<open>name\<close> buffer.\<close>

definition skipelem :: "u8 list \<Rightarrow> u8 list \<Rightarrow> (u8 list \<times> u8 list) option" where
  "skipelem path name =
     (let s = dropWhile (\<lambda>c. c = SLASH) path in
      if s = [] then None
      else
        let el = takeWhile (\<lambda>c. c \<noteq> SLASH) s; len = length el;
            name' = (if DIRSIZ \<le> len then take DIRSIZ s @ drop DIRSIZ name
                     else el @ [0] @ drop (Suc len) name)
        in Some (dropWhile (\<lambda>c. c = SLASH) (drop len s), name'))"

lemma skipelem_shorter:
  "skipelem path name = Some (path', name') \<Longrightarrow> length path' < length path"
proof -
  assume e: "skipelem path name = Some (path', name')"
  let ?s = "dropWhile (\<lambda>c. c = SLASH) path" and ?el = "takeWhile (\<lambda>c. c \<noteq> SLASH) (dropWhile (\<lambda>c. c = SLASH) path)"
  have ne: "?s \<noteq> []" and p: "path' = dropWhile (\<lambda>c. c = SLASH) (drop (length ?el) ?s)"
    using e by (auto simp: skipelem_def Let_def split: if_splits)
  obtain c r where s: "?s = c # r" using ne by (cases ?s) auto
  have "c \<noteq> SLASH" using ne hd_dropWhile [OF ne] s by simp
  then have "0 < length ?el" unfolding s by simp
  moreover have "length path' \<le> length (drop (length ?el) ?s)" unfolding p by (rule length_dropWhile_le)
  moreover have "length ?s \<le> length path" by (rule length_dropWhile_le)
  moreover have "0 < length ?s" using ne unfolding length_greater_0_conv .
  ultimately show ?thesis unfolding length_drop by linarith
qed

text \<open>The loop of \<open>namex\<close> from the inode \<open>ip\<close>; the result is the inode and the \<open>name\<close> buffer.\<close>

function namex_loop :: "nat \<Rightarrow> u8 list \<Rightarrow> bool \<Rightarrow> u8 list \<Rightarrow> ('a fs_scheme, nat option \<times> u8 list) op" where
  "namex_loop ip path parent name =
     (case skipelem path name of
        None \<Rightarrow> if parent then bind (iput ip) (\<lambda>_. ret (None, name)) else ret (Some ip, name)
      | Some (path', name') \<Rightarrow>
          bind (ilock (Some ip)) (\<lambda>_.
          bind (gets (\<lambda>s. i_type (itable s ip))) (\<lambda>t.
          if t \<noteq> T_DIR then bind (iunlockput ip) (\<lambda>_. ret (None, name'))
          else if parent \<and> path' = [] then bind (iunlock (Some ip)) (\<lambda>_. ret (Some ip, name'))
          else
            bind (dirlookup ip name') (\<lambda>found.
            case found of None \<Rightarrow> bind (iunlockput ip) (\<lambda>_. ret (None, name'))
            | Some (nxt, _) \<Rightarrow> bind (iunlockput ip) (\<lambda>_. namex_loop nxt path' parent name')))))"
  by pat_completeness auto
termination
  by (relation "measure (\<lambda>(ip, path, parent, name). length path)") (auto simp: skipelem_shorter)

declare namex_loop.simps [simp del]

definition namex :: "u8 list \<Rightarrow> bool \<Rightarrow> u8 list \<Rightarrow> ('a fs_scheme, nat option \<times> u8 list) op" where
  "namex path parent name =
     bind (if path \<noteq> [] \<and> hd path = SLASH then iget ROOTDEV ROOTINO
           else
             bind curproc (\<lambda>p.
             bind (gets (\<lambda>s. p_cwd (ptable s p))) (\<lambda>cwd.
             bind (deref cwd) idup))) (\<lambda>ip.
     namex_loop ip path parent name)"

definition namei :: "u8 list \<Rightarrow> ('a fs_scheme, nat option) op" where
  "namei path = bind (namex path False (replicate DIRSIZ 0)) (\<lambda>(ip, _). ret ip)"

definition nameiparent :: "u8 list \<Rightarrow> ('a fs_scheme, nat option \<times> u8 list) op" where
  "nameiparent path = namex path True (replicate DIRSIZ 0)"

end
