(* ===== verification/Pipe.thy ===== *)
theory Pipe
  imports Fs
begin

text \<open>
  Pipes, \<open>kernel/pipe.c\<close> (\<open>pipealloc\<close> creates files and is in \<open>File\<close>). A pipe is named by the
  address of the page that holds it; the page's fields are the record at that address in \<open>pipes\<close>.
\<close>

section \<open>Operations\<close>

definition PIPESIZE :: u32 where "PIPESIZE = 512"

record pipe =
  pi_data :: "u8 list"
  pi_nread :: u32
  pi_nwrite :: u32
  pi_readopen :: bool
  pi_writeopen :: bool

datatype filetype = FD_NONE | FD_PIPE | FD_INODE | FD_DEVICE

record kfile =
  f_type :: filetype
  f_ref :: int
  f_readable :: bool
  f_writable :: bool
  f_pipe :: u32
  f_ip :: "nat option"
  f_off :: u32
  f_major :: int

record files = fs +
  ftable_file :: "nat \<Rightarrow> kfile"
  pipes :: "u32 \<Rightarrow> pipe"

definition set_pipe :: "u32 \<Rightarrow> (pipe \<Rightarrow> pipe) \<Rightarrow> 'a files_scheme \<Rightarrow> 'a files_scheme" where
  "set_pipe pi f s = s\<lparr>pipes := (pipes s)(pi := f (pipes s pi))\<rparr>"

definition pipeclose :: "u32 \<Rightarrow> bool \<Rightarrow> ('a files_scheme, unit) op" where
  "pipeclose pi wr =
     bind (acquire (PipeLock pi)) (\<lambda>_.
     bind (if wr
           then bind (modify (set_pipe pi (\<lambda>q. q\<lparr>pi_writeopen := False\<rparr>))) (\<lambda>_. wakeup (Some (PipeRdChan pi)))
           else bind (modify (set_pipe pi (\<lambda>q. q\<lparr>pi_readopen := False\<rparr>))) (\<lambda>_. wakeup (Some (PipeWrChan pi)))) (\<lambda>_.
     bind (gets (\<lambda>s. pipes s pi)) (\<lambda>q.
     if \<not> pi_readopen q \<and> \<not> pi_writeopen q
     then bind (release (PipeLock pi)) (\<lambda>_. kfree pi)
     else release (PipeLock pi))))"

definition pipe_put :: "u8 \<Rightarrow> pipe \<Rightarrow> pipe" where
  "pipe_put ch q = q\<lparr>pi_data := (pi_data q)[unat (pi_nwrite q mod PIPESIZE) := ch], pi_nwrite := pi_nwrite q + 1\<rparr>"

text \<open>Every round sleeps or transfers a byte, which bounds the rounds; the result is the return
  value when the loop was left by \<open>return\<close>, or the number of bytes transferred.\<close>

fun pipewrite_loop :: "nat \<Rightarrow> u32 \<Rightarrow> nat \<Rightarrow> u32 \<Rightarrow> nat \<Rightarrow> nat \<Rightarrow> ('a files_scheme, int) op" where
  "pipewrite_loop 0 pi pr addr n i = hang"
| "pipewrite_loop (Suc fuel) pi pr addr n i =
     (let finish = (bind (wakeup (Some (PipeRdChan pi))) (\<lambda>_. bind (release (PipeLock pi)) (\<lambda>_. ret (int i)))) in
      if n \<le> i then finish
      else
        bind (gets (\<lambda>s. pi_readopen (pipes s pi))) (\<lambda>readopen.
        bind (if readopen then killed pr else ret 1) (\<lambda>k.
        if k \<noteq> 0 then bind (release (PipeLock pi)) (\<lambda>_. ret (-1))
        else
          bind (gets (\<lambda>s. pi_nwrite (pipes s pi) = pi_nread (pipes s pi) + PIPESIZE)) (\<lambda>full.
          if full
          then
            bind (wakeup (Some (PipeRdChan pi))) (\<lambda>_.
            bind (sleep (Some (PipeWrChan pi)) (PipeLock pi)) (\<lambda>_.
            pipewrite_loop fuel pi pr addr n i))
          else
            bind (gets (\<lambda>s. p_pagetable (ptable s pr))) (\<lambda>pt.
            bind (copyin pt (addr + of_nat i) 1) (\<lambda>(r, ch).
            if r = -1 then finish
            else
              bind (modify (set_pipe pi (pipe_put (hd ch)))) (\<lambda>_.
              pipewrite_loop fuel pi pr addr n (Suc i))))))))"

definition pipewrite :: "u32 \<Rightarrow> u32 \<Rightarrow> int \<Rightarrow> ('a files_scheme, int) op" where
  "pipewrite pi addr n =
     bind curproc (\<lambda>pr.
     bind (acquire (PipeLock pi)) (\<lambda>_.
     (\<lambda>P s. pipewrite_loop (Suc (resumptions P s + nat n)) pi pr addr (nat n) 0 P s)))"

text \<open>Wait for data or for the last writer; the result is false when the process was killed.\<close>

fun piperead_wait :: "nat \<Rightarrow> u32 \<Rightarrow> nat \<Rightarrow> ('a files_scheme, bool) op" where
  "piperead_wait 0 pi pr = hang"
| "piperead_wait (Suc fuel) pi pr =
     bind (gets (\<lambda>s. pi_nread (pipes s pi) = pi_nwrite (pipes s pi) \<and> pi_writeopen (pipes s pi))) (\<lambda>wait.
     if \<not> wait then ret True
     else
       bind (killed pr) (\<lambda>k.
       if k \<noteq> 0 then ret False
       else bind (sleep (Some (PipeRdChan pi)) (PipeLock pi)) (\<lambda>_. piperead_wait fuel pi pr)))"

fun piperead_copy :: "u32 \<Rightarrow> nat \<Rightarrow> u32 \<Rightarrow> nat \<Rightarrow> nat \<Rightarrow> ('a files_scheme, int) op" where
  "piperead_copy pi pr addr i 0 = ret (int i)"
| "piperead_copy pi pr addr i (Suc rest) =
     bind (gets (\<lambda>s. pipes s pi)) (\<lambda>q.
     if pi_nread q = pi_nwrite q then ret (int i)
     else
       bind (gets (\<lambda>s. p_pagetable (ptable s pr))) (\<lambda>pt.
       bind (copyout pt (addr + of_nat i) [pi_data q ! unat (pi_nread q mod PIPESIZE)]) (\<lambda>r.
       if r = -1 then ret (if i = 0 then -1 else int i)
       else
         bind (modify (set_pipe pi (\<lambda>q. q\<lparr>pi_nread := pi_nread q + 1\<rparr>))) (\<lambda>_.
         piperead_copy pi pr addr (Suc i) rest))))"

definition piperead :: "u32 \<Rightarrow> u32 \<Rightarrow> int \<Rightarrow> ('a files_scheme, int) op" where
  "piperead pi addr n =
     bind curproc (\<lambda>pr.
     bind (acquire (PipeLock pi)) (\<lambda>_.
     bind (\<lambda>P s. piperead_wait (Suc (resumptions P s)) pi pr P s) (\<lambda>go.
     if \<not> go then bind (release (PipeLock pi)) (\<lambda>_. ret (-1))
     else
       bind (piperead_copy pi pr addr 0 (nat n)) (\<lambda>r.
       bind (wakeup (Some (PipeWrChan pi))) (\<lambda>_.
       bind (release (PipeLock pi)) (\<lambda>_.
       ret r))))))"

end
