(* ===== verification/File.thy ===== *)
theory File
  imports Pipe
begin

text \<open>
  Open files, \<open>kernel/file.c\<close>, and \<open>pipealloc\<close> of \<open>kernel/pipe.c\<close>. A file is its index in
  \<open>ftable_file\<close>. The device switch has the console's functions in the slots that \<open>devsw\<close> marks.
\<close>

section \<open>Operations\<close>

definition set_file :: "nat \<Rightarrow> (kfile \<Rightarrow> kfile) \<Rightarrow> 'a files_scheme \<Rightarrow> 'a files_scheme" where
  "set_file f g s = s\<lparr>ftable_file := (ftable_file s)(f := g (ftable_file s f))\<rparr>"

definition fileinit :: "('a files_scheme, unit) op" where
  "fileinit = initlock FtableLock ''ftable''"

definition filealloc :: "('a files_scheme, nat option) op" where
  "filealloc =
     bind (acquire FtableLock) (\<lambda>_.
     bind (gets (\<lambda>s. find (\<lambda>f. f_ref (ftable_file s f) = 0) [0..<NFILE])) (\<lambda>found.
     case found of
       Some f \<Rightarrow>
         bind (modify (set_file f (\<lambda>x. x\<lparr>f_ref := 1\<rparr>))) (\<lambda>_.
         bind (release FtableLock) (\<lambda>_. ret (Some f)))
     | None \<Rightarrow> bind (release FtableLock) (\<lambda>_. ret None)))"

definition filedup :: "nat \<Rightarrow> ('a files_scheme, nat) op" where
  "filedup f =
     bind (acquire FtableLock) (\<lambda>_.
     bind (gets (\<lambda>s. f_ref (ftable_file s f))) (\<lambda>r.
     if r < 1 then panic ''filedup''
     else
       bind (modify (set_file f (\<lambda>x. x\<lparr>f_ref := f_ref x + 1\<rparr>))) (\<lambda>_.
       bind (release FtableLock) (\<lambda>_. ret f))))"

definition fileclose :: "nat \<Rightarrow> ('a files_scheme, unit) op" where
  "fileclose f =
     bind (acquire FtableLock) (\<lambda>_.
     bind (gets (\<lambda>s. f_ref (ftable_file s f))) (\<lambda>r.
     if r < 1 then panic ''fileclose''
     else
       bind (modify (set_file f (\<lambda>x. x\<lparr>f_ref := f_ref x - 1\<rparr>))) (\<lambda>_.
       bind (gets (\<lambda>s. ftable_file s f)) (\<lambda>ff.
       if 0 < f_ref ff then release FtableLock
       else
         bind (modify (set_file f (\<lambda>x. x\<lparr>f_ref := 0, f_type := FD_NONE\<rparr>))) (\<lambda>_.
         bind (release FtableLock) (\<lambda>_.
         if f_type ff = FD_PIPE then pipeclose (f_pipe ff) (f_writable ff)
         else if f_type ff = FD_INODE \<or> f_type ff = FD_DEVICE
         then
           bind begin_op (\<lambda>_.
           bind (deref (f_ip ff)) (\<lambda>ip.
           bind (iput ip) (\<lambda>_.
           end_op)))
         else ret ()))))))"

definition stat_bytes :: "stat \<Rightarrow> u8 list" where
  "stat_bytes st = bytes32 (st_dev st) @ bytes32 (st_ino st) @ bytes16 (st_type st)
     @ bytes16 (st_nlink st) @ bytes32 (st_size st)"

definition filestat :: "nat \<Rightarrow> u32 \<Rightarrow> ('a files_scheme, int) op" where
  "filestat f addr =
     bind curproc (\<lambda>p.
     bind (gets (\<lambda>s. ftable_file s f)) (\<lambda>x.
     if f_type x = FD_INODE \<or> f_type x = FD_DEVICE
     then
       bind (ilock (f_ip x)) (\<lambda>_.
       bind (deref (f_ip x)) (\<lambda>ip.
       bind (stati ip) (\<lambda>st.
       bind (iunlock (f_ip x)) (\<lambda>_.
       bind (gets (\<lambda>s. p_pagetable (ptable s p))) (\<lambda>pt.
       bind (copyout pt addr (stat_bytes st)) (\<lambda>r.
       ret (if r < 0 then -1 else 0)))))))
     else ret (-1)))"

definition no_dev :: "int \<Rightarrow> 'a console_scheme \<Rightarrow> bool" where
  "no_dev major s \<longleftrightarrow> major < 0 \<or> int NDEV \<le> major \<or> \<not> devsw s (nat major)"

definition fileread :: "nat \<Rightarrow> u32 \<Rightarrow> int \<Rightarrow> ('a files_scheme, int) op" where
  "fileread f addr n =
     bind (gets (\<lambda>s. ftable_file s f)) (\<lambda>x.
     if \<not> f_readable x then ret (-1)
     else case f_type x of
       FD_PIPE \<Rightarrow> piperead (f_pipe x) addr n
     | FD_DEVICE \<Rightarrow>
         bind (gets (no_dev (f_major x))) (\<lambda>no.
         if no then ret (-1) else consoleread True addr n)
     | FD_INODE \<Rightarrow>
         bind (ilock (f_ip x)) (\<lambda>_.
         bind (deref (f_ip x)) (\<lambda>ip.
         bind (gets (\<lambda>s. f_off (ftable_file s f))) (\<lambda>off.
         bind (readi ip (RUser addr) off (of_int n)) (\<lambda>(r, _).
         bind (if 0 < r then modify (set_file f (\<lambda>x. x\<lparr>f_off := f_off x + of_int r\<rparr>)) else ret ()) (\<lambda>_.
         bind (iunlock (f_ip x)) (\<lambda>_.
         ret r))))))
     | FD_NONE \<Rightarrow> panic ''fileread'')"

definition filewrite_max :: int where
  "filewrite_max = int ((MAXOPBLOCKS - 1 - 1 - 2) div 2 * BSIZE)"

text \<open>The loop of \<open>filewrite\<close>; \<open>i\<close> bytes are written. Each round writes at least one byte or is
  the last.\<close>

function filewrite_loop :: "nat \<Rightarrow> u32 \<Rightarrow> int \<Rightarrow> int \<Rightarrow> ('a files_scheme, int) op" where
  "filewrite_loop f addr n i =
     (if n \<le> i then ret i
      else
        let n1 = min (n - i) filewrite_max in
        bind begin_op (\<lambda>_.
        bind (gets (\<lambda>s. f_ip (ftable_file s f))) (\<lambda>p.
        bind (ilock p) (\<lambda>_.
        bind (deref p) (\<lambda>ip.
        bind (gets (\<lambda>s. f_off (ftable_file s f))) (\<lambda>off.
        bind (writei ip (WUser (addr + of_int i)) off (of_int n1)) (\<lambda>r.
        bind (if 0 < r then modify (set_file f (\<lambda>x. x\<lparr>f_off := f_off x + of_int r\<rparr>)) else ret ()) (\<lambda>_.
        bind (iunlock p) (\<lambda>_.
        bind end_op (\<lambda>_.
        if r \<noteq> n1 then ret i
        else filewrite_loop f addr n (i + n1)))))))))))"
  by pat_completeness auto
termination
  by (relation "measure (\<lambda>(f, addr, n, i). nat (n - i))") (auto simp: filewrite_max_def MAXOPBLOCKS_def BSIZE_def)

declare filewrite_loop.simps [simp del]

definition filewrite :: "nat \<Rightarrow> u32 \<Rightarrow> int \<Rightarrow> ('a files_scheme, int) op" where
  "filewrite f addr n =
     bind (gets (\<lambda>s. ftable_file s f)) (\<lambda>x.
     if \<not> f_writable x then ret (-1)
     else case f_type x of
       FD_PIPE \<Rightarrow> pipewrite (f_pipe x) addr n
     | FD_DEVICE \<Rightarrow>
         bind (gets (no_dev (f_major x))) (\<lambda>no.
         if no then ret (-1) else consolewrite True addr n)
     | FD_INODE \<Rightarrow> bind (filewrite_loop f addr n 0) (\<lambda>i. ret (if i = n then n else -1))
     | FD_NONE \<Rightarrow> panic ''filewrite'')"

definition pipealloc_bad :: "nat option \<Rightarrow> nat option \<Rightarrow> ('a files_scheme, (nat \<times> nat) option) op" where
  "pipealloc_bad f0 f1 =
     bind (case f0 of None \<Rightarrow> ret () | Some f \<Rightarrow> fileclose f) (\<lambda>_.
     bind (case f1 of None \<Rightarrow> ret () | Some f \<Rightarrow> fileclose f) (\<lambda>_.
     ret None))"

text \<open>The two files, or \<open>None\<close> for -1.\<close>

definition pipealloc :: "('a files_scheme, (nat \<times> nat) option) op" where
  "pipealloc =
     bind filealloc (\<lambda>p0.
     case p0 of None \<Rightarrow> pipealloc_bad None None
     | Some f0 \<Rightarrow>
         bind filealloc (\<lambda>p1.
         case p1 of None \<Rightarrow> pipealloc_bad p0 None
         | Some f1 \<Rightarrow>
             bind kalloc (\<lambda>pi.
             if pi = 0 then pipealloc_bad p0 p1
             else
               bind (modify (set_pipe pi (\<lambda>q. q\<lparr>pi_readopen := True, pi_writeopen := True, pi_nwrite := 0,
                 pi_nread := 0\<rparr>))) (\<lambda>_.
               bind (initlock (PipeLock pi) ''pipe'') (\<lambda>_.
               bind (modify (set_file f0 (\<lambda>x. x\<lparr>f_type := FD_PIPE, f_readable := True, f_writable := False,
                 f_pipe := pi\<rparr>))) (\<lambda>_.
               bind (modify (set_file f1 (\<lambda>x. x\<lparr>f_type := FD_PIPE, f_readable := False, f_writable := True,
                 f_pipe := pi\<rparr>))) (\<lambda>_.
               ret (Some (f0, f1)))))))))"

end
