(* ===== verification/Zero.thy ===== *)
theory Zero
  imports File
begin

text \<open>
  The kernel's globals at reset, on top of a given state of memory and processes; they instantiate
  theorems.
\<close>

definition slocks_on :: "procs \<Rightarrow> slocks" where
  "slocks_on s = procs.extend s (slocks.fields (\<lambda>_. \<lparr>lk_locked = 0, lk_name = [], lk_pid = 0\<rparr>))"

definition console_on :: "procs \<Rightarrow> console" where
  "console_on s = slocks.extend (slocks_on s)
     (console.fields False False False (replicate 128 0) 0 0 0 (\<lambda>_. False))"

definition buf0 :: buf where
  "buf0 = \<lparr>b_valid = False, b_dev = 0, b_blockno = 0, b_refcnt = 0, b_prev = 0, b_next = 0,
     b_data = replicate BSIZE 0\<rparr>"

definition bcache_on :: "procs \<Rightarrow> bcache" where
  "bcache_on s = console.extend (console_on s) (bcache.fields (\<lambda>_. buf0) None 0x03EFF000)"

definition log_on :: "procs \<Rightarrow> log" where
  "log_on s = bcache.extend (bcache_on s) (log.fields 0 0 False 0 0 (replicate LOGBLOCKS 0))"

definition inode0 :: inode where
  "inode0 = \<lparr>i_dev = 0, i_inum = 0, i_ref = 0, i_valid = False, i_type = 0, i_major = 0, i_minor = 0, i_nlink = 0,
     i_size = 0, i_addrs = replicate 13 0\<rparr>"

definition fs_on :: "procs \<Rightarrow> fs" where
  "fs_on s = log.extend (log_on s) (fs.fields (superblock_of []) (\<lambda>_. inode0))"

definition kfile0 :: kfile where
  "kfile0 = \<lparr>f_type = FD_NONE, f_ref = 0, f_readable = False, f_writable = False, f_pipe = 0, f_ip = None,
     f_off = 0, f_major = 0\<rparr>"

definition pipe0 :: pipe where
  "pipe0 = \<lparr>pi_data = replicate 512 0, pi_nread = 0, pi_nwrite = 0, pi_readopen = True, pi_writeopen = True\<rparr>"

definition files_on :: "procs \<Rightarrow> files" where
  "files_on s = fs.extend (fs_on s) (files.fields (\<lambda>_. kfile0) (\<lambda>_. pipe0))"

lemmas on_defs = slocks_on_def console_on_def bcache_on_def log_on_def fs_on_def files_on_def

lemmas ext_defs = mach.defs kmem.defs procs.defs slocks.defs console.defs bcache.defs log.defs fs.defs files.defs

lemma mach_on [simp]:
  "mem (files_on s) = mem s" "csr (files_on s) = csr s" "cpus (files_on s) = cpus s" "locks (files_on s) = locks s"
  "swtches (files_on s) = swtches s" "kmem_freelist (files_on s) = kmem_freelist s" "kend (files_on s) = kend s"
  "ptable (files_on s) = ptable s" "disk (files_on s) = disk s"
  by (simp_all add: on_defs ext_defs)

lemma globals_on [simp]:
  "sleeplocks (files_on s) l = \<lparr>lk_locked = 0, lk_name = [], lk_pid = 0\<rparr>"
  "cons_buf (files_on s) = replicate 128 0" "cons_r (files_on s) = 0" "cons_w (files_on s) = 0" "cons_e (files_on s) = 0"
  "bufs (files_on s) b = buf0" "log_n (files_on s) = 0" "log_outstanding (files_on s) = 0" "log_committing (files_on s) = False"
  "itable (files_on s) i = inode0" "ftable_file (files_on s) f = kfile0" "pipes (files_on s) p = pipe0"
  by (simp_all add: on_defs ext_defs)

lemma mycpu_on [simp]: "mycpu (files_on s) = mycpu s"
  by (simp add: mycpu_def)

end
