(* ===== verification/Quiet.thy ===== *)
theory Quiet
  imports Proc
begin

text \<open>
  Running kernel code without contention: in a \<open>quiet\<close> state no spin lock is held and the CPU's
  interrupt bookkeeping is current, as it is after every matched \<open>push_off\<close>/\<open>pop_off\<close>. From a
  quiet state a critical section is the effect of its body, exactly; the effect of \<open>wakeup\<close> is
  \<open>woken\<close>. The facts about processes that need nothing else follow.
\<close>

section \<open>Critical sections in a quiet state\<close>

definition quiet :: "'a mach_scheme \<Rightarrow> bool" where
  "quiet s \<longleftrightarrow> cpu_ok s \<and> (c_noff (mycpu s) = 0 \<longrightarrow> c_intena (mycpu s) = ie s) \<and> (\<forall>l. lock_free l s)"

lemma settle_same: "(c_noff (mycpu s) = 0 \<longrightarrow> c_intena (mycpu s) = ie s) \<Longrightarrow> settle s = s"
proof -
  assume a: "c_noff (mycpu s) = 0 \<longrightarrow> c_intena (mycpu s) = ie s"
  have "c\<lparr>c_intena := i\<rparr> = c" if "c_intena c = i" for c :: cpu and i using that by auto
  then have "(cpus s cpuid)\<lparr>c_intena := (if c_noff (cpus s cpuid) = 0 then ie s else c_intena (cpus s cpuid))\<rparr>
      = cpus s cpuid" using a by (auto simp: mycpu_def)
  then show ?thesis by (simp add: settle_def set_mycpu_def)
qed

lemma quiet_lock [simp]: "quiet s \<Longrightarrow> lock_ok l s" "quiet s \<Longrightarrow> lock_free l s" "quiet s \<Longrightarrow> cpu_ok s"
  "quiet s \<Longrightarrow> settle s = s"
  by (auto simp: quiet_def lock_ok_def settle_same)

text \<open>Only the registers, CPUs and locks matter.\<close>

lemma quiet_cong: "csr t = csr s \<Longrightarrow> cpus t = cpus s \<Longrightarrow> locks t = locks s \<Longrightarrow> quiet t = quiet s"
  by (simp add: quiet_def lock_preds)

lemma quiet_neutral: "lock_neutral f \<Longrightarrow> quiet (f s) = quiet s"
  by (rule quiet_cong) (simp_all add: neutralD)

lemma settle_acquired [simp]: "quiet s \<Longrightarrow> settle (acquired l s) = acquired l s"
  by (rule settle_same) (auto simp: quiet_def cpu_ok_def)

lemma acquire_quiet [simp]: "quiet s \<Longrightarrow> acquire l P s = Ret () (acquired l s)"
  by (simp add: acquire_ok)

lemma release_quiet: "quiet s \<Longrightarrow> lock_neutral f \<Longrightarrow> release l P (f (acquired l s)) = Ret () (f s)"
  using release_ok [of l s f P] by simp

lemma release_acquired [simp]: "quiet s \<Longrightarrow> release l P (acquired l s) = Ret () s"
  using release_quiet [of s "\<lambda>s. s"] by simp

lemma myproc_quiet [simp]: "quiet s \<Longrightarrow> myproc P s = Ret (c_proc (mycpu s)) s"
  by (simp add: myproc_eq)

lemma curproc_quiet [simp]: "quiet s \<Longrightarrow> c_proc (mycpu s) = Some p \<Longrightarrow> curproc P s = Ret p s"
  by (simp add: curproc_eq)

text \<open>Inside the critical section of \<open>l\<close>: other locks are still free, and operations that take
  and release them run as in a quiet state.\<close>

definition inside :: "lock \<Rightarrow> 'a mach_scheme \<Rightarrow> bool" where
  "inside l s \<longleftrightarrow> cpu_ok s \<and> c_noff (mycpu s) \<noteq> 0 \<and> (\<forall>l'. l' \<noteq> l \<longrightarrow> lock_free l' s)"

lemma inside_acquired [simp]: "quiet s \<Longrightarrow> inside l (acquired l s)"
  by (auto simp: inside_def quiet_def cpu_ok_def)

lemma inside_cong: "csr t = csr s \<Longrightarrow> cpus t = cpus s \<Longrightarrow> locks t = locks s \<Longrightarrow> inside l t = inside l s"
  by (simp add: inside_def lock_preds)

lemma inside_neutral: "lock_neutral f \<Longrightarrow> inside l (f s) = inside l s"
  by (rule inside_cong) (simp_all add: neutralD)

lemma inside_lock: "inside l s \<Longrightarrow> l' \<noteq> l \<Longrightarrow> lock_ok l' s" "inside l s \<Longrightarrow> settle s = s" "inside l s \<Longrightarrow> cpu_ok s"
  by (auto simp: inside_def lock_ok_def settle_nested)

lemma acquire_inside: "inside l s \<Longrightarrow> l' \<noteq> l \<Longrightarrow> acquire l' P s = Ret () (acquired l' s)"
  by (simp add: acquire_ok inside_def)

lemma release_inside:
  "inside l s \<Longrightarrow> l' \<noteq> l \<Longrightarrow> lock_neutral f \<Longrightarrow> release l' P (f (acquired l' s)) = Ret () (f s)"
  using release_ok [of l' s f P] inside_lock [of l s] by simp

lemma curproc_inside: "inside l s \<Longrightarrow> c_proc (mycpu s) = Some p \<Longrightarrow> curproc P s = Ret p s"
  by (simp add: curproc_eq inside_lock)

section \<open>Waking up\<close>

definition woken_proc :: "chan option \<Rightarrow> proc \<Rightarrow> proc" where
  "woken_proc chan q = (if p_state q = SLEEPING \<and> p_chan q = chan then q\<lparr>p_state := RUNNABLE\<rparr> else q)"

text \<open>The table after \<open>wakeup(chan)\<close> by process \<open>me\<close>: sleepers on the channel become runnable,
  except the caller.\<close>

definition woken :: "nat option \<Rightarrow> chan option \<Rightarrow> 'a procs_scheme \<Rightarrow> 'a procs_scheme" where
  "woken me chan s = s\<lparr>ptable := (\<lambda>i. if i < NPROC \<and> me \<noteq> Some i
     then woken_proc chan (ptable s i) else ptable s i)\<rparr>"

lemma neutral_set_proc [simp]: "lock_neutral (set_proc i f)"
  by (simp add: lock_neutral_def set_proc_def)

lemma set_proc_id: "f (ptable s i) = ptable s i \<Longrightarrow> set_proc i f s = s"
  by (simp add: set_proc_def)

lemma wakeup_one_eq:
  assumes "cpu_ok s" "settle s = s" "\<And>i. i < NPROC \<Longrightarrow> lock_free (ProcLock i) s" "i < NPROC"
  shows "wakeup_one chan i P s =
    Ret () (if c_proc (mycpu s) = Some i then s else set_proc i (woken_proc chan) s)"
proof -
  have ok: "lock_ok (ProcLock i) s" using assms by (simp add: lock_ok_def)
  have rel: "release (ProcLock i) P (set_proc i f (acquired (ProcLock i) s)) = Ret () (set_proc i f s)" for f
    using release_ok [where P = P, OF ok neutral_set_proc] assms(2) by simp
  have rel': "release (ProcLock i) P (acquired (ProcLock i) s) = Ret () s"
    using release_ok [where P = P, OF ok neutral_id] assms(2) by simp
  have acq: "acquire (ProcLock i) P s = Ret () (acquired (ProcLock i) s)" using assms by (simp add: acquire_ok)
  show ?thesis
  proof (cases "p_state (ptable s i) = SLEEPING \<and> p_chan (ptable s i) = chan")
    case True
    then have "set_proc i (\<lambda>q. q\<lparr>p_state := RUNNABLE\<rparr>) s = set_proc i (woken_proc chan) s"
      by (simp add: set_proc_def woken_proc_def)
    then show ?thesis using assms True
      by (simp add: wakeup_one_def myproc_eq acq rel run_simps)
  next
    case False
    then have "set_proc i (woken_proc chan) s = s" by (intro set_proc_id) (simp add: woken_proc_def)
    then show ?thesis using assms False
      by (auto simp: wakeup_one_def myproc_eq acq rel' run_simps)
  qed
qed

text \<open>The lock bookkeeping of a state is that of any state with the same registers, CPUs and locks.\<close>

definition wakeable :: "'a procs_scheme \<Rightarrow> bool" where
  "wakeable s \<longleftrightarrow> cpu_ok s \<and> settle s = s \<and> (\<forall>i < NPROC. lock_free (ProcLock i) s)"

definition set_other :: "nat option \<Rightarrow> (proc \<Rightarrow> proc) \<Rightarrow> nat \<Rightarrow> 'a procs_scheme \<Rightarrow> 'a procs_scheme" where
  "set_other me f i s = (if me = Some i then s else set_proc i f s)"

lemma fold_set_other:
  assumes "distinct xs"
  shows "fold (set_other me f) xs s =
    s\<lparr>ptable := (\<lambda>i. if i \<in> set xs \<and> me \<noteq> Some i then f (ptable s i) else ptable s i)\<rparr>"
  using assms
proof (induction xs arbitrary: s)
  case (Cons x xs)
  have "(\<lambda>i. if i \<in> set xs \<and> me \<noteq> Some i then f (ptable (set_other me f x s) i) else ptable (set_other me f x s) i)
      = (\<lambda>i. if i \<in> set (x # xs) \<and> me \<noteq> Some i then f (ptable s i) else ptable s i)"
    using Cons.prems by (intro ext) (auto simp: set_other_def set_proc_def)
  moreover have "(set_other me f x s)\<lparr>ptable := p\<rparr> = s\<lparr>ptable := p\<rparr>" for p
    by (simp add: set_other_def set_proc_def)
  ultimately show ?case using Cons by simp
qed simp

lemma wakeup_eq:
  fixes s :: "'a procs_scheme"
  assumes "wakeable s"
  shows "wakeup chan P s = Ret () (woken (c_proc (mycpu s)) chan s)"
proof -
  let ?me = "c_proc (mycpu s)"
  let ?I = "\<lambda>t :: 'a procs_scheme. wakeable t \<and> c_proc (mycpu t) = ?me"
  have "for_each [0..<NPROC] (wakeup_one chan) P s =
      Ret () (fold (set_other ?me (woken_proc chan)) [0..<NPROC] s)
    \<and> ?I (fold (set_other ?me (woken_proc chan)) [0..<NPROC] s)"
  proof (rule for_each_fold [where I = ?I])
    show "?I s" using assms by simp
    fix i and t :: "'a procs_scheme" assume i: "i \<in> set [0..<NPROC]" and t: "?I t"
    have "wakeup_one chan i P t = Ret () (if c_proc (mycpu t) = Some i then t else set_proc i (woken_proc chan) t)"
      by (rule wakeup_one_eq) (use i t in \<open>auto simp: wakeable_def\<close>)
    moreover have "?I (set_other ?me (woken_proc chan) i t)"
      using t by (auto simp: wakeable_def set_other_def set_proc_def)
    ultimately show "wakeup_one chan i P t = Ret () (set_other ?me (woken_proc chan) i t)
        \<and> ?I (set_other ?me (woken_proc chan) i t)" using t by (simp add: set_other_def)
  qed
  then show ?thesis by (simp add: wakeup_def fold_set_other woken_def)
qed

lemma wakeable_quiet [simp]: "quiet s \<Longrightarrow> wakeable s"
  by (simp add: wakeable_def)

lemma wakeable_inside: "inside l s \<Longrightarrow> (\<And>i. l \<noteq> ProcLock i) \<Longrightarrow> wakeable s"
  unfolding wakeable_def inside_def by (metis settle_nested)

lemma neutral_woken [simp]: "lock_neutral (woken me chan)"
  by (simp add: lock_neutral_def woken_def cong del: if_weak_cong)

text \<open>The end of a critical section that wakes sleepers.\<close>

lemma wakeup_release:
  fixes s :: "'a procs_scheme"
  assumes q: "quiet s" and f: "lock_neutral f" and l: "\<And>i. l \<noteq> ProcLock i"
  shows "bind (wakeup ch) (\<lambda>_. release l) P (f (acquired l s)) = Ret () (woken (c_proc (mycpu s)) ch (f s))"
proof -
  let ?a = "acquired l s"
  have ins: "inside l (f ?a)" using q inside_neutral [OF f] by simp
  have "mycpu (f ?a) = mycpu ?a" unfolding mycpu_def by (simp add: neutralD [OF f])
  then have me: "c_proc (mycpu (f ?a)) = c_proc (mycpu s)" by simp
  have w: "wakeup ch P (f ?a) = Ret () (woken (c_proc (mycpu s)) ch (f ?a))"
    using wakeup_eq [OF wakeable_inside [OF ins l]] me by simp
  from release_quiet [OF q neutral_comp [OF neutral_woken f], of l P "c_proc (mycpu s)" ch] w show ?thesis by (simp add: run_simps)
qed

end
