(* ===== verification/ProcProps.thy ===== *)
theory ProcProps
  imports Quiet
begin

text \<open>
  Properties of processes: sleeping and waking, killing, adopting orphans, and reaping.
\<close>

section \<open>Sleep and wakeup\<close>

lemma set_proc_select [simp]:
  "mem (set_proc i f s) = mem s" "locks (set_proc i f s) = locks s" "cpus (set_proc i f s) = cpus s"
  "csr (set_proc i f s) = csr s" "swtches (set_proc i f s) = swtches s"
  "ptable (set_proc i f s) = (ptable s)(i := f (ptable s i))"
  "mycpu (set_proc i f s) = mycpu s" "cpu_ok (set_proc i f s) = cpu_ok s"
  "held l (set_proc i f s) = held l s" "lock_free l (set_proc i f s) = lock_free l s"
  "ie (set_proc i f s) = ie s" "settle (set_proc i f s) = set_proc i f (settle s)"
  by (simp_all add: set_proc_def ie_def)

lemma quiet_set_proc [simp]: "quiet (set_proc i f s) = quiet s"
  by (rule quiet_cong) simp_all

text \<open>The state in which a process that sleeps on \<open>chan\<close> gives up the CPU.\<close>

definition sleeping :: "nat \<Rightarrow> chan option \<Rightarrow> lock \<Rightarrow> 'a procs_scheme \<Rightarrow> 'a procs_scheme" where
  "sleeping p chan lk s =
     set_proc p (\<lambda>q. q\<lparr>p_chan := chan, p_state := SLEEPING\<rparr>) (unlocked lk (acquired (ProcLock p) s))"

text \<open>What the scheduler promises when it switches back to a process: it has the process's lock,
  at nesting depth one with interrupts off, and the process is the CPU's current one.\<close>

definition scheduled :: "nat \<Rightarrow> 'a procs_scheme \<Rightarrow> bool" where
  "scheduled p s \<longleftrightarrow> held (ProcLock p) s \<and> cpu_ok s \<and> c_noff (mycpu s) = 1 \<and> c_proc (mycpu s) = Some p"

lemma procs_unlocked [simp]: "ptable (unlocked l s) = ptable s"
  by (simp add: unlocked_def popped_def Let_def set_lock_def)

lemma settle_nested1: "c_noff (mycpu s) = 1 \<Longrightarrow> settle s = s"
  by (simp add: settle_nested)

lemma sched_swtch:
  assumes "c_proc (mycpu s) = Some p" "cpu_ok s" "c_noff (mycpu s) = 1" "held (ProcLock p) s"
    "p_state (ptable s p) \<noteq> RUNNING"
  shows "sched P s = bind swtch (\<lambda>_. modify (set_mycpu (\<lambda>c. c\<lparr>c_intena := c_intena (mycpu s)\<rparr>))) P s"
proof -
  have "\<not> ie s" using assms by (auto simp: cpu_ok_def)
  then have "curproc P s = Ret p s" "intr_get P s = Ret False s" "holding (ProcLock p) P s = Ret True s"
    using assms by (simp_all add: curproc_eq settle_nested1 intr_get_def ie_def holding_def held_def ret_def)
  then show ?thesis using assms(3,5) by (simp add: sched_def)
qed

lemma sched_eq:
  assumes "c_proc (mycpu s) = Some p" "cpu_ok s" "c_noff (mycpu s) = 1" "held (ProcLock p) s"
    "p_state (ptable s p) \<noteq> RUNNING" "swtches s < length (resume P)"
  shows "sched P s = Ret () (set_mycpu (\<lambda>c. c\<lparr>c_intena := c_intena (mycpu s)\<rparr>)
     ((resume P ! swtches s) s \<lparr>swtches := Suc (swtches s)\<rparr>))"
proof -
  have "swtch P s = Ret () ((resume P ! swtches s) s \<lparr>swtches := Suc (swtches s)\<rparr>)"
    using assms(6) by (simp add: swtch_def)
  then show ?thesis using sched_swtch [OF assms(1-5), of P] by simp
qed

lemma sleeping_state:
  fixes chan :: "chan option"
  assumes "cpu_ok s" "c_noff (mycpu s) = 1" "c_proc (mycpu s) = Some p" "held lk s" "lk \<noteq> ProcLock p"
  defines "h \<equiv> sleeping p chan lk s"
  shows "held (ProcLock p) h" "lock_free lk h" "c_noff (mycpu h) = 1" "cpu_ok h" "c_proc (mycpu h) = Some p"
    "p_state (ptable h p) = SLEEPING" "p_chan (ptable h p) = chan" "swtches h = swtches s"
proof -
  let ?a = "acquired (ProcLock p) s"
  have a: "held lk ?a" "cpu_ok ?a" "c_noff (mycpu ?a) = 2" "held (ProcLock p) ?a"
    using assms by auto
  have "cpu_ok (unlocked lk ?a)" using unlocked_nested [of ?a lk] a by simp
  then show "cpu_ok h" by (simp add: h_def sleeping_def)
  show "held (ProcLock p) h" "lock_free lk h" "c_noff (mycpu h) = 1" "c_proc (mycpu h) = Some p"
    using a assms by (auto simp: sleeping_def)
  show "p_state (ptable h p) = SLEEPING" "p_chan (ptable h p) = chan" "swtches h = swtches s"
    by (simp_all add: h_def sleeping_def)
qed

lemma sleeping_release:
  assumes "cpu_ok s" "c_noff (mycpu s) = 1" "held lk s" "lk \<noteq> ProcLock p"
  shows "release lk P (acquired (ProcLock p) s) = Ret () (unlocked lk (acquired (ProcLock p) s))"
  by (rule release_eq) (use assms in auto)

lemma c_intena_select [simp]:
  "held l (set_mycpu (\<lambda>c. c\<lparr>c_intena := b\<rparr>) s) = held l s" "cpu_ok (set_mycpu (\<lambda>c. c\<lparr>c_intena := b\<rparr>) s) = cpu_ok s"
  "lock_free l (set_mycpu (\<lambda>c. c\<lparr>c_intena := b\<rparr>) s) = lock_free l s"
  "c_noff (mycpu (set_mycpu (\<lambda>c. c\<lparr>c_intena := b\<rparr>) s)) = c_noff (mycpu s)"
  "c_proc (mycpu (set_mycpu (\<lambda>c. c\<lparr>c_intena := b\<rparr>) s)) = c_proc (mycpu s)"
  "mem (set_mycpu f s) = mem s"
  by (simp_all add: set_mycpu_def mycpu_def held_def lock_free_def cpu_ok_def ie_def)

lemma ptable_set_mycpu [simp]: "ptable (set_mycpu f s) = ptable s"
  by (simp add: set_mycpu_def)

lemma lock_swtches [simp]:
  "held l (s\<lparr>swtches := n\<rparr>) = held l s" "cpu_ok (s\<lparr>swtches := n\<rparr>) = cpu_ok s"
  "lock_free l (s\<lparr>swtches := n\<rparr>) = lock_free l s" "mycpu (s\<lparr>swtches := n\<rparr>) = mycpu s"
  by (simp_all add: held_def cpu_ok_def ie_def mycpu_def lock_free_def)

text \<open>\<open>sleep\<close> as the handover followed by what the process does when it is resumed.\<close>

lemma sleep_eq:
  fixes chan :: "chan option"
  assumes "cpu_ok s" "c_noff (mycpu s) = 1" "c_proc (mycpu s) = Some p" "held lk s" "lk \<noteq> ProcLock p"
    "lock_free (ProcLock p) s" "swtches s < length (resume P)"
  defines "h \<equiv> sleeping p chan lk s"
  defines "r \<equiv> set_proc p (\<lambda>q. q\<lparr>p_chan := None\<rparr>) (set_mycpu (\<lambda>c. c\<lparr>c_intena := c_intena (mycpu h)\<rparr>)
     ((resume P ! swtches s) h \<lparr>swtches := Suc (swtches s)\<rparr>))"
  assumes "scheduled p ((resume P ! swtches s) h)" "lock_free lk ((resume P ! swtches s) h)"
  shows "sleep chan lk P s = Ret () (acquired lk (unlocked (ProcLock p) r))"
proof -
  note h = sleeping_state [where chan = chan, OF assms(1-5), folded h_def]
  have acq: "acquire (ProcLock p) P s = Ret () (acquired (ProcLock p) s)" using assms by (simp add: acquire_ok)
  have sched: "sched P h = Ret () (set_mycpu (\<lambda>c. c\<lparr>c_intena := c_intena (mycpu h)\<rparr>)
     ((resume P ! swtches s) h \<lparr>swtches := Suc (swtches s)\<rparr>))"
    using sched_eq [of h p P] h assms(7) by simp
  have "held (ProcLock p) r" "cpu_ok r" "0 < c_noff (mycpu r)"
    using assms(10) by (simp_all add: r_def scheduled_def)
  then have rel: "release (ProcLock p) P r = Ret () (unlocked (ProcLock p) r)" by (rule release_eq)
  have "lock_free lk (unlocked (ProcLock p) r)" using assms by (simp add: r_def)
  then have "acquire lk P (unlocked (ProcLock p) r) = Ret () (acquired lk (unlocked (ProcLock p) r))"
    by (rule acquire_ok)
  with acq sched rel sleeping_release [OF assms(1,2,4,5), of P] assms(1-3) show ?thesis
    by (simp add: sleep_def curproc_eq settle_nested1 h_def sleeping_def r_def)
qed

lemma sleep_off:
  assumes "cpu_ok s" "c_noff (mycpu s) = 1" "c_proc (mycpu s) = Some p" "held lk s" "lk \<noteq> ProcLock p"
    "lock_free (ProcLock p) s" "\<not> swtches s < length (resume P)"
  shows "sleep chan lk P s = Off (sleeping p chan lk s)"
proof -
  have "sched P (sleeping p chan lk s) = Off (sleeping p chan lk s)"
    using assms(7) sleeping_state [where chan = chan, OF assms(1-5)] sched_swtch [of "sleeping p chan lk s" p P]
    by (simp add: swtch_def)
  then show ?thesis using assms sleeping_release [OF assms(1,2,4,5), of P]
    by (simp add: sleep_def curproc_eq settle_nested1 acquire_ok sleeping_def)
qed

text \<open>C15: Sleeping hands over without a window. Called with only the condition lock held, \<open>sleep\<close>
  gives up the CPU in a state where the process is marked sleeping on the channel, its own lock
  is held and the condition lock is free again; so every \<open>wakeup\<close> of that channel that gets the
  process's lock afterwards makes it runnable. When the scheduler resumes the process, \<open>sleep\<close>
  returns with the condition lock held again, the channel cleared and the process's lock free; if it
  never resumes it, \<open>sleep\<close> does not return.\<close>

theorem sleep_handover:
  fixes s :: "'a procs_scheme"
  assumes "cpu_ok s" "c_noff (mycpu s) = 1" "c_proc (mycpu s) = Some p" "held lk s" "lk \<noteq> ProcLock p"
    "lock_free (ProcLock p) s" "p < NPROC"
  shows "\<exists>h. held (ProcLock p) h \<and> lock_free lk h \<and> c_noff (mycpu h) = 1
      \<and> p_state (ptable h p) = SLEEPING \<and> p_chan (ptable h p) = chan
      \<and> (\<forall>u :: 'a procs_scheme. wakeable u \<and> c_proc (mycpu u) \<noteq> Some p \<and> ptable u p = ptable h p \<longrightarrow>
           wp (wakeup chan) P u (\<lambda>_ v. p_state (ptable v p) = RUNNABLE))
      \<and> (if swtches s < length (resume P)
         then let r = (resume P ! swtches s) h in
           scheduled p r \<and> lock_free lk r \<longrightarrow>
             wp (sleep chan lk) P s (\<lambda>_ t. held lk t \<and> lock_free (ProcLock p) t \<and> mem t = mem r
               \<and> ptable t = (ptable r)(p := (ptable r p)\<lparr>p_chan := None\<rparr>))
         else sleep chan lk P s = Off h)"
proof (intro exI conjI)
  let ?h = "sleeping p chan lk s"
  note h = sleeping_state [where chan = chan, OF assms(1-5)]
  show "held (ProcLock p) ?h" "lock_free lk ?h" "c_noff (mycpu ?h) = 1" "p_state (ptable ?h p) = SLEEPING"
    "p_chan (ptable ?h p) = chan" using h by auto
  show "\<forall>u :: 'a procs_scheme. wakeable u \<and> c_proc (mycpu u) \<noteq> Some p \<and> ptable u p = ptable ?h p \<longrightarrow>
      wp (wakeup chan) P u (\<lambda>_ v. p_state (ptable v p) = RUNNABLE)"
    using h(6,7) assms(7) by (auto simp: wp_iff wakeup_eq woken_def woken_proc_def)
  show "if swtches s < length (resume P)
    then let r = (resume P ! swtches s) ?h in
      scheduled p r \<and> lock_free lk r \<longrightarrow>
        wp (sleep chan lk) P s (\<lambda>_ t. held lk t \<and> lock_free (ProcLock p) t \<and> mem t = mem r
          \<and> ptable t = (ptable r)(p := (ptable r p)\<lparr>p_chan := None\<rparr>))
    else sleep chan lk P s = Off ?h"
  proof (cases "swtches s < length (resume P)")
    case True
    then show ?thesis using sleep_eq [OF assms(1-6) True] assms(5) by (auto simp: Let_def wp_Ret)
  next
    case False
    then show ?thesis using sleep_off [OF assms(1-6) False] by simp
  qed
qed

text \<open>A machine on which process 0 runs, for examples.\<close>

definition run0 :: procs where
  "run0 = procs0\<lparr>cpus := (\<lambda>_. cpu0\<lparr>c_proc := Some 0\<rparr>),
     ptable := (\<lambda>_. proc0)(0 := proc0\<lparr>p_state := RUNNING, p_pid := 1\<rparr>)\<rparr>"

lemma run0_select [simp]: "mem run0 = (\<lambda>_. 0)" "csr run0 = (\<lambda>_. 0)" "swtches run0 = 0"
  "ptable run0 = (\<lambda>_. proc0)(0 := proc0\<lparr>p_state := RUNNING, p_pid := 1\<rparr>)" "mycpu run0 = cpu0\<lparr>c_proc := Some 0\<rparr>"
  "locks run0 l = \<lparr>sl_locked = 0, sl_name = [], sl_cpu = None\<rparr>"
  by (simp_all add: run0_def procs0_def kmem0_def mach0_def kmem.defs mach.defs mycpu_def)

lemma quiet_run0 [simp]: "quiet run0"
  by (simp add: quiet_def cpu_ok_def ie_def lock_free_def cpu0_def)

theorem sleep_handover_witness:
  "\<exists>h. held (ProcLock 0) h \<and> lock_free WaitLock h \<and> c_noff (mycpu h) = 1
      \<and> p_state (ptable h 0) = SLEEPING \<and> p_chan (ptable h 0) = Some TicksChan
      \<and> (\<forall>u :: procs. wakeable u \<and> c_proc (mycpu u) \<noteq> Some 0 \<and> ptable u 0 = ptable h 0 \<longrightarrow>
           wp (wakeup (Some TicksChan)) bare u (\<lambda>_ v. p_state (ptable v 0) = RUNNABLE))
      \<and> (if swtches (acquired WaitLock run0) < length (resume (bare :: procs platform))
         then let r = (resume bare ! swtches (acquired WaitLock run0)) h in
           scheduled 0 r \<and> lock_free WaitLock r \<longrightarrow>
             wp (sleep (Some TicksChan) WaitLock) bare (acquired WaitLock run0) (\<lambda>_ t. held WaitLock t
               \<and> lock_free (ProcLock 0) t \<and> mem t = mem r
               \<and> ptable t = (ptable r)(0 := (ptable r 0)\<lparr>p_chan := None\<rparr>))
         else sleep (Some TicksChan) WaitLock bare (acquired WaitLock run0) = Off h)"
  by (rule sleep_handover) (simp_all add: cpu0_def NPROC_def)

section \<open>Killing\<close>

definition killed_proc :: "proc \<Rightarrow> proc" where
  "killed_proc q = q\<lparr>p_killed := 1, p_state := (if p_state q = SLEEPING then RUNNABLE else p_state q)\<rparr>"

lemma kkill_scan_eq:
  assumes "quiet s"
  shows "kkill_scan pid ps P s = (case find (\<lambda>i. p_pid (ptable s i) = pid) ps of
     None \<Rightarrow> Ret (-1) s | Some i \<Rightarrow> Ret 0 (set_proc i killed_proc s))"
proof (induction ps)
  case (Cons i ps)
  have "release (ProcLock i) P (set_proc i f (acquired (ProcLock i) s)) = Ret () (set_proc i f s)" for f
    by (rule release_quiet [OF assms neutral_set_proc])
  then show ?case using assms Cons by (simp add: run_simps killed_proc_def [abs_def])
qed (simp add: run_simps)

lemma setkilled_eq: "quiet s \<Longrightarrow> setkilled p P s = Ret () (set_proc p (\<lambda>q. q\<lparr>p_killed := 1\<rparr>) s)"
  using release_quiet [OF _ neutral_set_proc, of s "ProcLock p" P p "\<lambda>q. q\<lparr>p_killed := 1\<rparr>"]
  by (simp add: setkilled_def)

lemma killed_quiet: "quiet s \<Longrightarrow> killed p P s = Ret (p_killed (ptable s p)) s"
  by (simp add: killed_def run_simps)

lemma killed_inside: "inside l s \<Longrightarrow> l \<noteq> ProcLock p \<Longrightarrow> killed p P s = Ret (p_killed (ptable s p)) s"
  using release_inside [OF _ _ neutral_id, of l s "ProcLock p" P]
  by (simp add: killed_def acquire_inside run_simps)



end
