(* ===== verification/SleepProps.thy ===== *)
theory SleepProps
  imports Sleeplock ProcProps
begin

text \<open>
  Sleep locks in a state where no spin lock is held: taking a free lock, testing for it and giving it
  back are exactly a change of the lock's record.
\<close>

definition taken_by :: "u32 \<Rightarrow> sleeplock \<Rightarrow> sleeplock" where
  "taken_by pid k = k\<lparr>lk_locked := 1, lk_pid := pid\<rparr>"

definition given_back :: "sleeplock \<Rightarrow> sleeplock" where
  "given_back k = k\<lparr>lk_locked := 0, lk_pid := 0\<rparr>"

text \<open>The locks inside sleep locks are not locks of processes.\<close>

definition sleep_lk :: "lock \<Rightarrow> bool" where
  "sleep_lk lk \<longleftrightarrow> (case lk of BufLk _ \<Rightarrow> True | InodeLk _ \<Rightarrow> True | _ \<Rightarrow> False)"

lemma sleep_lk_simps [simp]: "sleep_lk (BufLk b)" "sleep_lk (InodeLk i)"
  by (simp_all add: sleep_lk_def)

lemma sleep_lk_proc: "sleep_lk lk \<Longrightarrow> lk \<noteq> ProcLock i"
  by (auto simp: sleep_lk_def)

lemma sleeplocks_acquired [simp]: "sleeplocks (acquired l s) = sleeplocks s"
  by (simp add: lock_defs)

lemma set_sleeplock_select [simp]:
  "sleeplocks (set_sleeplock lk f s) = (sleeplocks s)(lk := f (sleeplocks s lk))"
  "ptable (set_sleeplock lk f s) = ptable s" "mem (set_sleeplock lk f s) = mem s" "mycpu (set_sleeplock lk f s) = mycpu s"
  "cpus (set_sleeplock lk f s) = cpus s" "csr (set_sleeplock lk f s) = csr s" "locks (set_sleeplock lk f s) = locks s"
  "slocks.more (set_sleeplock lk f s) = slocks.more s" "disk (set_sleeplock lk f s) = disk s"
  "disk_writes (set_sleeplock lk f s) = disk_writes s" "devregs (set_sleeplock lk f s) = devregs s"
  "kmem_freelist (set_sleeplock lk f s) = kmem_freelist s" "kend (set_sleeplock lk f s) = kend s"
  by (simp_all add: set_sleeplock_def mycpu_def)

lemma neutral_set_sleeplock [simp]: "lock_neutral (set_sleeplock lk f)"
  by (simp add: lock_neutral_def set_sleeplock_def)

lemma quiet_set_sleeplock [simp]: "quiet (set_sleeplock lk f s) = quiet s"
  by (rule quiet_neutral) simp

lemma quiet_woken [simp]: "quiet (woken me ch s) = quiet s"
  by (rule quiet_neutral) simp

lemma set_sleeplock_twice: "set_sleeplock lk f (set_sleeplock lk g s) = set_sleeplock lk (\<lambda>k. f (g k)) s"
  by (simp add: set_sleeplock_def)

lemma acquiresleep_free:
  fixes s :: "'a slocks_scheme"
  assumes q: "quiet s" and p: "c_proc (mycpu s) = Some p" and free: "lk_locked (sleeplocks s lk) = 0"
  shows "acquiresleep lk P s = Ret () (set_sleeplock lk (taken_by (p_pid (ptable s p))) s)"
proof -
  let ?a = "acquired lk s" and ?b = "set_sleeplock lk (\<lambda>k. k\<lparr>lk_locked := 1\<rparr>) (acquired lk s)"
  have w: "acquiresleep_wait (Suc (resumptions P ?a)) lk P ?a = Ret () ?a" using free by (simp add: ret_def)
  have "inside lk ?b" using q by (simp add: inside_neutral [OF neutral_set_sleeplock])
  then have c: "curproc P ?b = Ret p ?b" using p by (intro curproc_inside) simp_all
  have "set_sleeplock lk (\<lambda>k. k\<lparr>lk_pid := p_pid (ptable ?b p)\<rparr>) ?b = set_sleeplock lk (taken_by (p_pid (ptable s p))) ?a"
    unfolding set_sleeplock_twice by (simp add: taken_by_def [abs_def])
  then show ?thesis using q w c release_quiet [OF q neutral_set_sleeplock, of lk P lk]
    by (simp add: acquiresleep_def)
qed

lemma releasesleep_eq:
  fixes s :: "'a slocks_scheme"
  assumes q: "quiet s" and lk: "sleep_lk lk"
  shows "releasesleep lk P s =
    Ret () (woken (c_proc (mycpu s)) (Some (SleepChan lk)) (set_sleeplock lk given_back s))"
proof -
  let ?a = "set_sleeplock lk given_back (acquired lk s)"
  have "inside lk ?a" using q by (simp add: inside_neutral [OF neutral_set_sleeplock])
  then have w: "wakeup (Some (SleepChan lk)) P ?a = Ret () (woken (c_proc (mycpu s)) (Some (SleepChan lk)) ?a)"
    using wakeup_eq [OF wakeable_inside, of lk ?a] sleep_lk_proc [OF lk] by simp
  have "lock_neutral (\<lambda>x :: 'a slocks_scheme. woken (c_proc (mycpu s)) (Some (SleepChan lk)) (set_sleeplock lk given_back x))"
    by (rule neutral_comp) simp_all
  from release_quiet [OF q this] w q show ?thesis
    by (simp add: releasesleep_def given_back_def [abs_def])
qed

lemma holdingsleep_eq:
  assumes q: "quiet s" and p: "c_proc (mycpu s) = Some p"
  shows "holdingsleep lk P s =
    Ret (lk_locked (sleeplocks s lk) \<noteq> 0 \<and> lk_pid (sleeplocks s lk) = p_pid (ptable s p)) s"
proof -
  have "curproc P (acquired lk s) = Ret p (acquired lk s)"
    using q p by (intro curproc_inside [of lk]) simp_all
  then show ?thesis using q by (simp add: holdingsleep_def ret_def)
qed

end
