(* ===== verification/DiskProps.thy ===== *)
theory DiskProps
  imports Disk Quiet
begin

text \<open>
  The block device driver over the device its comments document: \<open>virtio_disk_rw\<close> moves exactly one
  block of 1024 bytes between a buffer and two consecutive sectors.
\<close>

section \<open>The device\<close>

text \<open>What \<open>kernel/virtio_disk.c\<close> documents of the device: the sector and buffer registers hold what is
  written to them; a command moves exactly 512 bytes between the sector and the 512-byte aligned
  memory address, and has completed when the write to the command register returns, with the status
  idle. The disk has \<open>n\<close> sectors.\<close>

definition blk_ready :: "nat \<Rightarrow> 'a mach_scheme \<Rightarrow> bool" where
  "blk_ready n s \<longleftrightarrow> unat (devregs s BLK_SECTOR) < n \<and> unat (devregs s BLK_BUFFER) mod SECTOR_SIZE = 0"

definition blk_dev :: "nat \<Rightarrow> 'a mach_scheme platform \<Rightarrow> bool" where
  "blk_dev n P \<longleftrightarrow>
     (\<forall>s. mmio_rd P BLK_STATUS s = (devregs s BLK_STATUS, s))
   \<and> (\<forall>s v. mmio_wr P BLK_SECTOR v s = s\<lparr>devregs := (devregs s)(BLK_SECTOR := v)\<rparr>)
   \<and> (\<forall>s v. mmio_wr P BLK_BUFFER v s = s\<lparr>devregs := (devregs s)(BLK_BUFFER := v)\<rparr>)
   \<and> (\<forall>s. blk_ready n s \<longrightarrow> mmio_wr P BLK_CMD BLK_CMD_READ s =
        s\<lparr>mem := write_bytes (mem s) (devregs s BLK_BUFFER) (disk s (devregs s BLK_SECTOR)),
          devregs := (devregs s)(BLK_STATUS := 0)\<rparr>)
   \<and> (\<forall>s. blk_ready n s \<longrightarrow> mmio_wr P BLK_CMD BLK_CMD_WRITE s =
        (let sec = devregs s BLK_SECTOR; bs = read_bytes (mem s) (devregs s BLK_BUFFER) SECTOR_SIZE in
         s\<lparr>disk := (disk s)(sec := bs), disk_writes := disk_writes s @ [(sec, bs)],
           devregs := (devregs s)(BLK_STATUS := 0)\<rparr>))"

text \<open>The state the driver relies on: the device is idle, sectors have 512 bytes, and the bounce buffer
  is where the linker put it, aligned and inside the kernel's data.\<close>

definition disk_ok :: "'a bcache_scheme \<Rightarrow> bool" where
  "disk_ok s \<longleftrightarrow> devregs s BLK_STATUS = 0 \<and> (\<forall>n. length (disk s n) = SECTOR_SIZE)
     \<and> unat (bounce s) mod SECTOR_SIZE = 0 \<and> unat (bounce s) + BSIZE \<le> unat (kend s)"

text \<open>Block \<open>n\<close> of the disk: two sectors.\<close>

definition sector_of :: "u32 \<Rightarrow> nat \<Rightarrow> u32" where
  "sector_of n i = n * of_nat SECTORS_PER_BLOCK + of_nat i"

definition disk_block :: "'a mach_scheme \<Rightarrow> u32 \<Rightarrow> u8 list" where
  "disk_block s n = disk s (sector_of n 0) @ disk s (sector_of n 1)"

definition on_disk :: "nat \<Rightarrow> u32 \<Rightarrow> bool" where
  "on_disk nsec n \<longleftrightarrow> nsec \<le> 4294967296 \<and> unat n * SECTORS_PER_BLOCK + 1 < nsec"

section \<open>Parts of a region\<close>

lemma unat_sub_u32: "unat (y - z :: u32) = (if unat z \<le> unat y then unat y - unat z else unat y + 4294967296 - unat z)"
  by (simp add: unat_sub_if_size word_size)

lemma write_bytes_append:
  assumes "length xs + length ys \<le> 4294967296"
  shows "write_bytes (write_bytes m a xs) (a + of_nat (length xs)) ys = write_bytes m a (xs @ ys)"
proof (rule ext)
  fix x
  let ?k = "length xs" and ?d = "unat (x - a)"
  show "write_bytes (write_bytes m a xs) (a + of_nat ?k) ys x = write_bytes m a (xs @ ys) x"
  proof (cases "?k < 4294967296")
    case True
    then have k: "unat (of_nat ?k :: u32) = ?k" by (simp add: unat_of_nat take_bit_eq_mod)
    have d: "x - (a + of_nat ?k) = (x - a) - of_nat ?k" by simp
    have e: "unat (x - (a + of_nat ?k)) = (if ?k \<le> ?d then ?d - ?k else ?d + 4294967296 - ?k)"
      unfolding d unat_sub_u32 k ..
    show ?thesis using assms unfolding write_bytes_def e
      by (auto simp: nth_append)
  next
    case False
    then have "length ys = 0" using assms by linarith
    then have "ys = []" by simp
    then show ?thesis by simp
  qed
qed

lemma read_write_part:
  assumes "off + n \<le> length bs" "length bs \<le> 4294967296"
  shows "read_bytes (write_bytes m a bs) (a + of_nat off) n = take n (drop off bs)"
proof (rule nth_equalityI)
  show "length (read_bytes (write_bytes m a bs) (a + of_nat off) n) = length (take n (drop off bs))"
    using assms by simp
  fix i assume "i < length (read_bytes (write_bytes m a bs) (a + of_nat off) n)"
  then have i: "i < n" by simp
  have "off + i < 4294967296" using assms i by linarith
  then have "unat (of_nat (off + i) :: u32) = off + i" unfolding unat_of_nat by (simp add: take_bit_eq_mod)
  then have "unat (a + of_nat off + of_nat i - a) = off + i" by (simp add: algebra_simps)
  then show "read_bytes (write_bytes m a bs) (a + of_nat off) n ! i = take n (drop off bs) ! i"
    using assms i by (simp add: write_bytes_def)
qed


section \<open>The driver\<close>

lemma blk_addr: "\<not> REG_EPC \<le> BLK_SECTOR" "\<not> REG_EPC \<le> BLK_BUFFER" "\<not> REG_EPC \<le> BLK_CMD" "\<not> REG_EPC \<le> BLK_STATUS"
  "BLK_SECTOR \<noteq> BLK_BUFFER" "BLK_SECTOR \<noteq> BLK_STATUS" "BLK_BUFFER \<noteq> BLK_STATUS"
  by (simp_all add: reg_defs BLK_SECTOR_def BLK_BUFFER_def BLK_CMD_def BLK_STATUS_def)

definition sector_regs :: "u32 \<Rightarrow> u32 \<Rightarrow> (u32 \<Rightarrow> u32) \<Rightarrow> u32 \<Rightarrow> u32" where
  "sector_regs sec pa r = r(BLK_SECTOR := sec, BLK_BUFFER := pa, BLK_STATUS := 0)"

lemma sector_regs_status [simp]: "sector_regs sec pa r BLK_STATUS = 0"
  by (simp add: sector_regs_def)

lemma blk_wait_idle: "blk_dev n P \<Longrightarrow> devregs s BLK_STATUS = 0 \<Longrightarrow> blk_wait P s = Ret 0 s"
  by (simp add: blk_wait_def blk_dev_def mmio_r_def blk_addr BLK_STATUS_BUSY_def ret_def)

lemma blk_dev_regs:
  assumes "blk_dev n P"
  shows "mmio_wr P BLK_SECTOR v s = s\<lparr>devregs := (devregs s)(BLK_SECTOR := v)\<rparr>"
    "mmio_wr P BLK_BUFFER v s = s\<lparr>devregs := (devregs s)(BLK_BUFFER := v)\<rparr>"
  using assms by (simp_all add: blk_dev_def)

definition sector_pa :: "'a bcache_scheme \<Rightarrow> nat \<Rightarrow> u32" where
  "sector_pa s i = bounce s + of_nat (i * SECTOR_SIZE)"

lemma sector_read:
  assumes dev: "blk_dev n P" and sec: "unat (sector_of (b_blockno (bufs s b)) i) < n" and al: "unat (sector_pa s i) mod SECTOR_SIZE = 0"
  shows "virtio_disk_sector b False i P s =
    Ret () (s\<lparr>mem := write_bytes (mem s) (sector_pa s i) (disk s (sector_of (b_blockno (bufs s b)) i)),
      devregs := sector_regs (sector_of (b_blockno (bufs s b)) i) (sector_pa s i) (devregs s)\<rparr>)"
proof -
  let ?sec = "sector_of (b_blockno (bufs s b)) i" and ?pa = "sector_pa s i"
  let ?t = "s\<lparr>devregs := (devregs s)(BLK_SECTOR := ?sec, BLK_BUFFER := ?pa)\<rparr>"
  have "blk_ready n ?t" using sec al by (simp add: blk_ready_def blk_addr)
  then have "mmio_wr P BLK_CMD BLK_CMD_READ ?t =
      s\<lparr>mem := write_bytes (mem s) ?pa (disk s ?sec), devregs := sector_regs ?sec ?pa (devregs s)\<rparr>" (is "_ = ?u")
    using dev by (simp add: blk_dev_def blk_addr sector_regs_def Let_def)
  moreover have "blk_wait P ?u = Ret 0 ?u" by (rule blk_wait_idle [OF dev]) simp
  ultimately show ?thesis
    by (simp add: virtio_disk_sector_def mmio_w_def blk_addr blk_dev_regs [OF dev] Let_def sector_of_def
      sector_pa_def ret_def BLK_STATUS_ERR_def)
qed

lemma sector_write:
  assumes dev: "blk_dev n P" and sec: "unat (sector_of (b_blockno (bufs s b)) i) < n" and al: "unat (sector_pa s i) mod SECTOR_SIZE = 0"
  shows "virtio_disk_sector b True i P s =
    (let sec = sector_of (b_blockno (bufs s b)) i; bs = read_bytes (mem s) (sector_pa s i) SECTOR_SIZE in
     Ret () (s\<lparr>disk := (disk s)(sec := bs), disk_writes := disk_writes s @ [(sec, bs)],
      devregs := sector_regs sec (sector_pa s i) (devregs s)\<rparr>))"
proof -
  let ?sec = "sector_of (b_blockno (bufs s b)) i" and ?pa = "sector_pa s i"
  let ?bs = "read_bytes (mem s) ?pa SECTOR_SIZE"
  let ?t = "s\<lparr>devregs := (devregs s)(BLK_SECTOR := ?sec, BLK_BUFFER := ?pa)\<rparr>"
  have "blk_ready n ?t" using sec al by (simp add: blk_ready_def blk_addr)
  then have "mmio_wr P BLK_CMD BLK_CMD_WRITE ?t =
      s\<lparr>disk := (disk s)(?sec := ?bs), disk_writes := disk_writes s @ [(?sec, ?bs)],
        devregs := sector_regs ?sec ?pa (devregs s)\<rparr>" (is "_ = ?u")
    using dev by (simp add: blk_dev_def blk_addr sector_regs_def Let_def)
  moreover have "blk_wait P ?u = Ret 0 ?u" by (rule blk_wait_idle [OF dev]) simp
  ultimately show ?thesis
    by (simp add: virtio_disk_sector_def mmio_w_def blk_addr blk_dev_regs [OF dev] Let_def sector_of_def
      sector_pa_def ret_def BLK_STATUS_ERR_def)
qed


text \<open>The effect of reading a block into buffer \<open>b\<close>, and of writing it.\<close>

definition block_regs :: "nat \<Rightarrow> 'a bcache_scheme \<Rightarrow> u32 \<Rightarrow> u32" where
  "block_regs b s = (let n = b_blockno (bufs s b) in
     sector_regs (sector_of n 1) (sector_pa s 1) (sector_regs (sector_of n 0) (sector_pa s 0) (devregs s)))"

definition disk_read :: "nat \<Rightarrow> 'a bcache_scheme \<Rightarrow> 'a bcache_scheme" where
  "disk_read b s = (let bs = disk_block s (b_blockno (bufs s b)) in
     set_buf b (\<lambda>q. q\<lparr>b_data := bs\<rparr>)
       (s\<lparr>mem := write_bytes (mem s) (bounce s) bs, devregs := block_regs b s\<rparr>))"

definition sector_pair :: "u32 \<Rightarrow> u8 list \<Rightarrow> (u32 \<times> u8 list) list" where
  "sector_pair n bs = [(sector_of n 0, take SECTOR_SIZE bs), (sector_of n 1, drop SECTOR_SIZE bs)]"

definition disk_write :: "nat \<Rightarrow> 'a bcache_scheme \<Rightarrow> 'a bcache_scheme" where
  "disk_write b s = (let n = b_blockno (bufs s b); bs = b_data (bufs s b) in
     s\<lparr>mem := write_bytes (mem s) (bounce s) bs, devregs := block_regs b s,
       disk := (disk s)(sector_of n 0 := take SECTOR_SIZE bs, sector_of n 1 := drop SECTOR_SIZE bs),
       disk_writes := disk_writes s @ sector_pair n bs\<rparr>)"

lemma neutral_disk_read: "lock_neutral (disk_read b)"
  by (simp add: lock_neutral_def disk_read_def set_buf_def disk_block_def block_regs_def sector_pa_def Let_def)

lemma neutral_disk_write: "lock_neutral (disk_write b)"
  by (simp add: lock_neutral_def disk_write_def block_regs_def sector_pa_def Let_def)

lemma bcache_acquired [simp]: "bufs (acquired l s) = bufs s" "bounce (acquired l s) = bounce s" "kend (acquired l s) = kend s"
  "inflight (acquired l s) = inflight s"
  by (simp_all add: lock_defs)

lemma on_disk_sectors:
  assumes "on_disk n k"
  shows "unat (sector_of k 0) = 2 * unat k" "unat (sector_of k 1) = 2 * unat k + 1"
    "unat (sector_of k 0) < n" "unat (sector_of k 1) < n"
proof -
  have lt: "2 * unat k + 1 < n" "n \<le> 4294967296" using assms
    by (simp_all add: on_disk_def SECTORS_PER_BLOCK_def BSIZE_def SECTOR_SIZE_def)
  have s: "sector_of k i = of_nat (2 * unat k + i)" for i
    by (simp add: sector_of_def SECTORS_PER_BLOCK_def BSIZE_def SECTOR_SIZE_def)
  show "unat (sector_of k 0) = 2 * unat k" "unat (sector_of k 1) = 2 * unat k + 1"
    using lt unfolding s unat_of_nat by (simp_all add: take_bit_eq_mod)
  then show "unat (sector_of k 0) < n" "unat (sector_of k 1) < n" using lt by linarith+
qed

lemma sector_pa_aligned:
  assumes "disk_ok s"
  shows "sector_pa s 0 = bounce s" "unat (sector_pa s 0) mod SECTOR_SIZE = 0" "unat (sector_pa s 1) mod SECTOR_SIZE = 0"
proof -
  show e: "sector_pa s 0 = bounce s" by (simp add: sector_pa_def)
  have b: "unat (bounce s) mod 512 = 0" "unat (bounce s) + 1024 \<le> unat (kend s)"
    using assms by (simp_all add: disk_ok_def SECTOR_SIZE_def BSIZE_def)
  have "unat (kend s) < 4294967296" by (rule unat_u32_less)
  then have "unat (bounce s + of_nat 512) = unat (bounce s) + 512" using b(2) by (intro unat_add_nat) linarith
  then show "unat (sector_pa s 0) mod SECTOR_SIZE = 0" "unat (sector_pa s 1) mod SECTOR_SIZE = 0"
    using b(1) by (simp_all add: sector_pa_def SECTOR_SIZE_def mod_add_eq [symmetric])
qed

lemma two_sectors: "[0..<SECTORS_PER_BLOCK] = [0, 1]"
  by (simp add: SECTORS_PER_BLOCK_def BSIZE_def SECTOR_SIZE_def upt_rec)

lemma disk_read_eq:
  assumes q: "quiet s" and dev: "blk_dev n P" and ok: "disk_ok s" and on: "on_disk n (b_blockno (bufs s b))"
  shows "virtio_disk_rw b False P s = Ret () (disk_read b s)"
proof -
  let ?k = "b_blockno (bufs s b)" and ?s = "acquired DiskLock s"
  note sec = on_disk_sectors [OF on] note pa = sector_pa_aligned [OF ok]
  have len: "length (disk s k) = 512" for k using ok by (simp add: disk_ok_def SECTOR_SIZE_def)
  have idle: "blk_wait P ?s = Ret 0 ?s" by (rule blk_wait_idle [OF dev]) (use ok in \<open>simp add: disk_ok_def\<close>)
  let ?t = "?s\<lparr>mem := write_bytes (mem s) (bounce s) (disk s (sector_of ?k 0)),
      devregs := sector_regs (sector_of ?k 0) (sector_pa s 0) (devregs s)\<rparr>"
  have 0: "virtio_disk_sector b False 0 P ?s = Ret () ?t"
    using sector_read [OF dev, of ?s b 0] sec pa by (simp add: sector_pa_def)
  let ?u = "?t\<lparr>mem := write_bytes (mem s) (bounce s) (disk_block s ?k), devregs := block_regs b s\<rparr>"
  have w: "write_bytes (write_bytes (mem s) (bounce s) (disk s (sector_of ?k 0))) (sector_pa s 1) (disk s (sector_of ?k 1))
      = write_bytes (mem s) (bounce s) (disk_block s ?k)"
    using write_bytes_append [of "disk s (sector_of ?k 0)" "disk s (sector_of ?k 1)" "mem s" "bounce s"]
    by (simp add: disk_block_def sector_pa_def len SECTOR_SIZE_def)
  have 1: "virtio_disk_sector b False 1 P ?t = Ret () ?u"
    using sector_read [OF dev, of ?t b 1] sec pa w by (simp add: sector_pa_def block_regs_def Let_def)
  have "read_bytes (write_bytes (mem s) (bounce s) (disk_block s ?k)) (bounce s) BSIZE = disk_block s ?k"
    using read_write_bytes [of "disk_block s ?k" "mem s" "bounce s"] by (simp add: disk_block_def len BSIZE_def)
  then have "set_buf b (\<lambda>q. q\<lparr>b_data := read_bytes (mem ?u) (bounce ?u) BSIZE\<rparr>) ?u = disk_read b ?s"
    by (simp add: disk_read_def disk_block_def block_regs_def sector_pa_def Let_def)
  then show ?thesis using q idle 0 1 release_quiet [OF q neutral_disk_read]
    by (simp add: virtio_disk_rw_def two_sectors ret_def)
qed

lemma disk_write_eq:
  assumes q: "quiet s" and dev: "blk_dev n P" and ok: "disk_ok s" and on: "on_disk n (b_blockno (bufs s b))"
    and len: "length (b_data (bufs s b)) = BSIZE"
  shows "virtio_disk_rw b True P s = Ret () (disk_write b s)"
proof -
  let ?k = "b_blockno (bufs s b)" and ?bs = "b_data (bufs s b)"
  let ?s = "(acquired DiskLock s)\<lparr>mem := write_bytes (mem s) (bounce s) ?bs\<rparr>"
  note sec = on_disk_sectors [OF on] note pa = sector_pa_aligned [OF ok]
  have idle: "blk_wait P (acquired DiskLock s) = Ret 0 (acquired DiskLock s)"
    by (rule blk_wait_idle [OF dev]) (use ok in \<open>simp add: disk_ok_def\<close>)
  have parts: "read_bytes (write_bytes (mem s) (bounce s) ?bs) (bounce s) SECTOR_SIZE = take SECTOR_SIZE ?bs"
    "read_bytes (write_bytes (mem s) (bounce s) ?bs) (sector_pa s 1) SECTOR_SIZE = drop SECTOR_SIZE ?bs"
    using read_write_part [of 0 512 ?bs "mem s" "bounce s"] read_write_part [of 512 512 ?bs "mem s" "bounce s"] len
    by (simp_all add: SECTOR_SIZE_def BSIZE_def sector_pa_def)
  let ?t = "?s\<lparr>disk := (disk s)(sector_of ?k 0 := take SECTOR_SIZE ?bs), disk_writes := disk_writes s @ [(sector_of ?k 0, take SECTOR_SIZE ?bs)],
      devregs := sector_regs (sector_of ?k 0) (sector_pa s 0) (devregs s)\<rparr>"
  have 0: "virtio_disk_sector b True 0 P ?s = Ret () ?t"
    using sector_write [OF dev, of ?s b 0] sec pa parts by (simp add: sector_pa_def Let_def)
  have 1: "virtio_disk_sector b True 1 P ?t = Ret () (disk_write b (acquired DiskLock s))"
    using sector_write [OF dev, of ?t b 1] sec pa parts
    by (simp add: sector_pa_def Let_def block_regs_def disk_write_def sector_pair_def)
  show ?thesis using q idle 0 1 len release_quiet [OF q neutral_disk_write]
    by (simp add: virtio_disk_rw_def two_sectors ret_def)
qed

end
