(* ===== verification/BioProps.thy ===== *)
theory BioProps
  imports Lru Keeps Zero SleepProps DiskProps
begin

text \<open>
  The buffer cache: its list and its keys stay intact under every interleaving of its operations.
\<close>

section \<open>The invariant\<close>

text \<open>No two buffers are for the same block of the same device; device 0 is that of the buffers never
  used.\<close>

definition keys_ok :: "(nat \<Rightarrow> buf) \<Rightarrow> bool" where
  "keys_ok bs \<longleftrightarrow> (\<forall>b \<in> set [0..<NBUF]. \<forall>c \<in> set [0..<NBUF].
     b \<noteq> c \<and> b_dev (bs b) = b_dev (bs c) \<and> b_blockno (bs b) = b_blockno (bs c) \<longrightarrow> b_dev (bs b) = 0)"

definition bcache_inv :: "'a bcache_scheme \<Rightarrow> bool" where
  "bcache_inv s \<longleftrightarrow> lru_ok (bufs s) \<and> keys_ok (bufs s)"

interpretation bc: upper_inv "bcache_inv :: 'a bcache_scheme \<Rightarrow> bool"
proof
  fix s t :: "'a bcache_scheme" assume "procs.more s = procs.more t"
  then have "bufs s = bufs t" by (cases s; cases t) simp
  then show "bcache_inv s = bcache_inv t" by (simp add: bcache_inv_def)
qed

lemma bcache_inv_bufs: "bufs t = bufs s \<Longrightarrow> bcache_inv t = bcache_inv s"
  by (simp add: bcache_inv_def)

lemma bufs_set_sleeplock [simp]: "bufs (set_sleeplock lk f s) = bufs s" "bounce (set_sleeplock lk f s) = bounce s"
  "bcache.more (set_sleeplock lk f s) = bcache.more s"
  by (simp_all add: set_sleeplock_def)

lemma bcache_inv_sleeplock [simp]: "bcache_inv (set_sleeplock lk f s) = bcache_inv s"
  by (rule bcache_inv_bufs) simp

text \<open>What an operation does to one buffer.\<close>

lemma bufs_set_buf [simp]: "bufs (set_buf b f s) = (bufs s)(b := f (bufs s b))"
  by (simp add: set_buf_def)

lemma inv_touch:
  assumes "bcache_inv s" "\<And>q. b_next (f q) = b_next q" "\<And>q. b_prev (f q) = b_prev q"
    "\<And>q. b_dev (f q) = b_dev q" "\<And>q. b_blockno (f q) = b_blockno q"
  shows "bcache_inv (set_buf b f s)"
proof -
  have "lru_ok ((bufs s)(b := f (bufs s b))) = lru_ok (bufs s)" by (rule lru_ok_cong) (simp_all add: assms)
  moreover have "keys_ok ((bufs s)(b := f (bufs s b))) = keys_ok (bufs s)"
    unfolding keys_ok_def by (intro ball_cong refl) (auto simp: assms)
  ultimately show ?thesis using assms(1) by (simp add: bcache_inv_def)
qed

lemma keys_ok_upd:
  assumes "keys_ok bs" "\<forall>c < NBUF. c \<noteq> b \<longrightarrow> \<not> (b_dev (bs c) = b_dev q \<and> b_blockno (bs c) = b_blockno q)"
  shows "keys_ok (bs(b := q))"
  using assms unfolding keys_ok_def by auto

lemma inv_recycle:
  assumes inv: "bcache_inv s" and n: "cached_at (bufs s) dev blockno = None"
  shows "bcache_inv (set_buf b (\<lambda>q. q\<lparr>b_dev := dev, b_blockno := blockno, b_valid := False, b_refcnt := 1\<rparr>) s)"
proof -
  let ?f = "\<lambda>q. q\<lparr>b_dev := dev, b_blockno := blockno, b_valid := False, b_refcnt := 1\<rparr>"
  have "lru_ok ((bufs s)(b := ?f (bufs s b))) = lru_ok (bufs s)" by (rule lru_ok_cong) simp_all
  moreover have "\<forall>c < NBUF. \<not> (b_dev (bufs s c) = dev \<and> b_blockno (bufs s c) = blockno)"
    using cached_at_None [OF _ n] inv by (auto simp: bcache_inv_def)
  then have "keys_ok ((bufs s)(b := ?f (bufs s b)))"
    using inv by (intro keys_ok_upd) (auto simp: bcache_inv_def)
  ultimately show ?thesis using inv by (simp add: bcache_inv_def)
qed

lemma inv_front:
  assumes "bcache_inv s" "b < NBUF"
  shows "bcache_inv (bcache_insert b (bcache_remove b s))"
  using assms links_front [of "bufs s" b]
  by (auto simp: bcache_inv_def bcache_insert_links bcache_remove_links keys_ok_def links_same)

section \<open>Every operation keeps it\<close>

lemma keeps_acquiresleep:
  assumes "obeys bcache_inv P"
  shows "keeps bcache_inv P (acquiresleep lk)"
proof -
  have "keeps bcache_inv P (acquiresleep_wait n lk)" for n
    by (induction n) (unfold acquiresleep_wait.simps, (intro keeps bc.keeps_sleep assms; simp)+)
  then have "keeps bcache_inv P (\<lambda>P s. acquiresleep_wait (Suc (resumptions P s)) lk P s)"
    unfolding keeps_def by blast
  then show ?thesis unfolding acquiresleep_def by (intro keeps; simp)
qed

lemma keeps_sleeplocks:
  "keeps bcache_inv P (releasesleep lk)" "keeps bcache_inv P (holdingsleep lk)" "keeps bcache_inv P (initsleeplock lk nm)"
  unfolding releasesleep_def holdingsleep_def initsleeplock_def by (intro keeps; simp)+

lemma keeps_blk_wait: "dev_ok P \<Longrightarrow> keeps bcache_inv P blk_wait"
proof -
  assume d: "dev_ok P"
  have "keeps bcache_inv P (blk_poll n)" for n
    by (induction n) (unfold blk_poll.simps, (intro keeps bc.keeps_mmio d; simp)+)
  then show ?thesis unfolding keeps_def blk_wait_def by blast
qed

lemma keeps_disk: "dev_ok P \<Longrightarrow> keeps bcache_inv P (virtio_disk_rw b w)"
  unfolding virtio_disk_rw_def virtio_disk_sector_def
  by (intro bc.keeps_mmio keeps keeps_blk_wait; (rule inv_touch)?; simp)

lemma keeps_bget:
  assumes o: "obeys bcache_inv P"
  shows "keeps bcache_inv P (bget dev blockno)"
proof -
  have rest: "keeps bcache_inv P (bind (release BcacheLock) (\<lambda>_. bind (acquiresleep (BufLk b)) (\<lambda>_. ret b)))" for b
    by (intro keeps keeps_acquiresleep o)
  let ?m = "\<lambda>bs. case bget_cached (Suc NBUF) bs dev blockno (b_next (bs bhead)) of
       Some b \<Rightarrow>
         bind (modify (set_buf b (\<lambda>q. q\<lparr>b_refcnt := b_refcnt q + 1\<rparr>))) (\<lambda>_.
         bind (release BcacheLock) (\<lambda>_. bind (acquiresleep (BufLk b)) (\<lambda>_. ret b)))
     | None \<Rightarrow>
         (case bget_unused (Suc NBUF) bs (b_prev (bs bhead)) of
            Some b \<Rightarrow>
              bind (modify (set_buf b (\<lambda>q. q\<lparr>b_dev := dev, b_blockno := blockno, b_valid := False,
                b_refcnt := 1\<rparr>))) (\<lambda>_.
              bind (release BcacheLock) (\<lambda>_. bind (acquiresleep (BufLk b)) (\<lambda>_. ret b)))
          | None \<Rightarrow> panic ''bget: no buffers'')"
  have "leads (\<lambda>s. bcache_inv s \<and> bufs s = bs) bcache_inv P (?m bs)" for bs
  proof (cases "lru_ok bs")
    case ok: True
    show ?thesis
    proof (cases "cached_at bs dev blockno")
      case c: None
      then show ?thesis
        by (cases "least_used bs"; simp only: bget_searches [OF ok] option.case)
          (auto intro!: leads_then [OF leads_modify rest] inv_recycle leads_keeps keeps)
    next
      case (Some b)
      then show ?thesis
        by (simp only: bget_searches [OF ok] option.case) (auto intro!: leads_then [OF leads_modify rest] inv_touch)
    qed
  next
    case False
    then show ?thesis by (auto simp: leads_def bcache_inv_def)
  qed
  then have "keeps bcache_inv P (bind (gets bufs) ?m)"
    unfolding keeps_leads by (rule leads_gets)
  then show ?thesis unfolding bget_def by (rule keeps_bind [OF bc.keeps_acquire])
qed

lemma keeps_bread: "obeys bcache_inv P \<Longrightarrow> dev_ok P \<Longrightarrow> keeps bcache_inv P (bread dev blockno)"
  unfolding bread_def by (intro keeps keeps_bget keeps_disk; (rule inv_touch)?; simp)

lemma keeps_bwrite: "dev_ok P \<Longrightarrow> keeps bcache_inv P (bwrite b)"
  unfolding bwrite_def by (intro keeps keeps_sleeplocks keeps_disk)

lemma keeps_brelse:
  assumes "b < NBUF"
  shows "keeps bcache_inv P (brelse b)"
proof -
  have front: "bcache_inv (if b_refcnt (bufs s b) = 0 then bcache_insert b (bcache_remove b s) else s)" if "bcache_inv s" for s :: "'a bcache_scheme"
    using that inv_front [OF that assms] by simp
  show ?thesis unfolding brelse_def
    by (intro keeps keeps_sleeplocks; (erule front | rule inv_touch; simp))
qed

lemma keeps_bpin: "keeps bcache_inv P (bpin b)" "keeps bcache_inv P (bunpin b)"
  unfolding bpin_def bunpin_def by (intro keeps; (rule inv_touch)?; simp)+

section \<open>Initialisation\<close>

lemma initlock_eq: "initlock l nm P s = Ret () (set_lock l (\<lambda>_. \<lparr>sl_locked = 0, sl_name = nm, sl_cpu = None\<rparr>) s)"
  by (simp add: initlock_def)

lemma binit_spec:
  fixes s :: "'a bcache_scheme"
  assumes "\<And>b. b < NBUF \<Longrightarrow> b_dev (bufs s b) = 0"
  shows "wp binit P s (\<lambda>_ t. bcache_inv t \<and> lru (bufs t) = rev [0..<NBUF]
    \<and> (\<forall>b < NBUF. lk_locked (sleeplocks t (BufLk b)) = 0 \<and> b_refcnt (bufs t b) = b_refcnt (bufs s b)
        \<and> b_valid (bufs t b) = b_valid (bufs s b) \<and> b_dev (bufs t b) = 0))"
proof -
  let ?I = "\<lambda>ys t :: 'a bcache_scheme. ring (bufs t) (rev ys) \<and> (\<forall>b \<in> set ys. lk_locked (sleeplocks t (BufLk b)) = 0)
    \<and> (\<forall>b < NBUF. b_refcnt (bufs t b) = b_refcnt (bufs s b) \<and> b_valid (bufs t b) = b_valid (bufs s b) \<and> b_dev (bufs t b) = 0)"
  let ?body = "\<lambda>b. bind (initsleeplock (BufLk b) ''buffer'') (\<lambda>_. modify (bcache_insert b))"
  let ?s = "set_buf bhead (\<lambda>q. q\<lparr>b_prev := bhead, b_next := bhead\<rparr>) (set_lock BcacheLock (\<lambda>_. \<lparr>sl_locked = 0, sl_name = ''bcache'', sl_cpu = None\<rparr>) s)"
  have "wp (for_each [0..<NBUF] ?body) P ?s (\<lambda>_. ?I [0..<NBUF])"
  proof (rule wp_for_each)
    show "?I [] ?s" using assms by (simp add: ring_def set_lock_def bhead_def)
    fix ys b zs and t :: "'a bcache_scheme" assume e: "[0..<NBUF] = ys @ b # zs" and i: "?I ys t"
    have "b \<in> set [0..<NBUF]" "set ys \<subseteq> set [0..<NBUF]" unfolding e by auto
    then have b: "b < NBUF" "bhead \<notin> set ys" "b \<noteq> bhead" by (auto simp: bhead_def)
    have d: "distinct ys" "b \<notin> set ys" using arg_cong [OF e, of distinct] by simp_all
    have "ring (links_insert b (bufs t)) (b # rev ys)" by (rule ring_insert) (use i b d in auto)
    then show "wp (?body b) P t (\<lambda>_. ?I (ys @ [b]))" using i
      by (simp add: wp_rules initsleeplock_def initlock_def set_lock_def set_sleeplock_def bcache_insert_links links_same)
  qed
  then show ?thesis unfolding binit_def wp_bind initlock_def wp_modify
    by (rule wp_mono) (use lru_okI [of _ "rev [0..<NBUF]"] in \<open>auto simp: bcache_inv_def keys_ok_def\<close>)
qed

text \<open>C26: The buffer cache stays intact. After \<open>binit\<close> the list runs through all buffers, in both
  directions, and no buffer is locked; from then on every operation, in whatever state it ends (returned,
  panicked, or off the CPU while others run) and however operations interleave at the points where they
  sleep, leaves a list that still runs through every buffer exactly once in both directions, and never
  two buffers for the same block.\<close>

theorem bcache_invariant:
  fixes P :: "'a bcache_scheme platform"
  assumes "obeys bcache_inv P" "dev_ok P" "b < NBUF"
  shows "(\<forall>s. (\<forall>c < NBUF. b_dev (bufs s c) = 0) \<longrightarrow> wp binit P s (\<lambda>_ t. bcache_inv t \<and> lru (bufs t) = rev [0..<NBUF]))
    \<and> keeps bcache_inv P (bget dev blockno) \<and> keeps bcache_inv P (bread dev blockno) \<and> keeps bcache_inv P (bwrite b)
    \<and> keeps bcache_inv P (brelse b) \<and> keeps bcache_inv P (bpin b) \<and> keeps bcache_inv P (bunpin b)"
proof (intro conjI allI impI)
  fix s :: "'a bcache_scheme" assume "\<forall>c < NBUF. b_dev (bufs s c) = 0"
  then have "wp binit P s (\<lambda>_ t. bcache_inv t \<and> lru (bufs t) = rev [0..<NBUF]
    \<and> (\<forall>b < NBUF. lk_locked (sleeplocks t (BufLk b)) = 0 \<and> b_refcnt (bufs t b) = b_refcnt (bufs s b)
        \<and> b_valid (bufs t b) = b_valid (bufs s b) \<and> b_dev (bufs t b) = 0))" by (intro binit_spec) simp
  then show "wp binit P s (\<lambda>_ t. bcache_inv t \<and> lru (bufs t) = rev [0..<NBUF])" by (rule wp_mono) simp
qed (use assms in \<open>auto intro: keeps_bget keeps_bread keeps_bwrite keeps_brelse keeps_bpin\<close>)

theorem bcache_invariant_witness:
  "wp binit (bare :: bcache platform) (bcache_on procs0) (\<lambda>_ t. bcache_inv t \<and> lru (bufs t) = rev [0..<NBUF])
    \<and> keeps bcache_inv (bare :: bcache platform) (bread 1 7) \<and> keeps bcache_inv (bare :: bcache platform) (brelse 3)"
proof -
  have "\<forall>c < NBUF. b_dev (bufs (bcache_on procs0) c) = 0"
    by (simp add: bcache_on_def console_on_def slocks_on_def buf0_def ext_defs)
  then show ?thesis using bcache_invariant [of "bare :: bcache platform" 3 1 7]
    by (simp add: obeys_def dev_ok_def bare_def NBUF_def MAXOPBLOCKS_def)
qed

end
