(* ===== verification/CacheView.thy ===== *)
theory CacheView
  imports BioProps Log
begin

text \<open>
  The buffer cache as a view of the disk. For a client that runs alone, the cache is a function from block
  numbers to their current content (\<open>vdata\<close>), the content on disk (\<open>vdisk\<close>), and for each block how often
  it is referenced and whether the client has it locked. \<open>cached\<close> relates a state to such a view, and
  the operations of \<open>kernel/bio.c\<close> are shown to be simple operations on views: which buffer holds a
  block, the list order and the eviction disappear.
\<close>

section \<open>Views\<close>

record bview =
  vdisk :: "u32 \<Rightarrow> u8 list"
  vdata :: "u32 \<Rightarrow> u8 list"
  vref :: "u32 \<Rightarrow> nat"
  vlocked :: "u32 set"
  vbuf :: "u32 \<Rightarrow> nat"

text \<open>A buffer and its sleep lock against the view of device \<open>d\<close>, for the process with id \<open>pid\<close>.\<close>

definition buf_ok :: "u32 \<Rightarrow> u32 \<Rightarrow> bview \<Rightarrow> nat \<Rightarrow> buf \<Rightarrow> sleeplock \<Rightarrow> bool" where
  "buf_ok d pid v b q lk \<longleftrightarrow>
     (if b_dev q = d
      then b_refcnt q = of_nat (vref v (b_blockno q)) \<and> (b_valid q \<longrightarrow> b_data q = vdata v (b_blockno q))
        \<and> (0 < vref v (b_blockno q) \<longrightarrow> b_valid q \<and> vbuf v (b_blockno q) = b)
        \<and> (lk_locked lk \<noteq> 0) = (b_blockno q \<in> vlocked v) \<and> (b_blockno q \<in> vlocked v \<longrightarrow> lk_pid lk = pid)
      else b_refcnt q = 0 \<and> lk_locked lk = 0)"

text \<open>The blocks in use are cached, and unused ones have their disk content.\<close>

definition view_ok :: "nat \<Rightarrow> bview \<Rightarrow> bool" where
  "view_ok n v \<longleftrightarrow> (\<forall>k. on_disk n k \<longrightarrow> length (vdata v k) = BSIZE) \<and> (\<forall>k \<in> vlocked v. 0 < vref v k)
     \<and> (\<forall>k. on_disk n k \<and> vref v k = 0 \<longrightarrow> vdata v k = vdisk v k)
     \<and> (\<forall>k. 0 < vref v k \<longrightarrow> on_disk n k \<and> vref v k < 4294967295 \<and> vbuf v k < NBUF)"

definition cached :: "nat \<Rightarrow> nat \<Rightarrow> u32 \<Rightarrow> bview \<Rightarrow> 'a bcache_scheme \<Rightarrow> bool" where
  "cached n p d v s \<longleftrightarrow> quiet s \<and> c_proc (mycpu s) = Some p \<and> disk_ok s \<and> bcache_inv s \<and> d \<noteq> 0 \<and> view_ok n v
     \<and> (\<forall>k. on_disk n k \<longrightarrow> vdisk v k = disk_block s k)
     \<and> (\<forall>b < NBUF. buf_ok d (p_pid (ptable s p)) v b (bufs s b) (sleeplocks s (BufLk b)))
     \<and> (\<forall>k. 0 < vref v k \<longrightarrow> b_dev (bufs s (vbuf v k)) = d \<and> b_blockno (bufs s (vbuf v k)) = k)"

text \<open>What the operations do not change: everything outside the cache and the disk, and memory
  outside the bounce buffer; processes may become runnable.\<close>

definition frame :: "nat \<Rightarrow> 'a bcache_scheme \<Rightarrow> 'a bcache_scheme \<Rightarrow> bool" where
  "frame p s t \<longleftrightarrow> (\<exists>m r dk dw sl bs pt.
     t = s\<lparr>mem := m, devregs := r, disk := dk, disk_writes := dw, sleeplocks := sl, bufs := bs, ptable := pt\<rparr>
     \<and> (\<forall>a. BSIZE \<le> unat (a - bounce s) \<longrightarrow> m a = mem s a) \<and> pt p = ptable s p
     \<and> (\<forall>i. (pt i)\<lparr>p_state := p_state (ptable s i)\<rparr> = ptable s i)
     \<and> (\<forall>l. (\<forall>b. l \<noteq> BufLk b) \<longrightarrow> sl l = sleeplocks s l))"

text \<open>The sector writes between two states, and their effect on the disk.\<close>

definition upds :: "('a \<times> 'b) list \<Rightarrow> ('a \<Rightarrow> 'b) \<Rightarrow> 'a \<Rightarrow> 'b" where
  "upds ps f = fold (\<lambda>(a, x) f. f(a := x)) ps f"

lemma upds_simps [simp]: "upds [] f = f" "upds (ax # ps) f = upds ps (f(fst ax := snd ax))" "upds (ps @ qs) f = upds qs (upds ps f)"
  by (simp_all add: upds_def case_prod_beta)

definition wrote :: "'a mach_scheme \<Rightarrow> 'a mach_scheme \<Rightarrow> (u32 \<times> u8 list) list \<Rightarrow> bool" where
  "wrote s t W \<longleftrightarrow> disk_writes t = disk_writes s @ W \<and> disk t = upds W (disk s)"

lemma wrote_trans: "wrote s t W \<Longrightarrow> wrote t u X \<Longrightarrow> wrote s u (W @ X)"
  by (simp add: wrote_def)

lemma frame_refl [simp]: "frame p s s"
proof -
  have "s = s\<lparr>mem := mem s, devregs := devregs s, disk := disk s, disk_writes := disk_writes s,
      sleeplocks := sleeplocks s, bufs := bufs s, ptable := ptable s\<rparr>" by simp
  then show ?thesis unfolding frame_def by fastforce
qed

lemma frame_trans [trans]: "frame p s t \<Longrightarrow> frame p t u \<Longrightarrow> frame p s u"
proof -
  assume a: "frame p s t" "frame p t u"
  have st: "(y\<lparr>p_state := p_state x\<rparr> = x \<Longrightarrow> z\<lparr>p_state := p_state y\<rparr> = y \<Longrightarrow> z\<lparr>p_state := p_state x\<rparr> = x)" for x y z :: proc
    by (metis proc.surjective proc.update_convs(1))
  obtain m r dk dw sl bs pt where t: "t = s\<lparr>mem := m, devregs := r, disk := dk, disk_writes := dw, sleeplocks := sl,
      bufs := bs, ptable := pt\<rparr>" "\<forall>a. BSIZE \<le> unat (a - bounce s) \<longrightarrow> m a = mem s a" "pt p = ptable s p"
     "\<forall>i. (pt i)\<lparr>p_state := p_state (ptable s i)\<rparr> = ptable s i" "\<forall>l. (\<forall>b. l \<noteq> BufLk b) \<longrightarrow> sl l = sleeplocks s l"
    using a(1) unfolding frame_def by blast
  obtain m' r' dk' dw' sl' bs' pt' where u: "u = t\<lparr>mem := m', devregs := r', disk := dk', disk_writes := dw', sleeplocks := sl',
      bufs := bs', ptable := pt'\<rparr>" "\<forall>a. BSIZE \<le> unat (a - bounce t) \<longrightarrow> m' a = mem t a" "pt' p = ptable t p"
     "\<forall>i. (pt' i)\<lparr>p_state := p_state (ptable t i)\<rparr> = ptable t i" "\<forall>l. (\<forall>b. l \<noteq> BufLk b) \<longrightarrow> sl' l = sleeplocks t l"
    using a(2) unfolding frame_def by blast
  have "u = s\<lparr>mem := m', devregs := r', disk := dk', disk_writes := dw', sleeplocks := sl', bufs := bs', ptable := pt'\<rparr>"
    using u(1) t(1) by simp
  moreover have "\<forall>a. BSIZE \<le> unat (a - bounce s) \<longrightarrow> m' a = mem s a" using u(2) t(1,2) by simp
  moreover have "pt' p = ptable s p" using u(3) t(1,3) by simp
  moreover have "\<forall>i. (pt' i)\<lparr>p_state := p_state (ptable s i)\<rparr> = ptable s i"
  proof
    fix i show "(pt' i)\<lparr>p_state := p_state (ptable s i)\<rparr> = ptable s i"
      using st [where x = "ptable s i" and y = "pt i" and z = "pt' i"] u(4) t(1,4) by simp
  qed
  moreover have "\<forall>l. (\<forall>b. l \<noteq> BufLk b) \<longrightarrow> sl' l = sleeplocks s l" using u(5) t(1,5) by simp
  ultimately show ?thesis unfolding frame_def by blast
qed

lemma frame_select:
  assumes "frame p s t"
  shows "bcache.more t = bcache.more s" "bounce t = bounce s" "kend t = kend s" "kmem_freelist t = kmem_freelist s"
    "cpus t = cpus s" "locks t = locks s" "csr t = csr s" "swtches t = swtches s" "ptable t p = ptable s p" "mycpu t = mycpu s"
  using assms by (auto simp: frame_def mycpu_def)


lemma cached_simps:
  assumes "cached n p d v s"
  shows "quiet s" "c_proc (mycpu s) = Some p" "disk_ok s" "bcache_inv s" "d \<noteq> 0" "view_ok n v" "lru_ok (bufs s)"
  using assms by (simp_all add: cached_def bcache_inv_def)

lemma cached_buf: "cached n p d v s \<Longrightarrow> b < NBUF \<Longrightarrow> buf_ok d (p_pid (ptable s p)) v b (bufs s b) (sleeplocks s (BufLk b))"
  by (simp add: cached_def)

lemma cached_vbuf:
  assumes "cached n p d v s" "0 < vref v k"
  shows "vbuf v k < NBUF" "b_dev (bufs s (vbuf v k)) = d" "b_blockno (bufs s (vbuf v k)) = k" "on_disk n k" "vref v k < 4294967295"
  using assms by (auto simp: cached_def view_ok_def)

lemma cached_key:
  assumes "cached n p d v s" "b < NBUF" "c < NBUF" "b_dev (bufs s b) = d" "b_dev (bufs s c) = d"
    "b_blockno (bufs s b) = b_blockno (bufs s c)"
  shows "b = c"
  by (rule ccontr) (use assms in \<open>auto simp: cached_def bcache_inv_def keys_ok_def\<close>)

lemma of_nat_u32_0: "k < 4294967296 \<Longrightarrow> (of_nat k = (0 :: u32)) = (k = 0)"
  by (simp add: of_nat_eq_0_iff_char_dvd dvd_imp_le order.strict_trans1 flip: unat_eq_0 add: unat_of_nat take_bit_eq_mod)

text \<open>How many blocks are in use.\<close>

definition in_use :: "bview \<Rightarrow> u32 set" where
  "in_use v = {k. 0 < vref v k}"

lemma in_use_room:
  assumes c: "cached n p d v s" and r: "\<And>b. b < NBUF \<Longrightarrow> b_refcnt (bufs s b) \<noteq> 0"
  shows "NBUF \<le> card (in_use v)"
proof -
  have b: "b_dev (bufs s b) = d \<and> 0 < vref v (b_blockno (bufs s b))" if "b < NBUF" for b
    using cached_buf [OF c that] r [OF that] by (auto simp: buf_ok_def split: if_splits intro!: gr0I)
  have "inj_on (\<lambda>b. b_blockno (bufs s b)) {..<NBUF}"
    using b cached_key [OF c] by (intro inj_onI) auto
  moreover have "(\<lambda>b. b_blockno (bufs s b)) ` {..<NBUF} \<subseteq> in_use v" using b by (auto simp: in_use_def)
  moreover have "finite (in_use v)" using finite by (rule finite_subset [OF subset_UNIV])
  ultimately show ?thesis using card_inj_on_le [of "\<lambda>b. b_blockno (bufs s b)" "{..<NBUF}" "in_use v"] by simp
qed


section \<open>Getting a buffer\<close>

text \<open>The buffer for block \<open>k\<close> as \<open>bget\<close> returns it; \<open>val\<close> says whether its data is there.\<close>

definition got :: "u32 \<Rightarrow> u32 \<Rightarrow> nat \<Rightarrow> bool \<Rightarrow> buf \<Rightarrow> buf" where
  "got d k r val q = q\<lparr>b_dev := d, b_blockno := k, b_valid := val, b_refcnt := of_nat r\<rparr>"

lemma got_same: "b_dev q = d \<Longrightarrow> b_blockno q = k \<Longrightarrow> got d k r (b_valid q) q = q\<lparr>b_refcnt := of_nat r\<rparr>"
  by (auto simp: got_def)

lemma got_data: "(got d k r val q)\<lparr>b_data := x, b_valid := True\<rparr> = got d k r True (q\<lparr>b_data := x\<rparr>)"
  by (cases q) (simp add: got_def)

lemma mycpu_devregs [simp]: "mycpu (s\<lparr>devregs := r\<rparr>) = mycpu s"
  by (simp add: mycpu_def)

lemma neutral_set_buf [simp]: "lock_neutral (set_buf b f)"
  by (simp add: lock_neutral_def set_buf_def)

lemma quiet_set_buf [simp]: "quiet (set_buf b f s) = quiet s"
  by (rule quiet_neutral) simp

lemma set_buf_select [simp]:
  "ptable (set_buf b f s) = ptable s" "mycpu (set_buf b f s) = mycpu s" "sleeplocks (set_buf b f s) = sleeplocks s"
  "disk (set_buf b f s) = disk s" "devregs (set_buf b f s) = devregs s" "mem (set_buf b f s) = mem s"
  "bounce (set_buf b f s) = bounce s" "kend (set_buf b f s) = kend s" "disk_writes (set_buf b f s) = disk_writes s"
  by (simp_all add: set_buf_def mycpu_def)

lemma bget_take:
  fixes s :: "'a bcache_scheme"
  assumes q: "quiet s" and p: "c_proc (mycpu s) = Some p" and free: "lk_locked (sleeplocks s (BufLk b)) = 0"
  shows "bind (modify (set_buf b f)) (\<lambda>_. bind (release BcacheLock) (\<lambda>_. bind (acquiresleep (BufLk b)) (\<lambda>_. ret b))) P
      (acquired BcacheLock s)
    = Ret b (set_sleeplock (BufLk b) (taken_by (p_pid (ptable s p))) (set_buf b f s))"
proof -
  have "acquiresleep (BufLk b) P (set_buf b f s) = Ret () (set_sleeplock (BufLk b) (taken_by (p_pid (ptable s p))) (set_buf b f s))"
    using acquiresleep_free [of "set_buf b f s" p "BufLk b" P] assms by simp
  then show ?thesis using release_quiet [OF q neutral_set_buf, of BcacheLock P b f] by (simp add: ret_def)
qed

lemma bget_view:
  fixes s :: "'a bcache_scheme"
  assumes c: "cached n p d v s" and k: "k \<notin> vlocked v" "vref v k < 4294967294" and room: "0 < vref v k \<or> card (in_use v) < NBUF"
  obtains b val where "b < NBUF" "0 < vref v k \<longrightarrow> b = vbuf v k \<and> val" "val \<longrightarrow> b_data (bufs s b) = vdata v k"
    "\<forall>c < NBUF. c \<noteq> b \<longrightarrow> b_dev (bufs s c) = d \<longrightarrow> b_blockno (bufs s c) \<noteq> k"
    "b_dev (bufs s b) = d \<and> b_blockno (bufs s b) = k \<or> b_refcnt (bufs s b) = 0"
    "bget d k P s = Ret b (set_sleeplock (BufLk b) (taken_by (p_pid (ptable s p))) (set_buf b (got d k (vref v k + 1) val) s))"
proof -
  note cs = cached_simps [OF c]
  have e: "bget d k P s = (case cached_at (bufs s) d k of
      Some b \<Rightarrow> bind (modify (set_buf b (\<lambda>q. q\<lparr>b_refcnt := b_refcnt q + 1\<rparr>)))
        (\<lambda>_. bind (release BcacheLock) (\<lambda>_. bind (acquiresleep (BufLk b)) (\<lambda>_. ret b))) P (acquired BcacheLock s)
    | None \<Rightarrow> (case least_used (bufs s) of
        Some b \<Rightarrow> bind (modify (set_buf b (\<lambda>q. q\<lparr>b_dev := d, b_blockno := k, b_valid := False, b_refcnt := 1\<rparr>)))
          (\<lambda>_. bind (release BcacheLock) (\<lambda>_. bind (acquiresleep (BufLk b)) (\<lambda>_. ret b))) P (acquired BcacheLock s)
      | None \<Rightarrow> Panic ''bget: no buffers'' (acquired BcacheLock s)))"
    by (simp only: bget_def bind_def [of "acquire BcacheLock"] acquire_quiet [OF cs(1)] bind_def [of "gets bufs"] gets_apply
      outcome.case bcache_acquired bget_searches [OF cs(7)] panic_def split: option.splits) simp
  show thesis
  proof (cases "cached_at (bufs s) d k")
    case (Some b)
    note b = cached_at_Some [OF cs(7) Some]
    have ok: "buf_ok d (p_pid (ptable s p)) v b (bufs s b) (sleeplocks s (BufLk b))" using cached_buf [OF c b(1)] .
    have "set_buf b (\<lambda>q. q\<lparr>b_refcnt := b_refcnt q + 1\<rparr>) s = set_buf b (got d k (vref v k + 1) (b_valid (bufs s b))) s"
      using ok b by (simp add: set_buf_def got_same buf_ok_def add.commute)
    then show thesis using Some e ok b k bget_take [OF cs(1,2), of b]
      by (intro that [of b "b_valid (bufs s b)"]) (auto simp: buf_ok_def dest: cached_key [OF c b(1)])
  next
    case None
    note un = cached_at_None [OF cs(7) None]
    have zero: "vref v k = 0" using un cached_vbuf [OF c, of k] by (cases "vref v k = 0") auto
    then have "least_used (bufs s) \<noteq> None" using room in_use_room [OF c] least_used_None [OF cs(7)] by fastforce
    then obtain b where b: "least_used (bufs s) = Some b" by blast
    note lb = least_used_Some [OF cs(7) b]
    have ok: "buf_ok d (p_pid (ptable s p)) v b (bufs s b) (sleeplocks s (BufLk b))" using cached_buf [OF c lb(1)] .
    have free: "lk_locked (sleeplocks s (BufLk b)) = 0"
    proof (rule ccontr)
      assume "lk_locked (sleeplocks s (BufLk b)) \<noteq> 0"
      then have l: "b_dev (bufs s b) = d" "b_blockno (bufs s b) \<in> vlocked v" using ok by (auto simp: buf_ok_def split: if_splits)
      then have "0 < vref v (b_blockno (bufs s b))" using cs(6) by (auto simp: view_ok_def)
      moreover have "vref v (b_blockno (bufs s b)) < 4294967296" using cached_vbuf(5) [OF c calculation] by linarith
      ultimately have "b_refcnt (bufs s b) \<noteq> 0" using ok l by (simp add: buf_ok_def of_nat_u32_0)
      then show False using lb by simp
    qed
    have "(\<lambda>q. q\<lparr>b_dev := d, b_blockno := k, b_valid := False, b_refcnt := 1\<rparr>) = got d k (vref v k + 1) False"
      using zero by (simp add: got_def [abs_def])
    then show thesis using None b e lb un zero bget_take [OF cs(1,2) free]
      by (intro that [of b False]) auto
  qed
qed


section \<open>The operations on views\<close>

definition v_read :: "u32 \<Rightarrow> nat \<Rightarrow> bview \<Rightarrow> bview" where
  "v_read k b v = v\<lparr>vref := (vref v)(k := vref v k + 1), vlocked := insert k (vlocked v), vbuf := (vbuf v)(k := b)\<rparr>"

definition v_set :: "u32 \<Rightarrow> u8 list \<Rightarrow> bview \<Rightarrow> bview" where
  "v_set k bs v = v\<lparr>vdata := (vdata v)(k := bs)\<rparr>"

definition v_write :: "u32 \<Rightarrow> bview \<Rightarrow> bview" where
  "v_write k v = v\<lparr>vdisk := (vdisk v)(k := vdata v k)\<rparr>"

definition v_unpin :: "u32 \<Rightarrow> bview \<Rightarrow> bview" where
  "v_unpin k v = v\<lparr>vref := (vref v)(k := vref v k - 1)\<rparr>"

definition v_pin :: "u32 \<Rightarrow> bview \<Rightarrow> bview" where
  "v_pin k v = v\<lparr>vref := (vref v)(k := vref v k + 1)\<rparr>"

definition v_rel :: "u32 \<Rightarrow> bview \<Rightarrow> bview" where
  "v_rel k v = v\<lparr>vref := (vref v)(k := vref v k - 1), vlocked := vlocked v - {k}\<rparr>"

lemmas v_defs = v_read_def v_set_def v_write_def v_unpin_def v_pin_def v_rel_def

text \<open>A buffer with a reference count of zero is not in use.\<close>

lemma refcnt_0:
  assumes c: "cached n p d v s" and b: "b < NBUF" "b_refcnt (bufs s b) = 0" and k: "0 < vref v k"
  shows "vbuf v k \<noteq> b"
proof
  assume "vbuf v k = b"
  moreover note cached_vbuf [OF c k]
  ultimately have "b_refcnt (bufs s b) = of_nat (vref v k)" "vref v k < 4294967296"
    using cached_buf [OF c b(1)] by (auto simp: buf_ok_def)
  then show False using b(2) k by (simp add: of_nat_u32_0)
qed

lemma cached_read:
  fixes s t :: "'a bcache_scheme"
  assumes c: "cached n p d v s" and k: "on_disk n k" "k \<notin> vlocked v" "vref v k < 4294967294"
    and b: "b < NBUF" "0 < vref v k \<Longrightarrow> b = vbuf v k"
    and others: "\<And>c. c < NBUF \<Longrightarrow> c \<noteq> b \<Longrightarrow> b_dev (bufs s c) = d \<Longrightarrow> b_blockno (bufs s c) \<noteq> k"
    and own: "b_dev (bufs s b) = d \<and> b_blockno (bufs s b) = k \<or> b_refcnt (bufs s b) = 0"
    and q: "q = got d k (vref v k + 1) True ((bufs s b)\<lparr>b_data := vdata v k\<rparr>)"
    and t: "quiet t" "mycpu t = mycpu s" "disk_ok t" "disk t = disk s" "ptable t = ptable s" "bufs t = (bufs s)(b := q)"
      "sleeplocks t = (sleeplocks s)(BufLk b := taken_by (p_pid (ptable s p)) (sleeplocks s (BufLk b)))"
  shows "cached n p d (v_read k b v) t"
proof -
  have qs: "b_next q = b_next (bufs s b)" "b_prev q = b_prev (bufs s b)" "b_dev q = d" "b_blockno q = k" "b_valid q"
    "b_refcnt q = of_nat (vref v k + 1)" "b_data q = vdata v k" by (simp_all add: q got_def)
  have "lru_ok (bufs t) = lru_ok (bufs s)" unfolding t by (rule lru_ok_cong) (simp_all add: qs)
  moreover have "keys_ok (bufs t)" unfolding t
    by (rule keys_ok_upd) (use c others qs in \<open>auto simp: cached_def bcache_inv_def\<close>)
  ultimately have inv: "bcache_inv t" using c by (simp add: cached_def bcache_inv_def)
  have view: "view_ok n (v_read k b v)" using c k b by (auto simp: cached_def view_ok_def v_read_def)
  have blocks: "disk_block t = disk_block s" unfolding disk_block_def [abs_def] t ..
  have bufs: "buf_ok d (p_pid (ptable s p)) (v_read k b v) b' (bufs t b') (sleeplocks t (BufLk b'))" if b': "b' < NBUF" for b'
  proof (cases "b' = b")
    case True
    then show ?thesis using qs by (simp add: t buf_ok_def v_read_def taken_by_def)
  next
    case False
    then show ?thesis using cached_buf [OF c b'] others [OF b' False] by (auto simp: t buf_ok_def v_read_def)
  qed
  have keys: "b_dev (bufs t (vbuf (v_read k b v) k')) = d \<and> b_blockno (bufs t (vbuf (v_read k b v) k')) = k'"
    if k': "0 < vref (v_read k b v) k'" for k'
  proof (cases "k' = k")
    case True
    then show ?thesis using qs by (simp add: v_read_def t)
  next
    case False
    then have "0 < vref v k'" using k' by (simp add: v_read_def)
    moreover from this have "vbuf v k' \<noteq> b" using own refcnt_0 [OF c b(1)] cached_vbuf [OF c, of k'] False by auto
    ultimately show ?thesis using False cached_vbuf [OF c, of k'] by (simp add: v_read_def t)
  qed
  show ?thesis unfolding cached_def
    using cached_simps [OF c] inv view blocks bufs keys t(1-5) c by (auto simp: cached_def v_read_def)
qed


lemma disk_ok_cong:
  "devregs t BLK_STATUS = devregs s BLK_STATUS \<Longrightarrow> disk t = disk s \<Longrightarrow> bounce t = bounce s \<Longrightarrow> kend t = kend s \<Longrightarrow> disk_ok t = disk_ok s"
  by (simp add: disk_ok_def)

lemma disk_ok_touch [simp]: "disk_ok (set_buf b f s) = disk_ok s" "disk_ok (set_sleeplock lk g s) = disk_ok s"
  by (rule disk_ok_cong; simp)+

lemma block_regs_status [simp]: "block_regs b s BLK_STATUS = 0"
  by (simp add: block_regs_def Let_def)

lemma disk_block_touch [simp]: "disk_block (set_buf b f s) = disk_block s" "disk_block (set_sleeplock lk g s) = disk_block s"
  by (simp_all add: disk_block_def [abs_def])

lemma length_disk_block: "disk_ok s \<Longrightarrow> length (disk_block s k) = BSIZE"
  by (simp add: disk_block_def disk_ok_def SECTOR_SIZE_def BSIZE_def)

lemma frame_io:
  assumes "\<And>a. BSIZE \<le> unat (a - bounce s) \<Longrightarrow> m a = mem s a"
  shows "frame p s (set_sleeplock (BufLk b) g (set_buf b f (s\<lparr>mem := m, devregs := r\<rparr>)))"
  unfolding frame_def
proof (intro exI conjI allI impI)
  show "set_sleeplock (BufLk b) g (set_buf b f (s\<lparr>mem := m, devregs := r\<rparr>)) =
    s\<lparr>mem := m, devregs := r, disk := disk s, disk_writes := disk_writes s,
      sleeplocks := (sleeplocks s)(BufLk b := g (sleeplocks s (BufLk b))), bufs := (bufs s)(b := f (bufs s b)), ptable := ptable s\<rparr>"
    by (simp add: set_sleeplock_def set_buf_def)
qed (use assms in simp_all)

lemma frame_set_buf [simp]: "frame p s (set_buf b f s)"
proof -
  have "set_sleeplock (BufLk b) (\<lambda>k. k) (set_buf b f (s\<lparr>mem := mem s, devregs := devregs s\<rparr>)) = set_buf b f s"
    by (simp add: set_sleeplock_def set_buf_def)
  then show ?thesis using frame_io [of s "mem s" p b "\<lambda>k. k" f "devregs s"] by simp
qed

lemma write_bytes_out: "length bs \<le> unat (x - a) \<Longrightarrow> write_bytes m a bs x = m x"
  by (simp add: write_bytes_def)

lemma bread_view:
  fixes s :: "'a bcache_scheme"
  assumes c: "cached n p d v s" and dev: "blk_dev n P" and k: "on_disk n k" "k \<notin> vlocked v" "vref v k < 4294967294"
    and room: "0 < vref v k \<or> card (in_use v) < NBUF"
  shows "wp (bread d k) P s (\<lambda>b t. cached n p d (v_read k b v) t \<and> frame p s t \<and> wrote s t []
    \<and> b < NBUF \<and> (0 < vref v k \<longrightarrow> b = vbuf v k))"
proof -
  note cs = cached_simps [OF c]
  obtain b val where b: "b < NBUF" "0 < vref v k \<longrightarrow> b = vbuf v k \<and> val" "val \<longrightarrow> b_data (bufs s b) = vdata v k"
    "\<forall>c < NBUF. c \<noteq> b \<longrightarrow> b_dev (bufs s c) = d \<longrightarrow> b_blockno (bufs s c) \<noteq> k"
    "b_dev (bufs s b) = d \<and> b_blockno (bufs s b) = k \<or> b_refcnt (bufs s b) = 0"
    "bget d k P s = Ret b (set_sleeplock (BufLk b) (taken_by (p_pid (ptable s p))) (set_buf b (got d k (vref v k + 1) val) s))"
    (is "_ = Ret b ?s1") by (rule bget_view [where P = P, OF c k(2,3) room])
  let ?q = "got d k (vref v k + 1) True ((bufs s b)\<lparr>b_data := vdata v k\<rparr>)"
  let ?t = "\<lambda>m r. set_sleeplock (BufLk b) (taken_by (p_pid (ptable s p))) (set_buf b (\<lambda>_. ?q) (s\<lparr>mem := m, devregs := r\<rparr>))"
  have quiet: "quiet (s\<lparr>mem := m, devregs := r\<rparr>)" for m r using cs(1) quiet_cong [of "s\<lparr>mem := m, devregs := r\<rparr>" s] by simp
  have fin: "cached n p d (v_read k b v) (?t m r)" if "r BLK_STATUS = 0" for m r
    by (rule cached_read [OF c k b(1) _ _ b(5) refl]) (use b(2,4) cs quiet that in \<open>simp_all add: disk_ok_def\<close>)
  show ?thesis
  proof (cases val)
    case True
    then have "got d k (vref v k + 1) val (bufs s b) = ?q" using b(3) by (simp add: got_def)
    then have e: "?s1 = ?t (mem s) (devregs s)" by (simp add: set_buf_def set_sleeplock_def)
    have "b_valid (bufs ?s1 b)" using True by (simp add: got_def)
    then have r: "bread d k P s = Ret b ?s1" using b(6) by (simp add: bread_def ret_def)
    have "devregs s BLK_STATUS = 0" using cs(3) by (simp add: disk_ok_def)
    then have "cached n p d (v_read k b v) ?s1" unfolding e by (rule fin)
    moreover have "frame p s ?s1" unfolding e by (rule frame_io) simp
    ultimately show ?thesis using b(1,2) by (simp add: wp_def r wrote_def)
  next
    case False
    then have zero: "vref v k = 0" using b(2) by auto
    have data: "vdata v k = disk_block s k" using c zero k(1) by (simp add: cached_def view_ok_def)
    have kb: "b_blockno (bufs ?s1 b) = k" by (simp add: got_def)
    have kg: "b_blockno (got d k r val q) = k" for r q by (simp add: got_def)
    let ?m = "write_bytes (mem s) (bounce s) (vdata v k)" and ?r = "block_regs b ?s1"
    have e: "set_buf b (\<lambda>q. q\<lparr>b_valid := True\<rparr>) (disk_read b ?s1) = ?t ?m ?r"
      by (rule bcache.equality) (simp_all add: disk_read_def kg data Let_def set_buf_def set_sleeplock_def got_data disk_block_def)
    have "virtio_disk_rw b False P ?s1 = Ret () (disk_read b ?s1)"
      by (rule disk_read_eq [OF _ dev]) (use cs k(1) kb in simp_all)
    then have r: "bread d k P s = Ret b (?t ?m ?r)"
      using b(6) False e by (simp add: bread_def ret_def got_def)
    have "length (vdata v k) = BSIZE" using data length_disk_block [OF cs(3)] by simp
    then have "frame p s (?t ?m ?r)" by (intro frame_io) (simp add: write_bytes_out)
    then show ?thesis using b(1,2) fin [of ?r ?m] by (simp add: wp_def r wrote_def)
  qed
qed


text \<open>A change that concerns only block \<open>k\<close>, which is in use.\<close>

definition same_buf :: "buf \<Rightarrow> buf \<Rightarrow> bool" where
  "same_buf q r \<longleftrightarrow> b_dev q = b_dev r \<and> b_blockno q = b_blockno r \<and> b_valid q = b_valid r \<and> b_refcnt q = b_refcnt r
     \<and> b_data q = b_data r"

definition same_block :: "bview \<Rightarrow> bview \<Rightarrow> u32 \<Rightarrow> bool" where
  "same_block v w k \<longleftrightarrow> vref w k = vref v k \<and> vdata w k = vdata v k \<and> vbuf w k = vbuf v k \<and> (k \<in> vlocked w) = (k \<in> vlocked v)"

lemma cached_change:
  assumes c: "cached n p d v s" and k: "0 < vref v k" "b = vbuf v k" and w: "\<forall>k'. k' \<noteq> k \<longrightarrow> same_block v w k'" "vbuf w k = b" "view_ok n w"
    and t: "quiet t" "mycpu t = mycpu s" "disk_ok t" "bcache_inv t" "p_pid (ptable t p) = p_pid (ptable s p)"
      "\<forall>k. on_disk n k \<longrightarrow> vdisk w k = disk_block t k"
      "\<forall>c. c \<noteq> b \<longrightarrow> same_buf (bufs t c) (bufs s c) \<and> sleeplocks t (BufLk c) = sleeplocks s (BufLk c)"
      "b_dev (bufs t b) = d" "b_blockno (bufs t b) = k"
      "buf_ok d (p_pid (ptable s p)) w b (bufs t b) (sleeplocks t (BufLk b))"
  shows "cached n p d w t"
proof -
  have bufs: "buf_ok d (p_pid (ptable t p)) w c (bufs t c) (sleeplocks t (BufLk c))" if b': "c < NBUF" for c
  proof (cases "c = b")
    case True
    then show ?thesis using t by simp
  next
    case False
    have "b_dev (bufs s c) = d \<Longrightarrow> b_blockno (bufs s c) \<noteq> k"
      using False cached_key [OF c b' cached_vbuf(1) [OF c k(1)]] cached_vbuf [OF c k(1)] k(2) by auto
    then show ?thesis using cached_buf [OF c b'] t(5,7) False w(1) by (auto simp: buf_ok_def same_buf_def same_block_def)
  qed
  have keys: "b_dev (bufs t (vbuf w k')) = d \<and> b_blockno (bufs t (vbuf w k')) = k'" if k': "0 < vref w k'" for k'
  proof (cases "k' = k")
    case True
    then show ?thesis using t w(2) by simp
  next
    case False
    then have e: "0 < vref v k'" "vbuf w k' = vbuf v k'" using w(1) k' by (auto simp: same_block_def)
    note b' = cached_vbuf [OF c e(1)]
    have "vbuf v k' \<noteq> b" using b'(3) cached_vbuf(3) [OF c k(1)] k(2) False by auto
    then show ?thesis using b' t(7) by (simp add: e(2) same_buf_def)
  qed
  show ?thesis unfolding cached_def using cached_simps [OF c] t(1-4,6) w(3) bufs keys by auto
qed

lemma cached_data:
  assumes c: "cached n p d v s" and k: "0 < vref v k"
  shows "b_valid (bufs s (vbuf v k))" "b_data (bufs s (vbuf v k)) = vdata v k" "b_refcnt (bufs s (vbuf v k)) = of_nat (vref v k)"
    "length (vdata v k) = BSIZE" "on_disk n k"
  using cached_buf [OF c cached_vbuf(1) [OF c k]] cached_vbuf [OF c k] k cached_simps(6) [OF c]
  by (auto simp: buf_ok_def view_ok_def)

lemma locked_used: "cached n p d v s \<Longrightarrow> k \<in> vlocked v \<Longrightarrow> 0 < vref v k"
  by (auto simp: cached_def view_ok_def)

lemma cached_lock:
  assumes c: "cached n p d v s" and k: "k \<in> vlocked v"
  shows "lk_locked (sleeplocks s (BufLk (vbuf v k))) \<noteq> 0" "lk_pid (sleeplocks s (BufLk (vbuf v k))) = p_pid (ptable s p)"
  using cached_buf [OF c cached_vbuf(1) [OF c locked_used [OF c k]]] cached_vbuf [OF c locked_used [OF c k]] k
  by (auto simp: buf_ok_def)

lemma get_data_view: "cached n p d v s \<Longrightarrow> 0 < vref v k \<Longrightarrow> get_data (vbuf v k) P s = Ret (vdata v k) s"
  by (simp add: get_data_def cached_data)

lemma set_data_view:
  fixes s :: "'a bcache_scheme"
  assumes c: "cached n p d v s" and k: "0 < vref v k" and len: "length (f (vdata v k)) = BSIZE"
  shows "wp (set_data (vbuf v k) f) P s (\<lambda>_ t. cached n p d (v_set k (f (vdata v k)) v) t \<and> frame p s t
    \<and> wrote s t [])"
proof -
  note cs = cached_simps [OF c] note b = cached_vbuf [OF c k] note q = cached_data [OF c k]
  let ?b = "vbuf v k" let ?t = "set_buf ?b (\<lambda>q. q\<lparr>b_data := f (b_data q)\<rparr>) s"
  have "cached n p d (v_set k (f (vdata v k)) v) ?t"
  proof (rule cached_change [OF c k refl])
    show "view_ok n (v_set k (f (vdata v k)) v)" using cs(6) k len by (auto simp: view_ok_def v_set_def)
    show "bcache_inv ?t" using cs(4) by (intro inv_touch) simp_all
    show "buf_ok d (p_pid (ptable s p)) (v_set k (f (vdata v k)) v) ?b (bufs ?t ?b) (sleeplocks ?t (BufLk ?b))"
      using cached_buf [OF c b(1)] q(2) b(2,3) by (simp add: buf_ok_def v_set_def)
  qed (use c cs b in \<open>auto simp: same_block_def same_buf_def v_set_def cached_def\<close>)
  then show ?thesis by (simp add: set_data_def wp_modify wrote_def)
qed


lemma sector_of_inj:
  assumes "on_disk n k" "on_disk n k'" "k \<noteq> k'" "i < 2" "j < 2"
  shows "sector_of k i \<noteq> sector_of k' j"
proof -
  have u: "unat (sector_of k i) = 2 * unat k + i" "unat (sector_of k' j) = 2 * unat k' + j"
    using on_disk_sectors [OF assms(1)] on_disk_sectors [OF assms(2)] assms(4,5) by (cases i; cases j; auto)+
  have "unat k \<noteq> unat k'" using assms(3) by (simp add: word_unat_eq_iff)
  then have "2 * unat k + i \<noteq> 2 * unat k' + j" using assms(4,5) by arith
  then show ?thesis using u by metis
qed

lemma disk_block_write:
  assumes "on_disk n k" "b_blockno (bufs s b) = k" "length (b_data (bufs s b)) = BSIZE" "on_disk n k'"
  shows "disk_block (disk_write b s) k' = (if k' = k then b_data (bufs s b) else disk_block s k')"
proof (cases "k' = k")
  case True
  have "unat (sector_of k 0) \<noteq> unat (sector_of k 1)" using on_disk_sectors [OF assms(1)] by simp
  then have "sector_of k 0 \<noteq> sector_of k 1" by metis
  then show ?thesis using True assms by (simp add: disk_block_def disk_write_def Let_def)
next
  case False
  then have "sector_of k' i \<noteq> sector_of k j" if "i < 2" "j < 2" for i j
    using sector_of_inj [OF assms(4,1)] that by simp
  from this [of 0 0] this [of 0 1] this [of 1 0] this [of 1 1] show ?thesis
    using False assms by (simp add: disk_block_def disk_write_def Let_def)
qed

lemma disk_ok_write:
  assumes "disk_ok s" "length (b_data (bufs s b)) = BSIZE"
  shows "disk_ok (disk_write b s)"
  using assms by (auto simp: disk_ok_def disk_write_def Let_def SECTOR_SIZE_def BSIZE_def)

lemma frame_disk_write:
  assumes "length (b_data (bufs s b)) = BSIZE"
  shows "frame p s (disk_write b s)"
  unfolding frame_def
proof (intro exI conjI allI impI)
  let ?n = "b_blockno (bufs s b)" and ?bs = "b_data (bufs s b)"
  show "disk_write b s = s\<lparr>mem := write_bytes (mem s) (bounce s) ?bs, devregs := block_regs b s,
      disk := (disk s)(sector_of ?n 0 := take SECTOR_SIZE ?bs, sector_of ?n 1 := drop SECTOR_SIZE ?bs),
      disk_writes := disk_writes s @ sector_pair ?n ?bs, sleeplocks := sleeplocks s, bufs := bufs s, ptable := ptable s\<rparr>"
    by (simp add: disk_write_def Let_def)
qed (use assms in \<open>simp_all add: write_bytes_out\<close>)

lemma bwrite_view:
  fixes s :: "'a bcache_scheme"
  assumes c: "cached n p d v s" and dev: "blk_dev n P" and k: "k \<in> vlocked v"
  shows "wp (bwrite (vbuf v k)) P s (\<lambda>_ t. cached n p d (v_write k v) t \<and> frame p s t
    \<and> wrote s t (sector_pair k (vdata v k)))"
proof -
  let ?b = "vbuf v k" and ?t = "disk_write (vbuf v k) s"
  note cs = cached_simps [OF c] note used = locked_used [OF c k]
  note b = cached_vbuf [OF c used] note q = cached_data [OF c used]
  have len: "length (b_data (bufs s ?b)) = BSIZE" using q by simp
  have "holdingsleep (BufLk ?b) P s = Ret True s" using holdingsleep_eq [OF cs(1,2)] cached_lock [OF c k] by simp
  moreover have "virtio_disk_rw ?b True P s = Ret () ?t" by (rule disk_write_eq [OF cs(1) dev cs(3) _ len]) (use b in simp)
  ultimately have r: "bwrite ?b P s = Ret () ?t" by (simp add: bwrite_def)
  have sel: "bufs ?t = bufs s" "sleeplocks ?t = sleeplocks s" "ptable ?t = ptable s" "mycpu ?t = mycpu s"
    using b q by (simp_all add: disk_write_def Let_def mycpu_def)
  have "cached n p d (v_write k v) ?t"
  proof (rule cached_change [OF c used refl])
    show "view_ok n (v_write k v)" using cs(6) used by (auto simp: view_ok_def v_write_def)
    show "quiet ?t" using cs(1) by (simp add: quiet_neutral [OF neutral_disk_write])
    show "disk_ok ?t" by (rule disk_ok_write [OF cs(3) len])
    show "\<forall>k'. on_disk n k' \<longrightarrow> vdisk (v_write k v) k' = disk_block ?t k'"
      using c b q disk_block_write [OF b(4,3) len] by (auto simp: v_write_def cached_def)
    show "bcache_inv ?t" using cs(4) bcache_inv_bufs [OF sel(1)] by simp
    show "buf_ok d (p_pid (ptable s p)) (v_write k v) ?b (bufs ?t ?b) (sleeplocks ?t (BufLk ?b))"
      using cached_buf [OF c b(1)] by (simp add: buf_ok_def v_write_def sel)
  qed (use b in \<open>simp_all add: sel same_block_def same_buf_def v_write_def\<close>)
  moreover have "wrote s ?t (sector_pair k (vdata v k))"
    using b q by (simp add: wrote_def disk_write_def Let_def sector_pair_def)
  ultimately show ?thesis using frame_disk_write [OF len] by (simp add: wp_def r)
qed


text \<open>Releasing a buffer: its content must be safe, on disk or still referenced.\<close>

lemma woken_select [simp]:
  "bufs (woken me ch s) = bufs s" "sleeplocks (woken me ch s) = sleeplocks s" "disk (woken me ch s) = disk s" "mem (woken me ch s) = mem s"
  "devregs (woken me ch s) = devregs s" "bounce (woken me ch s) = bounce s" "kend (woken me ch s) = kend s" "mycpu (woken me ch s) = mycpu s"
  "disk_writes (woken me ch s) = disk_writes s" "ptable (woken (Some p) ch s) p = ptable s p"
  by (simp_all add: woken_def mycpu_def)

lemma frame_woken:
  fixes s :: "'a bcache_scheme"
  shows "frame p s (woken (Some p) ch (set_sleeplock (BufLk b) g s))"
  unfolding frame_def
proof (intro exI conjI allI impI)
  show "woken (Some p) ch (set_sleeplock (BufLk b) g s) = s\<lparr>mem := mem s, devregs := devregs s, disk := disk s, disk_writes := disk_writes s,
      sleeplocks := (sleeplocks s)(BufLk b := g (sleeplocks s (BufLk b))), bufs := bufs s,
      ptable := (\<lambda>i. if i < NPROC \<and> Some p \<noteq> Some i then woken_proc ch (ptable s i) else ptable s i)\<rparr>"
    by (rule bcache.equality) (simp_all add: woken_def set_sleeplock_def cong del: if_weak_cong)
qed (auto simp: woken_proc_def)

definition released :: "nat \<Rightarrow> 'a bcache_scheme \<Rightarrow> 'a bcache_scheme" where
  "released b s = (let s = set_buf b (\<lambda>q. q\<lparr>b_refcnt := b_refcnt q - 1\<rparr>) s
     in if b_refcnt (bufs s b) = 0 then bcache_insert b (bcache_remove b s) else s)"

lemma neutral_released: "lock_neutral (released b)"
  by (simp add: lock_neutral_def released_def Let_def set_buf_def bcache_insert_links bcache_remove_links)

lemma brelse_eq:
  fixes s :: "'a bcache_scheme"
  assumes q: "quiet s" and p: "c_proc (mycpu s) = Some p"
    and l: "lk_locked (sleeplocks s (BufLk b)) \<noteq> 0" "lk_pid (sleeplocks s (BufLk b)) = p_pid (ptable s p)"
  shows "brelse b P s = Ret () (released b (woken (Some p) (Some (SleepChan (BufLk b))) (set_sleeplock (BufLk b) given_back s)))"
proof -
  let ?s = "woken (Some p) (Some (SleepChan (BufLk b))) (set_sleeplock (BufLk b) given_back s)"
  have "holdingsleep (BufLk b) P s = Ret True s" using holdingsleep_eq [OF q p] l by simp
  moreover have "releasesleep (BufLk b) P s = Ret () ?s" using releasesleep_eq [OF q, of "BufLk b" P] p by simp
  moreover have "quiet ?s" using q by simp
  moreover from this have "release BcacheLock P (released b (acquired BcacheLock ?s)) = Ret () (released b ?s)"
    by (rule release_quiet) (rule neutral_released)
  ultimately show ?thesis by (simp add: brelse_def released_def Let_def)
qed

lemma released_bufs:
  "c \<noteq> b \<Longrightarrow> same_buf (bufs (released b s) c) (bufs s c)"
  "same_buf (bufs (released b s) b) ((bufs s b)\<lparr>b_refcnt := b_refcnt (bufs s b) - 1\<rparr>)"
  by (simp_all add: released_def Let_def bcache_insert_links bcache_remove_links same_buf_def links_same)

lemma released_select [simp]: "sleeplocks (released b s) = sleeplocks s" "ptable (released b s) = ptable s" "mycpu (released b s) = mycpu s"
  "disk (released b s) = disk s" "disk_writes (released b s) = disk_writes s"
  "devregs (released b s) = devregs s" "bounce (released b s) = bounce s" "kend (released b s) = kend s"
  by (simp_all add: released_def Let_def bcache_insert_links bcache_remove_links mycpu_def set_buf_def)

lemma inv_released: "bcache_inv s \<Longrightarrow> b < NBUF \<Longrightarrow> bcache_inv (released b s)"
  using inv_front [of "set_buf b (\<lambda>q. q\<lparr>b_refcnt := b_refcnt q - 1\<rparr>) s" b] inv_touch [of s "\<lambda>q. q\<lparr>b_refcnt := b_refcnt q - 1\<rparr>" b]
  by (simp add: released_def Let_def)

lemma frame_released: "frame p s (released b s)"
  unfolding frame_def
proof (intro exI conjI allI impI)
  show "released b s = s\<lparr>mem := mem s, devregs := devregs s, disk := disk s, disk_writes := disk_writes s,
      sleeplocks := sleeplocks s, bufs := bufs (released b s), ptable := ptable s\<rparr>"
    by (simp add: released_def Let_def set_buf_def bcache_insert_links bcache_remove_links)
qed simp_all


lemma of_nat_dec: "0 < r \<Longrightarrow> (of_nat r :: u32) - 1 = of_nat (r - 1)"
  by (cases r) simp_all

lemma view_ok_rel:
  assumes v: "view_ok n v" and safe: "1 < vref v k \<or> vdata v k = vdisk v k"
  shows "view_ok n (v_rel k v)"
  unfolding view_ok_def
proof (intro conjI allI ballI impI)
  fix i assume i: "i \<in> vlocked (v_rel k v)"
  then have "i \<noteq> k" "0 < vref v i" using v by (auto simp: view_ok_def v_rel_def)
  then show "0 < vref (v_rel k v) i" by (simp add: v_rel_def)
next
  fix i assume "on_disk n i \<and> vref (v_rel k v) i = 0"
  then show "vdata (v_rel k v) i = vdisk (v_rel k v) i"
    using v safe by (cases "i = k"; cases "vref v k = 0") (auto simp: view_ok_def v_rel_def)
next
  fix i assume "0 < vref (v_rel k v) i"
  then have "0 < vref v i" "vref (v_rel k v) i \<le> vref v i" by (auto simp: v_rel_def split: if_splits)
  moreover from this have "on_disk n i" "vref v i < 4294967295" "vbuf v i < NBUF" using v by (auto simp: view_ok_def)
  ultimately show "on_disk n i" "vref (v_rel k v) i < 4294967295" "vbuf (v_rel k v) i < NBUF"
    by (simp_all add: v_rel_def)
qed (use v in \<open>simp add: view_ok_def v_rel_def\<close>)

lemma brelse_view:
  fixes s :: "'a bcache_scheme"
  assumes c: "cached n p d v s" and k: "k \<in> vlocked v" and safe: "1 < vref v k \<or> vdata v k = vdisk v k"
  shows "wp (brelse (vbuf v k)) P s (\<lambda>_ t. cached n p d (v_rel k v) t \<and> frame p s t \<and> wrote s t [])"
proof -
  let ?b = "vbuf v k"
  let ?s = "woken (Some p) (Some (SleepChan (BufLk ?b))) (set_sleeplock (BufLk ?b) given_back s)"
  let ?t = "released ?b ?s"
  note cs = cached_simps [OF c] note used = locked_used [OF c k]
  note b = cached_vbuf [OF c used] note q = cached_data [OF c used]
  have r: "brelse ?b P s = Ret () ?t" by (rule brelse_eq [OF cs(1,2) cached_lock [OF c k]])
  have sb: "same_buf (bufs ?t ?b) ((bufs s ?b)\<lparr>b_refcnt := b_refcnt (bufs s ?b) - 1\<rparr>)"
    using released_bufs(2) [of ?b ?s] by simp
  have rc: "b_refcnt (bufs ?t ?b) = of_nat (vref v k - 1)"
    using sb q(3) unfolding same_buf_def of_nat_dec [OF used, symmetric] by simp
  have "cached n p d (v_rel k v) ?t"
  proof (rule cached_change [OF c used refl])
    show "view_ok n (v_rel k v)" by (rule view_ok_rel [OF cs(6) safe])
    show "quiet ?t" using cs(1) by (simp add: quiet_neutral [OF neutral_released])
    show "disk_ok ?t" using cs(3) disk_ok_cong [of ?t s] by simp
    show "bcache_inv ?t" by (rule inv_released) (use cs(4) b(1) bcache_inv_bufs [of ?s s] in simp_all)
    show "\<forall>k'. on_disk n k' \<longrightarrow> vdisk (v_rel k v) k' = disk_block ?t k'"
      using c by (simp add: cached_def v_rel_def disk_block_def)
    show "\<forall>c. c \<noteq> ?b \<longrightarrow> same_buf (bufs ?t c) (bufs s c) \<and> sleeplocks ?t (BufLk c) = sleeplocks s (BufLk c)"
      using released_bufs(1) [of _ ?b ?s] by simp
    show "b_dev (bufs ?t ?b) = d" "b_blockno (bufs ?t ?b) = k" using sb b by (simp_all add: same_buf_def)
    show "buf_ok d (p_pid (ptable s p)) (v_rel k v) ?b (bufs ?t ?b) (sleeplocks ?t (BufLk ?b))"
      using sb b q used rc by (simp add: same_buf_def buf_ok_def v_rel_def given_back_def)
  qed (simp_all add: same_block_def v_rel_def)
  moreover have "frame p s ?t" by (rule frame_trans [OF frame_woken frame_released])
  ultimately show ?thesis by (simp add: wp_def r wrote_def)
qed

lemma critical_set_buf:
  assumes "quiet s"
  shows "bind (acquire BcacheLock) (\<lambda>_. bind (modify (set_buf b f)) (\<lambda>_. release BcacheLock)) P s = Ret () (set_buf b f s)"
  using assms release_quiet [OF assms neutral_set_buf, of BcacheLock P b f] by simp

lemma ref_view:
  fixes s :: "'a bcache_scheme"
  assumes c: "cached n p d v s" and k: "0 < vref v k" and r: "r < 4294967295" "0 < r \<or> k \<notin> vlocked v \<and> vdata v k = vdisk v k"
  shows "cached n p d (v\<lparr>vref := (vref v)(k := r)\<rparr>) (set_buf (vbuf v k) (\<lambda>q. q\<lparr>b_refcnt := of_nat r\<rparr>) s)"
proof -
  let ?b = "vbuf v k"
  note cs = cached_simps [OF c] note b = cached_vbuf [OF c k] note q = cached_data [OF c k]
  show ?thesis
  proof (rule cached_change [OF c k refl])
    show "view_ok n (v\<lparr>vref := (vref v)(k := r)\<rparr>)" using cs(6) r b by (auto simp: view_ok_def)
    show "bcache_inv (set_buf ?b (\<lambda>q. q\<lparr>b_refcnt := of_nat r\<rparr>) s)" using cs(4) by (intro inv_touch) simp_all
    show "buf_ok d (p_pid (ptable s p)) (v\<lparr>vref := (vref v)(k := r)\<rparr>) ?b
        (bufs (set_buf ?b (\<lambda>q. q\<lparr>b_refcnt := of_nat r\<rparr>) s) ?b) (sleeplocks (set_buf ?b (\<lambda>q. q\<lparr>b_refcnt := of_nat r\<rparr>) s) (BufLk ?b))"
      using cached_buf [OF c b(1)] b k by (simp add: buf_ok_def)
    show "\<forall>k'. on_disk n k' \<longrightarrow> vdisk (v\<lparr>vref := (vref v)(k := r)\<rparr>) k' = disk_block (set_buf ?b (\<lambda>q. q\<lparr>b_refcnt := of_nat r\<rparr>) s) k'"
      using c by (simp add: cached_def)
  qed (use cs b in \<open>simp_all add: same_block_def same_buf_def\<close>)
qed

lemma bpin_view:
  fixes s :: "'a bcache_scheme"
  assumes c: "cached n p d v s" and k: "0 < vref v k" "vref v k < 4294967294"
  shows "wp (bpin (vbuf v k)) P s (\<lambda>_ t. cached n p d (v_pin k v) t \<and> frame p s t \<and> wrote s t [])"
proof -
  note cs = cached_simps [OF c]
  have "set_buf (vbuf v k) (\<lambda>q. q\<lparr>b_refcnt := b_refcnt q + 1\<rparr>) s = set_buf (vbuf v k) (\<lambda>q. q\<lparr>b_refcnt := of_nat (vref v k + 1)\<rparr>) s"
    using cached_data [OF c k(1)] by (simp add: set_buf_def add.commute)
  then show ?thesis using critical_set_buf [OF cs(1)] ref_view [OF c k(1), of "vref v k + 1"] k
    by (simp add: bpin_def wp_def v_pin_def wrote_def)
qed

lemma bunpin_view:
  fixes s :: "'a bcache_scheme"
  assumes c: "cached n p d v s" and k: "0 < vref v k" and safe: "1 < vref v k \<or> k \<notin> vlocked v \<and> vdata v k = vdisk v k"
  shows "wp (bunpin (vbuf v k)) P s (\<lambda>_ t. cached n p d (v_unpin k v) t \<and> frame p s t \<and> wrote s t [])"
proof -
  note cs = cached_simps [OF c]
  have "set_buf (vbuf v k) (\<lambda>q. q\<lparr>b_refcnt := b_refcnt q - 1\<rparr>) s = set_buf (vbuf v k) (\<lambda>q. q\<lparr>b_refcnt := of_nat (vref v k - 1)\<rparr>) s"
    by (simp only: set_buf_def cached_data(3) [OF c k] of_nat_dec [OF k])
  then show ?thesis using critical_set_buf [OF cs(1)] ref_view [OF c k, of "vref v k - 1"] k safe cached_vbuf [OF c k]
    by (simp add: bunpin_def wp_def v_unpin_def wrote_def)
qed

end
