(* ===== verification/Ring.thy ===== *)
theory Ring
  imports Prelude
begin

text \<open>
  Byte rings with free-running indices, as pipes and the console use them: the bytes between the
  read index \<open>r\<close> and the write index \<open>w\<close> lie at the indices modulo the size. The indices are 32-bit
  and wrap around; the size divides \<open>2 ^ 32\<close>, so the slots wrap with them. \<open>ring_bytes\<close> reads a ring
  as the queue it implements, and the lemmas of the locale \<open>byte_ring\<close> say what storing a byte at the
  write index and stepping the read index do to that queue.
\<close>

definition ring_ok :: "u32 \<Rightarrow> u8 list \<Rightarrow> u32 \<Rightarrow> u32 \<Rightarrow> bool" where
  "ring_ok N xs r w \<longleftrightarrow> length xs = unat N \<and> w - r \<le> N"

definition ring_bytes :: "u32 \<Rightarrow> u8 list \<Rightarrow> u32 \<Rightarrow> u32 \<Rightarrow> u8 list" where
  "ring_bytes N xs r w = map (\<lambda>k. xs ! unat ((r + of_nat k) mod N)) [0..<unat (w - r)]"

lemma length_ring_bytes [simp]: "length (ring_bytes N xs r w) = unat (w - r)"
  by (simp add: ring_bytes_def)

locale byte_ring =
  fixes N :: u32
  assumes N_pos: "0 < unat N" and N_dvd: "unat N dvd 4294967296"
begin

lemma unat_slot: "unat ((a :: u32) mod N) = unat a mod unat N" "unat (a mod N) < unat N"
  using N_pos by (simp_all add: unat_mod_distrib)

lemma slot_add: "unat ((a + b) mod N) = (unat a + unat b) mod unat N"
proof -
  have "unat (a + b) mod unat N = (unat a + unat b) mod 4294967296 mod unat N"
    by (simp add: unat_word_ariths)
  also have "\<dots> = (unat a + unat b) mod unat N" using N_dvd by (rule mod_mod_cancel)
  finally show ?thesis by (simp add: unat_slot)
qed

text \<open>Different places of a ring that is not over-full have different slots.\<close>

lemma slot_inj:
  assumes "i < j" "j < unat N"
  shows "unat ((r + of_nat i) mod N) \<noteq> unat ((r + of_nat j) mod N)"
proof
  assume e: "unat ((r + of_nat i) mod N) = unat ((r + of_nat j) mod N)"
  have "unat N \<le> 4294967296" using N_dvd by (simp add: dvd_imp_le)
  then have "unat (of_nat i :: u32) = i" "unat (of_nat j :: u32) = j"
    using assms by (simp_all add: unat_of_nat take_bit_eq_mod)
  then have "(unat r + i) mod unat N = (unat r + j) mod unat N" using e by (simp add: slot_add)
  then have "unat N dvd (unat r + j) - (unat r + i)"
    using assms(1) by (metis less_or_eq_imp_le mod_eq_dvd_iff_nat nat_add_left_cancel_le)
  then have "unat N dvd j - i" by simp
  then show False using assms by (auto dest: dvd_imp_le)
qed

lemma empty_iff: "ring_bytes N xs r w = [] \<longleftrightarrow> r = w"
  by (auto simp: ring_bytes_def unat_eq_zero)

lemma room_iff: "ring_ok N xs r w \<Longrightarrow> w - r < N \<longleftrightarrow> w \<noteq> r + N"
  by (auto simp: ring_ok_def order_less_le diff_eq_eq add.commute)

lemma put_bytes:
  assumes ok: "ring_ok N xs r w" and room: "w - r < N"
  shows "ring_bytes N (xs[unat (w mod N) := c]) r (w + 1) = ring_bytes N xs r w @ [c]"
proof -
  let ?n = "unat (w - r)"
  have n: "?n < unat N" using room by (simp add: word_less_nat_alt)
  have nn: "Suc ?n < 4294967296" using n unat_u32_less [of N] by linarith
  have w: "r + of_nat ?n = w" by simp
  have "unat ((w - r) + 1) = Suc ?n" using nn by (simp add: unat_word_ariths)
  then have len: "unat (w + 1 - r) = Suc ?n" by (simp add: algebra_simps)
  have "xs[unat (w mod N) := c] ! unat ((r + of_nat k) mod N) = xs ! unat ((r + of_nat k) mod N)" if "k < ?n" for k
    using slot_inj [OF that n, of r] w by simp
  moreover have "xs[unat (w mod N) := c] ! unat ((r + of_nat ?n) mod N) = c"
    unfolding w using ok unat_slot(2) [of w] by (simp add: ring_ok_def)
  ultimately show ?thesis by (simp add: ring_bytes_def len)
qed

lemma put_ok:
  assumes ok: "ring_ok N xs r w" and room: "w - r < N"
  shows "ring_ok N (xs[k := c]) r (w + 1)"
proof -
  have "w - r + 1 \<le> N" using room by (simp add: word_less_nat_alt inc_le)
  then show ?thesis using ok by (simp add: ring_ok_def algebra_simps)
qed

lemma get_bytes:
  assumes "r \<noteq> w"
  shows "ring_bytes N xs r w = xs ! unat (r mod N) # ring_bytes N xs (r + 1) w"
proof -
  have p: "0 < unat (w - r)" using assms by (simp add: unat_gt_0)
  have "unat (w - r - 1) = unat (w - r) - 1" using p by (simp add: unat_minus_one unat_gt_0)
  then have l: "unat (w - r) = Suc (unat (w - (r + 1)))" using p by (simp add: algebra_simps)
  show ?thesis unfolding ring_bytes_def l
    by (subst upt_conv_Cons, simp) (simp add: map_Suc_upt [symmetric] comp_def algebra_simps del: upt_Suc)
qed

lemma get_ok: "ring_ok N xs r w \<Longrightarrow> r \<noteq> w \<Longrightarrow> ring_ok N xs (r + 1) w"
proof -
  assume a: "ring_ok N xs r w" "r \<noteq> w"
  have "w - r - 1 \<le> w - r" using a(2) by (simp add: word_le_nat_alt unat_minus_one)
  then show ?thesis using a by (auto simp: ring_ok_def algebra_simps intro: order_trans)
qed

text \<open>Taking back the last byte.\<close>

lemma back_bytes:
  assumes "ring_ok N xs r w" "r \<noteq> w"
  shows "ring_bytes N xs r (w - 1) = butlast (ring_bytes N xs r w)" "ring_ok N xs r (w - 1)"
proof -
  have p: "0 < unat (w - r)" using assms by (simp add: unat_gt_0)
  then have "unat (w - r - 1) = unat (w - r) - 1" by (simp add: unat_minus_one unat_gt_0)
  then have l: "unat (w - 1 - r) = unat (w - r) - 1" by (metis diff_right_commute)
  obtain n where n: "unat (w - r) = Suc n" using p gr0_conv_Suc by blast
  then show "ring_bytes N xs r (w - 1) = butlast (ring_bytes N xs r w)"
    by (simp add: ring_bytes_def l)
  show "ring_ok N xs r (w - 1)" using assms(1) l n by (simp add: ring_ok_def word_le_nat_alt)
qed

lemma split_bytes:
  assumes "w - r \<le> e - r"
  shows "ring_bytes N xs r e = ring_bytes N xs r w @ ring_bytes N xs w e"
proof -
  have "unat ((e - r) - (w - r)) = unat (e - r) - unat (w - r)" using assms by (rule unat_sub)
  then have l: "unat (e - r) = unat (w - r) + unat (e - w)" using assms by (simp add: word_le_nat_alt)
  have "[0..<unat (w - r) + unat (e - w)] = [0..<unat (w - r)] @ map (\<lambda>k. k + unat (w - r)) [0..<unat (e - w)]"
    using upt_add_eq_append [of 0 "unat (w - r)" "unat (e - w)"] by (simp add: map_add_upt add.commute)
  moreover have "r + (of_nat k + of_nat (unat (w - r))) = w + of_nat k" for k by simp
  ultimately show ?thesis by (simp add: ring_bytes_def l add.commute)
qed

end

end
