(* ===== verification/VmProps.thy ===== *)
theory VmProps
  imports UserCopy
begin

text \<open>
  The properties of virtual memory, stated over \<open>kernel/vm.c\<close>'s operations, and concrete
  machines on which they apply.
\<close>

section \<open>Machines for the examples\<close>

text \<open>An empty page table at \<open>ept\<close>, two free pages.\<close>

abbreviation ept :: u32 where "ept \<equiv> 0x03E7B000"

lemma entry_zero: "entry (\<lambda>_. 0) pt x = 0"
  by (simp add: entry_def load32_def)

lemma entry_kmem2: "x < 1024 \<Longrightarrow> entry (mem kmem2) ept x = 0"
proof -
  assume x: "x < 1024"
  have "entry (mem kmem2) ept x = entry (\<lambda>_. 0) ept x"
  proof (rule entry_cong [OF _ x])
    fix a assume a: "PGROUNDDOWN a = ept"
    show "mem kmem2 a = 0"
      using store32_other_page [of "0x03E7D000" a "\<lambda>_. 0" "0x03E7C000"] a
      by (simp add: kmem2_def unat_aligned4 PGROUNDDOWN_def PGSIZE_def)
  qed (simp add: unat_page_aligned)
  then show ?thesis by (simp add: entry_zero)
qed

lemma leaf_kmem2: "leaf (mem kmem2) ept va = 0"
  by (simp add: leaf_def entry_kmem2)

lemma pt_pages_kmem2: "pt_pages (mem kmem2) ept = {ept}"
  using entry_kmem2 by (auto simp: pt_pages_def)

lemma owns_kmem2: "owns kmem2 ept D [0x03E7D000, 0x03E7C000]"
proof -
  have "pt_wf (mem kmem2) ept" by (simp add: pt_wf_def entry_kmem2 unat_page_aligned)
  moreover have "page_ok (kend kmem2) ept"
    by (simp add: kmem2_def kmem0_def kmem.defs mach.defs page_ok_def unat_page_aligned PHYSTOP_def)
  ultimately show ?thesis
    using pool_kmem2 by (simp add: owns_def vm_inv_def leaf_kmem2 pt_pages_kmem2)
qed

text \<open>A table with one user page: virtual page 0 is the page at 0x03E79000.\<close>

definition one_page :: memory where
  "one_page = store32 (store32 (\<lambda>_. 0) (ept + 4 * 0) (0x03E7A000 OR PTE_V))
     (0x03E7A000 + 4 * 0) (0x03E79000 OR PTE_R OR PTE_W OR PTE_U OR PTE_V)"

lemma entry_one_page:
  "x < 1024 \<Longrightarrow> entry one_page ept x = (if x = 0 then 0x03E7A001 else 0)"
  "x < 1024 \<Longrightarrow> entry one_page 0x03E7A000 x = (if x = 0 then 0x03E79161 else 0)"
  unfolding one_page_def
  by (simp_all add: entry_store unat_page_aligned entry_zero pte_defs del: mult_zero_right)

lemma leaf_one_page: "leaf one_page ept va = (if PGROUNDDOWN va = 0 then 0x03E79161 else 0)"
proof -
  have a: "PTE2PA 0x03E7A001 = 0x03E7A000" by (simp add: PTE2PA_eq PGROUNDDOWN_def PGSIZE_def)
  have v: "valid 0x03E7A001" by (simp add: valid_def PTE_V_def)
  have z: "PGROUNDDOWN va = 0 \<longleftrightarrow> PX (Suc 0) va = 0 \<and> PX 0 va = 0"
    using PX_same_page [of va 0] by (simp add: PX_def PGROUNDDOWN_def)
  show ?thesis by (simp add: leaf_def Let_def entry_one_page a v z)
qed

lemma uvalid_one_page: "uvalid one_page ept va \<longleftrightarrow> PGROUNDDOWN va = 0"
proof -
  have "va < MAXVA" if "PGROUNDDOWN va = 0" using MAXVA_page [of va] that by (simp add: MAXVA_def)
  then show ?thesis by (auto simp: uvalid_def leaf_one_page valid_def pte_defs)
qed

lemma data_one_page: "PGROUNDDOWN va = 0 \<Longrightarrow> data_page one_page ept va = 0x03E79000"
  by (simp add: data_page_def leaf_one_page PTE2PA_eq PGROUNDDOWN_def PGSIZE_def)

lemma uspace_one_page: "uspace_ok one_page ept"
proof -
  have p: "PTE2PA 0x03E7A001 = 0x03E7A000" by (simp add: PTE2PA_eq PGROUNDDOWN_def PGSIZE_def)
  have "pt_wf one_page ept"
    by (auto simp: pt_wf_def entry_one_page unat_page_aligned p pte_defs)
  moreover have "pt_pages one_page ept \<subseteq> {ept, 0x03E7A000}"
    by (auto simp: pt_pages_def entry_one_page p split: if_splits)
  ultimately show ?thesis
    by (auto simp: uspace_ok_def uvalid_one_page data_one_page)
qed

lemma writable_one_page:
  assumes "unat va + n \<le> 4096"
  shows "writable one_page ept va n"
proof -
  have "PGROUNDDOWN (va + of_nat i) = 0" if "i < n" for i
  proof -
    have "unat (va + of_nat i) < 4096" using assms that unat_add_nat [of va i] by simp
    then show ?thesis by (simp add: word_unat_eq_iff unat_PGROUNDDOWN)
  qed
  then show ?thesis
    using assms by (simp add: writable_def accessible_def uvalid_one_page leaf_one_page pte_defs)
qed

section \<open>Properties\<close>

lemma map_range_at:
  assumes "page_aligned va" "page_aligned pa" "unat perm < 4096" "i < 4096 * n" "4096 * n \<le> 2147483648"
  shows "PTE2PA (map_range va n pa perm f (va + of_nat i)) = pa + of_nat (i - i mod 4096)"
    "PTE_FLAGS (map_range va n pa perm f (va + of_nat i)) = perm OR PTE_V"
    "valid (map_range va n pa perm f (va + of_nat i))"
proof -
  have u: "unat (of_nat i :: u32) = i" using assms(4,5) by (simp add: unat_of_nat take_bit_eq_mod)
  have off: "PGROUNDDOWN (va + of_nat i) - va = of_nat (i - i mod 4096)"
  proof -
    have m: "(va + of_nat i) mod 4096 = of_nat (i mod 4096)"
    proof -
      obtain q where q: "unat va = 4096 * q" using assms(1) by (auto simp: unat_page_aligned mod_eq_0_iff_dvd)
      have "unat (va + of_nat i) mod 4096 = i mod 4096"
        using q u by (simp add: unat_word_ariths mod_mod_cancel)
      then have "unat ((va + of_nat i) mod 4096) = i mod 4096" by (simp add: unat_mod_distrib)
      then show ?thesis by (metis of_nat_unat_u32)
    qed
    show ?thesis unfolding PGROUNDDOWN_alt m by (simp add: of_nat_diff)
  qed
  have al: "page_aligned (pa + of_nat (i - i mod 4096))"
  proof -
    obtain q where q: "unat pa = 4096 * q" using assms(2) by (auto simp: unat_page_aligned mod_eq_0_iff_dvd)
    have "unat (of_nat (i - i mod 4096) :: u32) = 4096 * (i div 4096)"
      using assms(4,5) by (simp add: unat_of_nat take_bit_eq_mod minus_mod_eq_mult_div del: of_nat_mult)
    then show ?thesis
      unfolding unat_page_aligned unat_word_ariths q by (simp add: mod_mod_cancel mod_eq_0_iff_dvd)
  qed
  have fl: "unat (perm OR PTE_V) < 4096" using assms(3) by (simp add: flags_or)
  have "map_range va n pa perm f (va + of_nat i) = PA2PTE (pa + of_nat (i - i mod 4096)) OR (perm OR PTE_V)"
    using assms(4) u off by (simp add: map_range_def)
  with pte_make [OF al fl]
  show "PTE2PA (map_range va n pa perm f (va + of_nat i)) = pa + of_nat (i - i mod 4096)"
    "PTE_FLAGS (map_range va n pa perm f (va + of_nat i)) = perm OR PTE_V"
    "valid (map_range va n pa perm f (va + of_nat i))" by simp_all
qed

text \<open>C7: \<open>mappages\<close> installs exactly the mapping it is asked for. For \<open>n\<close> unmapped pages below
  \<open>MAXVA\<close> it returns 0, and then every address of the range translates to the corresponding
  physical address with the permissions asked for, or it returns -1 because no page was left for a
  second-level table. In both cases the translation of every address outside the range is
  unchanged, the table stays well-formed and memory outside the table's pages is untouched.\<close>

theorem mappages_maps:
  assumes inv: "vm_inv s pt ps" and al: "page_aligned va" "page_aligned pa" and n: "0 < n" "unat va + 4096 * n \<le> 2147483648"
    and perm: "unat perm < 4096" and unmapped: "\<forall>vb. unat (vb - va) < 4096 * n \<longrightarrow> \<not> valid (leaf (mem s) pt vb)"
  shows "wp (mappages pt va (of_nat n * PGSIZE) pa perm) P s (\<lambda>r t.
    (r = 0 \<and> (\<forall>i < 4096 * n. valid (leaf (mem t) pt (va + of_nat i))
        \<and> PTE2PA (leaf (mem t) pt (va + of_nat i)) = pa + of_nat (i - i mod 4096)
        \<and> PTE_FLAGS (leaf (mem t) pt (va + of_nat i)) = perm OR PTE_V)
     \<or> r = -1 \<and> pool t [])
    \<and> pt_wf (mem t) pt
    \<and> (\<forall>vb. 4096 * n \<le> unat (vb - va) \<longrightarrow> leaf (mem t) pt vb = leaf (mem s) pt vb)
    \<and> (\<forall>x. PGROUNDDOWN x \<notin> pt_pages (mem t) pt \<longrightarrow> mem t x = mem s x))"
proof -
  have "wp (mappages pt va (of_nat n * PGSIZE) pa perm) P s (mapped pt va n pa perm s ps)"
    by (rule mappages_spec [OF inv]) (use al n unmapped in \<open>auto simp: range_ok_def\<close>)
  then show ?thesis
  proof (rule wp_mono)
    fix r :: int and t assume "mapped pt va n pa perm s ps r t"
    then obtain qs k where g: "grows pt s ps t qs" and l: "leaf (mem t) pt = map_range va k pa perm (leaf (mem s) pt)"
      and c: "r = 0 \<and> k = n \<or> r = -1 \<and> k < n \<and> qs = []" by (auto simp: mapped_def)
    have inv': "vm_inv t pt qs" using g by (simp add: grows_def)
    have "4096 * n \<le> 2147483648" using n(2) by simp
    note at = map_range_at [OF al perm _ this, of _ "leaf (mem s) pt"]
    have "r = 0 \<and> (\<forall>i < 4096 * n. valid (leaf (mem t) pt (va + of_nat i))
        \<and> PTE2PA (leaf (mem t) pt (va + of_nat i)) = pa + of_nat (i - i mod 4096)
        \<and> PTE_FLAGS (leaf (mem t) pt (va + of_nat i)) = perm OR PTE_V)
     \<or> r = -1 \<and> pool t []"
      using c at inv' by (auto simp: l vm_inv_def)
    moreover have "leaf (mem t) pt vb = leaf (mem s) pt vb" if "4096 * n \<le> unat (vb - va)" for vb
      using that c by (auto simp: l map_range_def)
    ultimately show "(r = 0 \<and> (\<forall>i < 4096 * n. valid (leaf (mem t) pt (va + of_nat i))
        \<and> PTE2PA (leaf (mem t) pt (va + of_nat i)) = pa + of_nat (i - i mod 4096)
        \<and> PTE_FLAGS (leaf (mem t) pt (va + of_nat i)) = perm OR PTE_V)
     \<or> r = -1 \<and> pool t [])
    \<and> pt_wf (mem t) pt
    \<and> (\<forall>vb. 4096 * n \<le> unat (vb - va) \<longrightarrow> leaf (mem t) pt vb = leaf (mem s) pt vb)
    \<and> (\<forall>x. PGROUNDDOWN x \<notin> pt_pages (mem t) pt \<longrightarrow> mem t x = mem s x)"
      using g inv' by (auto simp: grows_def vm_inv_def)
  qed
qed

theorem mappages_maps_witness:
  "wp (mappages ept 0x5000 (of_nat 1 * PGSIZE) 0x03E78000 PTE_R) bare kmem2 (\<lambda>r t.
    r = 0 \<and> PTE2PA (leaf (mem t) ept 0x5010) = 0x03E78000 \<or> r = -1 \<and> pool t [])"
proof -
  have inv: "vm_inv kmem2 ept [0x03E7D000, 0x03E7C000]"
    using owns_kmem2 [of "\<lambda>_. True"] by (rule owns_vm_inv)
  show ?thesis
  proof (rule wp_mono [OF mappages_maps [OF inv, where pa = "0x03E78000" and n = 1]], goal_cases)
    case (7 r t)
    then show ?case by (auto dest!: spec [of _ "16::nat"])
  qed (simp_all add: unat_page_aligned leaf_kmem2)
qed



text \<open>C9: \<open>uvmfree\<close> gives back everything and frees nothing twice. When all mapped pages of a table
  lie below \<open>sz\<close>, \<open>uvmfree\<close> returns with exactly the pages that were free before, the data pages of
  the address space and the pages of the page table itself on the free list, each once; all other
  memory is untouched.\<close>

theorem uvmfree_no_leak:
  assumes o: "owns s pt D ps" and sz: "unat sz \<le> 2147483648"
    and below: "\<forall>va. valid (leaf (mem s) pt va) \<longrightarrow> unat va < 4096 * npg sz"
    and D: "\<forall>va. page_aligned va \<and> unat va < 4096 * npg sz \<longrightarrow> D va"
  shows "wp (uvmfree pt sz) P s (\<lambda>_ t.
    (\<exists>qs. pool t qs \<and> distinct qs \<and>
       set qs = set ps \<union> {data_page (mem s) pt va | va. page_aligned va \<and> valid (leaf (mem s) pt va)} \<union> pt_pages (mem s) pt)
    \<and> (\<forall>x. (\<forall>va. valid (leaf (mem s) pt va) \<longrightarrow> PGROUNDDOWN x \<noteq> data_page (mem s) pt va)
          \<and> PGROUNDDOWN x \<notin> pt_pages (mem s) pt \<longrightarrow> mem t x = mem s x))"
proof (rule wp_mono [OF uvmfree_spec [OF o sz]], goal_cases)
  case (3 _ t)
  have r: "range_pages (mem s) pt 0 (npg sz) = {data_page (mem s) pt va | va. page_aligned va \<and> valid (leaf (mem s) pt va)}"
    using below by (auto simp: range_pages_def)
  from 3 obtain qs where "pool t qs" "set qs = set ps \<union> range_pages (mem s) pt 0 (npg sz) \<union> pt_pages (mem s) pt"
    by blast
  moreover have "distinct qs" using \<open>pool t qs\<close> by (rule ka.pool_distinct)
  ultimately show ?case using 3 unfolding r by (intro conjI exI [of _ qs]) auto
qed (use below D in auto)

theorem uvmfree_no_leak_witness:
  "wp (uvmfree ept 0x2000) bare kmem2 (\<lambda>_ t. \<exists>qs. pool t qs \<and> distinct qs \<and>
     set qs = {0x03E7D000, 0x03E7C000, ept})"
  by (rule wp_mono [OF uvmfree_no_leak [OF owns_kmem2 [of "\<lambda>_. True"], of "0x2000"]])
    (auto simp: leaf_kmem2 pt_pages_kmem2)

text \<open>C10: \<open>uvmcopy\<close> gives a child a private, equal copy of the parent's memory. When it returns 0,
  every page the parent has mapped below \<open>sz\<close> is mapped in the child with the same flags to a page
  with the same contents, a page that is not the parent's; pages the parent has not mapped are not
  mapped in the child; and the parent's translations and contents are unchanged. When it returns
  -1, the pages taken for the child have been given back.\<close>

theorem uvmcopy_isolated:
  assumes c: "copy_pre s old new (npg sz) ps" and o: "owns s new D ps" and sz: "unat sz \<le> 2147483648"
    and D: "\<forall>va. page_aligned va \<and> unat va < 4096 * npg sz \<longrightarrow> D va"
  shows "wp (uvmcopy old new sz) P s (\<lambda>r t.
    (r = 0 \<and> (\<exists>qs. owns t new D qs)
       \<and> (\<forall>va. page_aligned va \<and> unat va < 4096 * npg sz \<longrightarrow>
           (if valid (leaf (mem s) old va)
            then valid (leaf (mem t) new va) \<and> PTE_FLAGS (leaf (mem t) new va) = PTE_FLAGS (leaf (mem s) old va)
              \<and> data_page (mem t) new va \<noteq> data_page (mem s) old va
              \<and> (\<forall>i < 4096. mem t (data_page (mem t) new va + of_nat i) = mem s (data_page (mem s) old va + of_nat i))
            else \<not> valid (leaf (mem t) new va)))
     \<or> r = -1 \<and> (\<exists>qs. owns t new D qs \<and> set qs \<union> pt_pages (mem t) new = set ps \<union> pt_pages (mem s) new))
    \<and> (\<forall>va. leaf (mem t) old va = leaf (mem s) old va)
    \<and> (\<forall>va x. page_aligned va \<and> unat va < 4096 * npg sz \<and> valid (leaf (mem s) old va)
         \<and> PGROUNDDOWN x = data_page (mem s) old va \<longrightarrow> mem t x = mem s x))"
proof (rule wp_mono [OF uvmcopy_spec [OF c o sz]], goal_cases)
  case (2 r t)
  have out: "\<forall>x. PGROUNDDOWN x \<notin> set ps \<union> pt_pages (mem s) new \<longrightarrow> mem t x = mem s x"
    using 2 by (auto simp: added_def restored_def)
  have al: "page_aligned old" using c by (simp add: copy_pre_def pt_wf_def)
  have "mem t x = mem s x" if "PGROUNDDOWN x \<in> pt_pages (mem s) old" for x
    using that c out by (auto simp: copy_pre_def)
  from pt_cong(1) [OF al, of "mem s" "mem t", OF this] have parent: "\<forall>va. leaf (mem t) old va = leaf (mem s) old va" by blast
  have data: "mem t x = mem s x" if "page_aligned va" "unat va < 4096 * npg sz" "valid (leaf (mem s) old va)"
    "PGROUNDDOWN x = data_page (mem s) old va" for va x
  proof -
    have "PGROUNDDOWN x \<in> range_pages (mem s) old 0 (npg sz)" using that by (auto simp: range_pages_def)
    then show ?thesis using c out by (auto simp: copy_pre_def)
  qed
  show ?case
  proof (cases "r = 0")
    case True
    then obtain qs where a: "added new D 0 (copy_src (mem s) old) s ps (npg sz) t qs" using 2 by auto
    have "if valid (leaf (mem s) old va)
        then valid (leaf (mem t) new va) \<and> PTE_FLAGS (leaf (mem t) new va) = PTE_FLAGS (leaf (mem s) old va)
          \<and> data_page (mem t) new va \<noteq> data_page (mem s) old va
          \<and> (\<forall>i < 4096. mem t (data_page (mem t) new va + of_nat i) = mem s (data_page (mem s) old va + of_nat i))
        else \<not> valid (leaf (mem t) new va)" if va: "page_aligned va" "unat va < 4096 * npg sz" for va
    proof -
      have src: "as_src (mem t) new va (copy_src (mem s) old va)" using a va by (simp add: added_def)
      show ?thesis
      proof (cases "valid (leaf (mem s) old va)")
        case v: True
        have "data_page (mem t) new va \<in> range_pages (mem t) new 0 (npg sz)"
          using src v va by (auto simp: range_pages_def as_src_def copy_src_def)
        then have "data_page (mem t) new va \<in> set ps \<union> pt_pages (mem s) new" using a by (auto simp: added_def)
        moreover have "data_page (mem s) old va \<in> range_pages (mem s) old 0 (npg sz)"
          using v va by (auto simp: range_pages_def)
        ultimately have "data_page (mem t) new va \<noteq> data_page (mem s) old va" using c by (auto simp: copy_pre_def)
        moreover have "PGROUNDDOWN (data_page (mem t) new va + of_nat i) = data_page (mem t) new va" if "i < 4096" for i
          using that by (intro page_offset) (simp_all add: data_page_def)
        ultimately show ?thesis using src v by (simp add: as_src_def copy_src_def)
      qed (use src in \<open>simp add: as_src_def copy_src_def\<close>)
    qed
    moreover have "owns t new D qs" using a by (simp add: added_def)
    ultimately show ?thesis using True parent data by blast
  next
    case False
    then have "r = -1" "restored new D s ps t" using 2 by auto
    then show ?thesis using parent data unfolding restored_def by blast
  qed
qed (use D in auto)

text \<open>A parent with the one user page, a child with an empty table, two free pages.\<close>

definition kmem3 :: kmem where
  "kmem3 = kmem2\<lparr>mem := store32 one_page 0x03E7D000 0x03E7C000\<rparr>"

abbreviation cpt :: u32 where "cpt \<equiv> 0x03E78000"

lemma mem_kmem3: "PGROUNDDOWN x \<noteq> 0x03E7D000 \<Longrightarrow> mem kmem3 x = one_page x"
  by (simp add: kmem3_def store32_other_page unat_aligned4 unat_page_aligned)

lemma one_page_other: "PGROUNDDOWN x \<noteq> ept \<Longrightarrow> PGROUNDDOWN x \<noteq> 0x03E7A000 \<Longrightarrow> one_page x = 0"
  unfolding one_page_def by (simp add: store32_other_page unat_aligned4 unat_page_aligned)

lemma pt_pages_one_page: "pt_pages one_page ept \<subseteq> {ept, 0x03E7A000}"
  by (auto simp: pt_pages_def entry_one_page PTE2PA_eq PGROUNDDOWN_def PGSIZE_def split: if_splits)

lemma parent_kmem3:
  "leaf (mem kmem3) ept va = leaf one_page ept va" "pt_pages (mem kmem3) ept = pt_pages one_page ept"
  "pt_wf (mem kmem3) ept"
proof -
  have same: "mem kmem3 a = one_page a" if "PGROUNDDOWN a \<in> pt_pages one_page ept" for a
    using that pt_pages_one_page by (intro mem_kmem3) auto
  have al: "page_aligned ept" by (simp add: unat_page_aligned)
  note c = pt_cong [OF al, of one_page "mem kmem3", OF same]
  show "leaf (mem kmem3) ept va = leaf one_page ept va" by (rule c(1))
  show "pt_pages (mem kmem3) ept = pt_pages one_page ept" by (rule c(2))
  show "pt_wf (mem kmem3) ept" using c(3) uspace_one_page by (simp add: uspace_ok_def)
qed

lemma child_kmem3: "x < 1024 \<Longrightarrow> entry (mem kmem3) cpt x = 0"
proof -
  assume x: "x < 1024"
  have "entry (mem kmem3) cpt x = entry (\<lambda>_. 0) cpt x"
    by (rule entry_cong [OF _ x]) (simp_all add: unat_page_aligned mem_kmem3 one_page_other)
  then show ?thesis by (simp add: entry_zero)
qed

lemma owns_kmem3: "owns kmem3 cpt D [0x03E7D000, 0x03E7C000]"
proof -
  have l: "leaf (mem kmem3) cpt va = 0" "pt_pages (mem kmem3) cpt = {cpt}" for va
    by (auto simp: leaf_def child_kmem3 pt_pages_def)
  have "load32 (mem kmem3) 0x03E7C000 = load32 (\<lambda>_. 0) 0x03E7C000"
    by (rule load32_page_cong) (simp_all add: unat_aligned4 unat_page_aligned mem_kmem3 one_page_other)
  then have "load32 (mem kmem3) 0x03E7C000 = 0" by (simp add: load32_def [of "\<lambda>_. 0"])
  moreover have "load32 (mem kmem3) 0x03E7D000 = 0x03E7C000" by (simp add: kmem3_def)
  ultimately have "links (mem kmem3) 0x03E7D000 [0x03E7D000, 0x03E7C000]" by simp
  then have "pool kmem3 [0x03E7D000, 0x03E7C000]"
    using pool_kmem2 by (simp add: pool_def free_list_def kmem3_def)
  moreover have "pt_wf (mem kmem3) cpt" by (simp add: pt_wf_def child_kmem3 unat_page_aligned)
  moreover have "page_ok (kend kmem3) cpt"
    by (simp add: kmem3_def kmem2_def kmem0_def kmem.defs mach.defs page_ok_def unat_page_aligned PHYSTOP_def)
  ultimately show ?thesis by (simp add: owns_def vm_inv_def l)
qed

lemma copy_pre_kmem3: "copy_pre kmem3 ept cpt (npg 0x1000) [0x03E7D000, 0x03E7C000]"
proof -
  have l: "leaf (mem kmem3) cpt va = 0" "pt_pages (mem kmem3) cpt = {cpt}" for va
    by (auto simp: leaf_def child_kmem3 pt_pages_def)
  have "range_pages (mem kmem3) ept 0 n \<subseteq> {0x03E79000}" for n
  proof
    fix p assume "p \<in> range_pages (mem kmem3) ept 0 n"
    then obtain va where "valid (leaf one_page ept va)" "p = PTE2PA (leaf one_page ept va)"
      by (auto simp: range_pages_def data_page_def parent_kmem3(1))
    then show "p \<in> {0x03E79000}"
      by (auto simp: leaf_one_page PTE2PA_eq PGROUNDDOWN_def PGSIZE_def split: if_splits)
  qed
  then have "range_pages (mem kmem3) ept 0 (npg 0x1000) \<inter> {0x03E7D000, 0x03E7C000, cpt} = {}" by fastforce
  moreover have "pt_pages (mem kmem3) ept \<inter> {0x03E7D000, 0x03E7C000, cpt} = {}"
    unfolding parent_kmem3(2) using pt_pages_one_page by fastforce
  ultimately show ?thesis using parent_kmem3(3) by (auto simp: copy_pre_def l)
qed

theorem uvmcopy_isolated_witness:
  "wp (uvmcopy ept cpt 0x1000) bare kmem3 (\<lambda>r t.
    r = -1 \<or> r = 0 \<and> valid (leaf (mem t) cpt 0)
      \<and> mem t (data_page (mem t) cpt 0 + 7) = mem kmem3 (data_page (mem kmem3) ept 0 + 7))"
proof (rule wp_mono [OF uvmcopy_isolated [OF copy_pre_kmem3 owns_kmem3 [of "\<lambda>_. True"]]], goal_cases)
  case (3 r t)
  have v: "valid (leaf (mem kmem3) ept 0)" "page_aligned 0" "unat 0 < 4096 * npg 0x1000"
    by (simp_all add: parent_kmem3(1) leaf_one_page valid_def PTE_V_def PGROUNDDOWN_def unat_page_aligned npg_def)
  show ?case
  proof (cases "r = 0")
    case True
    with 3 v have "valid (leaf (mem t) cpt 0)"
      "\<forall>i < 4096. mem t (data_page (mem t) cpt 0 + of_nat i) = mem kmem3 (data_page (mem kmem3) ept 0 + of_nat i)"
      by (auto dest!: spec [of _ "0::u32"])
    with True show ?thesis by (auto dest!: spec [of _ "7::nat"])
  qed (use 3 in auto)
qed simp_all

text \<open>C11: Copying between kernel and user space. If the user may write the \<open>length src\<close> bytes at
  \<open>va\<close>, \<open>copyout\<close> succeeds, across page boundaries; afterwards the user reads \<open>src\<close> there, every
  other user address reads as before and no translation has changed; and \<open>copyin\<close> of the same range
  returns \<open>src\<close>.\<close>

theorem copyout_copyin:
  assumes ok: "uspace_ok (mem s) pt" and w: "writable (mem s) pt va (length src)"
  shows "wp (copyout pt va src) P s (\<lambda>r t. r = 0
    \<and> (\<forall>vb. ubyte (mem t) pt vb = (if unat (vb - va) < length src then Some (src ! unat (vb - va)) else ubyte (mem s) pt vb))
    \<and> leaf (mem t) pt = leaf (mem s) pt
    \<and> copyin pt va (length src) P t = Ret (0, src) t)"
proof (rule wp_mono [OF copyout_spec [OF ok w]])
  fix r :: int and t assume "r = 0 \<and> copied pt va src s t"
  then have r: "r = 0" and c: "copied pt va src s t" by auto
  have size: "unat va + length src \<le> 2147483648" using w by (simp add: writable_def accessible_def)
  have uv: "uvalid (mem s) pt vb" if "unat (vb - va) < length src" for vb
  proof -
    have "uvalid (mem s) pt (va + of_nat (unat (vb - va)))"
      using w that unfolding writable_def accessible_def by blast
    then show ?thesis by simp
  qed
  have l: "leaf (mem t) pt = leaf (mem s) pt" and ok': "uspace_ok (mem t) pt" using c by (simp_all add: copied_def)
  have b: "ubyte (mem t) pt vb = (if unat (vb - va) < length src then Some (src ! unat (vb - va)) else ubyte (mem s) pt vb)" for vb
    using c uv [of vb] by (auto simp: copied_def)
  have acc: "accessible (mem t) pt va (length src)"
    using w l by (simp add: writable_def accessible_def uvalid_def)
  have "ubytes (mem t) pt va (length src) = src"
  proof (rule nth_equalityI)
    fix i assume "i < length (ubytes (mem t) pt va (length src))"
    then have i: "i < length src" by simp
    then have "unat (of_nat i :: u32) = i" using size by (simp add: unat_of_nat take_bit_eq_mod)
    with i show "ubytes (mem t) pt va (length src) ! i = src ! i" by (simp add: ubytes_nth b)
  qed simp
  with copyin_spec [OF ok' acc] r l b
  show "r = 0 \<and> (\<forall>vb. ubyte (mem t) pt vb = (if unat (vb - va) < length src then Some (src ! unat (vb - va)) else ubyte (mem s) pt vb))
    \<and> leaf (mem t) pt = leaf (mem s) pt \<and> copyin pt va (length src) P t = Ret (0, src) t"
    by simp
qed

definition user0 :: procs where
  "user0 = procs0\<lparr>mem := one_page\<rparr>"

theorem copyout_copyin_witness:
  "wp (copyout ept 0x10 [1, 2, 3]) bare user0 (\<lambda>r t. r = 0 \<and> copyin ept 0x10 3 bare t = Ret (0, [1, 2, 3]) t)"
proof -
  have m: "mem user0 = one_page" by (simp add: user0_def)
  show ?thesis
    by (rule wp_mono [OF copyout_copyin [of user0 ept "0x10" "[1, 2, 3]"]])
      (simp_all add: m uspace_one_page writable_one_page numeral_3_eq_3)
qed



end
