(* ===== verification/PipeProps.thy ===== *)
theory PipeProps
  imports Zero Keeps Ring ProcProps VmProps
begin

text \<open>
  Pipes as queues. The ring of a pipe never holds more than \<open>PIPESIZE\<close> unread bytes, whatever
  readers and writers do in whatever order (\<open>pipes_ok\<close>). Reading and writing are the queue operations
  on \<open>pipe_queue\<close>.
\<close>

interpretation pr: byte_ring PIPESIZE
  by unfold_locales (simp_all add: PIPESIZE_def)

section \<open>The ring invariant\<close>

definition pipe_ok :: "pipe \<Rightarrow> bool" where
  "pipe_ok q \<longleftrightarrow> ring_ok PIPESIZE (pi_data q) (pi_nread q) (pi_nwrite q)"

definition pipe_queue :: "pipe \<Rightarrow> u8 list" where
  "pipe_queue q = ring_bytes PIPESIZE (pi_data q) (pi_nread q) (pi_nwrite q)"

definition pipes_ok :: "'a files_scheme \<Rightarrow> bool" where
  "pipes_ok s \<longleftrightarrow> (\<forall>pi. pipe_ok (pipes s pi))"

interpretation pi: upper_inv "pipes_ok :: 'a files_scheme \<Rightarrow> bool"
proof
  fix s t :: "'a files_scheme" assume "procs.more s = procs.more t"
  then have "pipes s = pipes t" by (cases s, cases t) simp
  then show "pipes_ok s = pipes_ok t" by (simp add: pipes_ok_def)
qed

lemma pipes_set_pipe [simp]: "pipes (set_pipe pi f s) = (pipes s)(pi := f (pipes s pi))"
  by (simp add: set_pipe_def)

lemma pipes_ok_set: "pipes_ok s \<Longrightarrow> pipe_ok (f (pipes s pi)) \<Longrightarrow> pipes_ok (set_pipe pi f s)"
  by (simp add: pipes_ok_def)

lemma pipe_put_ok: "pipe_ok q \<Longrightarrow> pi_nwrite q \<noteq> pi_nread q + PIPESIZE \<Longrightarrow> pipe_ok (pipe_put c q)"
  using pr.put_ok pr.room_iff by (simp add: pipe_ok_def pipe_put_def)

lemma pipe_get_ok: "pipe_ok q \<Longrightarrow> pi_nread q \<noteq> pi_nwrite q \<Longrightarrow> pipe_ok (q\<lparr>pi_nread := pi_nread q + 1\<rparr>)"
  using pr.get_ok by (simp add: pipe_ok_def)

text \<open>With room for a byte, and with a byte to read.\<close>

definition pipe_room :: "u32 \<Rightarrow> 'a files_scheme \<Rightarrow> bool" where
  "pipe_room pi s \<longleftrightarrow> pipes_ok s \<and> pi_nwrite (pipes s pi) \<noteq> pi_nread (pipes s pi) + PIPESIZE"

definition pipe_at :: "u32 \<Rightarrow> pipe \<Rightarrow> 'a files_scheme \<Rightarrow> bool" where
  "pipe_at pi q s \<longleftrightarrow> pipes_ok s \<and> pipes s pi = q"

interpretation pw: upper_inv "pipe_room pi :: 'a files_scheme \<Rightarrow> bool" for pi
proof
  fix s t :: "'a files_scheme" assume "procs.more s = procs.more t"
  then have "pipes s = pipes t" by (cases s, cases t) simp
  then show "pipe_room pi s = pipe_room pi t" by (simp add: pipe_room_def pipes_ok_def)
qed

interpretation pa: upper_inv "pipe_at pi q :: 'a files_scheme \<Rightarrow> bool" for pi q
proof
  fix s t :: "'a files_scheme" assume "procs.more s = procs.more t"
  then have "pipes s = pipes t" by (cases s, cases t) simp
  then show "pipe_at pi q s = pipe_at pi q t" by (simp add: pipe_at_def pipes_ok_def)
qed

lemma keeps_pipewrite_loop:
  assumes P: "obeys pipes_ok P"
  shows "keeps pipes_ok P (pipewrite_loop n pi pr addr m i)"
proof (induction n arbitrary: i)
  case (Suc n)
  let ?finish = "bind (wakeup (Some (PipeRdChan pi))) (\<lambda>_. bind (release (PipeLock pi)) (\<lambda>_. ret (int i)))"
  have fin: "keeps pipes_ok P ?finish" by (intro keeps)
  have put: "leads (pipe_room pi) pipes_ok P (modify (set_pipe pi (pipe_put c)))" for c
    by (rule leads_modify) (auto simp: pipe_room_def intro!: pipes_ok_set pipe_put_ok simp: pipes_ok_def)
  have room: "leads (pipe_room pi) pipes_ok P
    (bind (gets (\<lambda>s. p_pagetable (ptable s pr))) (\<lambda>pt.
       bind (copyin pt (addr + of_nat i) 1) (\<lambda>(r, ch).
       if r = -1 then ?finish
       else bind (modify (set_pipe pi (pipe_put (hd ch)))) (\<lambda>_. pipewrite_loop n pi pr addr m (Suc i)))))"
    by (intro leads_bind leads_prod leads_if leads_then [OF put] leads_keeps [OF fin] Suc keeps)
      (auto simp: pipe_room_def)
  have full: "keeps pipes_ok P (bind (wakeup (Some (PipeRdChan pi))) (\<lambda>_.
      bind (sleep (Some (PipeWrChan pi)) (PipeLock pi)) (\<lambda>_. pipewrite_loop n pi pr addr m i)))"
    by (intro keeps pi.keeps_sleep [OF P] Suc)
  have test: "keeps pipes_ok P (bind (gets (\<lambda>s. pi_nwrite (pipes s pi) = pi_nread (pipes s pi) + PIPESIZE)) (\<lambda>full.
      if full then bind (wakeup (Some (PipeRdChan pi))) (\<lambda>_.
        bind (sleep (Some (PipeWrChan pi)) (PipeLock pi)) (\<lambda>_. pipewrite_loop n pi pr addr m i))
      else bind (gets (\<lambda>s. p_pagetable (ptable s pr))) (\<lambda>pt.
        bind (copyin pt (addr + of_nat i) 1) (\<lambda>(r, ch).
        if r = -1 then ?finish
        else bind (modify (set_pipe pi (pipe_put (hd ch)))) (\<lambda>_. pipewrite_loop n pi pr addr m (Suc i))))))"
    by (rule keeps_test [OF leads_keeps [OF full] room [unfolded pipe_room_def]]) simp
  show ?case
    unfolding pipewrite_loop.simps Let_def by (rule fin test keeps)+
qed (simp add: keeps)

lemma keeps_pipewrite: "obeys pipes_ok P \<Longrightarrow> keeps pipes_ok P (pipewrite pi addr n)"
proof -
  assume "obeys pipes_ok P"
  then have "keeps pipes_ok P (\<lambda>P s. pipewrite_loop (Suc (resumptions P s + nat n)) pi pr addr (nat n) 0 P s)" for pr
    using keeps_pipewrite_loop unfolding keeps_def by blast
  then show ?thesis unfolding pipewrite_def by (intro keeps)
qed

lemma keeps_piperead_wait: "obeys pipes_ok P \<Longrightarrow> keeps pipes_ok P (piperead_wait n pi pr)"
  by (induction n) (unfold piperead_wait.simps, (intro keeps pi.keeps_sleep; simp)+)

lemma keeps_piperead_copy: "keeps pipes_ok P (piperead_copy pi pr addr i n)"
proof (induction n arbitrary: i)
  case (Suc n)
  have body: "leads (\<lambda>s. pipes_ok s \<and> pipes s pi = q) pipes_ok P
      (if pi_nread q = pi_nwrite q then ret (int i)
       else bind (gets (\<lambda>s. p_pagetable (ptable s pr))) (\<lambda>pt.
         bind (copyout pt (addr + of_nat i) [pi_data q ! unat (pi_nread q mod PIPESIZE)]) (\<lambda>r.
         if r = -1 then ret (if i = 0 then -1 else int i)
         else bind (modify (set_pipe pi (\<lambda>q. q\<lparr>pi_nread := pi_nread q + 1\<rparr>))) (\<lambda>_.
           piperead_copy pi pr addr (Suc i) n))))" for q
  proof -
    have get: "leads (pipe_at pi q) pipes_ok P (modify (set_pipe pi (\<lambda>q. q\<lparr>pi_nread := pi_nread q + 1\<rparr>)))"
      if "pi_nread q \<noteq> pi_nwrite q"
      using that by (intro leads_modify) (auto simp: pipe_at_def intro!: pipes_ok_set pipe_get_ok simp: pipes_ok_def)
    show ?thesis unfolding pipe_at_def [symmetric]
      by (intro leads_if leads_bind leads_then [OF get] leads_keeps [OF keeps_ret] Suc keeps) (auto simp: pipe_at_def)
  qed
  show ?case unfolding piperead_copy.simps keeps_leads by (rule leads_gets, rule body)
qed (simp add: keeps)

lemma keeps_piperead: "obeys pipes_ok P \<Longrightarrow> keeps pipes_ok P (piperead pi addr n)"
proof -
  assume "obeys pipes_ok P"
  then have "keeps pipes_ok P (\<lambda>P s. piperead_wait (Suc (resumptions P s)) pi pr P s)" for pr
    using keeps_piperead_wait unfolding keeps_def by blast
  then show ?thesis unfolding piperead_def by (intro keeps keeps_piperead_copy)
qed

lemma keeps_pipeclose: "keeps pipes_ok P (pipeclose pi wr)"
  unfolding pipeclose_def by (intro keeps; auto simp: pipes_ok_def pipe_ok_def)

text \<open>C22: A pipe never holds more than \<open>PIPESIZE\<close> unread bytes. Whatever the arguments, \<open>pipewrite\<close>,
  \<open>piperead\<close> and \<open>pipeclose\<close> keep every pipe's ring well formed, also when they sleep in between, are
  killed, fail half way or never return, provided the code that runs meanwhile does.\<close>

theorem pipes_never_overflow:
  assumes "obeys pipes_ok P" "pipes_ok s"
  shows "pipes_ok (final (pipewrite pi addr n P s)) \<and> pipes_ok (final (piperead pi addr n P s))
    \<and> pipes_ok (final (pipeclose pi wr P s))"
  using assms keepsD [OF keeps_pipewrite] keepsD [OF keeps_piperead] keepsD [OF keeps_pipeclose] by auto

theorem pipes_never_overflow_witness:
  "pipes_ok (final (pipewrite 0x30000 0 600 bare (files_on run0))) \<and> pipes_ok (final (piperead 0x30000 0 600 bare (files_on run0)))
    \<and> pipes_ok (final (pipeclose 0x30000 True bare (files_on run0)))"
  by (rule pipes_never_overflow) (simp_all add: obeys_def bare_def pipes_ok_def pipe0_def pipe_ok_def ring_ok_def PIPESIZE_def)

section \<open>Reading and writing are queue operations\<close>

lemma pipe_put_queue:
  assumes "pipe_ok q" "length (pipe_queue q) < 512"
  shows "pipe_queue (pipe_put c q) = pipe_queue q @ [c]" "pipe_ok (pipe_put c q)" "pi_nwrite q \<noteq> pi_nread q + PIPESIZE"
proof -
  have room: "pi_nwrite q - pi_nread q < PIPESIZE"
    using assms(2) by (simp add: pipe_queue_def word_less_nat_alt PIPESIZE_def)
  show "pipe_queue (pipe_put c q) = pipe_queue q @ [c]"
    using pr.put_bytes [OF _ room] assms(1) by (simp add: pipe_queue_def pipe_put_def pipe_ok_def)
  show n: "pi_nwrite q \<noteq> pi_nread q + PIPESIZE" using pr.room_iff room assms(1) by (simp add: pipe_ok_def)
  show "pipe_ok (pipe_put c q)" using assms(1) n by (rule pipe_put_ok)
qed

lemma pipe_get_queue:
  "pi_nread q \<noteq> pi_nwrite q \<Longrightarrow> pipe_queue q = pi_data q ! unat (pi_nread q mod PIPESIZE) # pipe_queue (q\<lparr>pi_nread := pi_nread q + 1\<rparr>)"
  "pi_nread q = pi_nwrite q \<longleftrightarrow> pipe_queue q = []"
  using pr.get_bytes pr.empty_iff by (simp_all add: pipe_queue_def)

lemma pipe_put_select [simp]: "pi_readopen (pipe_put c q) = pi_readopen q" "pi_writeopen (pipe_put c q) = pi_writeopen q"
  by (simp_all add: pipe_put_def)

lemma neutral_set_pipe [simp]: "lock_neutral (set_pipe pi f)"
  by (simp add: lock_neutral_def set_pipe_def)

lemma set_pipe_select [simp]: "mem (set_pipe pi f s) = mem s" "ptable (set_pipe pi f s) = ptable s"
  "set_pipe pi f (set_pipe pi g s) = set_pipe pi (\<lambda>q. f (g q)) s" "mycpu (set_pipe pi f s) = mycpu s"
  by (simp_all add: set_pipe_def mycpu_def)

lemma inside_set_pipe [simp]: "inside l (set_pipe pi f s) = inside l s" "quiet (set_pipe pi f s) = quiet s"
  by (rule inside_neutral, simp) (rule quiet_neutral, simp)

text \<open>The \<open>n\<close> bytes of process \<open>p\<close> at \<open>addr\<close>.\<close>

definition user_bytes :: "'a procs_scheme \<Rightarrow> nat \<Rightarrow> u32 \<Rightarrow> nat \<Rightarrow> u8 list" where
  "user_bytes s p addr n = ubytes (mem s) (p_pagetable (ptable s p)) addr n"

lemma copyin_byte:
  assumes ok: "uspace_ok (mem s) pt" and a: "accessible (mem s) pt addr n" and i: "i < n"
  shows "copyin pt (addr + of_nat i) 1 P s = Ret (0, [ubytes (mem s) pt addr n ! i]) s"
proof -
  have a1: "accessible (mem s) pt (addr + of_nat i) 1"
    using accessible_drop [OF a, of i] i accessible_take by (metis Suc_leI less_imp_le_nat One_nat_def zero_less_diff)
  have "ubytes (mem s) pt (addr + of_nat i) 1 = [ubytes (mem s) pt addr n ! i]" using i by (simp add: ubytes_def)
  then show ?thesis using copyin_spec [OF ok a1, of P] by (simp only:)
qed

lemma pipewrite_loop_eq:
  fixes a :: "'a files_scheme"
  assumes ins: "inside (PipeLock pi) a" and u: "uspace_ok (mem a) (p_pagetable (ptable a p))"
    "accessible (mem a) (p_pagetable (ptable a p)) addr m" and k: "p_killed (ptable a p) = 0"
    and q: "pipe_ok (pipes a pi)" "pi_readopen (pipes a pi)" "length (pipe_queue (pipes a pi)) + (m - i) \<le> 512"
    and f: "m - i < fuel" "i \<le> m"
  shows "pipewrite_loop fuel pi p addr m i P a =
    bind (wakeup (Some (PipeRdChan pi))) (\<lambda>_. bind (release (PipeLock pi)) (\<lambda>_. ret (int m))) P
      (set_pipe pi (fold pipe_put (drop i (user_bytes a p addr m))) a)"
  using ins u k q f
proof (induction "m - i" arbitrary: i fuel a)
  case 0
  then have "set_pipe pi (fold pipe_put (drop i (user_bytes a p addr m))) a = a" "i = m"
    by (simp_all add: user_bytes_def set_pipe_def)
  then show ?case using 0 by (cases fuel) (simp_all add: Let_def)
next
  case (Suc n)
  then obtain fuel' where fuel: "fuel = Suc fuel'" by (cases fuel) auto
  let ?c = "user_bytes a p addr m ! i" let ?a = "set_pipe pi (pipe_put ?c) a"
  have i: "i < m" using Suc by simp
  have len: "length (pipe_queue (pipes a pi)) < 512" using Suc i by simp
  note pq = pipe_put_queue [OF Suc.prems(5) len]
  have kl: "killed p P a = Ret 0 a" using killed_inside [OF Suc.prems(1)] Suc.prems(4) by simp
  have ci: "copyin (p_pagetable (ptable a p)) (addr + of_nat i) 1 P a = Ret (0, [?c]) a"
    unfolding user_bytes_def by (rule copyin_byte [OF Suc.prems(2,3) i])
  have ih: "pipewrite_loop fuel' pi p addr m (Suc i) P ?a =
    bind (wakeup (Some (PipeRdChan pi))) (\<lambda>_. bind (release (PipeLock pi)) (\<lambda>_. ret (int m))) P
      (set_pipe pi (fold pipe_put (drop (Suc i) (user_bytes ?a p addr m))) ?a)"
    by (rule Suc.hyps(1)) (use Suc pq i fuel in simp_all)
  have "user_bytes ?a p addr m = user_bytes a p addr m" by (simp add: user_bytes_def)
  moreover have "drop i (user_bytes a p addr m) = ?c # drop (Suc i) (user_bytes a p addr m)"
    using i by (simp add: Cons_nth_drop_Suc user_bytes_def)
  ultimately show ?case using ih i kl ci pq(3) Suc.prems(6) unfolding fuel pipewrite_loop.simps
    by (simp add: Let_def run_simps set_pipe_def)
qed

lemma copied_set_pipe: "copied pt va src a b \<Longrightarrow> copied pt va src (set_pipe pi f a) (set_pipe pi f b)"
proof -
  assume c: "copied pt va src a b"
  then have b: "b = a\<lparr>mem := mem b\<rparr>" by (simp add: copied_def)
  have "set_pipe pi f (a\<lparr>mem := mem b\<rparr>) = (set_pipe pi f a)\<lparr>mem := mem b\<rparr>" by (simp add: set_pipe_def)
  then have "set_pipe pi f b = (set_pipe pi f a)\<lparr>mem := mem (set_pipe pi f b)\<rparr>" using b by simp
  then show ?thesis using c by (simp add: copied_def)
qed

definition pipe_advance :: "nat \<Rightarrow> pipe \<Rightarrow> pipe" where
  "pipe_advance m q = q\<lparr>pi_nread := pi_nread q + of_nat m\<rparr>"

lemma copied_nothing: "uspace_ok (mem s) pt \<Longrightarrow> copied pt va [] s s"
  by (simp add: copied_def)

lemma copied_keeps:
  assumes "copied pt va src s t"
  shows "pipes t = pipes s" "ptable t = ptable s" "locks t = locks s" "cpus t = cpus s" "csr t = csr s" "mycpu t = mycpu s"
proof -
  have t: "t = s\<lparr>mem := mem t\<rparr>" using assms by (simp add: copied_def)
  show "pipes t = pipes s" "ptable t = ptable s" "locks t = locks s" "cpus t = cpus s" "csr t = csr s" "mycpu t = mycpu s"
    by (subst t, simp add: mycpu_def)+
qed

lemma piperead_copy_spec:
  fixes a :: "'a files_scheme"
  assumes "p_pagetable (ptable a p) = pt" "uspace_ok (mem a) pt" "writable (mem a) pt (addr + of_nat i) n"
    "pipe_ok (pipes a pi)"
  shows "wp (piperead_copy pi p addr i n) P a (\<lambda>r t. let m = min n (length (pipe_queue (pipes a pi))) in
    r = int (i + m) \<and> copied pt (addr + of_nat i) (take m (pipe_queue (pipes a pi))) (set_pipe pi (pipe_advance m) a) t)"
  using assms
proof (induction n arbitrary: i a)
  case 0
  have "set_pipe pi (pipe_advance 0) a = a" by (simp add: set_pipe_def pipe_advance_def)
  then show ?case using 0 by (simp add: wp_ret copied_nothing)
next
  case (Suc n)
  let ?q = "pipes a pi"
  show ?case
  proof (cases "pipe_queue ?q")
    case Nil
    have "set_pipe pi (pipe_advance 0) a = a" by (simp add: set_pipe_def pipe_advance_def)
    then show ?thesis unfolding piperead_copy.simps wp_bind wp_gets
      using Nil Suc.prems pipe_get_queue(2) [of ?q] by (simp add: wp_ret copied_nothing)
  next
    case (Cons c qs)
    have ne: "pi_nread ?q \<noteq> pi_nwrite ?q" using Cons pipe_get_queue(2) by simp
    have qs: "c = pi_data ?q ! unat (pi_nread ?q mod PIPESIZE)" "pipe_queue (pipe_advance (Suc 0) ?q) = qs"
      using pipe_get_queue(1) [OF ne] Cons by (simp_all add: pipe_advance_def)
    have ok: "pipe_ok (pipe_advance (Suc 0) ?q)" using pipe_get_ok [OF Suc.prems(4) ne] by (simp add: pipe_advance_def)
    have one: "pipe_advance (Suc 0) = (\<lambda>q. q\<lparr>pi_nread := pi_nread q + 1\<rparr>)" by (simp add: pipe_advance_def fun_eq_iff)
    have va: "addr + of_nat (Suc i) = addr + of_nat i + of_nat (Suc 0)" by (simp add: algebra_simps)
    have w: "writable (mem a) pt (addr + of_nat i) (length [c])" "writable (mem a) pt (addr + of_nat i + of_nat (Suc 0)) n"
      "unat (addr + of_nat i) + Suc n \<le> 2147483648"
      using Suc.prems(3) writable_drop [OF Suc.prems(3), of "Suc 0"] by (auto simp: writable_def accessible_def)
    have rest: "wp (piperead_copy pi p addr (Suc i) n) P (set_pipe pi (pipe_advance (Suc 0)) b)
      (\<lambda>r t. let m = min (Suc n) (length (pipe_queue ?q)) in
       r = int (i + m) \<and> copied pt (addr + of_nat i) (take m (pipe_queue ?q)) (set_pipe pi (pipe_advance m) a) t)"
      if c: "copied pt (addr + of_nat i) [c] a b" for b
    proof -
      let ?b = "set_pipe pi (pipe_advance (Suc 0)) b"
      note k = copied_keeps [OF c]
      let ?m = "min n (length qs)"
      have l: "leaf (mem b) pt = leaf (mem a) pt" "uspace_ok (mem b) pt" using c by (simp_all add: copied_def)
      have "wp (piperead_copy pi p addr (Suc i) n) P ?b (\<lambda>r t. let m = min n (length (pipe_queue (pipes ?b pi))) in
        r = int (Suc i + m) \<and> copied pt (addr + of_nat i + of_nat (Suc 0)) (take m (pipe_queue (pipes ?b pi))) (set_pipe pi (pipe_advance m) ?b) t)"
        unfolding va [symmetric]
        by (rule Suc.IH) (use k l w(2) ok Suc.prems(1) in \<open>simp_all add: writable_def accessible_def uvalid_def va del: of_nat_Suc\<close>)
      then show ?thesis
      proof (rule wp_mono)
        fix r t assume "let m = min n (length (pipe_queue (pipes ?b pi))) in
          r = int (Suc i + m) \<and> copied pt (addr + of_nat i + of_nat (Suc 0)) (take m (pipe_queue (pipes ?b pi))) (set_pipe pi (pipe_advance m) ?b) t"
        then have r: "r = int (Suc i + ?m)"
          and t: "copied pt (addr + of_nat i + of_nat (Suc 0)) (take ?m qs) (set_pipe pi (pipe_advance ?m) ?b) t"
          using k qs by (simp_all add: Let_def)
        have adv: "(\<lambda>q. pipe_advance ?m (pipe_advance (Suc 0) q)) = pipe_advance (Suc ?m)"
          by (simp add: pipe_advance_def fun_eq_iff)
        have "copied pt (addr + of_nat i) (take (Suc 0) (c # take ?m qs)) (set_pipe pi (pipe_advance (Suc ?m)) a)
            (set_pipe pi (pipe_advance ?m) ?b)"
          using copied_set_pipe [OF c, of pi "pipe_advance (Suc ?m)"] by (simp add: adv [symmetric])
        from copied_append [OF this] t w(3)
        have "copied pt (addr + of_nat i) (c # take ?m qs) (set_pipe pi (pipe_advance (Suc ?m)) a) t" by auto
        then show "let m = min (Suc n) (length (pipe_queue ?q)) in r = int (i + m) \<and>
          copied pt (addr + of_nat i) (take m (pipe_queue ?q)) (set_pipe pi (pipe_advance m) a) t"
          using r by (simp add: Cons Let_def)
      qed
    qed
    have "wp (copyout pt (addr + of_nat i) [c]) P a (\<lambda>r b. r = 0 \<and> copied pt (addr + of_nat i) [c] a b)"
      by (rule copyout_spec [OF Suc.prems(2) w(1)])
    then have "wp (copyout pt (addr + of_nat i) [c]) P a (\<lambda>r b. r = 0 \<and>
      wp (piperead_copy pi p addr (Suc i) n) P (set_pipe pi (pipe_advance (Suc 0)) b)
      (\<lambda>r t. let m = min (Suc n) (length (pipe_queue ?q)) in
       r = int (i + m) \<and> copied pt (addr + of_nat i) (take m (pipe_queue ?q)) (set_pipe pi (pipe_advance m) a) t))"
      by (rule wp_mono) (use rest in blast)
    then show ?thesis
      unfolding piperead_copy.simps wp_bind wp_gets Suc.prems(1) qs(1) one using ne
      by (simp add: wp_bind wp_gets wp_modify Suc.prems(1)) (auto elim!: wp_mono simp: wp_rules)
  qed
qed

lemma pipes_woken [simp]: "pipes (woken me ch s) = pipes s" "mem (woken me ch s) = mem s" "cpus (woken me ch s) = cpus s"
  "mycpu (woken me ch s) = mycpu s" "quiet (woken me ch s) = quiet s"
  by (simp_all add: woken_def mycpu_def) (rule quiet_cong, simp_all)

text \<open>The end of both operations: wake the other side and release the lock.\<close>

lemma wake_release:
  fixes s :: "'a files_scheme"
  assumes q: "quiet s" and f: "lock_neutral f"
  shows "bind (wakeup ch) (\<lambda>_. bind (release (PipeLock pi)) (\<lambda>_. ret r)) P (f (acquired (PipeLock pi) s))
    = Ret r (woken (c_proc (mycpu s)) ch (f s))"
proof -
  have "bind (wakeup ch) (\<lambda>_. release (PipeLock pi)) P (f (acquired (PipeLock pi) s)) = Ret () (woken (c_proc (mycpu s)) ch (f s))"
    by (rule wakeup_release [OF q f]) simp
  then show ?thesis unfolding bind_assoc [symmetric] by (simp only: bind_def [of "bind m g" for m g] outcome.case ret_apply)
qed

lemma fold_put:
  "pipe_ok q \<Longrightarrow> length (pipe_queue q) + length bs \<le> 512 \<Longrightarrow>
   pipe_queue (fold pipe_put bs q) = pipe_queue q @ bs \<and> pipe_ok (fold pipe_put bs q)"
  by (induction bs arbitrary: q) (simp_all add: pipe_put_queue)

lemma pipewrite_eq:
  fixes s :: "'a files_scheme"
  assumes q: "quiet s" and p: "c_proc (mycpu s) = Some p" "p_killed (ptable s p) = 0"
    and u: "uspace_ok (mem s) (p_pagetable (ptable s p))" "accessible (mem s) (p_pagetable (ptable s p)) addr n"
    and ok: "pipe_ok (pipes s pi)" "pi_readopen (pipes s pi)" "length (pipe_queue (pipes s pi)) + n \<le> 512"
  shows "pipewrite pi addr (int n) P s = Ret (int n)
    (woken (Some p) (Some (PipeRdChan pi)) (set_pipe pi (fold pipe_put (user_bytes s p addr n)) s))"
proof -
  let ?a = "acquired (PipeLock pi) s"
  have pa: "pipes ?a = pipes s" by (simp add: lock_defs)
  have e: "pipewrite_loop (Suc (resumptions P ?a + n)) pi p addr n 0 P ?a =
    bind (wakeup (Some (PipeRdChan pi))) (\<lambda>_. bind (release (PipeLock pi)) (\<lambda>_. ret (int n))) P
      (set_pipe pi (fold pipe_put (drop 0 (user_bytes ?a p addr n))) ?a)"
    by (rule pipewrite_loop_eq) (use assms pa in simp_all)
  have "user_bytes ?a p addr n = user_bytes s p addr n" by (simp add: user_bytes_def)
  with e wake_release [OF q neutral_set_pipe, of "Some (PipeRdChan pi)" pi "int n" P pi] show ?thesis
    using q p by (simp add: pipewrite_def del: pipewrite_loop.simps)
qed

lemma piperead_spec:
  fixes s :: "'a files_scheme"
  assumes q: "quiet s" and p: "c_proc (mycpu s) = Some p"
    and u: "uspace_ok (mem s) (p_pagetable (ptable s p))" "writable (mem s) (p_pagetable (ptable s p)) addr n"
    and ok: "pipe_ok (pipes s pi)" "pipe_queue (pipes s pi) \<noteq> [] \<or> \<not> pi_writeopen (pipes s pi)"
  defines "m \<equiv> min n (length (pipe_queue (pipes s pi)))"
  shows "wp (piperead pi addr (int n)) P s (\<lambda>r t. r = int m \<and> (\<exists>u.
    copied (p_pagetable (ptable s p)) addr (take m (pipe_queue (pipes s pi))) (set_pipe pi (pipe_advance m) s) u
    \<and> t = woken (Some p) (Some (PipeWrChan pi)) u))"
proof -
  let ?a = "acquired (PipeLock pi) s" let ?pt = "p_pagetable (ptable s p)"
  have pa: "pipes ?a = pipes s" by (simp add: lock_defs)
  have wait: "piperead_wait (Suc (resumptions P ?a)) pi p P ?a = Ret True ?a"
    using ok(2) pipe_get_queue(2) [of "pipes s pi"] pa by (auto simp: run_simps)
  have "wp (piperead_copy pi p addr 0 n) P ?a (\<lambda>r t. let m = min n (length (pipe_queue (pipes ?a pi))) in
    r = int (0 + m) \<and> copied ?pt (addr + of_nat 0) (take m (pipe_queue (pipes ?a pi))) (set_pipe pi (pipe_advance m) ?a) t)"
    by (rule piperead_copy_spec) (use assms pa in simp_all)
  then obtain u where u: "piperead_copy pi p addr 0 n P ?a = Ret (int m) u"
    "copied ?pt addr (take m (pipe_queue (pipes s pi))) (set_pipe pi (pipe_advance m) ?a) u"
    by (auto simp: wp_iff pa m_def Let_def)
  let ?f = "\<lambda>x. (set_pipe pi (pipe_advance m) x)\<lparr>mem := mem u\<rparr>"
  have uf: "u = ?f ?a" using u(2) by (simp add: copied_def)
  have nf: "lock_neutral ?f" by (simp add: lock_neutral_def set_pipe_def)
  have "bind (wakeup (Some (PipeWrChan pi))) (\<lambda>_. bind (release (PipeLock pi)) (\<lambda>_. ret (int m))) P u
      = Ret (int m) (woken (Some p) (Some (PipeWrChan pi)) (?f s))"
    unfolding p [symmetric] by (subst uf, rule wake_release [OF q nf])
  moreover have "copied ?pt addr (take m (pipe_queue (pipes s pi))) (set_pipe pi (pipe_advance m) s) (?f s)"
    using u(2) by (simp add: copied_def)
  ultimately show ?thesis
    using q p wait u(1) by (auto simp: piperead_def wp_def simp del: piperead_wait.simps piperead_copy.simps)
qed

lemma pipe_advance_queue:
  "pipe_ok q \<Longrightarrow> m \<le> length (pipe_queue q) \<Longrightarrow> pipe_queue (pipe_advance m q) = drop m (pipe_queue q) \<and> pipe_ok (pipe_advance m q)"
proof (induction m arbitrary: q)
  case 0
  then show ?case by (simp add: pipe_advance_def)
next
  case (Suc m)
  let ?q = "q\<lparr>pi_nread := pi_nread q + 1\<rparr>"
  have ne: "pi_nread q \<noteq> pi_nwrite q" using Suc.prems pipe_get_queue(2) [of q] by auto
  have e: "pipe_advance (Suc m) q = pipe_advance m ?q" by (simp add: pipe_advance_def algebra_simps)
  have "pipe_queue (pipe_advance m ?q) = drop m (pipe_queue ?q) \<and> pipe_ok (pipe_advance m ?q)"
    by (rule Suc.IH) (use Suc.prems pipe_get_ok [OF Suc.prems(1) ne] pipe_get_queue(1) [OF ne] in auto)
  then show ?case using pipe_get_queue(1) [OF ne] by (simp add: e)
qed

definition all_awake :: "nat \<Rightarrow> chan \<Rightarrow> 'a procs_scheme \<Rightarrow> 'a procs_scheme \<Rightarrow> bool" where
  "all_awake p ch s t \<longleftrightarrow> (\<forall>j < NPROC. j \<noteq> p \<and> p_state (ptable s j) = SLEEPING \<and> p_chan (ptable s j) = Some ch \<longrightarrow>
     p_state (ptable t j) = RUNNABLE)"

lemma all_awake_woken: "ptable u = ptable s \<Longrightarrow> all_awake p ch s (woken (Some p) (Some ch) u)"
  by (auto simp: all_awake_def woken_def woken_proc_def)

lemma user_bytes_copied:
  assumes c: "copied (p_pagetable (ptable s p)) addr bs u t" and w: "accessible (mem u) (p_pagetable (ptable s p)) addr (length bs)"
    and t: "ptable t' p = q" "p_pagetable q = p_pagetable (ptable s p)" "mem t' = mem t"
  shows "user_bytes t' p addr (length bs) = bs"
proof (rule nth_equalityI)
  fix i assume "i < length (user_bytes t' p addr (length bs))"
  then have i: "i < length bs" by (simp add: user_bytes_def)
  have "unat (of_nat i :: u32) = i" using w i by (simp add: accessible_def unat_of_nat take_bit_eq_mod)
  moreover have "uvalid (mem u) (p_pagetable (ptable s p)) (addr + of_nat i)" using w i by (simp add: accessible_def)
  ultimately have "ubyte (mem t) (p_pagetable (ptable s p)) (addr + of_nat i) = Some (bs ! i)"
    using c i by (simp add: copied_def)
  then show "user_bytes t' p addr (length bs) ! i = bs ! i" using i t by (simp add: user_bytes_def ubytes_nth)
qed (simp add: user_bytes_def)

text \<open>C21: A pipe is a queue of bytes. Writing \<open>n\<close> bytes that fit appends exactly the user's bytes,
  in order, wakes every reader that sleeps on the pipe and changes no memory. Reading takes
  the first \<open>min n\<close> bytes off the queue (all of them at end of file), puts exactly them at
  \<open>addr\<close> in the user's memory, changes no other byte the user sees, and wakes every
  sleeping writer. Both return the number of bytes, with all locks free.\<close>

theorem pipe_is_queue:
  fixes s :: "'a files_scheme"
  assumes q: "quiet s" and p: "c_proc (mycpu s) = Some p" and u: "uspace_ok (mem s) (p_pagetable (ptable s p))"
    and ok: "pipe_ok (pipes s pi)"
  shows "(accessible (mem s) (p_pagetable (ptable s p)) addr n \<and> p_killed (ptable s p) = 0 \<and> pi_readopen (pipes s pi)
      \<and> length (pipe_queue (pipes s pi)) + n \<le> 512 \<longrightarrow>
      wp (pipewrite pi addr (int n)) P s (\<lambda>r t. r = int n \<and> quiet t \<and> mem t = mem s \<and> pipe_ok (pipes t pi)
        \<and> pipe_queue (pipes t pi) = pipe_queue (pipes s pi) @ user_bytes s p addr n
        \<and> all_awake p (PipeRdChan pi) s t))
    \<and> (writable (mem s) (p_pagetable (ptable s p)) addr n \<and> (pipe_queue (pipes s pi) = [] \<longrightarrow> \<not> pi_writeopen (pipes s pi)) \<longrightarrow>
      wp (piperead pi addr (int n)) P s (\<lambda>r t. let m = min n (length (pipe_queue (pipes s pi))) in
        r = int m \<and> quiet t \<and> pipe_ok (pipes t pi) \<and> pipe_queue (pipes t pi) = drop m (pipe_queue (pipes s pi))
        \<and> user_bytes t p addr m = take m (pipe_queue (pipes s pi))
        \<and> (\<forall>vb. m \<le> unat (vb - addr) \<longrightarrow> ubyte (mem t) (p_pagetable (ptable s p)) vb = ubyte (mem s) (p_pagetable (ptable s p)) vb)
        \<and> all_awake p (PipeWrChan pi) s t))"
proof (intro conjI impI, goal_cases)
  case 1
  have "length (user_bytes s p addr n) = n" by (simp add: user_bytes_def)
  then have "pipe_queue (fold pipe_put (user_bytes s p addr n) (pipes s pi)) = pipe_queue (pipes s pi) @ user_bytes s p addr n
    \<and> pipe_ok (fold pipe_put (user_bytes s p addr n) (pipes s pi))" using 1 fold_put [OF ok] by simp
  then show ?case using pipewrite_eq [OF q p _ u _ ok, of addr n P] 1 q
    by (simp add: wp_def all_awake_woken)
next
  case 2
  let ?Q = "pipe_queue (pipes s pi)" let ?m = "min n (length ?Q)" let ?pt = "p_pagetable (ptable s p)"
  have w: "writable (mem s) ?pt addr n" "?Q \<noteq> [] \<or> \<not> pi_writeopen (pipes s pi)" using 2 by auto
  note adv = pipe_advance_queue [OF ok, of ?m]
  show ?case
  proof (rule wp_mono [OF piperead_spec [OF q p u w(1) ok w(2)]])
    fix r t assume "r = int ?m \<and> (\<exists>u. copied ?pt addr (take ?m ?Q) (set_pipe pi (pipe_advance ?m) s) u
      \<and> t = woken (Some p) (Some (PipeWrChan pi)) u)"
    then obtain u where r: "r = int ?m" and c: "copied ?pt addr (take ?m ?Q) (set_pipe pi (pipe_advance ?m) s) u"
      and t: "t = woken (Some p) (Some (PipeWrChan pi)) u" by blast
    note k = copied_keeps [OF c]
    have acc: "accessible (mem s) ?pt addr ?m" using w(1) accessible_take by (auto simp: writable_def)
    have "quiet u" using q quiet_cong [OF k(5,4,3)] by simp
    moreover have "user_bytes t p addr (length (take ?m ?Q)) = take ?m ?Q"
      by (rule user_bytes_copied [OF c, where q = "ptable t p"]) (use acc k t in \<open>simp_all add: woken_def woken_proc_def\<close>)
    moreover have "ubyte (mem u) ?pt vb = ubyte (mem s) ?pt vb" if "?m \<le> unat (vb - addr)" for vb
      using c that by (auto simp: copied_def)
    ultimately show "let m = ?m in r = int m \<and> quiet t \<and> pipe_ok (pipes t pi) \<and> pipe_queue (pipes t pi) = drop m ?Q
        \<and> user_bytes t p addr m = take m ?Q
        \<and> (\<forall>vb. m \<le> unat (vb - addr) \<longrightarrow> ubyte (mem t) ?pt vb = ubyte (mem s) ?pt vb) \<and> all_awake p (PipeWrChan pi) s t"
      using r t k adv by (simp add: Let_def all_awake_woken)
  qed
qed

text \<open>Process 0 running with one user page.\<close>

definition urun0 :: procs where
  "urun0 = run0\<lparr>mem := one_page, ptable := (ptable run0)(0 := (ptable run0 0)\<lparr>p_pagetable := ept, p_sz := 0x1000\<rparr>)\<rparr>"

lemma urun0_ok [simp]: "quiet (files_on urun0)" "c_proc (mycpu urun0) = Some 0" "mem urun0 = one_page"
  "p_pagetable (ptable urun0 0) = ept" "p_killed (ptable urun0 0) = 0"
proof -
  have "quiet (files_on urun0) = quiet run0" by (rule quiet_cong) (simp_all add: urun0_def)
  then show "quiet (files_on urun0)" by simp
  have "mycpu urun0 = mycpu run0" by (simp add: urun0_def mycpu_def)
  then show "c_proc (mycpu urun0) = Some 0" by simp
qed (simp_all add: urun0_def proc0_def)

theorem pipe_is_queue_witness:
  "wp (pipewrite 0x30000 0x10 3) bare (files_on urun0) (\<lambda>r t. r = 3 \<and> length (pipe_queue (pipes t 0x30000)) = 3)"
proof -
  have ok: "pipe_ok pipe0" "pipe_queue pipe0 = []"
    by (simp_all add: pipe_ok_def pipe_queue_def pipe0_def ring_ok_def ring_bytes_def PIPESIZE_def)
  have "writable one_page ept 0x10 3" by (rule writable_one_page) simp
  then have "accessible one_page ept 0x10 3" by (simp add: writable_def)
  with pipe_is_queue [of "files_on urun0" 0 "0x30000" "0x10" 3 bare] ok show ?thesis
    by (auto simp: uspace_one_page pipe0_def user_bytes_def elim!: wp_mono)
qed

end
