(* ===== verification/ConsoleProps.thy ===== *)
theory ConsoleProps
  imports PipeProps
begin

text \<open>
  The console's input. The ring holds the lines that can be read (between \<open>cons_r\<close> and \<open>cons_w\<close>)
  followed by the line being typed (between \<open>cons_w\<close> and \<open>cons_e\<close>). The interrupt handler edits that
  line as a line editor does, and no interleaving of readers and interrupts overwrites a byte that
  has not been read.
\<close>

interpretation cr: byte_ring INPUT_BUF_SIZE
  by unfold_locales (simp_all add: INPUT_BUF_SIZE_def)

section \<open>The ring invariant\<close>

definition cons_ok :: "'a console_scheme \<Rightarrow> bool" where
  "cons_ok s \<longleftrightarrow> length (cons_buf s) = 128 \<and> cons_w s - cons_r s \<le> cons_e s - cons_r s \<and> cons_e s - cons_r s \<le> 128"

interpretation co: upper_inv "cons_ok :: 'a console_scheme \<Rightarrow> bool"
proof
  fix s t :: "'a console_scheme" assume "procs.more s = procs.more t"
  then have "cons_buf s = cons_buf t" "cons_r s = cons_r t" "cons_w s = cons_w t" "cons_e s = cons_e t"
    by (cases s, cases t, simp)+
  then show "cons_ok s = cons_ok t" by (simp add: cons_ok_def)
qed

text \<open>Output does not touch the input ring.\<close>

locale console_inv = upper_inv I for I :: "'a console_scheme \<Rightarrow> bool"
begin

lemma keeps_uart_tx_ready: "dev_ok P \<Longrightarrow> keeps I P (uart_tx_ready n)"
  by (induction n) (unfold uart_tx_ready.simps, (intro keeps keeps_mmio; simp)+)

lemma keeps_uartputc_sync: "dev_ok P \<Longrightarrow> keeps I P (uartputc_sync c)"
proof -
  assume P: "dev_ok P"
  then have "keeps I P (\<lambda>P s. uart_tx_ready (Suc (polls P)) P s)"
    using keeps_uart_tx_ready unfolding keeps_def by blast
  then show ?thesis unfolding uartputc_sync_def using P by (intro keeps keeps_mmio; simp)
qed

lemma keeps_consputc: "dev_ok P \<Longrightarrow> keeps I P (consputc c)"
  unfolding consputc_def by (intro keeps keeps_uartputc_sync)

lemma keeps_putchars: "dev_ok P \<Longrightarrow> keeps I P (putchars bs)"
  unfolding putchars_def by (intro keeps keeps_consputc)

lemma keeps_printint: "dev_ok P \<Longrightarrow> keeps I P (printint x base sign)" "dev_ok P \<Longrightarrow> keeps I P (printptr x)"
  unfolding printint_def printptr_def by (intro keeps keeps_putchars; simp)+

lemma keeps_fmt_arg: "(\<And>n. keeps I P (f n)) \<Longrightarrow> (\<And>str. keeps I P (g str)) \<Longrightarrow> keeps I P (case a of ANum n \<Rightarrow> f n | AStr str \<Rightarrow> g str)"
  by (cases a) simp_all

lemma keeps_conversion:
  "(\<And>b c. keeps I P (f b c)) \<Longrightarrow> keeps I P m1 \<Longrightarrow> keeps I P m2 \<Longrightarrow> keeps I P m3 \<Longrightarrow> keeps I P m4 \<Longrightarrow>
   keeps I P (case cv of CInt b c \<Rightarrow> f b c | CPtr \<Rightarrow> m1 | CChar \<Rightarrow> m2 | CStr \<Rightarrow> m3 | CPercent \<Rightarrow> m4)"
  by (cases cv) simp_all

lemma keeps_print_conversion: "dev_ok P \<Longrightarrow> keeps I P (print_conversion cv ap)"
  unfolding print_conversion_def prod.case
  by (intro keeps_conversion keeps_list keeps_fmt_arg keeps_option keeps_bind keeps_panic keeps_ret
      keeps_printint keeps_consputc keeps_putchars)

lemma keeps_printf_loop: "dev_ok P \<Longrightarrow> keeps I P (printf_loop fmt ap)"
proof (induction "length fmt" arbitrary: fmt ap rule: less_induct)
  case less
  show ?case
  proof (cases fmt)
    case (Cons cx f)
    have ih: "keeps I P (printf_loop (drop k f) ap)" "f = c0 # f' \<Longrightarrow> keeps I P (printf_loop f' ap)"
      "keeps I P (printf_loop f ap)" for k ap c0 f'
      using less Cons by simp_all
    have "keeps I P (case f of [] \<Rightarrow> ret () | c0 # f' \<Rightarrow> bind (consputc (of_char CHR ''%'')) (\<lambda>_.
        bind (consputc (ucast c0)) (\<lambda>_. printf_loop f' ap)))"
      using ih(2) less.prems by (cases f) (simp_all add: keeps_ret keeps_bind keeps_consputc)
    then show ?thesis using less.prems unfolding Cons printf_loop.simps
      by (intro keeps_if keeps_bind keeps_option keeps_prod keeps_consputc keeps_print_conversion ih)
  qed (simp add: keeps_ret)
qed

lemma keeps_printf: "dev_ok P \<Longrightarrow> keeps I P (printf fmt ap)"
  unfolding printf_def by (intro keeps keeps_printf_loop)

lemma keeps_procdump: "dev_ok P \<Longrightarrow> keeps I P procdump"
  unfolding procdump_def by (intro keeps keeps_printf)

end

interpretation coi: console_inv "cons_ok :: 'a console_scheme \<Rightarrow> bool"
  by unfold_locales

lemma cons_same [simp]: "cons_ok (s\<lparr>tx_busy := b\<rparr>) = cons_ok s" "cons_ok (s\<lparr>devsw := d\<rparr>) = cons_ok s"
  by (simp_all add: cons_ok_def)

lemma dec_le:
  fixes a b :: u32
  shows "a \<le> b \<Longrightarrow> a \<noteq> b \<Longrightarrow> a \<le> b - 1" "a \<noteq> 0 \<Longrightarrow> a \<le> b \<Longrightarrow> a - 1 \<le> b - 1" "b \<noteq> 0 \<Longrightarrow> b - 1 \<le> b"
proof -
  have m: "unat (b - 1) = unat b - 1" if "b \<noteq> 0" using that by (rule unat_minus_one)
  show "a \<le> b - 1" if "a \<le> b" "a \<noteq> b"
  proof -
    have "a < b" using that by simp
    then have "unat a < unat b" by (simp add: word_less_nat_alt)
    moreover from this have "b \<noteq> 0" by auto
    ultimately show ?thesis using m by (simp add: word_le_nat_alt)
  qed
  show "a - 1 \<le> b - 1" if "a \<noteq> 0" "a \<le> b"
  proof -
    have "b \<noteq> 0" using that by auto
    then show ?thesis using that m by (simp add: word_le_nat_alt unat_minus_one diff_le_mono)
  qed
  show "b - 1 \<le> b" if "b \<noteq> 0" using m [OF that] by (simp add: word_le_nat_alt)
qed

lemma cons_back: "cons_ok s \<Longrightarrow> cons_e s \<noteq> cons_w s \<Longrightarrow> cons_ok (s\<lparr>cons_e := cons_e s - 1\<rparr>)"
proof -
  assume a: "cons_ok s" "cons_e s \<noteq> cons_w s"
  have e: "cons_e s - 1 - cons_r s = (cons_e s - cons_r s) - 1" by simp
  have "cons_w s - cons_r s \<le> (cons_e s - cons_r s) - 1" using a by (intro dec_le(1)) (simp_all add: cons_ok_def)
  moreover have "(cons_e s - cons_r s) - 1 \<le> cons_e s - cons_r s"
    using a by (intro dec_le(3)) (auto simp: cons_ok_def)
  ultimately show ?thesis using a by (auto simp: cons_ok_def e)
qed

lemma cons_next: "cons_ok s \<Longrightarrow> cons_r s \<noteq> cons_w s \<Longrightarrow> cons_ok (s\<lparr>cons_r := cons_r s + 1\<rparr>)"
proof -
  assume a: "cons_ok s" "cons_r s \<noteq> cons_w s"
  have e: "x - (cons_r s + 1) = (x - cons_r s) - 1" for x by simp
  have "cons_w s - cons_r s \<noteq> 0" "cons_e s - cons_r s \<noteq> 0" using a by (auto simp: cons_ok_def)
  then have "cons_w s - cons_r s - 1 \<le> cons_e s - cons_r s - 1" "cons_e s - cons_r s - 1 \<le> cons_e s - cons_r s"
    using a by (auto intro!: dec_le simp: cons_ok_def)
  then show ?thesis using a by (auto simp: cons_ok_def e)
qed

lemma cons_put:
  assumes a: "cons_ok s" "cons_e s - cons_r s < INPUT_BUF_SIZE"
  shows "cons_ok (s\<lparr>cons_buf := (cons_buf s)[k := c], cons_e := cons_e s + 1\<rparr>)"
proof -
  have e: "cons_e s + 1 - cons_r s = (cons_e s - cons_r s) + 1" by simp
  have "unat (cons_e s - cons_r s) < 128" using a(2) by (simp add: INPUT_BUF_SIZE_def word_less_nat_alt)
  then have "unat ((cons_e s - cons_r s) + 1) = Suc (unat (cons_e s - cons_r s))" by (simp add: unat_word_ariths)
  then show ?thesis using a unfolding cons_ok_def word_le_nat_alt by (simp add: e INPUT_BUF_SIZE_def word_less_nat_alt)
qed

lemma cons_commit: "cons_ok s \<Longrightarrow> cons_ok (s\<lparr>cons_w := cons_e s\<rparr>)"
  by (simp add: cons_ok_def)

section \<open>Every operation keeps it\<close>

lemma keeps_kill_line: "dev_ok P \<Longrightarrow> keeps cons_ok P (console_kill_line n)"
proof (induction n)
  case (Suc n)
  let ?more = "\<lambda>s. cons_e s \<noteq> cons_w s \<and> cons_at s (cons_e s - 1) \<noteq> NL"
  show ?case unfolding console_kill_line.simps
    by (intro keeps_test_not leads_then leads_modify leads_keeps keeps coi.keeps_consputc Suc) (auto intro: cons_back)
qed (simp add: keeps_hang)

definition cons_room :: "'a console_scheme \<Rightarrow> bool" where
  "cons_room s \<longleftrightarrow> cons_ok s \<and> cons_e s - cons_r s < INPUT_BUF_SIZE"

interpretation cro: console_inv "cons_room :: 'a console_scheme \<Rightarrow> bool"
proof
  fix s t :: "'a console_scheme" assume "procs.more s = procs.more t"
  then have "cons_buf s = cons_buf t" "cons_r s = cons_r t" "cons_w s = cons_w t" "cons_e s = cons_e t"
    by (cases s, cases t, simp)+
  then show "cons_room s = cons_room t" by (simp add: cons_ok_def cons_room_def)
qed

lemma keeps_consoleintr_char: "dev_ok P \<Longrightarrow> keeps cons_ok P (consoleintr_char c0)"
proof -
  assume P: "dev_ok P"
  define put where "put c = modify (\<lambda>s :: 'a console_scheme.
    s\<lparr>cons_buf := (cons_buf s)[unat (cons_e s mod INPUT_BUF_SIZE) := c], cons_e := cons_e s + 1\<rparr>)" for c
  have put: "leads cons_room cons_ok P (put c)" for c
    unfolding put_def by (rule leads_modify) (auto simp: cons_room_def intro: cons_put)
  have rest: "keeps cons_ok P (bind (gets (\<lambda>s. c = NL \<or> c = CTRL_D \<or> cons_e s - cons_r s = INPUT_BUF_SIZE)) (\<lambda>line.
       if line then bind (modify (\<lambda>s. s\<lparr>cons_w := cons_e s\<rparr>)) (\<lambda>_. wakeup (Some ConsChan)) else ret ()))" for c
    by (intro keeps) (rule cons_commit)
  have "leads cons_room cons_ok P (bind (consputc x) (\<lambda>_. bind (put c) (\<lambda>_.
       bind (gets (\<lambda>s. c = NL \<or> c = CTRL_D \<or> cons_e s - cons_r s = INPUT_BUF_SIZE)) (\<lambda>line.
       if line then bind (modify (\<lambda>s. s\<lparr>cons_w := cons_e s\<rparr>)) (\<lambda>_. wakeup (Some ConsChan)) else ret ()))))" for x c
    by (intro leads_bind cro.keeps_consputc P leads_then [OF put] rest) (simp add: cons_room_def)
  then have room: "leads (\<lambda>s. cons_ok s \<and> c0 \<noteq> 0 \<and> cons_e s - cons_r s < INPUT_BUF_SIZE) cons_ok P (bind (consputc x) (\<lambda>_. bind (put c) (\<lambda>_.
       bind (gets (\<lambda>s. c = NL \<or> c = CTRL_D \<or> cons_e s - cons_r s = INPUT_BUF_SIZE)) (\<lambda>line.
       if line then bind (modify (\<lambda>s. s\<lparr>cons_w := cons_e s\<rparr>)) (\<lambda>_. wakeup (Some ConsChan)) else ret ()))))" for x c
    unfolding leads_def cons_room_def by blast
  show ?thesis unfolding consoleintr_char_def Let_def
    by (intro keeps_test_not leads_keeps keeps_ret room [unfolded put_def]) simp
qed

lemma keeps_consoleintr: "dev_ok P \<Longrightarrow> keeps cons_ok P (consoleintr c)"
proof -
  assume P: "dev_ok P"
  have bs: "keeps cons_ok P (bind (gets (\<lambda>s. cons_e s \<noteq> cons_w s)) (\<lambda>some.
      if some then bind (modify (\<lambda>s. s\<lparr>cons_e := cons_e s - 1\<rparr>)) (\<lambda>_. consputc BACKSPACE) else ret ()))"
    by (intro keeps_test leads_then leads_modify leads_keeps keeps_ret coi.keeps_consputc P) (auto intro: cons_back)
  show ?thesis unfolding consoleintr_def
    by (intro keeps_bind keeps_if co.keeps_acquire co.keeps_release coi.keeps_procdump keeps_kill_line keeps_consoleintr_char bs P)
qed

lemma keeps_uartgetc: "dev_ok P \<Longrightarrow> keeps cons_ok P uartgetc"
  unfolding uartgetc_def by (intro keeps co.keeps_mmio)

lemma keeps_uartintr_drain: "dev_ok P \<Longrightarrow> keeps cons_ok P (uartintr_drain n)"
  by (induction n) (unfold uartintr_drain.simps, (intro keeps keeps_uartgetc keeps_consoleintr; simp)+)

lemma keeps_uartintr: "dev_ok P \<Longrightarrow> keeps cons_ok P uartintr"
proof -
  assume P: "dev_ok P"
  then have "keeps cons_ok P (\<lambda>P s. uartintr_drain (Suc (polls P)) P s)"
    using keeps_uartintr_drain unfolding keeps_def by blast
  then show ?thesis unfolding uartintr_def using P by (intro keeps co.keeps_mmio; simp)
qed

lemma keeps_consolewrite: "dev_ok P \<Longrightarrow> keeps cons_ok P (consolewrite u src n)"
proof -
  assume P: "dev_ok P"
  then have "keeps cons_ok P (consolewrite_loop u src i m)" for i m
    by (induction m arbitrary: i) (unfold consolewrite_loop.simps, (intro keeps coi.keeps_uartputc_sync; simp)+)
  then show ?thesis unfolding consolewrite_def by (intro keeps)
qed

text \<open>\<open>consoleread\<close>: when the wait is over there is a byte to read; a byte that has just been read
  can be put back.\<close>

definition cons_some :: "'a console_scheme \<Rightarrow> bool" where
  "cons_some s \<longleftrightarrow> cons_ok s \<and> cons_r s \<noteq> cons_w s"

definition cons_taken :: "'a console_scheme \<Rightarrow> bool" where
  "cons_taken s \<longleftrightarrow> cons_ok s \<and> cons_ok (s\<lparr>cons_r := cons_r s - 1\<rparr>)"

definition cons_go :: "bool \<Rightarrow> 'a console_scheme \<Rightarrow> bool" where
  "cons_go go s \<longleftrightarrow> (if go then cons_some s else cons_ok s)"

lemma consoleread_wait_ends:
  assumes P: "obeys cons_ok P"
  shows "ends cons_ok cons_go cons_ok P (consoleread_wait n)"
proof (induction n)
  case (Suc n)
  have k: "keeps cons_ok P (bind curproc killed)" "keeps cons_ok P (sleep (Some ConsChan) ConsLock)"
    by (intro keeps co.keeps_sleep P)+
  have "ends cons_ok cons_go cons_ok P
      (bind curproc (\<lambda>p. bind (killed p) (\<lambda>k. if k \<noteq> 0 then ret False
         else bind (sleep (Some ConsChan) ConsLock) (\<lambda>_. consoleread_wait n))))"
    by (intro ends_bind [OF ends_keeps] ends_if keeps k Suc) (simp add: ends_simps cons_go_def)
  then show ?case unfolding consoleread_wait.simps
    by (auto simp: ends_def ret_def) (simp add: cons_go_def cons_some_def)
qed (simp add: ends_simps)

lemma keeps_consoleread_loop:
  assumes P: "obeys cons_ok P"
  shows "keeps cons_ok P (consoleread_loop u dst target n)"
proof (induction n arbitrary: dst)
  case (Suc m)
  have wait: "ends cons_ok cons_go cons_ok P
      (\<lambda>P s. consoleread_wait (Suc (resumptions P s)) P s)"
    using consoleread_wait_ends [OF P] unfolding ends_def by blast
  let ?stop = "\<lambda>n. bind (release ConsLock) (\<lambda>_. ret (int target - int n))"
  have stop: "keeps cons_ok P (?stop n)" for n by (intro keeps)
  have taken: "ends cons_some (\<lambda>_. cons_taken) cons_ok P (modify (\<lambda>s. s\<lparr>cons_r := cons_r s + 1\<rparr>))"
    by (auto simp: ends_simps cons_taken_def cons_some_def cons_next)
  have undo: "leads cons_taken cons_ok P (modify (\<lambda>s. if Suc m < target then s\<lparr>cons_r := cons_r s - 1\<rparr> else s))"
    by (rule leads_modify) (simp add: cons_taken_def)
  have weak: "cons_taken s \<Longrightarrow> cons_ok s" "cons_some s \<Longrightarrow> cons_ok s" for s :: "'b console_scheme"
    by (simp_all add: cons_taken_def cons_some_def)
  have "leads cons_some cons_ok P (bind (gets (\<lambda>s. cons_at s (cons_r s))) (\<lambda>c.
       bind (modify (\<lambda>s. s\<lparr>cons_r := cons_r s + 1\<rparr>)) (\<lambda>_.
       if c = CTRL_D
       then bind (modify (\<lambda>s. if Suc m < target then s\<lparr>cons_r := cons_r s - 1\<rparr> else s)) (\<lambda>_. ?stop (Suc m))
       else
         bind (either_copyout u dst [c]) (\<lambda>r.
         if r = -1 then ?stop (Suc m)
         else if c = NL then ?stop m
         else consoleread_loop u (dst + 1) target m))))"
    by (intro leads_bind [OF keeps_gets] leads_ends [OF taken] leads_if leads_then [OF undo] stop)
      ((intro leads_keeps keeps Suc; erule weak)+, erule weak)
  then have go: "leads (cons_go go) cons_ok P
      (if \<not> go then bind (release ConsLock) (\<lambda>_. ret (-1))
       else bind (gets (\<lambda>s. cons_at s (cons_r s))) (\<lambda>c.
       bind (modify (\<lambda>s. s\<lparr>cons_r := cons_r s + 1\<rparr>)) (\<lambda>_.
       if c = CTRL_D
       then bind (modify (\<lambda>s. if Suc m < target then s\<lparr>cons_r := cons_r s - 1\<rparr> else s)) (\<lambda>_. ?stop (Suc m))
       else
         bind (either_copyout u dst [c]) (\<lambda>r.
         if r = -1 then ?stop (Suc m)
         else if c = NL then ?stop m
         else consoleread_loop u (dst + 1) target m))))" for go
    by (cases go) (auto simp: cons_go_def [abs_def] intro!: leads_keeps keeps)
  show ?case unfolding consoleread_loop.simps Let_def keeps_leads by (rule leads_ends [OF wait go])
qed (unfold consoleread_loop.simps, intro keeps)

lemma keeps_consoleread: "obeys cons_ok P \<Longrightarrow> keeps cons_ok P (consoleread u dst n)"
  unfolding consoleread_def by (intro keeps keeps_consoleread_loop)



section \<open>Editing the line\<close>

text \<open>The lines that can be read, and the line being typed.\<close>

definition cons_lines :: "'a console_scheme \<Rightarrow> u8 list" where
  "cons_lines s = ring_bytes INPUT_BUF_SIZE (cons_buf s) (cons_r s) (cons_w s)"

definition cons_line :: "'a console_scheme \<Rightarrow> u8 list" where
  "cons_line s = ring_bytes INPUT_BUF_SIZE (cons_buf s) (cons_w s) (cons_e s)"

text \<open>The specification of the editor: control-U clears the line, backspace and delete take its last
  byte; any other byte is added if there is room, and a newline (or carriage return), control-D or
  a full buffer ends the line.\<close>

definition line_edit :: "u8 \<Rightarrow> u8 list \<times> u8 list \<Rightarrow> u8 list \<times> u8 list" where
  "line_edit c = (\<lambda>(ls, l).
     if c = 21 then (ls, [])
     else if c = 8 \<or> c = 0x7f then (ls, butlast l)
     else if c = 0 \<or> length ls + length l = 128 then (ls, l)
     else let l' = l @ [if c = 13 then NL else c] in
       if c = 13 \<or> c = NL \<or> c = CTRL_D \<or> length ls + length l' = 128 then (ls @ l', []) else (ls, l'))"

text \<open>The transmitter takes every byte at once.\<close>

definition uart_ready :: "'a console_scheme platform \<Rightarrow> bool" where
  "uart_ready P \<longleftrightarrow> (\<forall>s. \<exists>x. mmio_rd P UART_STATUS s = (x, s) \<and> x AND UART_STATUS_TX_READY \<noteq> 0)
     \<and> (\<forall>v s. mmio_wr P UART_TX v s = s)"

lemma uart_addr: "\<not> REG_EPC \<le> UART_STATUS" "\<not> REG_EPC \<le> UART_TX"
  by (simp_all add: reg_defs UART_STATUS_def UART_TX_def)

lemma uart_tx_ready_eq: "uart_ready P \<Longrightarrow> uart_tx_ready (Suc n) P s = Ret () s"
proof -
  assume "uart_ready P"
  then obtain x where "mmio_rd P UART_STATUS s = (x, s)" "x AND UART_STATUS_TX_READY \<noteq> 0"
    unfolding uart_ready_def by metis
  then have "mmio_r UART_STATUS P s = Ret x s" by (simp add: mmio_r_def uart_addr)
  then show ?thesis using \<open>x AND UART_STATUS_TX_READY \<noteq> 0\<close> by (simp add: ret_def)
qed

lemma uartputc_eq:
  assumes P: "uart_ready P" and s: "cpu_ok s" "settle s = s" "\<not> panicked s"
  shows "uartputc_sync c P s = Ret () s"
proof -
  have w: "mmio_w UART_TX v P t = Ret () t" for v t using P by (simp add: mmio_w_def uart_addr uart_ready_def)
  show ?thesis
  proof (cases "panicking s")
    case True
    then show ?thesis using s w uart_tx_ready_eq [OF P] by (simp add: uartputc_sync_def run_simps del: uart_tx_ready.simps)
  next
    case False
    have p: "panicked (pushed s) = panicked s" "panicking (pushed s) = panicking s" by (simp_all add: lock_defs)
    have "pop_off P (pushed s) = Ret () (popped (pushed s))"
      by (rule pop_off_eq) (use s(1) in \<open>simp_all add: cpu_ok_def\<close>)
    then show ?thesis using False s w uart_tx_ready_eq [OF P] push_off_eq [of P s] p popped_pushed [OF s(1)]
      by (simp add: uartputc_sync_def run_simps del: uart_tx_ready.simps)
  qed
qed

lemma consputc_eq:
  "uart_ready P \<Longrightarrow> cpu_ok s \<Longrightarrow> settle s = s \<Longrightarrow> \<not> panicked s \<Longrightarrow> consputc c P s = Ret () s"
  by (simp add: consputc_def uartputc_eq)

lemma cons_lengths:
  assumes "cons_ok s"
  shows "length (cons_lines s) + length (cons_line s) = unat (cons_e s - cons_r s)"
    "cons_lines s @ cons_line s = ring_bytes INPUT_BUF_SIZE (cons_buf s) (cons_r s) (cons_e s)"
    "ring_ok INPUT_BUF_SIZE (cons_buf s) (cons_r s) (cons_e s)"
    "ring_ok INPUT_BUF_SIZE (cons_buf s) (cons_w s) (cons_e s)" "cons_e s - cons_w s \<le> cons_e s - cons_r s"
proof -
  have ok: "cons_w s - cons_r s \<le> cons_e s - cons_r s" "length (cons_buf s) = 128" "cons_e s - cons_r s \<le> 128"
    using assms by (simp_all add: cons_ok_def)
  show sp: "cons_lines s @ cons_line s = ring_bytes INPUT_BUF_SIZE (cons_buf s) (cons_r s) (cons_e s)"
    using cr.split_bytes [OF ok(1)] by (simp add: cons_lines_def cons_line_def)
  have "length (cons_lines s @ cons_line s) = unat (cons_e s - cons_r s)" unfolding sp by simp
  then show len: "length (cons_lines s) + length (cons_line s) = unat (cons_e s - cons_r s)" by simp
  show "ring_ok INPUT_BUF_SIZE (cons_buf s) (cons_r s) (cons_e s)"
    using ok by (simp add: ring_ok_def INPUT_BUF_SIZE_def)
  show le: "cons_e s - cons_w s \<le> cons_e s - cons_r s"
    using len by (simp add: word_le_nat_alt cons_lines_def cons_line_def)
  show "ring_ok INPUT_BUF_SIZE (cons_buf s) (cons_w s) (cons_e s)"
    using ok order_trans [OF le ok(3)] by (simp add: ring_ok_def INPUT_BUF_SIZE_def)
qed

lemma line_empty: "cons_line s = [] \<longleftrightarrow> cons_e s = cons_w s"
  using cr.empty_iff by (auto simp: cons_line_def)

lemma back_line:
  assumes "cons_ok s" "cons_e s \<noteq> cons_w s"
  shows "cons_line (s\<lparr>cons_e := cons_e s - 1\<rparr>) = butlast (cons_line s)" "cons_lines (s\<lparr>cons_e := cons_e s - 1\<rparr>) = cons_lines s"
    "cons_at s (cons_e s - 1) = last (cons_line s)"
proof -
  have "cons_w s \<noteq> cons_e s" using assms(2) by simp
  note b = cr.back_bytes [OF cons_lengths(4) [OF assms(1)] this]
  show "cons_line (s\<lparr>cons_e := cons_e s - 1\<rparr>) = butlast (cons_line s)" using b(1) by (simp add: cons_line_def)
  show "cons_lines (s\<lparr>cons_e := cons_e s - 1\<rparr>) = cons_lines s" by (simp add: cons_lines_def)
  have ne: "unat (cons_e s - cons_w s) \<noteq> 0" using assms(2) by (simp add: unat_eq_zero)
  have "of_nat (unat (cons_e s - cons_w s) - 1) = cons_e s - cons_w s - 1" using ne by (simp add: of_nat_diff)
  then have "cons_w s + of_nat (unat (cons_e s - cons_w s) - 1) = cons_e s - 1" by simp
  then show "cons_at s (cons_e s - 1) = last (cons_line s)"
    using ne by (simp add: cons_line_def ring_bytes_def last_map cons_at_def)
qed

lemma put_line:
  fixes c :: u8
  assumes ok: "cons_ok s" and room: "length (cons_lines s) + length (cons_line s) < 128"
  defines "t \<equiv> s\<lparr>cons_buf := (cons_buf s)[unat (cons_e s mod INPUT_BUF_SIZE) := c], cons_e := cons_e s + 1\<rparr>"
  shows "cons_line t = cons_line s @ [c]" "cons_lines t = cons_lines s" "cons_ok t"
    "unat (cons_e t - cons_r t) = Suc (length (cons_lines s) + length (cons_line s))"
proof -
  note l = cons_lengths [OF ok]
  have r: "cons_e s - cons_r s < INPUT_BUF_SIZE" using room by (simp add: l(1) word_less_nat_alt INPUT_BUF_SIZE_def)
  then have rw: "cons_e s - cons_w s < INPUT_BUF_SIZE" using l(5) by simp
  show ct: "cons_ok t" unfolding t_def by (rule cons_put [OF ok r])
  show line: "cons_line t = cons_line s @ [c]"
    using cr.put_bytes [OF l(4) rw, of c] by (simp add: cons_line_def t_def)
  have "cons_lines t @ cons_line t = (cons_lines s @ cons_line s) @ [c]"
    unfolding l(2) cons_lengths(2) [OF ct] using cr.put_bytes [OF l(3) r, of c] by (simp add: t_def)
  then show "cons_lines t = cons_lines s" unfolding line by simp
  then show "unat (cons_e t - cons_r t) = Suc (length (cons_lines s) + length (cons_line s))"
    using cons_lengths(1) [OF ct] line by simp
qed

lemma commit_line:
  "cons_ok s \<Longrightarrow> cons_lines (s\<lparr>cons_w := cons_e s\<rparr>) = cons_lines s @ cons_line s \<and> cons_line (s\<lparr>cons_w := cons_e s\<rparr>) = []"
  using cons_lengths(2) [of s] by (simp add: cons_lines_def) (simp add: cons_line_def ring_bytes_def)

definition editing :: "'a console_scheme \<Rightarrow> bool" where
  "editing a \<longleftrightarrow> inside ConsLock a \<and> \<not> panicked a \<and> cons_ok a \<and> NL \<notin> set (cons_line a)"

lemma editing_putc: "uart_ready P \<Longrightarrow> editing a \<Longrightarrow> consputc c P a = Ret () a"
  by (rule consputc_eq) (auto simp: editing_def inside_lock)

lemma inside_cons [simp]:
  "inside l (s\<lparr>cons_e := e\<rparr>) = inside l s" "inside l (s\<lparr>cons_w := e\<rparr>) = inside l s"
  "inside l (s\<lparr>cons_buf := b\<rparr>) = inside l s"
  by (rule inside_cong, simp_all)+

lemma editing_back: "editing a \<Longrightarrow> cons_e a \<noteq> cons_w a \<Longrightarrow> editing (a\<lparr>cons_e := cons_e a - 1\<rparr>)"
  using back_line(1) [of a] cons_back [of a] by (auto simp: editing_def dest: in_set_butlastD)

lemma kill_line_eq:
  assumes P: "uart_ready P"
  shows "editing a \<Longrightarrow> length (cons_line a) < n \<Longrightarrow> console_kill_line n P a = Ret () (a\<lparr>cons_e := cons_w a\<rparr>)"
proof (induction n arbitrary: a)
  case (Suc n)
  show ?case
  proof (cases "cons_e a = cons_w a")
    case True
    then have e: "a\<lparr>cons_e := cons_w a\<rparr> = a" by (metis console.surjective console.update_convs(7))
    show ?thesis unfolding e console_kill_line.simps using True by (simp add: bind_def ret_def)
  next
    case False
    let ?b = "a\<lparr>cons_e := cons_e a - 1\<rparr>"
    have ok: "cons_ok a" using Suc.prems by (simp add: editing_def)
    note b = back_line [OF ok False]
    have ne: "cons_line a \<noteq> []" using False by (simp add: line_empty)
    then have "last (cons_line a) \<noteq> NL" using Suc.prems(1) last_in_set [OF ne] unfolding editing_def by metis
    moreover have "editing ?b" by (rule editing_back [OF Suc.prems(1) False])
    moreover have "console_kill_line n P ?b = Ret () (?b\<lparr>cons_e := cons_w ?b\<rparr>)"
      by (rule Suc.IH) (use Suc.prems(2) b(1) \<open>editing ?b\<close> in simp_all, use ne in \<open>cases "cons_line a"; simp\<close>)
    ultimately show ?thesis using False b(3) by (simp add: editing_putc [OF P])
  qed
qed simp

text \<open>The effect of one byte on the ring and on the sleeping readers.\<close>

definition typed :: "nat option \<Rightarrow> u8 \<Rightarrow> 'a console_scheme \<Rightarrow> 'a console_scheme" where
  "typed me c0 s =
     (if c0 \<noteq> 0 \<and> cons_e s - cons_r s < INPUT_BUF_SIZE
      then let c = (if c0 = 13 then NL else c0);
             t = s\<lparr>cons_buf := (cons_buf s)[unat (cons_e s mod INPUT_BUF_SIZE) := c], cons_e := cons_e s + 1\<rparr> in
        if c = NL \<or> c = CTRL_D \<or> cons_e t - cons_r t = INPUT_BUF_SIZE
        then woken me (Some ConsChan) (t\<lparr>cons_w := cons_e t\<rparr>) else t
      else s)"

lemma consoleintr_char_eq:
  assumes P: "uart_ready P" and a: "editing a"
  shows "consoleintr_char c0 P a = Ret () (typed (c_proc (mycpu a)) c0 a)"
proof -
  have ins: "inside ConsLock a" using a by (simp add: editing_def)
  have wk: "wakeup (Some ConsChan) P (a\<lparr>cons_buf := b, cons_e := e, cons_w := w\<rparr>)
    = Ret () (woken (c_proc (mycpu a)) (Some ConsChan) (a\<lparr>cons_buf := b, cons_e := e, cons_w := w\<rparr>))" for b e w
  proof -
    have "inside ConsLock (a\<lparr>cons_buf := b, cons_e := e, cons_w := w\<rparr>)" using ins by simp
    from wakeup_eq [OF wakeable_inside [OF this]] show ?thesis by (simp add: mycpu_def)
  qed
  show ?thesis
    by (simp add: consoleintr_char_def typed_def Let_def editing_putc [OF P a] wk run_simps)
qed

lemma neutral_typed [simp]: "lock_neutral (typed me c)"
  by (simp add: lock_neutral_def typed_def Let_def woken_def cong del: if_weak_cong)

lemma typed_edit:
  assumes a: "cons_ok s" "NL \<notin> set (cons_line s)" and c: "c \<noteq> 21" "c \<noteq> 8" "c \<noteq> 0x7f"
  shows "(cons_lines (typed me c s), cons_line (typed me c s)) = line_edit c (cons_lines s, cons_line s)"
    "cons_ok (typed me c s)" "NL \<notin> set (cons_line (typed me c s))"
proof -
  note l = cons_lengths [OF a(1)]
  let ?c = "if c = 13 then NL else c"
  let ?t = "s\<lparr>cons_buf := (cons_buf s)[unat (cons_e s mod INPUT_BUF_SIZE) := ?c], cons_e := cons_e s + 1\<rparr>"
  have wk: "cons_ok (woken me ch u) = cons_ok u" "cons_lines (woken me ch u) = cons_lines u"
    "cons_line (woken me ch u) = cons_line u" for me ch and u :: "'a console_scheme"
    by (simp_all add: woken_def cons_ok_def cons_lines_def cons_line_def)
  have room: "cons_e s - cons_r s < INPUT_BUF_SIZE \<longleftrightarrow> length (cons_lines s) + length (cons_line s) \<noteq> 128"
  proof -
    have "unat (cons_e s - cons_r s) \<le> 128" using a(1) by (simp add: cons_ok_def word_le_nat_alt)
    then show ?thesis by (auto simp: l(1) word_less_nat_alt INPUT_BUF_SIZE_def)
  qed
  have all: "(cons_lines (typed me c s), cons_line (typed me c s)) = line_edit c (cons_lines s, cons_line s)
    \<and> cons_ok (typed me c s) \<and> NL \<notin> set (cons_line (typed me c s))"
  proof (cases "c = 0 \<or> length (cons_lines s) + length (cons_line s) = 128")
    case True
    then show ?thesis using a c room by (auto simp: typed_def line_edit_def)
  next
    case False
    then have lt: "length (cons_lines s) + length (cons_line s) < 128"
      using room by (simp add: l(1) word_less_nat_alt INPUT_BUF_SIZE_def)
    note p = put_line [OF a(1) lt, of ?c]
    have full: "cons_e ?t - cons_r ?t = INPUT_BUF_SIZE \<longleftrightarrow> Suc (length (cons_lines s) + length (cons_line s)) = 128"
      using p(4) by (auto simp: INPUT_BUF_SIZE_def word_unat_eq_iff)
    note cm = commit_line [OF p(3)]
    show ?thesis
    proof (cases "?c = NL \<or> ?c = CTRL_D \<or> cons_e ?t - cons_r ?t = INPUT_BUF_SIZE")
      case True
      then have "typed me c s = woken me (Some ConsChan) (?t\<lparr>cons_w := cons_e ?t\<rparr>)"
        using False room by (simp add: typed_def Let_def)
      moreover have "line_edit c (cons_lines s, cons_line s) = (cons_lines s @ cons_line s @ [?c], [])"
        using True False c full by (auto simp: line_edit_def Let_def split: if_splits)
      ultimately show ?thesis using cm p(1,2) cons_commit [OF p(3)] by (simp only: wk) simp
    next
      case nf: False
      then have "typed me c s = ?t" using False room by (simp add: typed_def Let_def)
      moreover have "line_edit c (cons_lines s, cons_line s) = (cons_lines s, cons_line s @ [?c])"
        using nf False c full by (auto simp: line_edit_def Let_def NL_def split: if_splits)
      ultimately show ?thesis using p nf a(2) by auto
    qed
  qed
  then show "(cons_lines (typed me c s), cons_line (typed me c s)) = line_edit c (cons_lines s, cons_line s)"
    "cons_ok (typed me c s)" "NL \<notin> set (cons_line (typed me c s))" by blast+
qed

definition edited :: "nat option \<Rightarrow> u8 \<Rightarrow> 'a console_scheme \<Rightarrow> 'a console_scheme" where
  "edited me c s =
     (if c = 21 then s\<lparr>cons_e := cons_w s\<rparr>
      else if c = 8 \<or> c = 0x7f then (if cons_e s \<noteq> cons_w s then s\<lparr>cons_e := cons_e s - 1\<rparr> else s)
      else typed me c s)"

lemma neutral_edited: "lock_neutral (edited me c)"
proof -
  have "lock_neutral (\<lambda>s. s\<lparr>cons_e := cons_w s\<rparr>)" by (simp add: lock_neutral_def)
  moreover have "lock_neutral (\<lambda>s. if cons_e s \<noteq> cons_w s then s\<lparr>cons_e := cons_e s - 1\<rparr> else s)"
    by (simp add: lock_neutral_def)
  ultimately show ?thesis using neutral_typed [of me c] by (cases "c = 21"; cases "c = 8 \<or> c = 0x7f")
    (auto simp: edited_def [abs_def])
qed

lemma edited_spec:
  assumes a: "cons_ok s" "NL \<notin> set (cons_line s)"
  shows "(cons_lines (edited me c s), cons_line (edited me c s)) = line_edit c (cons_lines s, cons_line s)
    \<and> cons_ok (edited me c s) \<and> NL \<notin> set (cons_line (edited me c s))"
proof -
  consider "c = 21" | "c \<noteq> 21" "c = 8 \<or> c = 0x7f" | "c \<noteq> 21" "c \<noteq> 8" "c \<noteq> 0x7f" by blast
  then show ?thesis
  proof cases
    case 1
    have "cons_ok (s\<lparr>cons_e := cons_w s\<rparr>)" using a(1) by (auto simp: cons_ok_def)
    with 1 show ?thesis by (simp add: edited_def line_edit_def cons_lines_def line_empty [THEN iffD2])
  next
    case 2
    then show ?thesis using a back_line [OF a(1)] cons_back [OF a(1)] line_empty [of s]
      by (auto simp: edited_def line_edit_def dest: in_set_butlastD)
  next
    case 3
    then show ?thesis using typed_edit [OF a 3] by (simp add: edited_def)
  qed
qed

lemma edited_wakes:
  assumes ok: "cons_ok s" and ch: "cons_lines (edited me c s) \<noteq> cons_lines s"
  shows "\<exists>u. edited me c s = woken me (Some ConsChan) u \<and> ptable u = ptable s"
proof -
  let ?c = "if c = 13 then NL else c"
  let ?t = "s\<lparr>cons_buf := (cons_buf s)[unat (cons_e s mod INPUT_BUF_SIZE) := ?c], cons_e := cons_e s + 1\<rparr>"
  have "edited me c s = typed me c s" using ch by (auto simp: edited_def cons_lines_def split: if_splits)
  moreover from this have "c \<noteq> 0 \<and> cons_e s - cons_r s < INPUT_BUF_SIZE"
    using ch unfolding typed_def by (metis (no_types, lifting))
  moreover from this have "cons_lines ?t = cons_lines s"
    by (intro put_line [OF ok]) (simp add: cons_lengths(1) [OF ok] word_less_nat_alt INPUT_BUF_SIZE_def)
  ultimately have "edited me c s = woken me (Some ConsChan) (?t\<lparr>cons_w := cons_e ?t\<rparr>)"
    using ch unfolding typed_def Let_def by (metis (no_types, lifting))
  then show ?thesis by (intro exI [where x = "?t\<lparr>cons_w := cons_e ?t\<rparr>"] conjI) simp_all
qed

lemma consoleintr_eq:
  assumes q: "quiet s" and P: "uart_ready P" and s: "\<not> panicked s" "cons_ok s" "NL \<notin> set (cons_line s)" and c: "c \<noteq> 16"
  shows "consoleintr c P s = Ret () (edited (c_proc (mycpu s)) c s)"
proof -
  let ?a = "acquired ConsLock s"
  have sel: "panicked ?a = panicked s" "cons_ok ?a = cons_ok s" "cons_line ?a = cons_line s" "c_proc (mycpu ?a) = c_proc (mycpu s)"
    by (simp_all add: cons_ok_def cons_line_def) (simp_all add: lock_defs)
  then have a: "editing ?a" using q s by (simp add: editing_def)
  have len: "length (cons_line ?a) < 2 ^ 32" by (simp add: cons_line_def)
  have "(if c = 21 then console_kill_line (2 ^ 32)
           else if c = 8 \<or> c = 0x7f
           then bind (gets (\<lambda>s. cons_e s \<noteq> cons_w s)) (\<lambda>some.
                if some then bind (modify (\<lambda>s. s\<lparr>cons_e := cons_e s - 1\<rparr>)) (\<lambda>_. consputc BACKSPACE)
                else ret ())
           else consoleintr_char c) P ?a = Ret () (edited (c_proc (mycpu s)) c ?a)"
  proof (cases "c = 21 \<or> \<not> (c = 8 \<or> c = 0x7f)")
    case True
    then show ?thesis using kill_line_eq [OF P a len] consoleintr_char_eq [OF P a, of c] sel
      by (auto simp: edited_def)
  next
    case False
    then show ?thesis
    proof (cases "cons_e ?a = cons_w ?a")
      case True
      then show ?thesis using False by (simp add: edited_def bind_def ret_def)
    next
      case ne: False
      then show ?thesis using False editing_putc [OF P editing_back [OF a ne]] by (simp add: edited_def)
    qed
  qed
  then show ?thesis using q c release_quiet [OF q neutral_edited, of ConsLock P] by (simp add: consoleintr_def)
qed

text \<open>C23: The console is a line editor. With the transmitter ready, an input byte (other than the
  control-P dump) does to the lines that can be read and to the line being typed exactly what the
  specification \<open>line_edit\<close> says; a finished line wakes every reader; the handler always returns with
  all locks free.\<close>

theorem console_line_editor:
  assumes q: "quiet s" and P: "uart_ready P" and s: "\<not> panicked s" "cons_ok s" "NL \<notin> set (cons_line s)" and c: "c \<noteq> 16"
  shows "wp (consoleintr c) P s (\<lambda>_ t.
    (cons_lines t, cons_line t) = line_edit c (cons_lines s, cons_line s) \<and> cons_ok t \<and> NL \<notin> set (cons_line t)
    \<and> quiet t \<and> mem t = mem s
    \<and> (cons_lines t \<noteq> cons_lines s \<longrightarrow> (\<forall>j < NPROC. c_proc (mycpu s) \<noteq> Some j \<and> p_state (ptable s j) = SLEEPING
         \<and> p_chan (ptable s j) = Some ConsChan \<longrightarrow> p_state (ptable t j) = RUNNABLE)))"
proof -
  let ?me = "c_proc (mycpu s)" let ?t = "edited ?me c s"
  have wk: "p_state (ptable ?t j) = RUNNABLE"
    if "cons_lines ?t \<noteq> cons_lines s" "j < NPROC" "?me \<noteq> Some j" "p_state (ptable s j) = SLEEPING"
      "p_chan (ptable s j) = Some ConsChan" for j
    using edited_wakes [OF s(2) that(1)] that by (auto simp: woken_def woken_proc_def)
  have "quiet ?t" using q quiet_neutral [OF neutral_edited] by blast
  moreover have "mem ?t = mem s" by (simp add: edited_def typed_def Let_def woken_def)
  ultimately show ?thesis
    using consoleintr_eq [OF assms] edited_spec [OF s(2,3), of ?me c] wk by (simp add: wp_def)
qed

definition loopback :: "files platform" where
  "loopback = bare\<lparr>mmio_rd := (\<lambda>a s. (1, s))\<rparr>"

theorem console_line_editor_witness:
  "wp (consoleintr 13) loopback (files_on run0) (\<lambda>_ t. (cons_lines t, cons_line t) = ([10], []))"
proof -
  have P: "uart_ready loopback" by (simp add: uart_ready_def loopback_def bare_def UART_STATUS_TX_READY_def)
  have e: "cons_lines (files_on run0) = []" "cons_line (files_on run0) = []"
    by (simp_all add: cons_lines_def cons_line_def ring_bytes_def)
  have q: "quiet (files_on run0)" "\<not> panicked (files_on run0)" "cons_ok (files_on run0)"
    using quiet_cong [of "files_on run0" run0] by (simp_all add: cons_ok_def) (simp add: on_defs ext_defs)
  from console_line_editor [OF q(1) P q(2,3), of 13] e show ?thesis
    by (auto simp: line_edit_def NL_def elim!: wp_mono)
qed

end
