(* ===== verification/PrintfProps.thy ===== *)
theory PrintfProps
  imports Printf
begin

text \<open>
  Printing numbers: \<open>printint\<close> never overruns its buffer of 20 bytes, and what it and \<open>printptr\<close>
  print reads back as the number.
\<close>

text \<open>The value of a hexadecimal or decimal digit, and of a string of them, most significant first.\<close>

definition digit_val :: "u8 \<Rightarrow> nat" where
  "digit_val d = (if d < of_char CHR ''a'' then unat (d - of_char CHR ''0'') else unat (d - of_char CHR ''a'') + 10)"

fun digits_val :: "nat \<Rightarrow> u8 list \<Rightarrow> nat" where
  "digits_val base [] = 0"
| "digits_val base (d # ds) = digit_val d * base ^ length ds + digits_val base ds"

definition number_val :: "nat \<Rightarrow> u8 list \<Rightarrow> int" where
  "number_val base bs = (case bs of [] \<Rightarrow> 0
     | c # ds \<Rightarrow> if c = of_char CHR ''-'' then - int (digits_val base ds) else int (digits_val base bs))"

lemma digits_val_append: "digits_val base (xs @ ys) = digits_val base xs * base ^ length ys + digits_val base ys"
  by (induction xs) (simp_all add: algebra_simps power_add)

lemma digit_val_digits: "n < 16 \<Longrightarrow> digit_val (digits ! n) = n \<and> digits ! n \<noteq> of_char CHR ''-''"
proof -
  assume "n < 16"
  then have "n \<in> {0, 1, 2, 3, 4, 5, 6, 7, 8, 9, 10, 11, 12, 13, 14, 15}"
    unfolding insert_iff empty_iff by presburger
  then show ?thesis by (elim insertE emptyE) (simp_all add: digits_def cs_def digit_val_def)
qed

text \<open>Enough room for the digits of \<open>x\<close> is room for as many as a power of the base exceeds \<open>x\<close>.\<close>

lemma printint_digits_val:
  assumes b: "2 \<le> unat base" "unat base \<le> 16" and x: "unat x < unat base ^ n" and n: "0 < n" "n \<le> room"
  shows "\<exists>buf. printint_digits room x base = Some buf \<and> 0 < length buf \<and> length buf \<le> n
    \<and> digits_val (unat base) (rev buf) = unat x \<and> of_char CHR ''-'' \<notin> set buf"
  using x n
proof (induction room arbitrary: x n)
  case (Suc room)
  let ?d = "digits ! unat (x mod base)"
  have m: "unat (x mod base) = unat x mod unat base" "unat (x div base) = unat x div unat base"
    by (simp_all add: unat_mod_distrib unat_div_distrib)
  have lt: "unat (x mod base) < 16" using b by (simp add: m) (metis less_le_trans mod_less_divisor not_numeral_le_zero le_zero_eq neq0_conv)
  note d = digit_val_digits [OF lt]
  show ?case
  proof (cases "x div base = 0")
    case True
    then have "unat x div unat base = 0" using m(2) by (simp add: unat_eq_zero [symmetric])
    then have "unat x mod unat base = unat x" using b by (simp add: div_eq_0_iff)
    then show ?thesis using True d m(1) Suc.prems by (simp add: Let_def)
  next
    case False
    obtain k where k: "n = Suc k" using Suc.prems by (cases n) auto
    have "unat x div unat base < unat base ^ k"
      using Suc.prems(1) b by (simp add: k less_mult_imp_div_less mult.commute)
    then have lt: "unat (x div base) < unat base ^ k" by (simp add: m)
    moreover have "0 < k" using lt False by (cases k) (auto simp: unat_eq_zero)
    ultimately obtain buf where buf: "printint_digits room (x div base) base = Some buf" "0 < length buf" "length buf \<le> k"
      "digits_val (unat base) (rev buf) = unat (x div base)" "of_char CHR ''-'' \<notin> set buf"
      using Suc.IH [of "x div base" k] Suc.prems k by auto
    have "unat x = unat base * (unat x div unat base) + unat x mod unat base" by simp
    then show ?thesis using False buf d m by (simp add: Let_def k digits_val_append mult.commute)
  qed
qed simp

lemma sint_u32: "sint (x :: u32) = (if uint x < 2147483648 then uint x else uint x - 4294967296)"
proof -
  have u: "0 \<le> uint x" "uint x < 4294967296" using uint_lt2p [of x] by simp_all
  have "take_bit 32 (uint x) = uint x" using u by (simp add: take_bit_eq_mod)
  moreover have "bit (uint x) 31 \<longleftrightarrow> 2147483648 \<le> uint x"
  proof -
    have "uint x div 2147483648 = (if 2147483648 \<le> uint x then 1 else 0)" using u by auto
    then show ?thesis by (auto simp: bit_iff_odd)
  qed
  ultimately show ?thesis
    using signed_take_bit_eq_take_bit_minus [of 31 "uint x"] by (simp add: sint_uint)
qed

lemma printint_buf_val:
  assumes "base = 10 \<or> base = 16"
  shows "\<exists>buf. printint_buf xx base sign = Some buf \<and> length buf \<le> 11
    \<and> number_val (unat base) (rev buf) = (if sign then sint xx else uint xx)"
proof -
  let ?neg = "sign \<and> xx <s 0" let ?x = "if ?neg then - xx else xx"
  have "unat ?x < 4294967296" by (rule unat_u32_less)
  moreover have "4294967296 \<le> unat base ^ 10" using assms by auto
  ultimately have lt: "unat ?x < unat base ^ 10" by (rule less_le_trans)
  have b: "2 \<le> unat base" "unat base \<le> 16" using assms by auto
  obtain buf where buf: "printint_digits 20 ?x base = Some buf" "0 < length buf" "length buf \<le> 10"
    "digits_val (unat base) (rev buf) = unat ?x" "of_char CHR ''-'' \<notin> set buf"
    using printint_digits_val [OF b lt, of 20] by auto
  show ?thesis
  proof (cases ?neg)
    case True
    have neg: "2147483648 \<le> uint xx" using True uint_lt2p [of xx]
      by (simp add: word_sless_alt sint_u32 split: if_splits)
    have "uint (- xx) = (- uint xx) mod 4294967296" by (simp add: uint_word_ariths)
    also have "\<dots> = 4294967296 - uint xx"
      using neg uint_lt2p [of xx] by (simp add: zmod_zminus1_eq_if) 
    finally have "int (unat (- xx)) = - sint xx" using neg by (simp add: sint_u32)
    then show ?thesis using True buf by (simp add: printint_buf_def Let_def cs_def number_val_def)
  next
    case False
    have "int (unat xx) = (if sign then sint xx else uint xx)"
      using False uint_lt2p [of xx] by (auto simp: word_sless_alt sint_u32 split: if_splits)
    moreover have "number_val (unat base) (rev buf) = int (digits_val (unat base) (rev buf))"
      using buf(2,5) by (cases "rev buf") (auto simp: number_val_def)
    ultimately show ?thesis using False buf by (auto simp: printint_buf_def Let_def)
  qed
qed

text \<open>\<open>printptr\<close> shifts the next four bits to the top each time.\<close>

lemma ptr_digit:
  assumes "i < 8"
  shows "unat (drop_bit 28 (push_bit (4 * i) (x :: u32))) = unat x div 16 ^ (7 - i) mod 16"
proof -
  have e: "28 = 4 * i + 4 * (7 - i)" "(32 :: nat) = 4 * i + (4 * (7 - i) + 4)" using assms by simp_all
  have "unat (drop_bit 28 (push_bit (4 * i) x)) = unat x * 2 ^ (4 * i) mod 2 ^ 32 div 2 ^ 28"
    by (simp only: unsigned_drop_bit_eq unsigned_push_bit_eq) (simp add: drop_bit_eq_div take_bit_eq_mod push_bit_eq_mult)
  also have "\<dots> = (unat x * 2 ^ (4 * i)) mod 2 ^ (4 * i + (4 * (7 - i) + 4)) div 2 ^ (4 * i + 4 * (7 - i))"
    by (simp only: e [symmetric])
  also have "\<dots> = unat x mod 2 ^ (4 * (7 - i) + 4) div 2 ^ (4 * (7 - i))"
    by (simp add: power_add [of _ "4 * i"] mult.commute [of "unat x"] mult_mod_right [symmetric])
  also have "\<dots> = unat x div 2 ^ (4 * (7 - i)) mod 2 ^ 4"
    by (simp add: power_add mod_mult2_eq)
  finally show ?thesis by (simp add: power_mult)
qed

lemma digits_val_upt: "digits_val 16 (map (\<lambda>i. digits ! (v div 16 ^ (n - Suc i) mod 16)) [0..<n]) = v mod 16 ^ n"
proof (induction n arbitrary: v)
  case (Suc n)
  have "map (\<lambda>i. digits ! (v div 16 ^ (Suc n - Suc i) mod 16)) [0..<n]
    = map (\<lambda>i. digits ! (v div 16 div 16 ^ (n - Suc i) mod 16)) [0..<n]"
    by (simp add: div_mult2_eq [symmetric] Suc_diff_Suc power_Suc [symmetric] del: power_Suc)
  then show ?case unfolding upt_Suc
    by (simp add: Suc.IH digits_val_append digit_val_digits mod_mult2_eq del: diff_Suc_Suc map_eq_conv)
qed simp

lemma ptr_digits_val: "length (ptr_digits x) = 8 \<and> digits_val 16 (ptr_digits x) = unat x"
proof -
  have "ptr_digits x = map (\<lambda>i. digits ! (unat x div 16 ^ (8 - Suc i) mod 16)) [0..<8]"
    unfolding ptr_digits_def using ptr_digit [where x = x] by (intro map_cong refl) simp
  moreover have "unat x < 16 ^ 8" using unat_u32_less [of x] by simp
  ultimately show ?thesis using digits_val_upt [of "unat x" 8] by simp
qed

text \<open>C25: every number printed by \<open>printf\<close> fits and is the right one: for the bases 10 and 16 the
  code uses, \<open>printint\<close> never writes past its 20-byte buffer (it writes at most 11 bytes, also for the
  most negative number, whose negation overflows) and what it outputs, read back as a number in that
  base, is the argument, as a signed or as an unsigned 32-bit number; \<open>printptr\<close> outputs \<open>0x\<close> and
  exactly eight digits that read back as the pointer.\<close>

theorem printint_fits:
  fixes xx :: u32
  assumes "base = 10 \<or> base = 16"
  shows "(\<exists>buf. printint xx base sign = (putchars (rev buf) :: ('a console_scheme, unit) op)
      \<and> length buf \<le> 11 \<and> number_val (unat base) (rev buf) = (if sign then sint xx else uint xx))
    \<and> (\<exists>ds. printptr xx = (putchars (cs ''0x'' @ ds) :: ('a console_scheme, unit) op)
      \<and> length ds = 8 \<and> digits_val 16 ds = unat xx)"
  using printint_buf_val [OF assms, of xx sign] ptr_digits_val [of xx]
  by (auto simp: printint_def printptr_def)

theorem printint_fits_witness:
  "(\<exists>buf. printint 0x80000000 10 True = (putchars (rev buf) :: (unit console_scheme, unit) op)
      \<and> length buf \<le> 11 \<and> number_val 10 (rev buf) = - 2147483648)
   \<and> printint_buf 0x80000000 10 True = Some (rev (cs ''-2147483648''))"
proof
  show "\<exists>buf. printint 0x80000000 10 True = (putchars (rev buf) :: (unit console_scheme, unit) op)
      \<and> length buf \<le> 11 \<and> number_val 10 (rev buf) = - 2147483648"
    using printint_fits [where 'a = unit, of 10 "0x80000000" True] by (simp add: sint_u32)
  show "printint_buf 0x80000000 10 True = Some (rev (cs ''-2147483648''))"
    by code_simp
qed

end
