(* ===== verification/PrintfRun.thy ===== *)
theory PrintfRun
  imports ConsoleProps PrintfProps
begin

text \<open>
  Running \<open>printf\<close> where no lock is held: with arguments that match the format it returns, and leaves
  the kernel's state as it was.
\<close>

text \<open>The arguments a conversion takes: \<open>None\<close> if they do not match.\<close>

definition takes :: "conversion \<Rightarrow> fmt_arg list \<Rightarrow> fmt_arg list option" where
  "takes cv ap = (case cv of
       CPercent \<Rightarrow> Some ap
     | CStr \<Rightarrow> (case ap of AStr _ # ap' \<Rightarrow> Some ap' | _ \<Rightarrow> None)
     | _ \<Rightarrow> (case ap of ANum _ # ap' \<Rightarrow> Some ap' | _ \<Rightarrow> None))"

function fmt_fits :: "u8 list \<Rightarrow> fmt_arg list \<Rightarrow> bool" where
  "fmt_fits [] ap = True"
| "fmt_fits (cx # f) ap =
     (if cx \<noteq> of_char CHR ''%'' then fmt_fits f ap
      else case conversion_of f of
        Some (cv, k) \<Rightarrow> (case takes cv ap of None \<Rightarrow> False | Some ap' \<Rightarrow> fmt_fits (drop k f) ap')
      | None \<Rightarrow> (case f of [] \<Rightarrow> True | c0 # f' \<Rightarrow> fmt_fits f' ap))"
  by pat_completeness auto
termination by (relation "measure (\<lambda>(f, ap). length f)") auto

definition printable :: "'a console_scheme \<Rightarrow> bool" where
  "printable s \<longleftrightarrow> cpu_ok s \<and> settle s = s \<and> \<not> panicked s"

lemma putchars_eq: "uart_ready P \<Longrightarrow> printable s \<Longrightarrow> putchars bs P s = Ret () s"
  unfolding putchars_def by (induction bs) (simp_all add: ret_def consputc_eq printable_def)

lemma conversion_base: "conversion_of f = Some (CInt base sign, k) \<Longrightarrow> base = 10 \<or> base = 16"
  by (auto simp: conversion_of_def Let_def split: if_splits)

lemma print_conversion_eq:
  assumes P: "uart_ready P" and s: "printable s" and c: "conversion_of f = Some (cv, k)" and t: "takes cv ap = Some ap'"
  shows "print_conversion cv ap P s = Ret ap' s"
proof -
  note pc = putchars_eq [OF P s]
  have cp: "consputc c P s = Ret () s" for c using consputc_eq [OF P] s by (simp add: printable_def)
  show ?thesis
  proof (cases cv)
    case (CInt base sign)
    obtain n where ap: "ap = ANum n # ap'" using t CInt by (auto simp: takes_def split: list.splits fmt_arg.splits)
    obtain buf where "printint_buf n base sign = Some buf"
      using printint_buf_val [of base n sign] conversion_base c CInt by blast
    then show ?thesis using pc by (simp add: print_conversion_def CInt ap printint_def ret_def)
  qed (use t pc cp in \<open>auto simp: takes_def print_conversion_def printptr_def ret_def split: list.splits fmt_arg.splits option.splits\<close>)
qed

lemma printf_loop_eq: "uart_ready P \<Longrightarrow> printable s \<Longrightarrow> fmt_fits fmt ap \<Longrightarrow> printf_loop fmt ap P s = Ret () s"
proof (induction fmt ap rule: fmt_fits.induct)
  case (1 ap)
  then show ?case by (simp add: ret_def)
next
  case (2 cx f ap)
  have cp: "consputc c P s = Ret () s" for c
    using consputc_eq [OF "2.prems"(1)] "2.prems"(2) by (simp add: printable_def)
  show ?case
  proof (cases "cx = of_char CHR ''%''")
    case False
    then show ?thesis using 2 cp by simp
  next
    case pct: True
    show ?thesis
    proof (cases "conversion_of f")
      case None
      then show ?thesis using 2 pct cp by (cases f) (simp_all add: ret_def)
    next
      case (Some ck)
      obtain cv k where ck: "ck = (cv, k)" by (cases ck)
      obtain ap' where ap': "takes cv ap = Some ap'" "fmt_fits (drop k f) ap'"
        using "2.prems" pct Some ck by (auto split: option.splits)
      have "print_conversion cv ap P s = Ret ap' s"
        using print_conversion_eq [OF "2.prems"(1,2), of f cv k ap ap'] Some ck ap' by simp
      moreover have "printf_loop (drop k f) ap' P s = Ret () s"
        by (rule "2.IH"(3)) (use "2.prems" pct Some ck ap' in simp_all)
      ultimately show ?thesis using pct Some ck by simp
    qed
  qed
qed

lemma printf_quiet:
  assumes P: "uart_ready P" and q: "quiet s" and s: "\<not> panicked s" and f: "fmt_fits fmt ap"
  shows "printf fmt ap P s = Ret () s"
proof (cases "panicking s")
  case True
  have "printf_loop fmt ap P s = Ret () s"
    by (rule printf_loop_eq [OF P _ f]) (use q s in \<open>simp add: printable_def\<close>)
  then show ?thesis using True by (simp add: printf_def ret_def)
next
  case False
  let ?a = "acquired PrLock s"
  have sel: "panicking ?a = panicking s" "panicked ?a = panicked s" by (simp_all add: lock_defs)
  have "printf_loop fmt ap P ?a = Ret () ?a"
    by (rule printf_loop_eq [OF P _ f]) (use q s sel in \<open>simp add: printable_def\<close>)
  then show ?thesis using False q sel by (simp add: printf_def)
qed

end
