(* ===== verification/LogView.thy ===== *)
theory LogView
  imports CacheView PrintfRun
begin

text \<open>
  The log over the view of the cache: what the pieces of \<open>commit\<close> and of recovery write to disk, in
  which order.
\<close>

section \<open>Running operations one after the other\<close>

lemma wp_step: "wp m P s R \<Longrightarrow> (\<And>x t. R x t \<Longrightarrow> wp (f x) P t Q) \<Longrightarrow> wp (bind m f) P s Q"
  unfolding wp_bind by (rule wp_mono)

text \<open>\<open>io p s t W\<close>: from \<open>s\<close> to \<open>t\<close> only the cache and the disk changed, by the sector writes \<open>W\<close>.\<close>

definition io :: "nat \<Rightarrow> 'a bcache_scheme \<Rightarrow> 'a bcache_scheme \<Rightarrow> (u32 \<times> u8 list) list \<Rightarrow> bool" where
  "io p s t W \<longleftrightarrow> frame p s t \<and> wrote s t W"

lemma io_refl [simp]: "io p s s []"
  by (simp add: io_def wrote_def)

lemma io_trans: "io p s t W \<Longrightarrow> io p t u X \<Longrightarrow> io p s u (W @ X)"
  using frame_trans wrote_trans by (auto simp: io_def)

lemma io_trans_simps:
  "io p s t [] \<Longrightarrow> io p t u X \<Longrightarrow> io p s u X" "io p s t W \<Longrightarrow> io p t u [] \<Longrightarrow> io p s u W"
  using io_trans [of p s t "[]" u X] io_trans [of p s t W u "[]"] by simp_all

lemma frame_console: "frame p s t \<Longrightarrow> panicked t = panicked s \<and> panicking t = panicking s"
  by (auto simp: frame_def)

lemma frame_log:
  assumes "frame p s t"
  shows "log_n t = log_n s" "log_block t = log_block s" "log_start t = log_start s" "log_dev t = log_dev s"
    "log_outstanding t = log_outstanding s" "log_committing t = log_committing s" "log.more t = log.more s"
  using assms by (auto simp: frame_def)

lemmas io_log = frame_log [of p s t for p and s :: "'a log_scheme" and t]

text \<open>The state of a computation that began in \<open>s0\<close> and has written the sectors \<open>W\<close> since.\<close>

definition st :: "nat \<Rightarrow> nat \<Rightarrow> u32 \<Rightarrow> 'a bcache_scheme \<Rightarrow> (u32 \<times> u8 list) list \<Rightarrow> (u32 \<Rightarrow> u8 list) \<Rightarrow> (u32 \<Rightarrow> u8 list) \<Rightarrow>
    (u32 \<Rightarrow> nat) \<Rightarrow> u32 set \<Rightarrow> (u32 \<Rightarrow> nat) \<Rightarrow> 'a bcache_scheme \<Rightarrow> bool" where
  "st n p d s0 W D V R L B s \<longleftrightarrow> cached n p d \<lparr>vdisk = D, vdata = V, vref = R, vlocked = L, vbuf = B\<rparr> s \<and> io p s0 s W"

text \<open>At least \<open>m\<close> buffers are not in use.\<close>

definition room :: "(u32 \<Rightarrow> nat) \<Rightarrow> nat \<Rightarrow> bool" where
  "room R m \<longleftrightarrow> card {k. 0 < R k} + m \<le> NBUF"

lemma room_mono: "room R m \<Longrightarrow> k \<le> m \<Longrightarrow> room R k"
  by (simp add: room_def)

lemma room_upd: "room R (Suc m) \<Longrightarrow> room (R(k := x)) m"
proof -
  assume r: "room R (Suc m)"
  have "{i. 0 < (R(k := x)) i} \<subseteq> insert k {i. 0 < R i}" by auto
  then have "card {i. 0 < (R(k := x)) i} \<le> card (insert k {i. 0 < R i})" by (rule card_mono [rotated]) simp
  also have "\<dots> \<le> Suc (card {i. 0 < R i})" by (rule card_insert_le_m1) simp_all
  finally show ?thesis using r by (simp add: room_def)
qed

lemma st_bread:
  assumes "st n p d s0 W D V R L B s" "blk_dev n P" "on_disk n k" "k \<notin> L" "R k < 4294967294" "0 < R k \<or> room R 1"
    and "\<And>b t. (0 < R k \<longrightarrow> b = B k) \<Longrightarrow> st n p d s0 W D V (R(k := R k + 1)) (insert k L) (B(k := b)) t \<Longrightarrow> wp (f b) P t Q"
  shows "wp (bind (bread d k) f) P s Q"
proof (rule wp_step)
  let ?v = "\<lparr>vdisk = D, vdata = V, vref = R, vlocked = L, vbuf = B\<rparr>"
  show "wp (bread d k) P s (\<lambda>b t. cached n p d (v_read k b ?v) t \<and> frame p s t \<and> wrote s t []
      \<and> b < NBUF \<and> (0 < vref ?v k \<longrightarrow> b = vbuf ?v k))"
    by (rule bread_view) (use assms(1-6) in \<open>auto simp: st_def room_def in_use_def\<close>)
  fix b t assume t: "cached n p d (v_read k b ?v) t \<and> frame p s t \<and> wrote s t []
      \<and> b < NBUF \<and> (0 < vref ?v k \<longrightarrow> b = vbuf ?v k)"
  have "io p s0 t W" using assms(1) t io_trans [of p s0 s W t] by (fastforce simp: st_def io_def)
  then show "wp (f b) P t Q" using t by (intro assms(7)) (simp_all add: st_def v_read_def)
qed

lemma st_get_data:
  assumes "st n p d s0 W D V R L B s" "b = B k" "0 < R k" "st n p d s0 W D V R L B s \<Longrightarrow> wp (f (V k)) P s Q"
  shows "wp (bind (get_data b) f) P s Q"
  using get_data_view [of n p d "\<lparr>vdisk = D, vdata = V, vref = R, vlocked = L, vbuf = B\<rparr>" s k P] assms
  by (simp add: st_def wp_def)

lemma st_set_data:
  assumes "st n p d s0 W D V R L B s" "b = B k" "0 < R k" "length (g (V k)) = BSIZE"
    and "\<And>t. st n p d s0 W D (V(k := g (V k))) R L B t \<Longrightarrow> wp (f ()) P t Q"
  shows "wp (bind (set_data b g) f) P s Q"
proof (rule wp_step)
  let ?v = "\<lparr>vdisk = D, vdata = V, vref = R, vlocked = L, vbuf = B\<rparr>"
  show "wp (set_data b g) P s (\<lambda>_ t. cached n p d (v_set k (g (vdata ?v k)) ?v) t \<and> frame p s t \<and> wrote s t [])"
    using set_data_view [of n p d ?v s k g P] assms(1-4) by (simp add: st_def)
  fix x t assume t: "cached n p d (v_set k (g (vdata ?v k)) ?v) t \<and> frame p s t \<and> wrote s t []"
  have "io p s0 t W" using assms(1) t io_trans [of p s0 s W t] by (fastforce simp: st_def io_def)
  then show "wp (f x) P t Q" using t assms(5) [of t] by (simp add: st_def v_set_def)
qed

lemma st_bwrite:
  assumes "st n p d s0 W D V R L B s" "blk_dev n P" "b = B k" "k \<in> L"
    and "\<And>t. st n p d s0 (W @ sector_pair k (V k)) (D(k := V k)) V R L B t \<Longrightarrow> wp (f ()) P t Q"
  shows "wp (bind (bwrite b) f) P s Q"
proof (rule wp_step)
  let ?v = "\<lparr>vdisk = D, vdata = V, vref = R, vlocked = L, vbuf = B\<rparr>"
  show "wp (bwrite b) P s (\<lambda>_ t. cached n p d (v_write k ?v) t \<and> frame p s t \<and> wrote s t (sector_pair k (vdata ?v k)))"
    using bwrite_view [of n p d ?v s P k] assms(1-4) by (simp add: st_def)
  fix x t assume t: "cached n p d (v_write k ?v) t \<and> frame p s t \<and> wrote s t (sector_pair k (vdata ?v k))"
  have "io p s0 t (W @ sector_pair k (V k))" using assms(1) t io_trans [of p s0 s W t] by (fastforce simp: st_def io_def)
  then show "wp (f x) P t Q" using t assms(5) [of t] by (simp add: st_def v_write_def)
qed

lemma st_brelse:
  assumes "st n p d s0 W D V R L B s" "b = B k" "k \<in> L" "1 < R k \<or> V k = D k"
    and "\<And>t. st n p d s0 W D V (R(k := R k - 1)) (L - {k}) B t \<Longrightarrow> wp (f ()) P t Q"
  shows "wp (bind (brelse b) f) P s Q"
proof (rule wp_step)
  let ?v = "\<lparr>vdisk = D, vdata = V, vref = R, vlocked = L, vbuf = B\<rparr>"
  show "wp (brelse b) P s (\<lambda>_ t. cached n p d (v_rel k ?v) t \<and> frame p s t \<and> wrote s t [])"
    using brelse_view [of n p d ?v s k P] assms(1-4) by (simp add: st_def)
  fix x t assume t: "cached n p d (v_rel k ?v) t \<and> frame p s t \<and> wrote s t []"
  have "io p s0 t W" using assms(1) t io_trans [of p s0 s W t] by (fastforce simp: st_def io_def)
  then show "wp (f x) P t Q" using t assms(5) [of t] by (simp add: st_def v_rel_def)
qed

lemma st_bunpin:
  assumes "st n p d s0 W D V R L B s" "b = B k" "0 < R k" "1 < R k \<or> k \<notin> L \<and> V k = D k"
    and "\<And>t. st n p d s0 W D V (R(k := R k - 1)) L B t \<Longrightarrow> wp (f ()) P t Q"
  shows "wp (bind (bunpin b) f) P s Q"
proof (rule wp_step)
  let ?v = "\<lparr>vdisk = D, vdata = V, vref = R, vlocked = L, vbuf = B\<rparr>"
  show "wp (bunpin b) P s (\<lambda>_ t. cached n p d (v_unpin k ?v) t \<and> frame p s t \<and> wrote s t [])"
    using bunpin_view [of n p d ?v s k P] assms(1-4) by (simp add: st_def)
  fix x t assume t: "cached n p d (v_unpin k ?v) t \<and> frame p s t \<and> wrote s t []"
  have "io p s0 t W" using assms(1) t io_trans [of p s0 s W t] by (fastforce simp: st_def io_def)
  then show "wp (f x) P t Q" using t assms(5) [of t] by (simp add: st_def v_unpin_def)
qed

lemma st_bpin:
  assumes "st n p d s0 W D V R L B s" "b = B k" "0 < R k" "R k < 4294967294"
    and "\<And>t. st n p d s0 W D V (R(k := R k + 1)) L B t \<Longrightarrow> wp (f ()) P t Q"
  shows "wp (bind (bpin b) f) P s Q"
proof (rule wp_step)
  let ?v = "\<lparr>vdisk = D, vdata = V, vref = R, vlocked = L, vbuf = B\<rparr>"
  show "wp (bpin b) P s (\<lambda>_ t. cached n p d (v_pin k ?v) t \<and> frame p s t \<and> wrote s t [])"
    using bpin_view [of n p d ?v s k P] assms(1-4) by (simp add: st_def)
  fix x t assume t: "cached n p d (v_pin k ?v) t \<and> frame p s t \<and> wrote s t []"
  have "io p s0 t W" using assms(1) t io_trans [of p s0 s W t] by (fastforce simp: st_def io_def)
  then show "wp (f x) P t Q" using t assms(5) [of t] by (simp add: st_def v_pin_def)
qed

lemma wp_tail: "wp (bind m (\<lambda>x. ret x)) P s Q \<Longrightarrow> wp m P s Q"
  by simp

section \<open>Between operations\<close>

text \<open>No block is locked; the disk, the current content and the reference counts.\<close>

definition rep :: "nat \<Rightarrow> nat \<Rightarrow> u32 \<Rightarrow> (u32 \<Rightarrow> u8 list) \<Rightarrow> (u32 \<Rightarrow> u8 list) \<Rightarrow> (u32 \<Rightarrow> nat) \<Rightarrow> 'a bcache_scheme \<Rightarrow> bool" where
  "rep n p d D V R s \<longleftrightarrow> (\<exists>B. st n p d s [] D V R {} B s)"

lemma rep_st: "st n p d s0 W D V R {} B s \<Longrightarrow> D = D' \<Longrightarrow> V = V' \<Longrightarrow> R = R' \<Longrightarrow> rep n p d D' V' R' s \<and> io p s0 s W"
  by (auto simp: rep_def st_def)

lemma rep_used:
  assumes "rep n p d D V R s"
  shows "0 < R k \<Longrightarrow> on_disk n k" "on_disk n k \<Longrightarrow> length (V k) = BSIZE" "on_disk n k \<Longrightarrow> R k = 0 \<Longrightarrow> V k = D k"
  using assms by (auto simp: rep_def st_def cached_def view_ok_def)

lemma write_log_one_io:
  fixes s :: "'a log_scheme"
  assumes r: "rep n p d D V R s" and dev: "blk_dev n P" and l: "log_dev s = d" "log_start s + of_nat tail + 1 = a" "log_block s ! tail = h"
    and a: "on_disk n a" "R a = 0" "room R 1" and h: "0 < R h" "R h < 4294967293"
  shows "wp (write_log_one tail) P s (\<lambda>_ t. rep n p d (D(a := V h)) (V(a := V h)) R t \<and> io p s t (sector_pair a (V h)))"
proof -
  obtain B where "st n p d s [] D V R {} B s" using r unfolding rep_def by blast
  moreover have "a \<noteq> h" using a h by auto
  moreover have "on_disk n h" "length (V h) = BSIZE" using rep_used [OF r] h by auto
  ultimately show ?thesis using a h unfolding write_log_one_def wp_bind [of "gets f" for f] wp_gets prod.case l
    apply -
    apply (erule st_bread [OF _ dev]; simp?)
    apply (erule st_bread [OF _ dev]; simp?)
    apply (erule st_get_data [where k = h]; simp?)
    apply (erule st_set_data [where k = a]; simp?)
    apply (erule st_bwrite [where k = a, OF _ dev]; simp?)
    apply (erule st_brelse [where k = h]; simp?)
    apply (rule wp_tail, erule st_brelse [where k = a]; (simp add: wp_ret)?)
    apply (erule rep_st; auto)
    done
qed


section \<open>The log on disk\<close>

text \<open>The header block is \<open>start\<close>; the copies follow it.\<close>

definition log_at :: "u32 \<Rightarrow> nat \<Rightarrow> u32" where
  "log_at start j = start + of_nat j + 1"

definition log_area :: "nat \<Rightarrow> u32 \<Rightarrow> bool" where
  "log_area n start \<longleftrightarrow> unat start + LOGBLOCKS < 4294967296 \<and> n \<le> 4294967296 \<and> 2 * (unat start + LOGBLOCKS) + 1 < n"

definition in_log :: "u32 \<Rightarrow> u32 \<Rightarrow> bool" where
  "in_log start k \<longleftrightarrow> unat start \<le> unat k \<and> unat k \<le> unat start + LOGBLOCKS"

lemma on_disk_unat: "on_disk n k \<longleftrightarrow> n \<le> 4294967296 \<and> 2 * unat k + 1 < n"
  by (simp add: on_disk_def SECTORS_PER_BLOCK_def BSIZE_def SECTOR_SIZE_def mult.commute)

lemma unat_log_at: "log_area n start \<Longrightarrow> j < LOGBLOCKS \<Longrightarrow> unat (log_at start j) = unat start + j + 1"
proof -
  assume a: "log_area n start" "j < LOGBLOCKS"
  have "unat (start + of_nat (Suc j)) = unat start + Suc j"
    by (rule unat_add_nat) (use a in \<open>simp add: log_area_def\<close>)
  moreover have "log_at start j = start + of_nat (Suc j)" by (simp add: log_at_def)
  ultimately show ?thesis by simp
qed

lemma log_area:
  assumes "log_area n start"
  shows "on_disk n start" "in_log start start" "j < LOGBLOCKS \<Longrightarrow> on_disk n (log_at start j)"
    "j < LOGBLOCKS \<Longrightarrow> in_log start (log_at start j)" "j < LOGBLOCKS \<Longrightarrow> log_at start j \<noteq> start"
    "i < LOGBLOCKS \<Longrightarrow> j < LOGBLOCKS \<Longrightarrow> log_at start i = log_at start j \<longleftrightarrow> i = j"
proof -
  note u = unat_log_at [OF assms]
  show "on_disk n start" "in_log start start" using assms by (auto simp: on_disk_unat log_area_def in_log_def)
  show "j < LOGBLOCKS \<Longrightarrow> on_disk n (log_at start j)" using assms u [of j] by (simp add: on_disk_unat log_area_def)
  show "j < LOGBLOCKS \<Longrightarrow> in_log start (log_at start j)" using u [of j] by (simp add: in_log_def)
  show "log_at start j \<noteq> start" if "j < LOGBLOCKS"
  proof
    assume "log_at start j = start"
    then have "unat (log_at start j) = unat start" by (rule arg_cong)
    then show False using u [OF that] by simp
  qed
  show "i < LOGBLOCKS \<Longrightarrow> j < LOGBLOCKS \<Longrightarrow> log_at start i = log_at start j \<longleftrightarrow> i = j"
    using u [of i] u [of j] by (metis add_left_cancel add_right_cancel)
qed

text \<open>The sector writes of a sequence of block writes.\<close>

definition writes :: "(u32 \<times> u8 list) list \<Rightarrow> (u32 \<times> u8 list) list" where
  "writes ps = concat (map (\<lambda>(k, x). sector_pair k x) ps)"

lemma writes_simps [simp]: "writes [] = []" "writes (kx # ps) = sector_pair (fst kx) (snd kx) @ writes ps" "writes (ps @ qs) = writes ps @ writes qs"
  by (simp_all add: writes_def case_prod_beta)

lemma upds_other: "k \<notin> fst ` set ps \<Longrightarrow> upds ps f k = f k"
  by (induction ps arbitrary: f) auto

lemma upds_same:
  assumes "distinct (map fst ps)" "(k, x) \<in> set ps"
  shows "upds ps f k = x"
  using assms
proof (induction ps arbitrary: f)
  case (Cons ax ps)
  then show ?case by (cases "ax = (k, x)") (auto simp: upds_other image_iff)
qed simp

text \<open>What the log fields and the counts look like while the log holds the blocks \<open>hs\<close>: each is pinned
  once, none is in the log area.\<close>

definition log_fields :: "u32 \<Rightarrow> u32 \<Rightarrow> u32 list \<Rightarrow> 'a log_scheme \<Rightarrow> bool" where
  "log_fields d start hs s \<longleftrightarrow> log_dev s = d \<and> log_start s = start \<and> log_n s = int (length hs) \<and> length (log_block s) = LOGBLOCKS
     \<and> take (length hs) (log_block s) = hs"

lemma log_fields_nth: "log_fields d start hs s \<Longrightarrow> j < length hs \<Longrightarrow> log_block s ! j = hs ! j"
  by (metis log_fields_def nth_take)

lemma log_fields_len: "log_fields d start hs s \<Longrightarrow> length hs \<le> LOGBLOCKS"
  by (metis length_take log_fields_def min.cobounded1 min.commute)

lemma log_fields_io: "io p s t W \<Longrightarrow> log_fields d start hs s \<Longrightarrow> log_fields d start hs t"
  unfolding io_def log_fields_def by (metis frame_log(1-4))

definition log_copies :: "u32 \<Rightarrow> (u32 \<Rightarrow> u8 list) \<Rightarrow> u32 list \<Rightarrow> nat list \<Rightarrow> (u32 \<times> u8 list) list" where
  "log_copies start V hs js = map (\<lambda>j. (log_at start j, V (hs ! j))) js"

lemma write_log_io:
  fixes s :: "'a log_scheme"
  assumes r: "rep n p d D V R s" and dev: "blk_dev n P" and l: "log_fields d start hs s" and a: "log_area n start"
    and R: "\<forall>k. in_log start k \<longrightarrow> R k = 0" "\<forall>h \<in> set hs. R h = 1" "room R 1"
  shows "wp write_log P s (\<lambda>_ t. let ps = log_copies start V hs [0..<length hs] in
    rep n p d (upds ps D) (upds ps V) R t \<and> io p s t (writes ps))"
proof -
  let ?ps = "log_copies start V hs"
  let ?I = "\<lambda>ys t. rep n p d (upds (?ps ys) D) (upds (?ps ys) V) R t \<and> io p s t (writes (?ps ys))"
  have "wp (for_each [0..<length hs] write_log_one) P s (\<lambda>_. ?I [0..<length hs])"
  proof (rule wp_for_each)
    show "?I [] s" using r by (simp add: log_copies_def)
    fix ys j zs and t :: "'a log_scheme" assume e: "[0..<length hs] = ys @ j # zs" and i: "?I ys t"
    have "j \<in> set [0..<length hs]" "set ys \<subseteq> set [0..<length hs]" unfolding e by auto
    then have j: "j < length hs" "\<And>y. y \<in> set ys \<Longrightarrow> y < length hs" by auto
    note len = log_fields_len [OF l]
    have ja: "j < LOGBLOCKS" "on_disk n (log_at start j)" "in_log start (log_at start j)" using j len log_area [OF a] by auto
    have lt: "log_fields d start hs t" using log_fields_io i l by blast
    have "hs ! j \<notin> fst ` set (?ps ys)"
    proof
      assume "hs ! j \<in> fst ` set (?ps ys)"
      then obtain y where y: "y \<in> set ys" "hs ! j = log_at start y" by (auto simp: log_copies_def)
      then have "in_log start (hs ! j)" using j(2) [OF y(1)] len log_area(4) [OF a, of y] by simp
      then show False using R j(1) by force
    qed
    then have v: "upds (?ps ys) V (hs ! j) = V (hs ! j)" by (rule upds_other)
    have "wp (write_log_one j) P t (\<lambda>_ u. rep n p d ((upds (?ps ys) D)(log_at start j := V (hs ! j)))
        ((upds (?ps ys) V)(log_at start j := V (hs ! j))) R u \<and> io p t u (sector_pair (log_at start j) (V (hs ! j))))"
      unfolding v [symmetric]
    proof (rule write_log_one_io [OF _ dev])
      show "rep n p d (upds (?ps ys) D) (upds (?ps ys) V) R t" using i ..
      show "log_start t + of_nat j + 1 = log_at start j" using lt by (simp add: log_fields_def log_at_def)
      show "log_dev t = d" "log_block t ! j = hs ! j" using lt log_fields_nth [OF lt j(1)] by (auto simp: log_fields_def)
    qed (use ja R j in auto)
    then show "wp (write_log_one j) P t (\<lambda>_. ?I (ys @ [j]))"
      by (rule wp_mono) (use i io_trans [of p s t] in \<open>simp add: log_copies_def\<close>)
  qed
  then show ?thesis using l by (simp add: write_log_def wp_bind wp_gets log_fields_def Let_def)
qed

end
