(* ===== verification/Commit.thy ===== *)
theory Commit
  imports LogView
begin

text \<open>
  Committing a transaction and recovering from the log: what \<open>write_head\<close>, \<open>install_trans\<close>, \<open>commit\<close>
  and \<open>recover_from_log\<close> do to the blocks, and the sector writes they issue, in order.
\<close>

section \<open>The header\<close>

lemma length_concat_bytes32: "length (concat (map bytes32 hs)) = 4 * length hs"
  by (induction hs) simp_all

lemma length_put_at: "off + length bs \<le> length data \<Longrightarrow> length (put_at off bs data) = length data"
  by (simp add: put_at_def)

lemma length_put_head:
  assumes "length hs \<le> LOGBLOCKS" "length data = BSIZE" "take (length hs) bl = hs"
  shows "length (put_head (int (length hs)) bl data) = BSIZE"
  using assms unfolding put_head_def
  by (subst length_put_at) (simp_all add: length_concat_bytes32 LOGBLOCKS_def MAXOPBLOCKS_def BSIZE_def)

text \<open>The header with the blocks \<open>hs\<close>.\<close>

definition header :: "u32 list \<Rightarrow> u8 list \<Rightarrow> u8 list" where
  "header hs data = put_at 0 (bytes32 (of_nat (length hs)) @ concat (map bytes32 hs)) data"

lemma put_head_header: "take (length hs) bl = hs \<Longrightarrow> put_head (int (length hs)) bl data = header hs data"
  by (simp add: put_head_def header_def)

lemma length_header: "length hs \<le> LOGBLOCKS \<Longrightarrow> length data = BSIZE \<Longrightarrow> length (header hs data) = BSIZE"
  unfolding header_def by (subst length_put_at) (simp_all add: length_concat_bytes32 LOGBLOCKS_def MAXOPBLOCKS_def BSIZE_def)

text \<open>Reading the header back.\<close>

lemma get32_at: "length xs = off \<Longrightarrow> get32 (xs @ bytes32 w @ ys) off = w"
  by (simp add: get32_def)

lemma concat_bytes32_nth: "j < length hs \<Longrightarrow> concat (map bytes32 hs) =
  concat (map bytes32 (take j hs)) @ bytes32 (hs ! j) @ concat (map bytes32 (drop (Suc j) hs))"
  by (metis append_take_drop_id concat_append Cons_nth_drop_Suc concat.simps(2) map_append list.map(2))

lemma header_fields:
  assumes "length hs \<le> LOGBLOCKS"
  shows "head_n (header hs data) = int (length hs)" "j < length hs \<Longrightarrow> head_block (header hs data) j = hs ! j"
proof -
  have h: "header hs data = bytes32 (of_nat (length hs)) @ concat (map bytes32 hs) @ drop (4 + 4 * length hs) data"
    by (simp add: header_def put_at_def length_concat_bytes32)
  have "get32 (header hs data) 0 = of_nat (length hs)"
    using get32_at [of "[]" 0 "of_nat (length hs)"] by (simp add: h)
  moreover have "sint (of_nat (length hs) :: u32) = int (length hs)"
    using assms by (simp add: sint_u32 LOGBLOCKS_def MAXOPBLOCKS_def uint_nat unat_of_nat take_bit_eq_mod)
  ultimately show "head_n (header hs data) = int (length hs)" by (simp add: head_n_def)
  assume j: "j < length hs"
  have "header hs data = (bytes32 (of_nat (length hs)) @ concat (map bytes32 (take j hs))) @ bytes32 (hs ! j)
      @ concat (map bytes32 (drop (Suc j) hs)) @ drop (4 + 4 * length hs) data"
    unfolding h concat_bytes32_nth [OF j] by simp
  then show "head_block (header hs data) j = hs ! j"
    using j by (simp only: head_block_def) (intro get32_at, simp add: length_concat_bytes32)
qed

text \<open>Only the first sector of the header changes.\<close>

lemma header_second_half:
  "length hs \<le> LOGBLOCKS \<Longrightarrow> length data = BSIZE \<Longrightarrow> drop SECTOR_SIZE (header hs data) = drop SECTOR_SIZE data"
  by (simp add: header_def put_at_def length_concat_bytes32 SECTOR_SIZE_def LOGBLOCKS_def MAXOPBLOCKS_def)

lemma write_head_io:
  fixes s :: "'a log_scheme"
  assumes r: "rep n p d D V R s" and dev: "blk_dev n P" and l: "log_fields d start hs s" and a: "on_disk n start" "R start = 0" "room R 1"
  shows "wp write_head P s (\<lambda>_ t. rep n p d (D(start := header hs (V start))) (V(start := header hs (V start))) R t
    \<and> io p s t (sector_pair start (header hs (V start))))"
proof -
  obtain B where "st n p d s [] D V R {} B s" using r unfolding rep_def by blast
  moreover have "length (header hs (V start)) = BSIZE"
    by (rule length_header [OF log_fields_len [OF l]]) (use rep_used(2) [OF r] a in simp)
  moreover have f: "log_dev s = d" "log_start s = start" "log_n s = int (length hs)" "put_head (int (length hs)) (log_block s) = header hs"
    using l put_head_header [of hs "log_block s"] by (auto simp: log_fields_def)
  ultimately show ?thesis using a unfolding write_head_def wp_bind [of "gets f" for f] wp_gets prod.case f
    apply -
    apply (erule st_bread [OF _ dev]; simp?)
    apply (erule st_set_data [where k = start]; simp?)
    apply (erule st_bwrite [where k = start, OF _ dev]; simp?)
    apply (rule wp_tail, erule st_brelse [where k = start]; (simp add: wp_ret)?)
    apply (erule rep_st; auto)
    done
qed

section \<open>Installing\<close>

lemma st_end: "st n p d s0 W D V R L B s \<Longrightarrow> L = {} \<Longrightarrow> D = D' \<Longrightarrow> V = V' \<Longrightarrow> R = R' \<Longrightarrow> rep n p d D' V' R' s \<and> io p s0 s W"
  using rep_st by blast

lemma install_one_io:
  fixes s :: "'a log_scheme"
  assumes r: "rep n p d D V R s" and dev: "blk_dev n P" and l: "log_dev s = d" "log_start s + of_nat j + 1 = a" "log_block s ! j = h"
    and a: "on_disk n a" "R a = 0" "room R 1" and h: "R h = 1"
  shows "wp (install_one False j) P s (\<lambda>_ t. rep n p d (D(h := V a)) (V(h := V a)) (R(h := 0)) t \<and> io p s t (sector_pair h (V a)))"
proof -
  obtain B where "st n p d s [] D V R {} B s" using r unfolding rep_def by blast
  moreover have "a \<noteq> h" using a h by auto
  moreover have "on_disk n h" "length (V a) = BSIZE" "V a = D a" using rep_used(1) [OF r, of h] rep_used(2,3) [OF r, of a] a h by simp_all
  ultimately show ?thesis using a h unfolding install_one_def wp_bind [of "gets f" for f] wp_gets prod.case l if_False bind_ret_left
    apply -
    apply (erule st_bread [OF _ dev]; simp?)
    apply (erule st_bread [OF _ dev]; simp?)
    apply (erule st_get_data [where k = a]; simp?)
    apply (erule st_set_data [where k = h]; simp?)
    apply (erule st_bwrite [where k = h, OF _ dev]; simp?)
    apply (erule st_bunpin [where k = h]; simp?)
    apply (erule st_brelse [where k = a]; simp?)
    apply (rule wp_tail, erule st_brelse [where k = h]; (simp add: wp_ret)?)
    apply (erule st_end; auto)
    done
qed

text \<open>The same when recovering: nothing is pinned yet, and a line is printed.\<close>

lemma recovering_fits: "fmt_fits (cs ''recovering tail %d dst %d'' @ [10]) [ANum x, ANum y]"
  by (simp add: cs_def conversion_of_def takes_def)

lemma install_one_recovering_io:
  fixes s :: "'a log_scheme"
  assumes r: "rep n p d D V R s" and dev: "blk_dev n P" and u: "uart_ready P" "\<not> panicked s"
    and l: "log_dev s = d" "log_start s + of_nat j + 1 = a" "log_block s ! j = h"
    and a: "on_disk n a" "R a = 0" "room R 2" "a \<noteq> h" and h: "R h = 0" "on_disk n h"
  shows "wp (install_one True j) P s (\<lambda>_ t. rep n p d (D(h := V a)) (V(h := V a)) R t \<and> io p s t (sector_pair h (V a)))"
proof -
  obtain B where st: "st n p d s [] D V R {} B s" using r unfolding rep_def by blast
  then have q: "quiet s" by (simp add: st_def cached_def)
  have pr: "wp (bind (printf (cs ''recovering tail %d dst %d'' @ [10]) [ANum (of_nat j), ANum h]) f) P s Q = wp (f ()) P s Q" for f Q
    using printf_quiet [OF u(1) q u(2) recovering_fits] by (simp add: wp_def)
  have room: "room (R(a := x)) (Suc 0)" for x using room_upd [of R 1] a(3) by (simp add: numeral_2_eq_2)
  have "room R (Suc 0)" using room_mono [OF a(3)] by simp
  moreover have "length (V a) = BSIZE" "V a = D a" using rep_used(1) [OF r, of h] rep_used(2,3) [OF r, of a] a h by simp_all
  ultimately show ?thesis using st a h unfolding install_one_def wp_bind [of "gets f" for f] wp_gets prod.case l if_True pr
    apply -
    apply (erule st_bread [OF _ dev]; simp?)
    apply (erule st_bread [OF _ dev]; simp add: room)
    apply (erule st_get_data [where k = a]; simp?)
    apply (erule st_set_data [where k = h]; simp?)
    apply (erule st_bwrite [where k = h, OF _ dev]; simp?)
    apply (erule st_brelse [where k = a]; simp?)
    apply (rule wp_tail, erule st_brelse [where k = h]; (simp add: wp_ret)?)
    apply (erule st_end; auto)
    done
qed

text \<open>All of them: the copies go to the blocks in the order of the log.\<close>

definition installs :: "u32 \<Rightarrow> (u32 \<Rightarrow> u8 list) \<Rightarrow> u32 list \<Rightarrow> nat list \<Rightarrow> (u32 \<times> u8 list) list" where
  "installs start V hs js = map (\<lambda>j. (hs ! j, V (log_at start j))) js"

lemma installs_other:
  assumes a: "log_area n start" and hs: "length hs \<le> LOGBLOCKS" "\<forall>h \<in> set hs. \<not> in_log start h"
    and j: "j < LOGBLOCKS" and js: "set js \<subseteq> {..<length hs}"
  shows "upds (installs start V hs js) F (log_at start j) = F (log_at start j)"
proof (rule upds_other)
  show "log_at start j \<notin> fst ` set (installs start V hs js)"
    using hs js log_area(4) [OF a j] by (auto simp: installs_def)
qed

lemma install_trans_io:
  fixes s :: "'a log_scheme"
  assumes r: "rep n p d D V R s" and dev: "blk_dev n P" and l: "log_fields d start hs s" and a: "log_area n start"
    and R: "\<forall>k. in_log start k \<longrightarrow> R k = 0" "\<forall>h \<in> set hs. R h = 1" "room R 1" and d: "distinct hs"
  shows "wp (install_trans False) P s (\<lambda>_ t. let ps = installs start V hs [0..<length hs] in
    rep n p d (upds ps D) (upds ps V) (\<lambda>k. if k \<in> set hs then 0 else R k) t \<and> io p s t (writes ps))"
proof -
  let ?ps = "installs start V hs"
  let ?R = "\<lambda>ys k. if k \<in> (\<lambda>j. hs ! j) ` set ys then 0 else R k"
  let ?I = "\<lambda>ys t. rep n p d (upds (?ps ys) D) (upds (?ps ys) V) (?R ys) t \<and> io p s t (writes (?ps ys))"
  note len = log_fields_len [OF l]
  have home: "\<forall>h \<in> set hs. \<not> in_log start h" using R by force
  have "wp (for_each [0..<length hs] (install_one False)) P s (\<lambda>_. ?I [0..<length hs])"
  proof (rule wp_for_each)
    show "?I [] s" using r by (simp add: installs_def)
    fix ys j zs and t :: "'a log_scheme" assume e: "[0..<length hs] = ys @ j # zs" and i: "?I ys t"
    have "j \<in> set [0..<length hs]" "set ys \<subseteq> set [0..<length hs]" unfolding e by auto
    then have j: "j < length hs" "set ys \<subseteq> {..<length hs}" by auto
    have "j \<notin> set ys" using arg_cong [OF e, of distinct] by simp
    then have new: "hs ! j \<notin> (\<lambda>j. hs ! j) ` set ys" using d j by (auto simp: nth_eq_iff_index_eq)
    have ja: "j < LOGBLOCKS" "on_disk n (log_at start j)" "in_log start (log_at start j)" using j len log_area [OF a] by auto
    have lt: "log_fields d start hs t" using log_fields_io i l by blast
    have v: "upds (?ps ys) V (log_at start j) = V (log_at start j)" by (rule installs_other [OF a len home ja(1) j(2)])
    have "{k. 0 < ?R ys k} \<subseteq> {k. 0 < R k}" by auto
    then have room: "room (?R ys) 1" using R(3) card_mono [of "{k. 0 < R k}" "{k. 0 < ?R ys k}"] by (simp add: room_def)
    have "wp (install_one False j) P t (\<lambda>_ u. rep n p d ((upds (?ps ys) D)(hs ! j := V (log_at start j)))
        ((upds (?ps ys) V)(hs ! j := V (log_at start j))) ((?R ys)(hs ! j := 0)) u \<and> io p t u (sector_pair (hs ! j) (V (log_at start j))))"
      unfolding v [symmetric]
    proof (rule install_one_io [OF _ dev])
      show "rep n p d (upds (?ps ys) D) (upds (?ps ys) V) (?R ys) t" using i ..
      show "log_start t + of_nat j + 1 = log_at start j" using lt by (simp add: log_fields_def log_at_def)
      show "log_dev t = d" "log_block t ! j = hs ! j" using lt log_fields_nth [OF lt j(1)] by (auto simp: log_fields_def)
    qed (use ja R j new room in auto)
    moreover have "(?R ys)(hs ! j := 0) = ?R (ys @ [j])" by auto
    ultimately show "wp (install_one False j) P t (\<lambda>_. ?I (ys @ [j]))"
      by (elim wp_mono) (use i io_trans [of p s t] in \<open>simp add: installs_def\<close>)
  qed
  moreover have "?R [0..<length hs] = (\<lambda>k. if k \<in> set hs then 0 else R k)"
    by (rule ext) (auto simp: in_set_conv_nth image_iff)
  ultimately show ?thesis using l by (simp add: install_trans_def wp_bind wp_gets log_fields_def Let_def)
qed

lemma recover_install_io:
  fixes s :: "'a log_scheme"
  assumes r: "rep n p d D D R s" and dev: "blk_dev n P" and u: "uart_ready P" "\<not> panicked s"
    and l: "log_fields d start hs s" and a: "log_area n start"
    and R: "\<forall>k. R k = 0" and hs: "\<forall>h \<in> set hs. on_disk n h \<and> \<not> in_log start h"
  shows "wp (install_trans True) P s (\<lambda>_ t. let ps = installs start D hs [0..<length hs] in
    rep n p d (upds ps D) (upds ps D) R t \<and> io p s t (writes ps))"
proof -
  let ?ps = "installs start D hs"
  let ?I = "\<lambda>ys t. rep n p d (upds (?ps ys) D) (upds (?ps ys) D) R t \<and> io p s t (writes (?ps ys))"
  note len = log_fields_len [OF l]
  have home: "\<forall>h \<in> set hs. \<not> in_log start h" using hs by blast
  have "wp (for_each [0..<length hs] (install_one True)) P s (\<lambda>_. ?I [0..<length hs])"
  proof (rule wp_for_each)
    show "?I [] s" using r by (simp add: installs_def)
    fix ys j zs and t :: "'a log_scheme" assume e: "[0..<length hs] = ys @ j # zs" and i: "?I ys t"
    have "j \<in> set [0..<length hs]" "set ys \<subseteq> set [0..<length hs]" unfolding e by auto
    then have j: "j < length hs" "set ys \<subseteq> {..<length hs}" by auto
    have ja: "j < LOGBLOCKS" "on_disk n (log_at start j)" "in_log start (log_at start j)" using j len log_area [OF a] by auto
    have hj: "on_disk n (hs ! j)" "log_at start j \<noteq> hs ! j" using hs j(1) ja(3) nth_mem [OF j(1)] by auto
    have lt: "log_fields d start hs t" using log_fields_io i l by blast
    have v: "upds (?ps ys) D (log_at start j) = D (log_at start j)" by (rule installs_other [OF a len home ja(1) j(2)])
    have pt: "\<not> panicked t" using i u(2) frame_console by (auto simp: io_def)
    have "wp (install_one True j) P t (\<lambda>_ u. rep n p d ((upds (?ps ys) D)(hs ! j := D (log_at start j)))
        ((upds (?ps ys) D)(hs ! j := D (log_at start j))) R u \<and> io p t u (sector_pair (hs ! j) (D (log_at start j))))"
      unfolding v [symmetric]
    proof (rule install_one_recovering_io [OF _ dev u(1) pt])
      show "rep n p d (upds (?ps ys) D) (upds (?ps ys) D) R t" using i ..
      show "log_start t + of_nat j + 1 = log_at start j" using lt by (simp add: log_fields_def log_at_def)
      show "log_dev t = d" "log_block t ! j = hs ! j" using lt log_fields_nth [OF lt j(1)] by (auto simp: log_fields_def)
      show "room R 2" using R by (simp add: room_def NBUF_def MAXOPBLOCKS_def)
    qed (use ja R hj in auto)
    then show "wp (install_one True j) P t (\<lambda>_. ?I (ys @ [j]))"
      by (rule wp_mono) (use i io_trans [of p s t] in \<open>simp add: installs_def\<close>)
  qed
  then show ?thesis using l by (simp add: install_trans_def wp_bind wp_gets log_fields_def Let_def)
qed

section \<open>Changes above the cache\<close>

lemma cached_truncate: "cached n p d v s = cached n p d v (bcache.truncate s)"
  by (simp add: cached_def disk_ok_def bcache_inv_def disk_block_def mycpu_def quiet_def cpu_ok_def lock_free_def ie_def bcache.defs)

lemma cached_above:
  "cached n p d v (s\<lparr>log_n := x\<rparr>) = cached n p d v s" "cached n p d v (s\<lparr>log_block := xs\<rparr>) = cached n p d v s"
  "cached n p d v (s\<lparr>log_outstanding := x\<rparr>) = cached n p d v s" "cached n p d v (s\<lparr>log_committing := b\<rparr>) = cached n p d v s"
  by (simp_all add: cached_truncate [of _ _ _ _ "s\<lparr>log_n := x\<rparr>"] cached_truncate [of _ _ _ _ "s\<lparr>log_block := xs\<rparr>"]
    cached_truncate [of _ _ _ _ "s\<lparr>log_outstanding := x\<rparr>"] cached_truncate [of _ _ _ _ "s\<lparr>log_committing := b\<rparr>"]
    cached_truncate [of _ _ _ _ s] bcache.defs)

lemma rep_cached: "rep n p d D V R s \<longleftrightarrow> (\<exists>B. cached n p d \<lparr>vdisk = D, vdata = V, vref = R, vlocked = {}, vbuf = B\<rparr> s)"
  by (simp add: rep_def st_def)

lemma rep_above:
  "rep n p d D V R (s\<lparr>log_n := x\<rparr>) = rep n p d D V R s" "rep n p d D V R (s\<lparr>log_block := xs\<rparr>) = rep n p d D V R s"
  "rep n p d D V R (s\<lparr>log_outstanding := x\<rparr>) = rep n p d D V R s" "rep n p d D V R (s\<lparr>log_committing := b\<rparr>) = rep n p d D V R s"
  by (simp_all add: rep_cached cached_above)

text \<open>A change of the upper part commutes with what the cache does.\<close>

lemma frame_above:
  assumes "frame p s t"
  shows "frame p (s\<lparr>log_n := x\<rparr>) (t\<lparr>log_n := x\<rparr>)" "frame p (s\<lparr>log_block := xs\<rparr>) (t\<lparr>log_block := xs\<rparr>)"
    "frame p (s\<lparr>log_outstanding := x\<rparr>) (t\<lparr>log_outstanding := x\<rparr>)" "frame p (s\<lparr>log_committing := b\<rparr>) (t\<lparr>log_committing := b\<rparr>)"
proof -
  obtain m r dk dw sl bs pt where t: "t = s\<lparr>mem := m, devregs := r, disk := dk, disk_writes := dw, sleeplocks := sl,
      bufs := bs, ptable := pt\<rparr>" and f: "\<forall>a. BSIZE \<le> unat (a - bounce s) \<longrightarrow> m a = mem s a" "pt p = ptable s p"
     "\<forall>i. (pt i)\<lparr>p_state := p_state (ptable s i)\<rparr> = ptable s i" "\<forall>l. (\<forall>b. l \<noteq> BufLk b) \<longrightarrow> sl l = sleeplocks s l"
    using assms unfolding frame_def by blast
  have "frame p u (u\<lparr>mem := m, devregs := r, disk := dk, disk_writes := dw, sleeplocks := sl, bufs := bs, ptable := pt\<rparr>)"
    if "bounce u = bounce s" "mem u = mem s" "ptable u = ptable s" "sleeplocks u = sleeplocks s" for u :: "'a log_scheme"
    unfolding frame_def using f that by (intro exI conjI) (rule refl, simp_all)
  then have *: "frame p u v"
    if "bounce u = bounce s" "mem u = mem s" "ptable u = ptable s" "sleeplocks u = sleeplocks s"
      "v = u\<lparr>mem := m, devregs := r, disk := dk, disk_writes := dw, sleeplocks := sl, bufs := bs, ptable := pt\<rparr>" for u v :: "'a log_scheme"
    using that by blast
  show "frame p (s\<lparr>log_n := x\<rparr>) (t\<lparr>log_n := x\<rparr>)" by (rule *) (simp_all add: t)
  show "frame p (s\<lparr>log_block := xs\<rparr>) (t\<lparr>log_block := xs\<rparr>)" by (rule *) (simp_all add: t)
  show "frame p (s\<lparr>log_outstanding := x\<rparr>) (t\<lparr>log_outstanding := x\<rparr>)" by (rule *) (simp_all add: t)
  show "frame p (s\<lparr>log_committing := b\<rparr>) (t\<lparr>log_committing := b\<rparr>)" by (rule *) (simp_all add: t)
qed

lemma io_above:
  assumes "io p s t W"
  shows "io p (s\<lparr>log_n := x\<rparr>) (t\<lparr>log_n := x\<rparr>) W" "io p (s\<lparr>log_block := xs\<rparr>) (t\<lparr>log_block := xs\<rparr>) W"
    "io p (s\<lparr>log_outstanding := x\<rparr>) (t\<lparr>log_outstanding := x\<rparr>) W" "io p (s\<lparr>log_committing := b\<rparr>) (t\<lparr>log_committing := b\<rparr>) W"
  using assms frame_above by (auto simp: io_def wrote_def)

section \<open>Committing\<close>

text \<open>The block writes of a commit of the blocks \<open>hs\<close>, whose content is \<open>V\<close>; \<open>old\<close> is the header before.\<close>

definition commit_blocks :: "u32 \<Rightarrow> (u32 \<Rightarrow> u8 list) \<Rightarrow> u32 list \<Rightarrow> (u32 \<times> u8 list) list" where
  "commit_blocks start V hs =
     map (\<lambda>j. (log_at start j, V (hs ! j))) [0..<length hs]
     @ [(start, header hs (V start))]
     @ map (\<lambda>h. (h, V h)) hs
     @ [(start, header [] (header hs (V start)))]"


definition pinned :: "u32 list \<Rightarrow> u32 \<Rightarrow> nat" where
  "pinned hs k = (if k \<in> set hs then 1 else 0)"

definition homes :: "nat \<Rightarrow> u32 \<Rightarrow> u32 list \<Rightarrow> bool" where
  "homes n start hs \<longleftrightarrow> distinct hs \<and> (\<forall>h \<in> set hs. on_disk n h \<and> \<not> in_log start h)"

lemma pinned_room: "distinct hs \<Longrightarrow> length hs < NBUF \<Longrightarrow> room (pinned hs) 1"
proof -
  assume "distinct hs" "length hs < NBUF"
  moreover have "{k. 0 < pinned hs k} = set hs" by (auto simp: pinned_def)
  ultimately show ?thesis by (simp add: room_def distinct_card)
qed

lemma commit_io:
  fixes s :: "'a log_scheme"
  assumes r: "rep n p d D V (pinned hs) s" and dev: "blk_dev n P" and l: "log_fields d start hs s" and a: "log_area n start"
    and hs: "homes n start hs" "hs \<noteq> []" "length hs < NBUF"
  shows "wp commit P s (\<lambda>_ t. let cb = commit_blocks start V hs in
    rep n p d (upds cb D) (upds cb V) (\<lambda>_. 0) t \<and> io p (s\<lparr>log_n := 0\<rparr>) t (writes cb))"
proof -
  let ?R = "pinned hs" and ?js = "[0..<length hs]"
  let ?ps = "log_copies start V hs ?js" let ?V1 = "upds ?ps V" and ?D1 = "upds ?ps D"
  let ?h1 = "header hs (V start)" let ?V2 = "?V1(start := ?h1)" and ?D2 = "?D1(start := ?h1)"
  let ?qs = "installs start ?V2 hs ?js" let ?V3 = "upds ?qs ?V2" and ?D3 = "upds ?qs ?D2"
  let ?h2 = "header [] ?h1"
  note len = log_fields_len [OF l]
  have R: "\<forall>k. in_log start k \<longrightarrow> ?R k = 0" "\<forall>h \<in> set hs. ?R h = 1" "room ?R 1" "distinct hs"
    using hs pinned_room by (auto simp: pinned_def homes_def)
  have "log_at start j \<noteq> start" if "j < length hs" for j using log_area(5) [OF a] that len by simp
  then have keys: "distinct (map fst ?ps)" "start \<notin> fst ` set ?ps"
    using log_area(6) [OF a] len by (auto simp: log_copies_def distinct_map inj_on_def) metis
  have vs: "?V1 start = V start" using keys by (simp add: upds_other)
  have qs: "?qs = map (\<lambda>h. (h, V h)) hs"
  proof -
    have "?V2 (log_at start j) = V (hs ! j)" if "j < length hs" for j
      using that len log_area(5) [OF a, of j] by (auto simp: log_copies_def intro!: upds_same [OF keys(1), unfolded log_copies_def])
    then have "?qs = map (\<lambda>j. (hs ! j, V (hs ! j))) ?js" by (auto simp: installs_def)
    also have "\<dots> = map (\<lambda>h. (h, V h)) (map (\<lambda>j. hs ! j) ?js)" by simp
    finally show ?thesis by (simp only: map_nth)
  qed
  have cb: "commit_blocks start V hs = ?ps @ [(start, ?h1)] @ ?qs @ [(start, ?h2)]"
    unfolding qs by (simp add: commit_blocks_def log_copies_def)
  have v3: "?V3 start = ?h1"
    using hs(1) log_area(2) [OF a] by (subst upds_other) (auto simp: qs homes_def)
  have n: "log_n s = int (length hs)" using l by (simp add: log_fields_def)
  have fields0: "log_fields d start [] (u\<lparr>log_n := 0\<rparr>)" if "log_fields d start hs u" for u :: "'a log_scheme"
    using that by (simp add: log_fields_def)
  have w1: "wp write_log P s (\<lambda>_ t. rep n p d ?D1 ?V1 ?R t \<and> io p s t (writes ?ps))"
    using write_log_io [OF r dev l a R(1-3)] by (simp add: Let_def)
  have w2: "wp write_head P t (\<lambda>_ u. rep n p d ?D2 ?V2 ?R u \<and> io p s u (writes (?ps @ [(start, ?h1)])))"
    if t: "rep n p d ?D1 ?V1 ?R t \<and> io p s t (writes ?ps)" for t
    using write_head_io [OF conjunct1 [OF t] dev log_fields_io [OF conjunct2 [OF t] l] log_area(1) [OF a]] R log_area(2) [OF a] vs
    by (auto elim!: wp_mono dest: io_trans [OF conjunct2 [OF t]])
  have w3: "wp (install_trans False) P t (\<lambda>_ u. rep n p d ?D3 ?V3 (\<lambda>_. 0) u \<and> io p s u (writes (?ps @ [(start, ?h1)] @ ?qs)))"
    if t: "rep n p d ?D2 ?V2 ?R t \<and> io p s t (writes (?ps @ [(start, ?h1)]))" for t
  proof -
    have "(\<lambda>k. if k \<in> set hs then 0 else ?R k) = (\<lambda>_. 0)" by (auto simp: pinned_def)
    then show ?thesis
      using install_trans_io [OF conjunct1 [OF t] dev log_fields_io [OF conjunct2 [OF t] l] a R] 
      by (auto simp: Let_def elim!: wp_mono dest: io_trans [OF conjunct2 [OF t]])
  qed
  have w4: "wp write_head P (t\<lparr>log_n := 0\<rparr>) (\<lambda>_ u. rep n p d (?D3(start := ?h2)) (?V3(start := ?h2)) (\<lambda>_. 0) u
      \<and> io p (s\<lparr>log_n := 0\<rparr>) u (writes (?ps @ [(start, ?h1)] @ ?qs @ [(start, ?h2)])))"
    if t: "rep n p d ?D3 ?V3 (\<lambda>_. 0) t \<and> io p s t (writes (?ps @ [(start, ?h1)] @ ?qs))" for t
  proof -
    have i: "io p (s\<lparr>log_n := 0\<rparr>) (t\<lparr>log_n := 0\<rparr>) (writes (?ps @ [(start, ?h1)] @ ?qs))" using io_above(1) t by blast
    have "rep n p d ?D3 ?V3 (\<lambda>_. 0) (t\<lparr>log_n := 0\<rparr>)" using t rep_above(1) by blast
    note write_head_io [OF this dev fields0 [OF log_fields_io [OF conjunct2 [OF t] l]] log_area(1) [OF a]]
    then show ?thesis unfolding v3 using io_trans [OF i]
      by (auto simp: room_def NBUF_def MAXOPBLOCKS_def elim!: wp_mono)
  qed
  show ?thesis unfolding commit_def wp_bind wp_gets wp_modify using hs(2) n
    by (auto simp: wp_rules cb intro!: wp_mono [OF w1] wp_mono [OF w2] wp_mono [OF w3] wp_mono [OF w4])
qed

end
