(* ===== verification/Recover.thy ===== *)
theory Recover
  imports Commit
begin

text \<open>
  Recovery after a crash, and crash atomicity: whatever prefix of the sector writes of a commit reached
  the disk, booting from it finds all of the transaction or none of it.
\<close>

section \<open>Recovery\<close>

lemma st_above:
  assumes "st n p d s0 W D V R L B s"
  shows "st n p d (s0\<lparr>log_n := x\<rparr>) W D V R L B (s\<lparr>log_n := x\<rparr>)" "st n p d (s0\<lparr>log_block := xs\<rparr>) W D V R L B (s\<lparr>log_block := xs\<rparr>)"
  using assms by (simp_all add: st_def cached_above io_above)

text \<open>The blocks a header lists.\<close>

definition head_list :: "u8 list \<Rightarrow> u32 list" where
  "head_list data = map (head_block data) [0..<nat (head_n data)]"

lemma read_head_io:
  fixes s :: "'a log_scheme"
  assumes r: "rep n p d D V R s" and dev: "blk_dev n P" and l: "log_dev s = d" "log_start s = start"
    and a: "on_disk n start" "R start = 0" "room R 1" and h: "head_n (V start) \<le> int LOGBLOCKS"
  shows "wp read_head P s (\<lambda>_ t. rep n p d D V R t \<and> io p (s\<lparr>log_n := head_n (V start), log_block := head_list (V start)
    @ drop (nat (head_n (V start))) (log_block s)\<rparr>) t [])"
proof -
  obtain B where st: "st n p d s [] D V R {} B s" using r unfolding rep_def by blast
  have e: "V start = D start" using rep_used(3) [OF r] a by blast
  let ?hn = "head_n (V start)" let ?s = "s\<lparr>log_n := ?hn, log_block := head_list (V start) @ drop (nat ?hn) (log_block s)\<rparr>"
  show ?thesis unfolding read_head_def wp_bind [of "gets f" for f] wp_gets prod.case l
  proof (rule st_bread [OF st dev])
    fix b t assume "st n p d s [] D V (R(start := R start + 1)) (insert start {}) (B(start := b)) t"
    moreover from this have "log_block t = log_block s" using frame_log(2) [of p s t] by (simp add: st_def io_def)
    ultimately have "st n p d ?s [] D V (R(start := R start + 1)) {start} (B(start := b))
        (t\<lparr>log_n := ?hn, log_block := head_list (V start) @ drop (nat ?hn) (log_block t)\<rparr>)" (is "st n p d _ _ _ _ _ _ _ ?t")
      and "get_data b P t = Ret (V start) t"
      using st_above(2) [OF st_above(1)] get_data_view [of n p d "\<lparr>vdisk = D, vdata = V, vref = R(start := R start + 1), vlocked = {start}, vbuf = B(start := b)\<rparr>" t start P]
      by (force, simp add: st_def)
    moreover from this(1) have "wp (brelse b) P ?t (\<lambda>_ t. rep n p d D V R t \<and> io p ?s t [])"
      using a e by (intro wp_tail [of "brelse b"]) (erule st_brelse [where k = start]; simp add: wp_ret; erule st_end; auto)
    ultimately show "wp (bind (get_data b) (\<lambda>data. let n = head_n data in bind (modify (\<lambda>s. s\<lparr>log_n := n\<rparr>)) (\<lambda>_.
        if int LOGBLOCKS < n then panic ''bounds''
        else bind (modify (\<lambda>s. s\<lparr>log_block := map (head_block data) [0..<nat n] @ drop (nat n) (log_block s)\<rparr>)) (\<lambda>_. brelse b)))) P t
        (\<lambda>_ t. rep n p d D V R t \<and> io p ?s t [])"
      using h by (simp add: wp_def Let_def head_list_def)
  qed (use a in simp_all)
qed

text \<open>The blocks recovery writes, starting from the blocks \<open>D\<close>, and what it makes of them.\<close>

definition log_installs :: "u32 \<Rightarrow> (u32 \<Rightarrow> u8 list) \<Rightarrow> (u32 \<times> u8 list) list" where
  "log_installs start D = (let hs = head_list (D start) in installs start D hs [0..<length hs])"

definition recover_blocks :: "u32 \<Rightarrow> (u32 \<Rightarrow> u8 list) \<Rightarrow> (u32 \<times> u8 list) list" where
  "recover_blocks start D = log_installs start D @ [(start, header [] (D start))]"

definition recovered :: "u32 \<Rightarrow> (u32 \<Rightarrow> u8 list) \<Rightarrow> u32 \<Rightarrow> u8 list" where
  "recovered start D = upds (recover_blocks start D) D"

definition head_ok :: "nat \<Rightarrow> u32 \<Rightarrow> u8 list \<Rightarrow> bool" where
  "head_ok n start data \<longleftrightarrow> 0 \<le> head_n data \<and> head_n data \<le> int LOGBLOCKS
     \<and> (\<forall>h \<in> set (head_list data). on_disk n h \<and> \<not> in_log start h)"

lemma length_head_list: "length (head_list data) = nat (head_n data)"
  by (simp add: head_list_def)

lemma log_installs_keys: "fst ` set (log_installs start D) = set (head_list (D start))"
  by (force simp: log_installs_def installs_def in_set_conv_nth image_iff Let_def)

lemma log_installs_start:
  "log_area n start \<Longrightarrow> head_ok n start (D start) \<Longrightarrow> upds (log_installs start D) F start = F start"
  using log_area(2) by (intro upds_other) (auto simp: log_installs_keys head_ok_def)

lemma recover_io:
  fixes s :: "'a log_scheme"
  assumes r: "rep n p d D D (\<lambda>_. 0) s" and dev: "blk_dev n P" and u: "uart_ready P" "\<not> panicked s"
    and l: "log_dev s = d" "log_start s = start" "length (log_block s) = LOGBLOCKS" and a: "log_area n start"
    and h: "head_ok n start (D start)"
  shows "wp recover_from_log P s (\<lambda>_ t. rep n p d (recovered start D) (recovered start D) (\<lambda>_. 0) t
    \<and> wrote s t (writes (recover_blocks start D)))"
proof -
  let ?hs = "head_list (D start)" let ?ps = "log_installs start D"
  let ?s = "s\<lparr>log_n := head_n (D start), log_block := ?hs @ drop (nat (head_n (D start))) (log_block s)\<rparr>"
  note hd = h [unfolded head_ok_def]
  have room: "room (\<lambda>_. 0) 1" by (simp add: room_def NBUF_def MAXOPBLOCKS_def)
  have fs: "log_fields d start ?hs ?s" using l hd by (simp add: log_fields_def length_head_list nat_le_iff)
  have w1: "wp read_head P s (\<lambda>_ t. rep n p d D D (\<lambda>_. 0) t \<and> io p ?s t [])"
    using read_head_io [OF r dev l(1,2) log_area(1) [OF a] refl room] hd by blast
  have w2: "wp (install_trans True) P t (\<lambda>_ u. rep n p d (upds ?ps D) (upds ?ps D) (\<lambda>_. 0) u \<and> io p ?s u (writes ?ps))"
    if t: "rep n p d D D (\<lambda>_. 0) t \<and> io p ?s t []" for t
  proof -
    have "\<not> panicked t" using t u(2) frame_console [of p ?s t] by (simp add: io_def)
    from recover_install_io [OF conjunct1 [OF t] dev u(1) this log_fields_io [OF conjunct2 [OF t] fs] a] hd
    show ?thesis by (auto simp: Let_def log_installs_def elim!: wp_mono dest: io_trans [OF conjunct2 [OF t]])
  qed
  have w3: "wp write_head P (t\<lparr>log_n := 0\<rparr>) (\<lambda>_ u. rep n p d (recovered start D) (recovered start D) (\<lambda>_. 0) u
      \<and> wrote s u (writes (recover_blocks start D)))"
    if t: "rep n p d (upds ?ps D) (upds ?ps D) (\<lambda>_. 0) t \<and> io p ?s t (writes ?ps)" for t
  proof -
    let ?h = "header [] (D start)"
    have f: "log_fields d start [] (t\<lparr>log_n := 0\<rparr>)" using log_fields_io [OF conjunct2 [OF t] fs] by (simp add: log_fields_def)
    have "wp write_head P (t\<lparr>log_n := 0\<rparr>) (\<lambda>_ u. rep n p d (recovered start D) (recovered start D) (\<lambda>_. 0) u
        \<and> io p (t\<lparr>log_n := 0\<rparr>) u (sector_pair start ?h))"
      using write_head_io [OF rep_above(1) [THEN iffD2, OF conjunct1 [OF t]] dev f log_area(1) [OF a] refl room] log_installs_start [of n start D, OF a h]
      by (simp add: recovered_def recover_blocks_def)
    then show ?thesis
      by (rule wp_mono) (use t in \<open>auto simp: io_def wrote_def recover_blocks_def\<close>)
  qed
  show ?thesis unfolding recover_from_log_def wp_bind wp_modify
    by (intro wp_mono [OF w1] wp_mono [OF w2] w3) auto
qed

end
