(* ===== verification/Crash.thy ===== *)
theory Crash
  imports Recover
begin

text \<open>
  Power cuts. The disk after a cut in the middle of a sequence of block writes, where the block being
  written may be torn between its two sectors; the commit and the recovery of the log are such
  sequences, and every disk they can leave behind is recovered to the state before or after the
  transaction.
\<close>

section \<open>Disks after a cut\<close>

fun crash_of :: "(u32 \<times> u8 list) list \<Rightarrow> (u32 \<Rightarrow> u8 list) \<Rightarrow> (u32 \<Rightarrow> u8 list) \<Rightarrow> bool" where
  "crash_of [] D C \<longleftrightarrow> C = D"
| "crash_of ((k, x) # ps) D C \<longleftrightarrow> C = D \<or> C = D(k := take SECTOR_SIZE x @ drop SECTOR_SIZE (D k)) \<or> crash_of ps (D(k := x)) C"

lemma crash_of_start: "crash_of ps D D"
  by (cases ps) auto

lemma crash_of_append: "crash_of (ps @ qs) D C \<longleftrightarrow> crash_of ps D C \<or> crash_of qs (upds ps D) C"
  by (induction ps arbitrary: D) (auto intro: crash_of_start)

lemma crash_of_other: "crash_of ps D C \<Longrightarrow> k \<notin> fst ` set ps \<Longrightarrow> C k = D k"
  by (induction ps arbitrary: D) (auto split: if_splits)

text \<open>The blocks of a disk given by its sectors.\<close>

definition blocks :: "(u32 \<Rightarrow> u8 list) \<Rightarrow> u32 \<Rightarrow> u8 list" where
  "blocks sd k = sd (sector_of k 0) @ sd (sector_of k 1)"

lemma disk_block_blocks: "disk_block s = blocks (disk s)"
  by (simp add: fun_eq_iff disk_block_def blocks_def)

lemma blocks_upd:
  assumes k: "on_disk n k" "on_disk n k'" and len: "\<And>i. length (sd i) = SECTOR_SIZE"
  shows "blocks (sd(sector_of k 0 := y)) k' = (if k' = k then y @ drop SECTOR_SIZE (blocks sd k) else blocks sd k')"
    "blocks (sd(sector_of k 0 := y, sector_of k 1 := z)) k' = (if k' = k then y @ z else blocks sd k')"
proof -
  have "unat (sector_of k 0) \<noteq> unat (sector_of k 1)" using on_disk_sectors [OF k(1)] by simp
  then have d: "sector_of k 0 \<noteq> sector_of k 1" by metis
  have o: "sector_of k' i \<noteq> sector_of k j" if "i < 2" "j < 2" "k' \<noteq> k" for i j
    using sector_of_inj [OF k(2,1)] that by simp
  show "blocks (sd(sector_of k 0 := y)) k' = (if k' = k then y @ drop SECTOR_SIZE (blocks sd k) else blocks sd k')"
    using d o [of 0 0] o [of 1 0] len by (auto simp: blocks_def)
  show "blocks (sd(sector_of k 0 := y, sector_of k 1 := z)) k' = (if k' = k then y @ z else blocks sd k')"
    using d o [of 0 0] o [of 1 0] o [of 0 1] o [of 1 1] by (auto simp: blocks_def)
qed

text \<open>The first \<open>i\<close> sector writes of a sequence of block writes leave one of these.\<close>

lemma crash_writes:
  assumes "\<forall>(k, x) \<in> set ps. on_disk n k \<and> length x = BSIZE" "\<And>i. length (sd i) = SECTOR_SIZE" "\<And>k. on_disk n k \<Longrightarrow> D k = blocks sd k"
  shows "\<exists>C. crash_of ps D C \<and> (\<forall>k. on_disk n k \<longrightarrow> blocks (upds (take i (writes ps)) sd) k = C k)"
  using assms
proof (induction ps arbitrary: sd D i)
  case (Cons kx ps)
  obtain k x where kx: "kx = (k, x)" by (cases kx)
  have k: "on_disk n k" "length x = BSIZE" using Cons.prems kx by auto
  let ?y = "take SECTOR_SIZE x" and ?z = "drop SECTOR_SIZE x" let ?sd = "sd(sector_of k 0 := ?y, sector_of k 1 := ?z)"
  note up = blocks_upd [OF k(1) _ Cons.prems(2)]
  consider "i = 0" | "i = 1" | j where "i = Suc (Suc j)" by (metis One_nat_def not0_implies_Suc)
  then show ?case
  proof cases
    case 1 then show ?thesis using Cons.prems(3) crash_of_start by (intro exI [of _ D]) simp
  next
    case 2
    then have "upds (take i (writes (kx # ps))) sd = sd(sector_of k 0 := ?y)" by (simp add: kx sector_pair_def)
    moreover have "blocks (sd(sector_of k 0 := ?y)) k' = (D(k := ?y @ drop SECTOR_SIZE (D k))) k'" if "on_disk n k'" for k'
      using Cons.prems(3) [OF that] Cons.prems(3) [OF k(1)] up(1) [OF that] by simp
    moreover have "crash_of (kx # ps) D (D(k := ?y @ drop SECTOR_SIZE (D k)))" by (simp add: kx)
    ultimately show ?thesis by (intro exI [of _ "D(k := ?y @ drop SECTOR_SIZE (D k))"] conjI) (assumption, simp only:, blast)
  next
    case 3
    then have e: "upds (take i (writes (kx # ps))) sd = upds (take j (writes ps)) ?sd" by (simp add: kx sector_pair_def)
    have "\<exists>C. crash_of ps (D(k := x)) C \<and> (\<forall>k. on_disk n k \<longrightarrow> blocks (upds (take j (writes ps)) ?sd) k = C k)" (is "\<exists>C. _ \<and> ?Q C")
    proof (rule Cons.IH)
      show "\<forall>(k, x) \<in> set ps. on_disk n k \<and> length x = BSIZE" using Cons.prems(1) by simp
      show "length (?sd i) = SECTOR_SIZE" for i using k(2) Cons.prems(2) [of i] by (simp add: SECTOR_SIZE_def BSIZE_def)
      show "(D(k := x)) k' = blocks ?sd k'" if "on_disk n k'" for k' using up(2) [OF that] Cons.prems(3) [OF that] by simp
    qed
    then obtain C where "crash_of ps (D(k := x)) C" "?Q C" by blast
    then show ?thesis unfolding e by (intro exI [of _ C]) (simp add: kx)
  qed
qed simp

section \<open>What recovery makes of them\<close>

text \<open>A disk from which recovery produces the blocks \<open>T\<close> outside the log.\<close>

definition recovers :: "nat \<Rightarrow> u32 \<Rightarrow> (u32 \<Rightarrow> u8 list) \<Rightarrow> (u32 \<Rightarrow> u8 list) \<Rightarrow> bool" where
  "recovers n start T C \<longleftrightarrow> head_ok n start (C start)
     \<and> (\<forall>k. on_disk n k \<and> \<not> in_log start k \<longrightarrow> recovered start C k = T k)"

lemma upds_keys: "k \<in> fst ` set ps \<Longrightarrow> upds ps f k = upds ps g k"
proof (induction ps arbitrary: f g)
  case (Cons ax ps)
  then show ?case by (cases "k \<in> fst ` set ps") (auto simp: upds_other)
qed simp

lemma recovered_eq: "\<not> in_log start k \<Longrightarrow> log_area n start \<Longrightarrow> recovered start C k = upds (log_installs start C) C k"
  using log_area(2) [of n start] by (auto simp: recovered_def recover_blocks_def)

lemma recovers_empty:
  "head_n (C start) = 0 \<Longrightarrow> log_area n start \<Longrightarrow> (\<And>k. on_disk n k \<Longrightarrow> \<not> in_log start k \<Longrightarrow> C k = T k) \<Longrightarrow> recovers n start T C"
  by (simp add: recovers_def head_ok_def head_list_def recovered_eq log_installs_def installs_def)

text \<open>Recovery reads the header, the log and the block itself.\<close>

lemma log_installs_cong:
  assumes "head_ok n start (C start)" "C' start = C start" "\<And>j. j < LOGBLOCKS \<Longrightarrow> C' (log_at start j) = C (log_at start j)"
  shows "log_installs start C' = log_installs start C"
  using assms by (auto simp: log_installs_def installs_def length_head_list head_ok_def Let_def nat_less_iff)

lemma recovers_cong:
  assumes a: "log_area n start" and C: "\<And>k. on_disk n k \<Longrightarrow> C' k = C k" "recovers n start T C"
  shows "recovers n start T C'"
proof -
  have s: "C' start = C start" using C(1) log_area(1) [OF a] by blast
  have h: "head_ok n start (C start)" using C(2) by (simp add: recovers_def)
  have i: "log_installs start C' = log_installs start C" by (rule log_installs_cong [of n start C C', OF h s]) (use C(1) log_area(3) [OF a] in auto)
  have "upds (log_installs start C) C' k = upds (log_installs start C) C k" if "on_disk n k" for k
    using C(1) [OF that] upds_keys [of k "log_installs start C"] by (cases "k \<in> fst ` set (log_installs start C)") (auto simp: upds_other)
  then show ?thesis using C(2) s i by (simp add: recovers_def recovered_eq [OF _ a])
qed

text \<open>Replacing the header tears nothing: it lies within the first sector.\<close>

lemma header_not_torn:
  assumes "length hs \<le> LOGBLOCKS" "length (D start) = BSIZE" "crash_of [(start, header hs (D start))] D C"
  shows "C = D \<or> C = D(start := header hs (D start))"
  using assms header_second_half [OF assms(1,2)] append_take_drop_id [of SECTOR_SIZE "header hs (D start)"] by auto

lemma recovers_installing:
  assumes a: "log_area n start" and h: "head_ok n start (D start)" and r: "\<And>k. k \<notin> set (head_list (D start)) \<Longrightarrow> C k = D k"
    and T: "\<And>k. on_disk n k \<Longrightarrow> \<not> in_log start k \<Longrightarrow> upds (log_installs start D) D k = T k"
  shows "recovers n start T C"
proof -
  have "C k = D k" if "in_log start k" for k using r h that by (auto simp: head_ok_def)
  then have s: "C start = D start" "log_installs start C = log_installs start D"
    using log_area(2,4) [OF a] by (auto intro!: log_installs_cong [of n start D, OF h])
  have "upds (log_installs start D) C k = upds (log_installs start D) D k" for k
    using r upds_keys [of k "log_installs start D" C D] by (cases "k \<in> set (head_list (D start))") (auto simp: upds_other log_installs_keys)
  then show ?thesis using h T s by (simp add: recovers_def recovered_eq [OF _ a])
qed

text \<open>A cut during recovery.\<close>

lemma recover_crash:
  assumes a: "log_area n start" and C: "recovers n start T C" "length (C start) = BSIZE" and c: "crash_of (recover_blocks start C) C C'"
  shows "recovers n start T C'"
proof -
  let ?I = "upds (log_installs start C) C"
  have h: "head_ok n start (C start)" and T: "\<And>k. on_disk n k \<Longrightarrow> \<not> in_log start k \<Longrightarrow> ?I k = T k"
    using C(1) recovered_eq [OF _ a] by (auto simp: recovers_def)
  have s: "?I start = C start" by (rule log_installs_start [of n start C, OF a h])
  from c consider "crash_of (log_installs start C) C C'" | "crash_of [(start, header [] (?I start))] ?I C'"
    unfolding recover_blocks_def crash_of_append s by blast
  then have "(\<forall>k. k \<notin> set (head_list (C start)) \<longrightarrow> C' k = C k) \<or> C' = ?I(start := header [] (?I start))"
  proof cases
    case 1 then show ?thesis using crash_of_other log_installs_keys by blast
  next
    case 2 then have "C' = ?I \<or> C' = ?I(start := header [] (?I start))" using header_not_torn [OF _ _ 2] C(2) s by simp
    then show ?thesis using upds_other [of _ "log_installs start C" C] by (auto simp: log_installs_keys)
  qed
  then show ?thesis
  proof
    assume "\<forall>k. k \<notin> set (head_list (C start)) \<longrightarrow> C' k = C k"
    then show ?thesis using T by (intro recovers_installing [of n start C, OF a h]) auto
  next
    assume e: "C' = ?I(start := header [] (?I start))"
    then show ?thesis using T header_fields(1) [of "[]"] log_area(2) [OF a] by (intro recovers_empty [OF _ a]) auto
  qed
qed

text \<open>A cut during a commit: before the header is written the old blocks are recovered, from then on the
  new ones.\<close>

lemma head_list_header: "length hs \<le> LOGBLOCKS \<Longrightarrow> head_list (header hs data) = hs"
  by (rule nth_equalityI) (simp_all add: head_list_def header_fields)

definition new_homes :: "(u32 \<Rightarrow> u8 list) \<Rightarrow> u32 list \<Rightarrow> (u32 \<times> u8 list) list" where
  "new_homes V hs = map (\<lambda>h. (h, V h)) hs"

lemma new_homes_keys: "fst ` set (new_homes V hs) = set hs"
  by (force simp: new_homes_def)

lemma copies_keys:
  assumes "log_area n start" "length hs \<le> LOGBLOCKS"
  shows "distinct (map fst (log_copies start V hs [0..<length hs]))"
    "k \<in> fst ` set (log_copies start V hs [0..<length hs]) \<Longrightarrow> in_log start k \<and> k \<noteq> start"
  using assms(2) log_area(4,5,6) [OF assms(1)] by (auto simp: log_copies_def distinct_map inj_on_def)

text \<open>The disk once the header is written.\<close>

definition committed :: "u32 \<Rightarrow> (u32 \<Rightarrow> u8 list) \<Rightarrow> u32 list \<Rightarrow> (u32 \<Rightarrow> u8 list) \<Rightarrow> u32 \<Rightarrow> u8 list" where
  "committed start V hs D = (upds (log_copies start V hs [0..<length hs]) D)(start := header hs (V start))"

lemma committed_log:
  assumes a: "log_area n start" and hs: "homes n start hs" "length hs \<le> LOGBLOCKS"
  shows "head_ok n start (committed start V hs D start)" "head_list (committed start V hs D start) = hs"
    "log_installs start (committed start V hs D) = new_homes V hs"
proof -
  let ?A = "log_copies start V hs [0..<length hs]" and ?D2 = "committed start V hs D"
  show h: "head_list (?D2 start) = hs" "head_ok n start (?D2 start)"
    using hs head_list_header header_fields(1) by (auto simp: committed_def head_ok_def homes_def)
  have "?D2 (log_at start j) = V (hs ! j)" if "j < length hs" for j
    using upds_same [OF copies_keys(1) [OF a hs(2)], of "log_at start j" "V (hs ! j)"] that hs(2) log_area(5) [OF a, of j]
    by (auto simp: committed_def log_copies_def)
  then have "log_installs start ?D2 = map (\<lambda>j. (hs ! j, V (hs ! j))) [0..<length hs]"
    using h(1) by (auto simp: log_installs_def installs_def)
  also have "\<dots> = map (\<lambda>h. (h, V h)) (map (\<lambda>j. hs ! j) [0..<length hs])" by simp
  finally show "log_installs start ?D2 = new_homes V hs" by (simp only: map_nth new_homes_def)
qed

lemma committed_installed:
  assumes a: "log_area n start" and hs: "homes n start hs" "length hs \<le> LOGBLOCKS"
    and V: "\<And>k. on_disk n k \<Longrightarrow> k \<notin> set hs \<Longrightarrow> V k = D k" and k: "on_disk n k" "\<not> in_log start k"
  shows "upds (new_homes V hs) (committed start V hs D) k = V k"
proof (cases "k \<in> set hs")
  case True then show ?thesis using hs(1) by (intro upds_same) (auto simp: new_homes_def homes_def distinct_map inj_on_def)
next
  case False
  have "upds (log_copies start V hs [0..<length hs]) D k = D k" using copies_keys(2) [OF a hs(2)] k(2) by (blast intro: upds_other)
  moreover have "k \<noteq> start" using k(2) log_area(2) [OF a] by blast
  ultimately show ?thesis using V [OF k(1) False] False by (simp add: upds_other new_homes_keys committed_def)
qed

lemma commit_cases:
  assumes "homes n start hs" "log_area n start" "length hs \<le> LOGBLOCKS" "V start = D start" "crash_of (commit_blocks start V hs) D C"
  obtains "crash_of (log_copies start V hs [0..<length hs]) D C"
    | D1 where "D1 = upds (log_copies start V hs [0..<length hs]) D" "D1 start = D start" "crash_of [(start, header hs (D1 start))] D1 C"
    | "crash_of (new_homes V hs) (committed start V hs D) C"
    | D3 where "D3 = upds (new_homes V hs) (committed start V hs D)" "D3 start = header hs (V start)" "crash_of [(start, header [] (D3 start))] D3 C"
proof -
  let ?A = "log_copies start V hs [0..<length hs]"
  have s: "upds ?A D start = D start" using copies_keys(2) [OF assms(2,3)] by (blast intro: upds_other)
  have s3: "upds (new_homes V hs) (committed start V hs D) start = header hs (V start)"
    using assms(1) log_area(2) [OF assms(2)] by (subst upds_other) (auto simp: new_homes_keys homes_def committed_def)
  have "commit_blocks start V hs = ?A @ [(start, header hs (V start))] @ new_homes V hs @ [(start, header [] (header hs (V start)))]"
    by (simp add: commit_blocks_def new_homes_def log_copies_def)
  then have "crash_of ?A D C \<or> crash_of [(start, header hs (V start))] (upds ?A D) C \<or> crash_of (new_homes V hs) (committed start V hs D) C
      \<or> crash_of [(start, header [] (header hs (V start)))] (upds (new_homes V hs) (committed start V hs D)) C"
    using assms(5) by (simp only: crash_of_append upds_simps fst_conv snd_conv committed_def)
  then show thesis using that(1) that(2) [OF refl s] that(3) that(4) [OF refl s3] unfolding s s3 assms(4) by blast
qed

lemma commit_crash:
  assumes a: "log_area n start" and hs: "homes n start hs" "length hs \<le> LOGBLOCKS" and D: "head_n (D start) = 0" "length (D start) = BSIZE"
    and V: "V start = D start" "\<And>k. on_disk n k \<Longrightarrow> k \<notin> set hs \<Longrightarrow> V k = D k" and c: "crash_of (commit_blocks start V hs) D C"
  shows "recovers n start D C \<or> recovers n start V C"
proof -
  let ?A = "log_copies start V hs [0..<length hs]" and ?D2 = "committed start V hs D"
  note A = copies_keys(2) [OF a hs(2)] and T = committed_installed [of n start hs V D, OF a hs V(2)]
  have old: "recovers n start D C" if "\<And>k. k \<notin> fst ` set ?A \<Longrightarrow> C k = D k"
  proof (rule recovers_empty [OF _ a])
    have "C start = D start" using that A by blast
    then show "head_n (C start) = 0" using D by simp
    show "C k = D k" if "\<not> in_log start k" for k using that \<open>\<And>k. k \<notin> fst ` set ?A \<Longrightarrow> C k = D k\<close> A by blast
  qed
  have new: "recovers n start V C" if "\<And>k. k \<notin> set hs \<Longrightarrow> C k = ?D2 k"
    using recovers_installing [of n start ?D2 C V, OF a] committed_log [OF a hs] that T by simp
  from hs(1) a hs(2) V(1) c show ?thesis
  proof (cases rule: commit_cases)
    case 1 then show ?thesis using old crash_of_other by blast
  next
    case (2 D1)
    then have "C = D1 \<or> C = ?D2" using header_not_torn [OF hs(2) _ 2(3)] V(1) D(2) by (simp add: committed_def)
    then show ?thesis using old new upds_other [of _ ?A D] 2(1) by blast
  next
    case 3 then show ?thesis using new crash_of_other [OF 3] new_homes_keys by blast
  next
    case (4 D3)
    have "C = D3 \<or> C = D3(start := header [] (D3 start))"
      using header_not_torn [OF _ _ 4(3)] length_header [OF hs(2)] V(1) D(2) 4(2) by simp
    then show ?thesis
    proof
      assume "C = D3"
      then show ?thesis using new upds_other [of _ "new_homes V hs" ?D2] new_homes_keys [of V hs] 4(1) by blast
    next
      assume e: "C = D3(start := header [] (D3 start))"
      have "recovers n start V C"
        using header_fields(1) [of "[]"] T log_area(2) [OF a] 4(1) by (intro recovers_empty [OF _ a]) (auto simp: e)
      then show ?thesis ..
    qed
  qed
qed

end
