(* ===== verification/CrashSafe.thy ===== *)
theory CrashSafe
  imports Crash
begin

text \<open>
  Crash safety of the log on the kernel's own code: \<open>commit\<close> against \<open>initlog\<close> of the next boot, for a
  power cut after any sector write of the commit, and for any further cuts while the log is being
  recovered.
\<close>

section \<open>Booting\<close>

text \<open>The state in which the file system is initialised: nothing of the disk is in use.\<close>

definition booted :: "nat \<Rightarrow> nat \<Rightarrow> u32 \<Rightarrow> 'a log_scheme \<Rightarrow> bool" where
  "booted n p d u \<longleftrightarrow> rep n p d (disk_block u) (disk_block u) (\<lambda>_. 0) u \<and> \<not> panicked u \<and> length (log_block u) = LOGBLOCKS"

text \<open>Such a state is what \<open>binit\<close> leaves.\<close>

lemma booted_fresh:
  assumes "quiet u" "c_proc (mycpu u) = Some p" "disk_ok u" "bcache_inv u" "d \<noteq> 0" "\<not> panicked u" "length (log_block u) = LOGBLOCKS"
    "\<forall>b < NBUF. b_dev (bufs u b) = 0 \<and> b_refcnt (bufs u b) = 0 \<and> lk_locked (sleeplocks u (BufLk b)) = 0"
  shows "booted n p d u"
  using assms length_disk_block by (auto simp: booted_def rep_cached cached_def view_ok_def buf_ok_def)

lemma rep_disk: "rep n p d D V R s \<Longrightarrow> on_disk n k \<Longrightarrow> disk_block s k = D k"
  by (auto simp: rep_cached cached_def)

lemma rep_disk_ok: "rep n p d D V R s \<Longrightarrow> disk_ok s"
  by (auto simp: rep_cached cached_def)

lemma rep_length: "rep n p d D V R s \<Longrightarrow> on_disk n k \<Longrightarrow> length (D k) = BSIZE"
  using rep_disk rep_disk_ok length_disk_block by metis

lemma rep_initlock: "rep n p d D V R s \<Longrightarrow> rep n p d D V R (set_lock l (\<lambda>_. \<lparr>sl_locked = 0, sl_name = nm, sl_cpu = None\<rparr>) s)"
  by (simp add: rep_cached cached_def set_lock_def quiet_def cpu_ok_def lock_free_def ie_def mycpu_def disk_ok_def
    bcache_inv_def disk_block_def)

lemma cached_log_place: "cached n p d v (s\<lparr>log_start := a, log_dev := b\<rparr>) = cached n p d v s"
  by (simp add: cached_truncate [of _ _ _ _ "s\<lparr>log_start := a, log_dev := b\<rparr>"] cached_truncate [of _ _ _ _ s] bcache.defs)

lemma initlog_io:
  fixes u :: "'a log_scheme"
  assumes b: "booted n p d u" and dev: "blk_dev n P" "uart_ready P" and a: "log_area n start" and h: "head_ok n start (disk_block u start)"
  shows "wp (initlog d start) P u (\<lambda>_ r. rep n p d (recovered start (disk_block u)) (recovered start (disk_block u)) (\<lambda>_. 0) r
    \<and> wrote u r (writes (recover_blocks start (disk_block u))))"
proof -
  let ?u = "(set_lock LogLock (\<lambda>_. \<lparr>sl_locked = 0, sl_name = ''log'', sl_cpu = None\<rparr>) u)\<lparr>log_start := start, log_dev := d\<rparr>"
  have "rep n p d (disk_block u) (disk_block u) (\<lambda>_. 0) ?u" using b rep_initlock by (simp add: booted_def rep_cached cached_log_place) blast
  from recover_io [OF this dev(1,2) _ _ _ _ a h] b show ?thesis
    by (simp add: booted_def initlog_def wp_bind wp_modify initlock_def set_lock_def wrote_def LOGBLOCKS_def MAXOPBLOCKS_def BSIZE_def)
qed

section \<open>Power cuts\<close>

text \<open>One boot that is cut: from disk \<open>sd\<close>, the log is recovered until the power fails after some of the
  sector writes.\<close>

definition power_cut :: "'a log_scheme platform \<Rightarrow> nat \<Rightarrow> u32 \<Rightarrow> u32 \<Rightarrow> (u32 \<Rightarrow> u8 list) \<Rightarrow> (u32 \<Rightarrow> u8 list) \<Rightarrow> bool" where
  "power_cut P n d start sd sd' \<longleftrightarrow> (\<exists>p u r W i. booted n p d u \<and> disk u = sd \<and> initlog d start P u = Ret () r
     \<and> disk_writes r = disk_writes u @ W \<and> sd' = upds (take i W) sd)"

text \<open>The blocks outside the log on the disk.\<close>

definition holds_blocks :: "nat \<Rightarrow> u32 \<Rightarrow> (u32 \<Rightarrow> u8 list) \<Rightarrow> 'a mach_scheme \<Rightarrow> bool" where
  "holds_blocks n start T s \<longleftrightarrow> (\<forall>k. on_disk n k \<and> \<not> in_log start k \<longrightarrow> disk_block s k = T k)"

lemma recover_blocks_ok:
  assumes "log_area n start" "head_ok n start (D start)" "\<And>k. on_disk n k \<Longrightarrow> length (D k) = BSIZE"
  shows "\<forall>(k, x) \<in> set (recover_blocks start D). on_disk n k \<and> length x = BSIZE"
  using assms log_area(1,3) [OF assms(1)] length_header [of "[]"]
  by (auto simp: recover_blocks_def log_installs_def installs_def head_ok_def length_head_list Let_def nat_less_iff)

lemma boot_recovers:
  fixes u :: "'a log_scheme"
  assumes b: "booted n p d u" and dev: "blk_dev n P" "uart_ready P" and a: "log_area n start" and r: "recovers n start T (disk_block u)"
  shows "wp (initlog d start) P u (\<lambda>_ r. holds_blocks n start T r)"
  by (rule wp_mono [OF initlog_io [OF b dev a]]) (use r in \<open>auto simp: recovers_def holds_blocks_def rep_disk\<close>)

lemma cut_recovers:
  assumes dev: "blk_dev n P" "uart_ready P" and a: "log_area n start"
    and c: "power_cut P n d start sd sd'" and r: "recovers n start T (blocks sd)"
  shows "recovers n start T (blocks sd')"
proof -
  obtain p u t W i where u: "booted n p d u" "disk u = sd" "initlog d start P u = Ret () t" "disk_writes t = disk_writes u @ W"
    "sd' = upds (take i W) sd" using c unfolding power_cut_def by blast
  have D: "disk_block u = blocks sd" by (simp add: disk_block_blocks u)
  have h: "head_ok n start (blocks sd start)" using r by (simp add: recovers_def)
  have R: "rep n p d (blocks sd) (blocks sd) (\<lambda>_. 0) u" using u(1) by (simp add: booted_def D)
  have "W = writes (recover_blocks start (blocks sd))"
    using initlog_io [OF u(1) dev a] h u(3,4) by (simp add: D wp_def wrote_def)
  moreover have "\<exists>C. crash_of (recover_blocks start (blocks sd)) (blocks sd) C
      \<and> (\<forall>k. on_disk n k \<longrightarrow> blocks (upds (take i (writes (recover_blocks start (blocks sd)))) sd) k = C k)"
    using rep_disk_ok [OF R] rep_length [OF R] u(2) h
    by (intro crash_writes recover_blocks_ok [OF a]) (auto simp: disk_ok_def)
  ultimately obtain C where C: "crash_of (recover_blocks start (blocks sd)) (blocks sd) C" "\<And>k. on_disk n k \<Longrightarrow> blocks sd' k = C k"
    using u(5) by auto
  show ?thesis
    using recovers_cong [OF a C(2) recover_crash [OF a r _ C(1)]] rep_length [OF R log_area(1) [OF a]] by simp
qed

lemma cuts_recover:
  assumes "blk_dev n P" "uart_ready P" "log_area n start" and c: "(power_cut P n d start)\<^sup>*\<^sup>* sd sd'" and "recovers n start T (blocks sd)"
  shows "recovers n start T (blocks sd')"
  using c assms(5)
proof (induction rule: rtranclp_induct)
  case (step sd1 sd2)
  then show ?case using cut_recovers [OF assms(1-3)] by blast
qed

section \<open>The commit\<close>

lemma commit_blocks_ok:
  assumes "log_area n start" "homes n start hs" "length hs \<le> LOGBLOCKS" "\<And>k. on_disk n k \<Longrightarrow> length (V k) = BSIZE"
  shows "\<forall>(k, x) \<in> set (commit_blocks start V hs). on_disk n k \<and> length x = BSIZE"
  using assms log_area(1,3) [OF assms(1)] length_header [OF assms(3)] length_header [of "[]"]
  by (auto simp: commit_blocks_def homes_def)

lemma rep_data_length: "rep n p d D V R s \<Longrightarrow> on_disk n k \<Longrightarrow> length (V k) = BSIZE"
  by (auto simp: rep_cached cached_def view_ok_def)

text \<open>Once all writes are done, the new blocks are recovered.\<close>

lemma commit_blocks_installed:
  assumes a: "log_area n start" and hs: "homes n start hs" "length hs \<le> LOGBLOCKS"
    and V: "\<And>k. on_disk n k \<Longrightarrow> k \<notin> set hs \<Longrightarrow> V k = D k"
  shows "head_n (upds (commit_blocks start V hs) D start) = 0"
    "on_disk n k \<Longrightarrow> \<not> in_log start k \<Longrightarrow> upds (commit_blocks start V hs) D k = V k"
proof -
  have e: "upds (commit_blocks start V hs) D
      = (upds (new_homes V hs) (committed start V hs D))(start := header [] (header hs (V start)))"
    by (simp add: commit_blocks_def committed_def new_homes_def log_copies_def)
  show "head_n (upds (commit_blocks start V hs) D start) = 0" using header_fields(1) [of "[]"] by (simp add: e)
  show "upds (commit_blocks start V hs) D k = V k" if "on_disk n k" "\<not> in_log start k" for k
    using committed_installed [of n start hs V D, OF a hs V that] that log_area(2) [OF a] by (auto simp: e)
qed

lemma commit_done:
  assumes a: "log_area n start" and hs: "homes n start hs" "length hs \<le> LOGBLOCKS"
    and V: "\<And>k. on_disk n k \<Longrightarrow> k \<notin> set hs \<Longrightarrow> V k = D k"
  shows "recovers n start V (upds (commit_blocks start V hs) D)"
  by (rule recovers_empty [OF _ a]) (use commit_blocks_installed [where V = V and D = D, OF a hs V] in auto)

lemma commit_cut:
  fixes s :: "'a log_scheme"
  assumes r: "rep n p d D V (pinned hs) s" and a: "log_area n start" and hs: "homes n start hs" "length hs \<le> LOGBLOCKS"
    and D: "head_n (D start) = 0" and W: "W = writes (commit_blocks start V hs)"
  shows "\<exists>T. (T = D \<or> T = V) \<and> recovers n start T (blocks (upds (take i W) (disk s)))"
proof -
  have V: "V k = D k" if "on_disk n k" "k \<notin> set hs" for k using rep_used(3) [OF r] that by (simp add: pinned_def)
  have s: "start \<notin> set hs" using hs(1) log_area(2) [OF a] by (auto simp: homes_def)
  have "\<exists>C. crash_of (commit_blocks start V hs) D C \<and> (\<forall>k. on_disk n k \<longrightarrow> blocks (upds (take i W) (disk s)) k = C k)"
    unfolding W
  proof (rule crash_writes)
    show "\<forall>(k, x) \<in> set (commit_blocks start V hs). on_disk n k \<and> length x = BSIZE"
      using commit_blocks_ok [OF a hs rep_data_length [OF r]] .
    show "length (disk s j) = SECTOR_SIZE" for j using rep_disk_ok [OF r] by (simp add: disk_ok_def)
    show "D k = blocks (disk s) k" if "on_disk n k" for k using rep_disk [OF r that] by (simp add: disk_block_blocks)
  qed
  then obtain C where C: "crash_of (commit_blocks start V hs) D C" "\<forall>k. on_disk n k \<longrightarrow> blocks (upds (take i W) (disk s)) k = C k" by blast
  have "recovers n start D C \<or> recovers n start V C"
    by (rule commit_crash [OF a hs D rep_length [OF r log_area(1) [OF a]] V [OF log_area(1) [OF a] s] V C(1)])
  moreover have "recovers n start T (blocks (upds (take i W) (disk s)))" if "recovers n start T C" for T
    by (rule recovers_cong [OF a _ that]) (simp only: C(2) [rule_format])
  ultimately show ?thesis by blast
qed

text \<open>C1: Transactions are atomic and durable. Take any state in which the log holds the blocks \<open>hs\<close> of a
  finished transaction, with new contents \<open>V\<close> in the cache and old contents \<open>D\<close> on a disk whose log
  header is empty. Then \<open>commit\<close> returns, and wherever the power fails among the sector writes \<open>W\<close>
  it issues, however many boots are themselves cut during recovery, and even if the block being
  written is torn between its two sectors, \<open>initlog\<close> of the next complete boot returns with either all
  old or all new contents on disk outside the log, the choice depending only on where the first cut
  fell; after the last write it is the new contents.\<close>

theorem commit_crash_safe:
  fixes s :: "'a log_scheme"
  assumes r: "rep n p d D V (pinned hs) s" and dev: "blk_dev n P" "uart_ready P" and l: "log_fields d start hs s" and a: "log_area n start"
    and hs: "homes n start hs" "hs \<noteq> []" "length hs < NBUF" and D: "head_n (D start) = 0"
  shows "wp commit P s (\<lambda>_ t. \<exists>W. disk t = upds W (disk s) \<and> disk_writes t = disk_writes s @ W
    \<and> (\<forall>i. \<exists>T. (T = V \<or> i < length W \<and> T = D)
        \<and> (\<forall>u q. booted n q d u \<and> (power_cut P n d start)\<^sup>*\<^sup>* (upds (take i W) (disk s)) (disk u)
             \<longrightarrow> wp (initlog d start) P u (\<lambda>_ r. holds_blocks n start T r))))"
proof (rule wp_mono [OF commit_io [OF r dev(1) l a hs]], rule exI, intro conjI allI)
  fix t :: "'a log_scheme" and i
  let ?cb = "commit_blocks start V hs" let ?W = "writes ?cb"
  assume "let cb = ?cb in rep n p d (upds cb D) (upds cb V) (\<lambda>_. 0) t \<and> io p (s\<lparr>log_n := 0\<rparr>) t (writes cb)"
  then have t: "rep n p d (upds ?cb D) (upds ?cb V) (\<lambda>_. 0) t" and w: "disk t = upds ?W (disk s)" "disk_writes t = disk_writes s @ ?W"
    by (simp_all add: Let_def io_def wrote_def)
  show "disk t = upds ?W (disk s)" "disk_writes t = disk_writes s @ ?W" by (rule w)+
  have V: "V k = D k" if "on_disk n k" "k \<notin> set hs" for k using rep_used(3) [OF r] that by (simp add: pinned_def)
  note len = log_fields_len [OF l]
  have "recovers n start V (blocks (disk t))"
    using recovers_cong [OF a _ commit_done [OF a hs(1) len V]] rep_disk [OF t] by (simp add: disk_block_blocks)
  then have "\<exists>T. (T = V \<or> i < length ?W \<and> T = D) \<and> recovers n start T (blocks (upds (take i ?W) (disk s)))"
    using commit_cut [OF r a hs(1) len D refl, of i] w(1) by (cases "i < length ?W") auto
  then obtain T where T: "T = V \<or> i < length ?W \<and> T = D" "recovers n start T (blocks (upds (take i ?W) (disk s)))" by blast
  have "wp (initlog d start) P u (\<lambda>_ r. holds_blocks n start T r)"
    if u: "booted n q d u" "(power_cut P n d start)\<^sup>*\<^sup>* (upds (take i ?W) (disk s)) (disk u)" for u q
    using boot_recovers [OF u(1) dev a] cuts_recover [OF dev a u(2) T(2)] by (simp add: disk_block_blocks)
  then show "\<exists>T. (T = V \<or> i < length ?W \<and> T = D)
        \<and> (\<forall>u q. booted n q d u \<and> (power_cut P n d start)\<^sup>*\<^sup>* (upds (take i ?W) (disk s)) (disk u)
             \<longrightarrow> wp (initlog d start) P u (\<lambda>_ r. holds_blocks n start T r))"
    using T(1) by blast
qed

subsection \<open>An example\<close>

lemma wp_ex: "wp m P s Q \<Longrightarrow> \<exists>x t. m P s = Ret x t \<and> Q x t"
  by (auto simp: wp_def split: outcome.splits)

text \<open>A device of \<open>n\<close> sectors as documented, with a UART that is always ready.\<close>

definition plain_dev :: "nat \<Rightarrow> 'a mach_scheme platform" where
  "plain_dev n = \<lparr>mmio_rd = (\<lambda>a s. (if a = UART_STATUS then UART_STATUS_TX_READY else devregs s a, s)),
     mmio_wr = (\<lambda>a v s.
       if a = UART_TX then s
       else if a = BLK_CMD then
         (let sec = devregs s BLK_SECTOR; buf = devregs s BLK_BUFFER; bs = read_bytes (mem s) buf SECTOR_SIZE in
          if v = BLK_CMD_READ then s\<lparr>mem := write_bytes (mem s) buf (disk s sec), devregs := (devregs s)(BLK_STATUS := 0)\<rparr>
          else s\<lparr>disk := (disk s)(sec := bs), disk_writes := disk_writes s @ [(sec, bs)], devregs := (devregs s)(BLK_STATUS := 0)\<rparr>)
       else s\<lparr>devregs := (devregs s)(a := v)\<rparr>),
     resume = [], polls = 1\<rparr>"

lemma plain_dev_ok: "blk_dev n (plain_dev n)" "uart_ready (plain_dev n)"
  by (auto simp: blk_dev_def uart_ready_def plain_dev_def BLK_STATUS_def BLK_SECTOR_def BLK_BUFFER_def BLK_CMD_def
    BLK_CMD_READ_def BLK_CMD_WRITE_def UART_STATUS_def UART_TX_def UART_STATUS_TX_READY_def Let_def)

text \<open>The cache as \<open>binit\<close> links it.\<close>

definition linked :: "nat \<Rightarrow> buf" where
  "linked b = buf0\<lparr>b_next := if b = 0 then bhead else b - 1, b_prev := if b = bhead then 0 else b + 1\<rparr>"

lemma lru_ok_linked: "lru_ok linked"
proof -
  have "rev [0..<NBUF] = [29,28,27,26,25,24,23,22,21,20,19,18,17,16,15,14,13,12,11,10,9,8,7,6,5,4,3,2,1,0]"
    by (simp add: NBUF_def MAXOPBLOCKS_def upt_rec)
  then have "ring linked (rev [0..<NBUF])" by (simp add: ring_def linked_def bhead_def NBUF_def MAXOPBLOCKS_def)
  then show ?thesis using lru_okI [of linked "rev [0..<NBUF]"] by simp
qed

definition boot0 :: files where
  "boot0 = (files_on run0)\<lparr>bufs := linked, kend := 0x03F00000\<rparr>"

text \<open>A transaction that has written one block, 40, of a disk of zeroes; the log starts at block 2.\<close>

definition tx0 :: files where
  "tx0 = boot0\<lparr>bufs := linked(3 := (linked 3)\<lparr>b_dev := 1, b_blockno := 40, b_refcnt := 1, b_valid := True, b_data := replicate BSIZE 7\<rparr>),
     log_start := 2, log_dev := 1, log_n := 1, log_block := 40 # replicate 29 0\<rparr>"

lemma boot0_select [simp]:
  "disk boot0 = (\<lambda>_. replicate 512 0)" "devregs boot0 = (\<lambda>_. 0)" "bounce boot0 = 0x03EFF000" "kend boot0 = 0x03F00000"
  "bufs boot0 = linked" "sleeplocks boot0 l = \<lparr>lk_locked = 0, lk_name = [], lk_pid = 0\<rparr>" "\<not> panicked boot0"
  "ptable boot0 = ptable run0" "mycpu boot0 = mycpu run0" "length (log_block boot0) = LOGBLOCKS" "quiet boot0"
  by (simp_all add: boot0_def mycpu_def quiet_def cpu_ok_def ie_def lock_free_def cpu0_def)
    (simp_all add: on_defs ext_defs run0_def procs0_def kmem0_def mach0_def cpu0_def)

lemma disk_ok_boot0: "disk_ok boot0"
  by (simp add: disk_ok_def SECTOR_SIZE_def BSIZE_def)

lemma linked_select [simp]: "b_dev (linked b) = 0" "b_refcnt (linked b) = 0" "b_blockno (linked b) = 0"
  by (simp_all add: linked_def buf0_def)

lemma booted_boot0: "booted n 0 1 boot0"
  by (rule booted_fresh) (simp_all add: disk_ok_boot0 bcache_inv_def lru_ok_linked keys_ok_def)

lemma tx0_select [simp]:
  "disk tx0 = (\<lambda>_. replicate 512 0)" "sleeplocks tx0 l = \<lparr>lk_locked = 0, lk_name = [], lk_pid = 0\<rparr>" "mycpu tx0 = mycpu run0"
  "quiet tx0" "disk_ok tx0" "log_fields 1 2 [40] tx0"
  using disk_ok_boot0 quiet_cong [of tx0 boot0]
  by (simp_all add: tx0_def mycpu_def disk_ok_def log_fields_def LOGBLOCKS_def MAXOPBLOCKS_def)
    (simp_all add: boot0_def on_defs ext_defs run0_def procs0_def kmem0_def mach0_def mycpu_def)

lemma bcache_inv_tx0: "bcache_inv tx0"
proof -
  have "lru (bufs tx0) = lru linked" by (rule lru_cong) (simp add: tx0_def)
  moreover have "ring (bufs tx0) xs = ring linked xs" for xs unfolding ring_def by (rule chain_cong) (simp_all add: tx0_def)
  ultimately have "lru_ok (bufs tx0)" using lru_ok_linked by (simp add: lru_ok_def)
  then show ?thesis by (auto simp: bcache_inv_def keys_ok_def tx0_def)
qed

lemma rep_tx0: "rep 2000 0 1 (\<lambda>_. replicate BSIZE 0) ((\<lambda>_. replicate BSIZE 0)(40 := replicate BSIZE 7)) (pinned [40]) tx0"
  unfolding rep_cached cached_def
  by (rule exI [of _ "\<lambda>_. 3"])
    (simp add: bcache_inv_tx0 view_ok_def buf_ok_def pinned_def on_disk_unat disk_block_def,
     auto simp: tx0_def BSIZE_def NBUF_def MAXOPBLOCKS_def replicate_add [symmetric] linked_def buf0_def)

theorem commit_crash_safe_witness:
  "\<exists>t r. commit (plain_dev 2000) tx0 = Ret () t \<and> initlog 1 2 (plain_dev 2000) boot0 = Ret () r
    \<and> (disk_block r 40 = replicate BSIZE 0 \<or> disk_block r 40 = replicate BSIZE 7)"
proof -
  let ?D = "\<lambda>_ :: u32. replicate BSIZE (0 :: u8)" let ?V = "?D(40 := replicate BSIZE 7)"
  let ?P = "plain_dev 2000 :: files platform"
  have c: "log_area 2000 2" "homes 2000 2 [40]" "[40 :: u32] \<noteq> []" "length [40 :: u32] < NBUF" "head_n (?D 2) = 0"
    by (simp_all add: log_area_def homes_def on_disk_unat in_log_def LOGBLOCKS_def NBUF_def MAXOPBLOCKS_def head_n_def get32_def
      word32_def BSIZE_def)
  obtain t W where t: "commit ?P tx0 = Ret () t" and
    W: "\<forall>i. \<exists>T. (T = ?V \<or> i < length W \<and> T = ?D)
        \<and> (\<forall>u q. booted 2000 q 1 u \<and> (power_cut ?P 2000 1 2)\<^sup>*\<^sup>* (upds (take i W) (disk tx0)) (disk u)
             \<longrightarrow> wp (initlog 1 2) ?P u (\<lambda>_ r. holds_blocks 2000 2 T r))"
    using wp_ex [OF commit_crash_safe [OF rep_tx0 plain_dev_ok tx0_select(6) c]] by auto
  obtain T where T: "T = ?V \<or> 0 < length W \<and> T = ?D" and
    B: "\<forall>u q. booted 2000 q 1 u \<and> (power_cut ?P 2000 1 2)\<^sup>*\<^sup>* (upds (take 0 W) (disk tx0)) (disk u)
             \<longrightarrow> wp (initlog 1 2) ?P u (\<lambda>_ r. holds_blocks 2000 2 T r)" using W [rule_format, of 0] by blast
  have "wp (initlog 1 2) ?P boot0 (\<lambda>_ r. holds_blocks 2000 2 T r)"
    using B [rule_format, of 0 boot0] booted_boot0 by simp
  then obtain r where "initlog 1 2 (plain_dev 2000) boot0 = Ret () r" "holds_blocks 2000 2 T r"
    using wp_ex by fastforce
  moreover from this(2) have "disk_block r 40 = T 40" by (simp add: holds_blocks_def on_disk_unat in_log_def LOGBLOCKS_def MAXOPBLOCKS_def)
  ultimately show ?thesis using t T by auto
qed

end
