(* ===== verification/Tx.thy ===== *)
theory Tx
  imports CrashSafe
begin

text \<open>
  File system code inside a transaction. Between \<open>begin_op\<close> and \<open>end_op\<close> the log holds the blocks \<open>hs\<close>
  written so far, each pinned in the cache; nothing goes to disk. \<open>tst\<close> relates a state to the current
  content of the blocks, the blocks in the log and the blocks the caller has locked; \<open>bread\<close>,
  \<open>log_write\<close> and \<open>brelse\<close> are operations on these.
\<close>

section \<open>States inside a transaction\<close>

text \<open>Only the cache and the list of blocks in the log changed; no sector was written.\<close>

definition txio :: "nat \<Rightarrow> 'a log_scheme \<Rightarrow> 'a log_scheme \<Rightarrow> bool" where
  "txio p s t \<longleftrightarrow> io p (s\<lparr>log_n := log_n t, log_block := log_block t\<rparr>) t []"

lemma txio_refl [simp]: "txio p s s"
  by (simp add: txio_def)

lemma txio_trans: "txio p s t \<Longrightarrow> txio p t u \<Longrightarrow> txio p s u"
proof -
  assume a: "txio p s t" "txio p t u"
  have "io p (s\<lparr>log_n := log_n u, log_block := log_block u\<rparr>) (t\<lparr>log_n := log_n u, log_block := log_block u\<rparr>) []"
    using io_above(2) [OF io_above(1) [OF a(1) [unfolded txio_def], of "log_n u"], of "log_block u"] by simp
  then show ?thesis using a(2) io_trans_simps(1) unfolding txio_def by blast
qed

lemma txio_io: "io p s t [] \<Longrightarrow> txio p s t"
  using frame_log(1,2) [of p s t] by (simp add: txio_def io_def)

lemma txio_log:
  assumes "txio p s t"
  shows "log_start t = log_start s" "log_dev t = log_dev s" "log_outstanding t = log_outstanding s"
    "log_committing t = log_committing s" "log.more t = log.more s" "disk t = disk s" "disk_writes t = disk_writes s"
  using assms frame_log(3-7) [of p "s\<lparr>log_n := log_n t, log_block := log_block t\<rparr>" t]
  by (simp_all add: txio_def io_def wrote_def)

text \<open>How often a block is referenced: once by the log, once by the caller that has it locked.\<close>

definition refs :: "u32 list \<Rightarrow> u32 set \<Rightarrow> u32 \<Rightarrow> nat" where
  "refs hs L k = pinned hs k + (if k \<in> L then 1 else 0)"

lemma refs_simps: "k \<notin> L \<Longrightarrow> (refs hs L)(k := Suc (refs hs L k)) = refs hs (insert k L)"
  "k \<in> L \<Longrightarrow> (refs hs L)(k := refs hs L k - 1) = refs hs (L - {k})"
  "k \<notin> set hs \<Longrightarrow> (refs hs L)(k := Suc (refs hs L k)) = refs (hs @ [k]) L"
  by (auto simp: refs_def pinned_def fun_eq_iff)

lemma refs_pos: "0 < refs hs L k \<longleftrightarrow> k \<in> set hs \<or> k \<in> L"
  by (simp add: refs_def pinned_def)

lemma refs_none [simp]: "refs hs {} = pinned hs"
  by (simp add: refs_def fun_eq_iff)

lemma refs_room: "length hs + card L < NBUF \<Longrightarrow> room (refs hs L) 1"
proof -
  assume l: "length hs + card L < NBUF"
  have "{k. 0 < refs hs L k} = set hs \<union> L" by (auto simp: refs_pos)
  then have "card {k. 0 < refs hs L k} \<le> length hs + card L"
    using card_Un_le [of "set hs" L] card_length [of hs] by simp
  then show ?thesis using l by (simp add: room_def)
qed

text \<open>The state of an operation that began in \<open>s0\<close>.\<close>

definition tst :: "nat \<Rightarrow> nat \<Rightarrow> u32 \<Rightarrow> u32 \<Rightarrow> 'a log_scheme \<Rightarrow> (u32 \<Rightarrow> u8 list) \<Rightarrow> (u32 \<Rightarrow> u8 list) \<Rightarrow> u32 list \<Rightarrow> u32 set \<Rightarrow>
    (u32 \<Rightarrow> nat) \<Rightarrow> 'a log_scheme \<Rightarrow> bool" where
  "tst n p d start s0 D V hs L B s \<longleftrightarrow>
     cached n p d \<lparr>vdisk = D, vdata = V, vref = refs hs L, vlocked = L, vbuf = B\<rparr> s
     \<and> log_fields d start hs s \<and> 0 < log_outstanding s \<and> homes n start hs \<and> txio p s0 s"

text \<open>Between operations no block is locked.\<close>

definition tx :: "nat \<Rightarrow> nat \<Rightarrow> u32 \<Rightarrow> u32 \<Rightarrow> (u32 \<Rightarrow> u8 list) \<Rightarrow> (u32 \<Rightarrow> u8 list) \<Rightarrow> u32 list \<Rightarrow> 'a log_scheme \<Rightarrow> bool" where
  "tx n p d start D V hs s \<longleftrightarrow> rep n p d D V (pinned hs) s \<and> log_fields d start hs s \<and> 0 < log_outstanding s \<and> homes n start hs"

lemma tx_tst: "tx n p d start D V hs s \<longleftrightarrow> (\<exists>B. tst n p d start s D V hs {} B s)"
  by (auto simp: tx_def tst_def rep_cached)

lemma tst_tx: "tst n p d start s0 D V hs {} B s \<Longrightarrow> tx n p d start D V hs s \<and> txio p s0 s"
  by (auto simp: tx_def tst_def rep_cached)

lemma tst_on_disk: "tst n p d start s0 D V hs L B s \<Longrightarrow> k \<in> set hs \<or> k \<in> L \<Longrightarrow> on_disk n k"
  by (auto simp: tst_def cached_def view_ok_def simp flip: refs_pos)

lemma tst_length: "tst n p d start s0 D V hs L B s \<Longrightarrow> on_disk n k \<Longrightarrow> length (V k) = BSIZE"
  by (auto simp: tst_def cached_def view_ok_def)

lemma tst_clean: "tst n p d start s0 D V hs {} B s \<Longrightarrow> on_disk n k \<Longrightarrow> k \<in> set hs \<or> V k = D k"
  by (auto simp: tst_def cached_def view_ok_def pinned_def)

lemma tst_quiet: "tst n p d start s0 D V hs L B s \<Longrightarrow> quiet s"
  by (simp add: tst_def cached_def)

lemma tst_st: "tst n p d start s0 D V hs L B s \<Longrightarrow> st n p d s [] D V (refs hs L) L B s"
  by (simp add: tst_def st_def)

lemma tst_step:
  assumes "tst n p d start s0 D V hs L B s" "st n p d s [] D V' R' L' B' t" "R' = refs hs L'"
  shows "tst n p d start s0 D V' hs L' B' t"
proof -
  have "io p s t []" using assms(2) by (simp add: st_def)
  then show ?thesis
    using assms log_fields_io [of p s t] txio_io [of p s t] txio_trans [of p s0 s t] txio_log(3) [of p s t]
    by (auto simp: tst_def st_def)
qed

section \<open>Operations\<close>

lemma NBUF_LOG: "NBUF = LOGBLOCKS"
  by (simp add: NBUF_def LOGBLOCKS_def)

lemma tst_bread:
  assumes t: "tst n p d start s0 D V hs L B s" and dev: "blk_dev n P" and k: "on_disk n k" "k \<notin> L"
    and r: "k \<in> set hs \<or> length hs + card L < NBUF"
    and f: "\<And>b t. tst n p d start s0 D V hs (insert k L) (B(k := b)) t \<Longrightarrow> wp (f b) P t Q"
  shows "wp (bind (bread d k) f) P s Q"
proof (rule st_bread [OF tst_st [OF t] dev k])
  show "refs hs L k < 4294967294" by (simp add: refs_def pinned_def)
  show "0 < refs hs L k \<or> room (refs hs L) 1" using r refs_room by (auto simp: refs_pos)
  show "wp (f b) P u Q" if "st n p d s [] D V ((refs hs L)(k := refs hs L k + 1)) (insert k L) (B(k := b)) u" for b u
    using f [OF tst_step [OF t that]] k by (simp add: refs_simps)
qed

lemma tst_get_data:
  assumes t: "tst n p d start s0 D V hs L B s" and "b = B k" "k \<in> L"
    and "tst n p d start s0 D V hs L B s \<Longrightarrow> wp (f (V k)) P s Q"
  shows "wp (bind (get_data b) f) P s Q"
  by (rule st_get_data [OF tst_st [OF t] assms(2)]) (use assms in \<open>simp_all add: refs_pos\<close>)

lemma tst_set_data:
  assumes t: "tst n p d start s0 D V hs L B s" and "b = B k" "k \<in> L" "length (g (V k)) = BSIZE"
    and f: "\<And>t. tst n p d start s0 D (V(k := g (V k))) hs L B t \<Longrightarrow> wp (f ()) P t Q"
  shows "wp (bind (set_data b g) f) P s Q"
  by (rule st_set_data [OF tst_st [OF t] assms(2)]) (use assms(3,4) f tst_step [OF t] in \<open>simp_all add: refs_pos\<close>)

lemma tst_brelse:
  assumes t: "tst n p d start s0 D V hs L B s" and "b = B k" "k \<in> L" "k \<in> set hs \<or> V k = D k"
    and f: "\<And>t. tst n p d start s0 D V hs (L - {k}) B t \<Longrightarrow> wp (f ()) P t Q"
  shows "wp (bind (brelse b) f) P s Q"
proof (rule st_brelse [OF tst_st [OF t] assms(2,3)])
  show "1 < refs hs L k \<or> V k = D k" using assms(3,4) by (auto simp: refs_def pinned_def)
  show "wp (f ()) P u Q" if "st n p d s [] D V ((refs hs L)(k := refs hs L k - 1)) (L - {k}) B u" for u
    by (rule f [OF tst_step [OF t that refs_simps(2) [OF assms(3)]]])
qed

text \<open>\<open>log_write\<close> appends the block to the log, unless it is there: log absorption.\<close>

definition absorb :: "u32 \<Rightarrow> u32 list \<Rightarrow> u32 list" where
  "absorb k hs = (if k \<in> set hs then hs else hs @ [k])"

lemma log_index_le: "log_index k hs \<le> length hs" "log_index k hs = length hs \<longleftrightarrow> k \<notin> set hs"
  "k \<in> set hs \<Longrightarrow> hs ! log_index k hs = k"
  by (induction hs) (auto split: if_splits)

lemma bpin_inside:
  assumes "inside l s" "l \<noteq> BcacheLock"
  shows "bpin b P s = Ret () (set_buf b (\<lambda>q. q\<lparr>b_refcnt := b_refcnt q + 1\<rparr>) s)"
  using acquire_inside [OF assms(1), of BcacheLock P] release_inside [OF assms(1) _ neutral_set_buf, of BcacheLock] assms(2)
  by (simp add: bpin_def)

lemma neutral_log_update: "lock_neutral (\<lambda>s. s\<lparr>log_block := f (log_block s)\<rparr>)" "lock_neutral (\<lambda>s. s\<lparr>log_n := g (log_n s)\<rparr>)"
  by (simp_all add: lock_neutral_def)

lemma acquired_log [simp]: "log_n (acquired l s) = log_n s" "log_block (acquired l s) = log_block s"
  "log_outstanding (acquired l s) = log_outstanding s" "log_committing (acquired l s) = log_committing s"
  by (simp_all add: acquired_def pushed_def settle_def set_mycpu_def set_lock_def)

lemma set_buf_log [simp]: "log_n (set_buf b f s) = log_n s" "log_block (set_buf b f s) = log_block s"
  "log_dev (set_buf b f s) = log_dev s" "log_start (set_buf b f s) = log_start s" "log_outstanding (set_buf b f s) = log_outstanding s"
  by (simp_all add: set_buf_def)

lemma log_write_eq:
  assumes q: "quiet s" and l: "log_fields d start hs s" "length hs < LOGBLOCKS" and o: "0 < log_outstanding s"
    and b: "b_blockno (bufs s b) = k"
  shows "log_write b P s = Ret () (if k \<in> set hs then s
    else (set_buf b (\<lambda>q. q\<lparr>b_refcnt := b_refcnt q + 1\<rparr>) (s\<lparr>log_block := (log_block s)[length hs := k]\<rparr>))\<lparr>log_n := log_n s + 1\<rparr>)"
proof -
  let ?i = "log_index k hs" let ?pin = "set_buf b (\<lambda>q. q\<lparr>b_refcnt := b_refcnt q + 1\<rparr>)"
  let ?f = "\<lambda>s :: 'a log_scheme. s\<lparr>log_block := (log_block s)[?i := k]\<rparr>"
  let ?g = "\<lambda>s :: 'a log_scheme. s\<lparr>log_n := log_n s + 1\<rparr>"
  let ?a = "acquired LogLock s"
  have n: "log_n s = int (length hs)" "take (length hs) (log_block s) = hs" using l by (auto simp: log_fields_def)
  have nf: "lock_neutral ?f" "lock_neutral ?g" by (rule neutral_log_update)+
  have r1: "release LogLock P (?f ?a) = Ret () (?f s)" by (rule release_quiet [OF q nf(1)])
  have r2: "release LogLock P (?g (?pin (?f ?a))) = Ret () (?g (?pin (?f s)))"
    by (rule release_quiet [OF q neutral_comp [OF nf(2) neutral_comp [OF neutral_set_buf nf(1)]]])
  have pin: "bpin b P (?f ?a) = Ret () (?pin (?f ?a))"
    by (rule bpin_inside [of LogLock]) (use q inside_neutral [OF nf(1), of LogLock ?a] in simp_all)
  show ?thesis
  proof (cases "k \<in> set hs")
    case True
    then have "?i < length hs" "log_block s ! ?i = k"
      using log_index_le [of k hs] log_fields_nth [OF l(1), of ?i] by auto
    then have "?f s = s" using list_update_id [of "log_block s" ?i] by simp
    then show ?thesis using True q n l(2) o b r1 log_index_le(2) [of k hs]
      by (simp add: log_write_def run_simps Let_def)
  next
    case False
    then have i: "?i = length hs" using log_index_le(2) by metis
    show ?thesis using False q n l(2) o b r2 pin i
      by (simp add: log_write_def run_simps Let_def)
  qed
qed

lemma log_fields_append:
  assumes "log_fields d start hs s" "length hs < LOGBLOCKS" "log_n t = log_n s + 1" "log_block t = (log_block s)[length hs := k]"
    "log_dev t = log_dev s" "log_start t = log_start s"
  shows "log_fields d start (hs @ [k]) t"
  using assms by (auto simp: log_fields_def take_Suc_conv_app_nth)

lemma tst_log_write:
  assumes t: "tst n p d start s0 D V hs L B s" and b: "b = B k" "k \<in> L" and k: "\<not> in_log start k"
    and l: "length hs < LOGBLOCKS"
    and f: "\<And>t. tst n p d start s0 D V (absorb k hs) L B t \<Longrightarrow> wp (f ()) P t Q"
  shows "wp (bind (log_write b) f) P s Q"
proof -
  let ?v = "\<lparr>vdisk = D, vdata = V, vref = refs hs L, vlocked = L, vbuf = B\<rparr>"
  let ?u = "set_buf b (\<lambda>q. q\<lparr>b_refcnt := b_refcnt q + 1\<rparr>) s"
  let ?t = "?u\<lparr>log_n := log_n s + 1, log_block := (log_block s)[length hs := k]\<rparr>"
  have c: "cached n p d ?v s" "log_fields d start hs s" "0 < log_outstanding s" "homes n start hs" "txio p s0 s"
    using t by (auto simp: tst_def)
  have r: "0 < refs hs L k" "refs hs L k < 4294967294" using b by (simp_all add: refs_def pinned_def)
  have "b_blockno (bufs s b) = k" using cached_vbuf(3) [OF c(1), of k] r b(1) by simp
  note e = log_write_eq [where P = P, OF cached_simps(1) [OF c(1)] c(2) l c(3) this]
  show ?thesis
  proof (cases "k \<in> set hs")
    case True
    then show ?thesis using e f [of s] t by (simp add: wp_def absorb_def)
  next
    case False
    have "bpin b P s = Ret () ?u"
      unfolding bpin_def by (rule critical_set_buf [OF cached_simps(1) [OF c(1)]])
    then have u: "cached n p d (v_pin k ?v) ?u" "io p s ?u []"
      using bpin_view [OF c(1), of k P] r b(1) by (simp_all add: wp_def io_def)
    have "txio p s ?t" using io_above(2) [OF io_above(1) [OF u(2)]] by (simp add: txio_def)
    moreover have "cached n p d \<lparr>vdisk = D, vdata = V, vref = refs (hs @ [k]) L, vlocked = L, vbuf = B\<rparr> ?t"
      using u(1) False by (simp add: cached_above v_pin_def refs_simps)
    moreover have "log_fields d start (hs @ [k]) ?t" by (rule log_fields_append [OF c(2) l]) simp_all
    moreover have "homes n start (hs @ [k])" using c(4) k False tst_on_disk [OF t, of k] b(2) by (simp add: homes_def)
    ultimately have "tst n p d start s0 D V (absorb k hs) L B ?t"
      using False c(3) txio_trans [OF c(5)] by (simp add: tst_def absorb_def)
    moreover have "log_write b P s = Ret () ?t" using e False by (cases s) (simp add: set_buf_def)
    ultimately show ?thesis using f [of ?t] by (simp add: wp_def)
  qed
qed

end
