(* ===== verification/BlockAlloc.thy ===== *)
theory BlockAlloc
  imports Tx
begin

text \<open>
  The block allocator of \<open>kernel/fs.c\<close> inside a transaction: \<open>balloc\<close> and \<open>bfree\<close> against the set of
  free blocks that the bitmap on disk represents.
\<close>

section \<open>The bitmap\<close>

definition used :: "superblock \<Rightarrow> (u32 \<Rightarrow> u8 list) \<Rightarrow> u32 \<Rightarrow> bool" where
  "used sbk V b \<longleftrightarrow> (let bi = unat b mod BPB in V (BBLOCK b sbk) ! (bi div 8) AND bit_mask bi \<noteq> 0)"

definition free_blocks :: "superblock \<Rightarrow> (u32 \<Rightarrow> u8 list) \<Rightarrow> u32 set" where
  "free_blocks sbk V = {b. b < sb_size sbk \<and> \<not> used sbk V b}"

text \<open>The bitmap is on disk outside the log, and only data blocks are free: not the boot block, which
  stands for failure, not the log and not the bitmap.\<close>

definition bitmap_ok :: "nat \<Rightarrow> u32 \<Rightarrow> superblock \<Rightarrow> (u32 \<Rightarrow> u8 list) \<Rightarrow> bool" where
  "bitmap_ok n start sbk V \<longleftrightarrow>
     (\<forall>b < sb_size sbk. on_disk n b \<and> on_disk n (BBLOCK b sbk) \<and> \<not> in_log start (BBLOCK b sbk))
     \<and> (\<forall>b \<in> free_blocks sbk V. b \<noteq> 0 \<and> \<not> in_log start b \<and> (\<forall>c < sb_size sbk. b \<noteq> BBLOCK c sbk))"

definition mark_bit :: "bool \<Rightarrow> nat \<Rightarrow> u8 list \<Rightarrow> u8 list" where
  "mark_bit u bi data = data[bi div 8 := (if u then (data ! (bi div 8)) OR bit_mask bi else (data ! (bi div 8)) AND NOT (bit_mask bi))]"

definition mark :: "superblock \<Rightarrow> bool \<Rightarrow> u32 \<Rightarrow> (u32 \<Rightarrow> u8 list) \<Rightarrow> u32 \<Rightarrow> u8 list" where
  "mark sbk u b V = V(BBLOCK b sbk := mark_bit u (unat b mod BPB) (V (BBLOCK b sbk)))"

lemma length_mark_bit [simp]: "length (mark_bit u bi data) = length data"
  by (simp add: mark_bit_def)

lemma BPB_eq: "BPB = 8192"
  by (simp add: BPB_def BSIZE_def)

lemma BPB_pos [simp]: "0 < BPB"
  by (simp add: BPB_eq)

lemma bit_mask_bit: "w AND bit_mask bi \<noteq> 0 \<longleftrightarrow> bit w (bi mod 8)"
  by (simp add: bit_mask_def bit_iff_and_push_bit_not_eq_0)

lemma used_bit: "used sbk V b \<longleftrightarrow> bit (V (BBLOCK b sbk) ! (unat b mod BPB div 8)) (unat b mod 8)"
  by (simp add: used_def bit_mask_bit BPB_eq mod_mod_cancel)

lemma bit_bit_mask: "bit (bit_mask bi) j \<longleftrightarrow> j = bi mod 8"
  by (auto simp: bit_mask_def bit_simps not_less)

lemma bit_mark_bit:
  assumes "i < length data" "bi div 8 < length data" "j < 8"
  shows "bit (mark_bit u bi data ! i) j \<longleftrightarrow> (if i = bi div 8 \<and> j = bi mod 8 then u else bit (data ! i) j)"
  using assms by (auto simp: mark_bit_def nth_list_update bit_simps bit_bit_mask)

lemma unat_block_div: "unat (b div of_nat BPB :: u32) = unat b div BPB"
  by (simp add: BPB_eq unat_div)

lemma BBLOCK_eq: "BBLOCK b sbk = BBLOCK c sbk \<longleftrightarrow> unat b div BPB = unat c div BPB"
proof -
  have "BBLOCK b sbk = BBLOCK c sbk \<longleftrightarrow> (b div of_nat BPB :: u32) = c div of_nat BPB" by (simp add: BBLOCK_def)
  also have "\<dots> \<longleftrightarrow> unat (b div of_nat BPB :: u32) = unat (c div of_nat BPB :: u32)" by (simp only: unsigned_word_eqI word_unat_eq_iff)
  finally show ?thesis by (simp only: unat_block_div)
qed

lemma block_eq:
  fixes b c :: u32
  shows "b = c \<longleftrightarrow> unat b div BPB = unat c div BPB \<and> unat b mod BPB div 8 = unat c mod BPB div 8 \<and> unat b mod 8 = unat c mod 8"
proof -
  have x: "unat x = unat x div BPB * BPB + (unat x mod BPB div 8 * 8 + unat x mod 8)" for x :: u32
  proof -
    have "unat x mod BPB div 8 * 8 + unat x mod BPB mod 8 = unat x mod BPB" by simp
    then show ?thesis by (simp add: BPB_eq mod_mod_cancel)
  qed
  show ?thesis using x [of b] x [of c] by (auto simp: word_unat_eq_iff)
qed

lemma used_mark:
  assumes "length (V (BBLOCK b sbk)) = BSIZE"
  shows "used sbk (mark sbk u b V) c \<longleftrightarrow> (if c = b then u else used sbk V c)"
proof -
  have i: "unat x mod BPB div 8 < BSIZE" "unat x mod BPB mod 8 = unat x mod 8" for x :: u32
    unfolding BPB_eq by (simp add: BSIZE_def less_mult_imp_div_less, simp add: mod_mod_cancel)
  show ?thesis
  proof (cases "BBLOCK c sbk = BBLOCK b sbk")
    case True
    then show ?thesis using assms i block_eq [of c b] BBLOCK_eq [of c sbk b]
      by (simp add: used_bit mark_def bit_mark_bit)
  next
    case False
    then show ?thesis by (auto simp: used_bit mark_def)
  qed
qed

lemma used_other: "V (BBLOCK c sbk) = V' (BBLOCK c sbk) \<Longrightarrow> used sbk V c = used sbk V' c"
  by (simp add: used_def)

text \<open>What marking does to the set.\<close>

lemma free_blocks_mark:
  assumes "length (V (BBLOCK b sbk)) = BSIZE" "b < sb_size sbk"
  shows "free_blocks sbk (mark sbk u b V) = (if u then free_blocks sbk V - {b} else insert b (free_blocks sbk V))"
  using assms by (auto simp: free_blocks_def used_mark)

lemma free_blocks_data: "(\<And>c. c < sb_size sbk \<Longrightarrow> b \<noteq> BBLOCK c sbk) \<Longrightarrow> free_blocks sbk (V(b := x)) = free_blocks sbk V"
  by (auto simp: free_blocks_def used_def)

section \<open>Scanning\<close>

lemma free_bit_cases:
  "case free_bit data bi n of
     None \<Rightarrow> \<forall>j. bi \<le> j \<and> j < bi + n \<longrightarrow> (data ! (j div 8)) AND bit_mask j \<noteq> 0
   | Some j \<Rightarrow> bi \<le> j \<and> j < bi + n \<and> (data ! (j div 8)) AND bit_mask j = 0
       \<and> (\<forall>i. bi \<le> i \<and> i < j \<longrightarrow> (data ! (i div 8)) AND bit_mask i \<noteq> 0)"
proof (induction n arbitrary: bi)
  case (Suc n)
  show ?case
  proof (cases "(data ! (bi div 8)) AND bit_mask bi = 0")
    case False
    have "P i" if "P bi" "bi \<le> i" "Suc bi \<le> i \<Longrightarrow> P i" for i and P :: "nat \<Rightarrow> bool"
      using that by (cases "i = bi") auto
    then show ?thesis using False Suc [of "Suc bi"] by (auto split: option.splits; metis Suc_leI le_neq_implies_less)
  qed auto
qed auto

text \<open>The block with bit \<open>bi\<close> in bitmap block \<open>j\<close>.\<close>

lemma block_at:
  assumes "j * BPB + bi < 4294967296" "bi < BPB"
  shows "unat (of_nat (j * BPB + bi) :: u32) = j * BPB + bi"
    "BBLOCK (of_nat (j * BPB + bi)) sbk = BBLOCK (of_nat (j * BPB)) sbk" "unat (of_nat (j * BPB + bi) :: u32) mod BPB = bi"
proof -
  have u: "unat (of_nat (j * BPB + bi) :: u32) = j * BPB + bi" "unat (of_nat (j * BPB) :: u32) = j * BPB"
    by (rule of_nat_inverse; use assms in simp)+
  show "unat (of_nat (j * BPB + bi) :: u32) = j * BPB + bi" by (rule u)
  show "unat (of_nat (j * BPB + bi) :: u32) mod BPB = bi" unfolding u using assms by simp
  show "BBLOCK (of_nat (j * BPB + bi)) sbk = BBLOCK (of_nat (j * BPB)) sbk"
    unfolding BBLOCK_eq u using assms by (simp add: BPB_eq)
qed

lemma used_at: "j * BPB + bi < 4294967296 \<Longrightarrow> bi < BPB \<Longrightarrow>
  used sbk V (of_nat (j * BPB + bi)) \<longleftrightarrow> V (BBLOCK (of_nat (j * BPB)) sbk) ! (bi div 8) AND bit_mask bi \<noteq> 0"
  using block_at [of j bi] by (simp only: used_def Let_def)

text \<open>Scanning one bitmap block, when no block before those it is about is free.\<close>

lemma free_scan:
  assumes below: "\<forall>c :: u32. unat c < j * BPB \<longrightarrow> c \<notin> free_blocks sbk V" and j: "j * BPB < unat (sb_size sbk)"
    and k: "k = BBLOCK (of_nat (j * BPB)) sbk"
  shows "case free_bit (V k) 0 (min BPB (unat (sb_size sbk) - j * BPB)) of
      None \<Rightarrow> \<forall>c. unat c < Suc j * BPB \<longrightarrow> c \<notin> free_blocks sbk V
    | Some bi \<Rightarrow> (let x = of_nat (j * BPB + bi) in x \<in> free_blocks sbk V \<and> (\<forall>c \<in> free_blocks sbk V. x \<le> c)
        \<and> k = BBLOCK x sbk \<and> bi = unat x mod BPB)"
proof -
  let ?w = "min BPB (unat (sb_size sbk) - j * BPB)"
  have sz: "unat (sb_size sbk) < 4294967296" by (rule unat_u32_less)
  have at: "unat (of_nat (j * BPB + bi) :: u32) = j * BPB + bi" "BBLOCK (of_nat (j * BPB + bi)) sbk = k"
      "unat (of_nat (j * BPB + bi) :: u32) mod BPB = bi"
      "of_nat (j * BPB + bi) \<in> free_blocks sbk V \<longleftrightarrow> V k ! (bi div 8) AND bit_mask bi = 0" if "bi < ?w" for bi
  proof -
    have b: "bi < BPB" "j * BPB + bi < unat (sb_size sbk)" using that by auto
    moreover from b(2) sz have "j * BPB + bi < 4294967296" by (rule less_trans)
    ultimately show "unat (of_nat (j * BPB + bi) :: u32) = j * BPB + bi" "BBLOCK (of_nat (j * BPB + bi)) sbk = k"
      "unat (of_nat (j * BPB + bi) :: u32) mod BPB = bi"
      "of_nat (j * BPB + bi) \<in> free_blocks sbk V \<longleftrightarrow> V k ! (bi div 8) AND bit_mask bi = 0"
      using block_at [of j bi] used_at [of j bi sbk V] by (simp_all add: k free_blocks_def word_less_nat_alt del: of_nat_add of_nat_mult)
  qed
  have split: "\<exists>bi. c = of_nat (j * BPB + bi) \<and> unat c = j * BPB + bi" if "\<not> unat c < j * BPB" for c :: u32
    using that by (intro exI [of _ "unat c - j * BPB"]) simp
  show ?thesis
  proof (cases "free_bit (V k) 0 ?w")
    case None
    have "c \<notin> free_blocks sbk V" if c: "unat c < Suc j * BPB" "\<not> unat c < j * BPB" "c < sb_size sbk" for c
    proof -
      obtain bi where bi: "c = of_nat (j * BPB + bi)" "unat c = j * BPB + bi" using split [OF c(2)] by blast
      then have "bi < ?w" using c by (simp add: word_less_nat_alt)
      then show ?thesis using at(4) [of bi] bi(1) None free_bit_cases [where data = "V k" and bi = 0 and n = ?w] by simp
    qed
    then show ?thesis using below None by (auto simp: free_blocks_def)
  next
    case (Some bi)
    have f: "bi < ?w" "V k ! (bi div 8) AND bit_mask bi = 0" "\<forall>i < bi. V k ! (i div 8) AND bit_mask i \<noteq> 0"
      using free_bit_cases [where data = "V k" and bi = 0 and n = ?w] by (auto simp: Some)
    have "of_nat (j * BPB + bi) \<le> c" if c: "c \<in> free_blocks sbk V" for c :: u32
    proof -
      obtain i where i: "c = of_nat (j * BPB + i)" "unat c = j * BPB + i" using split below c by blast
      have "\<not> i < bi"
      proof
        assume "i < bi"
        then show False using at(4) [of i] f(1,3) c i(1) by simp
      qed
      then have "bi \<le> i" by simp
      then show ?thesis using at(1) [OF f(1)] i(2) by (simp add: word_le_nat_alt del: of_nat_add of_nat_mult)
    qed
    then show ?thesis using at [OF f(1)] f(2) unfolding Some option.case Let_def by simp
  qed
qed

section \<open>Operations\<close>

lemma tst_bzero:
  assumes t: "tst n p d start s0 D V hs {} B s" and dev: "blk_dev n P"
    and k: "on_disk n k" "\<not> in_log start k" "length hs < LOGBLOCKS"
    and f: "\<And>B t. tst n p d start s0 D (V(k := replicate BSIZE 0)) (absorb k hs) {} B t \<Longrightarrow> wp (f ()) P t Q"
  shows "wp (bind (bzero d k) f) P s Q"
  using t k unfolding bzero_def bind_assoc
  apply -
  apply (erule tst_bread [OF _ dev]; (simp add: NBUF_LOG)?)
  apply (erule tst_set_data [where k = k]; simp?)
  apply (erule tst_log_write [where k = k]; simp?)
  apply (erule tst_brelse [where k = k]; (simp add: absorb_def)?)
  apply (rule f, simp add: absorb_def)
  done

lemma sb_txio: "txio p s t \<Longrightarrow> sb t = sb s"
  using txio_log(5) [of p s t] by (cases s; cases t) simp

text \<open>What \<open>balloc\<close> does: it takes the first free block, marks it in the bitmap and zeroes it; without
  a free block it returns 0 and changes nothing.\<close>

definition balloc_post :: "nat \<Rightarrow> nat \<Rightarrow> u32 \<Rightarrow> u32 \<Rightarrow> superblock \<Rightarrow> (u32 \<Rightarrow> u8 list) \<Rightarrow> (u32 \<Rightarrow> u8 list) \<Rightarrow> u32 list \<Rightarrow>
    'a log_scheme \<Rightarrow> u32 \<Rightarrow> 'a log_scheme \<Rightarrow> bool" where
  "balloc_post n p d start sbk D V hs s b t \<longleftrightarrow> txio p s t \<and>
     (if free_blocks sbk V = {} then b = 0 \<and> tx n p d start D V hs t
      else b \<in> free_blocks sbk V \<and> (\<forall>c \<in> free_blocks sbk V. b \<le> c)
        \<and> tx n p d start D ((mark sbk True b V)(b := replicate BSIZE 0)) (absorb b (absorb (BBLOCK b sbk) hs)) t)"

lemma txio_panicked: "txio p s t \<Longrightarrow> panicked t = panicked s"
  using frame_console by (fastforce simp: txio_def io_def)

lemma balloc_fits: "fmt_fits (cs ''balloc: out of blocks'' @ [10]) []"
  by (simp add: cs_def)

lemma block_split:
  fixes c :: u32
  shows "unat c = unat c div BPB * BPB + unat c mod BPB" "unat c mod BPB < BPB" "of_nat (unat c div BPB * BPB + unat c mod BPB) = c"
  by (simp_all add: BPB_eq)

lemma absorb_length: "length (absorb k hs) \<le> Suc (length hs)" "k \<in> set (absorb k hs)"
  by (simp_all add: absorb_def)

lemma balloc_take:
  fixes u :: "'a log_scheme"
  assumes t: "tst n p d start s D V hs {k} B u" and dev: "blk_dev n P" and ok: "bitmap_ok n start sbk V" and l: "length hs + 2 \<le> LOGBLOCKS"
    and x: "x \<in> free_blocks sbk V" "k = BBLOCK x sbk" "bi = unat x mod BPB"
  shows "wp (bind (set_data (B k) (\<lambda>data. data[bi div 8 := (data ! (bi div 8)) OR bit_mask bi])) (\<lambda>_.
    bind (log_write (B k)) (\<lambda>_. bind (brelse (B k)) (\<lambda>_. bind (bzero d x) (\<lambda>_. ret x))))) P u
    (\<lambda>y t. y = x \<and> txio p s t \<and> tx n p d start D ((mark sbk True x V)(x := replicate BSIZE 0)) (absorb x (absorb k hs)) t)"
proof -
  let ?g = "\<lambda>data. data[bi div 8 := (data ! (bi div 8)) OR bit_mask bi]"
  have xo: "on_disk n x" "on_disk n k" "\<not> in_log start k" "\<not> in_log start x" using ok x by (auto simp: bitmap_ok_def free_blocks_def)
  have g: "V(k := ?g (V k)) = mark sbk True x V" using x by (simp add: mark_def mark_bit_def)
  have len: "length (?g (V k)) = BSIZE" using tst_length [OF t xo(2)] by simp
  have l': "length hs < LOGBLOCKS" "length (absorb k hs) < LOGBLOCKS" using l absorb_length(1) [of k hs] by auto
  show ?thesis
    apply (rule tst_set_data [where g = ?g and k = k, OF t refl _ len], simp)
    unfolding g
    apply (erule tst_log_write [where k = k, OF _ refl _ xo(3) l'(1)], simp)
    apply (erule tst_brelse [where k = k, OF _ refl], simp, simp add: absorb_length)
    apply (simp only: Diff_cancel)
    apply (erule tst_bzero [OF _ dev xo(1,4) l'(2)])
    apply (auto simp: wp_ret dest: tst_tx)
    done
qed

lemma balloc_scan_tx:
  fixes s :: "'a fs_scheme"
  assumes dev: "blk_dev n P" "uart_ready P" and l: "length hs + 2 \<le> LOGBLOCKS" and ok: "bitmap_ok n start sbk V"
    and m: "m = (unat (sb_size sbk) + BPB - 1) div BPB"
  shows "tx n p d start D V hs s \<Longrightarrow> sb s = sbk \<Longrightarrow> \<not> panicked s \<Longrightarrow> \<forall>c. unat c < j * BPB \<longrightarrow> c \<notin> free_blocks sbk V \<Longrightarrow> j \<le> m \<Longrightarrow>
    wp (balloc_scan d (map (\<lambda>k. k * BPB) [j..<m])) P s (balloc_post n p d start sbk D V hs s)"
proof (induction "m - j" arbitrary: j s)
  case 0
  have "free_blocks sbk V = {}"
  proof -
    have "unat c < m * BPB" if "c < sb_size sbk" for c
      using that unfolding m BPB_eq word_less_nat_alt by linarith
    then show ?thesis using 0 by (auto simp: free_blocks_def)
  qed
  moreover have "quiet s" using 0(2) by (auto simp: tx_tst dest: tst_quiet)
  ultimately show ?case using 0 printf_quiet [OF dev(2) _ _ balloc_fits]
    by (simp add: wp_bind wp_def balloc_post_def ret_def)
next
  case (Suc x)
  let ?b = "of_nat (j * BPB) :: u32" let ?k = "BBLOCK ?b sbk"
  let ?w = "min BPB (unat (sb_size sbk) - j * BPB)"
  have jm: "j < m" using Suc(2) by simp
  have jl: "j * BPB < unat (sb_size sbk)"
    using jm unfolding m BPB_eq by linarith
  have sz: "unat (sb_size sbk) < 4294967296" by (rule unat_u32_less)
  have b: "?b < sb_size sbk" using block_at(1) [of j 0] jl sz by (simp add: word_less_nat_alt BPB_pos del: of_nat_mult)
  note scan = free_scan [OF Suc(6) jl refl]
  have k: "on_disk n ?k" "\<not> in_log start ?k" using ok b by (auto simp: bitmap_ok_def)
  obtain B where t: "tst n p d start s D V hs {} B s" using Suc(3) by (auto simp: tx_tst)
  have D: "?k \<in> set hs \<or> V ?k = D ?k" by (rule tst_clean [OF t k(1)])
  have body: "wp (case free_bit (V ?k) 0 ?w of
      Some bi \<Rightarrow>
         bind (set_data (B ?k) (\<lambda>data. data[bi div 8 := (data ! (bi div 8)) OR bit_mask bi])) (\<lambda>_.
         bind (log_write (B ?k)) (\<lambda>_.
         bind (brelse (B ?k)) (\<lambda>_.
         bind (bzero d (of_nat (j * BPB + bi))) (\<lambda>_.
         ret (of_nat (j * BPB + bi))))))
     | None \<Rightarrow> bind (brelse (B ?k)) (\<lambda>_. balloc_scan d (map (\<lambda>k. k * BPB) [Suc j..<m]))) P u (balloc_post n p d start sbk D V hs s)"
    if u: "tst n p d start s D V hs {?k} B u" for B u
  proof (cases "free_bit (V ?k) 0 ?w")
    case None
    then have below: "\<forall>c. unat c < Suc j * BPB \<longrightarrow> c \<notin> free_blocks sbk V" using scan by simp
    have "wp (balloc_scan d (map (\<lambda>k. k * BPB) [Suc j..<m])) P v (balloc_post n p d start sbk D V hs s)"
      if v: "tst n p d start s D V hs {} B v" for v
    proof -
      have sv: "tx n p d start D V hs v" "txio p s v" using tst_tx [OF v] by auto
      show ?thesis
        by (rule wp_mono [OF Suc(1) [OF _ sv(1)]])
          (use Suc(2,4,5) below jm sb_txio [OF sv(2)] txio_panicked [OF sv(2)] txio_trans [OF sv(2)] in \<open>auto simp: balloc_post_def\<close>)
    qed
    then show ?thesis unfolding None option.case
      by (intro tst_brelse [where k = ?k, OF u refl _ D]) simp_all
  next
    case (Some bi)
    then have x: "of_nat (j * BPB + bi) \<in> free_blocks sbk V" "\<forall>c \<in> free_blocks sbk V. of_nat (j * BPB + bi) \<le> c"
      and at: "?k = BBLOCK (of_nat (j * BPB + bi)) sbk" "bi = unat (of_nat (j * BPB + bi) :: u32) mod BPB"
      using scan by (simp_all add: Let_def del: of_nat_add of_nat_mult)
    show ?thesis unfolding Some option.case
      by (rule wp_mono [OF balloc_take [OF u dev(1) ok l x(1) at]]) (use x at(1) in \<open>auto simp: balloc_post_def\<close>)
  qed
  have "wp (balloc_scan d (map (\<lambda>k. k * BPB) (j # [Suc j..<m]))) P s (balloc_post n p d start sbk D V hs s)"
    apply (simp only: list.map balloc_scan.simps)
    apply (simp only: wp_bind [of "gets f" for f] wp_gets Suc(4))
    apply (rule tst_bread [OF t dev(1) k(1)], simp, use l in \<open>simp add: NBUF_LOG\<close>)
    apply (rule tst_get_data [where k = ?k], assumption, simp, simp)
    subgoal for b u using body [of "B(?k := b)" u] by (simp only: fun_upd_same)
    done
  then show ?case using jm by (simp only: upt_conv_Cons)
qed

lemma balloc_tx:
  fixes s :: "'a fs_scheme"
  assumes t: "tx n p d start D V hs s" and dev: "blk_dev n P" "uart_ready P" "\<not> panicked s"
    and ok: "bitmap_ok n start (sb s) V" and l: "length hs + 2 \<le> LOGBLOCKS"
  shows "wp (balloc d) P s (balloc_post n p d start (sb s) D V hs s)"
  using balloc_scan_tx [OF dev(1,2) l ok refl t refl dev(3), of 0] by (simp add: balloc_def wp_bind wp_gets)

lemma bfree_tx:
  fixes s :: "'a fs_scheme"
  assumes t: "tx n p d start D V hs s" and dev: "blk_dev n P" and b: "b < sb_size (sb s)" "used (sb s) V b"
    and ok: "bitmap_ok n start (sb s) V" and l: "length hs < LOGBLOCKS"
  shows "wp (bfree d b) P s (\<lambda>_ t. txio p s t \<and> tx n p d start D (mark (sb s) False b V) (absorb (BBLOCK b (sb s)) hs) t)"
proof -
  let ?k = "BBLOCK b (sb s)" and ?bi = "unat b mod BPB"
  let ?g = "\<lambda>data. data[?bi div 8 := (data ! (?bi div 8)) AND NOT (bit_mask ?bi)]"
  obtain B where t: "tst n p d start s D V hs {} B s" using t by (auto simp: tx_tst)
  have k: "on_disk n ?k" "\<not> in_log start ?k" using ok b(1) by (auto simp: bitmap_ok_def)
  have g: "V(?k := ?g (V ?k)) = mark (sb s) False b V" by (simp add: mark_def mark_bit_def)
  have len: "length (?g (V ?k)) = BSIZE" using tst_length [OF t k(1)] by simp
  have u: "(V ?k ! (?bi div 8) AND bit_mask ?bi = 0) = False" using b(2) by (simp add: used_def Let_def)
  show ?thesis unfolding bfree_def
    apply (simp only: wp_bind [of "gets f" for f] wp_gets)
    apply (rule tst_bread [OF t dev k(1)], simp, use l in \<open>simp add: NBUF_LOG\<close>)
    apply (erule tst_get_data [where k = ?k], simp, simp)
    apply (simp only: Let_def u if_False)
    apply (erule tst_set_data [where g = ?g and k = ?k], simp, simp, rule len)
    unfolding g
    apply (erule tst_log_write [where k = ?k], simp, simp, rule k(2), rule l)
    apply (rule wp_tail, erule tst_brelse [where k = ?k], simp, simp, simp add: absorb_length)
    apply (auto simp: wp_ret dest: tst_tx)
    done
qed

lemma bind_panics: "wp m P s Q \<Longrightarrow> (\<And>x t. Q x t \<Longrightarrow> \<exists>u. f x P t = Panic msg u) \<Longrightarrow> \<exists>u. bind m f P s = Panic msg u"
  by (auto simp: wp_def bind_def split: outcome.splits)

lemma bfree_panics:
  fixes s :: "'a fs_scheme"
  assumes t: "tx n p d start D V hs s" and dev: "blk_dev n P" and b: "b \<in> free_blocks (sb s) V"
    and ok: "bitmap_ok n start (sb s) V" and l: "length hs < LOGBLOCKS"
  shows "\<exists>t. bfree d b P s = Panic ''freeing free block'' t"
proof -
  let ?k = "BBLOCK b (sb s)" and ?bi = "unat b mod BPB"
  obtain B where t: "tst n p d start s D V hs {} B s" using t by (auto simp: tx_tst)
  have k: "on_disk n ?k" using ok b by (auto simp: bitmap_ok_def free_blocks_def)
  have u: "V ?k ! (?bi div 8) AND bit_mask ?bi = 0" using b by (simp add: used_def free_blocks_def Let_def)
  have r: "wp (bread d ?k) P s (\<lambda>bp u. tst n p d start s D V hs {?k} (B(?k := bp)) u)"
    by (rule wp_tail, rule tst_bread [OF t dev k], simp, use l in \<open>simp add: NBUF_LOG\<close>) (simp add: wp_ret)
  have g: "wp (get_data bp) P v (\<lambda>x _. x = V ?k)" if "tst n p d start s D V hs {?k} (B(?k := bp)) v" for bp v
    by (rule wp_tail, rule tst_get_data [OF that, where k = ?k]) (simp_all add: wp_ret)
  have "\<exists>t. bind (bread d ?k) (\<lambda>bp. bind (get_data bp) (f bp)) P s = Panic ''freeing free block'' t"
    if "\<And>bp v. \<exists>w. f bp (V ?k) P v = Panic ''freeing free block'' w" for f :: "nat \<Rightarrow> u8 list \<Rightarrow> ('a fs_scheme, unit) op"
    by (rule bind_panics [OF r], rule bind_panics [OF g], assumption) (use that in simp)
  from this [of "\<lambda>bp data. if data ! (?bi div 8) AND bit_mask ?bi = 0 then panic ''freeing free block'' else _ bp data"]
  show ?thesis using u unfolding bfree_def by (simp add: Let_def run_simps)
qed

section \<open>The allocator\<close>

text \<open>Blocks that hold neither the log nor the bitmap nor the boot block.\<close>

definition data_block :: "u32 \<Rightarrow> superblock \<Rightarrow> u32 \<Rightarrow> bool" where
  "data_block start sbk b \<longleftrightarrow> b < sb_size sbk \<and> b \<noteq> 0 \<and> \<not> in_log start b \<and> (\<forall>c < sb_size sbk. b \<noteq> BBLOCK c sbk)"

lemma bitmap_ok_data: "bitmap_ok n start sbk V \<Longrightarrow> b \<in> free_blocks sbk V \<Longrightarrow> data_block start sbk b"
  by (auto simp: bitmap_ok_def data_block_def free_blocks_def)

lemma bitmap_ok_cong:
  "bitmap_ok n start sbk V \<Longrightarrow> \<forall>b \<in> free_blocks sbk V'. b \<in> free_blocks sbk V \<or> data_block start sbk b \<Longrightarrow> bitmap_ok n start sbk V'"
  unfolding bitmap_ok_def data_block_def by blast

lemma balloc_free_blocks:
  assumes t: "tx n p d start D V hs s" and ok: "bitmap_ok n start sbk V" and b: "b \<in> free_blocks sbk V"
  shows "free_blocks sbk ((mark sbk True b V)(b := x)) = free_blocks sbk V - {b}" "bitmap_ok n start sbk ((mark sbk True b V)(b := x))"
proof -
  have k: "on_disk n (BBLOCK b sbk)" "b < sb_size sbk" using ok b by (auto simp: bitmap_ok_def free_blocks_def)
  have "length (V (BBLOCK b sbk)) = BSIZE" using t tst_length k(1) by (auto simp: tx_tst)
  then show f: "free_blocks sbk ((mark sbk True b V)(b := x)) = free_blocks sbk V - {b}"
    using free_blocks_data bitmap_ok_data [OF ok b] free_blocks_mark [of V b sbk True] k(2) by (simp add: data_block_def)
  show "bitmap_ok n start sbk ((mark sbk True b V)(b := x))" by (rule bitmap_ok_cong [OF ok]) (simp add: f)
qed

lemma bfree_free_blocks:
  assumes t: "tx n p d start D V hs s" and ok: "bitmap_ok n start sbk V" and b: "data_block start sbk b"
  shows "free_blocks sbk (mark sbk False b V) = insert b (free_blocks sbk V)" "bitmap_ok n start sbk (mark sbk False b V)"
proof -
  have k: "on_disk n (BBLOCK b sbk)" "b < sb_size sbk" using ok b by (auto simp: bitmap_ok_def data_block_def)
  have "length (V (BBLOCK b sbk)) = BSIZE" using t tst_length k(1) by (auto simp: tx_tst)
  then show f: "free_blocks sbk (mark sbk False b V) = insert b (free_blocks sbk V)"
    using free_blocks_mark [of V b sbk False] k(2) by simp
  show "bitmap_ok n start sbk (mark sbk False b V)" by (rule bitmap_ok_cong [OF ok]) (use b in \<open>simp add: f\<close>)
qed

text \<open>C27: Inside a transaction \<open>balloc\<close> and \<open>bfree\<close> implement a set of free blocks, the one the bitmap
  represents. If there is a free block, \<open>balloc\<close> returns the least one, removes exactly it from the set and
  zeroes it; otherwise it returns 0 and changes no block. \<open>bfree\<close> adds exactly its argument to the set if
  it is a data block in use, and panics if it is free. No other block changes, nothing is written to disk
  and nothing outside the cache and the log's list of blocks changes; at most two blocks join that list.\<close>

theorem block_allocator:
  fixes s :: "'a fs_scheme"
  assumes t: "tx n p d start D V hs s" and dev: "blk_dev n P" "uart_ready P" "\<not> panicked s"
    and ok: "bitmap_ok n start (sb s) V" and l: "length hs + 2 \<le> LOGBLOCKS"
  shows "wp (balloc d) P s (\<lambda>b t. \<exists>V' hs'. tx n p d start D V' hs' t \<and> txio p s t \<and> bitmap_ok n start (sb s) V' \<and> length hs' \<le> length hs + 2
      \<and> (if free_blocks (sb s) V = {} then b = 0 \<and> V' = V
         else b \<in> free_blocks (sb s) V \<and> (\<forall>c \<in> free_blocks (sb s) V. b \<le> c) \<and> free_blocks (sb s) V' = free_blocks (sb s) V - {b}
           \<and> V' b = replicate BSIZE 0 \<and> (\<forall>k. k \<noteq> b \<and> k \<noteq> BBLOCK b (sb s) \<longrightarrow> V' k = V k)))
    \<and> (\<forall>b. data_block start (sb s) b \<longrightarrow>
        (if b \<in> free_blocks (sb s) V then \<exists>t. bfree d b P s = Panic ''freeing free block'' t
         else wp (bfree d b) P s (\<lambda>_ t. \<exists>V' hs'. tx n p d start D V' hs' t \<and> txio p s t \<and> bitmap_ok n start (sb s) V'
           \<and> length hs' \<le> length hs + 1 \<and> free_blocks (sb s) V' = insert b (free_blocks (sb s) V)
           \<and> (\<forall>k. k \<noteq> BBLOCK b (sb s) \<longrightarrow> V' k = V k))))"
    (is "wp _ P s ?Q \<and> (\<forall>b. _ \<longrightarrow> ?R b)")
proof (intro conjI allI impI)
  have len: "length (absorb x (absorb y hs)) \<le> length hs + 2" for x y
    using absorb_length(1) [of x "absorb y hs"] absorb_length(1) [of y hs] by simp
  show "wp (balloc d) P s ?Q"
  proof (rule wp_mono [OF balloc_tx [OF t dev ok l]])
    fix b u assume u: "balloc_post n p d start (sb s) D V hs s b u"
    show "?Q b u"
    proof (cases "free_blocks (sb s) V = {}")
      case True
      then show ?thesis using u ok by (auto simp: balloc_post_def)
    next
      case False
      then show ?thesis using u balloc_free_blocks [OF t ok, of b] len
        by (intro exI [of _ "(mark (sb s) True b V)(b := replicate BSIZE 0)"] exI [of _ "absorb b (absorb (BBLOCK b (sb s)) hs)"])
          (auto simp: balloc_post_def mark_def)
    qed
  qed
  fix b assume b: "data_block start (sb s) b"
  have l: "length hs < LOGBLOCKS" using l by simp
  show "?R b"
  proof (cases "b \<in> free_blocks (sb s) V")
    case False
    then have "b < sb_size (sb s)" "used (sb s) V b" using b by (auto simp: data_block_def free_blocks_def)
    note bf = bfree_tx [OF t dev(1) this ok l]
    have len: "length (absorb (BBLOCK b (sb s)) hs) \<le> length hs + 1" using absorb_length(1) [of "BBLOCK b (sb s)" hs] by simp
    have "\<forall>k. k \<noteq> BBLOCK b (sb s) \<longrightarrow> mark (sb s) False b V k = V k" by (simp add: mark_def)
    then show ?thesis unfolding if_not_P [OF False]
      by (intro wp_mono [OF bf] exI [of _ "mark (sb s) False b V"] exI [of _ "absorb (BBLOCK b (sb s)) hs"] conjI)
        (use len bfree_free_blocks [OF t ok b] in \<open>simp_all only: \<close>)
  qed (use bfree_panics [OF t dev(1) _ ok l] in simp)
qed

subsection \<open>An example\<close>

text \<open>A file system of 100 blocks whose first 48 are in use; the log starts at block 2 and the bitmap is block 45.\<close>

definition bm0 :: files where
  "bm0 = boot0\<lparr>disk := (\<lambda>_. replicate 512 0)(90 := replicate 6 255 @ replicate 506 0), log_start := 2, log_dev := 1, log_n := 0,
     log_outstanding := 1, log_block := replicate 30 0,
     sb := \<lparr>sb_magic = FSMAGIC, sb_size = 100, sb_nblocks = 54, sb_ninodes = 200, sb_nlog = 31, sb_logstart = 2, sb_inodestart = 33, sb_bmapstart = 45\<rparr>\<rparr>"

lemma bm0_select [simp]:
  "disk bm0 = (\<lambda>_. replicate 512 0)(90 := replicate 6 255 @ replicate 506 0)" "sb_size (sb bm0) = 100" "sb_bmapstart (sb bm0) = 45"
  "bufs bm0 = linked" "sleeplocks bm0 l = \<lparr>lk_locked = 0, lk_name = [], lk_pid = 0\<rparr>" "\<not> panicked bm0" "mycpu bm0 = mycpu run0"
  "quiet bm0" "disk_ok bm0" "log_fields 1 2 [] bm0" "log_outstanding bm0 = 1" "bcache_inv bm0"
  using quiet_cong [of bm0 boot0] bcache_inv_bufs [of bm0 boot0] disk_ok_boot0
  by (simp_all add: bm0_def mycpu_def disk_ok_def log_fields_def LOGBLOCKS_def MAXOPBLOCKS_def bcache_inv_def lru_ok_linked keys_ok_def SECTOR_SIZE_def)
    (simp_all add: boot0_def on_defs ext_defs run0_def procs0_def kmem0_def mach0_def mycpu_def)

lemma tx_bm0: "tx 2000 0 1 2 (disk_block bm0) (disk_block bm0) [] bm0"
proof -
  have "booted 2000 0 1 bm0"
    by (rule booted_fresh) (simp_all, simp add: bm0_def LOGBLOCKS_def MAXOPBLOCKS_def)
  moreover have "pinned [] = (\<lambda>_. 0)" by (simp add: pinned_def fun_eq_iff)
  ultimately show ?thesis by (simp add: tx_def booted_def homes_def)
qed

lemma disk_block_bm0: "disk_block bm0 45 = replicate 6 255 @ replicate 1018 0"
  by (simp add: disk_block_def sector_of_def replicate_add [symmetric] SECTORS_PER_BLOCK_def BSIZE_def SECTOR_SIZE_def)

lemma free_bm0: "free_blocks (sb bm0) (disk_block bm0) = {b. 48 \<le> b \<and> b < 100}"
proof -
  have "used (sb bm0) (disk_block bm0) b \<longleftrightarrow> b < 48" if b: "b < 100" for b
  proof -
    have u: "unat b < 100" using b by (simp add: word_less_nat_alt)
    then have k: "BBLOCK b (sb bm0) = 45" "unat b mod BPB = unat b"
      using BBLOCK_eq [of b "sb bm0" 0] by (simp_all add: BBLOCK_def BPB_eq)
    have "unat b div 8 < 6 \<longleftrightarrow> b < 48" by (simp add: word_less_nat_alt div_less_iff_less_mult)
    moreover have "bit (255 :: u8) j" if "j < 8" for j
    proof -
      have "(255 :: u8) = mask 8" by (simp add: mask_eq_exp_minus_1)
      then show ?thesis using that by (simp only: bit_mask_iff) simp
    qed
    ultimately show ?thesis using u by (simp add: used_bit k disk_block_bm0 nth_append)
  qed
  then show ?thesis by (auto simp: free_blocks_def)
qed

lemma BBLOCK_bm0: "b < 100 \<Longrightarrow> BBLOCK b (sb bm0) = 45"
  using BBLOCK_eq [of b "sb bm0" 0] by (simp add: BBLOCK_def BPB_eq word_less_nat_alt)

lemma bitmap_bm0: "bitmap_ok 2000 2 (sb bm0) (disk_block bm0)"
proof -
  show ?thesis unfolding bitmap_ok_def free_bm0
    by (auto simp: BBLOCK_bm0 on_disk_unat in_log_def word_less_nat_alt word_le_nat_alt LOGBLOCKS_def MAXOPBLOCKS_def)
qed

theorem block_allocator_witness:
  "(\<exists>t. balloc 1 (plain_dev 2000) bm0 = Ret 48 t) \<and> (\<exists>t. bfree 1 47 (plain_dev 2000) bm0 = Ret () t)"
proof -
  have l: "length ([] :: u32 list) + 2 \<le> LOGBLOCKS" by (simp add: LOGBLOCKS_def MAXOPBLOCKS_def)
  note w = block_allocator [OF tx_bm0 plain_dev_ok bm0_select(6) bitmap_bm0 l]
  have ne: "48 \<in> free_blocks (sb bm0) (disk_block bm0)" "47 \<notin> free_blocks (sb bm0) (disk_block bm0)" by (simp_all add: free_bm0)
  obtain b t where b: "balloc 1 (plain_dev 2000) bm0 = Ret b t" "b \<in> free_blocks (sb bm0) (disk_block bm0)"
      "\<forall>c \<in> free_blocks (sb bm0) (disk_block bm0). b \<le> c"
    using wp_ex [OF conjunct1 [OF w]] ne(1) by (auto split: if_splits)
  have "b = 48" using b(2,3) ne(1) by (auto simp: free_bm0)
  moreover have "data_block 2 (sb bm0) 47"
    by (auto simp: data_block_def in_log_def LOGBLOCKS_def MAXOPBLOCKS_def BBLOCK_bm0)
  then have "\<exists>t. bfree 1 47 (plain_dev 2000) bm0 = Ret () t"
    using conjunct2 [OF w, rule_format, of 47] ne(2) wp_ex by fastforce
  ultimately show ?thesis using b(1) by auto
qed

end
