(* ===== verification/Mkfs.thy ===== *)
theory Mkfs
  imports BlockAlloc
begin

text \<open>
  The program that builds the initial disk image, \<open>mkfs/mkfs.c\<close>. It runs on the host: opening and reading the
  files it is given and writing the image may fail, and how they go is a parameter. All accesses to the
  image are whole blocks, so the image is the list of its blocks; a block can be read once it is there. The host is little-endian, as the
  conversions \<open>xshort\<close> and \<open>xint\<close> then change nothing; they are applied where the source applies them. The
  messages it prints are not modelled.
\<close>

section \<open>State and errors\<close>

definition FSSIZE :: nat where "FSSIZE = 2000"
definition NINODES :: nat where "NINODES = 200"

definition nbitmap :: nat where "nbitmap = FSSIZE div BPB + 1"
definition ninodeblocks :: nat where "ninodeblocks = NINODES div IPB + 1"
definition nlog :: nat where "nlog = LOGBLOCKS + 1"

definition nmeta :: nat where "nmeta = 2 + nlog + ninodeblocks + nbitmap"
definition nblocks :: nat where "nblocks = FSSIZE - nmeta"

record mkfs =
  fsimg :: "u8 list list"
  m_sb :: superblock
  freeinode :: u32
  freeblock :: u32

datatype mkerr = Usage | Die "u8 list" | Assertion string

text \<open>Whether the image can be created, what successive calls of \<open>read\<close> on a file return until the first
  that is not positive, and whether a block can be written.\<close>

record host =
  h_create :: "u8 list \<Rightarrow> bool"
  h_open :: "u8 list \<Rightarrow> u8 list list option"
  h_write :: "nat \<Rightarrow> u8 list \<Rightarrow> bool"

type_synonym 'a mk = "mkfs \<Rightarrow> mkerr + 'a \<times> mkfs"

definition mk_ret :: "'a \<Rightarrow> 'a mk" where
  "mk_ret x m = Inr (x, m)"

definition mk_bind :: "'a mk \<Rightarrow> ('a \<Rightarrow> 'b mk) \<Rightarrow> 'b mk" where
  "mk_bind c f m = (case c m of Inl e \<Rightarrow> Inl e | Inr (x, m') \<Rightarrow> f x m')"

definition mk_fail :: "mkerr \<Rightarrow> 'a mk" where
  "mk_fail e m = Inl e"

definition mk_assert :: "string \<Rightarrow> bool \<Rightarrow> unit mk" where
  "mk_assert msg b = (if b then mk_ret () else mk_fail (Assertion msg))"

definition mk_gets :: "(mkfs \<Rightarrow> 'a) \<Rightarrow> 'a mk" where
  "mk_gets f m = Inr (f m, m)"

definition mk_modify :: "(mkfs \<Rightarrow> mkfs) \<Rightarrow> unit mk" where
  "mk_modify f m = Inr ((), f m)"

fun mk_each :: "'a list \<Rightarrow> ('a \<Rightarrow> unit mk) \<Rightarrow> unit mk" where
  "mk_each [] f = mk_ret ()"
| "mk_each (x # xs) f = mk_bind (f x) (\<lambda>_. mk_each xs f)"

section \<open>The image\<close>

definition xshort :: "u16 \<Rightarrow> u16" where
  "xshort x = word16 [ucast x, ucast (drop_bit 8 x)]"

definition xint :: "u32 \<Rightarrow> u32" where
  "xint x = word32 [ucast x, ucast (drop_bit 8 x), ucast (drop_bit 16 x), ucast (drop_bit 24 x)]"

text \<open>The offset \<open>sec * BSIZE\<close> is computed in 32 bits; a block written past the end leaves a hole of zeroes.\<close>

definition sect_at :: "u32 \<Rightarrow> nat" where
  "sect_at sec = unat (sec * of_nat BSIZE) div BSIZE"

definition put_block :: "nat \<Rightarrow> u8 list \<Rightarrow> u8 list list \<Rightarrow> u8 list list" where
  "put_block k buf img =
     (if k < length img then img[k := buf] else img @ replicate (k - length img) (replicate BSIZE 0) @ [buf])"

definition wsect :: "host \<Rightarrow> u32 \<Rightarrow> u8 list \<Rightarrow> unit mk" where
  "wsect h sec buf =
     (if h_write h (sect_at sec) buf then mk_modify (\<lambda>m. m\<lparr>fsimg := put_block (sect_at sec) buf (fsimg m)\<rparr>)
      else mk_fail (Die (cs ''write'')))"

definition rsect :: "u32 \<Rightarrow> u8 list mk" where
  "rsect sec =
     mk_bind (mk_gets fsimg) (\<lambda>img.
     if sect_at sec < length img then mk_ret (img ! sect_at sec) else mk_fail (Die (cs ''read'')))"

definition winode :: "host \<Rightarrow> u32 \<Rightarrow> dinode \<Rightarrow> unit mk" where
  "winode h inum din =
     mk_bind (mk_gets (\<lambda>m. IBLOCK inum (m_sb m))) (\<lambda>bn.
     mk_bind (rsect bn) (\<lambda>buf.
     wsect h bn (put_dinode inum din buf)))"

definition rinode :: "u32 \<Rightarrow> dinode mk" where
  "rinode inum =
     mk_bind (mk_gets (\<lambda>m. IBLOCK inum (m_sb m))) (\<lambda>bn.
     mk_bind (rsect bn) (\<lambda>buf.
     mk_ret (get_dinode buf inum)))"

definition mk_ialloc :: "host \<Rightarrow> u16 \<Rightarrow> u32 mk" where
  "mk_ialloc h type =
     mk_bind (mk_gets freeinode) (\<lambda>inum.
     mk_bind (mk_modify (\<lambda>m. m\<lparr>freeinode := freeinode m + 1\<rparr>)) (\<lambda>_.
     mk_bind (winode h inum (zero_dinode\<lparr>di_type := xshort type, di_nlink := xshort 1, di_size := xint 0\<rparr>)) (\<lambda>_.
     mk_ret inum)))"

definition mk_bitmap :: "nat \<Rightarrow> u8 list" where
  "mk_bitmap n = fold (\<lambda>i buf. buf[i div 8 := (buf ! (i div 8)) OR bit_mask i]) [0..<n] (replicate BSIZE 0)"

definition mk_balloc :: "host \<Rightarrow> int \<Rightarrow> unit mk" where
  "mk_balloc h n =
     mk_bind (mk_assert ''used < BPB'' (n < int BPB)) (\<lambda>_.
     mk_bind (mk_gets (\<lambda>m. sb_bmapstart (m_sb m))) (\<lambda>b.
     wsect h b (mk_bitmap (nat n))))"

section \<open>Appending to a file\<close>

definition alloc_block :: "u32 mk" where
  "alloc_block =
     mk_bind (mk_gets freeblock) (\<lambda>b.
     mk_bind (mk_modify (\<lambda>m. m\<lparr>freeblock := freeblock m + 1\<rparr>)) (\<lambda>_.
     mk_ret b))"

text \<open>Slot \<open>i\<close> of the addresses in the inode, allocated if it is empty.\<close>

definition iappend_slot :: "dinode \<Rightarrow> nat \<Rightarrow> (u32 \<times> dinode) mk" where
  "iappend_slot din i =
     mk_bind
       (if xint (di_addrs din ! i) = 0
        then mk_bind alloc_block (\<lambda>b. mk_ret (din\<lparr>di_addrs := (di_addrs din)[i := xint b]\<rparr>))
        else mk_ret din) (\<lambda>din.
     mk_ret (xint (di_addrs din ! i), din))"

definition iappend_block :: "host \<Rightarrow> dinode \<Rightarrow> nat \<Rightarrow> (u32 \<times> dinode) mk" where
  "iappend_block h din fbn =
     (if fbn < NDIRECT then iappend_slot din fbn
      else
        mk_bind (iappend_slot din NDIRECT) (\<lambda>(ib, din).
        mk_bind (rsect ib) (\<lambda>indirect.
        let at = 4 * (fbn - NDIRECT) in
        if get32 indirect at = 0
        then
          mk_bind alloc_block (\<lambda>b.
          mk_bind (wsect h ib (put_at at (bytes32 (xint b)) indirect)) (\<lambda>_.
          mk_ret (xint (xint b), din)))
        else mk_ret (xint (get32 indirect at), din))))"

lemma chunk_pos: "0 < n \<Longrightarrow> 0 < min n ((o' div BSIZE + 1) * BSIZE - o')"
  using dividend_less_times_div [of BSIZE o'] by (simp add: BSIZE_def mult.commute)

function iappend_loop :: "host \<Rightarrow> u32 \<Rightarrow> dinode \<Rightarrow> u8 list \<Rightarrow> (u32 \<times> dinode) mk" where
  "iappend_loop h off din p =
     (if p = [] then mk_ret (off, din)
      else
        let fbn = unat off div BSIZE in
        mk_bind (mk_assert ''fbn < MAXFILE'' (fbn < MAXFILE)) (\<lambda>_.
        mk_bind (iappend_block h din fbn) (\<lambda>(x, din).
        let n1 = min (length p) ((fbn + 1) * BSIZE - unat off) in
        mk_bind (rsect x) (\<lambda>buf.
        mk_bind (wsect h x (put_at (unat off - fbn * BSIZE) (take n1 p) buf)) (\<lambda>_.
        iappend_loop h (off + of_nat n1) din (drop n1 p))))))"
  by pat_completeness auto
termination
proof (relation "measure (\<lambda>(h, off, din, p). length p)", goal_cases)
  case (2 h off din p)
  then show ?case using chunk_pos [of "length p" "unat off"] by (simp add: Let_def)
qed simp

declare iappend_loop.simps [simp del]

definition iappend :: "host \<Rightarrow> u32 \<Rightarrow> u8 list \<Rightarrow> unit mk" where
  "iappend h inum p =
     mk_bind (rinode inum) (\<lambda>din.
     mk_bind (iappend_loop h (xint (di_size din)) din p) (\<lambda>(off, din).
     winode h inum (din\<lparr>di_size := xint off\<rparr>)))"

section \<open>The program\<close>

definition USER_DIR :: "u8 list" where
  "USER_DIR = cs ''user/''"

definition mk_shortname :: "u8 list \<Rightarrow> u8 list" where
  "mk_shortname arg = (if take 5 arg = USER_DIR then drop 5 arg else arg)"

definition skip_underscore :: "u8 list \<Rightarrow> u8 list" where
  "skip_underscore name = (if name \<noteq> [] \<and> hd name = 95 then tl name else name)"

text \<open>
  A directory entry, zeroed and filled in. The entries for \<open>.\<close> and \<open>..\<close> are filled with \<open>strcpy\<close>, which for
  names shorter than \<open>DIRSIZ\<close> writes the same bytes.
\<close>

definition mk_dirent :: "u32 \<Rightarrow> u8 list \<Rightarrow> u8 list" where
  "mk_dirent inum name = bytes16 (xshort (ucast inum)) @ strncpy (replicate DIRSIZ 0) (cptr name) (int DIRSIZ)"

definition mk_file :: "host \<Rightarrow> u32 \<Rightarrow> u8 list \<Rightarrow> unit mk" where
  "mk_file h rootino arg =
     (let shortname = mk_shortname arg in
     mk_bind (mk_assert ''index(shortname, '/') == 0'' (SLASH \<notin> set shortname)) (\<lambda>_.
     case h_open h arg of None \<Rightarrow> mk_fail (Die arg)
     | Some chunks \<Rightarrow>
         let shortname = skip_underscore shortname in
         mk_bind (mk_assert ''strlen(shortname) <= DIRSIZ'' (length shortname \<le> DIRSIZ)) (\<lambda>_.
         mk_bind (mk_ialloc h T_FILE) (\<lambda>inum.
         mk_bind (iappend h rootino (mk_dirent inum shortname)) (\<lambda>_.
         mk_each chunks (iappend h inum))))))"

definition mk_sb :: superblock where
  "mk_sb = \<lparr>sb_magic = FSMAGIC, sb_size = xint (of_nat FSSIZE), sb_nblocks = xint (of_nat nblocks),
     sb_ninodes = xint (of_nat NINODES), sb_nlog = xint (of_nat nlog), sb_logstart = xint 2,
     sb_inodestart = xint (of_nat (2 + nlog)), sb_bmapstart = xint (of_nat (2 + nlog + ninodeblocks))\<rparr>"

definition bytes_of_sb :: "superblock \<Rightarrow> u8 list" where
  "bytes_of_sb s = bytes32 (sb_magic s) @ bytes32 (sb_size s) @ bytes32 (sb_nblocks s) @ bytes32 (sb_ninodes s)
     @ bytes32 (sb_nlog s) @ bytes32 (sb_logstart s) @ bytes32 (sb_inodestart s) @ bytes32 (sb_bmapstart s)"

definition fix_root :: "host \<Rightarrow> u32 \<Rightarrow> unit mk" where
  "fix_root h rootino =
     mk_bind (rinode rootino) (\<lambda>din.
     let off = (xint (di_size din) div of_nat BSIZE + 1) * of_nat BSIZE in
     winode h rootino (din\<lparr>di_size := xint off\<rparr>))"

definition mk_body :: "host \<Rightarrow> u8 list list \<Rightarrow> unit mk" where
  "mk_body h args =
     mk_bind (mk_each [0..<FSSIZE] (\<lambda>i. wsect h (of_nat i) (replicate BSIZE 0))) (\<lambda>_.
     mk_bind (wsect h 1 (put_at 0 (bytes_of_sb mk_sb) (replicate BSIZE 0))) (\<lambda>_.
     mk_bind (mk_ialloc h T_DIR) (\<lambda>rootino.
     mk_bind (mk_assert ''rootino == ROOTINO'' (rootino = ROOTINO)) (\<lambda>_.
     mk_bind (iappend h rootino (mk_dirent rootino (cs ''.''))) (\<lambda>_.
     mk_bind (iappend h rootino (mk_dirent rootino (cs ''..''))) (\<lambda>_.
     mk_bind (mk_each args (mk_file h rootino)) (\<lambda>_.
     mk_bind (fix_root h rootino) (\<lambda>_.
     mk_bind (mk_gets freeblock) (\<lambda>b.
     mk_balloc h (sint b))))))))))"

definition mk_start :: mkfs where
  "mk_start = \<lparr>fsimg = [], m_sb = mk_sb, freeinode = 1, freeblock = of_nat nmeta\<rparr>"

text \<open>The image that \<open>mkfs\<close> leaves when it exits with status 0.\<close>

definition mk_main :: "host \<Rightarrow> u8 list list \<Rightarrow> mkerr + u8 list list" where
  "mk_main h argv =
     (case argv of prog # img # args \<Rightarrow>
        if \<not> h_create h img then Inl (Die img)
        else (case mk_body h args mk_start of Inl e \<Rightarrow> Inl e | Inr ((), m) \<Rightarrow> Inr (fsimg m))
      | _ \<Rightarrow> Inl Usage)"

end
