(* ===== verification/MkfsInv.thy ===== *)
theory MkfsInv
  imports Mkfs
begin

text \<open>
  The invariant of the image that \<open>mkfs\<close> builds: which blocks belong to which file, and what the files
  hold. The blocks of a file are its slots, the data blocks in order and then the indirect block.
\<close>

section \<open>Generalities\<close>

lemma xint_id [simp]: "xint x = x"
proof -
  have "word32 (bytes32 x) = x" by simp
  then show ?thesis by (simp add: xint_def bytes32_def)
qed

lemma xshort_id [simp]: "xshort x = x"
proof -
  have "word16 (bytes16 x) = x" by simp
  then show ?thesis by (simp add: xshort_def bytes16_def)
qed

lemma mk_sizes: "nlog = 31" "ninodeblocks = 13" "nbitmap = 1" "nmeta = 47" "FSSIZE = 2000" "NINODES = 200"
  by (simp_all add: nlog_def ninodeblocks_def nbitmap_def nmeta_def FSSIZE_def NINODES_def fs_sizes LOGBLOCKS_def MAXOPBLOCKS_def)

lemma mk_sb_fields [simp]: "sb_size mk_sb = 2000" "sb_inodestart mk_sb = 33" "sb_bmapstart mk_sb = 46" "sb_logstart mk_sb = 2"
  by (simp_all add: mk_sb_def mk_sizes)

lemma mk_run: "mk_ret x m = Inr (x, m)" "mk_gets f m = Inr (f m, m)" "mk_modify g m = Inr ((), g m)" "mk_fail e m = Inl e"
  by (simp_all add: mk_ret_def mk_gets_def mk_modify_def mk_fail_def)

lemma sect_at_small: "unat x < 2000 \<Longrightarrow> sect_at x = unat x"
proof -
  assume x: "unat x < 2000"
  have "unat (x * of_nat BSIZE) = unat x * BSIZE"
    using x by (simp add: BSIZE_def unat_mult_lem [THEN iffD1])
  then show ?thesis by (simp add: sect_at_def BSIZE_def)
qed

section \<open>Slots\<close>

definition slot :: "u8 list list \<Rightarrow> dinode \<Rightarrow> nat \<Rightarrow> u32" where
  "slot img din j =
     (if j < NDIRECT then di_addrs din ! j
      else let ib = di_addrs din ! NDIRECT in
        if j = MAXFILE then ib else if ib = 0 then 0 else get32 (img ! unat ib) (4 * (j - NDIRECT)))"

text \<open>The slots \<open>mp\<close> of \<open>n\<close> files are in use, and no block is in two of them.\<close>

definition slots_ok :: "(nat \<Rightarrow> nat \<Rightarrow> nat) \<Rightarrow> (nat \<Rightarrow> nat \<Rightarrow> bool) \<Rightarrow> nat \<Rightarrow> nat \<Rightarrow> bool" where
  "slots_ok S mp fb n \<longleftrightarrow>
     (\<forall>i < n. \<forall>j \<le> MAXFILE. if mp i j then nmeta \<le> S i j \<and> S i j < fb else S i j = 0)
     \<and> (\<forall>i < n. \<forall>j \<le> MAXFILE. \<forall>i' < n. \<forall>j' \<le> MAXFILE. mp i j \<and> S i j = S i' j' \<longrightarrow> i = i' \<and> j = j')"

lemma slots_okD:
  assumes "slots_ok S mp fb n" "i < n" "j \<le> MAXFILE"
  shows "mp i j \<Longrightarrow> nmeta \<le> S i j" "mp i j \<Longrightarrow> S i j < fb" "\<not> mp i j \<Longrightarrow> S i j = 0"
    "i' < n \<Longrightarrow> j' \<le> MAXFILE \<Longrightarrow> mp i j \<Longrightarrow> S i j = S i' j' \<Longrightarrow> i = i' \<and> j = j'"
  using assms unfolding slots_ok_def by (metis (full_types))+

lemma slots_okI:
  assumes "\<And>i j. i < n \<Longrightarrow> j \<le> MAXFILE \<Longrightarrow> mp i j \<Longrightarrow> nmeta \<le> S i j \<and> S i j < fb"
    "\<And>i j. i < n \<Longrightarrow> j \<le> MAXFILE \<Longrightarrow> \<not> mp i j \<Longrightarrow> S i j = 0"
    "\<And>i j i' j'. i < n \<Longrightarrow> j \<le> MAXFILE \<Longrightarrow> i' < n \<Longrightarrow> j' \<le> MAXFILE \<Longrightarrow> mp i j \<Longrightarrow> S i j = S i' j' \<Longrightarrow> i = i' \<and> j = j'"
  shows "slots_ok S mp fb n"
  using assms unfolding slots_ok_def by (metis (full_types))

lemma slots_ok_cong:
  assumes s: "slots_ok S mp fb n" and e: "\<And>i j. i < n \<Longrightarrow> j \<le> MAXFILE \<Longrightarrow> S' i j = S i j" "\<And>i j. i < n \<Longrightarrow> j \<le> MAXFILE \<Longrightarrow> mp' i j = mp i j"
  shows "slots_ok S' mp' fb n"
  by (rule slots_okI) (use slots_okD [OF s] e in \<open>simp_all\<close>)

lemma slots_ok_alloc:
  assumes s: "slots_ok S mp fb n" and f: "nmeta \<le> fb" and S': "\<And>i' j'. i' < n \<Longrightarrow> j' \<le> MAXFILE \<Longrightarrow> S' i' j' = (if i' = i \<and> j' = j then fb else S i' j')"
  shows "slots_ok S' (\<lambda>i' j'. (i' = i \<and> j' = j) \<or> mp i' j') (Suc fb) n"
proof (rule slots_okI)
  have lt: "S i' j' < fb" if "i' < n" "j' \<le> MAXFILE" for i' j'
    using slots_okD(2,3) [OF s that] f mk_sizes(4) by (cases "mp i' j'") auto
  fix a b assume ab: "a < n" "b \<le> MAXFILE"
  show "nmeta \<le> S' a b \<and> S' a b < Suc fb" if "a = i \<and> b = j \<or> mp a b"
    using slots_okD(1,2) [OF s ab] f S' [OF ab] that by auto
  show "S' a b = 0" if "\<not> (a = i \<and> b = j \<or> mp a b)" using slots_okD(3) [OF s ab] S' [OF ab] that by auto
  fix a' b' assume ab': "a' < n" "b' \<le> MAXFILE" and m: "a = i \<and> b = j \<or> mp a b" and e: "S' a b = S' a' b'"
  show "a = a' \<and> b = b'"
    using slots_okD(4) [OF s ab ab'] m e lt [OF ab] lt [OF ab'] unfolding S' [OF ab] S' [OF ab'] by (auto split: if_splits)
qed

section \<open>Contents\<close>

definition bytes_ok :: "u8 list list \<Rightarrow> (nat \<Rightarrow> nat \<Rightarrow> nat) \<Rightarrow> (nat \<Rightarrow> nat \<Rightarrow> bool) \<Rightarrow> u8 list list \<Rightarrow> bool" where
  "bytes_ok img S mp fc \<longleftrightarrow> (\<forall>i < length fc. \<forall>k < MAXFILE * BSIZE. mp i (k div BSIZE) \<longrightarrow>
     img ! S i (k div BSIZE) ! (k mod BSIZE) = (if k < length (fc ! i) then fc ! i ! k else 0))"

text \<open>The image, the first free block, the inodes, the slots in use and the contents of the files.\<close>

definition disk_inv :: "u8 list list \<Rightarrow> nat \<Rightarrow> (nat \<Rightarrow> dinode) \<Rightarrow> (nat \<Rightarrow> nat \<Rightarrow> bool) \<Rightarrow> u8 list list \<Rightarrow> bool" where
  "disk_inv img fb dins mp fc \<longleftrightarrow>
     length img = FSSIZE \<and> (\<forall>b \<in> set img. length b = BSIZE) \<and> nmeta \<le> fb \<and> fb \<le> FSSIZE
     \<and> (\<forall>k. fb \<le> k \<and> k < FSSIZE \<longrightarrow> img ! k = replicate BSIZE 0)
     \<and> (\<forall>i < length fc. length (di_addrs (dins i)) = Suc NDIRECT)
     \<and> slots_ok (\<lambda>i j. unat (slot img (dins i) j)) mp fb (length fc)
     \<and> bytes_ok img (\<lambda>i j. unat (slot img (dins i) j)) mp fc"

lemma slot_cong: "img ! unat (di_addrs din ! NDIRECT) = img' ! unat (di_addrs din ! NDIRECT) \<Longrightarrow> slot img din j = slot img' din j"
  by (simp add: slot_def Let_def)

lemma slot_indirect: "slot img din MAXFILE = di_addrs din ! NDIRECT"
  by (simp add: slot_def fs_sizes)

lemma nth_put_at:
  "off + length bs \<le> length data \<Longrightarrow> k < length data \<Longrightarrow>
   put_at off bs data ! k = (if off \<le> k \<and> k < off + length bs then bs ! (k - off) else data ! k)"
  by (auto simp: put_at_def nth_append min_def)

lemma get32_cong: "(\<And>k. k < 4 \<Longrightarrow> data ! (off + k) = data' ! (off + k)) \<Longrightarrow> length data = length data' \<Longrightarrow> off + 4 \<le> length data \<Longrightarrow>
  get32 data off = get32 data' off"
  unfolding get32_def by (rule arg_cong [where f = word32], rule nth_equalityI) simp_all

lemma get32_put_at:
  assumes "4 * a + 4 \<le> length data" "4 * b + 4 \<le> length data"
  shows "get32 (put_at (4 * a) (bytes32 w) data) (4 * b) = (if a = b then w else get32 data (4 * b))"
proof (cases "a = b")
  case True
  then show ?thesis using assms by (simp add: put_at_def get32_def min_def)
next
  case False
  have "get32 (put_at (4 * a) (bytes32 w) data) (4 * b) = get32 data (4 * b)"
    by (rule get32_cong) (use assms False in \<open>auto simp: nth_put_at length_put_at\<close>)
  then show ?thesis using False by simp
qed

lemma get32_zero: "off + 4 \<le> n \<Longrightarrow> get32 (replicate n 0) off = 0"
  by (simp add: get32_def word32_def min_def numeral_eq_Suc)

lemma disk_invD:
  assumes "disk_inv img fb dins mp fc"
  shows "length img = 2000" "k < 2000 \<Longrightarrow> length (img ! k) = BSIZE" "nmeta \<le> fb" "fb \<le> 2000"
    "fb \<le> k \<Longrightarrow> k < 2000 \<Longrightarrow> img ! k = replicate BSIZE 0" "i < length fc \<Longrightarrow> length (di_addrs (dins i)) = Suc NDIRECT"
    "slots_ok (\<lambda>i j. unat (slot img (dins i) j)) mp fb (length fc)" "bytes_ok img (\<lambda>i j. unat (slot img (dins i) j)) mp fc"
  using assms by (auto simp: disk_inv_def mk_sizes)

lemma disk_inv_slot:
  assumes d: "disk_inv img fb dins mp fc" and i: "i < length fc" "j \<le> MAXFILE"
  shows "mp i j \<Longrightarrow> nmeta \<le> unat (slot img (dins i) j)" "mp i j \<Longrightarrow> unat (slot img (dins i) j) < fb" "(slot img (dins i) j = 0) = (\<not> mp i j)"
    "i' < length fc \<Longrightarrow> j' \<le> MAXFILE \<Longrightarrow> mp i j \<Longrightarrow> slot img (dins i) j = slot img (dins i') j' \<Longrightarrow> i = i' \<and> j = j'"
  using slots_okD [OF disk_invD(7) [OF d] i] mk_sizes(4) by (auto simp: unat_eq_0)

section \<open>Steps\<close>

lemma fs_bounds: "NDIRECT < MAXFILE" "NDIRECT \<noteq> MAXFILE" "k < MAXFILE * BSIZE \<Longrightarrow> k div BSIZE < MAXFILE" "k mod BSIZE < BSIZE"
  by (simp_all add: fs_sizes div_less_iff_less_mult)

lemma unat_fb: "disk_inv img fb dins mp fc \<Longrightarrow> unat (of_nat fb :: u32) = fb"
  using disk_invD(4) [of img fb dins mp fc] by (intro of_nat_inverse) auto

text \<open>A new block in slot \<open>j\<close> is zero, and the file does not reach it yet.\<close>

lemma disk_inv_alloc:
  assumes d: "disk_inv img fb dins mp fc" and i: "i < length fc" and fb: "fb < 2000" and j: "length (fc ! i) \<le> j * BSIZE" "j \<le> MAXFILE"
    and I: "length img' = 2000" "\<And>k. k < 2000 \<Longrightarrow> length (img' ! k) = BSIZE" "\<And>k. fb \<le> k \<Longrightarrow> k < 2000 \<Longrightarrow> img' ! k = replicate BSIZE 0"
    and B: "\<And>i' j'. i' < length fc \<Longrightarrow> j' < MAXFILE \<Longrightarrow> mp i' j' \<Longrightarrow> img' ! unat (slot img (dins i') j') = img ! unat (slot img (dins i') j')"
    and A: "\<And>i'. i' < length fc \<Longrightarrow> length (di_addrs (dins' i')) = Suc NDIRECT"
    and S: "\<And>i' j'. i' < length fc \<Longrightarrow> j' \<le> MAXFILE \<Longrightarrow>
      slot img' (dins' i') j' = (if i' = i \<and> j' = j then of_nat fb else slot img (dins i') j')"
  shows "disk_inv img' (Suc fb) dins' (\<lambda>i' j'. (i' = i \<and> j' = j) \<or> mp i' j') fc"
  unfolding disk_inv_def
proof (intro conjI ballI allI impI)
  note u = unat_fb [OF d]
  show "length img' = FSSIZE" "nmeta \<le> Suc fb" "Suc fb \<le> FSSIZE" using I(1) fb disk_invD(3) [OF d] by (simp_all add: mk_sizes)
  show "length b = BSIZE" if "b \<in> set img'" for b using that I(1,2) by (auto simp: in_set_conv_nth)
  show "img' ! k = replicate BSIZE 0" if "Suc fb \<le> k \<and> k < FSSIZE" for k using that I(3) by (simp add: mk_sizes)
  show "slots_ok (\<lambda>i j. unat (slot img' (dins' i) j)) (\<lambda>i' j'. (i' = i \<and> j' = j) \<or> mp i' j') (Suc fb) (length fc)"
    by (rule slots_ok_alloc [OF disk_invD(7,3) [OF d]]) (simp add: S u)
  show "bytes_ok img' (\<lambda>i j. unat (slot img' (dins' i) j)) (\<lambda>i' j'. (i' = i \<and> j' = j) \<or> mp i' j') fc"
    unfolding bytes_ok_def
  proof (intro allI impI)
    fix a k assume a: "a < length fc" and k: "k < MAXFILE * BSIZE" and m: "(a = i \<and> k div BSIZE = j) \<or> mp a (k div BSIZE)"
    have kd: "k div BSIZE < MAXFILE" "k mod BSIZE < BSIZE" using k fs_bounds by auto
    note s = S [OF a less_imp_le [OF kd(1)]]
    show "img' ! unat (slot img' (dins' a) (k div BSIZE)) ! (k mod BSIZE) = (if k < length (fc ! a) then fc ! a ! k else 0)"
    proof (cases "a = i \<and> k div BSIZE = j")
      case True
      have "\<not> k < length (fc ! a)" using True j(1) div_times_less_eq_dividend [of k BSIZE] by (auto simp: not_less)
      then show ?thesis using True s u I(3) [of fb] fb kd(2) by simp
    next
      case False
      then have ma: "mp a (k div BSIZE)" using m by blast
      then show ?thesis using disk_invD(8) [OF d] a k unfolding s if_not_P [OF False] B [OF a kd(1) ma] bytes_ok_def by blast
    qed
  qed
qed (use A in auto)

lemma disk_inv_addr:
  assumes d: "disk_inv img fb dins mp fc" and i: "i < length fc" and fb: "fb < 2000" and q: "q \<le> NDIRECT" "j = (if q < NDIRECT then q else MAXFILE)"
    and j: "length (fc ! i) \<le> j * BSIZE" "\<not> mp i j"
  shows "disk_inv img (Suc fb) (dins(i := (dins i)\<lparr>di_addrs := (di_addrs (dins i))[q := of_nat fb]\<rparr>)) (\<lambda>i' j'. (i' = i \<and> j' = j) \<or> mp i' j') fc"
proof (rule disk_inv_alloc [OF d i fb j(1)])
  let ?din = "(dins i)\<lparr>di_addrs := (di_addrs (dins i))[q := of_nat fb]\<rparr>"
  note D = disk_invD [OF d] note u = unat_fb [OF d]
  have len: "length (di_addrs (dins i)) = Suc NDIRECT" using D(6) [OF i] .
  have jm: "j \<le> MAXFILE" using q fs_bounds(1) by simp
  then show "j \<le> MAXFILE" .
  have zero: "slot img (dins i) j = 0" using disk_inv_slot(3) [OF d i jm] j(2) by simp
  have new: "get32 (img ! fb) (4 * (j' - NDIRECT)) = 0" if "j' < MAXFILE" for j'
    using D(5) [of fb] fb that by (simp add: get32_zero fs_sizes)
  have fb0: "(of_nat fb :: u32) \<noteq> 0" using u D(3) by (auto simp: mk_sizes simp flip: unat_eq_0)
  show "slot img ((dins(i := ?din)) i') j' = (if i' = i \<and> j' = j then of_nat fb else slot img (dins i') j')"
    if "i' < length fc" "j' \<le> MAXFILE" for i' j'
  proof (cases "q < NDIRECT")
    case True
    then show ?thesis using len q that by (auto simp: slot_def nth_list_update Let_def fs_sizes)
  next
    case False
    then have q: "q = NDIRECT" "j = MAXFILE" using q by auto
    then have "di_addrs (dins i) ! NDIRECT = 0" using zero by (simp add: slot_indirect)
    then show ?thesis using len q that new [of j'] u fs_bounds(1) by (auto simp: slot_def nth_list_update Let_def fb0)
  qed
qed (use disk_invD [OF d] in auto)

lemma disk_inv_entry:
  assumes d: "disk_inv img fb dins mp fc" and i: "i < length fc" and fb: "fb < 2000" and j: "NDIRECT \<le> j" "j < MAXFILE"
    "length (fc ! i) \<le> j * BSIZE" "\<not> mp i j" and m: "mp i MAXFILE" and ib: "ib = unat (di_addrs (dins i) ! NDIRECT)"
  shows "disk_inv (img[ib := put_at (4 * (j - NDIRECT)) (bytes32 (of_nat fb)) (img ! ib)]) (Suc fb) dins (\<lambda>i' j'. (i' = i \<and> j' = j) \<or> mp i' j') fc"
    (is "disk_inv ?img _ _ _ _")
proof (rule disk_inv_alloc [OF d i fb j(3)])
  note D = disk_invD [OF d] note u = unat_fb [OF d]
  note s = disk_inv_slot [OF d i, of MAXFILE]
  have ibr: "nmeta \<le> ib" "ib < fb" "di_addrs (dins i) ! NDIRECT \<noteq> 0" using s(1-3) m by (auto simp: slot_indirect ib)
  have lib: "length (img ! ib) = BSIZE" using D(2) ibr(2) D(4) by simp
  have at: "4 * (j - NDIRECT) + 4 \<le> BSIZE" if "j < MAXFILE" for j using that by (simp add: fs_sizes)
  show "j \<le> MAXFILE" "length ?img = 2000" using j D(1) by simp_all
  show "length (?img ! k) = BSIZE" if "k < 2000" for k
    using that D(1,2) lib at [OF j(2)] by (cases "k = ib") (simp_all add: length_put_at)
  show "?img ! k = replicate BSIZE 0" if "fb \<le> k" "k < 2000" for k using that D(5) ibr(2) by simp
  show "?img ! unat (slot img (dins i') j') = img ! unat (slot img (dins i') j')" if h: "i' < length fc" "j' < MAXFILE" "mp i' j'" for i' j'
  proof -
    have "slot img (dins i') j' \<noteq> slot img (dins i) MAXFILE"
      using disk_inv_slot(4) [OF d h(1) _ i, of j' MAXFILE] h by auto
    then have "unat (slot img (dins i') j') \<noteq> ib" by (simp add: ib slot_indirect word_unat_eq_iff)
    then show ?thesis by simp
  qed
  show "slot ?img (dins i') j' = (if i' = i \<and> j' = j then of_nat fb else slot img (dins i') j')" if h: "i' < length fc" "j' \<le> MAXFILE" for i' j'
  proof (cases "i' = i")
    case True
    have new: "?img ! ib = put_at (4 * (j - NDIRECT)) (bytes32 (of_nat fb)) (img ! ib)" using ibr(2) D(1,4) by simp
    show ?thesis
    proof (cases "NDIRECT \<le> j' \<and> j' < MAXFILE")
      case mid: True
      then have "slot im (dins i) j' = get32 (im ! ib) (4 * (j' - NDIRECT))" for im using ibr(3) by (simp add: slot_def ib)
      moreover have "get32 (?img ! ib) (4 * (j' - NDIRECT)) = (if j - NDIRECT = j' - NDIRECT then of_nat fb else get32 (img ! ib) (4 * (j' - NDIRECT)))"
        unfolding new by (rule get32_put_at) (use lib at [OF j(2)] at [of j'] mid in simp_all)
      moreover have "j - NDIRECT = j' - NDIRECT \<longleftrightarrow> j' = j" using mid j(1) by auto
      ultimately show ?thesis using True by simp
    next
      case False
      then have "slot ?img (dins i) j' = slot img (dins i) j'" "j' \<noteq> j" using h(2) j by (auto simp: slot_def)
      then show ?thesis using True by simp
    qed
  next
    case False
    have "unat (di_addrs (dins i') ! NDIRECT) \<noteq> ib"
    proof
      assume "unat (di_addrs (dins i') ! NDIRECT) = ib"
      then have "slot img (dins i) MAXFILE = slot img (dins i') MAXFILE" by (simp add: ib slot_indirect word_unat_eq_iff)
      then show False using s(4) [OF _ h(1), of MAXFILE] m False by simp
    qed
    then have "slot ?img (dins i') j' = slot img (dins i') j'" by (intro slot_cong) simp
    then show ?thesis using False by simp
  qed
qed (use disk_invD(6) [OF d] in auto)

text \<open>Appending to the block where the content ends.\<close>

lemma append_in_block:
  assumes j: "j = length c div BSIZE" and b: "length c + length b \<le> (j + 1) * BSIZE" and blk: "length blk = BSIZE"
    and k: "blk ! (k mod BSIZE) = (if k < length c then c ! k else 0)" "k div BSIZE = j"
  shows "put_at (length c - j * BSIZE) b blk ! (k mod BSIZE) = (if k < length (c @ b) then (c @ b) ! k else 0)"
proof -
  let ?o = "length c - j * BSIZE"
  have jo: "j * BSIZE \<le> length c" unfolding j by (rule div_times_less_eq_dividend)
  have km: "k = j * BSIZE + k mod BSIZE" using k(2) div_mult_mod_eq [of k BSIZE] by simp
  have o: "?o \<le> k mod BSIZE \<longleftrightarrow> length c \<le> k" "k mod BSIZE < ?o + length b \<longleftrightarrow> k < length c + length b" "k mod BSIZE - ?o = k - length c"
    using jo km by linarith+
  have "put_at ?o b blk ! (k mod BSIZE) = (if ?o \<le> k mod BSIZE \<and> k mod BSIZE < ?o + length b then b ! (k mod BSIZE - ?o) else blk ! (k mod BSIZE))"
    by (rule nth_put_at) (use jo b blk fs_bounds(4) in simp_all)
  then show ?thesis unfolding o k(1) by (auto simp: nth_append)
qed

lemma append_elsewhere:
  assumes j: "j = length c div BSIZE" and b: "length c + length b \<le> (j + 1) * BSIZE" and k: "k div BSIZE \<noteq> j"
  shows "(if k < length (c @ b) then (c @ b) ! k else 0) = (if k < length c then c ! k else 0)"
proof -
  have "k < length c" if "k < length c + length b"
  proof -
    have "k < (j + 1) * BSIZE" using that b by simp
    then have "k div BSIZE < j + 1" by (simp add: div_less_iff_less_mult BSIZE_def)
    then have "k div BSIZE < j" using k by simp
    then have "k < j * BSIZE" by (simp add: div_less_iff_less_mult BSIZE_def)
    also have "\<dots> \<le> length c" unfolding j by (rule div_times_less_eq_dividend)
    finally show ?thesis .
  qed
  then show ?thesis by (auto simp: nth_append)
qed

lemma disk_inv_write:
  assumes d: "disk_inv img fb dins mp fc" and i: "i < length fc" and j: "j = length (fc ! i) div BSIZE" "j < MAXFILE" "mp i j"
    and b: "length (fc ! i) + length b \<le> (j + 1) * BSIZE" and x: "x = unat (slot img (dins i) j)"
  shows "disk_inv (img[x := put_at (length (fc ! i) - j * BSIZE) b (img ! x)]) fb dins mp (fc[i := fc ! i @ b])" (is "disk_inv ?img _ _ _ ?fc")
proof -
  let ?o = "length (fc ! i) - j * BSIZE" let ?new = "put_at ?o b (img ! x)"
  note D = disk_invD [OF d]
  have xr: "nmeta \<le> x" "x < fb" using disk_inv_slot(1,2) [OF d i less_imp_le [OF j(2)] j(3)] by (auto simp: x)
  have lx: "length (img ! x) = BSIZE" "x < length img" using D(1,2,4) xr(2) by simp_all
  have "j * BSIZE \<le> length (fc ! i)" unfolding j(1) by (rule div_times_less_eq_dividend)
  then have new: "length ?new = BSIZE" using b lx(1) by (simp add: length_put_at)
  have other: "unat (slot img (dins i') j') = x \<longleftrightarrow> i' = i \<and> j' = j" if "i' < length fc" "j' \<le> MAXFILE" for i' j'
    using disk_inv_slot(4) [OF d i less_imp_le [OF j(2)] that j(3)] unfolding x word_unat_eq_iff [symmetric] by auto
  have S: "slot ?img (dins i') j' = slot img (dins i') j'" if "i' < length fc" for i' j'
  proof (rule slot_cong)
    have "unat (di_addrs (dins i') ! NDIRECT) \<noteq> x" using other [OF that, of MAXFILE] j(2) by (simp add: slot_indirect)
    then show "?img ! unat (di_addrs (dins i') ! NDIRECT) = img ! unat (di_addrs (dins i') ! NDIRECT)" by simp
  qed
  have "bytes_ok ?img (\<lambda>i j. unat (slot ?img (dins i) j)) mp ?fc" unfolding bytes_ok_def
  proof (intro allI impI)
    fix a k assume a: "a < length ?fc" and k: "k < MAXFILE * BSIZE" "mp a (k div BSIZE)"
    have a': "a < length fc" using a by simp
    have old: "img ! unat (slot img (dins a) (k div BSIZE)) ! (k mod BSIZE) = (if k < length (fc ! a) then fc ! a ! k else 0)"
      using D(8) a' k unfolding bytes_ok_def by blast
    note kx = other [OF a' less_imp_le [OF fs_bounds(3) [OF k(1)]]]
    show "?img ! unat (slot ?img (dins a) (k div BSIZE)) ! (k mod BSIZE) = (if k < length (?fc ! a) then ?fc ! a ! k else 0)"
    proof (cases "a = i \<and> k div BSIZE = j")
      case True
      then have ai: "a = i" "k div BSIZE = j" "unat (slot img (dins a) (k div BSIZE)) = x" using kx by blast+
      have "img ! x ! (k mod BSIZE) = (if k < length (fc ! i) then fc ! i ! k else 0)" using old unfolding ai(3) unfolding ai(1) .
      from append_in_block [OF j(1) b lx(1) this ai(2)]
      show ?thesis unfolding S [OF a'] ai(3) unfolding ai(1) nth_list_update_eq [OF i] nth_list_update_eq [OF lx(2)] .
    next
      case False
      then have "x \<noteq> unat (slot img (dins a) (k div BSIZE))" using kx by blast
      then have "?img ! unat (slot img (dins a) (k div BSIZE)) = img ! unat (slot img (dins a) (k div BSIZE))" by (rule nth_list_update_neq)
      moreover have "(if k < length (?fc ! a) then ?fc ! a ! k else 0) = (if k < length (fc ! a) then fc ! a ! k else 0)"
        using append_elsewhere [OF j(1) b, of k] False i by (cases "a = i") (simp_all only: nth_list_update_eq nth_list_update_neq simp_thms)
      ultimately show ?thesis unfolding S [OF a'] by (simp only: old)
    qed
  qed
  moreover have "slots_ok (\<lambda>i j. unat (slot ?img (dins i) j)) mp fb (length fc)"
    by (rule slots_ok_cong [OF D(7)]) (simp_all add: S)
  moreover have "\<forall>c \<in> set ?img. length c = BSIZE"
    using d new set_update_subset_insert [of img x ?new] unfolding disk_inv_def by blast
  moreover have "\<forall>k. fb \<le> k \<and> k < FSSIZE \<longrightarrow> ?img ! k = replicate BSIZE 0" using D(5) xr(2) by (simp add: mk_sizes)
  moreover have "length img = FSSIZE" "nmeta \<le> fb" "fb \<le> FSSIZE" "\<forall>i < length fc. length (di_addrs (dins i)) = Suc NDIRECT"
    using d unfolding disk_inv_def by blast+
  ultimately show ?thesis unfolding disk_inv_def length_list_update by blast
qed

end
