(* ===== verification/MkfsRun.thy ===== *)
theory MkfsRun
  imports MkfsInv
begin

text \<open>
  What the functions of \<open>mkfs\<close> do to the files of the image, on a host that writes every block. \<open>mk_wp\<close> is
  total correctness: the function succeeds, and its result satisfies the postcondition.
\<close>

section \<open>Running\<close>

definition mk_wp :: "'a mk \<Rightarrow> mkfs \<Rightarrow> ('a \<Rightarrow> mkfs \<Rightarrow> bool) \<Rightarrow> bool" where
  "mk_wp c m Q \<longleftrightarrow> (\<exists>x m'. c m = Inr (x, m') \<and> Q x m')"

lemma mk_wp_bind: "mk_wp (mk_bind c f) m Q = mk_wp c m (\<lambda>x m'. mk_wp (f x) m' Q)"
  by (auto simp: mk_wp_def mk_bind_def split: sum.splits)

lemma mk_wp_simps: "mk_wp (mk_ret x) m Q = Q x m" "mk_wp (mk_gets g) m Q' = Q' (g m) m" "mk_wp (mk_modify u) m R = R () (u m)"
  "mk_wp (mk_assert msg b) m R = (b \<and> R () m)"
  by (auto simp: mk_wp_def mk_assert_def mk_run)

lemma mk_wp_mono: "mk_wp c m Q \<Longrightarrow> (\<And>x m'. Q x m' \<Longrightarrow> R x m') \<Longrightarrow> mk_wp c m R"
  by (auto simp: mk_wp_def)

lemma mk_wp_step: "mk_wp c m R \<Longrightarrow> (\<And>x m'. R x m' \<Longrightarrow> mk_wp (f x) m' Q) \<Longrightarrow> mk_wp (mk_bind c f) m Q"
  unfolding mk_wp_bind by (rule mk_wp_mono)

definition writes_all :: "host \<Rightarrow> bool" where
  "writes_all h \<longleftrightarrow> (\<forall>k buf. h_write h k buf)"

lemma wsect_wp: "writes_all h \<Longrightarrow> unat x < 2000 \<Longrightarrow> length (fsimg m) = 2000 \<Longrightarrow>
  mk_wp (wsect h x buf) m Q = Q () (m\<lparr>fsimg := (fsimg m)[unat x := buf]\<rparr>)"
  by (simp add: wsect_def writes_all_def sect_at_small put_block_def mk_wp_simps)

lemma rsect_wp: "unat x < 2000 \<Longrightarrow> length (fsimg m) = 2000 \<Longrightarrow> mk_wp (rsect x) m Q = Q (fsimg m ! unat x) m"
  by (simp add: rsect_def mk_wp_bind mk_wp_simps sect_at_small)

section \<open>The blocks of a file\<close>

definition mk_rep :: "mkfs \<Rightarrow> (nat \<Rightarrow> dinode) \<Rightarrow> (nat \<Rightarrow> nat \<Rightarrow> bool) \<Rightarrow> u8 list list \<Rightarrow> bool" where
  "mk_rep m dins mp fc \<longleftrightarrow> disk_inv (fsimg m) (unat (freeblock m)) dins mp fc"

text \<open>What appending leaves alone: the blocks before the data, the superblock and the inode counter.\<close>

definition keeps_meta :: "mkfs \<Rightarrow> mkfs \<Rightarrow> bool" where
  "keeps_meta m m' \<longleftrightarrow> m_sb m' = m_sb m \<and> freeinode m' = freeinode m \<and> (\<forall>k < nmeta. fsimg m' ! k = fsimg m ! k)"

lemma keeps_meta_refl [simp]: "keeps_meta m m"
  by (simp add: keeps_meta_def)

lemma keeps_meta_trans: "keeps_meta m m' \<Longrightarrow> keeps_meta m' m'' \<Longrightarrow> keeps_meta m m''"
  by (simp add: keeps_meta_def)

definition same_file :: "dinode \<Rightarrow> dinode \<Rightarrow> bool" where
  "same_file din din' \<longleftrightarrow> din\<lparr>di_addrs := di_addrs din'\<rparr> = din'"

lemma same_file_refl [simp]: "same_file din din"
  by (simp add: same_file_def)

lemma same_file_trans: "same_file a b \<Longrightarrow> same_file b c \<Longrightarrow> same_file a c"
  unfolding same_file_def by (metis dinode.surjective dinode.update_convs(6))

lemma mk_rep_length: "mk_rep m dins mp fc \<Longrightarrow> length (fsimg m) = 2000"
  unfolding mk_rep_def by (rule disk_invD(1))

lemma alloc_block_wp: "mk_wp alloc_block m Q = Q (freeblock m) (m\<lparr>freeblock := freeblock m + 1\<rparr>)"
  by (simp add: alloc_block_def mk_wp_bind mk_wp_simps)

lemma unat_Suc_fb: "unat (b :: u32) < 2000 \<Longrightarrow> unat (b + 1) = Suc (unat b)"
  using unat_add_nat [of b 1] by simp

lemma iappend_slot_wp:
  assumes r: "mk_rep m dins mp fc" and i: "i < length fc" and q: "q \<le> NDIRECT" "j = (if q < NDIRECT then q else MAXFILE)"
    and new: "\<not> mp i j \<Longrightarrow> unat (freeblock m) < 2000 \<and> length (fc ! i) \<le> j * BSIZE"
  shows "mk_wp (iappend_slot (dins i) q) m (\<lambda>(x, din) m'. mk_rep m' (dins(i := din)) (\<lambda>i' j'. (i' = i \<and> j' = j) \<or> mp i' j') fc
    \<and> x = slot (fsimg m') din j \<and> keeps_meta m m' \<and> same_file (dins i) din
    \<and> unat (freeblock m') = unat (freeblock m) + (if mp i j then 0 else 1))"
proof -
  note d = r [unfolded mk_rep_def]
  have jm: "j \<le> MAXFILE" using q fs_bounds(1) by simp
  have s: "slot im din j = di_addrs din ! q" for im din using q fs_bounds by (auto simp: slot_def)
  have a: "(di_addrs (dins i) ! q = 0) = (\<not> mp i j)" using disk_inv_slot(3) [OF d i jm] by (simp add: s)
  show ?thesis
  proof (cases "mp i j")
    case True
    then have "(\<lambda>i' j'. (i' = i \<and> j' = j) \<or> mp i' j') = mp" by (auto simp: fun_eq_iff)
    then show ?thesis using True a r by (simp add: iappend_slot_def mk_wp_bind mk_wp_simps s)
  next
    case False
    note n = new [OF False]
    have len: "q < length (di_addrs (dins i))" using disk_invD(6) [OF d i] q by simp
    have "disk_inv (fsimg m) (Suc (unat (freeblock m))) (dins(i := (dins i)\<lparr>di_addrs := (di_addrs (dins i))[q := of_nat (unat (freeblock m))]\<rparr>))
        (\<lambda>i' j'. (i' = i \<and> j' = j) \<or> mp i' j') fc"
      by (rule disk_inv_addr [OF d i _ q]) (use n False in auto)
    then show ?thesis using False a n len unat_Suc_fb [of "freeblock m"]
      by (simp add: iappend_slot_def mk_wp_bind mk_wp_simps alloc_block_wp s mk_rep_def keeps_meta_def same_file_def)
  qed
qed

text \<open>The slots that a write to block \<open>fbn\<close> needs.\<close>

definition with_block :: "nat \<Rightarrow> nat \<Rightarrow> (nat \<Rightarrow> nat \<Rightarrow> bool) \<Rightarrow> nat \<Rightarrow> nat \<Rightarrow> bool" where
  "with_block i fbn mp i' j' \<longleftrightarrow> i' = i \<and> (j' = fbn \<or> NDIRECT \<le> fbn \<and> j' = MAXFILE) \<or> mp i' j'"

lemma iappend_entry_wp:
  assumes r: "mk_rep m dins mp fc" and i: "i < length fc" and w: "writes_all h" and fbn: "NDIRECT \<le> fbn" "fbn < MAXFILE" and ib: "mp i MAXFILE"
    and new: "\<not> mp i fbn \<Longrightarrow> unat (freeblock m) < 2000 \<and> length (fc ! i) \<le> fbn * BSIZE"
  shows "mk_wp (mk_bind (rsect (di_addrs (dins i) ! NDIRECT)) (\<lambda>indirect.
        let at = 4 * (fbn - NDIRECT) in
        if get32 indirect at = 0
        then
          mk_bind alloc_block (\<lambda>b.
          mk_bind (wsect h (di_addrs (dins i) ! NDIRECT) (put_at at (bytes32 (xint b)) indirect)) (\<lambda>_.
          mk_ret (xint (xint b), dins i)))
        else mk_ret (xint (get32 indirect at), dins i))) m
    (\<lambda>(x, din) m'. din = dins i \<and> mk_rep m' dins (\<lambda>i' j'. (i' = i \<and> j' = fbn) \<or> mp i' j') fc
      \<and> x = slot (fsimg m') (dins i) fbn \<and> keeps_meta m m' \<and> unat (freeblock m') = unat (freeblock m) + (if mp i fbn then 0 else 1))"
proof -
  let ?a = "di_addrs (dins i) ! NDIRECT" let ?at = "4 * (fbn - NDIRECT)"
  note d = r [unfolded mk_rep_def]
  have ib': "nmeta \<le> unat ?a" "unat ?a < unat (freeblock m)" "?a \<noteq> 0"
    using disk_inv_slot(1-3) [OF d i, of MAXFILE] ib by (simp_all add: slot_indirect)
  have a: "unat ?a < 2000" "length (fsimg m) = 2000" "length (fsimg m ! unat ?a) = BSIZE" using ib'(2) disk_invD(1,2,4) [OF d] by simp_all
  have s: "slot im (dins i) fbn = get32 (im ! unat ?a) ?at" for im using fbn ib'(3) by (simp add: slot_def)
  have z: "(get32 (fsimg m ! unat ?a) ?at = 0) = (\<not> mp i fbn)" using disk_inv_slot(3) [OF d i, of fbn] fbn by (simp add: s)
  show ?thesis
  proof (cases "mp i fbn")
    case True
    then have "(\<lambda>i' j'. (i' = i \<and> j' = fbn) \<or> mp i' j') = mp" by (auto simp: fun_eq_iff)
    then show ?thesis using True a z r by (simp add: mk_wp_bind rsect_wp Let_def mk_wp_simps s)
  next
    case False
    let ?img = "(fsimg m)[unat ?a := put_at ?at (bytes32 (freeblock m)) (fsimg m ! unat ?a)]"
    note n = new [OF False]
    have "disk_inv ?img (Suc (unat (freeblock m))) dins (\<lambda>i' j'. (i' = i \<and> j' = fbn) \<or> mp i' j') fc"
      using disk_inv_entry [OF d i _ fbn _ False ib refl] n by simp
    moreover have "get32 (?img ! unat ?a) ?at = freeblock m"
      using get32_put_at [of "fbn - NDIRECT" "fsimg m ! unat ?a" "fbn - NDIRECT" "freeblock m"] a fbn by (simp add: fs_sizes)
    moreover have "\<forall>k < nmeta. ?img ! k = fsimg m ! k" using ib'(1) by auto
    ultimately show ?thesis using False a z n w unat_Suc_fb [of "freeblock m"]
      by (simp add: mk_wp_bind rsect_wp wsect_wp Let_def mk_wp_simps alloc_block_wp s mk_rep_def keeps_meta_def)
  qed
qed

lemma iappend_block_wp:
  assumes r: "mk_rep m dins mp fc" and i: "i < length fc" and w: "writes_all h" and fbn: "fbn < MAXFILE" "length (fc ! i) \<le> MAXFILE * BSIZE"
    and new: "\<not> mp i fbn \<Longrightarrow> length (fc ! i) \<le> fbn * BSIZE"
    and room: "unat (freeblock m) + (if mp i fbn then 0 else 1) + (if NDIRECT \<le> fbn \<and> \<not> mp i MAXFILE then 1 else 0) \<le> 2000"
  shows "mk_wp (iappend_block h (dins i) fbn) m (\<lambda>(x, din) m'. mk_rep m' (dins(i := din)) (with_block i fbn mp) fc
    \<and> x = slot (fsimg m') din fbn \<and> keeps_meta m m' \<and> same_file (dins i) din
    \<and> unat (freeblock m') = unat (freeblock m) + (if mp i fbn then 0 else 1) + (if NDIRECT \<le> fbn \<and> \<not> mp i MAXFILE then 1 else 0))"
proof (cases "fbn < NDIRECT")
  case True
  then have "with_block i fbn mp = (\<lambda>i' j'. (i' = i \<and> j' = fbn) \<or> mp i' j')" by (auto simp: with_block_def fun_eq_iff)
  then show ?thesis using iappend_slot_wp [OF r i, of fbn fbn] True new room by (simp add: iappend_block_def split: if_splits)
next
  case False
  let ?at = "4 * (fbn - NDIRECT)"
  let ?mp = "\<lambda>i' j'. (i' = i \<and> j' = MAXFILE) \<or> mp i' j'"
  have wb: "with_block i fbn mp = (\<lambda>i' j'. (i' = i \<and> j' = fbn) \<or> ?mp i' j')" using False by (auto simp: with_block_def fun_eq_iff)
  have slot1: "mk_wp (iappend_slot (dins i) NDIRECT) m (\<lambda>(x, din) m'. mk_rep m' (dins(i := din)) ?mp fc \<and> x = slot (fsimg m') din MAXFILE
      \<and> keeps_meta m m' \<and> same_file (dins i) din \<and> unat (freeblock m') = unat (freeblock m) + (if mp i MAXFILE then 0 else 1))"
    by (rule iappend_slot_wp [OF r i]) (use room fbn(2) False in auto)
  show ?thesis unfolding iappend_block_def if_not_P [OF False]
  proof (rule mk_wp_step [OF slot1], clarify)
    fix ib din and m1 :: mkfs
    assume r1: "mk_rep m1 (dins(i := din)) ?mp fc" and k: "keeps_meta m m1" and f: "same_file (dins i) din"
      and fb: "unat (freeblock m1) = unat (freeblock m) + (if mp i MAXFILE then 0 else 1)"
    have mp: "?mp i fbn = mp i fbn" using fbn(1) by simp
    note e = iappend_entry_wp [OF r1 i w, of fbn, unfolded fun_upd_same mp]
    show "mk_wp (mk_bind (rsect (slot (fsimg m1) din MAXFILE)) (\<lambda>indirect.
        let at = 4 * (fbn - NDIRECT) in
        if get32 indirect at = 0
        then
          mk_bind alloc_block (\<lambda>b.
          mk_bind (wsect h (slot (fsimg m1) din MAXFILE) (put_at at (bytes32 (xint b)) indirect)) (\<lambda>_.
          mk_ret (xint (xint b), din)))
        else mk_ret (xint (get32 indirect at), din))) m1 (\<lambda>(x, din) m'. mk_rep m' (dins(i := din)) (with_block i fbn mp) fc
      \<and> x = slot (fsimg m') din fbn \<and> keeps_meta m m' \<and> same_file (dins i) din
      \<and> unat (freeblock m') = unat (freeblock m) + (if mp i fbn then 0 else 1) + (if NDIRECT \<le> fbn \<and> \<not> mp i MAXFILE then 1 else 0))"
      unfolding slot_indirect
      by (rule mk_wp_mono [OF e]) (use False fbn new room fb f keeps_meta_trans [OF k] in \<open>auto simp: wb split: if_splits\<close>)
  qed
qed

section \<open>Appending\<close>

text \<open>The slots a file of a given length has, and how many blocks that is.\<close>

definition file_slot :: "u8 list list \<Rightarrow> nat \<Rightarrow> nat \<Rightarrow> bool" where
  "file_slot fc i j \<longleftrightarrow> (if j < MAXFILE then j * BSIZE < length (fc ! i) else j = MAXFILE \<and> NDIRECT * BSIZE < length (fc ! i))"

definition need :: "nat \<Rightarrow> nat" where
  "need sz = (sz + BSIZE - 1) div BSIZE + (if NDIRECT * BSIZE < sz then 1 else 0)"

lemma block_bounds:
  assumes "0 < b" "sz + b \<le> (sz div BSIZE + 1) * BSIZE"
  shows "j * BSIZE < sz + b \<longleftrightarrow> j = sz div BSIZE \<or> j * BSIZE < sz"
    "NDIRECT * BSIZE < sz + b \<longleftrightarrow> NDIRECT \<le> sz div BSIZE \<or> NDIRECT * BSIZE < sz"
  using assms by (auto simp: fs_sizes)

lemma file_slot_append:
  assumes i: "i < length fc" and fbn: "fbn = length (fc ! i) div BSIZE" "fbn < MAXFILE" and b: "0 < length b" "length (fc ! i) + length b \<le> (fbn + 1) * BSIZE"
  shows "with_block i fbn (file_slot fc) = file_slot (fc[i := fc ! i @ b])"
proof (intro ext)
  fix i' j'
  note bb = block_bounds [OF b(1) b(2) [unfolded fbn(1)]]
  show "with_block i fbn (file_slot fc) i' j' = file_slot (fc[i := fc ! i @ b]) i' j'"
    using i fbn bb by (cases "i' = i"; cases "j' < MAXFILE") (auto simp: with_block_def file_slot_def)
qed

lemma need_append:
  assumes "0 < b" "sz + b \<le> (sz div BSIZE + 1) * BSIZE"
  shows "need (sz + b) = need sz + (if sz div BSIZE * BSIZE < sz then 0 else 1) + (if NDIRECT \<le> sz div BSIZE \<and> \<not> NDIRECT * BSIZE < sz then 1 else 0)"
proof -
  define q r where "q = sz div 1024" and "r = sz mod 1024"
  have e: "sz = 1024 * q + r" "sz div 1024 = q" by (simp_all add: q_def r_def)
  have one: "x div 1024 = 1" if "1024 \<le> x" "x < 2048" for x :: nat using that by (intro div_nat_eqI) simp_all
  have rb: "r + b \<le> 1024" using assms(2) e by (simp add: BSIZE_def)
  have split: "(1024 * q + x) div 1024 = q + x div 1024" for x by simp
  have "sz + b + 1024 - 1 = 1024 * q + (r + b + 1023)" "sz + 1024 - 1 = 1024 * q + (r + 1023)" using e(1) by simp_all
  then have "(sz + b + 1024 - 1) div 1024 = q + (r + b + 1023) div 1024" "(sz + 1024 - 1) div 1024 = q + (r + 1023) div 1024"
    by (simp_all only: split)
  moreover have "(r + b + 1023) div 1024 = 1" using rb assms(1) by (intro one) simp_all
  moreover have "(r + 1023) div 1024 = (if 0 < r then 1 else 0)" using rb by (auto intro!: one)
  moreover have "sz div 1024 * 1024 < sz \<longleftrightarrow> 0 < r" unfolding e(2) using e(1) by simp
  ultimately have c: "(sz + b + 1024 - 1) div 1024 = (sz + 1024 - 1) div 1024 + (if sz div 1024 * 1024 < sz then 0 else 1)"
    by simp
  then show ?thesis unfolding need_def using block_bounds(2) [OF assms] by (auto simp only: BSIZE_def split: if_splits)
qed

lemma need_mono: "a \<le> b \<Longrightarrow> need a \<le> need b"
  unfolding need_def by (intro add_mono div_le_mono) auto

lemma iappend_step_wp:
  assumes r: "mk_rep m dins (file_slot fc) fc" and i: "i < length fc" and w: "writes_all h"
    and fbn: "fbn = length (fc ! i) div BSIZE" and b: "0 < length b" "length (fc ! i) + length b \<le> (fbn + 1) * BSIZE" "length (fc ! i) + length b \<le> MAXFILE * BSIZE"
    and room: "unat (freeblock m) + need (length (fc ! i) + length b) \<le> 2000 + need (length (fc ! i))"
  shows "mk_wp (mk_bind (iappend_block h (dins i) fbn) (\<lambda>(x, din). mk_bind (rsect x) (\<lambda>buf.
      mk_bind (wsect h x (put_at (length (fc ! i) - fbn * BSIZE) b buf)) (\<lambda>_. mk_ret din)))) m
    (\<lambda>din m'. mk_rep m' (dins(i := din)) (file_slot (fc[i := fc ! i @ b])) (fc[i := fc ! i @ b]) \<and> keeps_meta m m' \<and> same_file (dins i) din
      \<and> unat (freeblock m') + need (length (fc ! i)) = unat (freeblock m) + need (length (fc ! i) + length b))"
proof -
  have lt: "length (fc ! i) < MAXFILE * BSIZE" using b(1,3) by linarith
  then have fm: "fbn < MAXFILE" unfolding fbn by (rule fs_bounds(3))
  note nb = need_append [OF b(1) b(2) [unfolded fbn], folded fbn]
  have mp: "file_slot fc i fbn \<longleftrightarrow> fbn * BSIZE < length (fc ! i)" "file_slot fc i MAXFILE \<longleftrightarrow> NDIRECT * BSIZE < length (fc ! i)" using fm by (simp_all add: file_slot_def)
  have blk: "mk_wp (iappend_block h (dins i) fbn) m (\<lambda>(x, din) m'. mk_rep m' (dins(i := din)) (with_block i fbn (file_slot fc)) fc
    \<and> x = slot (fsimg m') din fbn \<and> keeps_meta m m' \<and> same_file (dins i) din
    \<and> unat (freeblock m') = unat (freeblock m) + (if file_slot fc i fbn then 0 else 1) + (if NDIRECT \<le> fbn \<and> \<not> file_slot fc i MAXFILE then 1 else 0))"
    by (rule iappend_block_wp [OF r i w fm]) (use lt room nb in \<open>simp_all add: mp\<close>)
  show ?thesis
  proof (rule mk_wp_step [OF blk], clarify)
    fix din and m1 :: mkfs
    assume r1: "mk_rep m1 (dins(i := din)) (with_block i fbn (file_slot fc)) fc" and k: "keeps_meta m m1" and f: "same_file (dins i) din"
      and fb: "unat (freeblock m1) = unat (freeblock m) + (if file_slot fc i fbn then 0 else 1) + (if NDIRECT \<le> fbn \<and> \<not> file_slot fc i MAXFILE then 1 else 0)"
    let ?x = "slot (fsimg m1) din fbn"
    let ?m = "m1\<lparr>fsimg := (fsimg m1)[unat ?x := put_at (length (fc ! i) - fbn * BSIZE) b (fsimg m1 ! unat ?x)]\<rparr>"
    note d = r1 [unfolded mk_rep_def]
    have wb: "with_block i fbn (file_slot fc) i fbn" by (simp add: with_block_def)
    have x: "nmeta \<le> unat ?x" "unat ?x < unat (freeblock m1)" using disk_inv_slot(1,2) [OF d i less_imp_le [OF fm]] wb by simp_all
    have x2: "unat ?x < 2000" "length (fsimg m1) = 2000" using x(2) disk_invD(1,4) [OF d] by simp_all
    have "mk_rep ?m (dins(i := din)) (file_slot (fc[i := fc ! i @ b])) (fc[i := fc ! i @ b])"
      using disk_inv_write [OF d i fbn fm wb b(2) refl] file_slot_append [OF i fbn fm b(1,2)] by (simp add: mk_rep_def)
    moreover have "keeps_meta m1 ?m" using x(1) by (auto simp: keeps_meta_def)
    moreover have "unat (freeblock m1) + need (length (fc ! i)) = unat (freeblock m) + need (length (fc ! i) + length b)"
      using fb nb by (simp add: mp)
    ultimately show "mk_wp (mk_bind (rsect ?x) (\<lambda>buf. mk_bind (wsect h ?x (put_at (length (fc ! i) - fbn * BSIZE) b buf)) (\<lambda>_. mk_ret din))) m1
      (\<lambda>din m'. mk_rep m' (dins(i := din)) (file_slot (fc[i := fc ! i @ b])) (fc[i := fc ! i @ b]) \<and> keeps_meta m m' \<and> same_file (dins i) din
        \<and> unat (freeblock m') + need (length (fc ! i)) = unat (freeblock m) + need (length (fc ! i) + length b))"
      using f keeps_meta_trans [OF k] by (simp add: mk_wp_bind rsect_wp [OF x2] wsect_wp [OF w x2] mk_wp_simps)
  qed
qed

lemma unat_size: "sz \<le> MAXFILE * BSIZE \<Longrightarrow> unat (of_nat sz :: u32) = sz"
  by (rule of_nat_inverse) (simp_all add: fs_sizes)

definition appended :: "mkfs \<Rightarrow> (nat \<Rightarrow> dinode) \<Rightarrow> u8 list list \<Rightarrow> nat \<Rightarrow> u8 list \<Rightarrow> dinode \<Rightarrow> mkfs \<Rightarrow> bool" where
  "appended m dins fc i p din m' \<longleftrightarrow>
     mk_rep m' (dins(i := din)) (file_slot (fc[i := fc ! i @ p])) (fc[i := fc ! i @ p])
     \<and> keeps_meta m m' \<and> same_file (dins i) din
     \<and> unat (freeblock m') + need (length (fc ! i)) = unat (freeblock m) + need (length (fc ! i) + length p)"

lemma appended_trans:
  assumes a: "appended m dins fc i b din m'" "appended m' (dins(i := din)) (fc[i := fc ! i @ b]) i p din' m''" and i: "i < length fc"
  shows "appended m dins fc i (b @ p) din' m''"
proof -
  have "keeps_meta m m''" "same_file (dins i) din'"
    using a keeps_meta_trans same_file_trans unfolding appended_def by (blast, metis fun_upd_same)
  then show ?thesis using a i by (simp add: appended_def add.assoc)
qed

text \<open>One turn of the loop: the chunk \<open>b\<close> that fits in the current block, then the rest.\<close>

lemma iappend_loop_turn:
  fixes fc :: "u8 list list" and p :: "u8 list" and i :: nat
  defines "b \<equiv> min (length p) ((length (fc ! i) div BSIZE + 1) * BSIZE - length (fc ! i))"
  assumes w: "writes_all h" and r: "mk_rep m dins (file_slot fc) fc" and i: "i < length fc" and p: "p \<noteq> []"
    and sz: "length (fc ! i) + length p \<le> MAXFILE * BSIZE" and room: "unat (freeblock m) + need (length (fc ! i) + length p) \<le> 2000 + need (length (fc ! i))"
    and rest: "\<And>din m'. appended m dins fc i (take b p) din m' \<Longrightarrow> mk_wp (iappend_loop h (of_nat (length (fc ! i) + b)) din (drop b p)) m' Q"
  shows "mk_wp (iappend_loop h (of_nat (length (fc ! i))) (dins i) p) m Q" and "0 < b"
proof -
  let ?c = "fc ! i" let ?fbn = "length ?c div BSIZE" let ?b = "take b p"
  show b0: "0 < b" using p chunk_pos [of "length p" "length ?c"] by (simp add: b_def)
  have u: "unat (of_nat (length ?c) :: u32) = length ?c" by (rule unat_size) (use sz in simp)
  have b: "0 < length ?b" "length ?c + length ?b \<le> (?fbn + 1) * BSIZE" "length ?c + length ?b \<le> MAXFILE * BSIZE"
    using b0 sz by (auto simp: b_def)
  have fm: "?fbn < MAXFILE" by (rule fs_bounds(3)) (use b(1,3) in linarith)
  let ?step = "mk_bind (iappend_block h (dins i) ?fbn) (\<lambda>(x, din). mk_bind (rsect x) (\<lambda>buf.
    mk_bind (wsect h x (put_at (length ?c - ?fbn * BSIZE) ?b buf)) (\<lambda>_. mk_ret din)))"
  have e: "mk_wp (iappend_loop h (of_nat (length ?c)) (dins i) p) m Q
      = mk_wp ?step m (\<lambda>din m'. mk_wp (iappend_loop h (of_nat (length ?c + b)) din (drop b p)) m' Q)"
    by (subst iappend_loop.simps) (simp add: p Let_def mk_wp_bind mk_wp_simps split_def u fm b_def)
  have nm: "unat (freeblock m) + need (length ?c + length ?b) \<le> 2000 + need (length ?c)"
    using room need_mono [of "length ?c + length ?b" "length ?c + length p"] by simp
  show "mk_wp (iappend_loop h (of_nat (length ?c)) (dins i) p) m Q" unfolding e
    by (rule mk_wp_mono [OF iappend_step_wp [OF r i w refl b nm]], rule rest) (simp add: appended_def)
qed

lemma iappend_loop_wp:
  assumes w: "writes_all h"
  shows "mk_rep m dins (file_slot fc) fc \<Longrightarrow> i < length fc \<Longrightarrow> length (fc ! i) + length p \<le> MAXFILE * BSIZE \<Longrightarrow>
    unat (freeblock m) + need (length (fc ! i) + length p) \<le> 2000 + need (length (fc ! i)) \<Longrightarrow>
    mk_wp (iappend_loop h (of_nat (length (fc ! i))) (dins i) p) m (\<lambda>(off, din) m'.
      off = of_nat (length (fc ! i) + length p) \<and> appended m dins fc i p din m')"
proof (induction p arbitrary: m dins fc rule: length_induct)
  case (1 p)
  let ?c = "fc ! i" let ?b = "min (length p) ((length ?c div BSIZE + 1) * BSIZE - length ?c)"
  note r = 1(2) and i = 1(3) and sz = 1(4) and room = 1(5)
  show ?case
  proof (cases "p = []")
    case True
    have "mk_wp (iappend_loop h (of_nat (length ?c)) (dins i) p) m Q = Q (of_nat (length ?c), dins i) m" for Q
      using True by (subst iappend_loop.simps) (simp only: simp_thms if_True mk_wp_simps)
    then show ?thesis using r True by (simp add: appended_def)
  next
    case False
    show ?thesis
    proof (rule iappend_loop_turn(1) [OF w r i False sz room])
      fix din m' assume a: "appended m dins fc i (take ?b p) din m'"
      let ?fc = "fc[i := ?c @ take ?b p]"
      have b: "0 < ?b" using False chunk_pos [of "length p" "length ?c"] by simp
      have l: "length (?fc ! i) = length ?c + ?b" "length (?fc ! i) + length (drop ?b p) = length ?c + length p" using i by simp_all
      have "mk_wp (iappend_loop h (of_nat (length (?fc ! i))) ((dins(i := din)) i) (drop ?b p)) m' (\<lambda>(off, din') m''.
          off = of_nat (length (?fc ! i) + length (drop ?b p)) \<and> appended m' (dins(i := din)) ?fc i (drop ?b p) din' m'')"
        by (rule 1(1) [rule_format]) (use a b i sz room l False in \<open>simp_all only: appended_def\<close>, auto)
      then show "mk_wp (iappend_loop h (of_nat (length ?c + ?b)) din (drop ?b p)) m' (\<lambda>(off, din') m''.
          off = of_nat (length ?c + length p) \<and> appended m dins fc i p din' m'')"
        unfolding l fun_upd_same by (rule mk_wp_mono) (use appended_trans [OF a _ i, of "drop ?b p"] in auto)
    qed
  qed
qed

end
