(* ===== verification/MkfsFiles.thy ===== *)
theory MkfsFiles
  imports MkfsRun
begin

text \<open>
  The files in the image: reading back inodes, and what \<open>ialloc\<close> and \<open>iappend\<close> of \<open>mkfs\<close> do to the list of files.
\<close>

section \<open>Inodes on disk\<close>

lemma length_bytes_of_dinode: "length (di_addrs d) = Suc NDIRECT \<Longrightarrow> length (bytes_of_dinode d) = DINODE_SIZE"
  by (simp add: bytes_of_dinode_def length_concat_bytes32 fs_sizes)

lemma get16_at: "length xs = off \<Longrightarrow> get16 (xs @ bytes16 w @ ys) off = w"
  by (simp add: get16_def)

lemma dinode_of_bytes:
  assumes l: "length (di_addrs d) = Suc NDIRECT"
  shows "dinode_of (bytes_of_dinode d) = d"
proof -
  let ?h = "bytes16 (di_type d) @ bytes16 (di_major d) @ bytes16 (di_minor d) @ bytes16 (di_nlink d) @ bytes32 (di_size d)"
  let ?c = "concat (map bytes32 (di_addrs d))"
  have e: "bytes_of_dinode d = ?h @ ?c" by (simp add: bytes_of_dinode_def)
  have "get32 (?h @ ?c) (12 + 4 * i) = di_addrs d ! i" if i: "i < Suc NDIRECT" for i
  proof -
    have "?h @ ?c = (?h @ concat (map bytes32 (take i (di_addrs d)))) @ bytes32 (di_addrs d ! i) @ concat (map bytes32 (drop (Suc i) (di_addrs d)))"
      using concat_bytes32_nth [of i "di_addrs d"] i l by simp
    then show ?thesis by (simp only:) (rule get32_at, use i l in \<open>simp add: length_concat_bytes32\<close>)
  qed
  then have "map (\<lambda>i. get32 (?h @ ?c) (12 + 4 * i)) [0..<Suc NDIRECT] = di_addrs d"
    using l by (intro nth_equalityI) (simp_all del: upt_Suc)
  moreover have "get16 (?h @ ?c) 0 = di_type d" "get16 (?h @ ?c) 2 = di_major d" "get16 (?h @ ?c) 4 = di_minor d" "get16 (?h @ ?c) 6 = di_nlink d"
      "get32 (?h @ ?c) 8 = di_size d"
    using get16_at [of "[]" 0 "di_type d"] get16_at [of "bytes16 (di_type d)" 2 "di_major d"]
      get16_at [of "bytes16 (di_type d) @ bytes16 (di_major d)" 4 "di_minor d"]
      get16_at [of "bytes16 (di_type d) @ bytes16 (di_major d) @ bytes16 (di_minor d)" 6 "di_nlink d"]
      get32_at [of "bytes16 (di_type d) @ bytes16 (di_major d) @ bytes16 (di_minor d) @ bytes16 (di_nlink d)" 8 "di_size d"]
    by simp_all
  ultimately show ?thesis unfolding e dinode_of_def by simp
qed

lemma put_at_slice:
  assumes "off + length bs \<le> length data" "o2 + n \<le> length data" "off + length bs \<le> o2 \<or> o2 + n \<le> off"
  shows "take n (drop o2 (put_at off bs data)) = take n (drop o2 data)"
  by (rule nth_equalityI) (use assms in \<open>auto simp: nth_put_at length_put_at\<close>)

lemma get_put_dinode:
  assumes l: "length data = BSIZE" "length (di_addrs d) = Suc NDIRECT"
  shows "get_dinode (put_dinode a d data) b = (if unat a mod IPB = unat b mod IPB then d else get_dinode data b)"
proof -
  have at: "dinode_at x + DINODE_SIZE \<le> BSIZE" for x :: u32
    using mod_less_divisor [of 16 "unat x"] unfolding dinode_at_def fs_sizes by simp
  note lb = length_bytes_of_dinode [OF l(2)]
  show ?thesis
  proof (cases "unat a mod IPB = unat b mod IPB")
    case True
    then have e: "dinode_at b = dinode_at a" by (simp add: dinode_at_def)
    have "take DINODE_SIZE (drop (dinode_at a) (put_at (dinode_at a) (bytes_of_dinode d) data)) = bytes_of_dinode d"
      using at [of a] l(1) lb by (simp add: put_at_def)
    then show ?thesis using True dinode_of_bytes [OF l(2)] by (simp add: get_dinode_def put_dinode_def e)
  next
    case False
    then have "dinode_at a + DINODE_SIZE \<le> dinode_at b \<or> dinode_at b + DINODE_SIZE \<le> dinode_at a"
      by (auto simp: dinode_at_def fs_sizes)
    then show ?thesis using False at [of a] at [of b] l(1) lb by (simp add: get_dinode_def put_dinode_def put_at_slice)
  qed
qed

text \<open>Inode \<open>i + 1\<close> of the image.\<close>

definition inode_at :: "u8 list list \<Rightarrow> nat \<Rightarrow> dinode" where
  "inode_at img i = get_dinode (img ! unat (IBLOCK (of_nat (Suc i)) mk_sb)) (of_nat (Suc i))"

lemma unat_inum: "i < 207 \<Longrightarrow> unat (of_nat (Suc i) :: u32) = Suc i"
  by (rule of_nat_inverse) simp_all

lemma unat_IBLOCK: "i < 207 \<Longrightarrow> unat (IBLOCK (of_nat (Suc i)) mk_sb) = 33 + Suc i div 16"
proof -
  assume i: "i < 207"
  have d: "unat ((of_nat (Suc i) :: u32) div of_nat IPB) = Suc i div 16" using unat_inum [OF i] by (simp add: fs_sizes unat_div)
  then have "(of_nat (Suc i) :: u32) div of_nat IPB = of_nat (Suc i div 16)" by (metis of_nat_unat_u32)
  then have "IBLOCK (of_nat (Suc i)) mk_sb = 33 + of_nat (Suc i div 16)" by (simp only: IBLOCK_def mk_sb_fields add.commute)
  then show ?thesis using unat_add_nat [of 33 "Suc i div 16"] i by simp
qed

lemma inode_block: "i < 207 \<Longrightarrow> 33 \<le> unat (IBLOCK (of_nat (Suc i)) mk_sb) \<and> unat (IBLOCK (of_nat (Suc i)) mk_sb) < 46"
  by (simp add: unat_IBLOCK del: of_nat_Suc)

lemma rinode_wp: "m_sb m = mk_sb \<Longrightarrow> length (fsimg m) = 2000 \<Longrightarrow> i < 207 \<Longrightarrow> mk_wp (rinode (of_nat (Suc i))) m Q = Q (inode_at (fsimg m) i) m"
  using inode_block [of i] by (simp add: rinode_def mk_wp_bind mk_wp_simps rsect_wp inode_at_def del: of_nat_Suc)

definition set_inode_at :: "nat \<Rightarrow> dinode \<Rightarrow> u8 list list \<Rightarrow> u8 list list" where
  "set_inode_at i din img = (let bn = unat (IBLOCK (of_nat (Suc i)) mk_sb) in img[bn := put_dinode (of_nat (Suc i)) din (img ! bn)])"

lemma winode_wp: "m_sb m = mk_sb \<Longrightarrow> length (fsimg m) = 2000 \<Longrightarrow> i < 207 \<Longrightarrow> writes_all h \<Longrightarrow>
  mk_wp (winode h (of_nat (Suc i)) din) m Q = Q () (m\<lparr>fsimg := set_inode_at i din (fsimg m)\<rparr>)"
  using inode_block [of i] by (simp add: winode_def mk_wp_bind mk_wp_simps rsect_wp wsect_wp set_inode_at_def Let_def del: of_nat_Suc)

lemma inode_at_set:
  assumes img: "length img = 2000" "\<And>k. k < 2000 \<Longrightarrow> length (img ! k) = BSIZE" and d: "length (di_addrs din) = Suc NDIRECT" and i: "i < 207" "i' < 207"
  shows "inode_at (set_inode_at i din img) i' = (if i' = i then din else inode_at img i')"
proof -
  let ?b = "unat (IBLOCK (of_nat (Suc i)) mk_sb)" and ?b' = "unat (IBLOCK (of_nat (Suc i')) mk_sb)"
  have b: "?b < 2000" "length (img ! ?b) = BSIZE" using inode_block [OF i(1)] img(2) [of ?b] by simp_all
  have same: "i' = i \<longleftrightarrow> ?b' = ?b \<and> unat (of_nat (Suc i) :: u32) mod IPB = unat (of_nat (Suc i') :: u32) mod IPB"
  proof -
    have "Suc i' = Suc i" if "Suc i' div 16 = Suc i div 16" "Suc i mod 16 = Suc i' mod 16" using that by (metis div_mult_mod_eq)
    then show ?thesis unfolding unat_IBLOCK [OF i(1)] unat_IBLOCK [OF i(2)] unat_inum [OF i(1)] unat_inum [OF i(2)] by (auto simp: fs_sizes)
  qed
  show ?thesis
  proof (cases "?b' = ?b")
    case True
    then show ?thesis using b img(1) get_put_dinode [OF b(2) d, of "of_nat (Suc i)" "of_nat (Suc i')"] same
      by (simp add: inode_at_def set_inode_at_def Let_def del: of_nat_Suc)
  next
    case False
    then show ?thesis using same by (auto simp: inode_at_def set_inode_at_def Let_def simp del: of_nat_Suc)
  qed
qed

lemma set_inode_at_image:
  assumes img: "length img = 2000" "\<And>k. k < 2000 \<Longrightarrow> length (img ! k) = BSIZE" and d: "length (di_addrs din) = Suc NDIRECT" and i: "i < 207"
  shows "length (set_inode_at i din img) = 2000" "k < 2000 \<Longrightarrow> length (set_inode_at i din img ! k) = BSIZE"
    "k < 33 \<or> 46 \<le> k \<Longrightarrow> set_inode_at i din img ! k = img ! k"
proof -
  let ?b = "unat (IBLOCK (of_nat (Suc i)) mk_sb)"
  have b: "33 \<le> ?b" "?b < 46" "length (img ! ?b) = BSIZE" using inode_block [OF i] img(2) [of ?b] by simp_all
  have "dinode_at (of_nat (Suc i)) + length (bytes_of_dinode din) \<le> BSIZE"
    unfolding length_bytes_of_dinode [OF d] using mod_less_divisor [of 16 "unat (of_nat (Suc i) :: u32)"] unfolding dinode_at_def fs_sizes by simp
  then have "length (put_dinode (of_nat (Suc i)) din (img ! ?b)) = BSIZE" using b(3) by (simp add: put_dinode_def length_put_at)
  then show "length (set_inode_at i din img) = 2000" "k < 2000 \<Longrightarrow> length (set_inode_at i din img ! k) = BSIZE"
    "k < 33 \<or> 46 \<le> k \<Longrightarrow> set_inode_at i din img ! k = img ! k"
    using img b(1,2) by (auto simp: set_inode_at_def Let_def nth_list_update simp del: of_nat_Suc)
qed

lemma disk_inv_meta:
  assumes d: "disk_inv img fb dins mp fc" and img: "length img' = 2000" "\<And>k. k < 2000 \<Longrightarrow> length (img' ! k) = BSIZE" "\<And>k. nmeta \<le> k \<Longrightarrow> img' ! k = img ! k"
    and a: "\<And>i. i < length fc \<Longrightarrow> di_addrs (dins' i) = di_addrs (dins i)"
  shows "disk_inv img' fb dins' mp fc"
proof -
  note D = disk_invD [OF d]
  have S: "slot img' (dins' i) j = slot img (dins i) j" if i: "i < length fc" "j \<le> MAXFILE" for i j
  proof (cases "mp i MAXFILE")
    case True
    then have "img' ! unat (di_addrs (dins i) ! NDIRECT) = img ! unat (di_addrs (dins i) ! NDIRECT)"
      using disk_inv_slot(1) [OF d i(1), of MAXFILE] by (intro img(3)) (simp add: slot_indirect)
    then show ?thesis using a [OF i(1)] by (simp add: slot_def Let_def)
  next
    case False
    then have "di_addrs (dins i) ! NDIRECT = 0" using disk_inv_slot(3) [OF d i(1), of MAXFILE] by (simp add: slot_indirect)
    then show ?thesis using a [OF i(1)] by (simp add: slot_def Let_def)
  qed
  have "slots_ok (\<lambda>i j. unat (slot img' (dins' i) j)) mp fb (length fc)" by (rule slots_ok_cong [OF D(7)]) (simp_all add: S)
  moreover have "bytes_ok img' (\<lambda>i j. unat (slot img' (dins' i) j)) mp fc" unfolding bytes_ok_def
  proof (intro allI impI)
    fix i k assume i: "i < length fc" "k < MAXFILE * BSIZE" "mp i (k div BSIZE)"
    have j: "k div BSIZE \<le> MAXFILE" using fs_bounds(3) [OF i(2)] by simp
    have "img' ! unat (slot img (dins i) (k div BSIZE)) = img ! unat (slot img (dins i) (k div BSIZE))"
      by (rule img(3)) (use disk_inv_slot(1) [OF d i(1) j] i(3) in simp)
    then show "img' ! unat (slot img' (dins' i) (k div BSIZE)) ! (k mod BSIZE) = (if k < length (fc ! i) then fc ! i ! k else 0)"
      using D(8) i unfolding S [OF i(1) j] bytes_ok_def by simp
  qed
  moreover have "\<forall>b \<in> set img'. length b = BSIZE" using img(1,2) by (auto simp: in_set_conv_nth)
  moreover have "\<forall>k. fb \<le> k \<and> k < FSSIZE \<longrightarrow> img' ! k = replicate BSIZE 0" using D(3,5) img(3) by (simp add: mk_sizes)
  ultimately show ?thesis using D(3,4,6) img(1) a unfolding disk_inv_def by (simp add: mk_sizes)
qed

section \<open>The list of files\<close>

text \<open>The superblock as the image has it.\<close>

definition sb_block :: "u8 list" where
  "sb_block = put_at 0 (bytes_of_sb mk_sb) (replicate BSIZE 0)"

definition blocks_of :: "(u16 \<times> u8 list) list \<Rightarrow> nat" where
  "blocks_of fs = nmeta + (\<Sum>f\<leftarrow>fs. need (length (snd f)))"

text \<open>The inode of a file, apart from its addresses.\<close>

definition file_inode :: "u16 \<times> u8 list \<Rightarrow> dinode" where
  "file_inode f = \<lparr>di_type = fst f, di_major = 0, di_minor = 0, di_nlink = 1, di_size = of_nat (length (snd f)), di_addrs = []\<rparr>"

definition mk_files :: "mkfs \<Rightarrow> (u16 \<times> u8 list) list \<Rightarrow> bool" where
  "mk_files m fs \<longleftrightarrow> m_sb m = mk_sb \<and> freeinode m = of_nat (Suc (length fs)) \<and> length fs \<le> 207
     \<and> mk_rep m (inode_at (fsimg m)) (file_slot (map snd fs)) (map snd fs)
     \<and> (\<forall>i < length fs. (inode_at (fsimg m) i)\<lparr>di_addrs := []\<rparr> = file_inode (fs ! i) \<and> length (snd (fs ! i)) \<le> MAXFILE * BSIZE)
     \<and> unat (freeblock m) = blocks_of fs
     \<and> (\<forall>k < 33. fsimg m ! k = (if k = 1 then sb_block else replicate BSIZE 0))"

lemma mk_filesD:
  assumes "mk_files m fs"
  shows "m_sb m = mk_sb" "freeinode m = of_nat (Suc (length fs))" "length fs \<le> 207"
    "disk_inv (fsimg m) (unat (freeblock m)) (inode_at (fsimg m)) (file_slot (map snd fs)) (map snd fs)"
    "i < length fs \<Longrightarrow> (inode_at (fsimg m) i)\<lparr>di_addrs := []\<rparr> = file_inode (fs ! i)" "i < length fs \<Longrightarrow> length (snd (fs ! i)) \<le> MAXFILE * BSIZE"
    "unat (freeblock m) = blocks_of fs" "k < 33 \<Longrightarrow> fsimg m ! k = (if k = 1 then sb_block else replicate BSIZE 0)"
    "length (fsimg m) = 2000" "k < 2000 \<Longrightarrow> length (fsimg m ! k) = BSIZE"
  using assms disk_invD(1,2) by (auto simp: mk_files_def mk_rep_def)

lemma blocks_of_simps: "blocks_of (fs @ [(t, [])]) = blocks_of fs"
  "i < length fs \<Longrightarrow> blocks_of (fs[i := (t, c)]) + need (length (snd (fs ! i))) = blocks_of fs + need (length c)"
proof -
  show "blocks_of (fs @ [(t, [])]) = blocks_of fs" by (simp add: blocks_of_def need_def BSIZE_def)
  assume i: "i < length fs"
  let ?xs = "map (\<lambda>f. need (length (snd f))) fs"
  have "sum_list (?xs[i := need (length c)]) + ?xs ! i = sum_list ?xs + need (length c)"
    using i elem_le_sum_list [of i ?xs] by (simp add: sum_list_update)
  then show "blocks_of (fs[i := (t, c)]) + need (length (snd (fs ! i))) = blocks_of fs + need (length c)"
    using i by (simp add: blocks_of_def map_update)
qed

lemma slot_zero: "di_addrs din = replicate (Suc NDIRECT) 0 \<Longrightarrow> j \<le> MAXFILE \<Longrightarrow> slot img din j = 0"
  by (simp add: slot_def Let_def nth_Cons' split: if_splits)

lemma disk_inv_new:
  assumes d: "disk_inv img fb dins (file_slot fc) fc" and z: "di_addrs (dins (length fc)) = replicate (Suc NDIRECT) 0"
  shows "disk_inv img fb dins (file_slot (fc @ [[]])) (fc @ [[]])"
proof -
  have m: "file_slot (fc @ [[]]) i j = file_slot fc i j" if "i < length fc" for i j using that by (simp add: file_slot_def nth_append)
  have n: "\<not> file_slot (fc @ [[]]) (length fc) j" for j by (simp add: file_slot_def)
  note D = disk_invD [OF d]
  have "slots_ok (\<lambda>i j. unat (slot img (dins i) j)) (file_slot (fc @ [[]])) fb (length (fc @ [[]]))"
  proof (rule slots_okI)
    fix i j assume i: "i < length (fc @ [[]])" "j \<le> MAXFILE"
    show "unat (slot img (dins i) j) = 0" if "\<not> file_slot (fc @ [[]]) i j"
      using that i m slots_okD(3) [OF D(7) _ i(2)] slot_zero [OF z i(2)] by (cases "i = length fc") simp_all
    assume f: "file_slot (fc @ [[]]) i j"
    then have il: "i < length fc" "file_slot fc i j" using i n m by (auto simp: less_Suc_eq)
    then show "nmeta \<le> unat (slot img (dins i) j) \<and> unat (slot img (dins i) j) < fb" using slots_okD(1,2) [OF D(7) _ i(2)] by blast
    fix i' j' assume i': "i' < length (fc @ [[]])" "j' \<le> MAXFILE" "unat (slot img (dins i) j) = unat (slot img (dins i') j')"
    have "unat (slot img (dins i) j) \<noteq> 0" using slots_okD(1) [OF D(7) il(1) i(2) il(2)] by (simp add: mk_sizes)
    then have "i' \<noteq> length fc" using i' slot_zero [OF z i'(2)] by auto
    then show "i = i' \<and> j = j'" using slots_okD(4) [OF D(7) il(1) i(2) _ i'(2) il(2) i'(3)] i'(1) by simp
  qed
  moreover have "bytes_ok img (\<lambda>i j. unat (slot img (dins i) j)) (file_slot (fc @ [[]])) (fc @ [[]])"
    using D(8) n m by (auto simp: bytes_ok_def nth_append less_Suc_eq)
  moreover have "\<forall>i < length (fc @ [[]]). length (di_addrs (dins i)) = Suc NDIRECT" using D(6) z by (auto simp: less_Suc_eq)
  ultimately show ?thesis using d unfolding disk_inv_def by blast
qed

text \<open>Writing an inode.\<close>

lemma mk_files_inode:
  assumes f: "mk_files m fs" and i: "i < 207" and d: "length (di_addrs din) = Suc NDIRECT"
  shows "inode_at (set_inode_at i din (fsimg m)) = (\<lambda>i'. if i' < 207 then (if i' = i then din else inode_at (fsimg m) i') else inode_at (set_inode_at i din (fsimg m)) i')"
    "length (set_inode_at i din (fsimg m)) = 2000" "k < 2000 \<Longrightarrow> length (set_inode_at i din (fsimg m) ! k) = BSIZE"
    "k < 33 \<or> 46 \<le> k \<Longrightarrow> set_inode_at i din (fsimg m) ! k = fsimg m ! k"
  using inode_at_set [OF mk_filesD(9,10) [OF f] d i] set_inode_at_image [OF mk_filesD(9,10) [OF f] d i] by auto

lemma mk_ialloc_wp:
  assumes f: "mk_files m fs" and n: "length fs < 207" and w: "writes_all h"
  shows "mk_wp (mk_ialloc h t) m (\<lambda>inum m'. inum = of_nat (Suc (length fs)) \<and> mk_files m' (fs @ [(t, [])]))"
proof -
  let ?din = "zero_dinode\<lparr>di_type := t, di_nlink := 1, di_size := 0\<rparr>"
  let ?img = "set_inode_at (length fs) ?din (fsimg m)"
  let ?m = "m\<lparr>freeinode := freeinode m + 1, fsimg := ?img\<rparr>"
  note F = mk_filesD [OF f]
  have d: "length (di_addrs ?din) = Suc NDIRECT" by (simp add: zero_dinode_def)
  note I = mk_files_inode [OF f n d]
  have at: "inode_at ?img i = (if i = length fs then ?din else inode_at (fsimg m) i)" if "i \<le> length fs" for i
    using fun_cong [OF I(1), of i] that n by simp
  have "disk_inv ?img (unat (freeblock m)) (inode_at ?img) (file_slot (map snd fs)) (map snd fs)"
    by (rule disk_inv_meta [OF F(4) I(2,3)]) (use I(4) at in \<open>simp_all add: mk_sizes\<close>)
  then have "disk_inv ?img (unat (freeblock m)) (inode_at ?img) (file_slot (map snd fs @ [[]])) (map snd fs @ [[]])"
    by (rule disk_inv_new) (simp only: length_map at order_refl if_True, simp add: zero_dinode_def)
  moreover have "(inode_at ?img i)\<lparr>di_addrs := []\<rparr> = file_inode ((fs @ [(t, [])]) ! i) \<and> length (snd ((fs @ [(t, [])]) ! i)) \<le> MAXFILE * BSIZE"
    if "i < Suc (length fs)" for i
    using that at [of i] F(5,6) [of i] by (cases "i = length fs") (simp_all add: nth_append zero_dinode_def file_inode_def)
  ultimately have "mk_files ?m (fs @ [(t, [])])"
    using F(1,2,7,8) n I(4) by (simp add: mk_files_def mk_rep_def blocks_of_simps)
  moreover have "mk_wp (mk_ialloc h t) m Q = Q (of_nat (Suc (length fs))) ?m" for Q
    using F(1,2,9) n w winode_wp [of "m\<lparr>freeinode := freeinode m + 1\<rparr>" "length fs" h ?din]
    by (simp add: mk_ialloc_def mk_wp_bind mk_wp_simps)
  ultimately show ?thesis by simp
qed

lemma iappend_wp:
  assumes f: "mk_files m fs" and i: "i < length fs" and w: "writes_all h" and sz: "length (snd (fs ! i)) + length p \<le> MAXFILE * BSIZE"
    and room: "blocks_of (fs[i := (fst (fs ! i), snd (fs ! i) @ p)]) \<le> 2000"
  shows "mk_wp (iappend h (of_nat (Suc i)) p) m (\<lambda>_ m'. mk_files m' (fs[i := (fst (fs ! i), snd (fs ! i) @ p)]))"
proof -
  let ?fs = "fs[i := (fst (fs ! i), snd (fs ! i) @ p)]" let ?c = "snd (fs ! i)"
  note F = mk_filesD [OF f]
  have i7: "i < 207" using i F(3) by simp
  let ?dins = "inode_at (fsimg m)" let ?fc = "map snd fs"
  have fc: "?fc ! i = ?c" "?fc[i := ?c @ p] = map snd ?fs" using i by (simp_all add: map_update)
  have size: "di_size (?dins i) = of_nat (length ?c)" using arg_cong [OF F(5) [OF i], of di_size] by (simp add: file_inode_def)
  have nb: "unat (freeblock m) + need (length ?c + length p) = blocks_of ?fs + need (length ?c)"
    using blocks_of_simps(2) [OF i, of "fst (fs ! i)" "?c @ p"] F(7) by simp
  have loop: "mk_wp (iappend_loop h (of_nat (length ?c)) (?dins i) p) m (\<lambda>(off, din) m'. off = of_nat (length ?c + length p) \<and>
      mk_rep m' (?dins(i := din)) (file_slot (map snd ?fs)) (map snd ?fs)
      \<and> keeps_meta m m' \<and> same_file (?dins i) din \<and> unat (freeblock m') + need (length ?c) = unat (freeblock m) + need (length ?c + length p))"
    using iappend_loop_wp [OF w, of m ?dins ?fc i p, unfolded appended_def fc] F(4) i sz room nb unfolding mk_rep_def by simp
  show ?thesis unfolding iappend_def mk_wp_bind rinode_wp [OF F(1,9) i7] xint_id size
  proof (rule mk_wp_mono [OF loop], clarify)
    fix din and m1 :: mkfs
    assume r: "mk_rep m1 (?dins(i := din)) (file_slot (map snd ?fs)) (map snd ?fs)" and k: "keeps_meta m m1" and s: "same_file (?dins i) din"
      and fb: "unat (freeblock m1) + need (length ?c) = unat (freeblock m) + need (length ?c + length p)"
    let ?din = "din\<lparr>di_size := of_nat (length ?c + length p)\<rparr>" let ?img = "set_inode_at i ?din (fsimg m1)"
    note d1 = r [unfolded mk_rep_def]
    have d: "length (di_addrs ?din) = Suc NDIRECT" using disk_invD(6) [OF d1, of i] i by simp
    note I = set_inode_at_image [OF disk_invD(1,2) [OF d1] d i7]
    have "inode_at (fsimg m1) j = ?dins j" if "j < 207" for j
      using k inode_block [OF that] by (simp add: keeps_meta_def inode_at_def mk_sizes del: of_nat_Suc)
    then have at: "inode_at ?img j = (if j = i then ?din else ?dins j)" if "j < length fs" for j
      using inode_at_set [OF disk_invD(1,2) [OF d1] d i7, of j] that F(3) by simp
    have "disk_inv ?img (unat (freeblock m1)) (inode_at ?img) (file_slot (map snd ?fs)) (map snd ?fs)"
      by (rule disk_inv_meta [OF d1 I(1,2)]) (use I(3) at in \<open>simp_all add: mk_sizes\<close>)
    moreover have "?din\<lparr>di_addrs := []\<rparr> = file_inode (fst (fs ! i), ?c @ p)"
      using s F(5) [OF i] by (cases din; cases "?dins i") (simp add: same_file_def file_inode_def)
    then have "(inode_at ?img j)\<lparr>di_addrs := []\<rparr> = file_inode (?fs ! j) \<and> length (snd (?fs ! j)) \<le> MAXFILE * BSIZE" if "j < length fs" for j
      using at [OF that] F(5,6) [OF that] sz i that by (cases "j = i") simp_all
    moreover have "unat (freeblock m1) = blocks_of ?fs" using fb nb by simp
    moreover have "\<forall>j < 33. ?img ! j = (if j = 1 then sb_block else replicate BSIZE 0)" using I(3) k F(8) by (simp add: keeps_meta_def mk_sizes)
    ultimately have "mk_files (m1\<lparr>fsimg := ?img\<rparr>) ?fs" using k F(1-3) by (simp add: mk_files_def mk_rep_def keeps_meta_def)
    then show "mk_wp (winode h (of_nat (Suc i)) ?din) m1 (\<lambda>_ m'. mk_files m' ?fs)"
      using winode_wp [OF _ disk_invD(1) [OF d1] i7 w] k F(1) by (simp add: keeps_meta_def del: of_nat_Suc)
  qed
qed

end
