(* ===== verification/MkfsImage.thy ===== *)
theory MkfsImage
  imports MkfsFiles
begin

text \<open>
  The image \<open>mkfs\<close> leaves: the files it was given, a root directory that names them, a bitmap that marks
  exactly the blocks in use, and an empty log.
\<close>

section \<open>Appending several pieces\<close>

lemma mk_files_update_same: "i < length fs \<Longrightarrow> fs[i := (fst (fs ! i), snd (fs ! i) @ [])] = fs"
  by simp

lemma blocks_of_mono:
  assumes "length fs \<le> length gs" "\<And>i. i < length fs \<Longrightarrow> length (snd (fs ! i)) \<le> length (snd (gs ! i))"
  shows "blocks_of fs \<le> blocks_of gs"
proof -
  have "(\<Sum>f\<leftarrow>fs. need (length (snd f))) \<le> (\<Sum>f\<leftarrow>take (length fs) gs. need (length (snd f)))"
    unfolding sum_list_sum_nth by (rule sum_le_included [where i = id]) (use assms in \<open>auto intro!: need_mono\<close>)
  also have "\<dots> \<le> (\<Sum>f\<leftarrow>take (length fs) gs. need (length (snd f))) + (\<Sum>f\<leftarrow>drop (length fs) gs. need (length (snd f)))" by simp
  also have "\<dots> = (\<Sum>f\<leftarrow>gs. need (length (snd f)))" by (simp flip: sum_list_append map_append)
  finally show ?thesis by (simp add: blocks_of_def)
qed

text \<open>One list of files is part of another; it fits if the other does.\<close>

definition extends :: "(u16 \<times> u8 list) list \<Rightarrow> (u16 \<times> u8 list) list \<Rightarrow> bool" where
  "extends fs gs \<longleftrightarrow> length fs \<le> length gs \<and> (\<forall>i < length fs. length (snd (fs ! i)) \<le> length (snd (gs ! i)))"

definition fits :: "(u16 \<times> u8 list) list \<Rightarrow> bool" where
  "fits fs \<longleftrightarrow> length fs \<le> 207 \<and> blocks_of fs \<le> FSSIZE \<and> (\<forall>f \<in> set fs. length (snd f) \<le> MAXFILE * BSIZE)"

lemma extends_trans: "extends a b \<Longrightarrow> extends b c \<Longrightarrow> extends a c"
  unfolding extends_def by (meson le_trans order_less_le_trans)

lemma extends_refl [simp]: "extends a a"
  by (simp add: extends_def)

lemma fits_grows:
  assumes g: "fits gs" "extends fs gs"
  shows "fits fs"
proof -
  have "length (snd f) \<le> MAXFILE * BSIZE" if f: "f \<in> set fs" for f
  proof -
    obtain i where i: "i < length fs" "f = fs ! i" using f by (auto simp: in_set_conv_nth)
    then have "length (snd f) \<le> length (snd (gs ! i))" "gs ! i \<in> set gs" using g(2) by (auto simp: extends_def)
    then show ?thesis using g(1) unfolding fits_def by (meson le_trans)
  qed
  then show ?thesis using g blocks_of_mono [of fs gs] by (simp add: fits_def extends_def)
qed

lemma fitsD: "fits fs \<Longrightarrow> i < length fs \<Longrightarrow> length (snd (fs ! i)) \<le> MAXFILE * BSIZE" "fits fs \<Longrightarrow> blocks_of fs \<le> 2000" "fits fs \<Longrightarrow> length fs \<le> 207"
  by (auto simp: fits_def mk_sizes)

lemma iappend_fits:
  assumes "mk_files m fs" "i < length fs" "writes_all h" "fits (fs[i := (fst (fs ! i), snd (fs ! i) @ p)])"
  shows "mk_wp (iappend h (of_nat (Suc i)) p) m (\<lambda>_ m'. mk_files m' (fs[i := (fst (fs ! i), snd (fs ! i) @ p)]))"
  by (rule iappend_wp [OF assms(1-3)]) (use fitsD(1) [OF assms(4), of i] fitsD(2) [OF assms(4)] assms(2) in simp_all)

lemma iappend_each_wp:
  assumes w: "writes_all h"
  shows "mk_files m fs \<Longrightarrow> i < length fs \<Longrightarrow> fits (fs[i := (fst (fs ! i), snd (fs ! i) @ concat ps)]) \<Longrightarrow>
    mk_wp (mk_each ps (iappend h (of_nat (Suc i)))) m (\<lambda>_ m'. mk_files m' (fs[i := (fst (fs ! i), snd (fs ! i) @ concat ps)]))"
proof (induction ps arbitrary: m fs)
  case Nil
  then show ?case by (simp add: mk_wp_simps)
next
  case (Cons p ps)
  let ?fs = "fs[i := (fst (fs ! i), snd (fs ! i) @ p)]"
  have e: "?fs[i := (fst (?fs ! i), snd (?fs ! i) @ concat ps)] = fs[i := (fst (fs ! i), snd (fs ! i) @ concat (p # ps))]"
    using Cons.prems(2) by simp
  have "extends ?fs (fs[i := (fst (fs ! i), snd (fs ! i) @ concat (p # ps))])"
    using Cons.prems(2) by (auto simp: extends_def nth_list_update)
  then have "fits ?fs" using Cons.prems(3) fits_grows by blast
  then show ?case unfolding mk_each.simps
    by (intro mk_wp_step [OF iappend_fits [OF Cons.prems(1,2) w]])
      (use Cons.IH [where fs = ?fs] Cons.prems(2,3) in \<open>simp_all only: e length_list_update\<close>)
qed

section \<open>Adding a file\<close>

definition add_file :: "(u16 \<times> u8 list) list \<Rightarrow> u8 list \<times> u8 list \<Rightarrow> (u16 \<times> u8 list) list" where
  "add_file fs f = fs[0 := (fst (fs ! 0), snd (fs ! 0) @ mk_dirent (of_nat (Suc (length fs))) (fst f))] @ [(T_FILE, snd f)]"

text \<open>What an argument contributes: its name in the root directory and its content.\<close>

definition listed :: "host \<Rightarrow> u8 list \<Rightarrow> (u8 list \<times> u8 list) option" where
  "listed h arg =
     (let name = skip_underscore (mk_shortname arg) in
      case h_open h arg of None \<Rightarrow> None
      | Some chunks \<Rightarrow> if SLASH \<notin> set (mk_shortname arg) \<and> length name \<le> DIRSIZ then Some (name, concat chunks) else None)"

lemma add_file_grows: "extends fs (add_file fs f)"
  by (cases fs) (auto simp: extends_def add_file_def nth_append nth_Cons split: nat.splits)

lemma mk_file_wp:
  assumes f: "mk_files m fs" "fs \<noteq> []" and w: "writes_all h" and l: "listed h arg = Some f" and fit: "fits (add_file fs f)"
  shows "mk_wp (mk_file h ROOTINO arg) m (\<lambda>_ m'. mk_files m' (add_file fs f))"
proof -
  let ?n = "length fs" let ?name = "skip_underscore (mk_shortname arg)"
  obtain chunks where c: "h_open h arg = Some chunks" "SLASH \<notin> set (mk_shortname arg)" "length ?name \<le> DIRSIZ" "f = (?name, concat chunks)"
    using l by (auto simp: listed_def Let_def split: option.splits if_splits)
  let ?de = "mk_dirent (of_nat (Suc ?n)) ?name"
  let ?f1 = "fs @ [(T_FILE, [])]" let ?f2 = "?f1[0 := (fst (?f1 ! 0), snd (?f1 ! 0) @ ?de)]"
  have n: "?n < 207" using fitsD(3) [OF fit] by (simp add: add_file_def)
  have f2: "?f2 = fs[0 := (fst (fs ! 0), snd (fs ! 0) @ ?de)] @ [(T_FILE, [])]" using f(2) by (simp add: list_update_append nth_append)
  have f3: "?f2[?n := (fst (?f2 ! ?n), snd (?f2 ! ?n) @ concat chunks)] = add_file fs f" unfolding f2 by (simp add: add_file_def c(4) list_update_append nth_append)
  have g: "extends ?f2 (add_file fs f)" unfolding f2 by (auto simp: extends_def add_file_def c(4) nth_append)
  have root: "ROOTINO = of_nat (Suc 0)" by (simp add: ROOTINO_def)
  have "mk_wp (mk_bind (mk_ialloc h T_FILE) (\<lambda>inum. mk_bind (iappend h ROOTINO (mk_dirent inum ?name)) (\<lambda>_. mk_each chunks (iappend h inum)))) m
      (\<lambda>_ m'. mk_files m' (add_file fs f))"
  proof (rule mk_wp_step [OF mk_ialloc_wp [OF f(1) n w]])
    fix inum :: u32 and m1 assume a: "inum = of_nat (Suc ?n) \<and> mk_files m1 ?f1"
    have de: "mk_wp (iappend h ROOTINO ?de) m1 (\<lambda>_ m'. mk_files m' ?f2)"
      unfolding root by (rule iappend_fits) (use a w fits_grows [OF fit g] in simp_all)
    have rest: "mk_wp (mk_each chunks (iappend h (of_nat (Suc ?n)))) m2 (\<lambda>_ m'. mk_files m' (add_file fs f))" if "mk_files m2 ?f2" for m2
      using iappend_each_wp [OF w that, of ?n chunks] fit unfolding f3 by simp
    have e: "inum = of_nat (Suc ?n)" using a by blast
    show "mk_wp (mk_bind (iappend h ROOTINO (mk_dirent inum ?name)) (\<lambda>_. mk_each chunks (iappend h inum))) m1 (\<lambda>_ m'. mk_files m' (add_file fs f))"
      unfolding e by (rule mk_wp_step [OF de rest])
  qed
  then show ?thesis using c by (simp add: mk_file_def Let_def mk_wp_bind mk_wp_simps)
qed

lemma mk_each_files_wp:
  assumes w: "writes_all h"
  shows "mk_files m fs \<Longrightarrow> fs \<noteq> [] \<Longrightarrow> map (listed h) args = map Some files \<Longrightarrow> fits (foldl add_file fs files) \<Longrightarrow>
    mk_wp (mk_each args (mk_file h ROOTINO)) m (\<lambda>_ m'. mk_files m' (foldl add_file fs files))"
proof (induction args arbitrary: m fs files)
  case Nil
  then show ?case by (simp add: mk_wp_simps)
next
  case (Cons arg args)
  obtain f rest where f: "files = f # rest" "listed h arg = Some f" "map (listed h) args = map Some rest" using Cons.prems(3) by auto
  have ne: "add_file fs f \<noteq> []" by (simp add: add_file_def)
  have "extends gs (foldl add_file gs xs)" for gs xs
    by (induction xs arbitrary: gs) (auto intro: extends_trans [OF add_file_grows])
  then have "fits (add_file fs f)" using fits_grows [OF Cons.prems(4)] f(1) by simp
  from mk_file_wp [OF Cons.prems(1,2) w f(2) this]
  show ?case unfolding mk_each.simps f(1)
    by (rule mk_wp_step) (use Cons.IH [OF _ ne f(3)] Cons.prems(4) f(1) in simp)
qed

section \<open>The empty image\<close>

lemma zero_loop: "writes_all h \<Longrightarrow> n \<le> 2000 \<Longrightarrow> length (fsimg m) = k \<Longrightarrow> k + n \<le> 2000 \<Longrightarrow>
  mk_wp (mk_each [k..<k + n] (\<lambda>i. wsect h (of_nat i) (replicate BSIZE 0))) m Q = Q () (m\<lparr>fsimg := fsimg m @ replicate n (replicate BSIZE 0)\<rparr>)"
proof (induction n arbitrary: k m)
  case 0
  then show ?case by (simp add: mk_wp_simps)
next
  case (Suc n)
  let ?m = "m\<lparr>fsimg := fsimg m @ [replicate BSIZE 0]\<rparr>"
  have "unat (of_nat k :: u32) = k" using Suc.prems by (intro of_nat_inverse) auto
  then have "sect_at (of_nat k) = k" using sect_at_small [of "of_nat k"] Suc.prems by simp
  then have "mk_wp (wsect h (of_nat k) (replicate BSIZE 0)) m R = R () ?m" for R
    using Suc.prems by (simp add: wsect_def writes_all_def put_block_def mk_wp_simps)
  moreover have "[k..<k + Suc n] = k # [Suc k..<Suc k + n]" by (simp add: upt_conv_Cons)
  ultimately show ?case using Suc.IH [of ?m "Suc k"] Suc.prems by (simp add: mk_wp_bind)
qed

definition empty_image :: mkfs where
  "empty_image = mk_start\<lparr>fsimg := (replicate 2000 (replicate BSIZE 0))[1 := sb_block]\<rparr>"

lemma length_sb_block: "length sb_block = BSIZE"
  by (simp add: sb_block_def bytes_of_sb_def length_put_at BSIZE_def)

lemma empty_image_files: "mk_files empty_image []"
proof -
  have b: "length b = BSIZE" if "b \<in> set ((replicate 2000 (replicate BSIZE 0))[1 := sb_block])" for b
    using that set_update_subset_insert [of "replicate 2000 (replicate BSIZE 0)" 1 sb_block] length_sb_block by (auto simp: in_set_replicate)
  have "disk_inv ((replicate 2000 (replicate BSIZE 0))[1 := sb_block]) nmeta dins mp []" for dins mp
    unfolding disk_inv_def using b by (simp add: mk_sizes slots_ok_def bytes_ok_def)
  then show ?thesis unfolding mk_files_def
    by (simp add: empty_image_def mk_start_def mk_rep_def blocks_of_def mk_sizes of_nat_inverse)
qed

section \<open>The bitmap\<close>

lemma mk_bitmap_Suc: "mk_bitmap (Suc n) = mark_bit True n (mk_bitmap n)"
  by (simp add: mk_bitmap_def mark_bit_def)

lemma mk_bitmap_bit: "n \<le> 8192 \<Longrightarrow> length (mk_bitmap n) = BSIZE \<and> (\<forall>i < 8192. bit (mk_bitmap n ! (i div 8)) (i mod 8) \<longleftrightarrow> i < n)"
proof (induction n)
  case 0
  then show ?case by (auto simp: mk_bitmap_def BSIZE_def less_mult_imp_div_less)
next
  case (Suc n)
  have "bit (mk_bitmap (Suc n) ! (i div 8)) (i mod 8) \<longleftrightarrow> i < Suc n" if "i < 8192" for i
  proof -
    have "i = n \<longleftrightarrow> i div 8 = n div 8 \<and> i mod 8 = n mod 8" by (metis div_mult_mod_eq)
    then show ?thesis unfolding mk_bitmap_Suc
      by (subst bit_mark_bit) (use Suc that in \<open>auto simp: BSIZE_def less_mult_imp_div_less less_Suc_eq\<close>)
  qed
  then show ?case using Suc by (simp add: mk_bitmap_Suc)
qed

lemma BBLOCK_mk_sb: "b < 2000 \<Longrightarrow> BBLOCK b mk_sb = 46"
  using BBLOCK_eq [of b mk_sb 0] by (simp add: BBLOCK_def BPB_eq word_less_nat_alt)

lemma image_bitmap:
  assumes b: "img ! 46 = mk_bitmap n" and n: "47 \<le> n" "n \<le> 2000"
  shows "free_blocks mk_sb (\<lambda>k. img ! unat k) = {b. n \<le> unat b \<and> unat b < 2000}" "bitmap_ok 4000 2 mk_sb (\<lambda>k. img ! unat k)"
proof -
  have "used mk_sb (\<lambda>k. img ! unat k) c \<longleftrightarrow> unat c < n" if c: "c < 2000" for c
  proof -
    have u: "unat c < 2000" using c by (simp add: word_less_nat_alt)
    then show ?thesis using mk_bitmap_bit [of n] n b BBLOCK_mk_sb [OF c] by (simp add: used_bit BPB_eq)
  qed
  then show f: "free_blocks mk_sb (\<lambda>k. img ! unat k) = {b. n \<le> unat b \<and> unat b < 2000}"
    by (auto simp: free_blocks_def word_less_nat_alt not_less)
  have "b \<noteq> 46" if "n \<le> unat b" for b :: u32 using that n by auto
  then show "bitmap_ok 4000 2 mk_sb (\<lambda>k. img ! unat k)" unfolding bitmap_ok_def f using n
    by (auto simp: BBLOCK_mk_sb on_disk_unat in_log_def LOGBLOCKS_def MAXOPBLOCKS_def word_less_nat_alt)
qed

section \<open>The image\<close>

text \<open>
  What reading inode \<open>inum\<close> finds: type, size, the bytes \<open>c\<close> at the start of the file, and zeroes after them
  in the blocks that the file has.
\<close>

definition file_holds :: "u8 list list \<Rightarrow> u32 \<Rightarrow> u16 \<Rightarrow> u32 \<Rightarrow> u8 list \<Rightarrow> bool" where
  "file_holds img inum t sz c \<longleftrightarrow>
     (let din = get_dinode (img ! unat (IBLOCK inum mk_sb)) inum in
      di_type din = t \<and> di_nlink din = 1 \<and> di_size din = sz
      \<and> (\<forall>k < MAXFILE * BSIZE. if slot img din (k div BSIZE) = 0 then length c \<le> k
           else img ! unat (slot img din (k div BSIZE)) ! (k mod BSIZE) = (if k < length c then c ! k else 0)))"

lemma disk_inv_holds:
  assumes d: "disk_inv img fb (inode_at img) (file_slot fc) fc" and i: "i < length fc" "length (fc ! i) \<le> MAXFILE * BSIZE"
    and n: "inode_at img i = din" "di_nlink din = 1"
  shows "file_holds img (of_nat (Suc i)) (di_type din) (di_size din) (fc ! i)"
proof -
  have "if slot img din (k div BSIZE) = 0 then length (fc ! i) \<le> k
      else img ! unat (slot img din (k div BSIZE)) ! (k mod BSIZE) = (if k < length (fc ! i) then fc ! i ! k else 0)"
    if km: "k < MAXFILE * BSIZE" for k
  proof -
    have j: "k div BSIZE < MAXFILE" by (rule fs_bounds(3) [OF km])
    have m: "file_slot fc i (k div BSIZE) \<longleftrightarrow> slot img din (k div BSIZE) \<noteq> 0" using disk_inv_slot(3) [OF d i(1), of "k div BSIZE"] j n(1) by simp
    have "file_slot fc i (k div BSIZE)" if "k < length (fc ! i)"
      using le_less_trans [OF div_times_less_eq_dividend that] j by (simp add: file_slot_def)
    then show ?thesis using disk_invD(8) [OF d] i(1) km m n(1) unfolding bytes_ok_def by (auto simp: not_less)
  qed
  then show ?thesis using n unfolding file_holds_def inode_at_def Let_def by simp
qed

text \<open>
  The data and indirect blocks of the first \<open>n\<close> inodes lie between the metadata and block \<open>fb\<close>, and no block
  is used twice.
\<close>

definition disjoint_blocks :: "u8 list list \<Rightarrow> nat \<Rightarrow> nat \<Rightarrow> bool" where
  "disjoint_blocks img n fb \<longleftrightarrow>
     (\<forall>i < n. \<forall>j \<le> MAXFILE. slot img (inode_at img i) j \<noteq> 0 \<longrightarrow>
        nmeta \<le> unat (slot img (inode_at img i) j) \<and> unat (slot img (inode_at img i) j) < fb
        \<and> (\<forall>i' < n. \<forall>j' \<le> MAXFILE. slot img (inode_at img i') j' = slot img (inode_at img i) j \<longrightarrow> i' = i \<and> j' = j))"

lemma disk_inv_disjoint: "disk_inv img fb (inode_at img) mp fc \<Longrightarrow> disjoint_blocks img (length fc) fb"
  using disk_inv_slot [of img fb "inode_at img" mp fc] unfolding disjoint_blocks_def by metis

text \<open>
  The root directory and the files, in the order of the arguments. The entries are the ones that the
  kernel's \<open>dirlink\<close> would write.
\<close>

definition root_dir :: "(u8 list \<times> u8 list) list \<Rightarrow> u8 list" where
  "root_dir files = dirent_bytes ROOTINO (cs ''.'') @ dirent_bytes ROOTINO (cs ''..'')
     @ concat (map (\<lambda>i. dirent_bytes (of_nat (i + 2)) (fst (files ! i))) [0..<length files])"

lemma mk_dirent_eq: "mk_dirent = dirent_bytes"
  by (simp add: fun_eq_iff mk_dirent_def dirent_bytes_def)

definition image_files :: "(u8 list \<times> u8 list) list \<Rightarrow> (u16 \<times> u8 list) list" where
  "image_files files = (T_DIR, root_dir files) # map (\<lambda>f. (T_FILE, snd f)) files"

lemma image_files_foldl: "foldl add_file [(T_DIR, root_dir [])] files = image_files files"
proof (induction files rule: rev_induct)
  case (snoc f files)
  have e: "map (\<lambda>i. dirent_bytes (of_nat (i + 2)) (fst ((files @ [f]) ! i))) [0..<length files] = map (\<lambda>i. dirent_bytes (of_nat (i + 2)) (fst (files ! i))) [0..<length files]"
    by (rule map_cong) (simp_all add: nth_append)
  have "root_dir (files @ [f]) = root_dir files @ dirent_bytes (of_nat (length files + 2)) (fst f)"
    unfolding root_dir_def length_append list.size upt_Suc_append [OF le0] add_Suc_right add_0_right map_append concat_append e by simp
  then show ?case using snoc by (simp add: image_files_def add_file_def mk_dirent_eq)
qed (simp add: image_files_def)

definition round_up :: "nat \<Rightarrow> u32" where
  "round_up sz = (of_nat sz div of_nat BSIZE + 1) * of_nat BSIZE"

text \<open>Fixing the size of the root directory and writing the bitmap.\<close>

definition fixed_root :: "mkfs \<Rightarrow> dinode" where
  "fixed_root m = (inode_at (fsimg m) 0)\<lparr>di_size := round_up (unat (di_size (inode_at (fsimg m) 0)))\<rparr>"

lemma finish_run:
  assumes f: "mk_files m fs" and w: "writes_all h"
  shows "mk_wp (mk_bind (fix_root h ROOTINO) (\<lambda>_. mk_bind (mk_gets freeblock) (\<lambda>b. mk_balloc h (sint b)))) m Q
    = Q () (m\<lparr>fsimg := (set_inode_at 0 (fixed_root m) (fsimg m))[46 := mk_bitmap (blocks_of fs)]\<rparr>)"
proof -
  note F = mk_filesD [OF f]
  have root: "ROOTINO = of_nat (Suc 0)" by (simp add: ROOTINO_def)
  have fb: "unat (freeblock m) = blocks_of fs" "blocks_of fs \<le> 2000" using disk_invD(4) [OF F(4)] F(7) by simp_all
  then have b: "sint (freeblock m) = int (blocks_of fs)" by (simp add: sint_u32 uint_nat)
  have r: "mk_wp (fix_root h ROOTINO) m R = R () (m\<lparr>fsimg := set_inode_at 0 (fixed_root m) (fsimg m)\<rparr>)" for R
    unfolding root fix_root_def mk_wp_bind
    by (simp only: rinode_wp [OF F(1,9)] winode_wp [OF F(1,9) _ w] Let_def xint_id fixed_root_def round_up_def zero_less_numeral) simp
  have len: "length (set_inode_at 0 (fixed_root m) (fsimg m)) = 2000" by (simp add: set_inode_at_def Let_def F(9))
  show ?thesis unfolding mk_wp_bind r mk_wp_simps mk_balloc_def
    using fb F(1) w len by (simp add: b wsect_wp BPB_eq mk_sb_fields)
qed

definition image_holds :: "(u16 \<times> u8 list) list \<Rightarrow> u8 list list \<Rightarrow> bool" where
  "image_holds fs img \<longleftrightarrow> length img = 2000 \<and> img ! 46 = mk_bitmap (blocks_of fs)
     \<and> (\<forall>k < 33. img ! k = (if k = 1 then sb_block else replicate BSIZE 0))
     \<and> disjoint_blocks img (length fs) (blocks_of fs)
     \<and> (\<forall>i < length fs. file_holds img (of_nat (Suc i)) (fst (fs ! i))
          (if i = 0 then round_up (length (snd (fs ! 0))) else of_nat (length (snd (fs ! i)))) (snd (fs ! i)))"

lemma finish_wp:
  assumes f: "mk_files m fs" "fs \<noteq> []" and w: "writes_all h"
  shows "mk_wp (mk_bind (fix_root h ROOTINO) (\<lambda>_. mk_bind (mk_gets freeblock) (\<lambda>b. mk_balloc h (sint b)))) m (\<lambda>_ m'. image_holds fs (fsimg m'))"
proof -
  note F = mk_filesD [OF f(1)]
  let ?fb = "blocks_of fs" let ?img1 = "set_inode_at 0 (fixed_root m) (fsimg m)" let ?img2 = "?img1[46 := mk_bitmap ?fb]"
  let ?sz = "\<lambda>i. if i = 0 then round_up (length (snd (fs ! 0))) else of_nat (length (snd (fs ! i)))"
  have ne: "0 < length fs" using f(2) by simp
  have d: "length (di_addrs (fixed_root m)) = Suc NDIRECT" using disk_invD(6) [OF F(4), of 0] ne by (simp add: fixed_root_def)
  note I = mk_files_inode [OF f(1) _ d]
  have fb: "?fb \<le> 2000" using disk_invD(4) [OF F(4)] F(7) by simp
  have len: "length (mk_bitmap ?fb) = BSIZE" using mk_bitmap_bit [of ?fb] fb by simp
  have i2: "length ?img2 = 2000" "\<And>k. k < 2000 \<Longrightarrow> length (?img2 ! k) = BSIZE" "\<And>k. nmeta \<le> k \<Longrightarrow> ?img2 ! k = fsimg m ! k" "\<And>k. k < 33 \<Longrightarrow> ?img2 ! k = fsimg m ! k"
    using I(2-4) len by (auto simp: nth_list_update mk_sizes)
  have at: "inode_at ?img2 i = (if i = 0 then fixed_root m else inode_at (fsimg m) i)" if i: "i < 207" for i
  proof -
    have b: "unat (IBLOCK (of_nat (Suc i)) mk_sb) \<noteq> 46" using inode_block [OF i] by simp
    have "inode_at ?img2 i = inode_at ?img1 i" unfolding inode_at_def nth_list_update_neq [OF b [symmetric]] by (rule refl)
    then show ?thesis using fun_cong [OF I(1), of 0 i] i by simp
  qed
  have inv: "disk_inv ?img2 (unat (freeblock m)) (inode_at ?img2) (file_slot (map snd fs)) (map snd fs)"
    by (rule disk_inv_meta [OF F(4) i2(1-3)]) (use at F(3) in \<open>simp_all add: fixed_root_def\<close>)
  have "file_holds ?img2 (of_nat (Suc i)) (fst (fs ! i)) (?sz i) (snd (fs ! i))" if i: "i < length fs" for i
  proof -
    have n: "di_type (inode_at (fsimg m) i) = fst (fs ! i)" "di_nlink (inode_at (fsimg m) i) = 1" "di_size (inode_at (fsimg m) i) = of_nat (length (snd (fs ! i)))"
      using F(5) [OF i] by (cases "inode_at (fsimg m) i", simp add: file_inode_def)+
    have u: "unat (of_nat (length (snd (fs ! i))) :: u32) = length (snd (fs ! i))" using F(6) [OF i] by (intro of_nat_inverse) (simp_all add: fs_sizes)
    have "di_type (inode_at ?img2 i) = fst (fs ! i)" "di_nlink (inode_at ?img2 i) = 1" "di_size (inode_at ?img2 i) = ?sz i"
      using at [of i] i F(3) n u by (cases "i = 0"; simp add: fixed_root_def)+
    then show ?thesis using disk_inv_holds [OF inv, of i] i F(6) [OF i] by simp
  qed
  then show ?thesis unfolding finish_run [OF f(1) w] image_holds_def using i2 I(2) F(7,8) disk_inv_disjoint [OF inv] by simp
qed

text \<open>The whole run.\<close>

lemma empty_image_wp: "writes_all h \<Longrightarrow> mk_wp (mk_each [0..<FSSIZE] (\<lambda>i. wsect h (of_nat i) (replicate BSIZE 0))) mk_start
  (\<lambda>_ m. mk_wp (wsect h 1 (put_at 0 (bytes_of_sb mk_sb) (replicate BSIZE 0))) m (\<lambda>_ m'. m' = empty_image))"
  using zero_loop [of h 2000 mk_start 0]
  by (simp only: mk_sizes add_0 order_refl) (simp add: wsect_wp mk_start_def empty_image_def sb_block_def)

lemma root_wp:
  assumes w: "writes_all h" and fit: "fits (image_files files)"
  shows "mk_wp (mk_ialloc h T_DIR) empty_image (\<lambda>r m. r = ROOTINO \<and>
    mk_wp (iappend h ROOTINO (mk_dirent ROOTINO (cs ''.''))) m (\<lambda>_ m1.
    mk_wp (iappend h ROOTINO (mk_dirent ROOTINO (cs ''..''))) m1 (\<lambda>_ m2. mk_files m2 [(T_DIR, root_dir [])])))"
proof -
  let ?d = "mk_dirent ROOTINO (cs ''.'')" and ?dd = "mk_dirent ROOTINO (cs ''..'')"
  have root: "ROOTINO = of_nat (Suc 0)" and r1: "ROOTINO = 1" by (simp_all add: ROOTINO_def)
  have "extends [(T_DIR, ?d)] (image_files files)" "extends [(T_DIR, ?d @ ?dd)] (image_files files)"
    by (simp_all add: extends_def image_files_def root_dir_def mk_dirent_eq)
  then have fits: "fits [(T_DIR, ?d)]" "fits [(T_DIR, ?d @ ?dd)]" using fits_grows [OF fit] by blast+
  have a: "mk_wp (iappend h ROOTINO ?d) m (\<lambda>_ m'. mk_files m' [(T_DIR, ?d)])" if "mk_files m [(T_DIR, [])]" for m
    using iappend_fits [OF that _ w, of 0 ?d] fits(1) by (simp add: r1)
  have b: "mk_wp (iappend h ROOTINO ?dd) m (\<lambda>_ m'. mk_files m' [(T_DIR, root_dir [])])" if "mk_files m [(T_DIR, ?d)]" for m
    using iappend_fits [OF that _ w, of 0 ?dd] fits(2) by (simp add: r1 root_dir_def mk_dirent_eq)
  have "mk_wp (iappend h ROOTINO ?d) m (\<lambda>_ m1. mk_wp (iappend h ROOTINO ?dd) m1 (\<lambda>_ m2. mk_files m2 [(T_DIR, root_dir [])]))" if "mk_files m [(T_DIR, [])]" for m
    by (rule mk_wp_mono [OF a [OF that]]) (rule b)
  then show ?thesis using mk_ialloc_wp [OF empty_image_files _ w, of T_DIR] unfolding mk_wp_def [of "mk_ialloc h T_DIR"] by (auto simp: r1)
qed

lemma mk_body_wp:
  assumes w: "writes_all h" and l: "map (listed h) args = map Some files" and fit: "fits (image_files files)"
  shows "mk_wp (mk_body h args) mk_start (\<lambda>_ m. image_holds (image_files files) (fsimg m))" (is "mk_wp _ _ ?Q")
proof -
  let ?finish = "mk_bind (fix_root h ROOTINO) (\<lambda>_. mk_bind (mk_gets freeblock) (\<lambda>b. mk_balloc h (sint b)))"
  have ne: "image_files files \<noteq> []" by (simp add: image_files_def)
  have rest: "mk_wp (mk_bind (mk_each args (mk_file h ROOTINO)) (\<lambda>_. ?finish)) m ?Q" if m: "mk_files m [(T_DIR, root_dir [])]" for m
    using mk_wp_step [OF mk_each_files_wp [OF w m _ l, unfolded image_files_foldl, OF _ fit] finish_wp [OF _ ne w]] by simp
  show ?thesis unfolding mk_body_def mk_wp_bind
    apply (rule mk_wp_mono [OF empty_image_wp [OF w]], erule mk_wp_mono)
    apply (simp only:, rule mk_wp_mono [OF root_wp [OF w fit]])
    apply (clarify, unfold mk_wp_simps(4), intro conjI refl, erule mk_wp_mono, erule mk_wp_mono)
    apply (drule rest, unfold mk_wp_bind, assumption)
    done
qed

lemma superblock_sb_block: "superblock_of sb_block = mk_sb"
  by (simp add: superblock_of_def sb_block_def bytes_of_sb_def put_at_def get32_def)

lemma image_file:
  assumes "image_holds (image_files files) img" "i < length files"
  shows "file_holds img (of_nat (i + 2)) T_FILE (of_nat (length (snd (files ! i)))) (snd (files ! i))"
proof -
  have "file_holds img (of_nat (Suc (Suc i))) (fst (image_files files ! Suc i)) (of_nat (length (snd (image_files files ! Suc i)))) (snd (image_files files ! Suc i))"
    using assms unfolding image_holds_def by (auto simp: image_files_def simp del: of_nat_Suc nth_Cons_Suc)
  then show ?thesis using assms(2) by (simp only: image_files_def nth_Cons_Suc nth_map fst_conv snd_conv add_2_eq_Suc')
qed

text \<open>C29: run with writable output and readable arguments whose names are legal and whose contents fit, \<open>mkfs\<close>
  exits with status 0 and the image it wrote is a file system that the kernel can mount: all blocks are
  there, block 1 holds the superblock, the log is empty, the bitmap marks exactly the blocks below the
  first free one, the files' blocks are among these and no block is used twice, the root directory lists
  \<open>.\<close>, \<open>..\<close> and the given names with their inode numbers, and each file's inode reads back, block by block
  through its direct and indirect addresses, the bytes of the host's file, followed by zeroes.
\<close>

theorem mkfs_image:
  assumes "h_create h img" "writes_all h" "map (listed h) args = map Some files" "fits (image_files files)"
  shows "\<exists>image. mk_main h (prog # img # args) = Inr image \<and> length image = FSSIZE
    \<and> superblock_of (image ! 1) = mk_sb \<and> head_n (image ! 2) = 0
    \<and> bitmap_ok (FSSIZE * SECTORS_PER_BLOCK) 2 mk_sb (\<lambda>k. image ! unat k)
    \<and> free_blocks mk_sb (\<lambda>k. image ! unat k) = {b. blocks_of (image_files files) \<le> unat b \<and> unat b < FSSIZE}
    \<and> disjoint_blocks image (length files + 1) (blocks_of (image_files files))
    \<and> file_holds image ROOTINO T_DIR (round_up (length (root_dir files))) (root_dir files)
    \<and> (\<forall>i < length files. file_holds image (of_nat (i + 2)) T_FILE (of_nat (length (snd (files ! i)))) (snd (files ! i)))"
proof -
  let ?fs = "image_files files"
  obtain m where run: "mk_body h args mk_start = Inr ((), m)" and i: "image_holds ?fs (fsimg m)"
    using mk_body_wp [OF assms(2-4)] by (auto simp: mk_wp_def)
  note I = i [unfolded image_holds_def]
  have n: "47 \<le> blocks_of ?fs" "blocks_of ?fs \<le> 2000" using fitsD(2) [OF assms(4)] by (simp_all add: blocks_of_def mk_sizes)
  note B = image_bitmap [OF _ n]
  have "head_n (fsimg m ! 2) = 0" using I by (simp add: head_n_def get32_zero BSIZE_def)
  moreover have "file_holds (fsimg m) ROOTINO T_DIR (round_up (length (root_dir files))) (root_dir files)"
    using I by (auto simp: image_files_def ROOTINO_def)
  moreover have "disjoint_blocks (fsimg m) (length files + 1) (blocks_of ?fs)" using I by (simp add: image_files_def)
  moreover have "mk_main h (prog # img # args) = Inr (fsimg m)" using assms(1) run by (simp add: mk_main_def split: unit.split)
  ultimately show ?thesis using I image_file [OF i] B [of "fsimg m"] superblock_sb_block
    by (auto simp: mk_sizes SECTORS_PER_BLOCK_def SECTOR_SIZE_def BSIZE_def)
qed

lemma length_strncpy: "length (strncpy s t n) = length s"
proof -
  have p: "length (strncpy_pad s i k) = length s" for s i k by (induction s i k rule: strncpy_pad.induct) simp_all
  have "length (fst (strncpy_copy s i t k)) = length s" for s i t k by (induction s i t k rule: strncpy_copy.induct) simp_all
  then show ?thesis using p by (simp add: strncpy_def split_beta)
qed

lemma length_dirent_bytes: "length (dirent_bytes inum name) = 16"
  by (simp add: dirent_bytes_def length_strncpy DIRSIZ_def bytes16_def)

definition hi_host :: host where
  "hi_host = \<lparr>h_create = (\<lambda>_. True), h_open = (\<lambda>f. if f = cs ''user/_hi'' then Some [[1, 2], [3]] else None), h_write = (\<lambda>_ _. True)\<rparr>"

theorem mkfs_image_witness:
  "\<exists>image. mk_main hi_host [cs ''mkfs'', cs ''fs.img'', cs ''user/_hi''] = Inr image \<and> length image = FSSIZE
    \<and> superblock_of (image ! 1) = mk_sb \<and> head_n (image ! 2) = 0
    \<and> free_blocks mk_sb (\<lambda>k. image ! unat k) = {b. 49 \<le> unat b \<and> unat b < FSSIZE}
    \<and> file_holds image 2 T_FILE 3 [1, 2, 3]"
proof -
  let ?files = "[(cs ''hi'', [1, 2, 3 :: u8])]"
  have l: "map (listed hi_host) [cs ''user/_hi''] = map Some ?files"
    by (simp add: listed_def hi_host_def mk_shortname_def skip_underscore_def USER_DIR_def cs_def SLASH_def DIRSIZ_def)
  have b: "blocks_of (image_files ?files) = 49"
    by (simp add: blocks_of_def image_files_def root_dir_def length_dirent_bytes need_def mk_sizes fs_sizes)
  then have f: "fits (image_files ?files)"
    by (simp add: fits_def mk_sizes) (simp add: image_files_def root_dir_def length_dirent_bytes fs_sizes)
  obtain image where "mk_main hi_host [cs ''mkfs'', cs ''fs.img'', cs ''user/_hi''] = Inr image" "length image = FSSIZE"
    "superblock_of (image ! 1) = mk_sb" "head_n (image ! 2) = 0"
    "free_blocks mk_sb (\<lambda>k. image ! unat k) = {b. 49 \<le> unat b \<and> unat b < FSSIZE}"
    "file_holds image 2 T_FILE 3 [1, 2, 3]"
    using mkfs_image [of hi_host "cs ''fs.img''" "[cs ''user/_hi'']" ?files "cs ''mkfs''", OF _ _ l f] unfolding b
    by (auto simp: hi_host_def writes_all_def)
  then show ?thesis by blast
qed

end
