(* ===== verification/ProcMem.thy ===== *)
theory ProcMem
  imports ProcProps
begin

text \<open>
  The memory of a process: creating and freeing its page table, and allocating and freeing a slot
  of the process table (\<open>proc_pagetable\<close>, \<open>proc_freepagetable\<close>, \<open>freeproc\<close>, \<open>allocproc\<close> of
  \<open>kernel/proc.c\<close>). The lemmas account for every page: it is on the free list, in the page
  table, or a page of the process.
\<close>

section \<open>Page tables\<close>

text \<open>Lock bookkeeping and everything outside memory and the free list may change in a step that
  keeps the pool.\<close>

lemma pool_cong:
  assumes "mem t = mem s" "kmem_freelist t = kmem_freelist s" "kend t = kend s" "lock_ok KmemLock t"
    "pool s ps"
  shows "pool t ps"
  using assms by (simp add: pool_def free_list_def)

lemma uvmcreate_spec:
  assumes "pool s ps"
  shows "wp uvmcreate P s (\<lambda>pt t. vm_frame s t \<and>
    (pt = 0 \<and> ps = [] \<and> pool t [] \<and> mem t = mem s \<or>
     (\<exists>qs. ps = pt # qs \<and> pt \<noteq> 0 \<and> owns t pt D qs \<and> pt_pages (mem t) pt = {pt}
        \<and> leaf (mem t) pt = (\<lambda>_. 0) \<and> (\<forall>x. PGROUNDDOWN x \<noteq> pt \<longrightarrow> mem t x = mem s x))))"
proof (cases ps)
  case Nil
  then have "kalloc P s = Ret 0 (settle s)" using assms kalloc_empty [of s P] by (simp add: pool_def)
  then show ?thesis using assms Nil
    by (simp add: uvmcreate_def wp_rules wp_Ret [where m = kalloc] vm_frame_settle pool_cong [where s = s] pool_def)
next
  case (Cons p qs)
  let ?t = "(taken p s)\<lparr>mem := zero_page (mem s) p\<rparr>"
  have k: "kalloc P s = Ret p (taken p s)" "pool (taken p s) qs" "p \<noteq> 0" "page_ok (kend s) p" "p \<notin> set qs"
    "page_aligned p"
    using assms kalloc_page [of s p qs] page_ok_nonzero by (auto simp: Cons pool_def free_list_def taken_def page_ok_def)
  have e: "entry (zero_page (mem s) p) p x = 0" if "x < 1024" for x
    using that k by (simp add: entry_zero_page)
  have l: "leaf (zero_page (mem s) p) p = (\<lambda>_. 0)" by (rule ext) (simp add: leaf_def e)
  have pp: "pt_pages (zero_page (mem s) p) p = {p}" by (auto simp: pt_pages_def e)
  have "pool ?t qs"
  proof (rule pool_mem [OF k(2)])
    fix x assume "PGROUNDDOWN x \<in> set qs"
    then show "zero_page (mem s) p x = mem (taken p s) x" using k by (auto simp: zero_page_apply)
  qed
  then have "vm_inv ?t p qs" using k by (simp add: vm_inv_def pp pt_wf_def e)
  then have "owns ?t p D qs" by (simp add: owns_def l)
  moreover have "vm_frame s ?t" by (simp add: taken_def vm_frame_mem vm_frame_freelist vm_frame_settle)
  moreover have "uvmcreate P s = Ret p ?t" using k by (simp add: uvmcreate_def memset_at_page run_simps)
  ultimately show ?thesis using Cons k l pp by (auto simp: wp_Ret zero_page_apply)
qed

text \<open>User addresses are those below the trap frame.\<close>

definition user_va :: "u32 \<Rightarrow> bool" where
  "user_va va \<longleftrightarrow> va < TRAPFRAME"

definition proc_leaf :: "u32 \<Rightarrow> u32 \<Rightarrow> u32 \<Rightarrow> u32" where
  "proc_leaf tr tf = map_range TRAPFRAME (Suc 0) tf (PTE_R OR PTE_W)
     (map_range TRAMPOLINE (Suc 0) tr (PTE_R OR PTE_X) (\<lambda>_. 0))"

lemma trap_pages:
  "page_aligned TRAMPOLINE" "page_aligned TRAPFRAME" "unat TRAMPOLINE = 66052096" "unat TRAPFRAME = 66048000"
  by (simp_all add: page_aligned_def layout_defs)

lemma near_page:
  fixes a vb :: u32
  assumes "unat a + 4096 \<le> 4294967296"
  shows "unat (vb - a) < 4096 \<longleftrightarrow> unat a \<le> unat vb \<and> unat vb < unat a + 4096"
proof (cases "a \<le> vb")
  case True
  then show ?thesis using unat_sub [OF True] by (auto simp: word_le_nat_alt)
next
  case False
  then have "unat vb < unat a" by (simp add: word_le_nat_alt)
  moreover have "unat (vb - a) = 4294967296 + unat vb - unat a"
    using \<open>unat vb < unat a\<close> by (simp add: unat_sub_if_size word_size)
  ultimately show ?thesis using assms by auto
qed

lemma map_range_page:
  "map_range TRAMPOLINE (Suc 0) pa perm f vb = (if unat TRAMPOLINE \<le> unat vb \<and> unat vb < unat TRAMPOLINE + 4096
     then PA2PTE (pa + (PGROUNDDOWN vb - TRAMPOLINE)) OR perm OR PTE_V else f vb)"
  "map_range TRAPFRAME (Suc 0) pa perm f vb = (if unat TRAPFRAME \<le> unat vb \<and> unat vb < unat TRAPFRAME + 4096
     then PA2PTE (pa + (PGROUNDDOWN vb - TRAPFRAME)) OR perm OR PTE_V else f vb)"
  by (simp_all add: map_range_def near_page trap_pages)

lemma proc_leaf_user: "user_va va \<Longrightarrow> proc_leaf tr tf va = 0"
  by (simp add: proc_leaf_def map_range_page user_va_def word_less_nat_alt trap_pages)

lemma owns_no_user:
  assumes "vm_inv s pt ps" "\<And>va. user_va va \<Longrightarrow> \<not> valid (leaf (mem s) pt va)"
  shows "owns s pt user_va ps"
  using assms by (auto simp: owns_def)

lemma uvmfree_empty:
  assumes inv: "vm_inv s pt ps" and none: "\<And>va. \<not> valid (leaf (mem s) pt va)"
  shows "wp (uvmfree pt 0) P s (\<lambda>_ t. vm_frame s t \<and>
    (\<exists>qs. pool t qs \<and> set qs = set ps \<union> pt_pages (mem s) pt) \<and>
    (\<forall>x. PGROUNDDOWN x \<notin> pt_pages (mem s) pt \<longrightarrow> mem t x = mem s x))"
proof -
  have "range_pages (mem s) pt 0 (npg 0) = {}" by (simp add: range_pages_def npg_def)
  moreover have "owns s pt (\<lambda>_. True) ps" using inv none by (simp add: owns_def)
  ultimately show ?thesis using uvmfree_spec [of s pt "\<lambda>_. True" ps 0 P] none by simp
qed

text \<open>What \<open>proc_pagetable\<close> leaves: a null pointer and the same free pages, or a table with the two
  trap pages that accounts for the pages it took.\<close>

definition new_pagetable :: "u32 \<Rightarrow> 'a kmem_scheme \<Rightarrow> u32 list \<Rightarrow> u32 \<Rightarrow> u32 \<Rightarrow> 'a kmem_scheme \<Rightarrow> bool" where
  "new_pagetable tf s ps tr pt t \<longleftrightarrow> vm_frame s t \<and> (\<forall>x. PGROUNDDOWN x \<notin> set ps \<longrightarrow> mem t x = mem s x)
     \<and> (\<exists>qs. if pt = 0 then pool t qs \<and> set qs = set ps
            else owns t pt user_va qs \<and> set qs \<union> pt_pages (mem t) pt = set ps
              \<and> leaf (mem t) pt = proc_leaf tr tf)"

text \<open>A page table under construction from the free pages \<open>ps\<close> of \<open>s\<close>: the pages left are \<open>rs\<close> and
  the translations are \<open>f\<close>.\<close>

definition building :: "u32 \<Rightarrow> 'a kmem_scheme \<Rightarrow> u32 list \<Rightarrow> 'a kmem_scheme \<Rightarrow> u32 list \<Rightarrow> (u32 \<Rightarrow> u32) \<Rightarrow> bool" where
  "building pt s ps u rs f \<longleftrightarrow> vm_frame s u \<and> vm_inv u pt rs \<and> set rs \<union> pt_pages (mem u) pt = set ps
     \<and> leaf (mem u) pt = f \<and> (\<forall>x. PGROUNDDOWN x \<notin> set ps \<longrightarrow> mem u x = mem s x)"

lemma building_grows:
  assumes b: "building pt s ps u rs f" and g: "grows pt u rs v qs" and l: "leaf (mem v) pt = f'"
  shows "building pt s ps v qs f'"
proof -
  obtain us where us: "rs = us @ qs" "pt_pages (mem v) pt = pt_pages (mem u) pt \<union> set us"
    using g by (auto simp: grows_def)
  have sub: "pt_pages (mem v) pt \<subseteq> set ps" using b us by (auto simp: building_def)
  have "mem v x = mem s x" if "PGROUNDDOWN x \<notin> set ps" for x
    using b g that sub by (auto simp: building_def grows_def)
  then show ?thesis
    using b g l us vm_frame_trans [of s u v] unfolding building_def grows_def by auto
qed

lemma building_map:
  assumes b: "building pt s ps u rs f" and va: "page_aligned va" "unat va + 4096 \<le> 2147483648" "\<not> valid (f va)"
  shows "wp (mappages pt va PGSIZE pa perm) P u (\<lambda>r v. \<exists>qs.
    r = 0 \<and> building pt s ps v qs (map_range va (Suc 0) pa perm f) \<or> r = -1 \<and> building pt s ps v qs f)"
proof -
  have i: "vm_inv u pt rs" "\<not> valid (leaf (mem u) pt va)" "leaf (mem u) pt = f" using b va by (simp_all add: building_def)
  show ?thesis
  proof (rule wp_mono [OF mappages_page [OF i(1) va(1,2) i(2)]])
    fix r v assume "mapped pt va (Suc 0) pa perm u rs r v"
    then obtain qs k where g: "grows pt u rs v qs" and l: "leaf (mem v) pt = map_range va k pa perm f"
      and r: "r = 0 \<and> k = Suc 0 \<or> r = -1 \<and> k < Suc 0" by (auto simp: mapped_def i(3))
    have "building pt s ps v qs (map_range va k pa perm f)" using b g l by (rule building_grows)
    then show "\<exists>qs. r = 0 \<and> building pt s ps v qs (map_range va (Suc 0) pa perm f) \<or> r = -1 \<and> building pt s ps v qs f"
      using r by (intro exI [where x = qs]) auto
  qed
qed

lemma building_abandon:
  assumes b: "building pt s ps u rs f" and none: "\<And>va. \<not> valid (f va)"
  shows "wp (bind (uvmfree pt 0) (\<lambda>_. ret 0)) P u (new_pagetable tf s ps tr)"
  unfolding wp_bind wp_ret
proof (rule wp_mono)
  have i: "vm_inv u pt rs" "\<And>va. \<not> valid (leaf (mem u) pt va)" using b none by (simp_all add: building_def)
  show "wp (uvmfree pt 0) P u (\<lambda>_ t. vm_frame u t \<and>
    (\<exists>qs. pool t qs \<and> set qs = set rs \<union> pt_pages (mem u) pt) \<and>
    (\<forall>x. PGROUNDDOWN x \<notin> pt_pages (mem u) pt \<longrightarrow> mem t x = mem u x))" by (rule uvmfree_empty [OF i])
  fix y t assume t: "vm_frame u t \<and> (\<exists>qs. pool t qs \<and> set qs = set rs \<union> pt_pages (mem u) pt) \<and>
    (\<forall>x. PGROUNDDOWN x \<notin> pt_pages (mem u) pt \<longrightarrow> mem t x = mem u x)"
  have "pt_pages (mem u) pt \<subseteq> set ps" using b by (auto simp: building_def)
  then show "new_pagetable tf s ps tr 0 t"
    using b t vm_frame_trans [of s u t] unfolding building_def new_pagetable_def by auto
qed

lemma building_done:
  assumes b: "building pt s ps u rs (proc_leaf tr tf)" and nz: "pt \<noteq> 0"
  shows "new_pagetable tf s ps tr pt u"
proof -
  have "owns u pt user_va rs"
    using b by (intro owns_no_user) (simp_all add: building_def proc_leaf_user)
  then show ?thesis using b nz unfolding building_def new_pagetable_def by (simp, blast)
qed

lemma building_unmap:
  assumes b: "building pt s ps u rs f"
  shows "wp (uvmunmap pt TRAMPOLINE 1 False) P u
    (\<lambda>_ v. \<exists>qs. building pt s ps v qs (clear_range TRAMPOLINE (Suc 0) f))"
proof (rule wp_mono)
  have o: "owns u pt (\<lambda>_. False) rs" using b by (simp add: building_def owns_def)
  show "wp (uvmunmap pt TRAMPOLINE 1 False) P u (\<lambda>_ t. \<exists>qs. unmapped pt TRAMPOLINE (Suc 0) False u rs t qs
      \<and> owns t pt (\<lambda>_. False) qs)"
    using uvmunmap_spec [OF o, of TRAMPOLINE "Suc 0" False P] by (simp add: range_ok_def trap_pages)
  fix y v assume "\<exists>qs. unmapped pt TRAMPOLINE (Suc 0) False u rs v qs \<and> owns v pt (\<lambda>_. False) qs"
  then obtain qs where q: "unmapped pt TRAMPOLINE (Suc 0) False u rs v qs" by blast
  have "pt_pages (mem u) pt \<subseteq> set ps" using b by (auto simp: building_def)
  then show "\<exists>qs. building pt s ps v qs (clear_range TRAMPOLINE (Suc 0) f)"
    using b q vm_frame_trans [of s u v] unfolding building_def unmapped_def by (intro exI [where x = qs]) auto
qed

lemma sym_vm_frame:
  assumes "vm_frame s t"
  shows "sym_trampoline_start t = sym_trampoline_start s" "ptable t = ptable s" "sym_forkret t = sym_forkret s"
    "nextpid t = nextpid s" "initproc t = initproc s" "kernel_pagetable t = kernel_pagetable s"
  using vm_frameD(2) [OF assms] by (cases t, cases s, simp)+

lemma proc_pagetable_build:
  assumes b: "building pt s ps t qs (\<lambda>_. 0)" and nz: "pt \<noteq> 0"
  shows "wp (bind (mappages pt TRAMPOLINE PGSIZE tr (PTE_R OR PTE_X)) (\<lambda>r.
       if r < 0 then bind (uvmfree pt 0) (\<lambda>_. ret 0)
       else
         bind (gets (\<lambda>s. p_trapframe (ptable s p))) (\<lambda>tf.
         bind (mappages pt TRAPFRAME PGSIZE tf (PTE_R OR PTE_W)) (\<lambda>r.
         if r < 0
         then bind (uvmunmap pt TRAMPOLINE 1 False) (\<lambda>_.
              bind (uvmfree pt 0) (\<lambda>_. ret 0))
         else ret pt)))) P t (new_pagetable (p_trapframe (ptable s p)) s ps tr)" (is "wp _ _ _ ?Q")
proof -
  let ?f = "map_range TRAMPOLINE (Suc 0) tr (PTE_R OR PTE_X) (\<lambda>_. 0)"
  have second: "wp (bind (gets (\<lambda>s. p_trapframe (ptable s p))) (\<lambda>tf.
       bind (mappages pt TRAPFRAME PGSIZE tf (PTE_R OR PTE_W)) (\<lambda>r.
       if r < 0
       then bind (uvmunmap pt TRAMPOLINE 1 False) (\<lambda>_. bind (uvmfree pt 0) (\<lambda>_. ret 0))
       else ret pt))) P u ?Q" if u: "building pt s ps u rs ?f" for u rs
  proof -
    have tf: "p_trapframe (ptable u p) = p_trapframe (ptable s p)"
      using u sym_vm_frame(2) by (metis building_def)
    have nv: "\<not> valid (?f TRAPFRAME)" by (simp add: map_range_page trap_pages)
    have undo: "wp (bind (uvmunmap pt TRAMPOLINE 1 False) (\<lambda>_. bind (uvmfree pt 0) (\<lambda>_. ret 0))) P v ?Q"
      if v: "building pt s ps v rs' ?f" for v rs'
    proof -
      have none: "\<not> valid (clear_range TRAMPOLINE (Suc 0) ?f va)" for va
        by (auto simp: clear_range_def map_range_def)
      show ?thesis
        by (subst wp_bind, rule wp_mono [OF building_unmap [OF v]]) (use building_abandon none in blast)
    qed
    show ?thesis
    proof (subst wp_bind, subst wp_gets, subst wp_bind, unfold tf, rule wp_mono [OF building_map [OF u _ _ nv]])
      fix r :: int and v assume "\<exists>qs. r = 0 \<and> building pt s ps v qs (map_range TRAPFRAME (Suc 0)
          (p_trapframe (ptable s p)) (PTE_R OR PTE_W) ?f) \<or> r = -1 \<and> building pt s ps v qs ?f"
      then show "wp (if r < 0 then bind (uvmunmap pt TRAMPOLINE 1 False) (\<lambda>_. bind (uvmfree pt 0) (\<lambda>_. ret 0))
          else ret pt) P v ?Q"
        using undo nz building_done [of pt s ps v] by (auto simp: wp_ret proc_leaf_def)
    qed (simp_all add: trap_pages)
  qed
  show ?thesis
  proof (subst wp_bind, rule wp_mono [OF building_map [OF b]])
    fix r :: int and u assume "\<exists>qs. r = 0 \<and> building pt s ps u qs ?f \<or> r = -1 \<and> building pt s ps u qs (\<lambda>_. 0)"
    then show "wp (if r < 0 then bind (uvmfree pt 0) (\<lambda>_. ret 0)
       else
         bind (gets (\<lambda>s. p_trapframe (ptable s p))) (\<lambda>tf.
         bind (mappages pt TRAPFRAME PGSIZE tf (PTE_R OR PTE_W)) (\<lambda>r.
         if r < 0
         then bind (uvmunmap pt TRAMPOLINE 1 False) (\<lambda>_.
              bind (uvmfree pt 0) (\<lambda>_. ret 0))
         else ret pt))) P u ?Q"
      using second building_abandon [of pt s ps u _ "\<lambda>_. 0"] by auto
  qed (simp_all add: trap_pages)
qed

lemma proc_pagetable_spec:
  assumes "pool s ps"
  shows "wp (proc_pagetable p) P s
    (new_pagetable (p_trapframe (ptable s p)) s ps (sym_trampoline_start s))"
  unfolding proc_pagetable_def
proof (subst wp_bind, rule wp_mono [OF uvmcreate_spec [where D = "\<lambda>_. False", OF assms]])
  fix pt t
  assume t: "vm_frame s t \<and> (pt = 0 \<and> ps = [] \<and> pool t [] \<and> mem t = mem s \<or>
     (\<exists>qs. ps = pt # qs \<and> pt \<noteq> 0 \<and> owns t pt (\<lambda>_. False) qs \<and> pt_pages (mem t) pt = {pt}
        \<and> leaf (mem t) pt = (\<lambda>_. 0) \<and> (\<forall>x. PGROUNDDOWN x \<noteq> pt \<longrightarrow> mem t x = mem s x)))"
  show "wp (if pt = 0 then ret 0 else bind (gets sym_trampoline_start) (\<lambda>tr.
       bind (mappages pt TRAMPOLINE PGSIZE tr (PTE_R OR PTE_X)) (\<lambda>r.
       if r < 0 then bind (uvmfree pt 0) (\<lambda>_. ret 0)
       else
         bind (gets (\<lambda>s. p_trapframe (ptable s p))) (\<lambda>tf.
         bind (mappages pt TRAPFRAME PGSIZE tf (PTE_R OR PTE_W)) (\<lambda>r.
         if r < 0
         then bind (uvmunmap pt TRAMPOLINE 1 False) (\<lambda>_.
              bind (uvmfree pt 0) (\<lambda>_. ret 0))
         else ret pt))))) P t (new_pagetable (p_trapframe (ptable s p)) s ps (sym_trampoline_start s))"
  proof (cases "pt = 0")
    case True
    then show ?thesis using t by (auto simp: wp_rules new_pagetable_def)
  next
    case False
    then obtain qs where b: "building pt s ps t qs (\<lambda>_. 0)"
      using t owns_vm_inv [of t pt "\<lambda>_. False"] unfolding building_def by fastforce
    have e: "sym_trampoline_start t = sym_trampoline_start s" using t sym_vm_frame(1) by blast
    show ?thesis
      by (subst if_not_P [OF False], subst wp_bind, subst wp_gets, unfold e, rule proc_pagetable_build [OF b False])
  qed
qed

text \<open>A process's address space of \<open>sz\<close> bytes: user pages below \<open>sz\<close>, and perhaps the two trap pages.\<close>

definition trap_va :: "u32 \<Rightarrow> bool" where
  "trap_va va \<longleftrightarrow> unat TRAPFRAME \<le> unat va \<and> unat va < unat TRAMPOLINE + 4096"

definition proc_space :: "'a kmem_scheme \<Rightarrow> u32 \<Rightarrow> u32 \<Rightarrow> u32 list \<Rightarrow> bool" where
  "proc_space s pt sz ps \<longleftrightarrow> owns s pt user_va ps \<and> sz \<le> TRAPFRAME
     \<and> (\<forall>va. valid (leaf (mem s) pt va) \<longrightarrow> unat va < 4096 * npg sz \<or> trap_va va)"

text \<open>All pages of the address space: the user pages and the pages of the table.\<close>

definition space_pages :: "memory \<Rightarrow> u32 \<Rightarrow> u32 \<Rightarrow> u32 set" where
  "space_pages m pt sz = range_pages m pt 0 (npg sz) \<union> pt_pages m pt"

lemma npg_user: "sz \<le> TRAPFRAME \<Longrightarrow> 4096 * npg sz \<le> unat TRAPFRAME"
  by (simp add: word_le_nat_alt trap_pages npg_def)

lemma clear_trap:
  "clear_range TRAMPOLINE (Suc 0) f va = (if unat TRAMPOLINE \<le> unat va \<and> unat va < unat TRAMPOLINE + 4096 \<and> valid (f va) then 0 else f va)"
  "clear_range TRAPFRAME (Suc 0) f va = (if unat TRAPFRAME \<le> unat va \<and> unat va < unat TRAPFRAME + 4096 \<and> valid (f va) then 0 else f va)"
  by (simp_all add: clear_range_def near_page trap_pages)

lemma unmap_trap_page:
  assumes o: "owns s pt user_va ps" and va: "va = TRAMPOLINE \<or> va = TRAPFRAME"
  shows "wp (uvmunmap pt va 1 False) P s (\<lambda>_ t. vm_frame s t \<and> (\<exists>qs. owns t pt user_va qs \<and> set qs = set ps)
    \<and> pt_pages (mem t) pt = pt_pages (mem s) pt \<and> leaf (mem t) pt = clear_range va (Suc 0) (leaf (mem s) pt)
    \<and> (\<forall>x. PGROUNDDOWN x \<notin> pt_pages (mem s) pt \<longrightarrow> mem t x = mem s x))"
proof (rule wp_mono)
  show "wp (uvmunmap pt va 1 False) P s (\<lambda>_ t. \<exists>qs. unmapped pt va (Suc 0) False s ps t qs \<and> owns t pt user_va qs)"
    using uvmunmap_spec [OF o, of va "Suc 0" False P] va by (auto simp: range_ok_def trap_pages)
qed (auto simp: unmapped_def)

lemma proc_freepagetable_spec:
  assumes a: "proc_space s pt sz ps"
  shows "wp (proc_freepagetable pt sz) P s (\<lambda>_ t. vm_frame s t \<and>
    (\<exists>qs. pool t qs \<and> set qs = set ps \<union> space_pages (mem s) pt sz) \<and>
    (\<forall>x. PGROUNDDOWN x \<notin> space_pages (mem s) pt sz \<longrightarrow> mem t x = mem s x))"
  unfolding proc_freepagetable_def
proof (subst wp_bind, rule wp_mono [OF unmap_trap_page [of s pt ps TRAMPOLINE]])
  show o: "owns s pt user_va ps" using a by (simp add: proc_space_def)
  fix y t assume t: "vm_frame s t \<and> (\<exists>qs. owns t pt user_va qs \<and> set qs = set ps)
    \<and> pt_pages (mem t) pt = pt_pages (mem s) pt \<and> leaf (mem t) pt = clear_range TRAMPOLINE (Suc 0) (leaf (mem s) pt)
    \<and> (\<forall>x. PGROUNDDOWN x \<notin> pt_pages (mem s) pt \<longrightarrow> mem t x = mem s x)"
  then obtain qs where qs: "owns t pt user_va qs" "set qs = set ps" by blast
  show "wp (bind (uvmunmap pt TRAPFRAME 1 False) (\<lambda>_. uvmfree pt sz)) P t (\<lambda>_ t. vm_frame s t \<and>
    (\<exists>qs. pool t qs \<and> set qs = set ps \<union> space_pages (mem s) pt sz) \<and>
    (\<forall>x. PGROUNDDOWN x \<notin> space_pages (mem s) pt sz \<longrightarrow> mem t x = mem s x))" (is "wp _ _ _ ?Q")
  proof (subst wp_bind, rule wp_mono [OF unmap_trap_page [OF qs(1), of TRAPFRAME]])
    fix z u assume u: "vm_frame t u \<and> (\<exists>rs. owns u pt user_va rs \<and> set rs = set qs)
      \<and> pt_pages (mem u) pt = pt_pages (mem t) pt \<and> leaf (mem u) pt = clear_range TRAPFRAME (Suc 0) (leaf (mem t) pt)
      \<and> (\<forall>x. PGROUNDDOWN x \<notin> pt_pages (mem t) pt \<longrightarrow> mem u x = mem t x)"
    then obtain rs where rs: "owns u pt user_va rs" "set rs = set qs" by blast
    have l: "leaf (mem u) pt va = (if trap_va va \<and> valid (leaf (mem s) pt va) then 0 else leaf (mem s) pt va)" for va
      using t u by (auto simp: clear_trap trap_va_def trap_pages)
    have n: "4096 * npg sz \<le> unat TRAPFRAME" using a by (auto simp: proc_space_def intro: npg_user)
    have same: "leaf (mem u) pt va = leaf (mem s) pt va" if "unat va < 4096 * npg sz" for va
      using l n that by (auto simp: trap_va_def)
    have rp: "range_pages (mem u) pt 0 (npg sz) = range_pages (mem s) pt 0 (npg sz)"
      using same by (auto simp: range_pages_def data_page_def; metis)
    have below: "unat va < 4096 * npg sz" if "valid (leaf (mem u) pt va)" for va
      using a that l by (auto simp: proc_space_def split: if_splits)
    have d: "user_va va" if "unat va < 4096 * npg sz" for va
      using that n by (simp add: user_va_def word_less_nat_alt)
    have sz: "unat sz \<le> 2147483648" using a by (simp add: proc_space_def word_le_nat_alt trap_pages)
    show "wp (uvmfree pt sz) P u ?Q"
    proof (rule wp_mono [OF uvmfree_spec [OF rs(1) sz below d]])
      fix w v assume v: "vm_frame u v \<and>
        (\<exists>ws. pool v ws \<and> set ws = set rs \<union> range_pages (mem u) pt 0 (npg sz) \<union> pt_pages (mem u) pt) \<and>
        (\<forall>x. PGROUNDDOWN x \<notin> range_pages (mem u) pt 0 (npg sz) \<union> pt_pages (mem u) pt \<longrightarrow> mem v x = mem u x)"
      have "vm_frame s u" using t u by (auto intro: vm_frame_trans [of s t u])
      then have "vm_frame s v" using v by (auto intro: vm_frame_trans [of s u v])
      then show "?Q w v" using t u v qs(2) rs(2) rp by (simp add: space_pages_def Un_assoc)
    qed
  qed simp
qed simp

section \<open>Slots of the process table\<close>

text \<open>While a lock is held, memory operations change memory and the free list only.\<close>

definition remem :: "'a kmem_scheme \<Rightarrow> 'a kmem_scheme \<Rightarrow> 'a kmem_scheme" where
  "remem t s = s\<lparr>mem := mem t, kmem_freelist := kmem_freelist t\<rparr>"

lemma vm_frame_nested: "c_noff (mycpu s) \<noteq> 0 \<Longrightarrow> vm_frame s t \<Longrightarrow> t = remem t s"
proof -
  assume a: "c_noff (mycpu s) \<noteq> 0" "vm_frame s t"
  have "c_noff (mycpu (settle t)) = c_noff (mycpu (settle s))"
    using a(2) by (simp add: vm_frame_def mycpu_def)
  then have "c_noff (mycpu t) = c_noff (mycpu s)" by simp
  then show ?thesis using a by (simp add: vm_frame_def settle_nested remem_def)
qed

lemma remem_select [simp]: "ptable (remem t u) = ptable u" "mem (remem t s) = mem t" "kmem_freelist (remem t s) = kmem_freelist t"
  "locks (remem t s) = locks s" "cpus (remem t s) = cpus s" "csr (remem t s) = csr s" "mycpu (remem t s) = mycpu s"
  "kend (remem t s) = kend s"
  by (simp_all add: remem_def mycpu_def)

text \<open>The pages a slot holds: its trap frame and its address space; and a slot whose pages are
  its own, the free pages being \<open>ps\<close>.\<close>

definition slot_pages :: "memory \<Rightarrow> proc \<Rightarrow> u32 set" where
  "slot_pages m q = (if p_trapframe q = 0 then {} else {p_trapframe q})
     \<union> (if p_pagetable q = 0 then {} else space_pages m (p_pagetable q) (p_sz q))"

definition slot_ok :: "'a kmem_scheme \<Rightarrow> proc \<Rightarrow> u32 list \<Rightarrow> bool" where
  "slot_ok s q ps \<longleftrightarrow>
     (if p_pagetable q = 0 then pool s ps else proc_space s (p_pagetable q) (p_sz q) ps)
   \<and> (p_trapframe q \<noteq> 0 \<longrightarrow> page_ok (kend s) (p_trapframe q) \<and> p_trapframe q \<notin> set ps
      \<and> (p_pagetable q \<noteq> 0 \<longrightarrow> p_trapframe q \<notin> space_pages (mem s) (p_pagetable q) (p_sz q)))"

text \<open>What is left of a slot that has been freed.\<close>

definition unused :: "proc \<Rightarrow> proc" where
  "unused q = q\<lparr>p_trapframe := 0, p_pagetable := 0, p_sz := 0, p_pid := 0, p_parent := None,
     p_name := (p_name q)[0 := 0], p_chan := None, p_killed := 0, p_xstate := 0, p_state := UNUSED\<rparr>"

lemma space_page_of:
  assumes "proc_space s pt sz ps" "user_va va" "page_aligned va" "valid (leaf (mem s) pt va)"
  shows "data_page (mem s) pt va \<in> space_pages (mem s) pt sz"
proof -
  have "unat va < 4096 * npg sz"
    using assms unfolding proc_space_def user_va_def trap_va_def word_less_nat_alt by (metis not_less)
  then show ?thesis using assms by (auto simp: space_pages_def range_pages_def)
qed

lemma space_pages_cong:
  "leaf m pt = leaf m' pt \<Longrightarrow> pt_pages m pt = pt_pages m' pt \<Longrightarrow> space_pages m pt sz = space_pages m' pt sz"
  by (simp add: space_pages_def range_pages_def data_page_def)

text \<open>Freeing the trap frame leaves the address space as it is.\<close>

lemma free_trapframe:
  assumes ok: "slot_ok s q ps" and tf: "p_trapframe q \<noteq> 0"
  shows "wp (kfree (p_trapframe q)) P s (\<lambda>_ t. vm_frame s t \<and> slot_ok t (q\<lparr>p_trapframe := 0\<rparr>) (p_trapframe q # ps)
    \<and> slot_pages (mem t) (q\<lparr>p_trapframe := 0\<rparr>) = slot_pages (mem s) (q\<lparr>p_trapframe := 0\<rparr>)
    \<and> (\<forall>x. PGROUNDDOWN x \<noteq> p_trapframe q \<longrightarrow> mem t x = mem s x))"
proof (cases "p_pagetable q = 0")
  case True
  let ?p = "p_trapframe q"
  let ?t = "(settle s)\<lparr>mem := store32 (mem s) ?p (kmem_freelist s), kmem_freelist := ?p\<rparr>"
  have p: "pool s ps" "page_ok (kend s) ?p" "?p \<notin> set ps" using ok tf True by (auto simp: slot_ok_def)
  have "wp (kfree ?p) P s (\<lambda>_ t. t = ?t \<and> pool t (?p # ps))"
    using p(1) pool_free [OF p, of P] kfree_eq [of s ?p P] p(2) by (simp add: wp_iff pool_def)
  moreover have "vm_frame s ?t" by (simp add: vm_frame_def)
  moreover have "mem ?t x = mem s x" if "PGROUNDDOWN x \<noteq> ?p" for x
    using that p(2) by (simp add: store32_other_page page_ok_def)
  ultimately show ?thesis using True by (auto elim!: wp_mono simp: slot_ok_def slot_pages_def)
next
  case False
  let ?p = "p_trapframe q" let ?pt = "p_pagetable q"
  have sp: "proc_space s ?pt (p_sz q) ps" and p: "page_ok (kend s) ?p" "?p \<notin> set ps"
    "?p \<notin> space_pages (mem s) ?pt (p_sz q)" using ok tf False by (auto simp: slot_ok_def)
  have o: "owns s ?pt user_va ps" using sp by (simp add: proc_space_def)
  have np: "?p \<notin> pt_pages (mem s) ?pt" using p(3) by (simp add: space_pages_def)
  show ?thesis
  proof (rule wp_mono [OF owns_kfree [OF o p(1,2) np]])
    show "data_page (mem s) ?pt vb \<noteq> ?p" if "user_va vb" "page_aligned vb" "valid (leaf (mem s) ?pt vb)" for vb
      using space_page_of [OF sp that] p(3) by auto
    fix y t assume t: "owns t ?pt user_va (?p # ps) \<and> vm_frame s t \<and> leaf (mem t) ?pt = leaf (mem s) ?pt
      \<and> pt_pages (mem t) ?pt = pt_pages (mem s) ?pt \<and> (\<forall>x. PGROUNDDOWN x \<noteq> ?p \<longrightarrow> mem t x = mem s x)"
    then have "proc_space t ?pt (p_sz q) (?p # ps)" using sp by (simp add: proc_space_def)
    moreover have "space_pages (mem t) ?pt (p_sz q) = space_pages (mem s) ?pt (p_sz q)"
      using t by (intro space_pages_cong) simp_all
    ultimately show "vm_frame s t \<and> slot_ok t (q\<lparr>p_trapframe := 0\<rparr>) (?p # ps)
      \<and> slot_pages (mem t) (q\<lparr>p_trapframe := 0\<rparr>) = slot_pages (mem s) (q\<lparr>p_trapframe := 0\<rparr>)
      \<and> (\<forall>x. PGROUNDDOWN x \<noteq> ?p \<longrightarrow> mem t x = mem s x)" using t False by (simp add: slot_ok_def slot_pages_def)
  qed
qed

lemma pool_set_proc [simp]: "pool (set_proc i f s) ps = pool s ps"
  by (simp add: pool_def free_list_def set_proc_def lock_ok_def lock_preds)

lemma space_set_proc [simp]: "proc_space (set_proc i f s) pt sz ps = proc_space s pt sz ps"
  by (simp add: proc_space_def owns_def vm_inv_def) (simp add: set_proc_def)

lemma slot_ok_set_proc [simp]: "slot_ok (set_proc i f s) q ps = slot_ok s q ps"
  by (simp add: slot_ok_def) (simp add: set_proc_def)

lemma remem_set_proc: "remem t (set_proc i f s) = set_proc i f (remem t s)"
  by (simp add: remem_def set_proc_def)

lemma remem_remem [simp]: "remem t (remem u s) = remem t s" "remem (set_proc i f t) s = remem t s"
  "remem (remem t u) s = remem t s"
  by (simp_all add: remem_def set_proc_def)

lemma noff_set_proc [simp]: "kend (set_proc i f s) = kend s" "kmem_freelist (set_proc i f s) = kmem_freelist s"
  by (simp_all add: set_proc_def)

lemma freeproc_trapframe:
  assumes ok: "slot_ok s (ptable s i) ps" and nest: "c_noff (mycpu s) \<noteq> 0"
  shows "wp (if p_trapframe (ptable s i) \<noteq> 0 then kfree (p_trapframe (ptable s i)) else ret ()) P s
    (\<lambda>_ t. t = remem t s \<and> (\<exists>qs. slot_ok t ((ptable s i)\<lparr>p_trapframe := 0\<rparr>) qs
       \<and> set qs \<union> slot_pages (mem t) ((ptable s i)\<lparr>p_trapframe := 0\<rparr>) = set ps \<union> slot_pages (mem s) (ptable s i))
     \<and> slot_pages (mem t) ((ptable s i)\<lparr>p_trapframe := 0\<rparr>) \<subseteq> slot_pages (mem s) (ptable s i)
     \<and> (\<forall>x. PGROUNDDOWN x \<notin> slot_pages (mem s) (ptable s i) \<longrightarrow> mem t x = mem s x))"
proof (cases "p_trapframe (ptable s i) = 0")
  case True
  then have e: "(ptable s i)\<lparr>p_trapframe := 0\<rparr> = ptable s i" by simp
  show ?thesis unfolding e using True ok by (auto simp: wp_ret remem_def)
next
  case False
  then have "wp (kfree (p_trapframe (ptable s i))) P s
    (\<lambda>_ t. t = remem t s \<and> (\<exists>qs. slot_ok t ((ptable s i)\<lparr>p_trapframe := 0\<rparr>) qs
       \<and> set qs \<union> slot_pages (mem t) ((ptable s i)\<lparr>p_trapframe := 0\<rparr>) = set ps \<union> slot_pages (mem s) (ptable s i))
     \<and> slot_pages (mem t) ((ptable s i)\<lparr>p_trapframe := 0\<rparr>) \<subseteq> slot_pages (mem s) (ptable s i)
     \<and> (\<forall>x. PGROUNDDOWN x \<notin> slot_pages (mem s) (ptable s i) \<longrightarrow> mem t x = mem s x))"
    (is "wp _ _ _ ?Q")
  proof (intro wp_mono [OF free_trapframe [OF ok False]])
    fix y t assume t: "vm_frame s t \<and> slot_ok t ((ptable s i)\<lparr>p_trapframe := 0\<rparr>) (p_trapframe (ptable s i) # ps)
      \<and> slot_pages (mem t) ((ptable s i)\<lparr>p_trapframe := 0\<rparr>) = slot_pages (mem s) ((ptable s i)\<lparr>p_trapframe := 0\<rparr>)
      \<and> (\<forall>x. PGROUNDDOWN x \<noteq> p_trapframe (ptable s i) \<longrightarrow> mem t x = mem s x)"
    have "t = remem t s" using t nest vm_frame_nested by blast
    moreover have "set (p_trapframe (ptable s i) # ps) \<union> slot_pages (mem t) ((ptable s i)\<lparr>p_trapframe := 0\<rparr>)
        = set ps \<union> slot_pages (mem s) (ptable s i)"
      using t False by (auto simp: slot_pages_def)
    ultimately show "?Q y t" using t False by (auto simp: slot_pages_def)
  qed
  then show ?thesis using False by simp
qed

lemma freeproc_space:
  assumes ok: "slot_ok s q ps" and nest: "c_noff (mycpu s) \<noteq> 0" and tf: "p_trapframe q = 0"
  shows "wp (if p_pagetable q \<noteq> 0 then proc_freepagetable (p_pagetable q) (p_sz q) else ret ()) P s
    (\<lambda>_ t. t = remem t s \<and> (\<exists>qs. pool t qs \<and> set qs = set ps \<union> slot_pages (mem s) q)
     \<and> (\<forall>x. PGROUNDDOWN x \<notin> slot_pages (mem s) q \<longrightarrow> mem t x = mem s x))"
proof (cases "p_pagetable q = 0")
  case True
  then show ?thesis using ok tf by (auto simp: wp_ret remem_def slot_ok_def slot_pages_def)
next
  case False
  then have "proc_space s (p_pagetable q) (p_sz q) ps" using ok by (simp add: slot_ok_def)
  then show ?thesis using False tf nest
    by (auto simp: slot_pages_def dest: vm_frame_nested elim!: wp_mono [OF proc_freepagetable_spec])
qed

lemma freeproc_spec:
  assumes ok: "slot_ok s (ptable s i) ps" and nest: "c_noff (mycpu s) \<noteq> 0"
  shows "wp (freeproc i) P s (\<lambda>_ t. t = remem t (set_proc i unused s)
    \<and> (\<exists>qs. pool t qs \<and> set qs = set ps \<union> slot_pages (mem s) (ptable s i))
    \<and> (\<forall>x. PGROUNDDOWN x \<notin> slot_pages (mem s) (ptable s i) \<longrightarrow> mem t x = mem s x))"
  (is "wp _ _ _ ?Q")
  unfolding freeproc_def
proof (subst wp_bind, subst wp_gets, subst wp_bind, rule wp_mono [OF freeproc_trapframe [OF ok nest]])
  let ?q = "(ptable s i)\<lparr>p_trapframe := 0\<rparr>"
  fix y t assume t: "t = remem t s \<and> (\<exists>qs. slot_ok t ?q qs
       \<and> set qs \<union> slot_pages (mem t) ?q = set ps \<union> slot_pages (mem s) (ptable s i))
     \<and> slot_pages (mem t) ?q \<subseteq> slot_pages (mem s) (ptable s i)
     \<and> (\<forall>x. PGROUNDDOWN x \<notin> slot_pages (mem s) (ptable s i) \<longrightarrow> mem t x = mem s x)"
  then obtain qs where qs: "slot_ok t ?q qs"
    "set qs \<union> slot_pages (mem t) ?q = set ps \<union> slot_pages (mem s) (ptable s i)" by blast
  let ?f = "\<lambda>q. q\<lparr>p_trapframe := 0\<rparr>" let ?u = "set_proc i ?f t"
  let ?g = "\<lambda>q. q\<lparr>p_pagetable := 0, p_sz := 0, p_pid := 0, p_parent := None,
       p_name := (p_name q)[0 := 0], p_chan := None, p_killed := 0, p_xstate := 0, p_state := UNUSED\<rparr>"
  have ts: "t = remem t s" using t by simp
  have pt: "ptable t = ptable s" "mycpu t = mycpu s" by (subst ts, simp)+
  show "wp (bind (modify (set_proc i ?f)) (\<lambda>_.
     bind (gets (\<lambda>s. ptable s i)) (\<lambda>q.
     bind (if p_pagetable q \<noteq> 0 then proc_freepagetable (p_pagetable q) (p_sz q) else ret ()) (\<lambda>_.
     modify (set_proc i ?g))))) P t ?Q"
  proof (subst wp_bind, subst wp_modify, subst wp_bind, subst wp_gets, subst wp_bind,
      rule wp_mono [OF freeproc_space])
    show "slot_ok ?u (ptable ?u i) qs" using qs pt by simp
    show "c_noff (mycpu ?u) \<noteq> 0" using nest pt by simp
    show "p_trapframe (ptable ?u i) = 0" by simp
    fix z v assume v: "v = remem v ?u \<and> (\<exists>rs. pool v rs \<and> set rs = set qs \<union> slot_pages (mem ?u) (ptable ?u i))
     \<and> (\<forall>x. PGROUNDDOWN x \<notin> slot_pages (mem ?u) (ptable ?u i) \<longrightarrow> mem v x = mem ?u x)"
    have "set_proc i ?g (remem v (set_proc i ?f (remem t s))) = remem v (set_proc i unused s)"
      by (simp add: set_proc_def remem_def unused_def)
    then have "set_proc i ?g v = remem (set_proc i ?g v) (set_proc i unused s)" using v ts by simp
    moreover have "mem v x = mem s x" if "PGROUNDDOWN x \<notin> slot_pages (mem s) (ptable s i)" for x
      using t v that by (auto simp: pt)
    moreover have "\<exists>qs. pool (set_proc i ?g v) qs \<and> set qs = set ps \<union> slot_pages (mem s) (ptable s i)"
      using v qs by (auto simp: pt)
    ultimately show "wp (modify (set_proc i ?g)) P v ?Q" unfolding wp_modify by (simp only: set_proc_select) blast
  qed
qed

section \<open>Allocating a process\<close>

lemma allocproc_scan_eq:
  assumes "quiet s"
  shows "allocproc_scan is P s = (case find (\<lambda>i. p_state (ptable s i) = UNUSED) is of
     None \<Rightarrow> Ret None s | Some i \<Rightarrow> Ret (Some i) (acquired (ProcLock i) s))"
  using assms by (induction "is") (simp_all add: run_simps)

definition next_pid :: "'a procs_scheme \<Rightarrow> 'a procs_scheme" where
  "next_pid s = s\<lparr>nextpid := nextpid s + 1\<rparr>"

lemma neutral_next_pid [simp]: "lock_neutral next_pid"
  by (simp add: lock_neutral_def next_pid_def)

lemma next_pid_select [simp]: "mem (next_pid s) = mem s" "locks (next_pid s) = locks s" "cpus (next_pid s) = cpus s"
  "csr (next_pid s) = csr s" "kend (next_pid s) = kend s" "kmem_freelist (next_pid s) = kmem_freelist s"
  "ptable (next_pid s) = ptable s" "mycpu (next_pid s) = mycpu s"
  "sym_trampoline_start (next_pid s) = sym_trampoline_start s" "sym_forkret (next_pid s) = sym_forkret s"
  by (simp_all add: next_pid_def mycpu_def)

lemma next_pid_lock [simp]: "cpu_ok (next_pid s) = cpu_ok s" "lock_free l (next_pid s) = lock_free l s"
  by (simp_all add: next_pid_def lock_preds)

lemma allocpid_inside:
  assumes "inside l s" "l \<noteq> PidLock"
  shows "allocpid P s = Ret (nextpid s) (next_pid s)"
  using acquire_inside [OF assms(1), of PidLock P] release_inside [OF assms(1) _ neutral_next_pid, of PidLock P] assms(2)
  by (simp add: allocpid_def run_simps next_pid_def)

text \<open>An unused slot holds no memory.\<close>

definition bare_slot :: "proc \<Rightarrow> bool" where
  "bare_slot q \<longleftrightarrow> p_trapframe q = 0 \<and> p_pagetable q = 0 \<and> p_sz q = 0"

definition slots_ok :: "'a procs_scheme \<Rightarrow> bool" where
  "slots_ok s \<longleftrightarrow> (\<forall>i < NPROC. p_state (ptable s i) = UNUSED \<longrightarrow> bare_slot (ptable s i))"

text \<open>The slot of a new process.\<close>

definition new_proc :: "u32 \<Rightarrow> u32 \<Rightarrow> u32 \<Rightarrow> u32 \<Rightarrow> proc \<Rightarrow> proc" where
  "new_proc pid tf pt fr q = q\<lparr>p_pid := pid, p_state := USED, p_trapframe := tf, p_pagetable := pt,
     p_context := zero_context\<lparr>cx_lr := fr, cx_sp := p_kstack q + PGSIZE\<rparr>\<rparr>"

text \<open>What \<open>allocproc\<close> does in a quiet state: nothing if no slot is unused; otherwise the first unused
  slot is set up and its lock kept, or the memory runs out and everything taken is given back.\<close>

definition allocated :: "'a procs_scheme \<Rightarrow> u32 list \<Rightarrow> nat option \<Rightarrow> 'a procs_scheme \<Rightarrow> bool" where
  "allocated s ps r t \<longleftrightarrow> (\<forall>x. PGROUNDDOWN x \<notin> set ps \<longrightarrow> mem t x = mem s x)
   \<and> (case find (\<lambda>i. p_state (ptable s i) = UNUSED) [0..<NPROC] of
        None \<Rightarrow> r = None \<and> t = s
      | Some i \<Rightarrow>
          r = None \<and> t = remem t (set_proc i unused (next_pid s)) \<and> (\<exists>qs. pool t qs \<and> set qs = set ps)
        \<or> r = Some i \<and> (\<exists>tf pt qs. tf \<noteq> 0 \<and> pt \<noteq> 0
            \<and> t = remem t (set_proc i (new_proc (nextpid s) tf pt (sym_forkret s)) (next_pid (acquired (ProcLock i) s)))
            \<and> slot_ok t (ptable t i) qs \<and> set qs \<union> slot_pages (mem t) (ptable t i) = set ps
            \<and> leaf (mem t) pt = proc_leaf (sym_trampoline_start s) tf))"

lemma neutral_remem [simp]: "lock_neutral (\<lambda>x. remem v (set_proc i f (next_pid x)))"
  by (simp add: lock_neutral_def remem_def set_proc_def next_pid_def)

text \<open>The middle of \<open>allocproc\<close>: slot \<open>i\<close> is locked and changed by \<open>f\<close>, and owns what is missing from \<open>ps\<close>.\<close>

definition allocating :: "'a procs_scheme \<Rightarrow> u32 list \<Rightarrow> nat \<Rightarrow> (proc \<Rightarrow> proc) \<Rightarrow> u32 list \<Rightarrow> 'a procs_scheme \<Rightarrow> bool" where
  "allocating s ps i f qs u \<longleftrightarrow> u = remem u (set_proc i f (next_pid (acquired (ProcLock i) s)))
     \<and> slot_ok u (ptable u i) qs \<and> set qs \<union> slot_pages (mem u) (ptable u i) = set ps
     \<and> (\<forall>x. PGROUNDDOWN x \<notin> set ps \<longrightarrow> mem u x = mem s x)"

lemma allocating_nested:
  assumes "quiet s" "allocating s ps i f qs u"
  shows "c_noff (mycpu u) \<noteq> 0" "ptable u = (ptable s)(i := f (ptable s i))" "kend u = kend s"
    "sym_trampoline_start u = sym_trampoline_start s" "sym_forkret u = sym_forkret s"
proof -
  have u: "u = remem u (set_proc i f (next_pid (acquired (ProcLock i) s)))" using assms(2) by (simp add: allocating_def)
  have "mycpu u = mycpu (acquired (ProcLock i) s)" by (subst u) simp
  then show "c_noff (mycpu u) \<noteq> 0" using assms(1) by (simp add: cpu_ok_def quiet_def)
  show "ptable u = (ptable s)(i := f (ptable s i))" "kend u = kend s"
    "sym_trampoline_start u = sym_trampoline_start s" "sym_forkret u = sym_forkret s"
    by (subst u, simp add: remem_def set_proc_def next_pid_def)+
qed

text \<open>Giving the slot up again.\<close>

lemma release_slot:
  assumes q: "quiet s" and a: "allocating s ps i f qs u"
  shows "wp (bind (freeproc i) (\<lambda>_. release (ProcLock i))) P u (\<lambda>_ t.
    t = remem t (set_proc i (\<lambda>q. unused (f q)) (next_pid s)) \<and> (\<exists>qs. pool t qs \<and> set qs = set ps)
    \<and> (\<forall>x. PGROUNDDOWN x \<notin> set ps \<longrightarrow> mem t x = mem s x))" (is "wp _ _ _ ?Q")
proof (subst wp_bind, rule wp_mono [OF freeproc_spec])
  note n = allocating_nested [OF q a]
  show "slot_ok u (ptable u i) qs" using a by (simp add: allocating_def)
  show "c_noff (mycpu u) \<noteq> 0" by (rule n)
  have sub: "slot_pages (mem u) (ptable u i) \<subseteq> set ps" using a by (auto simp: allocating_def)
  fix y v assume v: "v = remem v (set_proc i unused u)
    \<and> (\<exists>rs. pool v rs \<and> set rs = set qs \<union> slot_pages (mem u) (ptable u i))
    \<and> (\<forall>x. PGROUNDDOWN x \<notin> slot_pages (mem u) (ptable u i) \<longrightarrow> mem v x = mem u x)"
  let ?F = "\<lambda>x. remem v (set_proc i (\<lambda>q. unused (f q)) (next_pid x))"
  have u: "u = remem u (set_proc i f (next_pid (acquired (ProcLock i) s)))" using a by (simp add: allocating_def)
  have "set_proc i unused u = set_proc i unused (remem u (set_proc i f (next_pid (acquired (ProcLock i) s))))"
    using u by (rule arg_cong)
  also have "\<dots> = remem u (set_proc i (\<lambda>q. unused (f q)) (next_pid (acquired (ProcLock i) s)))"
    by (simp add: set_proc_def remem_def)
  finally have vf: "v = ?F (acquired (ProcLock i) s)" using v by simp
  have vk: "kend v = kend s" by (subst vf) simp
  have "release (ProcLock i) P v = Ret () (?F s)"
    by (subst vf, rule release_quiet [OF q]) simp
  moreover have "pool (?F s) rs" if "pool v rs" for rs
    by (rule pool_cong [OF _ _ _ _ that]) (use q quiet_neutral [of ?F s] in \<open>simp_all add: vk\<close>)
  moreover have "mem v x = mem s x" if "PGROUNDDOWN x \<notin> set ps" for x
    using v a that sub by (auto simp: allocating_def)
  ultimately show "wp (release (ProcLock i)) P v ?Q"
    using v a by (auto simp: wp_Ret allocating_def)
qed

lemma allocproc_fail_spec:
  assumes q: "quiet s" and a: "allocating s ps i f qs u" and f: "unused (f (ptable s i)) = unused (ptable s i)"
    and i: "find (\<lambda>i. p_state (ptable s i) = UNUSED) [0..<NPROC] = Some i"
  shows "wp (allocproc_fail i) P u (allocated s ps)"
proof -
  have e: "set_proc i (\<lambda>q. unused (f q)) (next_pid s) = set_proc i unused (next_pid s)" by (simp add: set_proc_def f)
  have "wp (bind (freeproc i) (\<lambda>_. release (ProcLock i))) P u (\<lambda>_ t. allocated s ps None t)"
    by (rule wp_mono [OF release_slot [OF q a]]) (simp add: allocated_def i e)
  then show ?thesis by (simp add: allocproc_fail_def wp_rules)
qed

lemma slot_ok_cong:
  assumes "mem t = mem s" "kmem_freelist t = kmem_freelist s" "kend t = kend s" "lock_ok KmemLock t" "slot_ok s q ps"
  shows "slot_ok t q ps"
proof -
  have p: "pool t rs" if "pool s rs" for rs using pool_cong [OF assms(1-4) that] .
  show ?thesis using assms(1,3,5) p by (auto simp: slot_ok_def proc_space_def owns_def vm_inv_def)
qed

lemma new_slot_ok:
  assumes pl: "pool s (tf # ps)" and n: "new_pagetable tf u ps tr pt t" and k: "kend t = kend s" and tf: "tf \<noteq> 0"
    and q: "p_trapframe q = tf" "p_pagetable q = pt" "p_sz q = 0"
  shows "\<exists>qs. slot_ok t q qs \<and> set qs \<union> slot_pages (mem t) q = set (tf # ps)"
proof -
  have d: "tf \<notin> set ps" "page_ok (kend t) tf" using pl k by (auto simp: pool_def free_list_def)
  obtain qs where qs: "if pt = 0 then pool t qs \<and> set qs = set ps
      else owns t pt user_va qs \<and> set qs \<union> pt_pages (mem t) pt = set ps \<and> leaf (mem t) pt = proc_leaf tr tf"
    using n by (auto simp: new_pagetable_def)
  have sp: "space_pages (mem t) pt 0 = pt_pages (mem t) pt"
    by (simp add: space_pages_def range_pages_def npg_def)
  have "proc_space t pt 0 qs" if "pt \<noteq> 0"
    using qs that by (auto simp: proc_space_def proc_leaf_def map_range_page trap_va_def trap_pages split: if_splits)
  then have "slot_ok t q qs \<and> set qs \<union> slot_pages (mem t) q = set (tf # ps)"
    using qs d q tf sp by (auto simp: slot_ok_def slot_pages_def split: if_splits)
  then show ?thesis by blast
qed

lemma allocproc_table:
  assumes q: "quiet s" and pl: "pool s (tf # ps)" and tf: "tf \<noteq> 0" and b: "bare_slot (ptable s i)"
    and a: "allocating s (tf # ps) i (\<lambda>q. q\<lparr>p_pid := pid, p_state := USED, p_trapframe := tf\<rparr>) ps u"
    and pu: "pool u ps"
  shows "wp (proc_pagetable i) P u (\<lambda>pt t. \<exists>qs.
    allocating s (tf # ps) i (\<lambda>q. q\<lparr>p_pid := pid, p_state := USED, p_trapframe := tf, p_pagetable := pt\<rparr>) qs
      (set_proc i (\<lambda>q. q\<lparr>p_pagetable := pt\<rparr>) t) \<and> (pt \<noteq> 0 \<longrightarrow> leaf (mem t) pt = proc_leaf (sym_trampoline_start s) tf))"
proof (rule wp_mono [OF proc_pagetable_spec [OF pu]])
  let ?f = "\<lambda>q. q\<lparr>p_pid := pid, p_state := USED, p_trapframe := tf\<rparr>"
  note n = allocating_nested [OF q a]
  fix pt t assume "new_pagetable (p_trapframe (ptable u i)) u ps (sym_trampoline_start u) pt t"
  then have t: "new_pagetable tf u ps (sym_trampoline_start s) pt t" by (simp add: n)
  have "vm_frame u t" using t by (simp add: new_pagetable_def)
  then have tu: "t = remem t u" using n(1) vm_frame_nested by blast
  let ?g = "\<lambda>q. q\<lparr>p_pid := pid, p_state := USED, p_trapframe := tf, p_pagetable := pt\<rparr>"
  let ?v = "set_proc i (\<lambda>q. q\<lparr>p_pagetable := pt\<rparr>) t"
  have u: "u = remem u (set_proc i ?f (next_pid (acquired (ProcLock i) s)))" using a by (simp add: allocating_def)
  have "?v = set_proc i (\<lambda>q. q\<lparr>p_pagetable := pt\<rparr>) (remem t (remem u (set_proc i ?f (next_pid (acquired (ProcLock i) s)))))"
    using tu u by (metis (no_types))
  also have "\<dots> = remem t (set_proc i ?g (next_pid (acquired (ProcLock i) s)))"
    by (simp add: set_proc_def remem_def)
  finally have v: "?v = remem ?v (set_proc i ?g (next_pid (acquired (ProcLock i) s)))" by simp
  have tk: "kend t = kend s" "ptable t = ptable u" by (subst tu, simp add: n)+
  have "\<exists>qs. slot_ok t (ptable ?v i) qs \<and> set qs \<union> slot_pages (mem t) (ptable ?v i) = set (tf # ps)"
    using b by (intro new_slot_ok [OF pl t tk(1) tf]) (simp_all add: tk n bare_slot_def)
  then have "\<exists>qs. slot_ok ?v (ptable ?v i) qs \<and> set qs \<union> slot_pages (mem ?v) (ptable ?v i) = set (tf # ps)" by simp
  moreover have "mem ?v x = mem s x" if "PGROUNDDOWN x \<notin> set (tf # ps)" for x
    using t a that by (auto simp: new_pagetable_def allocating_def)
  moreover have "leaf (mem t) pt = proc_leaf (sym_trampoline_start s) tf" if "pt \<noteq> 0"
    using t that by (auto simp: new_pagetable_def)
  ultimately show "\<exists>qs. allocating s (tf # ps) i ?g qs ?v \<and> (pt \<noteq> 0 \<longrightarrow> leaf (mem t) pt = proc_leaf (sym_trampoline_start s) tf)"
    unfolding allocating_def using v by blast
qed

text \<open>The trap frame: the slot after \<open>kalloc\<close>, with what was first on the free list, or with a null pointer.\<close>

lemma allocproc_kalloc:
  fixes s :: "'a procs_scheme" and pid :: u32
  assumes q: "quiet s" and pl: "pool s ps" and b: "bare_slot (ptable s i)"
  defines "u \<equiv> set_proc i (\<lambda>q. q\<lparr>p_pid := pid, p_state := USED\<rparr>) (next_pid (acquired (ProcLock i) s))"
  shows "wp kalloc P u (\<lambda>tf t. let v = set_proc i (\<lambda>q. q\<lparr>p_trapframe := tf\<rparr>) t; rs = tl ps in
    tf = (if ps = [] then 0 else hd ps) \<and> (ps \<noteq> [] \<longrightarrow> tf \<noteq> 0) \<and> pool v rs
    \<and> allocating s ps i (\<lambda>q. q\<lparr>p_pid := pid, p_state := USED, p_trapframe := tf\<rparr>) rs v)"
proof -
  let ?f = "\<lambda>tf q. q\<lparr>p_pid := pid, p_state := USED, p_trapframe := tf\<rparr>"
  have nest: "c_noff (mycpu u) \<noteq> 0" using q by (simp add: u_def cpu_ok_def quiet_def)
  have su: "settle u = u" using nest by (simp add: settle_nested)
  have cu: "mem u = mem s" "kmem_freelist u = kmem_freelist s" "kend u = kend s" "ptable u i = (ptable s i)\<lparr>p_pid := pid, p_state := USED\<rparr>"
    by (simp_all add: u_def)
  have "lock_ok KmemLock (acquired (ProcLock i) s)" using q inside_lock(1) [OF inside_acquired] by blast
  then have "lock_ok KmemLock u" by (simp add: u_def lock_ok_def)
  then have pu: "pool u ps" using pool_cong [OF cu(1-3) _ pl] by simp
  let ?set = "\<lambda>tf. set_proc i (\<lambda>q. q\<lparr>p_trapframe := tf\<rparr>)"
  have e: "?set tf w = remem (?set tf w) (set_proc i (?f tf) (next_pid (acquired (ProcLock i) s)))"
    if "w = u\<lparr>kmem_freelist := l\<rparr>" for tf l w
    unfolding that by (simp add: u_def remem_def set_proc_def next_pid_def)
  show ?thesis
  proof (cases ps)
    case Nil
    then have "kalloc P u = Ret 0 u" using pu kalloc_empty [of u P] su by (simp add: pool_def)
    moreover have "allocating s ps i (?f 0) [] (?set 0 u)"
      unfolding allocating_def
      by (intro conjI e [of _ "kmem_freelist u"])
        (use b pu Nil cu in \<open>simp_all add: slot_ok_def slot_pages_def bare_slot_def\<close>)
    ultimately show ?thesis using Nil pu by (simp add: wp_Ret)
  next
    case (Cons tf rs)
    have k: "kalloc P u = Ret tf (taken tf u)" "pool (taken tf u) rs" "tf \<noteq> 0" "page_ok (kend s) tf" "tf \<notin> set rs"
      using pu kalloc_page [of u tf rs] page_ok_nonzero cu by (auto simp: Cons pool_def free_list_def taken_def)
    have tk: "taken tf u = u\<lparr>kmem_freelist := load32 (mem u) tf\<rparr>" by (simp add: taken_def su)
    have "ptable (taken tf u) = ptable u" by (simp add: tk)
    then have "allocating s ps i (?f tf) rs (?set tf (taken tf u))"
      unfolding allocating_def
      by (intro conjI e [OF tk]) (use b k(2-) Cons cu in \<open>auto simp: slot_ok_def slot_pages_def bare_slot_def\<close>)
    then show ?thesis using k Cons by (simp add: wp_Ret)
  qed
qed

lemma slot_context: "slot_ok s (q\<lparr>p_context := c\<rparr>) ps = slot_ok s q ps" "slot_pages m (q\<lparr>p_context := c\<rparr>) = slot_pages m q"
  by (simp_all add: slot_ok_def slot_pages_def)

lemma allocproc_done:
  fixes s :: "'a procs_scheme"
  assumes q: "quiet s" and tf: "tf \<noteq> 0" and pt: "pt \<noteq> 0"
    and a: "allocating s ps i (\<lambda>q. q\<lparr>p_pid := nextpid s, p_state := USED, p_trapframe := tf, p_pagetable := pt\<rparr>) qs u"
    and l: "leaf (mem u) pt = proc_leaf (sym_trampoline_start s) tf"
    and i: "find (\<lambda>i. p_state (ptable s i) = UNUSED) [0..<NPROC] = Some i"
  shows "allocated s ps (Some i) (set_proc i (\<lambda>q. q\<lparr>p_context :=
               zero_context\<lparr>cx_lr := sym_forkret u, cx_sp := p_kstack q + PGSIZE\<rparr>\<rparr>) u)"
proof -
  let ?c = "\<lambda>q. q\<lparr>p_context := zero_context\<lparr>cx_lr := sym_forkret s, cx_sp := p_kstack q + PGSIZE\<rparr>\<rparr>"
  let ?f = "\<lambda>q. q\<lparr>p_pid := nextpid s, p_state := USED, p_trapframe := tf, p_pagetable := pt\<rparr>"
  let ?v = "set_proc i ?c u"
  note n = allocating_nested [OF q a]
  have u: "u = remem u (set_proc i ?f (next_pid (acquired (ProcLock i) s)))" using a by (simp add: allocating_def)
  have "?v = set_proc i ?c (remem u (set_proc i ?f (next_pid (acquired (ProcLock i) s))))"
    using u by (rule arg_cong)
  also have "\<dots> = remem u (set_proc i (new_proc (nextpid s) tf pt (sym_forkret s)) (next_pid (acquired (ProcLock i) s)))"
    by (simp add: set_proc_def remem_def new_proc_def)
  finally have v: "?v = remem ?v (set_proc i (new_proc (nextpid s) tf pt (sym_forkret s)) (next_pid (acquired (ProcLock i) s)))"
    by simp
  have "slot_ok u (ptable u i) qs" "set qs \<union> slot_pages (mem u) (ptable u i) = set ps"
    "\<forall>x. PGROUNDDOWN x \<notin> set ps \<longrightarrow> mem u x = mem s x" using a by (simp_all add: allocating_def)
  then have "slot_ok ?v (ptable ?v i) qs" "set qs \<union> slot_pages (mem ?v) (ptable ?v i) = set ps"
    "\<forall>x. PGROUNDDOWN x \<notin> set ps \<longrightarrow> mem ?v x = mem s x" "leaf (mem ?v) pt = proc_leaf (sym_trampoline_start s) tf"
    using l by (simp_all only: slot_ok_set_proc set_proc_select fun_upd_same slot_context)
  then have "allocated s ps (Some i) ?v" unfolding allocated_def i option.case using v tf pt by blast
  then show ?thesis by (simp add: n)
qed

lemma allocproc_finish:
  assumes q: "quiet s" and pl: "pool s ps" and b: "bare_slot (ptable s i)" and pu: "pool u (tl ps)"
    and a: "allocating s ps i (\<lambda>q. q\<lparr>p_pid := nextpid s, p_state := USED, p_trapframe := tf\<rparr>) (tl ps) u"
    and tf: "tf = (if ps = [] then 0 else hd ps)" "ps \<noteq> [] \<longrightarrow> tf \<noteq> 0"
    and i: "find (\<lambda>i. p_state (ptable s i) = UNUSED) [0..<NPROC] = Some i"
  shows "wp (if tf = 0 then allocproc_fail i
         else
           bind (proc_pagetable i) (\<lambda>pt.
           bind (modify (set_proc i (\<lambda>q. q\<lparr>p_pagetable := pt\<rparr>))) (\<lambda>_.
           if pt = 0 then allocproc_fail i
           else
             bind (gets sym_forkret) (\<lambda>fr.
             bind (modify (set_proc i (\<lambda>q. q\<lparr>p_context :=
               zero_context\<lparr>cx_lr := fr, cx_sp := p_kstack q + PGSIZE\<rparr>\<rparr>))) (\<lambda>_.
             ret (Some i)))))) P u (allocated s ps)"
proof (cases "ps = []")
  case True
  then show ?thesis using allocproc_fail_spec [OF q a _ i] tf(1) by (simp add: unused_def)
next
  case False
  let ?f = "\<lambda>pt q. q\<lparr>p_pid := nextpid s, p_state := USED, p_trapframe := tf, p_pagetable := pt\<rparr>"
  have ps: "ps = tf # tl ps" "tf \<noteq> 0" using False tf by simp_all
  show ?thesis
  proof (simp only: ps(2) if_False, subst wp_bind, rule wp_mono [OF allocproc_table [OF q _ ps(2) b]])
    show "pool s (tf # tl ps)" "pool u (tl ps)" using pl pu ps by simp_all
    show "allocating s (tf # tl ps) i (\<lambda>q. q\<lparr>p_pid := nextpid s, p_state := USED, p_trapframe := tf\<rparr>) (tl ps) u"
      using a ps by simp
    fix pt t assume "\<exists>qs. allocating s (tf # tl ps) i (?f pt) qs (set_proc i (\<lambda>q. q\<lparr>p_pagetable := pt\<rparr>) t)
      \<and> (pt \<noteq> 0 \<longrightarrow> leaf (mem t) pt = proc_leaf (sym_trampoline_start s) tf)"
    then obtain qs where t: "allocating s ps i (?f pt) qs (set_proc i (\<lambda>q. q\<lparr>p_pagetable := pt\<rparr>) t)"
      "pt \<noteq> 0 \<longrightarrow> leaf (mem t) pt = proc_leaf (sym_trampoline_start s) tf" using ps by auto
    show "wp (bind (modify (set_proc i (\<lambda>q. q\<lparr>p_pagetable := pt\<rparr>))) (\<lambda>_.
           if pt = 0 then allocproc_fail i
           else
             bind (gets sym_forkret) (\<lambda>fr.
             bind (modify (set_proc i (\<lambda>q. q\<lparr>p_context :=
               zero_context\<lparr>cx_lr := fr, cx_sp := p_kstack q + PGSIZE\<rparr>\<rparr>))) (\<lambda>_.
             ret (Some i))))) P t (allocated s ps)"
    proof (cases "pt = 0")
      case True
      then show ?thesis using allocproc_fail_spec [OF q t(1) _ i] by (simp add: wp_rules unused_def)
    next
      case False
      then show ?thesis using allocproc_done [OF q ps(2) False t(1) _ i] t(2) by (simp add: wp_rules)
    qed
  qed
qed

lemma allocproc_spec:
  assumes q: "quiet s" and pl: "pool s ps" and ok: "slots_ok s"
  shows "wp allocproc P s (allocated s ps)"
proof (cases "find (\<lambda>i. p_state (ptable s i) = UNUSED) [0..<NPROC]")
  case None
  then show ?thesis using q by (simp add: allocproc_def wp_rules wp_Ret allocproc_scan_eq allocated_def)
next
  case (Some i)
  let ?a = "acquired (ProcLock i) s"
  have b: "bare_slot (ptable s i)" using Some ok by (auto simp: find_Some_iff slots_ok_def)
  have "allocpid P ?a = Ret (nextpid s) (next_pid ?a)" using q by (simp add: allocpid_inside [where l = "ProcLock i"])
  then have pid: "wp allocpid P ?a Q = Q (nextpid s) (next_pid ?a)" for Q by (simp add: wp_def)
  have scan: "wp (allocproc_scan [0..<NPROC]) P s Q = Q (Some i) ?a" for Q
    using q Some by (simp add: allocproc_scan_eq wp_def)
  show ?thesis unfolding allocproc_def
  proof (simp only: wp_bind [of "allocproc_scan _"] wp_bind [of allocpid] wp_bind [of kalloc] wp_bind [of "modify _"] scan option.case pid wp_modify, rule wp_mono [OF allocproc_kalloc [OF q pl b]])
    fix tf t assume "let v = set_proc i (\<lambda>q. q\<lparr>p_trapframe := tf\<rparr>) t; rs = tl ps in
      tf = (if ps = [] then 0 else hd ps) \<and> (ps \<noteq> [] \<longrightarrow> tf \<noteq> 0) \<and> pool v rs
      \<and> allocating s ps i (\<lambda>q. q\<lparr>p_pid := nextpid s, p_state := USED, p_trapframe := tf\<rparr>) rs v"
    then show "wp (if tf = 0 then allocproc_fail i
         else
           bind (proc_pagetable i) (\<lambda>pt.
           bind (modify (set_proc i (\<lambda>q. q\<lparr>p_pagetable := pt\<rparr>))) (\<lambda>_.
           if pt = 0 then allocproc_fail i
           else
             bind (gets sym_forkret) (\<lambda>fr.
             bind (modify (set_proc i (\<lambda>q. q\<lparr>p_context :=
               zero_context\<lparr>cx_lr := fr, cx_sp := p_kstack q + PGSIZE\<rparr>\<rparr>))) (\<lambda>_.
             ret (Some i)))))) P (set_proc i (\<lambda>q. q\<lparr>p_trapframe := tf\<rparr>) t) (allocated s ps)"
      unfolding Let_def by (elim conjE) (rule allocproc_finish [OF q pl b _ _ _ _ Some])
  qed
qed


text \<open>Process 0 running on a machine with two free pages.\<close>

definition run2 :: procs where
  "run2 = run0\<lparr>mem := mem kmem2, kmem_freelist := kmem_freelist kmem2, kend := kend kmem2\<rparr>"

lemma run2_ok: "quiet run2" "pool run2 [0x03E7D000, 0x03E7C000]" "slots_ok run2"
  "find (\<lambda>i. p_state (ptable run2 i) = UNUSED) [0..<NPROC] = Some 1"
proof -
  show q: "quiet run2" using quiet_run0 quiet_cong [of run2 run0] by (simp add: run2_def)
  show "pool run2 [0x03E7D000, 0x03E7C000]"
    using pool_cong [OF _ _ _ _ pool_kmem2, of run2] quiet_lock(1) [OF q] by (simp add: run2_def)
  show "slots_ok run2" by (simp add: slots_ok_def run2_def bare_slot_def proc0_def)
  show "find (\<lambda>i. p_state (ptable run2 i) = UNUSED) [0..<NPROC] = Some 1"
    by (simp add: run2_def NPROC_def upt_conv_Cons proc0_def)
qed


text \<open>C18: A slot that is allocated and freed again leaves nothing behind: no lock is held, the same
  pages are free, no slot but the one used has changed, and that one is unused and holds no memory
  (its saved kernel context is the only trace).\<close>

theorem allocproc_freeproc:
  assumes "quiet s" "pool s ps" "slots_ok s"
  shows "wp (bind allocproc (\<lambda>r. case r of None \<Rightarrow> ret ()
      | Some i \<Rightarrow> bind (freeproc i) (\<lambda>_. release (ProcLock i)))) P s
    (\<lambda>_ t. quiet t \<and> slots_ok t \<and> (\<exists>qs. pool t qs \<and> set qs = set ps)
      \<and> (\<forall>i. ptable t i = ptable s i
          \<or> p_state (ptable s i) = UNUSED \<and> ptable t i = (unused (ptable s i))\<lparr>p_context := p_context (ptable t i)\<rparr>))"
  (is "wp _ _ _ ?Q")
proof (subst wp_bind, rule wp_mono [OF allocproc_spec [OF assms]])
  have freed: "?Q x t" if t: "t = remem t (set_proc i (\<lambda>q. unused (f q)) (next_pid s))"
    and p: "\<exists>qs. pool t qs \<and> set qs = set ps" and u: "p_state (ptable s i) = UNUSED"
    and f: "\<exists>c. unused (f (ptable s i)) = (unused (ptable s i))\<lparr>p_context := c\<rparr>" for x :: unit and t i f
  proof -
    have e: "csr t = csr s" "cpus t = cpus s" "locks t = locks s" "ptable t = (ptable s)(i := unused (f (ptable s i)))"
      by (subst t, simp)+
    obtain c where c: "unused (f (ptable s i)) = (unused (ptable s i))\<lparr>p_context := c\<rparr>" using f by blast
    show ?thesis using assms(1,3) p u quiet_cong [OF e(1-3)]
      by (simp add: slots_ok_def bare_slot_def e(4) c) (simp add: unused_def)
  qed
  fix r t assume a: "allocated s ps r t"
  show "wp (case r of None \<Rightarrow> ret () | Some i \<Rightarrow> bind (freeproc i) (\<lambda>_. release (ProcLock i))) P t ?Q"
  proof (cases "find (\<lambda>i. p_state (ptable s i) = UNUSED) [0..<NPROC]")
    case None
    then show ?thesis using a assms by (auto simp: allocated_def wp_ret)
  next
    case (Some i)
    then have u: "p_state (ptable s i) = UNUSED" by (auto simp: find_Some_iff)
    show ?thesis
    proof (cases r)
      case None
      have "\<exists>c. unused (ptable s i) = (unused (ptable s i))\<lparr>p_context := c\<rparr>"
        by (rule exI [where x = "p_context (ptable s i)"]) (simp add: unused_def)
      then show ?thesis using freed [of t i "\<lambda>q. q"] u a Some None by (simp add: allocated_def wp_ret)
    next
      case (Some j)
      obtain tf pt qs where al: "allocating s ps i (new_proc (nextpid s) tf pt (sym_forkret s)) qs t" and j: "j = i"
        using a \<open>find _ _ = Some i\<close> Some by (auto simp: allocated_def allocating_def)
      have "\<exists>c. unused (new_proc (nextpid s) tf pt (sym_forkret s) (ptable s i)) = (unused (ptable s i))\<lparr>p_context := c\<rparr>"
        by (intro exI [where x = "zero_context\<lparr>cx_lr := sym_forkret s, cx_sp := p_kstack (ptable s i) + PGSIZE\<rparr>"])
          (simp add: new_proc_def unused_def)
      then have "wp (bind (freeproc i) (\<lambda>_. release (ProcLock i))) P t ?Q"
        by (intro wp_mono [OF release_slot [OF assms(1) al]]) (rule freed [OF _ _ u], auto)
      then show ?thesis using Some j by simp
    qed
  qed
qed

theorem allocproc_freeproc_witness:
  "wp (bind allocproc (\<lambda>r. case r of None \<Rightarrow> ret ()
      | Some i \<Rightarrow> bind (freeproc i) (\<lambda>_. release (ProcLock i)))) bare run2
    (\<lambda>_ t. quiet t \<and> (\<exists>qs. pool t qs \<and> set qs = {0x03E7D000, 0x03E7C000}))"
  by (rule wp_mono [OF allocproc_freeproc [OF run2_ok(1-3)]]) simp

end
