(* ===== verification/ProcWait.thy ===== *)
theory ProcWait
  imports ProcMem
begin

text \<open>
  Waiting for children and scheduling: \<open>kwait\<close> reaps the first zombie child and gives its memory
  back, and the scheduler runs every runnable process.
\<close>

section \<open>Waiting\<close>

definition zombie_of :: "nat \<Rightarrow> 'a procs_scheme \<Rightarrow> nat \<Rightarrow> bool" where
  "zombie_of p s i \<longleftrightarrow> p_parent (ptable s i) = Some p \<and> p_state (ptable s i) = ZOMBIE"

lemma neutral_remem_unused [simp]: "lock_neutral (\<lambda>x. remem v (set_proc i f x))"
  by (simp add: lock_neutral_def remem_def set_proc_def)

text \<open>The result of a scan that meets a zombie child: its slot is unused and its pages are free.\<close>

definition reaped :: "'a procs_scheme \<Rightarrow> u32 list \<Rightarrow> nat \<Rightarrow> 'a procs_scheme \<Rightarrow> bool" where
  "reaped s ps i t \<longleftrightarrow> t = remem t (set_proc i unused s)
     \<and> (\<exists>qs. pool t qs \<and> set qs = set ps \<union> slot_pages (mem s) (ptable s i))
     \<and> (\<forall>x. PGROUNDDOWN x \<notin> slot_pages (mem s) (ptable s i) \<longrightarrow> mem t x = mem s x)"

lemma reap_one:
  assumes q: "quiet s" and ok: "slot_ok s (ptable s i) ps"
  shows "wp (bind (freeproc i) (\<lambda>_. bind (release (ProcLock i)) (\<lambda>_. bind (release WaitLock) (\<lambda>_. ret x))))
    P (acquired (ProcLock i) (acquired WaitLock s)) (\<lambda>r t. r = x \<and> reaped s ps i t)"
proof (subst wp_bind, rule wp_mono [OF freeproc_spec])
  let ?a = "acquired WaitLock s" let ?b = "acquired (ProcLock i) ?a"
  have ia: "inside WaitLock ?a" using q by simp
  have nb: "c_noff (mycpu ?b) \<noteq> 0" using ia by (simp add: inside_def cpu_ok_def)
  then show "c_noff (mycpu ?b) \<noteq> 0" .
  have "lock_ok KmemLock ?a" using inside_lock(1) [OF ia] by simp
  then have "lock_ok KmemLock ?b" using ia by (simp add: lock_ok_def inside_def)
  then show "slot_ok ?b (ptable ?b i) ps" using slot_ok_cong [OF _ _ _ _ ok, of ?b] by simp
  fix y v assume v: "v = remem v (set_proc i unused ?b)
    \<and> (\<exists>rs. pool v rs \<and> set rs = set ps \<union> slot_pages (mem ?b) (ptable ?b i))
    \<and> (\<forall>x. PGROUNDDOWN x \<notin> slot_pages (mem ?b) (ptable ?b i) \<longrightarrow> mem v x = mem ?b x)"
  let ?F = "\<lambda>x. remem v (set_proc i unused x)"
  have vf: "v = ?F ?b" using v by blast
  have r1: "release (ProcLock i) P v = Ret () (?F ?a)" by (subst vf, rule release_inside [OF ia]) simp_all
  have r2: "release WaitLock P (?F ?a) = Ret () (?F s)" by (rule release_quiet [OF q]) simp
  have "kend v = kend s" by (subst vf) simp
  then have "pool (?F s) rs" if "pool v rs" for rs
    by (intro pool_cong [OF _ _ _ _ that]) (use q quiet_neutral [of ?F s] in simp_all)
  then have "reaped s ps i (?F s)" using v by (auto simp: reaped_def)
  then show "wp (bind (release (ProcLock i)) (\<lambda>_. bind (release WaitLock) (\<lambda>_. ret x))) P v (\<lambda>r t. r = x \<and> reaped s ps i t)"
    using r1 r2 by (simp add: wp_bind wp_Ret wp_ret)
qed

lemma kwait_scan_Cons:
  "kwait_scan p 0 (i # is) kids =
     bind (gets (\<lambda>s. p_parent (ptable s i))) (\<lambda>par.
     if par = Some p
     then
       bind (acquire (ProcLock i)) (\<lambda>_.
       bind (gets (\<lambda>s. ptable s i)) (\<lambda>q.
       if p_state q = ZOMBIE
       then
         bind (freeproc i) (\<lambda>_. bind (release (ProcLock i)) (\<lambda>_. bind (release WaitLock) (\<lambda>_. ret (Inl (p_pid q)))))
       else bind (release (ProcLock i)) (\<lambda>_. kwait_scan p 0 is True)))
     else kwait_scan p 0 is kids)"
  by (rule ext)+ (auto intro!: bind_cong)

lemma kwait_scan_spec:
  assumes q: "quiet s" and ok: "\<And>i. find (zombie_of p s) is = Some i \<Longrightarrow> slot_ok s (ptable s i) ps"
  shows "wp (kwait_scan p 0 is kids) P (acquired WaitLock s) (\<lambda>r t.
    case find (zombie_of p s) is of
      Some i \<Rightarrow> r = Inl (p_pid (ptable s i)) \<and> reaped s ps i t
    | None \<Rightarrow> r = Inr (kids \<or> (\<exists>i \<in> set is. p_parent (ptable s i) = Some p)) \<and> t = acquired WaitLock s)"
  using ok
proof (induction "is" arbitrary: kids)
  case Nil
  then show ?case by (simp add: wp_ret)
next
  case (Cons i js)
  let ?a = "acquired WaitLock s"
  have ia: "inside WaitLock ?a" using q by simp
  have acq: "acquire (ProcLock i) P ?a = Ret () (acquired (ProcLock i) ?a)" using acquire_inside [OF ia] by simp
  have rel: "release (ProcLock i) P (acquired (ProcLock i) ?a) = Ret () ?a"
    using release_inside [OF ia _ neutral_id] by simp
  show ?case
  proof (cases "p_parent (ptable s i) = Some p")
    case False
    then have "\<not> zombie_of p s i" by (simp add: zombie_of_def)
    then show ?thesis unfolding kwait_scan_Cons wp_bind wp_gets wp_if using Cons False by (simp cong: option.case_cong)
  next
    case child: True
    show ?thesis
    proof (cases "p_state (ptable s i) = ZOMBIE")
      case True
      then have z: "zombie_of p s i" using child by (simp add: zombie_of_def)
      then have "slot_ok s (ptable s i) ps" using Cons.prems by simp
      from reap_one [OF q this, where x = "Inl (p_pid (ptable s i))" and P = P] show ?thesis
        unfolding kwait_scan_Cons wp_bind wp_gets wp_if using child True z acq by (simp add: wp_Ret)
    next
      case False
      then have "\<not> zombie_of p s i" by (simp add: zombie_of_def)
      then show ?thesis unfolding kwait_scan_Cons wp_bind wp_gets wp_if
        using child False acq rel Cons.IH [of True] Cons.prems by (simp add: wp_Ret cong: option.case_cong)
    qed
  qed
qed

lemma kwait_loop_eq:
  assumes "wp (kwait_scan p 0 [0..<NPROC] False) P s Q"
  shows "\<exists>r t. Q r t \<and> kwait_loop (Suc n) p 0 P s =
     (case r of Inl x \<Rightarrow> Ret x t
      | Inr kids \<Rightarrow> bind (if kids then killed p else ret 1) (\<lambda>k.
          if k \<noteq> 0 then bind (release WaitLock) (\<lambda>_. ret (-1))
          else bind (sleep (Some (ProcChan p)) WaitLock) (\<lambda>_. kwait_loop n p 0)) P t)"
proof -
  obtain r t where "kwait_scan p 0 [0..<NPROC] False P s = Ret r t" "Q r t" using assms by (auto simp: wp_iff)
  then show ?thesis by (intro exI [of _ r] exI [of _ t]) (simp add: ret_apply split: sum.splits)
qed


text \<open>Process 0 has a zombie child in slot 1 whose trap frame is its only page.\<close>

definition zrun :: procs where
  "zrun = run2\<lparr>ptable := (ptable run0)(1 := proc0\<lparr>p_state := ZOMBIE, p_pid := 7, p_parent := Some 0, p_trapframe := 0x30000\<rparr>)\<rparr>"


section \<open>Scheduling\<close>

text \<open>The state in which the scheduler switches to process \<open>i\<close>.\<close>

definition dispatched :: "nat \<Rightarrow> 'a procs_scheme \<Rightarrow> 'a procs_scheme" where
  "dispatched i s = set_mycpu (\<lambda>c. c\<lparr>c_proc := Some i\<rparr>)
     (set_proc i (\<lambda>q. q\<lparr>p_state := RUNNING\<rparr>) (acquired (ProcLock i) s))"

text \<open>What a process owes the scheduler when it switches back: its lock is the only one held, at
  depth one with interrupts off, as \<open>sched\<close> checks; and it has not stopped another process that
  was waiting to run, which only the scheduler does.\<close>

definition yields :: "nat \<Rightarrow> 'a procs_scheme \<Rightarrow> 'a procs_scheme \<Rightarrow> bool" where
  "yields i h u \<longleftrightarrow> inside (ProcLock i) u \<and> held (ProcLock i) u \<and> c_noff (mycpu u) = 1
     \<and> (\<forall>j. j \<noteq> i \<and> p_state (ptable h j) = RUNNABLE \<longrightarrow> p_state (ptable u j) = RUNNABLE)"

definition fair :: "'a procs_scheme platform \<Rightarrow> bool" where
  "fair P \<longleftrightarrow> (\<forall>r \<in> set (resume P). \<forall>i s. quiet s \<and> c_noff (mycpu s) = 0 \<longrightarrow> yields i (dispatched i s) (r (dispatched i s)))"

text \<open>The rest of a scan after the switch to process \<open>i\<close>.\<close>

definition after_switch :: "nat \<Rightarrow> nat list \<Rightarrow> ('a procs_scheme, bool) op" where
  "after_switch i is =
     bind swtch (\<lambda>_.
     bind (modify (set_mycpu (\<lambda>c. c\<lparr>c_proc := None\<rparr>))) (\<lambda>_.
     bind (release (ProcLock i)) (\<lambda>_.
     scheduler_scan is True)))"

lemma scan_idle:
  "quiet s \<Longrightarrow> p_state (ptable s i) \<noteq> RUNNABLE \<Longrightarrow> scheduler_scan (i # is) found P s = scheduler_scan is found P s"
  by (simp add: run_simps)

lemma scan_run:
  assumes "quiet s" "p_state (ptable s i) = RUNNABLE"
  shows "scheduler_scan (i # is) found P s = after_switch i is P (dispatched i s)"
  using assms by (simp add: run_simps after_switch_def dispatched_def bind_assoc)

text \<open>The lock of the process is released with interrupts as they were saved.\<close>

lemma c_proc_select [simp]:
  "held l (set_mycpu (\<lambda>c. c\<lparr>c_proc := b\<rparr>) s) = held l s" "cpu_ok (set_mycpu (\<lambda>c. c\<lparr>c_proc := b\<rparr>) s) = cpu_ok s"
  "lock_free l (set_mycpu (\<lambda>c. c\<lparr>c_proc := b\<rparr>) s) = lock_free l s"
  "c_noff (mycpu (set_mycpu (\<lambda>c. c\<lparr>c_proc := b\<rparr>) s)) = c_noff (mycpu s)"
  "c_proc (mycpu (set_mycpu (\<lambda>c. c\<lparr>c_proc := b\<rparr>) s)) = b"
  "swtches (set_mycpu f s) = swtches s"
  by (simp_all add: set_mycpu_def mycpu_def held_def lock_free_def cpu_ok_def ie_def)

lemma quiet_unlocked:
  assumes "inside l s" "held l s" "c_noff (mycpu s) = 1"
  shows "quiet (unlocked l s)"
proof -
  have "\<not> ie s" using assms by (simp add: inside_def cpu_ok_def)
  moreover have "(x OR STATUS_IE) AND STATUS_IE \<noteq> 0" for x :: u32
    by (simp add: STATUS_IE_def bit.conj_disj_distrib2)
  ultimately have "ie (unlocked l s) = c_intena (mycpu s)"
    using assms(3) by (simp add: unlocked_def popped_def Let_def set_lock_def mycpu_def ie_def)
  then show ?thesis using assms unfolding quiet_def inside_def
    by (metis cpu_ok_def diff_self less_irrefl order_refl unlocked_select(4,6,7,9))
qed

lemma after_switch_eq:
  fixes i :: nat
  assumes s: "quiet s" "c_noff (mycpu s) = 0" and P: "fair P" "swtches s < length (resume P)"
  defines "r \<equiv> (resume P ! swtches s) (dispatched i s)"
  defines "u \<equiv> unlocked (ProcLock i) (set_mycpu (\<lambda>c. c\<lparr>c_proc := None\<rparr>) (r\<lparr>swtches := Suc (swtches s)\<rparr>))"
  shows "after_switch i is P (dispatched i s) = scheduler_scan is True P u"
    "quiet u" "c_noff (mycpu u) = 0" "swtches u = Suc (swtches s)" "c_proc (mycpu u) = None"
    "j \<noteq> i \<Longrightarrow> p_state (ptable s j) = RUNNABLE \<Longrightarrow> p_state (ptable u j) = RUNNABLE"
proof -
  let ?v = "set_mycpu (\<lambda>c. c\<lparr>c_proc := None\<rparr>) (r\<lparr>swtches := Suc (swtches s)\<rparr>)"
  have y: "yields i (dispatched i s) r" using P s by (simp add: fair_def r_def)
  then have v: "inside (ProcLock i) ?v" "held (ProcLock i) ?v" "c_noff (mycpu ?v) = 1"
    by (simp_all add: yields_def inside_def)
  show "quiet u" unfolding u_def by (rule quiet_unlocked [OF v])
  show "c_noff (mycpu u) = 0" "c_proc (mycpu u) = None" "swtches u = Suc (swtches s)"
    using v by (simp_all add: u_def)
  have "swtches (dispatched i s) = swtches s" by (simp add: dispatched_def)
  then have "swtch P (dispatched i s) = Ret () (r\<lparr>swtches := Suc (swtches s)\<rparr>)"
    using P(2) by (simp add: swtch_def r_def)
  moreover have "release (ProcLock i) P ?v = Ret () u"
    using release_eq [OF v(2), of P] v by (simp add: u_def inside_def)
  ultimately show "after_switch i is P (dispatched i s) = scheduler_scan is True P u"
    by (simp add: after_switch_def)
  show "p_state (ptable u j) = RUNNABLE" if "j \<noteq> i" "p_state (ptable s j) = RUNNABLE"
    using y that by (simp add: u_def yields_def dispatched_def)
qed

lemma scan_reaches:
  assumes "quiet s" "c_noff (mycpu s) = 0" "fair P" "p_state (ptable s j) = RUNNABLE" "j \<notin> set is"
    "swtches s + length is < length (resume P)"
  shows "\<exists>u found'. quiet u \<and> c_noff (mycpu u) = 0 \<and> p_state (ptable u j) = RUNNABLE
    \<and> scheduler_scan (is @ j # js) found P s = scheduler_scan (j # js) found' P u"
  using assms(1,2,4-6)
proof (induction "is" arbitrary: s found)
  case Nil
  then show ?case by auto
next
  case (Cons i "is")
  show ?case
  proof (cases "p_state (ptable s i) = RUNNABLE")
    case True
    note a = after_switch_eq [where i = i, OF Cons.prems(1,2) assms(3)]
    let ?u = "unlocked (ProcLock i) (set_mycpu (\<lambda>c. c\<lparr>c_proc := None\<rparr>)
      ((resume P ! swtches s) (dispatched i s)\<lparr>swtches := Suc (swtches s)\<rparr>))"
    have u: "quiet ?u" "c_noff (mycpu ?u) = 0" "swtches ?u = Suc (swtches s)" "p_state (ptable ?u j) = RUNNABLE"
      using a(2-4,6) Cons.prems by auto
    have e: "scheduler_scan ((i # is) @ j # js) found P s = scheduler_scan (is @ j # js) True P ?u"
      using scan_run [OF Cons.prems(1) True, of "is @ j # js" found P] a(1) Cons.prems by (simp del: scheduler_scan.simps)
    show ?thesis unfolding e by (rule Cons.IH) (use u Cons.prems in auto)
  next
    case False
    then show ?thesis using scan_idle [OF Cons.prems(1) False, of "is @ j # js" found P] Cons by (simp del: scheduler_scan.simps)
  qed
qed

text \<open>A scan starts by taking a lock, which saves the interrupt state.\<close>

lemma scan_settle:
  assumes "cpu_ok s" "lock_free (ProcLock i) s"
  shows "scheduler_scan (i # is) found P s = scheduler_scan (i # is) found P (settle s)"
proof -
  have "acquire (ProcLock i) P s = acquire (ProcLock i) P (settle s)"
    using assms by (simp add: acquire_ok acquired_def)
  then show ?thesis by (simp add: bind_def)
qed

lemma quiet_settle: "cpu_ok s \<Longrightarrow> (\<And>l. lock_free l s) \<Longrightarrow> quiet (settle s)"
  by (simp add: quiet_def settle_def set_mycpu_def mycpu_def cpu_ok_def ie_def lock_free_def)

text \<open>C20: Every runnable process gets the CPU in the current round. Started with no lock held, on
  a platform where the processes it runs return the CPU the way \<open>sched\<close> does, the scheduler
  switches to process \<open>j\<close> before its scan ends if \<open>j\<close> was runnable when the scan began, whatever the
  processes before it do: it then marks it running and makes it the CPU's process, holding its lock.\<close>

theorem scheduler_runs:
  fixes s :: "'a procs_scheme"
  assumes s: "cpu_ok s" "c_noff (mycpu s) = 0" "\<And>l. lock_free l s"
    and P: "fair P" "swtches s + NPROC \<le> length (resume P)"
    and j: "j < NPROC" "p_state (ptable s j) = RUNNABLE"
  shows "\<exists>u. quiet u \<and> p_state (ptable u j) = RUNNABLE
    \<and> held (ProcLock j) (dispatched j u) \<and> p_state (ptable (dispatched j u) j) = RUNNING
    \<and> c_proc (mycpu (dispatched j u)) = Some j
    \<and> scheduler (Suc n) P s = bind (after_switch j [Suc j..<NPROC]) (\<lambda>found.
        bind (if \<not> found then mmio_w REG_WFI 0 else ret ()) (\<lambda>_. scheduler_rounds n)) P (dispatched j u)"
proof -
  define t where "t = (set_mycpu (\<lambda>c. c\<lparr>c_proc := None\<rparr>) s)\<lparr>csr := (csr s)(REG_STATUS := csr s REG_STATUS OR STATUS_IE)\<rparr>"
  have on: "intr_on P (set_mycpu (\<lambda>c. c\<lparr>c_proc := None\<rparr>) s) = Ret () t"
    by (simp add: intr_on_def mmio_r_def mmio_w_def reg_defs set_mycpu_def t_def)
  have t: "cpu_ok t" "lock_free l t" "c_noff (mycpu t) = 0" "ptable t = ptable s" "swtches t = swtches s" for l
    using s by (simp_all add: cpu_ok_def set_mycpu_def mycpu_def lock_free_def t_def)
  have split: "[0..<NPROC] = [0..<j] @ j # [Suc j..<NPROC]"
    using upt_add_eq_append [of 0 j "NPROC - j"] j(1) by (simp add: upt_conv_Cons)
  have ne: "[0..<NPROC] = 0 # [1..<NPROC]" by (simp add: NPROC_def upt_conv_Cons)
  have start: "scheduler_scan [0..<NPROC] False P t = scheduler_scan [0..<NPROC] False P (settle t)"
    unfolding ne by (rule scan_settle [OF t(1,2)])
  have "\<exists>u found. quiet u \<and> c_noff (mycpu u) = 0 \<and> p_state (ptable u j) = RUNNABLE
      \<and> scheduler_scan ([0..<j] @ j # [Suc j..<NPROC]) False P (settle t) = scheduler_scan (j # [Suc j..<NPROC]) found P u"
    by (rule scan_reaches [OF quiet_settle [OF t(1,2)] _ P(1)]) (use t P j in simp_all)
  then obtain u found where u: "quiet u" "c_noff (mycpu u) = 0" "p_state (ptable u j) = RUNNABLE"
    "scheduler_scan [0..<NPROC] False P t = scheduler_scan (j # [Suc j..<NPROC]) found P u"
    using start unfolding split by (elim exE conjE) metis
  have run: "scheduler_scan [0..<NPROC] False P t = after_switch j [Suc j..<NPROC] P (dispatched j u)"
    unfolding u(4) by (rule scan_run [OF u(1,3)])
  have "scheduler (Suc n) P s = bind (scheduler_scan [0..<NPROC] False) (\<lambda>found.
        bind (if \<not> found then mmio_w REG_WFI 0 else ret ()) (\<lambda>_. scheduler_rounds n)) P t"
    using on by (simp add: scheduler_def)
  then have "scheduler (Suc n) P s = bind (after_switch j [Suc j..<NPROC]) (\<lambda>found.
        bind (if \<not> found then mmio_w REG_WFI 0 else ret ()) (\<lambda>_. scheduler_rounds n)) P (dispatched j u)"
    using run by (simp add: bind_def)
  moreover have "held (ProcLock j) (dispatched j u)" "p_state (ptable (dispatched j u) j) = RUNNING"
    "c_proc (mycpu (dispatched j u)) = Some j" using u by (simp_all add: dispatched_def)
  ultimately show ?thesis using u by blast
qed

text \<open>A platform on which every process goes to sleep at once.\<close>

definition sleepy :: "procs platform" where
  "sleepy = bare\<lparr>resume := replicate 64 (\<lambda>h. case c_proc (mycpu h) of None \<Rightarrow> h
     | Some i \<Rightarrow> set_proc i (\<lambda>q. q\<lparr>p_state := SLEEPING\<rparr>) h)\<rparr>"

lemma fair_sleepy: "fair sleepy"
  unfolding fair_def
proof (intro ballI allI impI)
  fix r i and s :: procs assume r: "r \<in> set (resume sleepy)" and s: "quiet s \<and> c_noff (mycpu s) = 0"
  have "c_proc (mycpu (dispatched i s)) = Some i" by (simp add: dispatched_def)
  then have e: "r (dispatched i s) = set_proc i (\<lambda>q. q\<lparr>p_state := SLEEPING\<rparr>) (dispatched i s)"
    using r by (auto simp: sleepy_def)
  have "inside (ProcLock i) (acquired (ProcLock i) s)" using s by simp
  then show "yields i (dispatched i s) (r (dispatched i s))"
    unfolding e yields_def using s by (simp add: inside_def dispatched_def)
qed

theorem scheduler_runs_witness:
  "let s = run0\<lparr>ptable := (\<lambda>_. proc0\<lparr>p_state := RUNNABLE\<rparr>)\<rparr> in
   \<exists>u. quiet u \<and> c_proc (mycpu (dispatched 5 u)) = Some 5
    \<and> scheduler 1 sleepy s = bind (after_switch 5 [Suc 5..<NPROC]) (\<lambda>found.
        bind (if \<not> found then mmio_w REG_WFI 0 else ret ()) (\<lambda>_. scheduler_rounds 0)) sleepy (dispatched 5 u)"
proof -
  let ?s = "run0\<lparr>ptable := (\<lambda>_. proc0\<lparr>p_state := RUNNABLE\<rparr>)\<rparr>"
  have m: "mycpu ?s = mycpu run0" by (simp add: mycpu_def)
  have q: "cpu_ok ?s" "c_noff (mycpu ?s) = 0" "lock_free l ?s" for l
    unfolding cpu_ok_def m by (simp_all add: cpu0_def lock_free_def)
  from scheduler_runs [OF q fair_sleepy, of 5 0] show ?thesis
    by (auto simp: Let_def sleepy_def NPROC_def)
qed

end
