(* ===== verification/Sh.thy ===== *)
theory Sh
  imports Uprintf
begin

text \<open>
  The shell, \<open>user/sh.c\<close>: the recursive-descent parser, the tree it builds, and the processes \<open>runcmd\<close>
  starts. The command line is an array; a pointer into it is an index, and the parser's \<open>*ps\<close> is
  threaded through. A \<open>panic\<close> while parsing is the error \<open>Inl\<close> with its message. The parsing functions
  call each other in a cycle, so they take fuel; \<open>None\<close> is fuel that ran out, and the termination theorem
  says how much is enough. Memory for the nodes is never exhausted: the code does not check
  what \<open>malloc\<close> returns.
\<close>

section \<open>Commands\<close>

definition MAXARGS :: nat where "MAXARGS = 10"

text \<open>The arguments of a command and the file of a redirection are the indices of the first character and
  of the end.\<close>

datatype cmd =
    EXEC "(nat \<times> nat) list"
  | REDIR cmd nat nat int int
  | PIPE cmd cmd
  | LIST cmd cmd
  | BACK cmd

definition execcmd :: cmd where "execcmd = EXEC []"

definition redircmd :: "cmd \<Rightarrow> nat \<Rightarrow> nat \<Rightarrow> int \<Rightarrow> int \<Rightarrow> cmd" where
  "redircmd subcmd file efile mode fd = REDIR subcmd file efile mode fd"

definition pipecmd :: "cmd \<Rightarrow> cmd \<Rightarrow> cmd" where "pipecmd left right = PIPE left right"

definition listcmd :: "cmd \<Rightarrow> cmd \<Rightarrow> cmd" where "listcmd left right = LIST left right"

definition backcmd :: "cmd \<Rightarrow> cmd" where "backcmd subcmd = BACK subcmd"

section \<open>Tokens\<close>

definition whitespace :: "u8 list" where "whitespace = [32, 9, 13, 10, 11]"

definition symbols :: "u8 list" where "symbols = cs ''<|>&;()''"

abbreviation is_space :: "u8 \<Rightarrow> bool" where "is_space c \<equiv> ustrchr whitespace 0 c \<noteq> None"
abbreviation is_symbol :: "u8 \<Rightarrow> bool" where "is_symbol c \<equiv> ustrchr symbols 0 c \<noteq> None"

function skip_space :: "u8 list \<Rightarrow> nat \<Rightarrow> nat \<Rightarrow> nat" where
  "skip_space buf es s = (if s < es \<and> is_space (ch buf s) then skip_space buf es (s + 1) else s)"
  by auto
termination by (relation "measure (\<lambda>(buf, es, s). es - s)") auto

function skip_word :: "u8 list \<Rightarrow> nat \<Rightarrow> nat \<Rightarrow> nat" where
  "skip_word buf es s =
     (if s < es \<and> \<not> is_space (ch buf s) \<and> \<not> is_symbol (ch buf s) then skip_word buf es (s + 1) else s)"
  by auto
termination by (relation "measure (\<lambda>(buf, es, s). es - s)") auto

declare skip_space.simps [simp del] skip_word.simps [simp del]

text \<open>The token, where it starts and ends, and where the next one starts.\<close>

definition gettoken :: "u8 list \<Rightarrow> nat \<Rightarrow> nat \<Rightarrow> u8 \<times> nat \<times> nat \<times> nat" where
  "gettoken buf es ps =
     (let s = skip_space buf es ps; q = s; c = ch buf s;
          (r, s) =
            (if c = 0 then (c, s)
             else if c \<in> set (cs ''|();&<'') then (c, s + 1)
             else if c = of_char CHR ''>'' then (if ch buf (s + 1) = of_char CHR ''>'' then (of_char CHR ''+'', s + 2) else (c, s + 1))
             else (of_char CHR ''a'', skip_word buf es s)) in
      (r, q, s, skip_space buf es s))"

definition peek :: "u8 list \<Rightarrow> nat \<Rightarrow> nat \<Rightarrow> u8 list \<Rightarrow> bool \<times> nat" where
  "peek buf es ps toks =
     (let s = skip_space buf es ps in (ch buf s \<noteq> 0 \<and> ustrchr toks 0 (ch buf s) \<noteq> None, s))"

section \<open>The parser\<close>

datatype perr = Message string | Leftovers "u8 list"

type_synonym 'a parsed = "(perr + 'a) option"

definition pbind :: "'a parsed \<Rightarrow> ('a \<Rightarrow> 'b parsed) \<Rightarrow> 'b parsed" where
  "pbind m f = (case m of None \<Rightarrow> None | Some (Inl e) \<Rightarrow> Some (Inl e) | Some (Inr x) \<Rightarrow> f x)"

definition pret :: "'a \<Rightarrow> 'a parsed" where "pret x = Some (Inr x)"

definition ppanic :: "string \<Rightarrow> 'a parsed" where "ppanic msg = Some (Inl (Message msg))"

fun parseredirs :: "nat \<Rightarrow> u8 list \<Rightarrow> nat \<Rightarrow> cmd \<Rightarrow> nat \<Rightarrow> (cmd \<times> nat) parsed" where
  "parseredirs 0 buf es cmd ps = None"
| "parseredirs (Suc fuel) buf es cmd ps =
     (case peek buf es ps (cs ''<>'') of (b, ps) \<Rightarrow>
      if \<not> b then pret (cmd, ps)
      else case gettoken buf es ps of (tok, _, _, ps) \<Rightarrow>
        case gettoken buf es ps of (tok2, q, eq, ps) \<Rightarrow>
          if tok2 \<noteq> of_char CHR ''a'' then ppanic ''missing file for redirection''
          else parseredirs fuel buf es
            (if tok = of_char CHR ''<'' then redircmd cmd q eq O_RDONLY 0
             else if tok = of_char CHR ''>'' then redircmd cmd q eq (or O_WRONLY (or O_CREATE O_TRUNC)) 1
             else if tok = of_char CHR ''+'' then redircmd cmd q eq (or O_WRONLY O_CREATE) 1
             else cmd) ps)"

text \<open>The update of the \<open>execcmd\<close> node through the pointer that \<open>parseexec\<close> keeps, below the
  redirections that have been wrapped around it.\<close>

fun set_argv :: "(nat \<times> nat) list \<Rightarrow> cmd \<Rightarrow> cmd" where
  "set_argv argv (EXEC _) = EXEC argv"
| "set_argv argv (REDIR c file efile mode fd) = REDIR (set_argv argv c) file efile mode fd"
| "set_argv argv c = c"

fun parseargs :: "nat \<Rightarrow> u8 list \<Rightarrow> nat \<Rightarrow> (nat \<times> nat) list \<Rightarrow> cmd \<Rightarrow> nat \<Rightarrow> (cmd \<times> nat) parsed" where
  "parseargs 0 buf es argv cmd ps = None"
| "parseargs (Suc fuel) buf es argv cmd ps =
     (case peek buf es ps (cs ''|)&;'') of (b, ps) \<Rightarrow>
      if b then pret (set_argv argv cmd, ps)
      else case gettoken buf es ps of (tok, q, eq, ps) \<Rightarrow>
        if tok = 0 then pret (set_argv argv cmd, ps)
        else if tok \<noteq> of_char CHR ''a'' then ppanic ''syntax''
        else if MAXARGS \<le> length argv + 1 then ppanic ''too many args''
        else pbind (parseredirs fuel buf es cmd ps) (\<lambda>(cmd, ps). parseargs fuel buf es (argv @ [(q, eq)]) cmd ps))"

fun parsebacks :: "nat \<Rightarrow> u8 list \<Rightarrow> nat \<Rightarrow> cmd \<Rightarrow> nat \<Rightarrow> (cmd \<times> nat) parsed" where
  "parsebacks 0 buf es cmd ps = None"
| "parsebacks (Suc fuel) buf es cmd ps =
     (case peek buf es ps (cs ''&'') of (b, ps) \<Rightarrow>
      if \<not> b then pret (cmd, ps)
      else case gettoken buf es ps of (_, _, _, ps) \<Rightarrow> parsebacks fuel buf es (backcmd cmd) ps)"

function (sequential) parseline :: "nat \<Rightarrow> u8 list \<Rightarrow> nat \<Rightarrow> nat \<Rightarrow> (cmd \<times> nat) parsed"
  and parsepipe :: "nat \<Rightarrow> u8 list \<Rightarrow> nat \<Rightarrow> nat \<Rightarrow> (cmd \<times> nat) parsed"
  and parseexec :: "nat \<Rightarrow> u8 list \<Rightarrow> nat \<Rightarrow> nat \<Rightarrow> (cmd \<times> nat) parsed"
  and parseblock :: "nat \<Rightarrow> u8 list \<Rightarrow> nat \<Rightarrow> nat \<Rightarrow> (cmd \<times> nat) parsed" where
  "parseline 0 buf es ps = None"
| "parseline (Suc fuel) buf es ps =
     pbind (parsepipe fuel buf es ps) (\<lambda>(cmd, ps).
     pbind (parsebacks fuel buf es cmd ps) (\<lambda>(cmd, ps).
     case peek buf es ps (cs '';'') of (b, ps) \<Rightarrow>
     if b
     then
       case gettoken buf es ps of (_, _, _, ps) \<Rightarrow>
       pbind (parseline fuel buf es ps) (\<lambda>(right, ps). pret (listcmd cmd right, ps))
     else pret (cmd, ps)))"
| "parsepipe 0 buf es ps = None"
| "parsepipe (Suc fuel) buf es ps =
     pbind (parseexec fuel buf es ps) (\<lambda>(cmd, ps).
     case peek buf es ps (cs ''|'') of (b, ps) \<Rightarrow>
     if b
     then
       case gettoken buf es ps of (_, _, _, ps) \<Rightarrow>
       pbind (parsepipe fuel buf es ps) (\<lambda>(right, ps). pret (pipecmd cmd right, ps))
     else pret (cmd, ps))"
| "parseexec 0 buf es ps = None"
| "parseexec (Suc fuel) buf es ps =
     (case peek buf es ps (cs ''('') of (b, ps) \<Rightarrow>
      if b then parseblock fuel buf es ps
      else pbind (parseredirs fuel buf es execcmd ps) (\<lambda>(cmd, ps). parseargs fuel buf es [] cmd ps))"
| "parseblock 0 buf es ps = None"
| "parseblock (Suc fuel) buf es ps =
     (case peek buf es ps (cs ''('') of (b, ps) \<Rightarrow>
      if \<not> b then ppanic ''parseblock''
      else case gettoken buf es ps of (_, _, _, ps) \<Rightarrow>
        pbind (parseline fuel buf es ps) (\<lambda>(cmd, ps).
        case peek buf es ps (cs '')'') of (b, ps) \<Rightarrow>
        if \<not> b then ppanic ''syntax - missing )''
        else case gettoken buf es ps of (_, _, _, ps) \<Rightarrow> parseredirs fuel buf es cmd ps))"
  by pat_completeness auto
termination by (relation "measure (case_sum (case_sum fst fst) (case_sum fst fst))") simp_all

fun nulterminate :: "cmd \<Rightarrow> u8 list \<Rightarrow> u8 list" where
  "nulterminate (EXEC argv) buf = fold (\<lambda>(q, eq) buf. buf[eq := 0]) argv buf"
| "nulterminate (REDIR c file efile mode fd) buf = (nulterminate c buf)[efile := 0]"
| "nulterminate (PIPE l r) buf = nulterminate r (nulterminate l buf)"
| "nulterminate (LIST l r) buf = nulterminate r (nulterminate l buf)"
| "nulterminate (BACK c) buf = nulterminate c buf"

text \<open>The line that \<open>parsecmd\<close> is given, without its terminator; the result is the tree and the array with the
  words terminated. Text left over is an error of its own, reported before the panic.\<close>

definition parsecmd :: "nat \<Rightarrow> u8 list \<Rightarrow> (cmd \<times> u8 list) parsed" where
  "parsecmd fuel line =
     (let buf = line @ [0]; es = length line in
      pbind (parseline fuel buf es 0) (\<lambda>(cmd, s).
      case peek buf es s [] of (_, s) \<Rightarrow>
      if s \<noteq> es then Some (Inl (Leftovers (drop s line))) else pret (cmd, nulterminate cmd buf)))"

section \<open>Running commands\<close>

definition sh_panic :: "u8 list \<Rightarrow> ('w, 'a) user" where
  "sh_panic s = ubind (fprintf 2 (cs ''%s'' @ [10]) [Str (Some s)]) (\<lambda>_. u_exit 1)"

definition fork1 :: "('w, int) user" where
  "fork1 = ubind u_fork (\<lambda>pid. if pid = -1 then sh_panic (cs ''fork'') else val pid)"

definition word_at :: "u8 list \<Rightarrow> nat \<Rightarrow> u8 list" where
  "word_at buf q = takeWhile (\<lambda>c. c \<noteq> 0) (drop q buf)"

fun runcmd :: "u8 list \<Rightarrow> cmd \<Rightarrow> ('w, int) user" where
  "runcmd buf (EXEC argv) =
     (if argv = [] then u_exit 1
      else
        (let av = map (\<lambda>(q, eq). word_at buf q) argv in
         ubind (u_exec (hd av) av) (\<lambda>_.
         ubind (fprintf 2 (cs ''exec %s failed'' @ [10]) [Str (Some (hd av))]) (\<lambda>_.
         u_exit 0))))"
| "runcmd buf (REDIR c file efile mode fd) =
     ubind (u_close fd) (\<lambda>_.
     ubind (u_open (word_at buf file) mode) (\<lambda>r.
     if r < 0
     then ubind (fprintf 2 (cs ''open %s failed'' @ [10]) [Str (Some (word_at buf file))]) (\<lambda>_. u_exit 1)
     else runcmd buf c))"
| "runcmd buf (LIST l r) =
     ubind fork1 (\<lambda>pid.
     if pid = 0 then runcmd buf l
     else ubind u_wait (\<lambda>_. runcmd buf r))"
| "runcmd buf (PIPE l r) =
     ubind u_pipe (\<lambda>(e, p0, p1).
     if e < 0 then sh_panic (cs ''pipe'')
     else
       ubind fork1 (\<lambda>pid.
       if pid = 0
       then
         ubind (u_close 1) (\<lambda>_. ubind (u_dup p1) (\<lambda>_. ubind (u_close p0) (\<lambda>_. ubind (u_close p1) (\<lambda>_.
         runcmd buf l))))
       else
         ubind fork1 (\<lambda>pid.
         if pid = 0
         then
           ubind (u_close 0) (\<lambda>_. ubind (u_dup p0) (\<lambda>_. ubind (u_close p0) (\<lambda>_. ubind (u_close p1) (\<lambda>_.
           runcmd buf r))))
         else
           ubind (u_close p0) (\<lambda>_. ubind (u_close p1) (\<lambda>_. ubind u_wait (\<lambda>_. ubind u_wait (\<lambda>_.
           u_exit 0)))))))"
| "runcmd buf (BACK c) =
     ubind fork1 (\<lambda>pid. if pid = 0 then runcmd buf c else u_exit 0)"

section \<open>The main loop\<close>

definition getcmd :: "nat \<Rightarrow> ('w, int \<times> u8 list) user" where
  "getcmd nbuf =
     ubind (u_write 2 (cs ''$ '')) (\<lambda>_.
     ubind (ugets (umemset (replicate nbuf 0) 0 0 nbuf) nbuf) (\<lambda>buf.
     val (if ch buf 0 = 0 then -1 else 0, buf)))"

fun sh_open_fds :: "nat \<Rightarrow> ('w, unit) user" where
  "sh_open_fds 0 = u_spin"
| "sh_open_fds (Suc fuel) =
     ubind (u_open (cs ''console'') O_RDWR) (\<lambda>fd.
     if 0 \<le> fd
     then (if 3 \<le> fd then ubind (u_close fd) (\<lambda>_. val ()) else sh_open_fds fuel)
     else val ())"

definition sh_command :: "nat \<Rightarrow> u8 list \<Rightarrow> ('w, unit) user" where
  "sh_command fuel cmd =
     (if ch cmd 0 = 10 then val ()
      else if ch cmd 0 = of_char CHR ''c'' \<and> ch cmd 1 = of_char CHR ''d'' \<and> ch cmd 2 = 32
      then
        (let dir = drop 3 (butlast cmd) in
         ubind (u_chdir dir) (\<lambda>r.
         if r < 0 then fprintf 2 (cs ''cannot cd %s'' @ [10]) [Str (Some dir)] else val ()))
      else
        ubind fork1 (\<lambda>pid.
        if pid = 0
        then
          (case parsecmd fuel cmd of
             None \<Rightarrow> u_spin
           | Some (Inl (Message msg)) \<Rightarrow> sh_panic (cs msg)
           | Some (Inl (Leftovers s)) \<Rightarrow>
               ubind (fprintf 2 (cs ''leftovers: %s'' @ [10]) [Str (Some s)]) (\<lambda>_. sh_panic (cs ''syntax''))
           | Some (Inr (c, buf)) \<Rightarrow> ubind (runcmd buf c) (\<lambda>_. val ()))
        else ubind u_wait (\<lambda>_. val ())))"

fun sh_loop :: "nat \<Rightarrow> ('w, int) user" where
  "sh_loop 0 = u_spin"
| "sh_loop (Suc fuel) =
     ubind (getcmd 100) (\<lambda>(r, buf).
     if 0 \<le> r
     then
       ubind (sh_command 1000 (dropWhile (\<lambda>c. c = 32 \<or> c = 9) (word_at buf 0))) (\<lambda>_.
       sh_loop fuel)
     else u_exit 0)"

definition sh_main :: "nat \<Rightarrow> ('w, int) user" where
  "sh_main fuel = ubind (sh_open_fds fuel) (\<lambda>_. sh_loop fuel)"

end
