(* ===== verification/ShProps.thy ===== *)
theory ShProps
  imports Sh
begin

text \<open>
  The shell's parser: it terminates on every line, and the tree it returns is well-formed, with every word
  readable through its pointer after \<open>nulterminate\<close>.
\<close>

section \<open>Tokens\<close>

definition wordc :: "u8 \<Rightarrow> bool" where
  "wordc c \<longleftrightarrow> c \<noteq> 0 \<and> \<not> is_space c \<and> \<not> is_symbol c"

text \<open>A word of the line: characters of words, followed by something else.\<close>

definition is_word :: "u8 list \<Rightarrow> nat \<times> nat \<Rightarrow> bool" where
  "is_word buf w \<longleftrightarrow> fst w < snd w \<and> snd w < length buf \<and> (\<forall>i. fst w \<le> i \<and> i < snd w \<longrightarrow> wordc (ch buf i)) \<and> \<not> wordc (ch buf (snd w))"

lemma skip_space_bounds: "s \<le> skip_space buf es s \<and> (s \<le> es \<longrightarrow> skip_space buf es s \<le> es)
  \<and> (skip_space buf es s < es \<longrightarrow> \<not> is_space (ch buf (skip_space buf es s)))"
proof (induction buf es s rule: skip_space.induct)
  case (1 buf es s)
  show ?case
  proof (cases "s < es \<and> is_space (ch buf s)")
    case True
    have "skip_space buf es s = skip_space buf es (s + 1)" by (subst skip_space.simps) (rule if_P [OF True])
    then show ?thesis using 1 [OF True] True by auto
  next
    case False
    have "skip_space buf es s = s" by (subst skip_space.simps) (rule if_not_P [OF False])
    then show ?thesis using False by auto
  qed
qed

lemma skip_word_bounds: "s \<le> skip_word buf es s \<and> (s \<le> es \<longrightarrow> skip_word buf es s \<le> es)
  \<and> (\<forall>i. s \<le> i \<and> i < skip_word buf es s \<longrightarrow> \<not> is_space (ch buf i) \<and> \<not> is_symbol (ch buf i))
  \<and> (skip_word buf es s < es \<longrightarrow> is_space (ch buf (skip_word buf es s)) \<or> is_symbol (ch buf (skip_word buf es s)))"
proof (induction buf es s rule: skip_word.induct)
  case (1 buf es s)
  show ?case
  proof (cases "s < es \<and> \<not> is_space (ch buf s) \<and> \<not> is_symbol (ch buf s)")
    case True
    have "skip_word buf es s = skip_word buf es (s + 1)" by (subst skip_word.simps) (rule if_P [OF True])
    then show ?thesis using 1 [OF True] True by (metis Suc_eq_plus1 Suc_leD Suc_le_eq le_eq_less_or_eq)
  next
    case False
    have "skip_word buf es s = s" by (subst skip_word.simps) (rule if_not_P [OF False])
    then show ?thesis using False by auto
  qed
qed

text \<open>A line in its array.\<close>

definition a_line :: "u8 list \<Rightarrow> nat \<Rightarrow> bool" where
  "a_line buf es \<longleftrightarrow> length buf = es + 1 \<and> buf ! es = 0 \<and> (\<forall>i < es. buf ! i \<noteq> 0)"

lemma a_line_ch: "a_line buf es \<Longrightarrow> ch buf es = 0" "a_line buf es \<Longrightarrow> i < es \<Longrightarrow> ch buf i \<noteq> 0"
  "a_line buf es \<Longrightarrow> ch buf i \<noteq> 0 \<Longrightarrow> i < es"
  by (auto simp: a_line_def ch_def less_Suc_eq split: if_splits)

lemma char_codes: "cs ''|();&<'' = [124, 40, 41, 59, 38, 60]" "of_char CHR ''>'' = (62 :: u8)" "of_char CHR ''+'' = (43 :: u8)"
  "of_char CHR ''a'' = (97 :: u8)" "of_char CHR ''<'' = (60 :: u8)" "symbols = [60, 124, 62, 38, 59, 40, 41]"
  "cs ''<>'' = [60, 62]" "cs ''|)&;'' = [124, 41, 38, 59]" "cs ''&'' = [38]" "cs '';'' = [59]" "cs ''|'' = [124]" "cs ''('' = [40]" "cs '')'' = [41]"
  by (simp_all add: symbols_def cs_def of_char_def)

lemma symbol_iff: "is_symbol c \<longleftrightarrow> c \<in> {60, 124, 62, 38, 59, 40, 41}"
  by (simp add: char_codes ustrchr.simps [of "[60, 124, 62, 38, 59, 40, 41]"] ch_def)

text \<open>A token other than the end of the line moves the parser forward; one of class \<open>a\<close> is a word.\<close>

lemma gettoken_progress:
  assumes "a_line buf es" "ps \<le> es" "gettoken buf es ps = (tok, q, eq, ps')"
  shows "ps' \<le> es" "tok \<noteq> 0 \<Longrightarrow> ps < ps'" "ps \<le> ps'" "tok = of_char CHR ''a'' \<Longrightarrow> is_word buf (q, eq)"
    "skip_space buf es ps < es \<Longrightarrow> ps < ps'"
proof -
  let ?s = "skip_space buf es ps" let ?c = "ch buf ?s"
  note sp = skip_space_bounds [of _ buf es]
  have s: "ps \<le> ?s" "?s \<le> es" using sp [of ps] assms(2) by auto
  have end_le: "eq \<le> ps'" "eq \<le> es \<Longrightarrow> ps' \<le> es" if "ps' = skip_space buf es eq" using sp [of eq] that by auto
  have "q = ?s \<and> ps' = skip_space buf es eq \<and> ?s \<le> eq \<and> eq \<le> es \<and> (tok \<noteq> 0 \<longrightarrow> ?s < eq) \<and> (tok = 0 \<longrightarrow> ?s = es) \<and> (tok = 97 \<longrightarrow> is_word buf (q, eq))"
  proof (cases "?c = 0")
    case True
    then have "?s = es" using a_line_ch(2) [OF assms(1)] s(2) by (meson le_neq_implies_less)
    then show ?thesis using assms(3) True s by (auto simp: gettoken_def Let_def)
  next
    case False
    then have lt: "?s < es" by (rule a_line_ch(3) [OF assms(1)])
    have nsp: "\<not> is_space ?c" using sp [of ps] lt by blast
    consider "?c \<in> {124, 40, 41, 59, 38, 60}" | "?c = 62" | "\<not> is_symbol ?c" unfolding symbol_iff by blast
    then show ?thesis
    proof cases
      case 1 then show ?thesis using assms(3) False lt by (auto simp: gettoken_def Let_def char_codes)
    next
      case 2
      have "?s + 1 < es" if "ch buf (?s + 1) = 62" using that by (intro a_line_ch(3) [OF assms(1)]) simp
      then show ?thesis using assms(3) 2 lt by (auto simp: gettoken_def Let_def char_codes split: if_splits)
    next
      case 3
      let ?e = "skip_word buf es ?s"
      have "?c \<notin> {60, 124, 62, 38, 59, 40, 41}" using 3 symbol_iff [of ?c] by blast
      then have r: "tok = 97" "q = ?s" "eq = ?e" "ps' = skip_space buf es ?e"
        using assms(3) False by (auto simp: gettoken_def Let_def char_codes)
      note w = skip_word_bounds [of ?s buf es]
      have e: "?s < ?e" "?e \<le> es" using w lt nsp 3 by (metis le_neq_implies_less, auto)
      have "wordc (ch buf i)" if "?s \<le> i" "i < ?e" for i
        using w that a_line_ch(2) [OF assms(1), of i] e(2) by (auto simp: wordc_def)
      moreover have "\<not> wordc (ch buf ?e)"
        using w a_line_ch(1) [OF assms(1)] e(2) by (cases "?e = es") (auto simp: wordc_def)
      ultimately show ?thesis using r e assms(1) by (auto simp: is_word_def a_line_def)
    qed
  qed
  note f = this
  show "ps' \<le> es" "ps \<le> ps'" "tok = of_char CHR ''a'' \<Longrightarrow> is_word buf (q, eq)" using f end_le s unfolding char_codes by auto
  show "tok \<noteq> 0 \<Longrightarrow> ps < ps'" "?s < es \<Longrightarrow> ps < ps'" using f end_le(1) s by auto
qed

lemma peek_progress:
  assumes "a_line buf es" "ps \<le> es" "peek buf es ps toks = (b, ps')"
  shows "ps \<le> ps'" "ps' \<le> es" "b \<Longrightarrow> skip_space buf es ps' < es"
proof -
  have p: "ps' = skip_space buf es ps" "b = (ch buf ps' \<noteq> 0 \<and> ustrchr toks 0 (ch buf ps') \<noteq> None)"
    using assms(3) by (auto simp: peek_def Let_def)
  then show "ps \<le> ps'" "ps' \<le> es" using skip_space_bounds [of ps buf es] assms(2) by auto
  assume b
  then have lt: "ps' < es" using p(2) a_line_ch(3) [OF assms(1)] by blast
  then have "skip_space buf es ps' = ps'" using skip_space_bounds [of ps buf es] p(1) by (subst skip_space.simps) auto
  then show "skip_space buf es ps' < es" using lt by simp
qed

section \<open>The parser\<close>

fun cmd_words :: "cmd \<Rightarrow> (nat \<times> nat) list" where
  "cmd_words (EXEC argv) = argv"
| "cmd_words (REDIR c file efile mode fd) = (file, efile) # cmd_words c"
| "cmd_words (PIPE l r) = cmd_words l @ cmd_words r"
| "cmd_words (LIST l r) = cmd_words l @ cmd_words r"
| "cmd_words (BACK c) = cmd_words c"

fun argv_fits :: "cmd \<Rightarrow> bool" where
  "argv_fits (EXEC argv) \<longleftrightarrow> length argv < MAXARGS"
| "argv_fits (REDIR c file efile mode fd) \<longleftrightarrow> argv_fits c \<and> fd \<in> {0, 1}"
| "argv_fits (PIPE l r) \<longleftrightarrow> argv_fits l \<and> argv_fits r"
| "argv_fits (LIST l r) \<longleftrightarrow> argv_fits l \<and> argv_fits r"
| "argv_fits (BACK c) \<longleftrightarrow> argv_fits c"

definition cmd_ok :: "u8 list \<Rightarrow> cmd \<Rightarrow> bool" where
  "cmd_ok buf c \<longleftrightarrow> argv_fits c \<and> (\<forall>w \<in> set (cmd_words c). is_word buf w)"

lemma cmd_ok_simps [simp]:
  "cmd_ok buf (REDIR c file efile mode fd) \<longleftrightarrow> cmd_ok buf c \<and> is_word buf (file, efile) \<and> fd \<in> {0, 1}"
  "cmd_ok buf (PIPE l r) \<longleftrightarrow> cmd_ok buf l \<and> cmd_ok buf r" "cmd_ok buf (LIST l r) \<longleftrightarrow> cmd_ok buf l \<and> cmd_ok buf r"
  "cmd_ok buf (BACK c) \<longleftrightarrow> cmd_ok buf c"
  "cmd_ok buf (EXEC argv) \<longleftrightarrow> length argv < MAXARGS \<and> (\<forall>w \<in> set argv. is_word buf w)"
  by (auto simp: cmd_ok_def)

lemma cmd_ok_set_argv: "cmd_ok buf c \<Longrightarrow> length argv < MAXARGS \<Longrightarrow> \<forall>w \<in> set argv. is_word buf w \<Longrightarrow> cmd_ok buf (set_argv argv c)"
  by (induction c) auto

text \<open>What a parsing function returns when it starts at \<open>ps\<close>: an error, or a well-formed tree and a later position.\<close>

definition parses :: "u8 list \<Rightarrow> nat \<Rightarrow> nat \<Rightarrow> (cmd \<times> nat) parsed \<Rightarrow> bool" where
  "parses buf es ps r \<longleftrightarrow> (case r of None \<Rightarrow> False | Some (Inl e) \<Rightarrow> True
     | Some (Inr (c, ps')) \<Rightarrow> ps \<le> ps' \<and> ps' \<le> es \<and> cmd_ok buf c)"

lemma parses_simps:
  "parses buf es ps (ppanic msg)" "parses buf es ps (pret (c, ps')) \<longleftrightarrow> ps \<le> ps' \<and> ps' \<le> es \<and> cmd_ok buf c"
  by (simp_all add: parses_def ppanic_def pret_def)

lemma parses_later: "parses buf es ps' r \<Longrightarrow> ps \<le> ps' \<Longrightarrow> parses buf es ps r"
  by (auto simp: parses_def split: option.splits sum.splits)

lemma parses_bind:
  assumes "parses buf es ps m" "\<And>c ps'. ps \<le> ps' \<Longrightarrow> ps' \<le> es \<Longrightarrow> cmd_ok buf c \<Longrightarrow> parses buf es ps (f (c, ps'))"
  shows "parses buf es ps (pbind m f)"
proof (cases m)
  case (Some x)
  then show ?thesis using assms by (cases x) (auto simp: parses_def [of _ _ _ m] pbind_def, simp add: parses_def)
qed (use assms(1) in \<open>simp add: parses_def\<close>)

text \<open>The loops.\<close>

lemma parseredirs_parses:
  assumes "a_line buf es"
  shows "ps \<le> es \<Longrightarrow> es - ps < fuel \<Longrightarrow> cmd_ok buf cmd \<Longrightarrow> parses buf es ps (parseredirs fuel buf es cmd ps)"
proof (induction fuel arbitrary: cmd ps)
  case (Suc fuel)
  obtain b p1 where p: "peek buf es ps (cs ''<>'') = (b, p1)" by fastforce
  obtain t1 q1 e1 p2 where g1: "gettoken buf es p1 = (t1, q1, e1, p2)" by (metis prod_cases4)
  obtain t2 q2 e2 p3 where g2: "gettoken buf es p2 = (t2, q2, e2, p3)" by (metis prod_cases4)
  note k = peek_progress [OF assms Suc.prems(1) p]
  note k1 = gettoken_progress [OF assms k(2) g1]
  note k2 = gettoken_progress [OF assms k1(1) g2]
  show ?case
  proof (cases "b \<and> t2 = of_char CHR ''a''")
    case True
    then have "ps < p2" "p2 \<le> p3" "is_word buf (q2, e2)" using k k1(5) k2(3,4) by auto
    moreover have "parses buf es p3 (parseredirs fuel buf es c p3)" if "cmd_ok buf c" for c
      using Suc.IH [OF k2(1) _ that] Suc.prems(1,2) calculation k2(1) by simp
    ultimately have "parses buf es ps (parseredirs fuel buf es c p3)" if "cmd_ok buf c" for c
      using parses_later [of buf es p3 _ ps] that by simp
    then show ?thesis using True p g1 g2 Suc.prems(3) \<open>is_word buf (q2, e2)\<close> by (simp add: redircmd_def)
  next
    case False
    then show ?thesis using p g1 g2 k Suc.prems(3) by (auto simp: parses_simps)
  qed
qed simp

lemma parseargs_parses:
  assumes "a_line buf es"
  shows "ps \<le> es \<Longrightarrow> es - ps < fuel \<Longrightarrow> cmd_ok buf cmd \<Longrightarrow> length argv < MAXARGS \<Longrightarrow> \<forall>w \<in> set argv. is_word buf w \<Longrightarrow>
    parses buf es ps (parseargs fuel buf es argv cmd ps)"
proof (induction fuel arbitrary: argv cmd ps)
  case (Suc fuel)
  obtain b p1 where p: "peek buf es ps (cs ''|)&;'') = (b, p1)" by fastforce
  obtain t q e p2 where g: "gettoken buf es p1 = (t, q, e, p2)" by (metis prod_cases4)
  note k = peek_progress [OF assms Suc.prems(1) p]
  note k1 = gettoken_progress [OF assms k(2) g]
  note fin = cmd_ok_set_argv [OF Suc.prems(3-5)]
  show ?case
  proof (cases "\<not> b \<and> t = of_char CHR ''a'' \<and> length argv + 1 < MAXARGS")
    case True
    then have t: "ps < p2" "is_word buf (q, e)" "t \<noteq> 0" using k(1) k1(2,4) by (auto simp: char_codes)
    then have f: "es - p2 < fuel" using Suc.prems(1,2) k1(1) by simp
    have "parses buf es ps (pbind (parseredirs fuel buf es cmd p2) (\<lambda>(cmd, ps). parseargs fuel buf es (argv @ [(q, e)]) cmd ps))"
    proof (rule parses_later [OF parses_bind [OF parseredirs_parses [OF assms k1(1) f Suc.prems(3)]]])
      fix c p3 assume c: "p2 \<le> p3" "p3 \<le> es" "cmd_ok buf c"
      have "parses buf es p3 (parseargs fuel buf es (argv @ [(q, e)]) c p3)"
        using True Suc.prems(5) t(2) f c by (intro Suc.IH) auto
      then show "parses buf es p2 (case (c, p3) of (cmd, ps) \<Rightarrow> parseargs fuel buf es (argv @ [(q, e)]) cmd ps)"
        using parses_later c(1) by simp
    qed (use t in simp)
    then show ?thesis using True p g t(3) by simp
  next
    case False
    then show ?thesis using p g k k1 fin by (auto simp: parses_simps)
  qed
qed simp

lemma parsebacks_parses:
  assumes "a_line buf es"
  shows "ps \<le> es \<Longrightarrow> es - ps < fuel \<Longrightarrow> cmd_ok buf cmd \<Longrightarrow> parses buf es ps (parsebacks fuel buf es cmd ps)"
proof (induction fuel arbitrary: cmd ps)
  case (Suc fuel)
  obtain b p1 where p: "peek buf es ps (cs ''&'') = (b, p1)" by fastforce
  obtain t q e p2 where g: "gettoken buf es p1 = (t, q, e, p2)" by (metis prod_cases4)
  note k = peek_progress [OF assms Suc.prems(1) p]
  note k1 = gettoken_progress [OF assms k(2) g]
  show ?case
  proof (cases b)
    case True
    then have "ps < p2" using k k1(5) by simp
    moreover have "parses buf es p2 (parsebacks fuel buf es (backcmd cmd) p2)"
      using Suc.IH [OF k1(1), of "backcmd cmd"] Suc.prems calculation k1(1) by (simp add: backcmd_def)
    ultimately show ?thesis using True p g parses_later [of buf es p2 _ ps] by simp
  qed (use p k Suc.prems(3) in \<open>simp add: parses_simps\<close>)
qed simp

text \<open>A token that \<open>peek\<close> has announced.\<close>

lemma peek_gettoken:
  assumes "a_line buf es" "ps \<le> es" "peek buf es ps toks = (b, p1)" b "gettoken buf es p1 = (t, q, e, p2)"
  shows "ps < p2" "p2 \<le> es"
  using peek_progress [OF assms(1-3)] gettoken_progress [OF assms(1) _ assms(5)] assms(4) by auto

text \<open>The grammar: the recursive calls that consume nothing are at most three deep.\<close>

abbreviation parser_ok :: "u8 list \<Rightarrow> nat \<Rightarrow> nat \<Rightarrow> bool" where
  "parser_ok buf es fuel \<equiv> (\<forall>ps \<le> es.
     (4 * (es - ps) + 4 \<le> fuel \<longrightarrow> parses buf es ps (parseline fuel buf es ps))
   \<and> (4 * (es - ps) + 3 \<le> fuel \<longrightarrow> parses buf es ps (parsepipe fuel buf es ps))
   \<and> (4 * (es - ps) + 2 \<le> fuel \<longrightarrow> parses buf es ps (parseexec fuel buf es ps))
   \<and> (4 * (es - ps) + 1 \<le> fuel \<longrightarrow> parses buf es ps (parseblock fuel buf es ps)))"

lemma parseline_step:
  assumes a: "a_line buf es" and IH: "parser_ok buf es fuel" and ps: "ps \<le> es" "4 * (es - ps) + 4 \<le> Suc fuel"
  shows "parses buf es ps (parseline (Suc fuel) buf es ps)"
  unfolding parseline.simps
proof (rule parses_bind)
  show "parses buf es ps (parsepipe fuel buf es ps)" using IH ps by simp
  fix c1 p1 assume 1: "ps \<le> p1" "p1 \<le> es" "cmd_ok buf c1"
  have "parses buf es p1 (parsebacks fuel buf es c1 p1)" using 1 ps by (intro parsebacks_parses [OF a]) auto
  then have b: "parses buf es ps (parsebacks fuel buf es c1 p1)" using 1(1) parses_later by blast
  have "parses buf es ps (case peek buf es p2 (cs '';'') of (b, ps) \<Rightarrow>
      if b then case gettoken buf es ps of (_, _, _, ps) \<Rightarrow> pbind (parseline fuel buf es ps) (\<lambda>(right, ps). pret (listcmd c2 right, ps))
      else pret (c2, ps))" if 2: "ps \<le> p2" "p2 \<le> es" "cmd_ok buf c2" for c2 p2
  proof -
    obtain b p3 where p: "peek buf es p2 (cs '';'') = (b, p3)" by fastforce
    obtain t q e p4 where g: "gettoken buf es p3 = (t, q, e, p4)" by (metis prod_cases4)
    show ?thesis
    proof (cases b)
      case True
      note k = peek_gettoken [OF a 2(2) p True g]
      have "parses buf es p4 (parseline fuel buf es p4)" using IH k 2(1) ps by simp
      then have "parses buf es p4 (pbind (parseline fuel buf es p4) (\<lambda>(right, ps). pret (listcmd c2 right, ps)))"
        by (rule parses_bind) (simp add: parses_simps listcmd_def 2)
      then show ?thesis using p g True parses_later [of buf es p4 _ ps] k(1) 2(1) by simp
    qed (use p 2 peek_progress [OF a 2(2) p] in \<open>simp add: parses_simps\<close>)
  qed
  then show "parses buf es ps (case (c1, p1) of (cmd, ps) \<Rightarrow> pbind (parsebacks fuel buf es cmd ps) (\<lambda>(cmd, ps).
      case peek buf es ps (cs '';'') of (b, ps) \<Rightarrow>
      if b then case gettoken buf es ps of (_, _, _, ps) \<Rightarrow> pbind (parseline fuel buf es ps) (\<lambda>(right, ps). pret (listcmd cmd right, ps))
      else pret (cmd, ps)))"
    unfolding prod.case by (intro parses_bind [OF b]) simp
qed

lemma parsepipe_step:
  assumes a: "a_line buf es" and IH: "parser_ok buf es fuel" and ps: "ps \<le> es" "4 * (es - ps) + 3 \<le> Suc fuel"
  shows "parses buf es ps (parsepipe (Suc fuel) buf es ps)"
  unfolding parsepipe.simps
proof (rule parses_bind)
  show "parses buf es ps (parseexec fuel buf es ps)" using IH ps by simp
  fix c p1 assume 1: "ps \<le> p1" "p1 \<le> es" "cmd_ok buf c"
  obtain b p2 where p: "peek buf es p1 (cs ''|'') = (b, p2)" by fastforce
  obtain t q e p3 where g: "gettoken buf es p2 = (t, q, e, p3)" by (metis prod_cases4)
  show "parses buf es ps (case (c, p1) of (cmd, ps) \<Rightarrow> case peek buf es ps (cs ''|'') of (b, ps) \<Rightarrow>
      if b then case gettoken buf es ps of (_, _, _, ps) \<Rightarrow> pbind (parsepipe fuel buf es ps) (\<lambda>(right, ps). pret (pipecmd cmd right, ps))
      else pret (cmd, ps))"
  proof (cases b)
    case True
    note k = peek_gettoken [OF a 1(2) p True g]
    have "parses buf es p3 (parsepipe fuel buf es p3)" using IH k 1(1) ps by simp
    then have "parses buf es p3 (pbind (parsepipe fuel buf es p3) (\<lambda>(right, ps). pret (pipecmd c right, ps)))"
      by (rule parses_bind) (simp add: parses_simps pipecmd_def 1)
    then show ?thesis using p g True parses_later [of buf es p3 _ ps] k(1) 1(1) by simp
  qed (use p 1 peek_progress [OF a 1(2) p] in \<open>simp add: parses_simps\<close>)
qed

lemma parseexec_step:
  assumes a: "a_line buf es" and IH: "parser_ok buf es fuel" and ps: "ps \<le> es" "4 * (es - ps) + 2 \<le> Suc fuel"
  shows "parses buf es ps (parseexec (Suc fuel) buf es ps)"
proof -
  obtain b p1 where p: "peek buf es ps (cs ''('') = (b, p1)" by fastforce
  note k = peek_progress [OF a ps(1) p]
  have "cmd_ok buf execcmd" by (simp add: execcmd_def MAXARGS_def)
  then have r: "parses buf es p1 (parseredirs fuel buf es execcmd p1)" using k ps by (intro parseredirs_parses [OF a]) auto
  have "parses buf es p1 (pbind (parseredirs fuel buf es execcmd p1) (\<lambda>(cmd, ps). parseargs fuel buf es [] cmd ps))"
  proof (rule parses_bind [OF r])
    fix c p2 assume c: "p1 \<le> p2" "p2 \<le> es" "cmd_ok buf c"
    then have "parses buf es p2 (parseargs fuel buf es [] c p2)" using k ps by (intro parseargs_parses [OF a]) (auto simp: MAXARGS_def)
    then show "parses buf es p1 (case (c, p2) of (cmd, ps) \<Rightarrow> parseargs fuel buf es [] cmd ps)" using parses_later c(1) by simp
  qed
  moreover have "parses buf es p1 (parseblock fuel buf es p1)" using IH k ps by simp
  ultimately show ?thesis using p parses_later [of buf es p1 _ ps] k(1) by simp
qed

lemma parseblock_step:
  assumes a: "a_line buf es" and IH: "parser_ok buf es fuel" and ps: "ps \<le> es" "4 * (es - ps) + 1 \<le> Suc fuel"
  shows "parses buf es ps (parseblock (Suc fuel) buf es ps)"
proof -
  obtain b p1 where p: "peek buf es ps (cs ''('') = (b, p1)" by fastforce
  obtain t q e p2 where g: "gettoken buf es p1 = (t, q, e, p2)" by (metis prod_cases4)
  show ?thesis
  proof (cases b)
    case True
    note k = peek_gettoken [OF a ps(1) p True g]
    have l: "parses buf es p2 (parseline fuel buf es p2)" using IH k ps by simp
    have "parses buf es p2 (case peek buf es p3 (cs '')'') of (b, ps) \<Rightarrow> if \<not> b then ppanic ''syntax - missing )''
        else case gettoken buf es ps of (_, _, _, ps) \<Rightarrow> parseredirs fuel buf es c ps)" if 3: "p2 \<le> p3" "p3 \<le> es" "cmd_ok buf c" for c p3
    proof -
      obtain b' p4 where p': "peek buf es p3 (cs '')'') = (b', p4)" by fastforce
      obtain t' q' e' p5 where g': "gettoken buf es p4 = (t', q', e', p5)" by (metis prod_cases4)
      show ?thesis
      proof (cases b')
        case True
        note k' = peek_gettoken [OF a 3(2) p' True g']
        have "parses buf es p5 (parseredirs fuel buf es c p5)" using k k' ps 3 by (intro parseredirs_parses [OF a]) auto
        then show ?thesis using True p' g' parses_later [of buf es p5 _ p2] k'(1) 3(1) by simp
      qed (use p' in \<open>simp add: parses_simps\<close>)
    qed
    then have "parses buf es p2 (pbind (parseline fuel buf es p2) (\<lambda>(cmd, ps). case peek buf es ps (cs '')'') of (b, ps) \<Rightarrow>
        if \<not> b then ppanic ''syntax - missing )'' else case gettoken buf es ps of (_, _, _, ps) \<Rightarrow> parseredirs fuel buf es cmd ps))"
      by (intro parses_bind [OF l]) simp
    then show ?thesis using True p g parses_later [of buf es p2 _ ps] k(1) by simp
  qed (use p in \<open>simp add: parses_simps\<close>)
qed

lemma parsers_parse: "a_line buf es \<Longrightarrow> parser_ok buf es fuel"
proof (induction fuel)
  case (Suc fuel)
  note IH = Suc.IH [OF Suc.prems]
  show ?case using parseline_step [OF Suc.prems IH] parsepipe_step [OF Suc.prems IH] parseexec_step [OF Suc.prems IH]
    parseblock_step [OF Suc.prems IH] by blast
qed simp

section \<open>Terminating the words\<close>

lemma nth_upd: "j < length xs \<Longrightarrow> xs[i := x] ! j = (if i = j then x else xs ! j)"
  by (cases "i = j") simp_all

lemma fold_terminate:
  "length (fold (\<lambda>(q, eq) buf. buf[eq := 0]) ws buf) = length buf"
  "i < length buf \<Longrightarrow> fold (\<lambda>(q, eq) buf. buf[eq := 0]) ws buf ! i = (if i \<in> snd ` set ws then 0 else buf ! i)"
  by (induction ws arbitrary: buf) (simp_all add: case_prod_beta nth_upd)

lemma nulterminate_nth:
  "length (nulterminate c buf) = length buf"
  "i < length buf \<Longrightarrow> nulterminate c buf ! i = (if i \<in> snd ` set (cmd_words c) then 0 else buf ! i)"
  by (induction c arbitrary: buf) (simp_all add: fold_terminate nth_upd image_Un)

lemma word_at_terminated:
  assumes "cmd_ok buf c" "(q, eq) \<in> set (cmd_words c)"
  shows "word_at (nulterminate c buf) q = take (eq - q) (drop q buf)"
proof -
  let ?b = "nulterminate c buf"
  have w: "is_word buf w" if "w \<in> set (cmd_words c)" for w using assms(1) that by (auto simp: cmd_ok_def)
  have q: "q < eq" "eq < length buf" using w [OF assms(2)] by (auto simp: is_word_def)
  have same: "?b ! i = buf ! i \<and> buf ! i \<noteq> 0" if "q \<le> i" "i < eq" for i
  proof -
    have "wordc (ch buf i)" using w [OF assms(2)] that by (auto simp: is_word_def)
    then have "wordc (buf ! i)" using that q(2) by (simp add: ch_def)
    moreover have "i \<notin> snd ` set (cmd_words c)"
    proof
      assume "i \<in> snd ` set (cmd_words c)"
      then have "\<not> wordc (ch buf i)" using w by (force simp: is_word_def)
      with \<open>wordc (ch buf i)\<close> show False by simp
    qed
    ultimately show ?thesis using that q(2) by (simp add: nulterminate_nth wordc_def)
  qed
  have z: "?b ! eq = 0" using assms(2) q(2) by (force simp: nulterminate_nth)
  have "drop q ?b = take (eq - q) (drop q ?b) @ drop eq ?b"
    using append_take_drop_id [of "eq - q" "drop q ?b"] q(1) by simp
  also have "take (eq - q) (drop q ?b) = take (eq - q) (drop q buf)"
    using same q by (auto simp: list_eq_iff_nth_eq nulterminate_nth(1))
  also have "drop eq ?b = 0 # drop (eq + 1) ?b" using Cons_nth_drop_Suc [of eq ?b] z q(2) by (simp add: nulterminate_nth(1))
  finally have d: "drop q ?b = take (eq - q) (drop q buf) @ 0 # drop (eq + 1) ?b" .
  have "x \<noteq> 0" if "x \<in> set (take (eq - q) (drop q buf))" for x
    using that same q by (auto simp: in_set_conv_nth)
  then show ?thesis unfolding word_at_def d by (simp add: takeWhile_append2)
qed

lemma a_line_of: "0 \<notin> set line \<Longrightarrow> a_line (line @ [0]) (length line)"
  by (auto simp: a_line_def nth_append) (metis nth_mem)

lemma parsecmd_parses:
  assumes "0 \<notin> set line" "4 * length line + 4 \<le> fuel"
  shows "(\<exists>e. parsecmd fuel line = Some (Inl e))
    \<or> (\<exists>c. parsecmd fuel line = Some (Inr (c, nulterminate c (line @ [0]))) \<and> cmd_ok (line @ [0]) c)"
proof -
  note a = a_line_of [OF assms(1)]
  let ?b = "line @ [0]" and ?es = "length line"
  have "parses ?b ?es 0 (parseline fuel ?b ?es 0)" using parsers_parse [OF a, of fuel] assms(2) by simp
  then show ?thesis
    by (auto simp: parsecmd_def parses_def pbind_def pret_def Let_def split: option.splits sum.splits prod.splits)
qed

text \<open>C32: The shell's parser terminates: on every command line, whatever it contains, \<open>parsecmd\<close> returns a
  command or a syntax error, and four recursive calls for each character of the line (and four more) are
  enough; the 1000 the model of the main loop allows cover every line that fits the 100-byte buffer.\<close>

theorem parsecmd_returns:
  assumes "0 \<notin> set line" "4 * length line + 4 \<le> fuel"
  shows "(\<exists>e. parsecmd fuel line = Some (Inl e)) \<or> (\<exists>c buf. parsecmd fuel line = Some (Inr (c, buf)))"
  using parsecmd_parses [OF assms] by blast

theorem parsecmd_returns_witness:
  "(\<exists>e. parsecmd 1000 (cs ''(ls | wc) > x & ;'') = Some (Inl e))
    \<or> (\<exists>c buf. parsecmd 1000 (cs ''(ls | wc) > x & ;'') = Some (Inr (c, buf)))"
  by (rule parsecmd_returns) (simp_all add: cs_def of_char_def)

text \<open>C33: The tree the shell runs is well-formed. Every \<open>execcmd\<close> node has at most nine arguments, so that the null
  pointer after the last fits \<open>argv\<close>, and redirections are of descriptors 0 and 1; every word of the
  tree is a nonempty stretch of the line without white space or symbols, and although \<open>nulterminate\<close>
  writes a NUL after each word into the one line they share, reading any word through its pointer
  afterwards gives exactly its characters in the line.\<close>

theorem parsed_words:
  assumes "0 \<notin> set line" "4 * length line + 4 \<le> fuel" "parsecmd fuel line = Some (Inr (c, buf))"
  shows "argv_fits c \<and> (\<forall>(q, eq) \<in> set (cmd_words c). q < eq \<and> eq \<le> length line
    \<and> word_at buf q = take (eq - q) (drop q line) \<and> (\<forall>x \<in> set (word_at buf q). wordc x))"
proof -
  have c: "buf = nulterminate c (line @ [0])" "cmd_ok (line @ [0]) c" using parsecmd_parses [OF assms(1,2)] assms(3) by auto
  have "q < eq \<and> eq \<le> length line \<and> word_at buf q = take (eq - q) (drop q line) \<and> (\<forall>x \<in> set (word_at buf q). wordc x)"
    if "(q, eq) \<in> set (cmd_words c)" for q eq
  proof -
    have w: "is_word (line @ [0]) (q, eq)" using c(2) that by (auto simp: cmd_ok_def)
    then have l: "q < eq" "eq \<le> length line" by (auto simp: is_word_def)
    then have r: "word_at buf q = take (eq - q) (drop q line)" using word_at_terminated [OF c(2) that] c(1) by simp
    have "wordc x" if "x \<in> set (take (eq - q) (drop q line))" for x
      using that w l by (auto simp: in_set_conv_nth is_word_def ch_def nth_append)
    then show ?thesis using l r by simp
  qed
  then show ?thesis using c(2) by (auto simp: cmd_ok_def)
qed

theorem parsed_words_witness:
  "argv_fits (REDIR (EXEC [(0, 1)]) 3 4 1537 1) \<and> word_at [97, 0, 62, 98, 0] 0 = cs ''a'' \<and> word_at [97, 0, 62, 98, 0] 3 = cs ''b''"
proof -
  let ?c = "REDIR (EXEC [(0, 1)]) 3 4 1537 1"
  have p: "parsecmd 24 (cs ''a >b'') = Some (Inr (?c, [97, 0, 62, 98, 0]))" by code_simp
  have "0 \<notin> set (cs ''a >b'')" "4 * length (cs ''a >b'') + 4 \<le> 24" by (simp_all add: cs_def of_char_def)
  from parsed_words [OF this p] show ?thesis by (simp add: cs_def of_char_def)
qed

end
