(* ===== verification/Tools.thy ===== *)
theory Tools
  imports Uprintf
begin

text \<open>
  The small user programs: \<open>cat\<close>, \<open>wc\<close>, \<open>echo\<close>, \<open>ls\<close>, \<open>ln\<close>, \<open>rm\<close>, \<open>mkdir\<close>, \<open>kill\<close>, \<open>zombie\<close> and \<open>init\<close>.
  The argument vector is the list of its strings, the program's name first.
\<close>

definition newline :: "u8 list" where "newline = [10]"

section \<open>cat\<close>

definition cat_bufsize :: nat where "cat_bufsize = 512"

fun cat_loop :: "nat \<Rightarrow> int \<Rightarrow> ('w, unit) user" where
  "cat_loop 0 fd = u_spin"
| "cat_loop (Suc fuel) fd =
     ubind (u_read fd cat_bufsize) (\<lambda>(n, bs).
     if 0 < n
     then
       ubind (u_write 1 bs) (\<lambda>r.
       if r \<noteq> n then ubind (fprintf 2 (cs ''cat: write error'' @ newline) []) (\<lambda>_. u_exit 1)
       else cat_loop fuel fd)
     else if n < 0 then ubind (fprintf 2 (cs ''cat: read error'' @ newline) []) (\<lambda>_. u_exit 1)
     else val ())"

fun cat_files :: "nat \<Rightarrow> u8 list list \<Rightarrow> ('w, int) user" where
  "cat_files fuel [] = u_exit 0"
| "cat_files fuel (f # fs) =
     ubind (u_open f O_RDONLY) (\<lambda>fd.
     if fd < 0 then ubind (fprintf 2 (cs ''cat: cannot open %s'' @ newline) [Str (Some f)]) (\<lambda>_. u_exit 1)
     else ubind (cat_loop fuel fd) (\<lambda>_. ubind (u_close fd) (\<lambda>_. cat_files fuel fs)))"

definition cat_main :: "nat \<Rightarrow> u8 list list \<Rightarrow> ('w, int) user" where
  "cat_main fuel argv =
     (if length argv \<le> 1 then ubind (cat_loop fuel 0) (\<lambda>_. u_exit 0) else cat_files fuel (tl argv))"

section \<open>wc\<close>

record wc_state =
  wc_l :: u32
  wc_w :: u32
  wc_c :: u32
  wc_inword :: bool

definition wc_space :: "u8 list" where "wc_space = cs '' '' @ [13, 9, 10, 11]"

definition wc_byte :: "u8 \<Rightarrow> wc_state \<Rightarrow> wc_state" where
  "wc_byte b s =
     (let s1 = s\<lparr>wc_c := wc_c s + 1\<rparr>; s2 = (if b = 10 then s1\<lparr>wc_l := wc_l s1 + 1\<rparr> else s1) in
      if ustrchr wc_space 0 b \<noteq> None then s2\<lparr>wc_inword := False\<rparr>
      else if \<not> wc_inword s2 then s2\<lparr>wc_w := wc_w s2 + 1, wc_inword := True\<rparr>
      else s2)"

fun wc_loop :: "nat \<Rightarrow> int \<Rightarrow> u8 list \<Rightarrow> wc_state \<Rightarrow> ('w, unit) user" where
  "wc_loop 0 fd name s = u_spin"
| "wc_loop (Suc fuel) fd name s =
     ubind (u_read fd 512) (\<lambda>(n, bs).
     if 0 < n then wc_loop fuel fd name (fold wc_byte (take (nat n) bs) s)
     else if n < 0 then ubind (uprintf (cs ''wc: read error'' @ newline) []) (\<lambda>_. u_exit 1)
     else uprintf (cs ''%d %d %d %s'' @ newline) [Num (wc_l s), Num (wc_w s), Num (wc_c s), Str (Some name)])"

definition wc :: "nat \<Rightarrow> int \<Rightarrow> u8 list \<Rightarrow> ('w, unit) user" where
  "wc fuel fd name = wc_loop fuel fd name \<lparr>wc_l = 0, wc_w = 0, wc_c = 0, wc_inword = False\<rparr>"

fun wc_files :: "nat \<Rightarrow> u8 list list \<Rightarrow> ('w, int) user" where
  "wc_files fuel [] = u_exit 0"
| "wc_files fuel (f # fs) =
     ubind (u_open f O_RDONLY) (\<lambda>fd.
     if fd < 0 then ubind (uprintf (cs ''wc: cannot open %s'' @ newline) [Str (Some f)]) (\<lambda>_. u_exit 1)
     else ubind (wc fuel fd f) (\<lambda>_. ubind (u_close fd) (\<lambda>_. wc_files fuel fs)))"

definition wc_main :: "nat \<Rightarrow> u8 list list \<Rightarrow> ('w, int) user" where
  "wc_main fuel argv =
     (if length argv \<le> 1 then ubind (wc fuel 0 []) (\<lambda>_. u_exit 0) else wc_files fuel (tl argv))"

section \<open>echo\<close>

fun echo_loop :: "u8 list list \<Rightarrow> ('w, int) user" where
  "echo_loop [] = u_exit 0"
| "echo_loop (a # as) =
     ubind (u_write 1 a) (\<lambda>_.
     ubind (if as \<noteq> [] then u_write 1 (cs '' '') else u_write 1 newline) (\<lambda>_.
     echo_loop as))"

definition echo_main :: "u8 list list \<Rightarrow> ('w, int) user" where
  "echo_main argv = echo_loop (tl argv)"

section \<open>ln, rm, mkdir, kill, zombie\<close>

definition ln_main :: "u8 list list \<Rightarrow> ('w, int) user" where
  "ln_main argv =
     (case argv of
        [a0, old, new] \<Rightarrow>
          ubind (u_link old new) (\<lambda>r.
          ubind (if r < 0 then fprintf 2 (cs ''link %s %s: failed'' @ newline) [Str (Some old), Str (Some new)] else val ()) (\<lambda>_.
          u_exit 0))
      | _ \<Rightarrow> ubind (fprintf 2 (cs ''Usage: ln old new'' @ newline) []) (\<lambda>_. u_exit 1))"

fun rm_loop :: "u8 list list \<Rightarrow> ('w, int) user" where
  "rm_loop [] = u_exit 0"
| "rm_loop (f # fs) =
     ubind (u_unlink f) (\<lambda>r.
     if r < 0 then ubind (fprintf 2 (cs ''rm: %s failed to delete'' @ newline) [Str (Some f)]) (\<lambda>_. u_exit 0)
     else rm_loop fs)"

definition rm_main :: "u8 list list \<Rightarrow> ('w, int) user" where
  "rm_main argv =
     (if length argv < 2 then ubind (fprintf 2 (cs ''Usage: rm files...'' @ newline) []) (\<lambda>_. u_exit 1)
      else rm_loop (tl argv))"

fun mkdir_loop :: "u8 list list \<Rightarrow> ('w, int) user" where
  "mkdir_loop [] = u_exit 0"
| "mkdir_loop (f # fs) =
     ubind (u_mkdir f) (\<lambda>r.
     if r < 0 then ubind (fprintf 2 (cs ''mkdir: %s failed to create'' @ newline) [Str (Some f)]) (\<lambda>_. u_exit 0)
     else mkdir_loop fs)"

definition mkdir_main :: "u8 list list \<Rightarrow> ('w, int) user" where
  "mkdir_main argv =
     (if length argv < 2 then ubind (fprintf 2 (cs ''Usage: mkdir files...'' @ newline) []) (\<lambda>_. u_exit 1)
      else mkdir_loop (tl argv))"

fun kill_loop :: "u8 list list \<Rightarrow> ('w, int) user" where
  "kill_loop [] = u_exit 0"
| "kill_loop (a # as) = ubind (u_kill (atoi a)) (\<lambda>_. kill_loop as)"

definition kill_main :: "u8 list list \<Rightarrow> ('w, int) user" where
  "kill_main argv =
     (if length argv < 2 then ubind (fprintf 2 (cs ''usage: kill pid...'' @ newline) []) (\<lambda>_. u_exit 1)
      else kill_loop (tl argv))"

definition zombie_main :: "('w, int) user" where
  "zombie_main = ubind u_fork (\<lambda>r. ubind (if 0 < r then u_pause 5 else val 0) (\<lambda>_. u_exit 0))"

section \<open>init\<close>

definition CONSOLE :: int where "CONSOLE = 1"

text \<open>The inner loop: wait until the shell with the given pid has exited.\<close>

fun init_wait :: "nat \<Rightarrow> int \<Rightarrow> ('w, unit) user" where
  "init_wait 0 pid = u_spin"
| "init_wait (Suc fuel) pid =
     ubind u_wait (\<lambda>(wpid, _).
     if wpid = pid then val ()
     else if wpid < 0 then ubind (uprintf (cs ''init: wait returned an error'' @ newline) []) (\<lambda>_. u_exit 1)
     else init_wait fuel pid)"

fun init_loop :: "nat \<Rightarrow> nat \<Rightarrow> ('w, int) user" where
  "init_loop 0 waits = u_spin"
| "init_loop (Suc fuel) waits =
     ubind (uprintf (cs ''init: starting sh'' @ newline) []) (\<lambda>_.
     ubind u_fork (\<lambda>pid.
     if pid < 0 then ubind (uprintf (cs ''init: fork failed'' @ newline) []) (\<lambda>_. u_exit 1)
     else if pid = 0
     then
       ubind (u_exec (cs ''sh'') [cs ''sh'']) (\<lambda>_.
       ubind (uprintf (cs ''init: exec sh failed'' @ newline) []) (\<lambda>_.
       u_exit 1))
     else ubind (init_wait waits pid) (\<lambda>_. init_loop fuel waits)))"

definition init_main :: "nat \<Rightarrow> nat \<Rightarrow> ('w, int) user" where
  "init_main fuel waits =
     ubind (u_open (cs ''console'') O_RDWR) (\<lambda>fd.
     ubind (if fd < 0
            then ubind (u_mknod (cs ''console'') CONSOLE 0) (\<lambda>_. u_open (cs ''console'') O_RDWR)
            else val fd) (\<lambda>_.
     ubind (u_dup 0) (\<lambda>_.
     ubind (u_dup 0) (\<lambda>_.
     init_loop fuel waits))))"

section \<open>ls\<close>

definition DIRSIZ_u :: nat where "DIRSIZ_u = 14"

definition T_DIR_u :: int where "T_DIR_u = 1"
definition T_FILE_u :: int where "T_FILE_u = 2"
definition T_DEVICE_u :: int where "T_DEVICE_u = 3"

text \<open>The search for the last slash, from index \<open>p\<close> down; the result is the index after it.\<close>

fun after_slash :: "u8 list \<Rightarrow> nat \<Rightarrow> nat" where
  "after_slash path 0 = (if ch path 0 = 47 then 1 else 0)"
| "after_slash path (Suc p) = (if ch path (Suc p) = 47 then p + 2 else after_slash path p)"

definition fmtname :: "u8 list \<Rightarrow> u8 list" where
  "fmtname path =
     (let p = drop (after_slash path (length path)) path in
      if DIRSIZ_u \<le> length p then p else p @ replicate (DIRSIZ_u - length p) 32)"

definition ls_line :: "u8 list \<Rightarrow> stat_t \<Rightarrow> ('w, unit) user" where
  "ls_line path st =
     uprintf (cs ''%s %d %d %d'' @ newline)
       [Str (Some (fmtname path)), Num (of_int (st_type st)), Num (of_nat (st_ino st)), Num (of_nat (st_size st))]"

text \<open>The directory loop: an entry is two bytes of inode number and the name.\<close>

fun ls_entries :: "nat \<Rightarrow> int \<Rightarrow> u8 list \<Rightarrow> ('w, unit) user" where
  "ls_entries 0 fd path = u_spin"
| "ls_entries (Suc fuel) fd path =
     ubind (u_read fd (2 + DIRSIZ_u)) (\<lambda>(n, de).
     if n \<noteq> int (2 + DIRSIZ_u) then val ()
     else if word16 de = 0 then ls_entries fuel fd path
     else
       (let buf = path @ 47 # takeWhile (\<lambda>c. c \<noteq> 0) (take DIRSIZ_u (drop 2 de)) in
        ubind (ustat buf) (\<lambda>(r, st).
        ubind (case st of
            Some st \<Rightarrow> if r < 0 then uprintf (cs ''ls: cannot stat %s'' @ newline) [Str (Some buf)] else ls_line buf st
          | None \<Rightarrow> uprintf (cs ''ls: cannot stat %s'' @ newline) [Str (Some buf)]) (\<lambda>_.
        ls_entries fuel fd path))))"

definition ls :: "nat \<Rightarrow> u8 list \<Rightarrow> ('w, unit) user" where
  "ls fuel path =
     ubind (u_open path O_RDONLY) (\<lambda>fd.
     if fd < 0 then fprintf 2 (cs ''ls: cannot open %s'' @ newline) [Str (Some path)]
     else
       ubind (u_fstat fd) (\<lambda>(r, st).
       if r < 0
       then ubind (fprintf 2 (cs ''ls: cannot stat %s'' @ newline) [Str (Some path)]) (\<lambda>_. ubind (u_close fd) (\<lambda>_. val ()))
       else
         ubind (if st_type st = T_DEVICE_u \<or> st_type st = T_FILE_u then ls_line path st
                else if st_type st = T_DIR_u
                then
                  (if 512 < length path + 1 + DIRSIZ_u + 1 then uprintf (cs ''ls: path too long'' @ newline) []
                   else ls_entries fuel fd path)
                else val ()) (\<lambda>_.
         ubind (u_close fd) (\<lambda>_. val ()))))"

fun ls_loop :: "nat \<Rightarrow> u8 list list \<Rightarrow> ('w, int) user" where
  "ls_loop fuel [] = u_exit 0"
| "ls_loop fuel (a # as) = ubind (ls fuel a) (\<lambda>_. ls_loop fuel as)"

definition ls_main :: "nat \<Rightarrow> u8 list list \<Rightarrow> ('w, int) user" where
  "ls_main fuel argv =
     (if length argv < 2 then ubind (ls fuel (cs ''.'')) (\<lambda>_. u_exit 0) else ls_loop fuel (tl argv))"

section \<open>What the filters compute\<close>

lemma cat_loop_copies:
  assumes S: "streams S fd rest out"
  shows "length (rest w) < fuel \<Longrightarrow> \<exists>v. cat_loop fuel fd S w = Val () v \<and> rest v = [] \<and> out v = out w @ rest w"
proof (induction fuel arbitrary: w)
  case (Suc fuel)
  obtain k v where k: "os_read S fd cat_bufsize w = ((int k, take k (rest w)), v)" "k \<le> length (rest w)"
    "k = 0 \<longrightarrow> rest w = []" "rest v = drop k (rest w)" "out v = out w"
    using S unfolding streams_def cat_bufsize_def by (metis zero_neq_numeral)
  obtain u where u: "os_write S 1 (take k (rest w)) v = (int k, u)" "rest u = drop k (rest w)" "out u = out w @ take k (rest w)"
    using S k unfolding streams_def by (metis length_take min.absorb2)
  show ?case
  proof (cases "k = 0")
    case False
    then have "length (rest u) < fuel" using Suc.prems u(2) k(2) by simp
    then obtain x where "cat_loop fuel fd S u = Val () x" "rest x = []" "out x = out u @ rest u" using Suc.IH by blast
    then show ?thesis using k u False by (simp add: user_simps)
  qed (use k in \<open>simp add: user_simps\<close>)
qed simp

text \<open>The number of lines, words and bytes of a text. A word begins at a byte that is no white space and
  does not follow one of the same kind.\<close>

definition space :: "u8 \<Rightarrow> bool" where
  "space b \<longleftrightarrow> b \<in> {32, 13, 9, 10, 11}"

fun count_words :: "bool \<Rightarrow> u8 list \<Rightarrow> nat" where
  "count_words inword [] = 0"
| "count_words inword (b # bs) = (if space b then count_words False bs else (if inword then 0 else 1) + count_words True bs)"

lemma wc_space_iff: "ustrchr wc_space 0 b \<noteq> None \<longleftrightarrow> space b"
proof -
  have "wc_space = [32, 13, 9, 10, 11]" by (simp add: wc_space_def cs_def of_char_def)
  moreover have "ustrchr [32, 13, 9, 10, 11] 0 b \<noteq> None \<longleftrightarrow> space b"
    by (simp add: ustrchr.simps [of "[32, 13, 9, 10, 11]"] ch_def space_def)
  ultimately show ?thesis by simp
qed

lemma wc_byte_step:
  "wc_l (wc_byte b s) = wc_l s + (if b = 10 then 1 else 0)" "wc_c (wc_byte b s) = wc_c s + 1"
  "wc_w (wc_byte b s) = wc_w s + (if \<not> space b \<and> \<not> wc_inword s then 1 else 0)" "wc_inword (wc_byte b s) = (\<not> space b)"
  using wc_space_iff [of b] by (auto simp: wc_byte_def Let_def)

lemma wc_bytes_count:
  "wc_l (fold wc_byte bs s) = wc_l s + of_nat (count_list bs 10)"
  "wc_w (fold wc_byte bs s) = wc_w s + of_nat (count_words (wc_inword s) bs)"
  "wc_c (fold wc_byte bs s) = wc_c s + of_nat (length bs)"
  by (induction bs arbitrary: s) (simp_all add: wc_byte_step)

lemma wc_loop_counts:
  assumes S: "streams S fd rest out"
  shows "length (rest w) < fuel \<Longrightarrow> \<exists>v. rest v = [] \<and> out v = out w \<and> wc_loop fuel fd name s S w =
    uprintf (cs ''%d %d %d %s'' @ newline) [Num (wc_l (fold wc_byte (rest w) s)), Num (wc_w (fold wc_byte (rest w) s)),
      Num (wc_c (fold wc_byte (rest w) s)), Str (Some name)] S v"
proof (induction fuel arbitrary: w s)
  case (Suc fuel)
  obtain k v where k: "os_read S fd 512 w = ((int k, take k (rest w)), v)" "k \<le> length (rest w)"
    "k = 0 \<longrightarrow> rest w = []" "rest v = drop k (rest w)" "out v = out w"
    using S unfolding streams_def by (metis zero_neq_numeral)
  show ?case
  proof (cases "k = 0")
    case False
    have "fold wc_byte (rest w) s = fold wc_byte (drop k (rest w)) (fold wc_byte (take k (rest w)) s)"
      by (metis append_take_drop_id fold_append comp_apply)
    moreover have "length (rest v) < fuel" using Suc.prems k(2,4) False by simp
    ultimately show ?thesis using Suc.IH [of v "fold wc_byte (take k (rest w)) s"] k False by (simp add: user_simps)
  qed (use k in \<open>auto simp: user_simps\<close>)
qed simp

lemma echo_loop_prints:
  assumes S: "streams S fd rest out"
  shows "\<exists>v. echo_loop as S w = Exited 0 v \<and> out v = out w @ (if as = [] then [] else concat (map (\<lambda>a. a @ cs '' '') (butlast as)) @ last as @ newline)"
proof (induction as arbitrary: w)
  case (Cons a as)
  have wr: "\<exists>v. os_write S 1 bs w = (int (length bs), v) \<and> out v = out w @ bs" for w bs using S unfolding streams_def by blast
  obtain v where v: "os_write S 1 a w = (int (length a), v)" "out v = out w @ a" using wr by blast
  let ?sep = "if as \<noteq> [] then cs '' '' else newline"
  obtain u where u: "os_write S 1 ?sep v = (int (length ?sep), u)" "out u = out v @ ?sep" using wr by blast
  obtain x where x: "echo_loop as S u = Exited 0 x" "out x = out u @ (if as = [] then [] else concat (map (\<lambda>a. a @ cs '' '') (butlast as)) @ last as @ newline)"
    using Cons.IH by blast
  have "echo_loop (a # as) S w = echo_loop as S u" using v(1) u(1) by (cases "as = []") (simp_all add: user_simps)
  then show ?case using x u(2) v(2) by (cases "as = []") auto
qed (simp add: user_simps)

text \<open>C34: The text tools compute what they are for, however the reads cut their input into pieces. \<open>cat\<close>
  copies the file to the standard output and stops at its end; \<open>wc\<close> reads all of it and prints the numbers of
  its newlines, of its words and of its bytes, as 32-bit integers; \<open>echo\<close> prints its arguments separated by
  single spaces and ended by a newline, and nothing when it has none.\<close>

theorem text_tools:
  assumes "streams S fd rest out" "length (rest w) < fuel"
  shows "(\<exists>v. cat_loop fuel fd S w = Val () v \<and> rest v = [] \<and> out v = out w @ rest w)
    \<and> (\<exists>v. rest v = [] \<and> out v = out w \<and> wc fuel fd name S w = uprintf (cs ''%d %d %d %s'' @ newline)
         [Num (of_nat (count_list (rest w) 10)), Num (of_nat (count_words False (rest w))), Num (of_nat (length (rest w))), Str (Some name)] S v)
    \<and> (\<exists>v. echo_main (a0 # as) S w = Exited 0 v
         \<and> out v = out w @ (if as = [] then [] else concat (map (\<lambda>a. a @ cs '' '') (butlast as)) @ last as @ newline))"
proof (intro conjI)
  show "\<exists>v. cat_loop fuel fd S w = Val () v \<and> rest v = [] \<and> out v = out w @ rest w"
    by (rule cat_loop_copies [OF assms])
  show "\<exists>v. rest v = [] \<and> out v = out w \<and> wc fuel fd name S w = uprintf (cs ''%d %d %d %s'' @ newline)
         [Num (of_nat (count_list (rest w) 10)), Num (of_nat (count_words False (rest w))), Num (of_nat (length (rest w))), Str (Some name)] S v"
    using wc_loop_counts [OF assms, of name "\<lparr>wc_l = 0, wc_w = 0, wc_c = 0, wc_inword = False\<rparr>"] by (simp add: wc_def wc_bytes_count)
  show "\<exists>v. echo_main (a0 # as) S w = Exited 0 v
         \<and> out v = out w @ (if as = [] then [] else concat (map (\<lambda>a. a @ cs '' '') (butlast as)) @ last as @ newline)"
    using echo_loop_prints [OF assms(1)] by (simp add: echo_main_def)
qed

theorem text_tools_witness:
  "\<exists>v. cat_loop 9 0 (stdio_os 2) \<lparr>inp = cs ''ab cd'' @ newline, outp = []\<rparr> = Val () v \<and> outp v = cs ''ab cd'' @ newline"
proof -
  have "length (inp \<lparr>inp = cs ''ab cd'' @ newline, outp = []\<rparr>) < 9" by (simp add: cs_def newline_def)
  from text_tools [where rest = inp and out = outp, OF streams_stdio this, THEN conjunct1, of 0 2] show ?thesis by auto
qed

end
