(* ===== verification/Asm.thy ===== *)
theory Asm
  imports Machine
begin

text \<open>
  The assembly files: \<open>entry.S\<close>, \<open>swtch.S\<close>, \<open>kernelvec.S\<close> and \<open>trampoline.S\<close>. The instructions they use run on
  a machine of general registers, physical memory and supervisor registers; addresses below the device
  region go through the page table that \<open>REG_SATP\<close> selects, a parameter, and an access that is misaligned
  or not mapped faults, the result \<open>None\<close>. Registers are numbered; 13 is the stack pointer, 14 the link
  register and 15 the program counter.
\<close>

section \<open>Instructions\<close>

datatype instr =
    LW nat u32 nat
  | SW nat u32 nat
  | MOVI nat u32
  | MOVHI nat u32
  | ADDI nat nat u32
  | MOV nat nat
  | CALLR nat nat
  | JMP nat u32
  | SYSRET
  | KRET

record asm =
  gpr :: "nat \<Rightarrow> u32"
  pc :: u32
  flags :: u32
  amem :: memory
  sysreg :: "u32 \<Rightarrow> u32"

type_synonym xlate = "u32 \<Rightarrow> u32 \<Rightarrow> u32 option"

definition MMIO_BASE :: u32 where "MMIO_BASE = 0x03F00000"

definition ldw :: "xlate \<Rightarrow> u32 \<Rightarrow> asm \<Rightarrow> u32 option" where
  "ldw tr a s =
     (if \<not> aligned4 a then None
      else if MMIO_BASE \<le> a then Some (sysreg s a)
      else map_option (load32 (amem s)) (tr (sysreg s REG_SATP) a))"

definition stw :: "xlate \<Rightarrow> u32 \<Rightarrow> u32 \<Rightarrow> asm \<Rightarrow> asm option" where
  "stw tr a v s =
     (if \<not> aligned4 a then None
      else if MMIO_BASE \<le> a then Some (s\<lparr>sysreg := (sysreg s)(a := v)\<rparr>)
      else map_option (\<lambda>p. s\<lparr>amem := store32 (amem s) p v\<rparr>) (tr (sysreg s REG_SATP) a))"

definition setr :: "nat \<Rightarrow> u32 \<Rightarrow> asm \<Rightarrow> asm" where
  "setr d v s = (if d = 15 then s\<lparr>pc := v\<rparr> else s\<lparr>gpr := (gpr s)(d := v)\<rparr>)"

definition step_pc :: "asm \<Rightarrow> asm" where
  "step_pc s = s\<lparr>pc := pc s + 4\<rparr>"

fun exec :: "xlate \<Rightarrow> instr \<Rightarrow> asm \<Rightarrow> asm option" where
  "exec tr (LW d off b) s = map_option (\<lambda>v. setr d v (step_pc s)) (ldw tr (gpr s b + off) s)"
| "exec tr (SW r off b) s = map_option step_pc (stw tr (gpr s b + off) (gpr s r) s)"
| "exec tr (MOVI d imm) s = Some (setr d imm (step_pc s))"
| "exec tr (MOVHI d imm) s = Some (setr d ((gpr s d AND 0xFFFF) OR push_bit 16 imm) (step_pc s))"
| "exec tr (ADDI d r imm) s = Some (setr d (gpr s r + imm) (step_pc s))"
| "exec tr (MOV d r) s = Some (setr d (gpr s r) (step_pc s))"
| "exec tr (CALLR d r) s = Some ((setr d (pc s + 4) s)\<lparr>pc := gpr s r\<rparr>)"
| "exec tr (JMP d target) s = Some ((setr d (pc s + 4) s)\<lparr>pc := target\<rparr>)"
| "exec tr SYSRET s =
     Some (s\<lparr>pc := sysreg s REG_EPC, flags := sysreg s REG_EFLAGS,
       sysreg := (sysreg s)(REG_STATUS := sysreg s REG_ESTATUS AND NOT 1)\<rparr>)"
| "exec tr KRET s =
     Some (s\<lparr>pc := sysreg s REG_EPC, flags := sysreg s REG_EFLAGS,
       sysreg := (sysreg s)(REG_STATUS := sysreg s REG_ESTATUS)\<rparr>)"

fun run :: "xlate \<Rightarrow> instr list \<Rightarrow> asm \<Rightarrow> asm option" where
  "run tr [] s = Some s"
| "run tr (i # is) s = (case exec tr i s of None \<Rightarrow> None | Some t \<Rightarrow> run tr is t)"

lemma run_append: "run tr (is @ js) s = (case run tr is s of None \<Rightarrow> None | Some t \<Rightarrow> run tr js t)"
  by (induction "is" arbitrary: s) (auto split: option.split)

section \<open>The code\<close>

definition entry_code :: "u32 \<Rightarrow> instr list" where
  "entry_code start_addr = [MOVI 11 0, MOVI 13 0xFFFC, MOVHI 13 0x03EF, JMP 14 start_addr]"

definition swtch_code :: "instr list" where
  "swtch_code =
    [SW 14 0 0, SW 13 4 0, SW 4 8 0, SW 5 12 0, SW 6 16 0, SW 7 20 0, SW 8 24 0, SW 9 28 0, SW 10 32 0, SW 11 36 0,
     LW 14 0 1, LW 13 4 1, LW 4 8 1, LW 5 12 1, LW 6 16 1, LW 7 20 1, LW 8 24 1, LW 9 28 1, LW 10 32 1, LW 11 36 1,
     MOV 15 14]"

definition uservec_code :: "instr list" where
  "uservec_code =
    [ADDI 13 13 (-4), SW 0 0 13,
     MOVI 0 0xD000, MOVHI 0 0x03EF,
     SW 14 76 0,
     SW 1 24 0, SW 2 28 0, SW 3 32 0, SW 4 36 0, SW 5 40 0, SW 6 44 0, SW 7 48 0, SW 8 52 0, SW 9 56 0, SW 10 60 0,
     SW 11 64 0, SW 12 68 0,
     ADDI 1 13 4, SW 1 72 0,
     LW 1 0 13, SW 1 20 0,
     MOV 14 0,
     MOVI 0 0xF000, MOVHI 0 0x03FF, LW 0 0 0, SW 0 12 14,
     LW 13 4 14, LW 11 16 14, LW 0 8 14, LW 1 0 14,
     MOVI 2 0xF018, MOVHI 2 0x03FF, SW 1 0 2,
     CALLR 14 0]"

definition userret_code :: "instr list" where
  "userret_code =
    [MOVI 1 0xD000, MOVHI 1 0x03EF,
     MOVI 2 0xF018, MOVHI 2 0x03FF, SW 0 0 2,
     LW 0 20 1,
     LW 2 28 1, LW 3 32 1, LW 4 36 1, LW 5 40 1, LW 6 44 1, LW 7 48 1, LW 8 52 1, LW 9 56 1, LW 10 60 1,
     LW 11 64 1, LW 12 68 1, LW 13 72 1, LW 14 76 1,
     LW 1 24 1,
     SYSRET]"

definition kernelvec_entry :: "instr list" where
  "kernelvec_entry =
    [ADDI 13 13 (-68),
     SW 0 0 13, SW 1 4 13, SW 2 8 13, SW 3 12 13, SW 4 16 13, SW 5 20 13, SW 6 24 13, SW 7 28 13, SW 8 32 13,
     SW 9 36 13, SW 10 40 13, SW 11 44 13, SW 12 48 13, SW 14 52 13,
     MOVI 0 0xF000, MOVHI 0 0x03FF, LW 4 0 0, LW 5 4 0, SW 4 56 13, SW 5 60 13,
     MOVI 0 0xF014, MOVHI 0 0x03FF, LW 0 0 0, SW 0 64 13,
     MOVI 0 0xF008, MOVHI 0 0x03FF, LW 0 0 0, LW 0 60 0,
     CALLR 14 0]"

definition kernelvec_return :: "instr list" where
  "kernelvec_return =
    [MOVI 0 0xF000, MOVHI 0 0x03FF, LW 1 56 13, LW 2 60 13, SW 1 0 0, SW 2 4 0,
     MOVI 0 0xF014, MOVHI 0 0x03FF, LW 1 64 13, SW 1 0 0,
     LW 0 0 13, LW 1 4 13, LW 2 8 13, LW 3 12 13, LW 4 16 13, LW 5 20 13, LW 6 24 13, LW 7 28 13, LW 8 32 13,
     LW 9 36 13, LW 10 40 13, LW 11 44 13, LW 12 48 13, LW 14 52 13,
     ADDI 13 13 68, KRET]"

end
