(* ===== verification/AsmProps.thy ===== *)
theory AsmProps
  imports Asm
begin

text \<open>
  What the assembly code does with the registers: the context switch, the trap from and the return to user
  mode, and interrupts of the kernel save and restore them; and what the use of the user's stack in
  \<open>uservec\<close> lets a user program do.
\<close>

section \<open>Symbolic execution\<close>

named_theorems asm_simps \<open>running assembly code\<close>

lemma setr_simps [asm_simps]:
  "gpr (setr d v s) r = (if d \<noteq> 15 \<and> r = d then v else gpr s r)" "pc (setr d v s) = (if d = 15 then v else pc s)"
  "amem (setr d v s) = amem s" "sysreg (setr d v s) = sysreg s" "flags (setr d v s) = flags s"
  by (simp_all add: setr_def)

lemma step_pc_simps [asm_simps]:
  "gpr (step_pc s) = gpr s" "pc (step_pc s) = pc s + 4" "amem (step_pc s) = amem s" "sysreg (step_pc s) = sysreg s" "flags (step_pc s) = flags s"
  by (simp_all add: step_pc_def)

lemma aligned4_plus: "aligned4 a \<Longrightarrow> aligned4 b \<Longrightarrow> aligned4 (a + b)"
proof -
  assume "aligned4 a" "aligned4 b"
  then have "unat a mod 4 = 0" "unat b mod 4 = 0" by (simp_all add: unat_aligned4)
  then have "(unat a + unat b) mod 4 = 0" by presburger
  moreover have "(unat a + unat b) mod 4294967296 mod 4 = (unat a + unat b) mod 4" by (rule mod_mod_cancel) simp
  ultimately show ?thesis by (simp add: unat_aligned4 unat_word_ariths)
qed

lemma aligned4_numeral: "aligned4 0" "aligned4 (numeral k) \<longleftrightarrow> (numeral k :: u32) AND 3 = 0"
  by (simp_all add: aligned4_def)

lemma aligned4_off [simp]: "aligned4 a \<Longrightarrow> (numeral k :: u32) AND 3 = 0 \<Longrightarrow> aligned4 (a + numeral k)"
  by (simp add: aligned4_plus aligned4_def [of "numeral k"])

text \<open>A frame of \<open>n\<close> words at address \<open>va\<close> that the current page table maps to \<open>pa\<close>, below the devices.\<close>

definition offs :: "nat \<Rightarrow> u32 set" where
  "offs n = set (map (\<lambda>i. of_nat (4 * i)) [0..<n])"

definition frame_at :: "xlate \<Rightarrow> u32 \<Rightarrow> nat \<Rightarrow> u32 \<Rightarrow> u32 \<Rightarrow> bool" where
  "frame_at tr satp n va pa \<longleftrightarrow> aligned4 va \<and> aligned4 pa \<and> (\<forall>k \<in> offs n. va + k < MMIO_BASE \<and> tr satp (va + k) = Some (pa + k))"

lemma aligned4_offs: "k \<in> offs n \<Longrightarrow> aligned4 k"
proof -
  assume "k \<in> offs n"
  then obtain i where "k = of_nat (4 * i)" by (auto simp: offs_def)
  then have "unat k = 4 * i mod 4294967296" by (simp only: unat_of_nat) simp
  moreover have "4 * i mod 4294967296 mod 4 = 4 * i mod 4" by (rule mod_mod_cancel) simp
  ultimately show ?thesis by (simp add: unat_aligned4)
qed

lemma frame_at_words:
  assumes "frame_at tr (sysreg s REG_SATP) n va pa" "k \<in> offs n"
  shows "ldw tr (va + k) s = Some (load32 (amem s) (pa + k))" "stw tr (va + k) v s = Some (s\<lparr>amem := store32 (amem s) (pa + k) v\<rparr>)"
    "aligned4 (pa + k)"
proof -
  have "aligned4 (va + k)" using assms aligned4_offs by (simp add: frame_at_def aligned4_plus)
  moreover have "va + k < MMIO_BASE \<and> tr (sysreg s REG_SATP) (va + k) = Some (pa + k)" using assms unfolding frame_at_def by blast
  ultimately show "ldw tr (va + k) s = Some (load32 (amem s) (pa + k))" "stw tr (va + k) v s = Some (s\<lparr>amem := store32 (amem s) (pa + k) v\<rparr>)"
    by (simp_all add: ldw_def stw_def linorder_not_le [symmetric])
  show "aligned4 (pa + k)" using assms aligned4_offs by (simp add: frame_at_def aligned4_plus)
qed

text \<open>Runs of stores and of loads relative to one register.\<close>

definition saves :: "nat \<Rightarrow> (nat \<times> u32) list \<Rightarrow> instr list" where
  "saves b l = map (\<lambda>(r, k). SW r k b) l"

definition loads :: "nat \<Rightarrow> (nat \<times> u32) list \<Rightarrow> instr list" where
  "loads b l = map (\<lambda>(r, k). LW r k b) l"

definition stored :: "u32 \<Rightarrow> (nat \<times> u32) list \<Rightarrow> (nat \<Rightarrow> u32) \<Rightarrow> memory \<Rightarrow> memory" where
  "stored pa l g m = fold (\<lambda>(r, k) m. store32 m (pa + k) (g r)) l m"

definition loaded :: "u32 \<Rightarrow> (nat \<times> u32) list \<Rightarrow> memory \<Rightarrow> (nat \<Rightarrow> u32) \<Rightarrow> nat \<Rightarrow> u32" where
  "loaded pa l m g = fold (\<lambda>(r, k) g. g(r := load32 m (pa + k))) l g"

lemma run_saves:
  "frame_at tr (sysreg s REG_SATP) n (gpr s b) pa \<Longrightarrow> snd ` set l \<subseteq> offs n \<Longrightarrow>
   run tr (saves b l @ rest) s = run tr rest (s\<lparr>pc := pc s + 4 * of_nat (length l), amem := stored pa l (gpr s) (amem s)\<rparr>)"
proof (induction l arbitrary: s)
  case (Cons rk l)
  obtain r k where rk: "rk = (r, k)" by fastforce
  have "stw tr (gpr s b + k) (gpr s r) s = Some (s\<lparr>amem := store32 (amem s) (pa + k) (gpr s r)\<rparr>)"
    using Cons.prems by (intro frame_at_words) (auto simp: rk)
  moreover have "s\<lparr>amem := x, pc := y, pc := z, amem := w\<rparr> = s\<lparr>pc := z, amem := w\<rparr>" for x y z w by (cases s) simp
  ultimately show ?case using Cons.prems Cons.IH [of "s\<lparr>amem := store32 (amem s) (pa + k) (gpr s r), pc := pc s + 4\<rparr>"]
    by (simp add: rk saves_def stored_def step_pc_def algebra_simps)
qed (simp add: saves_def stored_def)

lemma run_loads:
  "frame_at tr (sysreg s REG_SATP) n (gpr s b) pa \<Longrightarrow> snd ` set l \<subseteq> offs n \<Longrightarrow> b \<notin> fst ` set l \<Longrightarrow> 15 \<notin> fst ` set l \<Longrightarrow>
   run tr (loads b l @ rest) s = run tr rest (s\<lparr>gpr := loaded pa l (amem s) (gpr s), pc := pc s + 4 * of_nat (length l)\<rparr>)"
proof (induction l arbitrary: s)
  case (Cons rk l)
  obtain r k where rk: "rk = (r, k)" by fastforce
  have "ldw tr (gpr s b + k) s = Some (load32 (amem s) (pa + k))"
    using Cons.prems by (intro frame_at_words) (auto simp: rk)
  moreover have "s\<lparr>pc := y, gpr := x, gpr := w, pc := z\<rparr> = s\<lparr>gpr := w, pc := z\<rparr>" for x y z w by (cases s) simp
  ultimately show ?case using Cons.prems Cons.IH [of "s\<lparr>pc := pc s + 4, gpr := (gpr s)(r := load32 (amem s) (pa + k))\<rparr>"]
    by (simp add: rk loads_def loaded_def step_pc_def setr_def fun_upd_def algebra_simps)
qed (simp add: loads_def loaded_def)

lemma stored_other: "aligned4 x \<Longrightarrow> aligned4 pa \<Longrightarrow> \<forall>k \<in> snd ` set l. aligned4 k \<and> x \<noteq> pa + k \<Longrightarrow> load32 (stored pa l g m) x = load32 m x"
proof (induction l arbitrary: m)
  case (Cons rk l)
  then have "load32 (store32 m (pa + snd rk) (g (fst rk))) x = load32 m x" by (intro load32_store32_other) (auto simp: aligned4_plus)
  then show ?case using Cons by (simp add: stored_def case_prod_beta)
qed (simp add: stored_def)

lemma stored_word:
  "distinct (map snd l) \<Longrightarrow> (r, k) \<in> set l \<Longrightarrow> aligned4 pa \<Longrightarrow> \<forall>k \<in> snd ` set l. aligned4 k \<Longrightarrow> load32 (stored pa l g m) (pa + k) = g r"
proof (induction l arbitrary: m)
  case (Cons rk l)
  have e: "stored pa (rk # l) g m = stored pa l g (store32 m (pa + snd rk) (g (fst rk)))" by (simp add: stored_def case_prod_beta)
  show ?case
  proof (cases "rk = (r, k)")
    case True
    have "load32 (stored pa l g (store32 m (pa + k) (g r))) (pa + k) = load32 (store32 m (pa + k) (g r)) (pa + k)"
      using Cons.prems True by (intro stored_other) (auto simp: aligned4_plus)
    then show ?thesis using True e by simp
  next
    case False
    then show ?thesis using Cons e by auto
  qed
qed simp

lemma loaded_other: "r \<notin> fst ` set l \<Longrightarrow> loaded pa l m g r = g r"
  by (induction l arbitrary: g) (auto simp: loaded_def)

lemma loaded_reg: "distinct (map fst l) \<Longrightarrow> (r, k) \<in> set l \<Longrightarrow> loaded pa l m g r = load32 m (pa + k)"
proof (induction l arbitrary: g)
  case (Cons rk l)
  have e: "loaded pa (rk # l) m g = loaded pa l m (g(fst rk := load32 m (pa + snd rk)))" by (simp add: loaded_def case_prod_beta)
  show ?case
  proof (cases "rk = (r, k)")
    case True
    then have "r \<notin> fst ` set l" using Cons.prems by simp
    then show ?thesis using e True loaded_other [of r l] by simp
  next
    case False
    then show ?thesis using Cons e by auto
  qed
qed simp

section \<open>The context switch\<close>

text \<open>The registers of a context and their places in it.\<close>

definition ctx_regs :: "(nat \<times> u32) list" where
  "ctx_regs = [(14, 0), (13, 4), (4, 8), (5, 12), (6, 16), (7, 20), (8, 24), (9, 28), (10, 32), (11, 36)]"

lemma offs_ctx: "snd ` set ctx_regs \<subseteq> offs 10" "distinct (map snd ctx_regs)" "distinct (map fst ctx_regs)"
  by (auto simp: ctx_regs_def offs_def upt_rec)

lemma swtch_code_eq: "swtch_code = saves 0 ctx_regs @ loads 1 ctx_regs @ [MOV 15 14]"
  by (simp add: swtch_code_def saves_def loads_def ctx_regs_def)

lemma swtch_run:
  assumes old: "frame_at tr (sysreg s REG_SATP) 10 (gpr s 0) a" and new: "frame_at tr (sysreg s REG_SATP) 10 (gpr s 1) b"
    and sep: "\<forall>k \<in> offs 10. \<forall>j \<in> offs 10. a + k \<noteq> b + j"
  obtains t where "run tr swtch_code s = Some t" "pc t = load32 (amem s) b" "sysreg t = sysreg s"
    "\<And>r k. (r, k) \<in> set ctx_regs \<Longrightarrow> gpr t r = load32 (amem s) (b + k) \<and> load32 (amem t) (a + k) = gpr s r"
proof -
  let ?m = "stored a ctx_regs (gpr s) (amem s)" let ?g = "loaded b ctx_regs ?m (gpr s)"
  let ?t = "s\<lparr>pc := pc s + 40, amem := ?m, gpr := ?g\<rparr>"
  have al: "aligned4 a" "aligned4 b" using old new by (simp_all add: frame_at_def)
  have ak: "\<forall>k \<in> snd ` set ctx_regs. aligned4 k" using offs_ctx(1) aligned4_offs by blast
  have same: "load32 ?m (b + k) = load32 (amem s) (b + k)" if "k \<in> offs 10" for k
    using stored_other [of "b + k" a ctx_regs] that sep offs_ctx(1) aligned4_offs al by (metis (no_types, lifting) aligned4_plus subsetD)
  have g: "?g r = load32 (amem s) (b + k)" if "(r, k) \<in> set ctx_regs" for r k
    using loaded_reg [OF offs_ctx(3) that] same offs_ctx(1) that by force
  have "run tr swtch_code s = run tr (loads 1 ctx_regs @ [MOV 15 14]) (s\<lparr>pc := pc s + 40, amem := ?m\<rparr>)"
    unfolding swtch_code_eq by (subst run_saves [OF old offs_ctx(1)]) (simp add: ctx_regs_def)
  also have "\<dots> = run tr [MOV 15 14] (s\<lparr>pc := pc s + 40, amem := ?m, gpr := ?g, pc := pc s + 80\<rparr>)"
    by (subst run_loads [where n = 10 and pa = b]) (use new offs_ctx(1) in \<open>auto simp: ctx_regs_def add.commute\<close>)
  also have "\<dots> = Some (?t\<lparr>pc := load32 (amem s) b\<rparr>)"
    using g [of 14 0] by (cases s) (simp add: setr_def step_pc_def ctx_regs_def)
  finally show thesis
    using g stored_word [OF offs_ctx(2) _ al(1) ak] by (intro that [of "?t\<lparr>pc := load32 (amem s) b\<rparr>"]) auto
qed

section \<open>From user mode and back\<close>

definition TRAPFRAME_va :: u32 where "TRAPFRAME_va = 0x03EFD000"

text \<open>The places of the user registers in the trap frame.\<close>

definition tf_regs :: "(nat \<times> u32) list" where
  "tf_regs = [(0, 20), (1, 24), (2, 28), (3, 32), (4, 36), (5, 40), (6, 44), (7, 48), (8, 52), (9, 56), (10, 60), (11, 64), (12, 68),
     (13, 72), (14, 76)]"

definition tf_first :: "(nat \<times> u32) list" where
  "tf_first = [(14, 76), (1, 24), (2, 28), (3, 32), (4, 36), (5, 40), (6, 44), (7, 48), (8, 52), (9, 56), (10, 60), (11, 64), (12, 68)]"

definition tf_kernel :: "(nat \<times> u32) list" where
  "tf_kernel = [(13, 4), (11, 16), (0, 8), (1, 0)]"

lemma offs_20: "offs 20 = {0, 4, 8, 12, 16, 20, 24, 28, 32, 36, 40, 44, 48, 52, 56, 60, 64, 68, 72, 76}"
  by (simp add: offs_def upt_rec)

lemma offs_tf: "snd ` set tf_regs \<subseteq> offs 20" "snd ` set tf_first \<subseteq> offs 20" "snd ` set tf_kernel \<subseteq> offs 20"
  "distinct (map snd tf_first)" "distinct (map fst tf_kernel)" "distinct (map snd tf_regs)" "distinct (map fst tf_regs)"
  by (auto simp: offs_20 tf_regs_def tf_first_def tf_kernel_def)

lemma uservec_code_eq: "uservec_code = [ADDI 13 13 (-4), SW 0 0 13, MOVI 0 0xD000, MOVHI 0 0x03EF] @ saves 0 tf_first
  @ [ADDI 1 13 4, SW 1 72 0, LW 1 0 13, SW 1 20 0, MOV 14 0, MOVI 0 0xF000, MOVHI 0 0x03FF, LW 0 0 0, SW 0 12 14]
  @ loads 14 tf_kernel @ [MOVI 2 0xF018, MOVHI 2 0x03FF, SW 1 0 2, CALLR 14 0]"
  by (simp add: uservec_code_def saves_def loads_def tf_first_def tf_kernel_def)

text \<open>The word below the user's stack pointer, where \<open>uservec\<close> parks a register.\<close>

definition slot_at :: "xlate \<Rightarrow> u32 \<Rightarrow> u32 \<Rightarrow> u32 \<Rightarrow> bool" where
  "slot_at tr satp sp q \<longleftrightarrow> aligned4 (sp - 4) \<and> sp - 4 < MMIO_BASE \<and> tr satp (sp - 4) = Some q \<and> aligned4 q"

lemma slot_at_access:
  assumes "slot_at tr (sysreg s REG_SATP) sp q"
  shows "ldw tr (sp - 4) s = Some (load32 (amem s) q)" "stw tr (sp - 4) v s = Some (s\<lparr>amem := store32 (amem s) q v\<rparr>)"
  using assms by (simp_all add: slot_at_def ldw_def stw_def linorder_not_le [symmetric])

text \<open>The state in which \<open>uservec\<close> calls the kernel, when the slot is \<open>q\<close> and the trap frame is at \<open>tf\<close>.\<close>

definition uservec_mem :: "u32 \<Rightarrow> u32 \<Rightarrow> asm \<Rightarrow> memory" where
  "uservec_mem tf q s =
     (let m1 = stored tf tf_first (gpr s) (store32 (amem s) q (gpr s 0)); m2 = store32 m1 (tf + 72) (gpr s 13);
          m3 = store32 m2 (tf + 20) (load32 m2 q) in store32 m3 (tf + 12) (sysreg s REG_EPC))"

lemma run_step: "exec tr i s = Some t \<Longrightarrow> run tr (i # is) s = run tr is t"
  by simp

text \<open>The two halves: saving the user's registers, and loading the kernel's.\<close>

lemma uservec_saves:
  assumes tf: "frame_at tr (sysreg s REG_SATP) 20 TRAPFRAME_va tf" and q: "slot_at tr (sysreg s REG_SATP) (gpr s 13) q"
  shows "run tr ([ADDI 13 13 (-4), SW 0 0 13, MOVI 0 0xD000, MOVHI 0 0x03EF] @ saves 0 tf_first @ is) s =
    run tr is (s\<lparr>gpr := (gpr s)(13 := gpr s 13 - 4, 0 := TRAPFRAME_va), pc := pc s + 68,
      amem := stored tf tf_first (gpr s) (store32 (amem s) q (gpr s 0))\<rparr>)"
proof -
  let ?g = "(gpr s)(13 := gpr s 13 - 4, 0 := TRAPFRAME_va)" let ?m = "store32 (amem s) q (gpr s 0)"
  have "run tr ([ADDI 13 13 (-4), SW 0 0 13, MOVI 0 0xD000, MOVHI 0 0x03EF] @ saves 0 tf_first @ is) s =
    run tr (saves 0 tf_first @ is) (s\<lparr>gpr := ?g, pc := pc s + 16, amem := ?m\<rparr>)"
    using q slot_at_access [where q = q and tr = tr and sp = "gpr s 13"]
    by (cases s) (simp add: setr_def step_pc_def TRAPFRAME_va_def add.commute)
  also have "\<dots> = run tr is (s\<lparr>gpr := ?g, pc := pc s + 68, amem := stored tf tf_first ?g ?m\<rparr>)"
    using tf by (subst run_saves [where n = 20 and pa = tf]) (auto simp: offs_20 tf_first_def add.commute)
  also have "stored tf tf_first ?g ?m = stored tf tf_first (gpr s) ?m" by (simp add: stored_def tf_first_def)
  finally show ?thesis .
qed

lemma uservec_loads:
  assumes tf: "frame_at tr (sysreg s REG_SATP) 20 TRAPFRAME_va tf" and q: "slot_at tr (sysreg s REG_SATP) sp q"
    and s: "gpr s 0 = TRAPFRAME_va" "gpr s 13 = sp - 4"
    and m: "m = (let m2 = store32 (amem s) (tf + 72) sp; m3 = store32 m2 (tf + 20) (load32 m2 q) in store32 m3 (tf + 12) (sysreg s REG_EPC))"
  shows "\<exists>t. run tr ([ADDI 1 13 4, SW 1 72 0, LW 1 0 13, SW 1 20 0, MOV 14 0, MOVI 0 0xF000, MOVHI 0 0x03FF, LW 0 0 0, SW 0 12 14]
      @ loads 14 tf_kernel @ [MOVI 2 0xF018, MOVHI 2 0x03FF, SW 1 0 2, CALLR 14 0]) s = Some t
    \<and> amem t = m \<and> pc t = load32 m (tf + 8) \<and> gpr t 13 = load32 m (tf + 4) \<and> gpr t 11 = load32 m (tf + 16)
    \<and> sysreg t = (sysreg s)(REG_SATP := load32 m tf) \<and> gpr t 14 = pc s + 68"
proof -
  have w: "stw tr (TRAPFRAME_va + k) v u = Some (u\<lparr>amem := store32 (amem u) (tf + k) v\<rparr>)"
    if "k \<in> {12, 20, 72}" "sysreg u = sysreg s" for k u v using frame_at_words(2) [of tr u 20 TRAPFRAME_va tf k] tf that by (auto simp: offs_20)
  note slot = slot_at_access [where q = q and tr = tr and sp = sp]
  have epc: "ldw tr 0x03FFF000 u = Some (sysreg u REG_EPC)" for u by (simp add: ldw_def MMIO_BASE_def aligned4_def reg_defs)
  have satp: "stw tr 0x03FFF018 v u = Some (u\<lparr>sysreg := (sysreg u)(REG_SATP := v)\<rparr>)" for u v by (simp add: stw_def MMIO_BASE_def aligned4_def reg_defs)
  let ?g = "(gpr s)(1 := load32 (store32 (amem s) (tf + 72) sp) q, 14 := TRAPFRAME_va, 0 := sysreg s REG_EPC)"
  have "run tr ([ADDI 1 13 4, SW 1 72 0, LW 1 0 13, SW 1 20 0, MOV 14 0, MOVI 0 0xF000, MOVHI 0 0x03FF, LW 0 0 0, SW 0 12 14] @ is) s
      = run tr is (s\<lparr>gpr := ?g, pc := pc s + 36, amem := m\<rparr>)" for "is"
    using s q w [of 12] w [of 20] w [of 72] slot epc by (cases s) (simp add: setr_def step_pc_def m Let_def add.commute)
  moreover have "run tr (loads 14 tf_kernel @ is) (s\<lparr>gpr := ?g, pc := pc s + 36, amem := m\<rparr>)
      = run tr is (s\<lparr>gpr := loaded tf tf_kernel m ?g, pc := pc s + 52, amem := m\<rparr>)" for "is"
    using tf by (subst run_loads [where n = 20 and pa = tf]) ((cases s, simp add: offs_20 tf_kernel_def add.commute)+)
  moreover have "loaded tf tf_kernel m ?g r = load32 m (tf + k)" if "(r, k) \<in> set tf_kernel" for r k by (rule loaded_reg [OF offs_tf(5) that])
  note this [of 13 4] this [of 11 16] this [of 0 8] this [of 1 0]
  ultimately show ?thesis using satp by (cases s) (simp add: setr_def step_pc_def tf_kernel_def add.commute)
qed

lemma uservec_run:
  assumes tf: "frame_at tr (sysreg s REG_SATP) 20 TRAPFRAME_va tf" and q: "slot_at tr (sysreg s REG_SATP) (gpr s 13) q"
  shows "\<exists>t. run tr uservec_code s = Some t \<and> amem t = uservec_mem tf q s \<and> pc t = load32 (amem t) (tf + 8)
    \<and> gpr t 13 = load32 (amem t) (tf + 4) \<and> gpr t 11 = load32 (amem t) (tf + 16)
    \<and> sysreg t = (sysreg s)(REG_SATP := load32 (amem t) tf) \<and> gpr t 14 = pc s + 136"
proof -
  let ?s = "s\<lparr>gpr := (gpr s)(13 := gpr s 13 - 4, 0 := TRAPFRAME_va), pc := pc s + 68, amem := stored tf tf_first (gpr s) (store32 (amem s) q (gpr s 0))\<rparr>"
  have "\<exists>t. run tr ([ADDI 1 13 4, SW 1 72 0, LW 1 0 13, SW 1 20 0, MOV 14 0, MOVI 0 0xF000, MOVHI 0 0x03FF, LW 0 0 0, SW 0 12 14]
      @ loads 14 tf_kernel @ [MOVI 2 0xF018, MOVHI 2 0x03FF, SW 1 0 2, CALLR 14 0]) ?s = Some t
    \<and> amem t = uservec_mem tf q s \<and> pc t = load32 (uservec_mem tf q s) (tf + 8) \<and> gpr t 13 = load32 (uservec_mem tf q s) (tf + 4)
    \<and> gpr t 11 = load32 (uservec_mem tf q s) (tf + 16)
    \<and> sysreg t = (sysreg ?s)(REG_SATP := load32 (uservec_mem tf q s) tf) \<and> gpr t 14 = pc ?s + 68"
    by (rule uservec_loads [where q = q and sp = "gpr s 13"]) (use tf q in \<open>simp_all add: uservec_mem_def Let_def\<close>)
  then show ?thesis unfolding uservec_code_eq uservec_saves [OF tf q] by auto
qed

text \<open>The way back: all fifteen registers come out of the trap frame.\<close>

definition tf_back :: "(nat \<times> u32) list" where
  "tf_back = [(0, 20), (2, 28), (3, 32), (4, 36), (5, 40), (6, 44), (7, 48), (8, 52), (9, 56), (10, 60), (11, 64), (12, 68),
     (13, 72), (14, 76)]"

lemma userret_code_eq: "userret_code = [MOVI 1 0xD000, MOVHI 1 0x03EF, MOVI 2 0xF018, MOVHI 2 0x03FF, SW 0 0 2] @ loads 1 tf_back @ [LW 1 24 1, SYSRET]"
  by (simp add: userret_code_def loads_def tf_back_def)

lemma tf_back: "snd ` set tf_back \<subseteq> offs 20" "distinct (map fst tf_back)" "set tf_regs = insert (1, 24) (set tf_back)"
  by (auto simp: offs_20 tf_back_def tf_regs_def)

lemma userret_run:
  assumes tf: "frame_at tr (gpr s 0) 20 TRAPFRAME_va tf"
  shows "\<exists>t. run tr userret_code s = Some t \<and> (\<forall>(r, k) \<in> set tf_regs. gpr t r = load32 (amem s) (tf + k)) \<and> amem t = amem s
    \<and> pc t = sysreg s REG_EPC \<and> flags t = sysreg s REG_EFLAGS
    \<and> sysreg t = (sysreg s)(REG_SATP := gpr s 0, REG_STATUS := sysreg s REG_ESTATUS AND NOT 1)"
proof -
  let ?g = "(gpr s)(1 := TRAPFRAME_va, 2 := REG_SATP)" let ?r = "(sysreg s)(REG_SATP := gpr s 0)"
  have satp: "stw tr 0x03FFF018 v u = Some (u\<lparr>sysreg := (sysreg u)(REG_SATP := v)\<rparr>)" for u v by (simp add: stw_def MMIO_BASE_def aligned4_def reg_defs)
  have "run tr userret_code s = run tr (loads 1 tf_back @ [LW 1 24 1, SYSRET]) (s\<lparr>gpr := ?g, pc := pc s + 20, sysreg := ?r\<rparr>)"
    unfolding userret_code_eq using satp by (cases s) (simp add: setr_def step_pc_def TRAPFRAME_va_def reg_defs add.commute)
  also have "\<dots> = run tr [LW 1 24 1, SYSRET] (s\<lparr>gpr := loaded tf tf_back (amem s) ?g, pc := pc s + 76, sysreg := ?r\<rparr>)"
    using tf tf_back by (subst run_loads [where n = 20 and pa = tf]) ((cases s, simp add: tf_back_def add.commute)+)
  also have "\<dots> = run tr [SYSRET] (s\<lparr>gpr := (loaded tf tf_back (amem s) ?g)(1 := load32 (amem s) (tf + 24)), pc := pc s + 80, sysreg := ?r\<rparr>)"
    using frame_at_words(1) [of tr "s\<lparr>gpr := g, pc := p, sysreg := ?r\<rparr>" 20 TRAPFRAME_va tf 24 for g p] tf loaded_other [of 1 tf_back]
    by (cases s) (simp add: setr_def step_pc_def offs_20 tf_back_def add.commute)
  finally show ?thesis using loaded_reg [OF tf_back(2)] tf_back(3) by (auto simp: tf_back_def reg_defs)
qed

text \<open>What \<open>uservec\<close> leaves in the trap frame, when the slot is outside it.\<close>

lemma store_offs:
  assumes "aligned4 tf" "k \<in> offs n" "j \<in> offs n"
  shows "load32 (store32 m (tf + j) v) (tf + k) = (if j = k then v else load32 m (tf + k))"
  using assms aligned4_offs [of k n] aligned4_offs [of j n] by (auto simp: aligned4_plus load32_store32_other)

lemma uservec_mem_saved:
  assumes tf: "aligned4 tf" and q: "aligned4 q" "\<forall>k \<in> offs 20. q \<noteq> tf + k" and rk: "(r, k) \<in> set tf_regs"
  shows "load32 (uservec_mem tf q s) (tf + k) = gpr s r"
proof -
  let ?m = "stored tf tf_first (gpr s) (store32 (amem s) q (gpr s 0))"
  have al: "\<forall>k \<in> snd ` set tf_first. aligned4 k" using offs_tf(2) aligned4_offs by blast
  have k: "k \<in> offs 20" using rk offs_tf(1) by force
  have o: "(12 :: u32) \<in> offs 20" "(20 :: u32) \<in> offs 20" "(72 :: u32) \<in> offs 20" by (simp_all add: offs_20)
  have "load32 (store32 m (tf + 72) v) q = load32 m q" for m v using q tf o by (intro load32_store32_other) (auto simp: aligned4_plus aligned4_offs)
  moreover have "load32 ?m q = gpr s 0"
    using stored_other [OF q(1) tf] q offs_tf(2) al by (simp add: subset_iff)
  moreover have "load32 ?m (tf + k) = gpr s r" if "(r, k) \<in> set tf_first" by (rule stored_word [OF offs_tf(4) that tf al])
  moreover have "(r, k) \<in> set tf_first \<or> (r, k) = (13, 72) \<or> (r, k) = (0, 20)" using rk by (auto simp: tf_regs_def tf_first_def)
  moreover have "(r, k) \<in> set tf_first \<Longrightarrow> k \<noteq> 12 \<and> k \<noteq> 20 \<and> k \<noteq> 72" by (auto simp: tf_first_def)
  ultimately show ?thesis using o k by (auto simp: uservec_mem_def Let_def store_offs [OF tf])
qed

lemma uservec_mem_kernel:
  assumes tf: "aligned4 tf" and q: "aligned4 q" and k: "k \<in> {0, 4, 8, 16}"
  shows "load32 (uservec_mem tf q s) (tf + k) = (if q = tf + k then gpr s 0 else load32 (amem s) (tf + k))"
    "load32 (uservec_mem tf q s) (tf + 12) = sysreg s REG_EPC"
proof -
  let ?m = "stored tf tf_first (gpr s) (store32 (amem s) q (gpr s 0))"
  have al: "\<forall>k \<in> snd ` set tf_first. aligned4 k" using offs_tf(2) aligned4_offs by blast
  have o: "(12 :: u32) \<in> offs 20" "(20 :: u32) \<in> offs 20" "(72 :: u32) \<in> offs 20" "k \<in> offs 20" using k by (auto simp: offs_20)
  have "load32 ?m (tf + k) = load32 (store32 (amem s) q (gpr s 0)) (tf + k)"
    using tf al k by (intro stored_other) (auto simp: tf_first_def aligned4_plus aligned4_offs o)
  moreover have "load32 (store32 (amem s) q (gpr s 0)) (tf + k) = (if q = tf + k then gpr s 0 else load32 (amem s) (tf + k))"
    using q tf aligned4_offs [OF o(4)] by (auto simp: load32_store32_other aligned4_plus)
  ultimately show "load32 (uservec_mem tf q s) (tf + k) = (if q = tf + k then gpr s 0 else load32 (amem s) (tf + k))"
    "load32 (uservec_mem tf q s) (tf + 12) = sysreg s REG_EPC"
    using k by (auto simp: uservec_mem_def Let_def store_offs [OF tf o(4)] store_offs [OF tf o(1)] o)
qed

text \<open>What \<open>userret\<close> needs of the kernel, called with the user's page table: the registers in the trap frame are those that
  \<open>uservec\<close> saved and \<open>REG_EPC\<close> is loaded from it.\<close>

definition handled :: "xlate \<Rightarrow> u32 \<Rightarrow> asm \<Rightarrow> asm \<Rightarrow> bool" where
  "handled tr tf t u \<longleftrightarrow> frame_at tr (gpr u 0) 20 TRAPFRAME_va tf \<and> (\<forall>k \<in> set (map snd tf_regs). load32 (amem u) (tf + k) = load32 (amem t) (tf + k))
     \<and> sysreg u REG_EPC = load32 (amem t) (tf + 12)"

definition in_user_mode :: "asm \<Rightarrow> bool" where
  "in_user_mode s \<longleftrightarrow> sysreg s REG_STATUS AND 1 = 0"

text \<open>Two states that agree on every register a user program sees, the program counter included.\<close>

definition same_regs :: "asm \<Rightarrow> asm \<Rightarrow> bool" where
  "same_regs s t \<longleftrightarrow> (\<forall>r \<in> set [0..<15]. gpr t r = gpr s r)"

lemma tf_regs_dom: "set [0..<15] = fst ` set tf_regs"
  by (simp add: tf_regs_def upt_rec numeral_eq_Suc)

lemma same_regs_tf: "same_regs s t \<longleftrightarrow> (\<forall>(r, k) \<in> set tf_regs. gpr t r = gpr s r)"
  by (auto simp: same_regs_def tf_regs_dom simp del: set_upt)

text \<open>C36: A trap from user mode is invisible to the program. When the word below the user's stack pointer is mapped and is
  not in the trap frame, \<open>uservec\<close> runs to its end: it enters the kernel at \<open>kernel_trap\<close>, on \<open>kernel_sp\<close>, under
  \<open>kernel_satp\<close>, with the user's program counter in the trap frame. If the kernel then calls \<open>userret\<close> with the saved
  registers as they were, \<open>userret\<close> runs to its end in user mode, at the interrupted instruction, with all fifteen
  registers as they were.\<close>

theorem user_trap_roundtrip:
  assumes tf: "frame_at tr (sysreg s REG_SATP) 20 TRAPFRAME_va tf" and q: "slot_at tr (sysreg s REG_SATP) (gpr s 13) q"
    and apart: "\<forall>k \<in> offs 20. q \<noteq> tf + k"
  shows "\<exists>t. run tr uservec_code s = Some t \<and> pc t = load32 (amem s) (tf + 8) \<and> gpr t 13 = load32 (amem s) (tf + 4)
    \<and> sysreg t = (sysreg s)(REG_SATP := load32 (amem s) tf) \<and> load32 (amem t) (tf + 12) = sysreg s REG_EPC
    \<and> (\<forall>u. handled tr tf t u \<longrightarrow>
        (\<exists>v. run tr userret_code u = Some v \<and> same_regs s v \<and> pc v = sysreg s REG_EPC \<and> in_user_mode v \<and> sysreg v REG_SATP = gpr u 0))"
proof -
  have al: "aligned4 tf" "aligned4 q" using tf q by (simp_all add: frame_at_def slot_at_def)
  obtain t where t: "run tr uservec_code s = Some t" "amem t = uservec_mem tf q s" "pc t = load32 (amem t) (tf + 8)"
    "gpr t 13 = load32 (amem t) (tf + 4)" "sysreg t = (sysreg s)(REG_SATP := load32 (amem t) tf)"
    using uservec_run [OF tf q] by auto
  note kernel = uservec_mem_kernel [OF al, of _ s] and saved = uservec_mem_saved [OF al apart, of _ _ s]
  have "\<exists>v. run tr userret_code u = Some v \<and> same_regs s v \<and> pc v = sysreg s REG_EPC \<and> in_user_mode v \<and> sysreg v REG_SATP = gpr u 0"
    if u: "handled tr tf t u" for u
  proof -
    obtain v where v: "run tr userret_code u = Some v" "\<forall>(r, k) \<in> set tf_regs. gpr v r = load32 (amem u) (tf + k)" "pc v = sysreg u REG_EPC"
      "sysreg v = (sysreg u)(REG_SATP := gpr u 0, REG_STATUS := sysreg u REG_ESTATUS AND NOT 1)"
      using userret_run [of tr u tf] u by (auto simp: handled_def)
    have "same_regs s v" using v(2) u saved t(2) unfolding same_regs_tf handled_def by force
    then show ?thesis using v u t(2) kernel(2) [of 0] by (auto simp: handled_def in_user_mode_def reg_defs bit_simps and.assoc)
  qed
  then show ?thesis using t kernel(1) [of 0] kernel(1) [of 4] kernel(1) [of 8] kernel(2) [of 0] apart by (auto simp: offs_20)
qed

text \<open>A user program at a trap, under a page table that maps every address to itself.\<close>

definition uasm0 :: asm where
  "uasm0 = \<lparr>gpr = (\<lambda>r. if r = 13 then 0x4000 else of_nat r), pc = 0x100, flags = 0, amem = (\<lambda>_. 0), sysreg = (\<lambda>_. 0)\<rparr>"

lemma uasm0_frame: "frame_at (\<lambda>_. Some) satp 20 TRAPFRAME_va TRAPFRAME_va"
  by (simp add: frame_at_def offs_20 TRAPFRAME_va_def MMIO_BASE_def aligned4_def)

theorem user_trap_roundtrip_witness:
  "\<exists>t v. run (\<lambda>_. Some) uservec_code uasm0 = Some t \<and> handled (\<lambda>_. Some) TRAPFRAME_va t (t\<lparr>gpr := (gpr t)(0 := 5)\<rparr>)
    \<and> run (\<lambda>_. Some) userret_code (t\<lparr>gpr := (gpr t)(0 := 5)\<rparr>) = Some v \<and> same_regs uasm0 v \<and> in_user_mode v"
proof -
  have slot: "slot_at (\<lambda>_. Some) (sysreg uasm0 REG_SATP) (gpr uasm0 13) 0x3FFC" by (simp add: slot_at_def uasm0_def MMIO_BASE_def aligned4_def)
  have apart: "\<forall>k \<in> offs 20. 0x3FFC \<noteq> TRAPFRAME_va + k" by (simp add: offs_20 TRAPFRAME_va_def)
  obtain t where t: "run (\<lambda>_. Some) uservec_code uasm0 = Some t" "sysreg t REG_EPC = load32 (amem t) (TRAPFRAME_va + 12)"
    "\<forall>u. handled (\<lambda>_. Some) TRAPFRAME_va t u \<longrightarrow> (\<exists>v. run (\<lambda>_. Some) userret_code u = Some v \<and> same_regs uasm0 v \<and> in_user_mode v)"
    using user_trap_roundtrip [OF uasm0_frame slot apart] by (fastforce simp: reg_defs)
  moreover have "handled (\<lambda>_. Some) TRAPFRAME_va t (t\<lparr>gpr := (gpr t)(0 := 5)\<rparr>)" using t(2) uasm0_frame by (simp add: handled_def)
  ultimately show ?thesis by blast
qed

text \<open>C39: The word below the user's stack pointer is written in supervisor mode, so the stack pointer can name the trap
  frame itself. A program that traps with its stack pointer at \<open>TRAPFRAME + 12\<close> makes \<open>uservec\<close> overwrite
  \<open>kernel_trap\<close>: \<open>uservec\<close> then jumps to the address the program had in \<open>r0\<close>, on the kernel stack and under the kernel's
  page table, without leaving supervisor mode.\<close>

theorem uservec_hijack:
  assumes tf: "frame_at tr (sysreg s REG_SATP) 20 TRAPFRAME_va tf" and sp: "gpr s 13 = TRAPFRAME_va + 12"
  shows "\<exists>t. run tr uservec_code s = Some t \<and> pc t = gpr s 0 \<and> gpr t 13 = load32 (amem s) (tf + 4)
    \<and> sysreg t = (sysreg s)(REG_SATP := load32 (amem s) tf)"
proof -
  have o: "(8 :: u32) \<in> offs 20" by (simp add: offs_20)
  have al: "aligned4 tf" "aligned4 (tf + 8)" using tf o aligned4_offs [of 8 20] by (simp_all add: frame_at_def aligned4_plus)
  have q: "slot_at tr (sysreg s REG_SATP) (gpr s 13) (tf + 8)"
    using tf o al aligned4_offs [of 8 20] unfolding slot_at_def frame_at_def sp by (auto simp: aligned4_plus add.commute [of 8])
  show ?thesis using uservec_run [OF tf q] uservec_mem_kernel(1) [OF al, of 8 s] uservec_mem_kernel(1) [OF al, of 4 s] uservec_mem_kernel(1) [OF al, of 0 s]
    by auto
qed

theorem uservec_hijack_witness:
  "\<exists>t. run (\<lambda>_. Some) uservec_code (uasm0\<lparr>gpr := (gpr uasm0)(13 := TRAPFRAME_va + 12, 0 := 0xBAD)\<rparr>) = Some t \<and> pc t = 0xBAD"
  using uservec_hijack [OF uasm0_frame, of "uasm0\<lparr>gpr := (gpr uasm0)(13 := TRAPFRAME_va + 12, 0 := 0xBAD)\<rparr>"] by auto

end
