(* ===== verification/KernelVec.thy ===== *)
theory KernelVec
  imports AsmProps
begin

text \<open>
  Kernel threads at the level of the assembly code: an interrupt of the kernel (\<open>kernelvec.S\<close>) and a switch away from a
  thread and back (\<open>swtch.S\<close>) leave its registers as they were.
\<close>

section \<open>Interrupts of the kernel\<close>

text \<open>The registers of the frame on the kernel stack, and the whole code by parts.\<close>

definition kv_regs :: "(nat \<times> u32) list" where
  "kv_regs = [(0, 0), (1, 4), (2, 8), (3, 12), (4, 16), (5, 20), (6, 24), (7, 28), (8, 32), (9, 36), (10, 40), (11, 44), (12, 48), (14, 52)]"

lemma offs_17: "offs 17 = {0, 4, 8, 12, 16, 20, 24, 28, 32, 36, 40, 44, 48, 52, 56, 60, 64}"
  by (simp add: offs_def upt_rec)

lemma offs_kv: "snd ` set kv_regs \<subseteq> offs 17" "distinct (map fst kv_regs)" "distinct (map snd kv_regs)"
  by (auto simp: offs_17 kv_regs_def)

lemma kernelvec_entry_eq: "kernelvec_entry = [ADDI 13 13 (-68)] @ saves 13 kv_regs @ [MOVI 0 0xF000, MOVHI 0 0x03FF, LW 4 0 0, LW 5 4 0]
  @ saves 13 [(4, 56), (5, 60)] @ [MOVI 0 0xF014, MOVHI 0 0x03FF, LW 0 0 0] @ saves 13 [(0, 64)]
  @ [MOVI 0 0xF008, MOVHI 0 0x03FF, LW 0 0 0, LW 0 60 0, CALLR 14 0]"
  by (simp add: kernelvec_entry_def saves_def kv_regs_def)

lemma kernelvec_return_eq: "kernelvec_return = [MOVI 0 0xF000, MOVHI 0 0x03FF] @ loads 13 [(1, 56), (2, 60)]
  @ [SW 1 0 0, SW 2 4 0, MOVI 0 0xF014, MOVHI 0 0x03FF] @ loads 13 [(1, 64)] @ [SW 1 0 0] @ loads 13 kv_regs @ [ADDI 13 13 68, KRET]"
  by (simp add: kernelvec_return_def loads_def kv_regs_def)

text \<open>The memory \<open>kernelvec\<close> leaves for \<open>kerneltrap\<close>, with the frame at \<open>fr\<close>.\<close>

definition kernelvec_mem :: "u32 \<Rightarrow> asm \<Rightarrow> memory" where
  "kernelvec_mem fr s = store32 (store32 (store32 (stored fr kv_regs (gpr s) (amem s)) (fr + 56) (sysreg s REG_EPC)) (fr + 60) (sysreg s REG_EFLAGS))
     (fr + 64) (sysreg s REG_ESTATUS)"

lemma csr_access:
  "ldw tr 0x03FFF000 u = Some (sysreg u REG_EPC)" "ldw tr 0x03FFF004 u = Some (sysreg u REG_EFLAGS)"
  "ldw tr 0x03FFF008 u = Some (sysreg u REG_EVEC)" "ldw tr 0x03FFF014 u = Some (sysreg u REG_ESTATUS)"
  "stw tr 0x03FFF000 v u = Some (u\<lparr>sysreg := (sysreg u)(REG_EPC := v)\<rparr>)" "stw tr 0x03FFF004 v u = Some (u\<lparr>sysreg := (sysreg u)(REG_EFLAGS := v)\<rparr>)"
  "stw tr 0x03FFF014 v u = Some (u\<lparr>sysreg := (sysreg u)(REG_ESTATUS := v)\<rparr>)"
  by (simp_all add: ldw_def stw_def MMIO_BASE_def aligned4_def reg_defs)

text \<open>A word that the current page table maps, at physical address \<open>e\<close>.\<close>

definition word_at :: "xlate \<Rightarrow> u32 \<Rightarrow> u32 \<Rightarrow> u32 \<Rightarrow> bool" where
  "word_at tr satp a e \<longleftrightarrow> aligned4 a \<and> aligned4 e \<and> a < MMIO_BASE \<and> tr satp a = Some e"

lemma word_at_ldw: "word_at tr (sysreg s REG_SATP) a e \<Longrightarrow> ldw tr a s = Some (load32 (amem s) e)"
  by (simp add: word_at_def ldw_def linorder_not_le [symmetric])

text \<open>The second half of the entry: the supervisor registers go to the frame, and \<open>kerneltrap\<close> is called.\<close>

lemma kernelvec_entry_rest:
  assumes fr: "frame_at tr (sysreg s REG_SATP) 17 b fr" and e: "word_at tr (sysreg s REG_SATP) (sysreg s REG_EVEC + 60) e" and b: "gpr s 13 = b"
    and m: "m = store32 (store32 (store32 (amem s) (fr + 56) (sysreg s REG_EPC)) (fr + 60) (sysreg s REG_EFLAGS)) (fr + 64) (sysreg s REG_ESTATUS)"
  shows "\<exists>t. run tr ([MOVI 0 0xF000, MOVHI 0 0x03FF, LW 4 0 0, LW 5 4 0]
      @ saves 13 [(4, 56), (5, 60)] @ [MOVI 0 0xF014, MOVHI 0 0x03FF, LW 0 0 0] @ saves 13 [(0, 64)]
      @ [MOVI 0 0xF008, MOVHI 0 0x03FF, LW 0 0 0, LW 0 60 0, CALLR 14 0]) s = Some t
    \<and> amem t = m \<and> gpr t 13 = b \<and> pc t = load32 m e \<and> sysreg t = sysreg s"
proof -
  have st: "stw tr (b + k) v u = Some (u\<lparr>amem := store32 (amem u) (fr + k) v\<rparr>)" if "k \<in> {56, 60, 64}" "sysreg u = sysreg s" for k u v
    using frame_at_words(2) [of tr u 17 b fr k] fr that by (auto simp: offs_17)
  have ev: "ldw tr (sysreg s REG_EVEC + 60) u = Some (load32 (amem u) e)" if "sysreg u = sysreg s" for u
    using word_at_ldw [of tr u "sysreg s REG_EVEC + 60" e] e that by simp
  show ?thesis using b ev by (cases s) (simp add: saves_def setr_def step_pc_def m csr_access st [of 56] st [of 60] st [of 64])
qed

lemma kernelvec_entry_run:
  assumes fr: "frame_at tr (sysreg s REG_SATP) 17 (gpr s 13 - 68) fr" and e: "word_at tr (sysreg s REG_SATP) (sysreg s REG_EVEC + 60) e"
  shows "\<exists>t. run tr kernelvec_entry s = Some t \<and> amem t = kernelvec_mem fr s \<and> gpr t 13 = gpr s 13 - 68 \<and> pc t = load32 (kernelvec_mem fr s) e
    \<and> sysreg t = sysreg s"
proof -
  let ?g = "(gpr s)(13 := gpr s 13 - 68)" let ?m = "stored fr kv_regs (gpr s) (amem s)"
  have m: "stored fr kv_regs ?g (amem s) = ?m" by (simp add: stored_def kv_regs_def)
  have "run tr ([ADDI 13 13 (-68)] @ saves 13 kv_regs @ is) s = run tr (saves 13 kv_regs @ is) (s\<lparr>gpr := ?g, pc := pc s + 4\<rparr>)" for "is"
    by (cases s) (simp add: setr_def step_pc_def)
  also have "\<dots> is = run tr is (s\<lparr>gpr := ?g, pc := pc s + 60, amem := ?m\<rparr>)" for "is"
    using fr offs_kv(1) m by (subst run_saves [where n = 17 and pa = fr]) (cases s, simp add: kv_regs_def add.commute)+
  finally show ?thesis unfolding kernelvec_entry_eq kernelvec_mem_def
    using kernelvec_entry_rest [OF _ _ _ refl, of tr "s\<lparr>gpr := ?g, pc := pc s + 60, amem := ?m\<rparr>" "gpr s 13 - 68" fr e] fr e by simp
qed

text \<open>The frame holds every register \<open>kernelvec\<close> saved, and what is outside it is as before.\<close>

lemma kernelvec_mem_saved:
  assumes fr: "aligned4 fr"
  shows "(r, k) \<in> set kv_regs \<Longrightarrow> load32 (kernelvec_mem fr s) (fr + k) = gpr s r"
    "load32 (kernelvec_mem fr s) (fr + 56) = sysreg s REG_EPC" "load32 (kernelvec_mem fr s) (fr + 60) = sysreg s REG_EFLAGS"
    "load32 (kernelvec_mem fr s) (fr + 64) = sysreg s REG_ESTATUS"
proof -
  have al: "\<forall>k \<in> snd ` set kv_regs. aligned4 k" using offs_kv(1) aligned4_offs by blast
  have o: "(56 :: u32) \<in> offs 17" "(60 :: u32) \<in> offs 17" "(64 :: u32) \<in> offs 17" by (simp_all add: offs_17)
  note w = store_offs [OF fr o(1)] store_offs [OF fr o(2)] store_offs [OF fr o(3)]
  show "load32 (kernelvec_mem fr s) (fr + 56) = sysreg s REG_EPC" "load32 (kernelvec_mem fr s) (fr + 60) = sysreg s REG_EFLAGS"
    "load32 (kernelvec_mem fr s) (fr + 64) = sysreg s REG_ESTATUS"
    unfolding kernelvec_mem_def by (simp_all add: w o)
  assume rk: "(r, k) \<in> set kv_regs"
  then have "k \<in> offs 17" "k \<noteq> 56" "k \<noteq> 60" "k \<noteq> 64" using offs_kv(1) by (force, auto simp: kv_regs_def)
  then show "load32 (kernelvec_mem fr s) (fr + k) = gpr s r"
    using stored_word [OF offs_kv(3) rk fr al, of "gpr s" "amem s"] unfolding kernelvec_mem_def by (simp add: store_offs [OF fr] o)
qed

lemma kernelvec_mem_other:
  assumes fr: "aligned4 fr" and x: "aligned4 x" "\<forall>k \<in> offs 17. x \<noteq> fr + k"
  shows "load32 (kernelvec_mem fr s) x = load32 (amem s) x"
proof -
  have o: "(56 :: u32) \<in> offs 17" "(60 :: u32) \<in> offs 17" "(64 :: u32) \<in> offs 17" by (simp_all add: offs_17)
  then have "load32 (store32 m (fr + k) v) x = load32 m x" if "k \<in> {56, 60, 64}" for m k v
    using that x fr aligned4_offs [of k 17] by (intro load32_store32_other) (auto simp: aligned4_plus)
  moreover have "load32 (stored fr kv_regs (gpr s) (amem s)) x = load32 (amem s) x"
    using x fr offs_kv(1) aligned4_offs by (intro stored_other) (auto simp: subset_iff)
  ultimately show ?thesis by (simp add: kernelvec_mem_def)
qed

text \<open>The return from \<open>kerneltrap\<close>.\<close>

lemma kernelvec_return_run:
  assumes fr: "frame_at tr (sysreg s REG_SATP) 17 b fr" and b: "gpr s 13 = b"
  shows "\<exists>t. run tr kernelvec_return s = Some t \<and> (\<forall>(r, k) \<in> set kv_regs. gpr t r = load32 (amem s) (fr + k)) \<and> gpr t 13 = b + 68
    \<and> pc t = load32 (amem s) (fr + 56) \<and> flags t = load32 (amem s) (fr + 60) \<and> sysreg t REG_STATUS = load32 (amem s) (fr + 64)
    \<and> sysreg t REG_SATP = sysreg s REG_SATP \<and> amem t = amem s"
proof -
  have ld: "ldw tr (b + k) u = Some (load32 (amem u) (fr + k))" if "k \<in> {56, 60, 64}" "sysreg u REG_SATP = sysreg s REG_SATP" for k u
    using frame_at_words(1) [of tr u 17 b fr k] fr that by (auto simp: offs_17)
  let ?g = "(gpr s)(0 := 0x03FFF014, 1 := load32 (amem s) (fr + 64), 2 := load32 (amem s) (fr + 60))"
  let ?r = "(sysreg s)(REG_EPC := load32 (amem s) (fr + 56), REG_EFLAGS := load32 (amem s) (fr + 60), REG_ESTATUS := load32 (amem s) (fr + 64))"
  have "run tr kernelvec_return s = run tr (loads 13 kv_regs @ [ADDI 13 13 68, KRET]) (s\<lparr>gpr := ?g, pc := 40 + pc s, sysreg := ?r\<rparr>)"
    unfolding kernelvec_return_eq using b ld [of 56] ld [of 60] ld [of 64]
    by (cases s) (simp add: loads_def setr_def step_pc_def csr_access reg_defs fun_upd_twist)
  also have "\<dots> = run tr [ADDI 13 13 68, KRET] (s\<lparr>gpr := loaded fr kv_regs (amem s) ?g, pc := 96 + pc s, sysreg := ?r\<rparr>)"
    using fr b offs_kv by (subst run_loads [where n = 17 and pa = fr]) ((cases s, simp add: kv_regs_def reg_defs)+)
  finally show ?thesis using loaded_reg [OF offs_kv(2)] loaded_other [of 13 kv_regs] b by (cases s) (auto simp: kv_regs_def setr_def step_pc_def reg_defs)
qed

text \<open>What \<open>kerneltrap\<close> leaves when it returns, whatever it did to the other registers: the stack pointer is back, and
  the frame is as it was and still mapped.\<close>

definition frame_kept :: "xlate \<Rightarrow> u32 \<Rightarrow> asm \<Rightarrow> asm \<Rightarrow> bool" where
  "frame_kept tr fr t u \<longleftrightarrow> gpr u 13 = gpr t 13 \<and> frame_at tr (sysreg u REG_SATP) 17 (gpr u 13) fr
     \<and> (\<forall>k \<in> offs 17. load32 (amem u) (fr + k) = load32 (amem t) (fr + k))"

text \<open>C37: An interrupt is invisible to the kernel code it interrupts. With the seventeen words below the stack pointer
  mapped, \<open>kernelvec\<close> reaches the handler in entry 15 of the vector table; when the handler returns with that frame as
  it was, every register is restored, \<open>KRET\<close> resumes at the interrupted instruction with the interrupted flags, and the
  status register gets its value from before the trap, even when other traps have overwritten \<open>REG_EPC\<close>,
  \<open>REG_EFLAGS\<close> and \<open>REG_ESTATUS\<close> in between.\<close>

theorem kernel_trap_transparent:
  assumes fr: "frame_at tr (sysreg s REG_SATP) 17 (gpr s 13 - 68) fr" and e: "word_at tr (sysreg s REG_SATP) (sysreg s REG_EVEC + 60) e"
    and apart: "\<forall>k \<in> offs 17. e \<noteq> fr + k"
  shows "\<exists>t. run tr kernelvec_entry s = Some t \<and> pc t = load32 (amem s) e \<and> sysreg t = sysreg s
    \<and> (\<forall>x. aligned4 x \<and> x \<notin> (+) fr ` offs 17 \<longrightarrow> load32 (amem t) x = load32 (amem s) x)
    \<and> (\<forall>u. frame_kept tr fr t u \<longrightarrow>
        (\<exists>v. run tr kernelvec_return u = Some v \<and> same_regs s v \<and> pc v = sysreg s REG_EPC \<and> flags v = sysreg s REG_EFLAGS
          \<and> sysreg v REG_STATUS = sysreg s REG_ESTATUS \<and> amem v = amem u))"
proof -
  have al: "aligned4 fr" "aligned4 e" using fr e by (simp_all add: frame_at_def word_at_def)
  obtain t where t: "run tr kernelvec_entry s = Some t" "amem t = kernelvec_mem fr s" "gpr t 13 = gpr s 13 - 68" "pc t = load32 (kernelvec_mem fr s) e"
    "sysreg t = sysreg s" using kernelvec_entry_run [OF fr e] by auto
  note saved = kernelvec_mem_saved [OF al(1), where s = s]
  have "\<exists>v. run tr kernelvec_return u = Some v \<and> same_regs s v \<and> pc v = sysreg s REG_EPC \<and> flags v = sysreg s REG_EFLAGS
      \<and> sysreg v REG_STATUS = sysreg s REG_ESTATUS \<and> amem v = amem u" if u: "frame_kept tr fr t u" for u
  proof -
    have sp: "gpr u 13 = gpr s 13 - 68" and f: "frame_at tr (sysreg u REG_SATP) 17 (gpr s 13 - 68) fr" using u t(3) unfolding frame_kept_def by metis+
    have w: "load32 (amem u) (fr + k) = load32 (kernelvec_mem fr s) (fr + k)" if "k \<in> offs 17" for k using u t(2) that by (simp add: frame_kept_def)
    obtain v where v: "run tr kernelvec_return u = Some v" "\<forall>(r, k) \<in> set kv_regs. gpr v r = load32 (amem u) (fr + k)" "gpr v 13 = gpr s 13"
      "pc v = load32 (amem u) (fr + 56)" "flags v = load32 (amem u) (fr + 60)" "sysreg v REG_STATUS = load32 (amem u) (fr + 64)" "amem v = amem u"
      using kernelvec_return_run [OF f sp] by auto
    have "gpr v r = gpr s r" if "(r, k) \<in> set kv_regs" for r k using v(2) that saved(1) [OF that] w offs_kv(1) by force
    moreover have "set [0..<15] = insert 13 (fst ` set kv_regs)" by (auto simp: kv_regs_def upt_rec numeral_eq_Suc)
    ultimately have "same_regs s v" using v(3) by (auto simp: same_regs_def)
    then show ?thesis using v w [of 56] w [of 60] w [of 64] saved(2-4) by (simp add: offs_17)
  qed
  then show ?thesis using t kernelvec_mem_other [OF al(1)] al apart by auto
qed

theorem kernel_trap_transparent_witness:
  "\<exists>t v. run (\<lambda>_. Some) kernelvec_entry uasm0 = Some t \<and> run (\<lambda>_. Some) kernelvec_return (t\<lparr>gpr := (\<lambda>_. 0)(13 := gpr t 13), pc := 0x200\<rparr>) = Some v
    \<and> same_regs uasm0 v"
proof -
  let ?fr = "0x3FBC :: u32"
  have f: "frame_at (\<lambda>_. Some) satp 17 ?fr ?fr" for satp by (simp add: frame_at_def offs_17 MMIO_BASE_def aligned4_def)
  have u: "gpr uasm0 13 - 68 = ?fr" by (simp add: uasm0_def)
  have "word_at (\<lambda>_. Some) (sysreg uasm0 REG_SATP) (sysreg uasm0 REG_EVEC + 60) 60" by (simp add: word_at_def uasm0_def MMIO_BASE_def aligned4_def)
  moreover have "\<forall>k \<in> offs 17. 60 \<noteq> ?fr + k" by (simp add: offs_17)
  ultimately obtain t where t: "run (\<lambda>_. Some) kernelvec_entry uasm0 = Some t"
    "\<forall>u. frame_kept (\<lambda>_. Some) ?fr t u \<longrightarrow> (\<exists>v. run (\<lambda>_. Some) kernelvec_return u = Some v \<and> same_regs uasm0 v)"
    using kernel_trap_transparent [of "\<lambda>_. Some" uasm0 ?fr 60] f u by fastforce
  moreover have "gpr t 13 = ?fr" using kernelvec_entry_run [of "\<lambda>_. Some" uasm0 ?fr 60] f u t(1) \<open>word_at _ _ _ _\<close> by auto
  then have "frame_kept (\<lambda>_. Some) ?fr t (t\<lparr>gpr := (\<lambda>_. 0)(13 := gpr t 13), pc := 0x200\<rparr>)" by (simp add: frame_kept_def f)
  ultimately show ?thesis by blast
qed

section \<open>Leaving the CPU and coming back\<close>

text \<open>A later call of \<open>swtch\<close> whose second argument is the context at \<open>a\<close>, which is as state \<open>t\<close> left it.\<close>

definition contexts_apart :: "u32 \<Rightarrow> u32 \<Rightarrow> bool" where
  "contexts_apart a b \<longleftrightarrow> (\<forall>k \<in> offs 10. \<forall>j \<in> offs 10. a + k \<noteq> b + j)"

definition switching_back :: "xlate \<Rightarrow> u32 \<Rightarrow> u32 \<Rightarrow> asm \<Rightarrow> asm \<Rightarrow> bool" where
  "switching_back tr a c t u \<longleftrightarrow> frame_at tr (sysreg u REG_SATP) 10 (gpr u 0) c \<and> frame_at tr (sysreg u REG_SATP) 10 (gpr u 1) a \<and> contexts_apart c a
     \<and> (\<forall>k \<in> offs 10. load32 (amem u) (a + k) = load32 (amem t) (a + k))"

text \<open>C38: A context switch and the switch back return to the caller. \<open>swtch(a, b)\<close> resumes the thread of context \<open>b\<close> with the
  link register, stack pointer and callee-saved registers stored there; whenever some thread later calls
  \<open>swtch(c, a)\<close> with context \<open>a\<close> as it was left, the first thread continues after its call, with its link register, stack
  pointer and callee-saved registers as they were when it called.\<close>

theorem swtch_roundtrip:
  assumes old: "frame_at tr (sysreg s REG_SATP) 10 (gpr s 0) a" and new: "frame_at tr (sysreg s REG_SATP) 10 (gpr s 1) b" and sep: "contexts_apart a b"
  shows "\<exists>t. run tr swtch_code s = Some t \<and> pc t = load32 (amem s) b \<and> (\<forall>(r, k) \<in> set ctx_regs. gpr t r = load32 (amem s) (b + k))
    \<and> (\<forall>c u. switching_back tr a c t u \<longrightarrow>
        (\<exists>v. run tr swtch_code u = Some v \<and> pc v = gpr s 14 \<and> (\<forall>r \<in> set [14, 13, 4, 5, 6, 7, 8, 9, 10, 11]. gpr v r = gpr s r)))"
proof -
  obtain t where t: "run tr swtch_code s = Some t" "pc t = load32 (amem s) b"
    "\<And>r k. (r, k) \<in> set ctx_regs \<Longrightarrow> gpr t r = load32 (amem s) (b + k) \<and> load32 (amem t) (a + k) = gpr s r"
    using swtch_run [OF old new sep [unfolded contexts_apart_def]] by metis
  have "\<exists>v. run tr swtch_code u = Some v \<and> pc v = gpr s 14 \<and> (\<forall>r \<in> set [14, 13, 4, 5, 6, 7, 8, 9, 10, 11]. gpr v r = gpr s r)"
    if u: "switching_back tr a c t u" for c u
  proof -
    have f: "frame_at tr (sysreg u REG_SATP) 10 (gpr u 0) c" "frame_at tr (sysreg u REG_SATP) 10 (gpr u 1) a" "\<forall>k \<in> offs 10. \<forall>j \<in> offs 10. c + k \<noteq> a + j"
      using u by (simp_all add: switching_back_def contexts_apart_def)
    obtain v where v: "run tr swtch_code u = Some v" "pc v = load32 (amem u) a" "\<And>r k. (r, k) \<in> set ctx_regs \<Longrightarrow> gpr v r = load32 (amem u) (a + k)"
      using swtch_run [OF f] by metis
    have "load32 (amem u) (a + k) = gpr s r" if "(r, k) \<in> set ctx_regs" for r k using u t(3) [OF that] that offs_ctx(1) by (force simp: switching_back_def)
    then have "gpr v r = gpr s r \<and> load32 (amem u) (a + k) = gpr s r" if "(r, k) \<in> set ctx_regs" for r k using v(3) that by simp
    from this [of 14 0] this show ?thesis using v(1,2) by (auto simp: ctx_regs_def)
  qed
  then show ?thesis using t by auto
qed

theorem swtch_roundtrip_witness:
  "\<exists>t v. run (\<lambda>_. Some) swtch_code (uasm0\<lparr>gpr := (gpr uasm0)(0 := 0x100, 1 := 0x200)\<rparr>) = Some t
    \<and> run (\<lambda>_. Some) swtch_code (t\<lparr>gpr := (gpr t)(0 := 0x200, 1 := 0x100)\<rparr>) = Some v \<and> gpr v 13 = 0x4000 \<and> pc v = 14"
proof -
  let ?s = "uasm0\<lparr>gpr := (gpr uasm0)(0 := 0x100, 1 := 0x200)\<rparr>"
  have f: "frame_at (\<lambda>_. Some) satp 10 0x100 0x100" "frame_at (\<lambda>_. Some) satp 10 0x200 0x200" for satp
    by (simp_all add: frame_at_def offs_def upt_rec MMIO_BASE_def aligned4_def)
  have c: "contexts_apart 0x100 0x200" "contexts_apart 0x200 0x100" by (simp_all add: contexts_apart_def offs_def upt_rec)
  obtain t where t: "run (\<lambda>_. Some) swtch_code ?s = Some t"
    "\<forall>c u. switching_back (\<lambda>_. Some) 0x100 c t u \<longrightarrow>
        (\<exists>v. run (\<lambda>_. Some) swtch_code u = Some v \<and> pc v = gpr ?s 14 \<and> (\<forall>r \<in> set [14, 13, 4, 5, 6, 7, 8, 9, 10, 11]. gpr v r = gpr ?s r))"
    using swtch_roundtrip [of "\<lambda>_. Some" ?s "0x100" "0x200"] f c by auto
  have "switching_back (\<lambda>_. Some) 0x100 0x200 t (t\<lparr>gpr := (gpr t)(0 := 0x200, 1 := 0x100)\<rparr>)" using f c by (simp add: switching_back_def)
  from t(2) [rule_format, OF this] t(1) show ?thesis by (auto simp: uasm0_def)
qed

end
