(* ===== verification/Exec.thy ===== *)
theory Exec
  imports File
begin

text \<open>
  Program loading, \<open>kernel/exec.c\<close>, with the formats of \<open>kernel/elf.h\<close>, the layout of the
  trap frame (\<open>kernel/proc.h\<close>), and the life cycle of a process in \<open>kernel/proc.c\<close> that
  involves files: \<open>kfork\<close>, \<open>kexit\<close>, \<open>userinit\<close>. The argument vector is the list of its strings.
\<close>

section \<open>Trap frames\<close>

text \<open>Byte offsets of the fields of \<^verbatim>\<open>struct trapframe\<close>; \<open>tf_r n\<close> is user register \<open>n\<close>.\<close>

definition TF_KERNEL_SATP :: u32 where "TF_KERNEL_SATP = 0"
definition TF_KERNEL_SP :: u32 where "TF_KERNEL_SP = 4"
definition TF_KERNEL_TRAP :: u32 where "TF_KERNEL_TRAP = 8"
definition TF_EPC :: u32 where "TF_EPC = 12"
definition TF_KERNEL_HARTID :: u32 where "TF_KERNEL_HARTID = 16"
definition tf_r :: "nat \<Rightarrow> u32" where "tf_r n = of_nat (20 + 4 * n)"
definition TF_SIZE :: nat where "TF_SIZE = 80"

definition tf_get :: "nat \<Rightarrow> u32 \<Rightarrow> ('a procs_scheme, u32) op" where
  "tf_get p off = bind (gets (\<lambda>s. p_trapframe (ptable s p))) (\<lambda>tf. ld32 (tf + off))"

definition tf_set :: "nat \<Rightarrow> u32 \<Rightarrow> u32 \<Rightarrow> ('a procs_scheme, unit) op" where
  "tf_set p off v = bind (gets (\<lambda>s. p_trapframe (ptable s p))) (\<lambda>tf. st32 (tf + off) v)"

section \<open>The program image\<close>

definition ELF_MAGIC :: u32 where "ELF_MAGIC = 0x464C457F"
definition ELF_PROG_LOAD :: u32 where "ELF_PROG_LOAD = 1"
definition ELFHDR_SIZE :: nat where "ELFHDR_SIZE = 52"
definition PROGHDR_SIZE :: nat where "PROGHDR_SIZE = 32"

record elfhdr =
  eh_magic :: u32
  eh_entry :: u32
  eh_phoff :: u32
  eh_phnum :: u16

definition elfhdr_of :: "u8 list \<Rightarrow> elfhdr" where
  "elfhdr_of data = \<lparr>eh_magic = get32 data 0, eh_entry = get32 data 24, eh_phoff = get32 data 28,
     eh_phnum = get16 data 44\<rparr>"

record proghdr =
  ph_type :: u32
  ph_off :: u32
  ph_vaddr :: u32
  ph_filesz :: u32
  ph_memsz :: u32
  ph_flags :: u32

definition proghdr_of :: "u8 list \<Rightarrow> proghdr" where
  "proghdr_of data = \<lparr>ph_type = get32 data 0, ph_off = get32 data 4, ph_vaddr = get32 data 8,
     ph_filesz = get32 data 16, ph_memsz = get32 data 20, ph_flags = get32 data 24\<rparr>"

definition flags2perm :: "u32 \<Rightarrow> u32" where
  "flags2perm flags = (if flags AND 1 \<noteq> 0 then PTE_X else 0) OR (if flags AND 2 \<noteq> 0 then PTE_W else 0)"

text \<open>\<open>va\<close> and \<open>offset\<close> have advanced by the bytes loaded; \<open>rest\<close> are left.\<close>

definition seg_chunk :: "u32 \<Rightarrow> nat \<Rightarrow> nat" where
  "seg_chunk va rest = min (4096 - unat va mod 4096) rest"

lemma seg_chunk_pos: "0 < rest \<Longrightarrow> 0 < seg_chunk va rest"
  using mod_less_divisor [of 4096 "unat va"] by (simp add: seg_chunk_def)

function loadseg :: "u32 \<Rightarrow> u32 \<Rightarrow> nat \<Rightarrow> u32 \<Rightarrow> nat \<Rightarrow> ('a fs_scheme, int) op" where
  "loadseg pagetable va ip offset rest =
     (if rest = 0 then ret 0
      else
        let off_in_page = va mod PGSIZE; n = seg_chunk va rest in
        bind (walkaddr pagetable va) (\<lambda>pa.
        if pa = 0 then panic ''loadseg: address should exist''
        else
          bind (readi ip (RKern (pa + off_in_page)) offset (of_nat n)) (\<lambda>(r, _).
          if r \<noteq> int n then ret (-1)
          else loadseg pagetable (va + of_nat n) ip (offset + of_nat n) (rest - n))))"
  by pat_completeness auto
termination
  by (relation "measure (\<lambda>(pagetable, va, ip, offset, rest). rest)") (auto simp: seg_chunk_pos)

declare loadseg.simps [simp del]

text \<open>The loop over the program headers; \<open>n\<close> are left. The result is the size of the image and
  whether all went well.\<close>

fun exec_segments :: "u32 \<Rightarrow> nat \<Rightarrow> u32 \<Rightarrow> u32 \<Rightarrow> nat \<Rightarrow> ('a fs_scheme, bool \<times> u32) op" where
  "exec_segments pagetable ip off sz 0 = ret (True, sz)"
| "exec_segments pagetable ip off sz (Suc n) =
     bind (readi ip RLocal off (of_nat PROGHDR_SIZE)) (\<lambda>(r, data).
     let ph = proghdr_of data; off' = off + of_nat PROGHDR_SIZE in
     if r \<noteq> int PROGHDR_SIZE then ret (False, sz)
     else if ph_type ph \<noteq> ELF_PROG_LOAD then exec_segments pagetable ip off' sz n
     else if ph_memsz ph < ph_filesz ph then ret (False, sz)
     else if ph_vaddr ph + ph_memsz ph < ph_vaddr ph then ret (False, sz)
     else
       bind (uvmalloc pagetable sz (ph_vaddr ph + ph_memsz ph) (flags2perm (ph_flags ph))) (\<lambda>sz1.
       if sz1 = 0 then ret (False, sz)
       else
         bind (loadseg pagetable (ph_vaddr ph) ip (ph_off ph) (unat (ph_filesz ph))) (\<lambda>l.
         if l < 0 then ret (False, sz1) else exec_segments pagetable ip off' sz1 n)))"

definition sp_align :: "u32 \<Rightarrow> u32" where
  "sp_align sp = sp - sp mod 16"

text \<open>Copy the argument strings; the result is the stack pointer and the pointers pushed so far.\<close>

fun exec_args :: "u32 \<Rightarrow> u32 \<Rightarrow> u32 \<Rightarrow> u32 list \<Rightarrow> u8 list list \<Rightarrow> ('a procs_scheme, (u32 \<times> u32 list) option) op" where
  "exec_args pagetable stackbase sp ustack [] = ret (Some (sp, ustack))"
| "exec_args pagetable stackbase sp ustack (arg # argv) =
     (if MAXARG \<le> length ustack then ret None
      else
        let sp' = sp_align (sp - of_nat (length arg + 1)) in
        if sp' < stackbase then ret None
        else
          bind (copyout pagetable sp' (arg @ [0])) (\<lambda>r.
          if r < 0 then ret None
          else exec_args pagetable stackbase sp' (ustack @ [sp']) argv))"

definition exec_bad :: "u32 \<Rightarrow> u32 \<Rightarrow> nat option \<Rightarrow> ('a fs_scheme, int) op" where
  "exec_bad pagetable sz p =
     bind (if pagetable \<noteq> 0 then proc_freepagetable pagetable sz else ret ()) (\<lambda>_.
     bind (case p of None \<Rightarrow> ret () | Some ip \<Rightarrow> bind (iunlockput ip) (\<lambda>_. end_op)) (\<lambda>_.
     ret (-1)))"

text \<open>The part of the path after its last slash.\<close>

definition path_last :: "u8 list \<Rightarrow> u8 list" where
  "path_last path = rev (takeWhile (\<lambda>c. c \<noteq> SLASH) (rev path))"

definition exec_commit :: "nat \<Rightarrow> u8 list \<Rightarrow> u32 \<Rightarrow> u32 \<Rightarrow> u32 \<Rightarrow> u32 \<Rightarrow> ('a fs_scheme, unit) op" where
  "exec_commit p path pagetable sz sp pc0 =
     bind (tf_set p (tf_r 1) sp) (\<lambda>_.
     bind (modify (set_proc p (\<lambda>q. q\<lparr>p_name := safestrcpy (p_name q) (cptr (path_last path)) 16\<rparr>))) (\<lambda>_.
     bind (gets (\<lambda>s. (p_pagetable (ptable s p), p_sz (ptable s p)))) (\<lambda>(oldpagetable, oldsz).
     bind (modify (set_proc p (\<lambda>q. q\<lparr>p_pagetable := pagetable, p_sz := sz\<rparr>))) (\<lambda>_.
     bind (tf_set p TF_EPC pc0) (\<lambda>_.
     bind (tf_set p (tf_r 13) sp) (\<lambda>_.
     proc_freepagetable oldpagetable oldsz))))))"

text \<open>The second half of \<open>kexec\<close>, after the segments are loaded and the file is closed.\<close>

definition exec_stack :: "nat \<Rightarrow> u8 list \<Rightarrow> u8 list list \<Rightarrow> u32 \<Rightarrow> u32 \<Rightarrow> u32 \<Rightarrow> ('a fs_scheme, int) op" where
  "exec_stack p path argv pagetable sz0 pc0 =
     (let sz = PGROUNDUP sz0 in
      bind (uvmalloc pagetable sz (sz + (USERSTACK + 1) * PGSIZE) PTE_W) (\<lambda>sz1.
      if sz1 = 0 then exec_bad pagetable sz None
      else
        bind (uvmclear pagetable (sz1 - (USERSTACK + 1) * PGSIZE)) (\<lambda>_.
        let stackbase = sz1 - USERSTACK * PGSIZE in
        bind (exec_args pagetable stackbase sz1 [] argv) (\<lambda>r.
        case r of None \<Rightarrow> exec_bad pagetable sz1 None
        | Some (sp0, ustack) \<Rightarrow>
            let argc = length ustack; sp = sp_align (sp0 - of_nat ((argc + 1) * 4)) in
            if MAXARG \<le> argc then panic ''bounds''
            else if sp < stackbase then exec_bad pagetable sz1 None
            else
              bind (copyout pagetable sp (concat (map bytes32 (ustack @ [0])))) (\<lambda>r.
              if r < 0 then exec_bad pagetable sz1 None
              else
                bind (exec_commit p path pagetable sz1 sp pc0) (\<lambda>_.
                ret (int argc)))))))"

definition kexec :: "u8 list \<Rightarrow> u8 list list \<Rightarrow> ('a fs_scheme, int) op" where
  "kexec path argv =
     bind curproc (\<lambda>p.
     bind begin_op (\<lambda>_.
     bind (namei path) (\<lambda>found.
     case found of None \<Rightarrow> bind end_op (\<lambda>_. ret (-1))
     | Some ip \<Rightarrow>
         bind (ilock (Some ip)) (\<lambda>_.
         bind (readi ip RLocal 0 (of_nat ELFHDR_SIZE)) (\<lambda>(r, data).
         let elf = elfhdr_of data in
         if r \<noteq> int ELFHDR_SIZE \<or> eh_magic elf \<noteq> ELF_MAGIC then exec_bad 0 0 (Some ip)
         else
           bind (proc_pagetable p) (\<lambda>pagetable.
           if pagetable = 0 then exec_bad 0 0 (Some ip)
           else
             bind (exec_segments pagetable ip (eh_phoff elf) 0 (unat (eh_phnum elf))) (\<lambda>(loaded, sz).
             if \<not> loaded then exec_bad pagetable sz (Some ip)
             else
               bind (iunlockput ip) (\<lambda>_.
               bind end_op (\<lambda>_.
               bind curproc (\<lambda>p.
               exec_stack p path argv pagetable sz (eh_entry elf)))))))))))"

section \<open>Life of a process\<close>

definition userinit :: "('a fs_scheme, unit) op" where
  "userinit =
     bind allocproc (\<lambda>found.
     bind (modify (\<lambda>s. s\<lparr>initproc := found\<rparr>)) (\<lambda>_.
     bind (namei [SLASH]) (\<lambda>cwd.
     bind (deref found) (\<lambda>p.
     bind (modify (set_proc p (\<lambda>q. q\<lparr>p_cwd := cwd\<rparr>))) (\<lambda>_.
     bind (modify (set_proc p (\<lambda>q. q\<lparr>p_state := RUNNABLE\<rparr>))) (\<lambda>_.
     release (ProcLock p)))))))"

definition kfork_file :: "nat \<Rightarrow> nat \<Rightarrow> nat \<Rightarrow> ('a files_scheme, unit) op" where
  "kfork_file p np i =
     bind (gets (\<lambda>s. p_ofile (ptable s p) i)) (\<lambda>fp.
     case fp of None \<Rightarrow> ret ()
     | Some f \<Rightarrow>
         bind (filedup f) (\<lambda>f'.
         modify (set_proc np (\<lambda>q. q\<lparr>p_ofile := (p_ofile q)(i := Some f')\<rparr>))))"

definition kfork :: "('a files_scheme, u32) op" where
  "kfork =
     bind curproc (\<lambda>p.
     bind allocproc (\<lambda>found.
     case found of None \<Rightarrow> ret (-1)
     | Some np \<Rightarrow>
         bind (gets (\<lambda>s. (ptable s p, ptable s np))) (\<lambda>(parent, child).
         bind (uvmcopy (p_pagetable parent) (p_pagetable child) (p_sz parent)) (\<lambda>r.
         if r < 0
         then bind (freeproc np) (\<lambda>_. bind (release (ProcLock np)) (\<lambda>_. ret (-1)))
         else
           bind (modify (set_proc np (\<lambda>q. q\<lparr>p_sz := p_sz parent\<rparr>))) (\<lambda>_.
           bind (memmove_at (p_trapframe child) (p_trapframe parent) (of_nat TF_SIZE)) (\<lambda>_.
           bind (tf_set np (tf_r 0) 0) (\<lambda>_.
           bind (for_each [0..<NOFILE] (kfork_file p np)) (\<lambda>_.
           bind (deref (p_cwd parent)) (\<lambda>cwd.
           bind (idup cwd) (\<lambda>cwd'.
           bind (modify (set_proc np (\<lambda>q. q\<lparr>p_cwd := Some cwd',
             p_name := safestrcpy (p_name q) (cptr (p_name parent)) 16\<rparr>))) (\<lambda>_.
           bind (gets (\<lambda>s. p_pid (ptable s np))) (\<lambda>pid.
           bind (release (ProcLock np)) (\<lambda>_.
           bind (acquire WaitLock) (\<lambda>_.
           bind (modify (set_proc np (\<lambda>q. q\<lparr>p_parent := Some p\<rparr>))) (\<lambda>_.
           bind (release WaitLock) (\<lambda>_.
           bind (acquire (ProcLock np)) (\<lambda>_.
           bind (modify (set_proc np (\<lambda>q. q\<lparr>p_state := RUNNABLE\<rparr>))) (\<lambda>_.
           bind (release (ProcLock np)) (\<lambda>_.
           ret pid)))))))))))))))))))"

definition kexit_file :: "nat \<Rightarrow> nat \<Rightarrow> ('a files_scheme, unit) op" where
  "kexit_file p fd =
     bind (gets (\<lambda>s. p_ofile (ptable s p) fd)) (\<lambda>fp.
     case fp of None \<Rightarrow> ret ()
     | Some f \<Rightarrow>
         bind (fileclose f) (\<lambda>_.
         modify (set_proc p (\<lambda>q. q\<lparr>p_ofile := (p_ofile q)(fd := None)\<rparr>))))"

text \<open>\<open>kexit\<close> does not return: \<open>sched\<close> leaves the CPU for good.\<close>

definition kexit :: "u32 \<Rightarrow> ('a files_scheme, 'r) op" where
  "kexit status =
     bind curproc (\<lambda>p.
     bind (gets initproc) (\<lambda>ip.
     if Some p = ip then panic ''init exiting''
     else
       bind (for_each [0..<NOFILE] (kexit_file p)) (\<lambda>_.
       bind begin_op (\<lambda>_.
       bind (gets (\<lambda>s. p_cwd (ptable s p))) (\<lambda>cwd.
       bind (deref cwd) (\<lambda>c.
       bind (iput c) (\<lambda>_.
       bind end_op (\<lambda>_.
       bind (modify (set_proc p (\<lambda>q. q\<lparr>p_cwd := None\<rparr>))) (\<lambda>_.
       bind (acquire WaitLock) (\<lambda>_.
       bind (reparent p) (\<lambda>_.
       bind (gets (\<lambda>s. p_parent (ptable s p))) (\<lambda>par.
       bind (wakeup (map_option ProcChan par)) (\<lambda>_.
       bind (acquire (ProcLock p)) (\<lambda>_.
       bind (modify (set_proc p (\<lambda>q. q\<lparr>p_xstate := status, p_state := ZOMBIE\<rparr>))) (\<lambda>_.
       bind (release WaitLock) (\<lambda>_.
       bind sched (\<lambda>_.
       panic ''zombie exit'')))))))))))))))))"

end
