(* ===== verification/Syscall.thy ===== *)
theory Syscall
  imports Exec
begin

text \<open>
  System calls: argument fetching (\<open>kernel/syscall.c\<close>), the process calls
  (\<open>kernel/sysproc.c\<close>) and the file calls (\<open>kernel/sysfile.c\<close>). A call returns the word that
  ends up in the user's \<open>r0\<close>. A buffer filled from user memory is the list of bytes stored.
\<close>

section \<open>Arguments\<close>

record sys = files +
  ticks :: u32
  first :: bool              \<comment> \<open>the static variable of \<open>forkret\<close>\<close>
  sym_kernelvec :: u32
  sym_kerneltrap :: u32
  sym_uservec :: u32
  evec_table :: u32

text \<open>The C string at the start of a buffer.\<close>

definition cstring :: "u8 list \<Rightarrow> u8 list" where
  "cstring = takeWhile (\<lambda>c. c \<noteq> 0)"

definition fetchaddr :: "u32 \<Rightarrow> ('a procs_scheme, int \<times> u32) op" where
  "fetchaddr addr =
     bind curproc (\<lambda>p.
     bind (gets (\<lambda>s. ptable s p)) (\<lambda>q.
     if p_sz q \<le> addr \<or> p_sz q < addr + 4 then ret (-1, 0)
     else
       bind (copyin (p_pagetable q) addr 4) (\<lambda>(r, bs).
       if r \<noteq> 0 then ret (-1, 0) else ret (0, word32 bs))))"

definition fetchstr :: "u32 \<Rightarrow> nat \<Rightarrow> ('a procs_scheme, int \<times> u8 list) op" where
  "fetchstr addr max_n =
     bind curproc (\<lambda>p.
     bind (gets (\<lambda>s. p_pagetable (ptable s p))) (\<lambda>pt.
     bind (copyinstr pt addr max_n) (\<lambda>(r, bs).
     ret (if r < 0 then -1 else int (length (cstring bs)), bs))))"

definition argraw :: "nat \<Rightarrow> ('a procs_scheme, u32) op" where
  "argraw n =
     bind curproc (\<lambda>p.
     if n = 0 then tf_get p (tf_r 1)
     else if n = 1 then tf_get p (tf_r 2)
     else if n = 2 then tf_get p (tf_r 3)
     else panic ''argraw'')"

definition argint :: "nat \<Rightarrow> ('a procs_scheme, u32) op" where
  "argint n = argraw n"

definition argaddr :: "nat \<Rightarrow> ('a procs_scheme, u32) op" where
  "argaddr n = argraw n"

definition argstr :: "nat \<Rightarrow> nat \<Rightarrow> ('a procs_scheme, int \<times> u8 list) op" where
  "argstr n max_n = bind (argaddr n) (\<lambda>addr. fetchstr addr max_n)"

section \<open>Process calls\<close>

definition sys_exit :: "('a files_scheme, u32) op" where
  "sys_exit = bind (argint 0) (\<lambda>n. kexit n)"

definition sys_getpid :: "('a procs_scheme, u32) op" where
  "sys_getpid = bind curproc (\<lambda>p. gets (\<lambda>s. p_pid (ptable s p)))"

definition sys_fork :: "('a files_scheme, u32) op" where
  "sys_fork = kfork"

definition sys_wait :: "('a procs_scheme, u32) op" where
  "sys_wait = bind (argaddr 0) (\<lambda>p. kwait p)"

definition SBRK_EAGER :: u32 where "SBRK_EAGER = 1"

definition sys_sbrk :: "('a procs_scheme, u32) op" where
  "sys_sbrk =
     bind (argint 0) (\<lambda>n.
     bind (argint 1) (\<lambda>t.
     bind curproc (\<lambda>p.
     bind (gets (\<lambda>s. p_sz (ptable s p))) (\<lambda>addr.
     if t = SBRK_EAGER \<or> n <s 0
     then bind (growproc n) (\<lambda>r. ret (if r < 0 then -1 else addr))
     else if addr + n < addr then ret (-1)
     else if TRAPFRAME < addr + n then ret (-1)
     else
       bind curproc (\<lambda>p.
       bind (modify (set_proc p (\<lambda>q. q\<lparr>p_sz := p_sz q + n\<rparr>))) (\<lambda>_.
       ret addr))))))"

fun pause_loop :: "nat \<Rightarrow> u32 \<Rightarrow> u32 \<Rightarrow> ('a sys_scheme, u32) op" where
  "pause_loop 0 ticks0 n = hang"
| "pause_loop (Suc fuel) ticks0 n =
     bind (gets ticks) (\<lambda>now.
     if now - ticks0 < n
     then
       bind curproc (\<lambda>p.
       bind (killed p) (\<lambda>k.
       if k \<noteq> 0 then bind (release TicksLock) (\<lambda>_. ret (-1))
       else bind (sleep (Some TicksChan) TicksLock) (\<lambda>_. pause_loop fuel ticks0 n)))
     else bind (release TicksLock) (\<lambda>_. ret 0))"

definition sys_pause :: "('a sys_scheme, u32) op" where
  "sys_pause =
     bind (argint 0) (\<lambda>n0.
     let n = (if n0 <s 0 then 0 else n0) in
     bind (acquire TicksLock) (\<lambda>_.
     bind (gets ticks) (\<lambda>ticks0.
     (\<lambda>P s. pause_loop (Suc (resumptions P s)) ticks0 n P s))))"

definition sys_kill :: "('a procs_scheme, u32) op" where
  "sys_kill = bind (argint 0) (\<lambda>pid. bind (kkill pid) (\<lambda>r. ret (of_int r)))"

definition sys_uptime :: "('a sys_scheme, u32) op" where
  "sys_uptime =
     bind (acquire TicksLock) (\<lambda>_.
     bind (gets ticks) (\<lambda>xticks.
     bind (release TicksLock) (\<lambda>_.
     ret xticks)))"

section \<open>File descriptors\<close>

text \<open>The descriptor and its file, or \<open>None\<close> for -1.\<close>

definition argfd :: "nat \<Rightarrow> ('a procs_scheme, (nat \<times> nat) option) op" where
  "argfd n =
     bind (argint n) (\<lambda>fd.
     if fd <s 0 \<or> of_nat NOFILE \<le>s fd then ret None
     else
       bind curproc (\<lambda>p.
       bind (gets (\<lambda>s. p_ofile (ptable s p) (unat fd))) (\<lambda>fp.
       case fp of None \<Rightarrow> ret None | Some f \<Rightarrow> ret (Some (unat fd, f)))))"

definition fdalloc :: "nat \<Rightarrow> ('a procs_scheme, int) op" where
  "fdalloc f =
     bind curproc (\<lambda>p.
     bind (gets (\<lambda>s. find (\<lambda>fd. p_ofile (ptable s p) fd = None) [0..<NOFILE])) (\<lambda>slot.
     case slot of None \<Rightarrow> ret (-1)
     | Some fd \<Rightarrow>
         bind (modify (set_proc p (\<lambda>q. q\<lparr>p_ofile := (p_ofile q)(fd := Some f)\<rparr>))) (\<lambda>_.
         ret (int fd))))"

definition sys_dup :: "('a files_scheme, u32) op" where
  "sys_dup =
     bind (argfd 0) (\<lambda>a.
     case a of None \<Rightarrow> ret (-1)
     | Some (_, f) \<Rightarrow>
         bind (fdalloc f) (\<lambda>fd.
         if fd < 0 then ret (-1) else bind (filedup f) (\<lambda>_. ret (of_int fd))))"

definition sys_read :: "('a files_scheme, u32) op" where
  "sys_read =
     bind (argaddr 1) (\<lambda>p.
     bind (argint 2) (\<lambda>n.
     bind (argfd 0) (\<lambda>a.
     case a of None \<Rightarrow> ret (-1)
     | Some (_, f) \<Rightarrow> bind (fileread f p (sint n)) (\<lambda>r. ret (of_int r)))))"

definition sys_write :: "('a files_scheme, u32) op" where
  "sys_write =
     bind (argaddr 1) (\<lambda>p.
     bind (argint 2) (\<lambda>n.
     bind (argfd 0) (\<lambda>a.
     case a of None \<Rightarrow> ret (-1)
     | Some (_, f) \<Rightarrow> bind (filewrite f p (sint n)) (\<lambda>r. ret (of_int r)))))"

definition sys_close :: "('a files_scheme, u32) op" where
  "sys_close =
     bind (argfd 0) (\<lambda>a.
     case a of None \<Rightarrow> ret (-1)
     | Some (fd, f) \<Rightarrow>
         bind curproc (\<lambda>p.
         bind (modify (set_proc p (\<lambda>q. q\<lparr>p_ofile := (p_ofile q)(fd := None)\<rparr>))) (\<lambda>_.
         bind (fileclose f) (\<lambda>_.
         ret 0))))"

definition sys_fstat :: "('a files_scheme, u32) op" where
  "sys_fstat =
     bind (argaddr 1) (\<lambda>st.
     bind (argfd 0) (\<lambda>a.
     case a of None \<Rightarrow> ret (-1)
     | Some (_, f) \<Rightarrow> bind (filestat f st) (\<lambda>r. ret (of_int r))))"

section \<open>Path calls\<close>

definition add_nlink :: "nat \<Rightarrow> u16 \<Rightarrow> ('a fs_scheme, unit) op" where
  "add_nlink ip k = modify (set_inode ip (\<lambda>n. n\<lparr>i_nlink := i_nlink n + k\<rparr>))"

definition link_bad :: "nat \<Rightarrow> ('a fs_scheme, u32) op" where
  "link_bad ip =
     bind (ilock (Some ip)) (\<lambda>_.
     bind (add_nlink ip (-1)) (\<lambda>_.
     bind (iupdate ip) (\<lambda>_.
     bind (iunlockput ip) (\<lambda>_.
     bind end_op (\<lambda>_.
     ret (-1))))))"

definition sys_link :: "('a fs_scheme, u32) op" where
  "sys_link =
     bind (argstr 0 MAXPATH) (\<lambda>(r0, old).
     if r0 < 0 then ret (-1) else
     bind (argstr 1 MAXPATH) (\<lambda>(r1, new).
     if r1 < 0 then ret (-1) else
     bind begin_op (\<lambda>_.
     bind (namei (cstring old)) (\<lambda>found.
     case found of None \<Rightarrow> bind end_op (\<lambda>_. ret (-1))
     | Some ip \<Rightarrow>
         bind (ilock (Some ip)) (\<lambda>_.
         bind (gets (\<lambda>s. i_type (itable s ip))) (\<lambda>t.
         if t = T_DIR then bind (iunlockput ip) (\<lambda>_. bind end_op (\<lambda>_. ret (-1)))
         else
           bind (add_nlink ip 1) (\<lambda>_.
           bind (iupdate ip) (\<lambda>_.
           bind (iunlock (Some ip)) (\<lambda>_.
           bind (nameiparent (cstring new)) (\<lambda>(pd, name).
           case pd of None \<Rightarrow> link_bad ip
           | Some dp \<Rightarrow>
               bind (ilock pd) (\<lambda>_.
               bind (gets (\<lambda>s. (itable s dp, itable s ip))) (\<lambda>(d, n).
               bind (if i_dev d \<noteq> i_dev n then ret (-1) else dirlink dp name (i_inum n)) (\<lambda>r.
               if r < 0 then bind (iunlockput dp) (\<lambda>_. link_bad ip)
               else
                 bind (iunlockput dp) (\<lambda>_.
                 bind (iput ip) (\<lambda>_.
                 bind end_op (\<lambda>_.
                 ret 0))))))))))))))))"

fun isdirempty_scan :: "nat \<Rightarrow> u32 list \<Rightarrow> ('a fs_scheme, bool) op" where
  "isdirempty_scan dp [] = ret True"
| "isdirempty_scan dp (off # offs) =
     bind (readi dp RLocal off (of_nat DIRENT_SIZE)) (\<lambda>(r, de).
     if r \<noteq> int DIRENT_SIZE then panic ''isdirempty: readi''
     else if de_inum de \<noteq> 0 then ret False
     else isdirempty_scan dp offs)"

definition isdirempty :: "nat \<Rightarrow> ('a fs_scheme, bool) op" where
  "isdirempty dp =
     bind (gets (\<lambda>s. i_size (itable s dp))) (\<lambda>size. isdirempty_scan dp (drop 2 (dir_offsets size)))"

definition unlink_bad :: "nat \<Rightarrow> ('a fs_scheme, u32) op" where
  "unlink_bad dp = bind (iunlockput dp) (\<lambda>_. bind end_op (\<lambda>_. ret (-1)))"

definition sys_unlink :: "('a fs_scheme, u32) op" where
  "sys_unlink =
     bind (argstr 0 MAXPATH) (\<lambda>(r0, path).
     if r0 < 0 then ret (-1) else
     bind begin_op (\<lambda>_.
     bind (nameiparent (cstring path)) (\<lambda>(pd, name).
     case pd of None \<Rightarrow> bind end_op (\<lambda>_. ret (-1))
     | Some dp \<Rightarrow>
         bind (ilock pd) (\<lambda>_.
         if namecmp name (cs ''.'') = 0 \<or> namecmp name (cs ''..'') = 0 then unlink_bad dp
         else
           bind (dirlookup dp name) (\<lambda>found.
           case found of None \<Rightarrow> unlink_bad dp
           | Some (ip, off) \<Rightarrow>
               bind (ilock (Some ip)) (\<lambda>_.
               bind (gets (\<lambda>s. itable s ip)) (\<lambda>n.
               if i_nlink n <s 1 then panic ''unlink: nlink < 1''
               else
                 bind (if i_type n = T_DIR then isdirempty ip else ret True) (\<lambda>ok.
                 if \<not> ok then bind (iunlockput ip) (\<lambda>_. unlink_bad dp)
                 else
                   bind (writei dp (WLocal (replicate DIRENT_SIZE 0)) off (of_nat DIRENT_SIZE)) (\<lambda>r.
                   if r \<noteq> int DIRENT_SIZE then panic ''unlink: writei''
                   else
                     bind (if i_type n = T_DIR
                           then bind (add_nlink dp (-1)) (\<lambda>_. iupdate dp) else ret ()) (\<lambda>_.
                     bind (iunlockput dp) (\<lambda>_.
                     bind (add_nlink ip (-1)) (\<lambda>_.
                     bind (iupdate ip) (\<lambda>_.
                     bind (iunlockput ip) (\<lambda>_.
                     bind end_op (\<lambda>_.
                     ret 0)))))))))))))))"

definition create_fail :: "nat \<Rightarrow> nat \<Rightarrow> ('a fs_scheme, nat option) op" where
  "create_fail ip dp =
     bind (modify (set_inode ip (\<lambda>n. n\<lparr>i_nlink := 0\<rparr>))) (\<lambda>_.
     bind (iupdate ip) (\<lambda>_.
     bind (iunlockput ip) (\<lambda>_.
     bind (iunlockput dp) (\<lambda>_.
     ret None))))"

definition create :: "u8 list \<Rightarrow> u16 \<Rightarrow> u16 \<Rightarrow> u16 \<Rightarrow> ('a fs_scheme, nat option) op" where
  "create path type maj mnr =
     bind (nameiparent path) (\<lambda>(pd, name).
     case pd of None \<Rightarrow> ret None
     | Some dp \<Rightarrow>
         bind (ilock pd) (\<lambda>_.
         bind (dirlookup dp name) (\<lambda>found.
         case found of
           Some (ip, _) \<Rightarrow>
             bind (iunlockput dp) (\<lambda>_.
             bind (ilock (Some ip)) (\<lambda>_.
             bind (gets (\<lambda>s. i_type (itable s ip))) (\<lambda>t.
             if type = T_FILE \<and> (t = T_FILE \<or> t = T_DEVICE) then ret (Some ip)
             else bind (iunlockput ip) (\<lambda>_. ret None))))
         | None \<Rightarrow>
             bind (gets (\<lambda>s. i_dev (itable s dp))) (\<lambda>d.
             bind (ialloc d type) (\<lambda>new.
             case new of None \<Rightarrow> bind (iunlockput dp) (\<lambda>_. ret None)
             | Some ip \<Rightarrow>
                 bind (ilock new) (\<lambda>_.
                 bind (modify (set_inode ip (\<lambda>n. n\<lparr>i_major := maj, i_minor := mnr, i_nlink := 1\<rparr>))) (\<lambda>_.
                 bind (iupdate ip) (\<lambda>_.
                 bind (gets (\<lambda>s. (i_inum (itable s ip), i_inum (itable s dp)))) (\<lambda>(inum, dinum).
                 bind (if type = T_DIR
                       then bind (dirlink ip (cs ''.'') inum) (\<lambda>r.
                            if r < 0 then ret r else dirlink ip (cs ''..'') dinum)
                       else ret 0) (\<lambda>r1.
                 bind (if r1 < 0 then ret r1 else dirlink dp name inum) (\<lambda>r2.
                 if r2 < 0 then create_fail ip dp
                 else
                   bind (if type = T_DIR then bind (add_nlink dp 1) (\<lambda>_. iupdate dp) else ret ()) (\<lambda>_.
                   bind (iunlockput dp) (\<lambda>_.
                   ret new)))))))))))))"

definition O_WRONLY :: u32 where "O_WRONLY = 1"
definition O_RDWR :: u32 where "O_RDWR = 2"
definition O_CREATE :: u32 where "O_CREATE = 0x200"
definition O_TRUNC :: u32 where "O_TRUNC = 0x400"

text \<open>The inode to open, locked, or \<open>None\<close> when the call has already failed.\<close>

definition open_inode :: "u8 list \<Rightarrow> u32 \<Rightarrow> ('a fs_scheme, nat option) op" where
  "open_inode path omode =
     (if omode AND O_CREATE \<noteq> 0 then create path T_FILE 0 0
      else
        bind (namei path) (\<lambda>found.
        case found of None \<Rightarrow> ret None
        | Some ip \<Rightarrow>
            bind (ilock found) (\<lambda>_.
            bind (gets (\<lambda>s. i_type (itable s ip))) (\<lambda>t.
            if t = T_DIR \<and> omode \<noteq> 0 then bind (iunlockput ip) (\<lambda>_. ret None)
            else ret found))))"

definition sys_open :: "('a files_scheme, u32) op" where
  "sys_open =
     bind (argint 1) (\<lambda>omode.
     bind (argstr 0 MAXPATH) (\<lambda>(r0, path).
     if r0 < 0 then ret (-1) else
     bind begin_op (\<lambda>_.
     bind (open_inode (cstring path) omode) (\<lambda>found.
     case found of None \<Rightarrow> bind end_op (\<lambda>_. ret (-1))
     | Some ip \<Rightarrow>
         let fail = bind (iunlockput ip) (\<lambda>_. bind end_op (\<lambda>_. ret (-1))) in
         bind (gets (\<lambda>s. itable s ip)) (\<lambda>n.
         if i_type n = T_DEVICE \<and> (i_major n <s 0 \<or> of_nat NDEV \<le>s i_major n) then fail
         else
           bind filealloc (\<lambda>fp.
           case fp of None \<Rightarrow> fail
           | Some f \<Rightarrow>
               bind (fdalloc f) (\<lambda>fd.
               if fd < 0 then bind (fileclose f) (\<lambda>_. fail)
               else
                 bind (modify (set_file f (\<lambda>x.
                   (if i_type n = T_DEVICE then x\<lparr>f_type := FD_DEVICE, f_major := sint (i_major n)\<rparr>
                    else x\<lparr>f_type := FD_INODE, f_off := 0\<rparr>)
                   \<lparr>f_ip := Some ip, f_readable := (omode AND O_WRONLY = 0),
                    f_writable := (omode AND O_WRONLY \<noteq> 0 \<or> omode AND O_RDWR \<noteq> 0)\<rparr>))) (\<lambda>_.
                 bind (if omode AND O_TRUNC \<noteq> 0 \<and> i_type n = T_FILE then itrunc ip else ret ()) (\<lambda>_.
                 bind (iunlock found) (\<lambda>_.
                 bind end_op (\<lambda>_.
                 ret (of_int fd))))))))))))"

definition sys_mkdir :: "('a fs_scheme, u32) op" where
  "sys_mkdir =
     bind begin_op (\<lambda>_.
     bind (argstr 0 MAXPATH) (\<lambda>(r0, path).
     bind (if r0 < 0 then ret None else create (cstring path) T_DIR 0 0) (\<lambda>found.
     case found of None \<Rightarrow> bind end_op (\<lambda>_. ret (-1))
     | Some ip \<Rightarrow> bind (iunlockput ip) (\<lambda>_. bind end_op (\<lambda>_. ret 0)))))"

definition sys_mknod :: "('a fs_scheme, u32) op" where
  "sys_mknod =
     bind begin_op (\<lambda>_.
     bind (argint 1) (\<lambda>maj.
     bind (argint 2) (\<lambda>min.
     bind (argstr 0 MAXPATH) (\<lambda>(r0, path).
     bind (if r0 < 0 then ret None else create (cstring path) T_DEVICE (ucast maj) (ucast min)) (\<lambda>found.
     case found of None \<Rightarrow> bind end_op (\<lambda>_. ret (-1))
     | Some ip \<Rightarrow> bind (iunlockput ip) (\<lambda>_. bind end_op (\<lambda>_. ret 0)))))))"

definition sys_chdir :: "('a fs_scheme, u32) op" where
  "sys_chdir =
     bind curproc (\<lambda>p.
     bind begin_op (\<lambda>_.
     bind (argstr 0 MAXPATH) (\<lambda>(r0, path).
     bind (if r0 < 0 then ret None else namei (cstring path)) (\<lambda>found.
     case found of None \<Rightarrow> bind end_op (\<lambda>_. ret (-1))
     | Some ip \<Rightarrow>
         bind (ilock found) (\<lambda>_.
         bind (gets (\<lambda>s. i_type (itable s ip))) (\<lambda>t.
         if t \<noteq> T_DIR then bind (iunlockput ip) (\<lambda>_. bind end_op (\<lambda>_. ret (-1)))
         else
           bind (iunlock found) (\<lambda>_.
           bind (gets (\<lambda>s. p_cwd (ptable s p))) (\<lambda>cwd.
           bind (deref cwd) (\<lambda>c.
           bind (iput c) (\<lambda>_.
           bind end_op (\<lambda>_.
           bind (modify (set_proc p (\<lambda>q. q\<lparr>p_cwd := found\<rparr>))) (\<lambda>_.
           ret 0))))))))))))"

text \<open>Fetch the argument vector: whether it is complete, and the pages and strings so far;
  \<open>n\<close> slots of \<open>argv\<close> are left.\<close>

fun exec_fetch :: "nat \<Rightarrow> u32 \<Rightarrow> (u32 \<times> u8 list) list \<Rightarrow> ('a procs_scheme, bool \<times> (u32 \<times> u8 list) list) op" where
  "exec_fetch 0 uargv argv = ret (False, argv)"
| "exec_fetch (Suc n) uargv argv =
     bind (fetchaddr (uargv + of_nat (4 * length argv))) (\<lambda>(r, uarg).
     if r < 0 then ret (False, argv)
     else if uarg = 0 then ret (True, argv)
     else
       bind kalloc (\<lambda>page.
       if page = 0 then ret (False, argv)
       else
         bind (fetchstr uarg (unat PGSIZE)) (\<lambda>(l, bs).
         bind (modify (\<lambda>s. s\<lparr>mem := write_bytes (mem s) page bs\<rparr>)) (\<lambda>_.
         let argv' = argv @ [(page, cstring bs)] in
         if l < 0 then ret (False, argv') else exec_fetch n uargv argv'))))"

definition sys_exec :: "('a fs_scheme, u32) op" where
  "sys_exec =
     bind (argaddr 1) (\<lambda>uargv.
     bind (argstr 0 MAXPATH) (\<lambda>(r0, path).
     if r0 < 0 then ret (-1) else
     bind (exec_fetch MAXARG uargv []) (\<lambda>(ok, argv).
     bind (if ok then kexec (cstring path) (map snd argv) else ret (-1)) (\<lambda>r.
     bind (for_each (map fst argv) kfree) (\<lambda>_.
     ret (of_int r))))))"

definition clear_fd :: "nat \<Rightarrow> int \<Rightarrow> ('a procs_scheme, unit) op" where
  "clear_fd p fd = modify (set_proc p (\<lambda>q. q\<lparr>p_ofile := (p_ofile q)(nat fd := None)\<rparr>))"

definition sys_pipe :: "('a files_scheme, u32) op" where
  "sys_pipe =
     bind curproc (\<lambda>p.
     bind (argaddr 0) (\<lambda>fdarray.
     bind pipealloc (\<lambda>made.
     case made of None \<Rightarrow> ret (-1)
     | Some (rf, wfile) \<Rightarrow>
         let fail = bind (fileclose rf) (\<lambda>_. bind (fileclose wfile) (\<lambda>_. ret (-1))) in
         bind (fdalloc rf) (\<lambda>fd0.
         if fd0 < 0 then fail
         else
           bind (fdalloc wfile) (\<lambda>fd1.
           if fd1 < 0 then bind (clear_fd p fd0) (\<lambda>_. fail)
           else
             bind (gets (\<lambda>s. p_pagetable (ptable s p))) (\<lambda>pt.
             bind (copyout pt fdarray (bytes32 (of_int fd0))) (\<lambda>r.
             bind (if r < 0 then ret r else copyout pt (fdarray + 4) (bytes32 (of_int fd1))) (\<lambda>r.
             if r < 0
             then bind (clear_fd p fd0) (\<lambda>_. bind (clear_fd p fd1) (\<lambda>_. fail))
             else ret 0))))))))"

end
