(* ===== verification/Trap.thy ===== *)
theory Trap
  imports Syscall
begin

text \<open>
  Traps, \<open>kernel/trap.c\<close>; the dispatch of system calls (\<open>kernel/syscall.c\<close>); the first run of a
  process (\<open>forkret\<close>); the interrupt controller (\<open>kernel/plic.c\<close>) and the boot sequence
  (\<open>kernel/start.c\<close>, \<open>kernel/main.c\<close>). The vector table is in memory at the address in \<open>REG_EVEC\<close>.
\<close>

section \<open>Devices\<close>

definition IC_PENDING :: u32 where "IC_PENDING = 0x03F02000"
definition IC_ENABLE :: u32 where "IC_ENABLE = 0x03F02004"
definition IC_ACK :: u32 where "IC_ACK = 0x03F02008"
definition IC_BIT_TIMER :: u32 where "IC_BIT_TIMER = 1"
definition IC_BIT_UART_RX :: u32 where "IC_BIT_UART_RX = 2"
definition IC_BIT_UART_TX :: u32 where "IC_BIT_UART_TX = 4"
definition IC_BIT_BLKDEV :: u32 where "IC_BIT_BLKDEV = 8"
definition TIMER_PERIOD :: u32 where "TIMER_PERIOD = 0x03F01000"
definition TIMER_CTRL :: u32 where "TIMER_CTRL = 0x03F01004"

definition CAUSE_SYSCALL :: u32 where "CAUSE_SYSCALL = 3"
definition CAUSE_IRQ :: u32 where "CAUSE_IRQ = 6"
definition CAUSE_LPGFAULT :: u32 where "CAUSE_LPGFAULT = 8"
definition CAUSE_SPGFAULT :: u32 where "CAUSE_SPGFAULT = 9"

definition plicinit :: "('a mach_scheme, unit) op" where
  "plicinit = mmio_w IC_ENABLE (IC_BIT_UART_RX OR IC_BIT_BLKDEV)"

definition plic_claim :: "('a mach_scheme, u32) op" where
  "plic_claim = mmio_r IC_PENDING"

definition plic_complete :: "u32 \<Rightarrow> ('a mach_scheme, unit) op" where
  "plic_complete irq_mask = mmio_w IC_ACK irq_mask"

definition timerinit :: "('a mach_scheme, unit) op" where
  "timerinit = bind (mmio_w TIMER_PERIOD 100000) (\<lambda>_. mmio_w TIMER_CTRL 3)"

definition clockintr :: "('a sys_scheme, unit) op" where
  "clockintr =
     bind (acquire TicksLock) (\<lambda>_.
     bind (modify (\<lambda>s. s\<lparr>ticks := ticks s + 1\<rparr>)) (\<lambda>_.
     bind (wakeup (Some TicksChan)) (\<lambda>_.
     bind (release TicksLock) (\<lambda>_.
     mmio_w IC_ACK IC_BIT_TIMER))))"

definition on_pending :: "u32 \<Rightarrow> u32 \<Rightarrow> int \<Rightarrow> int \<Rightarrow> ('s, unit) op \<Rightarrow> ('s, int) op" where
  "on_pending pending b r0 r handler =
     (if pending AND b \<noteq> 0 then bind handler (\<lambda>_. ret r) else ret r0)"

definition devintr :: "('a sys_scheme, int) op" where
  "devintr =
     bind (mmio_r REG_CAUSE) (\<lambda>cause.
     if cause \<noteq> CAUSE_IRQ then ret 0
     else
       bind (mmio_r IC_PENDING) (\<lambda>pending.
       bind (on_pending pending IC_BIT_UART_RX 0 1
         (bind uartintr (\<lambda>_. mmio_w IC_ACK IC_BIT_UART_RX))) (\<lambda>r.
       bind (on_pending pending IC_BIT_UART_TX r 1
         (bind uartintr (\<lambda>_. mmio_w IC_ACK IC_BIT_UART_TX))) (\<lambda>r.
       bind (on_pending pending IC_BIT_BLKDEV r 1
         (bind virtio_disk_intr (\<lambda>_. mmio_w IC_ACK IC_BIT_BLKDEV))) (\<lambda>r.
       bind (on_pending pending IC_BIT_TIMER r 2 clockintr) (\<lambda>r.
       ret (if r \<noteq> 0 then r else 1)))))))"

section \<open>System calls\<close>

text \<open>The table \<open>syscalls\<close>; \<open>None\<close> where it has no handler.\<close>

definition syscalls :: "nat \<Rightarrow> ('a sys_scheme, u32) op option" where
  "syscalls num =
     (if num = 1 then Some sys_fork else if num = 2 then Some sys_exit
      else if num = 3 then Some sys_wait else if num = 4 then Some sys_pipe
      else if num = 5 then Some sys_read else if num = 6 then Some sys_kill
      else if num = 7 then Some sys_exec else if num = 8 then Some sys_fstat
      else if num = 9 then Some sys_chdir else if num = 10 then Some sys_dup
      else if num = 11 then Some sys_getpid else if num = 12 then Some sys_sbrk
      else if num = 13 then Some sys_pause else if num = 14 then Some sys_uptime
      else if num = 15 then Some sys_open else if num = 16 then Some sys_write
      else if num = 17 then Some sys_mknod else if num = 18 then Some sys_unlink
      else if num = 19 then Some sys_link else if num = 20 then Some sys_mkdir
      else if num = 21 then Some sys_close else None)"

definition syscall :: "('a sys_scheme, unit) op" where
  "syscall =
     bind curproc (\<lambda>p.
     bind (tf_get p (tf_r 0)) (\<lambda>num.
     case (if 0 <s num then syscalls (unat num) else None) of
       Some handler \<Rightarrow> bind handler (\<lambda>r. tf_set p (tf_r 0) r)
     | None \<Rightarrow>
         bind (gets (\<lambda>s. ptable s p)) (\<lambda>q.
         bind (printf (cs ''%d %s: unknown sys call %d'' @ [10])
           [ANum (p_pid q), AStr (Some (cstring (p_name q))), ANum num]) (\<lambda>_.
         tf_set p (tf_r 0) (-1)))))"

section \<open>Traps\<close>

definition set_evec :: "nat \<Rightarrow> u32 \<Rightarrow> ('a mach_scheme, unit) op" where
  "set_evec n handler =
     bind (mmio_r REG_EVEC) (\<lambda>evec. for_each [0..<n] (\<lambda>i. st32 (evec + of_nat (4 * i)) handler))"

definition trapinit :: "('a sys_scheme, unit) op" where
  "trapinit =
     bind (initlock TicksLock ''time'') (\<lambda>_.
     bind (mmio_r REG_EVEC) (\<lambda>evec.
     bind (gets sym_kerneltrap) (\<lambda>kt.
     st32 (evec + 60) kt)))"

definition trapinithart :: "('a sys_scheme, unit) op" where
  "trapinithart = bind (gets sym_kernelvec) (\<lambda>kv. set_evec 10 kv)"

definition prepare_return :: "('a sys_scheme, unit) op" where
  "prepare_return =
     bind curproc (\<lambda>p.
     bind intr_off (\<lambda>_.
     bind (gets (\<lambda>s. TRAMPOLINE + (sym_uservec s - sym_trampoline_start s))) (\<lambda>uv.
     bind (set_evec 10 uv) (\<lambda>_.
     bind (mmio_r REG_SATP) (\<lambda>satp.
     bind (tf_set p TF_KERNEL_SATP satp) (\<lambda>_.
     bind (gets (\<lambda>s. (p_kstack (ptable s p), sym_usertrap s))) (\<lambda>(ks, ut).
     bind (tf_set p TF_KERNEL_SP (ks + PGSIZE)) (\<lambda>_.
     bind (tf_set p TF_KERNEL_TRAP ut) (\<lambda>_.
     bind (tf_set p TF_KERNEL_HARTID 0) (\<lambda>_.
     bind (tf_get p TF_EPC) (\<lambda>epc.
     bind (mmio_w REG_EPC epc) (\<lambda>_.
     bind (mmio_w REG_EFLAGS 0) (\<lambda>_.
     mmio_w REG_ESTATUS STATUS_IE)))))))))))))"

text \<open>The branches on the cause; the result is \<open>which_dev\<close>.\<close>

definition usertrap_cause :: "nat \<Rightarrow> u32 \<Rightarrow> ('a sys_scheme, int) op" where
  "usertrap_cause p cause =
     (if cause = CAUSE_SYSCALL
      then
        bind (killed p) (\<lambda>k.
        bind (if k \<noteq> 0 then kexit (-1) else ret ()) (\<lambda>_.
        bind syscall (\<lambda>_. ret 0)))
      else
        bind devintr (\<lambda>which_dev.
        if which_dev \<noteq> 0 then ret which_dev
        else
          bind (if cause = CAUSE_SPGFAULT \<or> cause = CAUSE_LPGFAULT
                then bind (gets (\<lambda>s. p_pagetable (ptable s p))) (\<lambda>pt.
                     bind (mmio_r REG_BADADDR) (\<lambda>badaddr.
                     vmfault pt badaddr (cause = CAUSE_LPGFAULT)))
                else ret 0) (\<lambda>pa.
          if pa \<noteq> 0 then ret 0
          else
            bind (gets (\<lambda>s. p_pid (ptable s p))) (\<lambda>pid.
            bind (printf (cs ''usertrap(): unexpected cause 0x%x pid=%d'' @ [10]) [ANum cause, ANum pid]) (\<lambda>_.
            bind (tf_get p TF_EPC) (\<lambda>epc.
            bind (mmio_r REG_BADADDR) (\<lambda>badaddr.
            bind (printf (cs ''            epc=0x%x badaddr=0x%x'' @ [10]) [ANum epc, ANum badaddr]) (\<lambda>_.
            bind (setkilled p) (\<lambda>_.
            ret 0)))))))))"

definition usertrap :: "('a sys_scheme, u32) op" where
  "usertrap =
     bind curproc (\<lambda>p.
     bind (gets sym_kernelvec) (\<lambda>kv.
     bind (set_evec 10 kv) (\<lambda>_.
     bind (mmio_r REG_CAUSE) (\<lambda>cause.
     bind (usertrap_cause p cause) (\<lambda>which_dev.
     bind (killed p) (\<lambda>k.
     bind (if k \<noteq> 0 then kexit (-1) else ret ()) (\<lambda>_.
     bind (if which_dev = 2 then yield else ret ()) (\<lambda>_.
     bind (if cause = CAUSE_SYSCALL
           then
             bind (mmio_r IC_PENDING) (\<lambda>pending.
             if pending AND IC_BIT_TIMER \<noteq> 0 then bind clockintr (\<lambda>_. yield) else ret ())
           else ret ()) (\<lambda>_.
     bind prepare_return (\<lambda>_.
     gets (\<lambda>s. MAKE_SATP (p_pagetable (ptable s p)))))))))))))"

definition kerneltrap :: "('a sys_scheme, unit) op" where
  "kerneltrap =
     bind (mmio_r REG_CAUSE) (\<lambda>cause.
     bind devintr (\<lambda>r.
     if r \<noteq> 0 then ret ()
     else
       bind (mmio_r REG_EPC) (\<lambda>epc.
       bind (mmio_r REG_BADADDR) (\<lambda>baddr.
       bind (printf (cs ''kerneltrap: cause=0x%x epc=0x%x badaddr=0x%x'' @ [10])
         [ANum cause, ANum epc, ANum baddr]) (\<lambda>_.
       panic ''kerneltrap'')))))"

text \<open>The result is the SATP value passed to \<open>userret\<close> and the address it jumps to.\<close>

definition forkret :: "('a sys_scheme, u32 \<times> u32) op" where
  "forkret =
     bind curproc (\<lambda>p.
     bind (release (ProcLock p)) (\<lambda>_.
     bind (gets first) (\<lambda>initial.
     bind (if initial
           then
             bind (fsinit ROOTDEV) (\<lambda>_.
             bind (modify (\<lambda>s. s\<lparr>first := False\<rparr>)) (\<lambda>_.
             bind (kexec (cs ''/init'') [cs ''/init'']) (\<lambda>r.
             bind (tf_set p (tf_r 0) (of_int r)) (\<lambda>_.
             if r = -1 then panic ''exec'' else ret ()))))
           else ret ()) (\<lambda>_.
     bind prepare_return (\<lambda>_.
     gets (\<lambda>s. (MAKE_SATP (p_pagetable (ptable s p)),
       TRAMPOLINE + (sym_userret s - sym_trampoline_start s))))))))"

section \<open>Boot\<close>

definition say :: "string \<Rightarrow> ('a console_scheme, unit) op" where
  "say msg = printf (cs msg @ [10]) []"

definition boot_devices :: "('a sys_scheme, unit) op" where
  "boot_devices =
     bind (say ''trapinit...'') (\<lambda>_.
     bind trapinit (\<lambda>_.
     bind (say ''trapinithart...'') (\<lambda>_.
     bind trapinithart (\<lambda>_.
     bind (say ''plicinit...'') (\<lambda>_.
     bind plicinit (\<lambda>_.
     bind (say ''plicinithart...'') (\<lambda>_.
     bind (say ''timerinit...'') (\<lambda>_.
     timerinit))))))))"

definition boot_files :: "('a sys_scheme, unit) op" where
  "boot_files =
     bind (say ''binit...'') (\<lambda>_.
     bind binit (\<lambda>_.
     bind (say ''iinit...'') (\<lambda>_.
     bind iinit (\<lambda>_.
     bind (say ''fileinit...'') (\<lambda>_.
     bind fileinit (\<lambda>_.
     bind (say ''virtio_disk_init...'') (\<lambda>_.
     bind virtio_disk_init (\<lambda>_.
     bind (say ''userinit...'') (\<lambda>_.
     bind userinit (\<lambda>_.
     say ''userinit done, calling scheduler''))))))))))"

definition main :: "nat \<Rightarrow> ('a sys_scheme, unit) op" where
  "main rounds =
     bind consoleinit (\<lambda>_.
     bind printfinit (\<lambda>_.
     bind (say '''') (\<lambda>_.
     bind (say ''xv6 kernel is booting'') (\<lambda>_.
     bind (say '''') (\<lambda>_.
     bind (say ''kinit...'') (\<lambda>_.
     bind kinit (\<lambda>_.
     bind (say ''kvminit...'') (\<lambda>_.
     bind kvminit (\<lambda>_.
     bind (say ''kvminithart...'') (\<lambda>_.
     bind kvminithart (\<lambda>_.
     bind (say ''procinit...'') (\<lambda>_.
     bind procinit (\<lambda>_.
     bind boot_devices (\<lambda>_.
     bind boot_files (\<lambda>_.
     scheduler rounds)))))))))))))))"

definition start :: "nat \<Rightarrow> ('a sys_scheme, unit) op" where
  "start rounds =
     bind (mmio_w REG_SATP 0) (\<lambda>_.
     bind (gets (\<lambda>s. (evec_table s, sym_kernelvec s))) (\<lambda>(tab, kv).
     bind (for_each [0..<16] (\<lambda>i. st32 (tab + of_nat (4 * i)) kv)) (\<lambda>_.
     bind (mmio_w REG_EVEC tab) (\<lambda>_.
     main rounds))))"

end
