(* ===== verification/TrapProps.thy ===== *)
theory TrapProps
  imports KernelVec Trap ConsoleProps
begin

text \<open>
  The way between user mode and the kernel, the C code and the assembly together: \<open>prepare_return\<close> of \<open>trap.c\<close> fills the
  trap frame from which \<open>userret\<close> leaves the kernel and with which the next trap's \<open>uservec\<close> enters it.
\<close>

lemma for_each_st32:
  "for_each l (\<lambda>i. st32 (a + f i) v) P s = Ret () (s\<lparr>mem := stored a (map (\<lambda>i. (i, f i)) l) (\<lambda>_. v) (mem s)\<rparr>)"
  by (induction l arbitrary: s) (simp_all add: stored_def ret_def)

text \<open>The ten entries of the vector table that \<open>usertrap\<close> and \<open>prepare_return\<close> set.\<close>

definition evec_slots :: "(nat \<times> u32) list" where
  "evec_slots = map (\<lambda>i. (i, of_nat (4 * i))) [0..<10]"

lemma evec_slots: "snd ` set evec_slots = offs 10" "distinct (map snd evec_slots)"
  by (simp_all add: evec_slots_def offs_def image_image upt_rec)

text \<open>The kernel's words of the trap frame of process \<open>p\<close>, in memory \<open>m\<close>, lead back to \<open>usertrap\<close> on its stack.\<close>

definition kernel_words :: "'a sys_scheme \<Rightarrow> nat \<Rightarrow> memory \<Rightarrow> bool" where
  "kernel_words s p m \<longleftrightarrow> (let tf = p_trapframe (ptable s p) in
     load32 m tf = csr s REG_SATP \<and> load32 m (tf + 4) = p_kstack (ptable s p) + PGSIZE \<and> load32 m (tf + 8) = sym_usertrap s)"

lemma sym_uservec_settle [simp]: "sym_uservec (settle s) = sym_uservec s"
  by (simp add: lock_defs)

lemma prepare_return_run:
  fixes s :: "'a sys_scheme"
  assumes cpu: "cpu_ok s" "c_proc (mycpu s) = Some p" and tf: "p_trapframe (ptable s p) = tf" "aligned4 tf"
    and ev: "aligned4 (csr s REG_EVEC)" "\<forall>k \<in> offs 20. \<forall>j \<in> offs 10. tf + k \<noteq> csr s REG_EVEC + j"
  shows "\<exists>t. prepare_return P s = Ret () t \<and> kernel_words s p (mem t) \<and> (\<forall>k \<in> set (map snd tf_regs). load32 (mem t) (tf + k) = load32 (mem s) (tf + k))
    \<and> csr t REG_EPC = load32 (mem s) (tf + 12) \<and> csr t REG_EFLAGS = 0 \<and> csr t REG_ESTATUS = STATUS_IE \<and> ptable t = ptable s"
proof -
  let ?h = "TRAMPOLINE + (sym_uservec s - sym_trampoline_start s)" let ?ev = "csr s REG_EVEC"
  let ?tab = "stored ?ev evec_slots (\<lambda>_. ?h) (mem s)"
  let ?m = "store32 (store32 (store32 (store32 ?tab tf (csr s REG_SATP)) (tf + 4) (p_kstack (ptable s p) + PGSIZE)) (tf + 8) (sym_usertrap s)) (tf + 16) 0"
  have m0: "load32 ?tab (tf + k) = load32 (mem s) (tf + k)" if "k \<in> offs 20" for k
    using that ev tf(2) aligned4_offs by (intro stored_other) (auto simp: evec_slots aligned4_plus)
  have o: "(0 :: u32) \<in> offs 20" "(4 :: u32) \<in> offs 20" "(8 :: u32) \<in> offs 20" "(16 :: u32) \<in> offs 20" "(12 :: u32) \<in> offs 20" by (simp_all add: offs_20)
  have w: "load32 (store32 m tf v) (tf + k) = (if k = 0 then v else load32 m (tf + k))"
    "load32 (store32 m (tf + k) v) tf = (if k = 0 then v else load32 m tf)" if "k \<in> offs 20" for m k v
    using store_offs [OF tf(2) that o(1)] store_offs [OF tf(2) o(1) that] by auto
  have "\<exists>t. prepare_return P s = Ret () t \<and> mem t = ?m \<and> csr t REG_EPC = load32 ?m (tf + 12) \<and> csr t REG_EFLAGS = 0
      \<and> csr t REG_ESTATUS = STATUS_IE \<and> ptable t = ptable s"
    using cpu tf(1) by (simp add: prepare_return_def curproc_eq set_evec_def for_each_st32 tf_set_def tf_get_def intr_off_def mmio_r_def mmio_w_def
        evec_slots_def reg_defs TF_KERNEL_SATP_def TF_KERNEL_SP_def TF_KERNEL_TRAP_def TF_KERNEL_HARTID_def TF_EPC_def)
  moreover have "load32 ?m (tf + k) = load32 (mem s) (tf + k)" if "k \<in> insert 12 (set (map snd tf_regs))" for k
  proof -
    have "k \<in> offs 20" "k \<noteq> 0" "k \<noteq> 4" "k \<noteq> 8" "k \<noteq> 16" using that by (auto simp: offs_20 tf_regs_def)
    then show ?thesis using m0 o by (simp add: store_offs [OF tf(2)] w)
  qed
  moreover have "kernel_words s p ?m" using o by (simp add: kernel_words_def tf Let_def store_offs [OF tf(2)] w)
  ultimately show ?thesis by auto
qed

text \<open>The machine when \<open>userret\<close> is called after \<open>prepare_return\<close> left state \<open>t\<close>; and the machine at a later trap of the same
  process, whose trap frame still holds the kernel's words of memory \<open>m\<close>.\<close>

definition at_userret :: "'a mach_scheme \<Rightarrow> u32 \<Rightarrow> asm \<Rightarrow> bool" where
  "at_userret t satp a \<longleftrightarrow> amem a = mem t \<and> sysreg a = csr t \<and> gpr a 0 = satp"

definition at_uservec :: "xlate \<Rightarrow> u32 \<Rightarrow> u32 \<Rightarrow> memory \<Rightarrow> asm \<Rightarrow> bool" where
  "at_uservec tr satp tf m w \<longleftrightarrow> sysreg w REG_SATP = satp \<and> (\<exists>q. slot_at tr satp (gpr w 13) q \<and> (\<forall>k \<in> offs 20. q \<noteq> tf + k))
     \<and> load32 (amem w) tf = load32 m tf \<and> load32 (amem w) (tf + 4) = load32 m (tf + 4) \<and> load32 (amem w) (tf + 8) = load32 m (tf + 8)"

lemma userret_leaves:
  assumes tf: "frame_at tr satp 20 TRAPFRAME_va tf" and a: "at_userret t satp a"
  shows "\<exists>v. run tr userret_code a = Some v \<and> (\<forall>(r, k) \<in> set tf_regs. gpr v r = load32 (mem t) (tf + k)) \<and> pc v = csr t REG_EPC \<and> flags v = csr t REG_EFLAGS
    \<and> sysreg v REG_STATUS = csr t REG_ESTATUS AND NOT 1 \<and> sysreg v REG_SATP = satp"
  using userret_run [of tr a tf] tf a by (auto simp: at_userret_def reg_defs)

lemma uservec_enters:
  assumes tf: "frame_at tr satp 20 TRAPFRAME_va tf" and w: "at_uservec tr satp tf m w"
  shows "\<exists>e. run tr uservec_code w = Some e \<and> pc e = load32 m (tf + 8) \<and> gpr e 13 = load32 m (tf + 4) \<and> sysreg e REG_SATP = load32 m tf
    \<and> gpr e 14 = pc w + 4 * of_nat (length uservec_code) \<and> (\<forall>(r, k) \<in> set tf_regs. load32 (amem e) (tf + k) = gpr w r)
    \<and> load32 (amem e) (tf + 12) = sysreg w REG_EPC"
proof -
  obtain q where q: "slot_at tr (sysreg w REG_SATP) (gpr w 13) q" "\<forall>k \<in> offs 20. q \<noteq> tf + k" "sysreg w REG_SATP = satp"
    using w by (auto simp: at_uservec_def)
  have al: "aligned4 tf" "aligned4 q" using tf q by (simp_all add: frame_at_def slot_at_def)
  have "q \<noteq> tf + k" if "k \<in> {0, 4, 8}" for k using q(2) that by (auto simp: offs_20)
  then have "load32 (uservec_mem tf q w) (tf + k) = load32 m (tf + k)" if "k \<in> {0, 4, 8}" for k
    using uservec_mem_kernel(1) [OF al, of k w] that w by (auto simp: at_uservec_def)
  from this [of 0] this [of 4] this [of 8] show ?thesis
    using uservec_run [OF _ q(1)] tf q(3) uservec_mem_saved [OF al q(2), of _ _ w] uservec_mem_kernel(2) [OF al, of 0 w]
    by (fastforce simp: uservec_code_def)
qed

text \<open>Register \<open>r\<close> is at offset \<open>tf_r r\<close> of the trap frame, for the C code and for the assembly.\<close>

lemma tf_regs_all: "(\<And>r k. (r, k) \<in> set tf_regs \<Longrightarrow> Q r k) \<Longrightarrow> \<forall>r \<in> set [0..<15]. Q r (tf_r r)"
proof
  fix r :: nat
  assume q: "\<And>r k. (r, k) \<in> set tf_regs \<Longrightarrow> Q r k" and r: "r \<in> set [0..<15]"
  obtain k where k: "(r, k) \<in> set tf_regs" using r unfolding tf_regs_dom by auto
  moreover have "\<forall>(r, k) \<in> set tf_regs. k = tf_r r" by (simp add: tf_regs_def tf_r_def)
  ultimately have "k = tf_r r" by blast
  then show "Q r (tf_r r)" using q [OF k] by simp
qed

text \<open>C35: The C code and the assembly agree on the trap frame. After \<open>prepare_return\<close> for the current process, \<open>userret\<close>, called
  with the process's page table, resumes the program counter and the fifteen registers its trap frame held, in user
  mode with interrupts on and with all condition flags clear, whatever they were at the trap; and the next trap of the process, while its trap frame keeps the kernel's three words, enters
  \<open>usertrap\<close> on the process's kernel stack, under the page table that was in force in \<open>prepare_return\<close>, with the return
  address at the end of \<open>uservec\<close>, where \<open>userret\<close> begins, and with the user's registers and program counter saved.\<close>

theorem trap_return_reenters:
  fixes s :: "'a sys_scheme"
  assumes cpu: "cpu_ok s" "c_proc (mycpu s) = Some p" and tf: "p_trapframe (ptable s p) = tf"
    and pt: "MAKE_SATP (p_pagetable (ptable s p)) = satp" "frame_at tr satp 20 TRAPFRAME_va tf"
    and ev: "aligned4 (csr s REG_EVEC)" "\<forall>k \<in> offs 20. \<forall>j \<in> offs 10. tf + k \<noteq> csr s REG_EVEC + j"
  shows "\<exists>t. prepare_return P s = Ret () t
    \<and> (\<forall>a. at_userret t satp a \<longrightarrow> (\<exists>v. run tr userret_code a = Some v \<and> pc v = load32 (mem s) (tf + 12)
          \<and> (\<forall>r \<in> set [0..<15]. gpr v r = load32 (mem s) (tf + tf_r r)) \<and> flags v = 0 \<and> sysreg v REG_STATUS = STATUS_IE \<and> sysreg v REG_SATP = satp))
    \<and> (\<forall>w. at_uservec tr satp tf (mem t) w \<longrightarrow> (\<exists>e. run tr uservec_code w = Some e \<and> pc e = sym_usertrap s
          \<and> gpr e 13 = p_kstack (ptable s p) + PGSIZE \<and> sysreg e REG_SATP = csr s REG_SATP \<and> gpr e 14 = pc w + 4 * of_nat (length uservec_code)
          \<and> (\<forall>r \<in> set [0..<15]. load32 (amem e) (tf + tf_r r) = gpr w r) \<and> load32 (amem e) (tf + 12) = sysreg w REG_EPC))"
proof -
  have al: "aligned4 tf" using pt(2) by (simp add: frame_at_def)
  obtain t where t: "prepare_return P s = Ret () t" "kernel_words s p (mem t)" "\<forall>k \<in> set (map snd tf_regs). load32 (mem t) (tf + k) = load32 (mem s) (tf + k)"
    "csr t REG_EPC = load32 (mem s) (tf + 12)" "csr t REG_EFLAGS = 0" "csr t REG_ESTATUS = STATUS_IE" using prepare_return_run [OF cpu tf al ev, of P] by blast
  have "\<exists>v. run tr userret_code a = Some v \<and> pc v = load32 (mem s) (tf + 12)
      \<and> (\<forall>r \<in> set [0..<15]. gpr v r = load32 (mem s) (tf + tf_r r)) \<and> flags v = 0 \<and> sysreg v REG_STATUS = STATUS_IE \<and> sysreg v REG_SATP = satp"
    if a: "at_userret t satp a" for a
  proof -
    obtain v where v: "run tr userret_code a = Some v" "\<forall>(r, k) \<in> set tf_regs. gpr v r = load32 (mem t) (tf + k)" "pc v = csr t REG_EPC" "flags v = csr t REG_EFLAGS"
      "sysreg v REG_STATUS = csr t REG_ESTATUS AND NOT 1" "sysreg v REG_SATP = satp" using userret_leaves [OF pt(2) a] by blast
    moreover have "\<forall>r \<in> set [0..<15]. gpr v r = load32 (mem s) (tf + tf_r r)" by (rule tf_regs_all) (use v(2) t(3) in force)
    ultimately show ?thesis using t(4-6) by (intro exI [of _ v]) (simp add: STATUS_IE_def)
  qed
  moreover have "\<exists>e. run tr uservec_code w = Some e \<and> pc e = sym_usertrap s
      \<and> gpr e 13 = p_kstack (ptable s p) + PGSIZE \<and> sysreg e REG_SATP = csr s REG_SATP \<and> gpr e 14 = pc w + 4 * of_nat (length uservec_code)
      \<and> (\<forall>r \<in> set [0..<15]. load32 (amem e) (tf + tf_r r) = gpr w r) \<and> load32 (amem e) (tf + 12) = sysreg w REG_EPC"
    if w: "at_uservec tr satp tf (mem t) w" for w
  proof -
    obtain e where e: "run tr uservec_code w = Some e" "pc e = load32 (mem t) (tf + 8)" "gpr e 13 = load32 (mem t) (tf + 4)" "sysreg e REG_SATP = load32 (mem t) tf"
      "gpr e 14 = pc w + 4 * of_nat (length uservec_code)" "\<forall>(r, k) \<in> set tf_regs. load32 (amem e) (tf + k) = gpr w r"
      "load32 (amem e) (tf + 12) = sysreg w REG_EPC" using uservec_enters [OF pt(2) w] by blast
    moreover have "\<forall>r \<in> set [0..<15]. load32 (amem e) (tf + tf_r r) = gpr w r" by (rule tf_regs_all) (use e(6) in auto)
    ultimately show ?thesis using t(2) unfolding kernel_words_def Let_def tf by (intro exI [of _ e]) simp
  qed
  ultimately show ?thesis using t(1) by blast
qed

text \<open>Process 0 at the end of a system call, its trap frame at \<open>0x5000\<close>.\<close>

definition trap0 :: sys where
  "trap0 = files.extend (files_on (run0\<lparr>ptable := (ptable run0)(0 := (ptable run0 0)\<lparr>p_trapframe := 0x5000\<rparr>)\<rparr>)) (sys.fields 0 False 0 0 0 0)"

lemma trap0_select: "p_trapframe (ptable trap0 0) = 0x5000" "csr trap0 REG_EVEC = 0" "cpu_ok trap0" "c_proc (mycpu trap0) = Some 0"
  by (simp_all add: trap0_def ext_defs on_defs sys.defs run0_def procs0_def kmem0_def mach0_def cpu0_def cpu_ok_def ie_def mycpu_def)

theorem trap_return_reenters_witness:
  "\<exists>t e. prepare_return bare trap0 = Ret () t
    \<and> run (\<lambda>_ a. Some (a - TRAPFRAME_va + 0x5000)) uservec_code (uasm0\<lparr>amem := mem t, sysreg := (\<lambda>_. MAKE_SATP (p_pagetable (ptable trap0 0)))\<rparr>) = Some e
    \<and> pc e = sym_usertrap trap0"
proof -
  let ?tr = "\<lambda>_ a. Some (a - TRAPFRAME_va + 0x5000)" let ?satp = "MAKE_SATP (p_pagetable (ptable trap0 0))"
  have f: "frame_at ?tr ?satp 20 TRAPFRAME_va 0x5000" by (simp add: frame_at_def offs_20 TRAPFRAME_va_def MMIO_BASE_def aligned4_def)
  have ev: "aligned4 (csr trap0 REG_EVEC)" "\<forall>k \<in> offs 20. \<forall>j \<in> offs 10. 0x5000 + k \<noteq> csr trap0 REG_EVEC + j"
    by (simp_all add: trap0_select aligned4_def offs_20 offs_def upt_rec)
  obtain t where t: "prepare_return bare trap0 = Ret () t"
    "\<forall>w. at_uservec ?tr ?satp 0x5000 (mem t) w \<longrightarrow> (\<exists>e. run ?tr uservec_code w = Some e \<and> pc e = sym_usertrap trap0)"
    using trap_return_reenters [OF trap0_select(3,4,1) refl f ev, of bare] by blast
  have "slot_at ?tr ?satp (gpr uasm0 13) (0x3FFC - TRAPFRAME_va + 0x5000)" "\<forall>k \<in> offs 20. 0x3FFC - TRAPFRAME_va + 0x5000 \<noteq> 0x5000 + k"
    by (simp_all add: slot_at_def uasm0_def MMIO_BASE_def aligned4_def TRAPFRAME_va_def offs_20)
  then have "at_uservec ?tr ?satp 0x5000 (mem t) (uasm0\<lparr>amem := mem t, sysreg := (\<lambda>_. ?satp)\<rparr>)" by (auto simp: at_uservec_def)
  then show ?thesis using t by blast
qed

end
