(* ===== verification/TxEnd.thy ===== *)
theory TxEnd
  imports Tx
begin

text \<open>
  The ends of a transaction, \<open>begin_op\<close> and \<open>end_op\<close> of \<open>kernel/log.c\<close>: the last \<open>end_op\<close> commits, unless
  the log is full, when the cache has no buffer left for the commit.
\<close>

section \<open>No buffer left\<close>

text \<open>With as many blocks in the log as there are buffers, every buffer is pinned.\<close>

lemma all_pinned:
  assumes r: "rep n p d D V (pinned hs) s" and d: "distinct hs" and l: "length hs = NBUF" and b: "b < NBUF"
  shows "b_refcnt (bufs s b) \<noteq> 0" "b_dev (bufs s b) = d" "b_blockno (bufs s b) \<in> set hs"
proof -
  obtain B where c: "cached n p d \<lparr>vdisk = D, vdata = V, vref = pinned hs, vlocked = {}, vbuf = B\<rparr> s" (is "cached _ _ _ ?v s")
    using r by (auto simp: rep_cached)
  have v: "B k < NBUF" "b_dev (bufs s (B k)) = d" "b_blockno (bufs s (B k)) = k" if "k \<in> set hs" for k
    using cached_vbuf(1-3) [OF c, of k] that by (simp_all add: pinned_def)
  have "inj_on B (set hs)" using v(3) by (metis inj_onI)
  then have "card (B ` set hs) = NBUF" using d l by (simp add: card_image distinct_card)
  moreover have "B ` set hs \<subseteq> {..<NBUF}" using v(1) by auto
  ultimately have "B ` set hs = {..<NBUF}" by (intro card_subset_eq) simp_all
  then obtain k where k: "k \<in> set hs" "b = B k" using b by (metis imageE lessThan_iff)
  then show "b_dev (bufs s b) = d" "b_blockno (bufs s b) \<in> set hs" using v by auto
  then show "b_refcnt (bufs s b) \<noteq> 0" using cached_buf [OF c b] by (simp add: buf_ok_def pinned_def)
qed

lemma bread_no_buffers:
  fixes s :: "'a log_scheme"
  assumes r: "rep n p d D V (pinned hs) s" and d: "distinct hs" and l: "length hs = NBUF" and k: "k \<notin> set hs"
  shows "bread d k P s = Panic ''bget: no buffers'' (acquired BcacheLock s)"
proof -
  have c: "quiet s" "lru_ok (bufs s)" using r cached_simps(1,7) by (auto simp: rep_cached)
  note a = all_pinned [OF r d l]
  have s: "set (lru (bufs s)) = {0..<NBUF}" using c(2) by (simp add: lru_ok_def)
  have "cached_at (bufs s) d k = None" using a(3) k s by (auto simp: cached_at_def find_None_iff)
  moreover have "least_used (bufs s) = None" using a(1) s by (simp add: least_used_def find_None_iff)
  ultimately have "bget d k P s = Panic ''bget: no buffers'' (acquired BcacheLock s)"
    by (simp only: bget_def bind_def [of "acquire BcacheLock"] acquire_quiet [OF c(1)] bind_def [of "gets bufs"] gets_apply
      outcome.case bcache_acquired bget_searches [OF c(2)] panic_def option.case)
  then show ?thesis by (simp add: bread_def bind_def)
qed

lemma commit_no_buffers:
  fixes s :: "'a log_scheme"
  assumes r: "rep n p d D V (pinned hs) s" and h: "homes n start hs" "log_fields d start hs s" and l: "length hs = NBUF" and a: "log_area n start"
  shows "commit P s = Panic ''bget: no buffers'' (acquired BcacheLock s)"
proof -
  have f: "log_dev s = d" "log_start s = start" "log_n s = int NBUF" using h(2) l by (auto simp: log_fields_def)
  have d: "distinct hs" "\<forall>h \<in> set hs. \<not> in_log start h" using h(1) by (simp_all add: homes_def)
  then have "log_at start 0 \<notin> set hs" using log_area(4) [OF a, of 0] by (auto simp: LOGBLOCKS_def MAXOPBLOCKS_def)
  then have "bread d (start + 1) P s = Panic ''bget: no buffers'' (acquired BcacheLock s)"
    using bread_no_buffers [OF r d(1) l, of "log_at start 0" P] by (simp add: log_at_def)
  then have "write_log_one 0 P s = Panic ''bget: no buffers'' (acquired BcacheLock s)"
    using f by (simp add: write_log_one_def bind_def run_simps)
  moreover have "[0..<NBUF] = 0 # [1..<NBUF]" by (simp add: NBUF_def MAXOPBLOCKS_def upt_conv_Cons)
  ultimately show ?thesis using f by (simp add: commit_def write_log_def bind_def run_simps NBUF_def MAXOPBLOCKS_def)
qed

section \<open>Closing a transaction\<close>

lemma neutral_log_flags: "lock_neutral (\<lambda>s. s\<lparr>log_outstanding := f (log_outstanding s)\<rparr>)" "lock_neutral (\<lambda>s. s\<lparr>log_committing := c\<rparr>)"
  by (simp_all add: lock_neutral_def)

lemma cached_woken: "cached n p d v s \<Longrightarrow> cached n p d v (woken (Some p) ch s)"
  using bcache_inv_bufs [of "woken (Some p) ch s" s] disk_ok_cong [of "woken (Some p) ch s" s]
  by (simp add: cached_def disk_block_def)

lemma rep_woken: "rep n p d D V R s \<Longrightarrow> rep n p d D V R (woken (Some p) ch s)"
  by (auto simp: rep_cached intro: cached_woken)

lemma woken_log [simp]:
  "log_n (woken me ch s) = log_n s" "log_block (woken me ch s) = log_block s" "log_dev (woken me ch s) = log_dev s"
  "log_start (woken me ch s) = log_start s" "log_outstanding (woken me ch s) = log_outstanding s"
  "log_committing (woken me ch s) = log_committing s"
  by (simp_all add: woken_def)

text \<open>One of several operations ends: the others go on, and an operation that waits for log space is woken.\<close>

lemma end_op_more:
  fixes s :: "'a log_scheme"
  assumes q: "quiet s" and p: "c_proc (mycpu s) = Some p" and o: "1 < log_outstanding s" and c: "\<not> log_committing s"
  shows "end_op P s = Ret () (woken (Some p) (Some LogChan) (s\<lparr>log_outstanding := log_outstanding s - 1\<rparr>))"
  using wakeup_release [OF q neutral_log_flags(1), of LogLock "Some LogChan" P "\<lambda>x. x - 1"] p q o c
  by (simp add: end_op_def run_simps Let_def bind_def split: outcome.splits)

text \<open>The last one commits.\<close>

lemma end_op_last:
  fixes s :: "'a log_scheme"
  assumes q: "quiet s" and o: "log_outstanding s = 1" and c: "\<not> log_committing s"
  shows "end_op P s = bind commit (\<lambda>_. bind (acquire LogLock) (\<lambda>_. bind (modify (\<lambda>s. s\<lparr>log_committing := False\<rparr>)) (\<lambda>_.
    bind (wakeup (Some LogChan)) (\<lambda>_. release LogLock)))) P (s\<lparr>log_outstanding := 0, log_committing := True\<rparr>)"
  using release_quiet [OF q neutral_comp [OF neutral_log_flags(2) neutral_log_flags(1)], of LogLock P True "\<lambda>x. x - 1"] q o c
  by (simp add: end_op_def run_simps Let_def bind_def split: outcome.splits)

text \<open>No transaction is open: the cache agrees with the disk and the log is empty, in memory and on disk.\<close>

definition idle :: "nat \<Rightarrow> nat \<Rightarrow> u32 \<Rightarrow> u32 \<Rightarrow> (u32 \<Rightarrow> u8 list) \<Rightarrow> 'a log_scheme \<Rightarrow> bool" where
  "idle n p d start D s \<longleftrightarrow> (\<exists>V. rep n p d D V (\<lambda>_. 0) s) \<and> log_fields d start [] s \<and> log_outstanding s = 0 \<and> \<not> log_committing s
     \<and> head_n (D start) = 0"

lemma pinned_Nil: "pinned [] = (\<lambda>_. 0)"
  by (simp add: pinned_def fun_eq_iff)

lemma log_fields_cong:
  "log_fields d start hs s \<Longrightarrow> log_n t = log_n s \<Longrightarrow> log_block t = log_block s \<Longrightarrow> log_dev t = log_dev s \<Longrightarrow> log_start t = log_start s \<Longrightarrow>
   log_fields d start hs t"
  by (simp add: log_fields_def)

lemma begin_op_tx:
  fixes s :: "'a log_scheme"
  assumes i: "idle n p d start D s"
  shows "\<exists>V. begin_op P s = Ret () (s\<lparr>log_outstanding := 1\<rparr>) \<and> tx n p d start D V [] (s\<lparr>log_outstanding := 1\<rparr>)
    \<and> (\<forall>k. on_disk n k \<longrightarrow> V k = D k)"
proof -
  obtain V where V: "rep n p d D V (\<lambda>_. 0) s" using i by (auto simp: idle_def)
  have l: "log_fields d start [] s" "log_outstanding s = 0" "\<not> log_committing s" "log_n s = 0" using i by (auto simp: idle_def log_fields_def)
  have q: "quiet s" using V by (auto simp: rep_cached cached_def)
  have "begin_op P s = Ret () (s\<lparr>log_outstanding := 1\<rparr>)"
    using release_quiet [OF q neutral_log_flags(1), of LogLock P "\<lambda>x. x + 1"] q l(2-4)
    by (simp add: begin_op_def run_simps LOGBLOCKS_def MAXOPBLOCKS_def)
  moreover have "tx n p d start D V [] (s\<lparr>log_outstanding := 1\<rparr>)"
    using V l(1) log_fields_cong [of d start "[]" s "s\<lparr>log_outstanding := 1\<rparr>"] by (simp add: tx_def rep_above pinned_Nil homes_def)
  ultimately show ?thesis using rep_used(3) [OF V] by blast
qed

text \<open>What is left to do after the commit.\<close>

lemma after_commit:
  fixes s :: "'a log_scheme"
  assumes V: "rep n p d D V (\<lambda>_. 0) s" and l: "log_fields d start [] s" "log_outstanding s = 0" "head_n (D start) = 0"
  shows "wp (bind (acquire LogLock) (\<lambda>_. bind (modify (\<lambda>s. s\<lparr>log_committing := False\<rparr>)) (\<lambda>_.
    bind (wakeup (Some LogChan)) (\<lambda>_. release LogLock)))) P s (\<lambda>_. idle n p d start D)"
proof -
  let ?t = "woken (c_proc (mycpu s)) (Some LogChan) (s\<lparr>log_committing := False\<rparr>)"
  have q: "quiet s" "c_proc (mycpu s) = Some p" using V by (auto simp: rep_cached cached_def)
  have "bind (wakeup (Some LogChan)) (\<lambda>_. release LogLock) P ((acquired LogLock s)\<lparr>log_committing := False\<rparr>) = Ret () ?t"
    by (rule wakeup_release [OF q(1) neutral_log_flags(2)]) simp
  moreover have "rep n p d D V (\<lambda>_. 0) ?t" using V q(2) by (simp add: rep_woken rep_above)
  moreover have "log_fields d start [] ?t" by (rule log_fields_cong [OF l(1)]) simp_all
  ultimately show ?thesis using q l
    by (simp only: bind_def [of "acquire l" for l] acquire_quiet bind_def [of "modify f" for f] modify_apply outcome.case wp_def)
      (auto simp: idle_def)
qed

lemma commit_idle:
  fixes s :: "'a log_scheme"
  assumes r: "rep n p d D V (pinned hs) s" and h: "homes n start hs" "log_fields d start hs s" and dev: "blk_dev n P" and a: "log_area n start"
    and l: "length hs < NBUF" and D: "head_n (D start) = 0" and o: "log_outstanding s = 0"
  shows "wp commit P s (\<lambda>_ t. \<exists>D' V'. rep n p d D' V' (\<lambda>_. 0) t \<and> log_fields d start [] t \<and> log_outstanding t = 0 \<and> head_n (D' start) = 0
    \<and> (\<forall>k. on_disk n k \<and> \<not> in_log start k \<longrightarrow> D' k = V k))"
proof (cases "hs = []")
  case True
  then have "log_n s = 0" using h(2) by (simp add: log_fields_def)
  moreover have "\<forall>k. on_disk n k \<longrightarrow> D k = V k" using rep_used(3) [OF r] True by (simp add: pinned_def)
  ultimately show ?thesis using True r h(2) D o
    by (simp add: commit_def wp_bind wp_gets wp_ret pinned_Nil) blast
next
  case False
  let ?cb = "commit_blocks start V hs"
  have V: "V k = D k" if "on_disk n k" "k \<notin> set hs" for k using rep_used(3) [OF r] that by (simp add: pinned_def)
  note i = commit_blocks_installed [where V = V and D = D, OF a h(1) log_fields_len [OF h(2)] V]
  show ?thesis
  proof (rule wp_mono [OF commit_io [OF r dev h(2) a h(1) False l]])
    fix t :: "'a log_scheme" assume "let cb = ?cb in rep n p d (upds cb D) (upds cb V) (\<lambda>_. 0) t \<and> io p (s\<lparr>log_n := 0\<rparr>) t (writes cb)"
    then have t: "rep n p d (upds ?cb D) (upds ?cb V) (\<lambda>_. 0) t" "io p (s\<lparr>log_n := 0\<rparr>) t (writes ?cb)" by (simp_all add: Let_def)
    have "log_fields d start [] t" by (rule log_fields_io [OF t(2)]) (use h(2) in \<open>simp add: log_fields_def\<close>)
    moreover have "log_outstanding t = 0" using frame_log(5) [of p "s\<lparr>log_n := 0\<rparr>" t] t(2) o by (simp add: io_def)
    ultimately show "\<exists>D' V'. rep n p d D' V' (\<lambda>_. 0) t \<and> log_fields d start [] t \<and> log_outstanding t = 0 \<and> head_n (D' start) = 0
      \<and> (\<forall>k. on_disk n k \<and> \<not> in_log start k \<longrightarrow> D' k = V k)" using t(1) i by blast
  qed
qed

text \<open>C28: How a transaction ends. If other operations are still in progress, \<open>end_op\<close> only counts down and
  writes nothing. The last \<open>end_op\<close> commits: it returns with every block of the transaction at home on
  disk, an empty log and a cache that agrees with the disk. If, however, the operations together wrote as
  many blocks as the log has room for, which \<open>begin_op\<close> and \<open>log_write\<close> allow, the kernel panics: the log
  pins all \<open>NBUF\<close> buffers of the cache and \<open>commit\<close> finds no buffer for the first block of the log.\<close>

theorem end_op_outcome:
  fixes s :: "'a log_scheme"
  assumes t: "tx n p d start D V hs s" and dev: "blk_dev n P" and a: "log_area n start" and c: "\<not> log_committing s" and D: "head_n (D start) = 0"
  shows "if 1 < log_outstanding s
    then \<exists>t. end_op P s = Ret () t \<and> tx n p d start D V hs t \<and> log_outstanding t = log_outstanding s - 1 \<and> disk_writes t = disk_writes s
    else if length hs < LOGBLOCKS
    then wp end_op P s (\<lambda>_ t. \<exists>D'. idle n p d start D' t \<and> (\<forall>k. on_disk n k \<and> \<not> in_log start k \<longrightarrow> D' k = V k))
    else \<exists>t. end_op P s = Panic ''bget: no buffers'' t"
proof -
  have tx: "rep n p d D V (pinned hs) s" "log_fields d start hs s" "0 < log_outstanding s" "homes n start hs" using t by (auto simp: tx_def)
  have q: "quiet s" "c_proc (mycpu s) = Some p" using tx(1) by (auto simp: rep_cached cached_def)
  show ?thesis
  proof (cases "1 < log_outstanding s")
    case True
    let ?t = "woken (Some p) (Some LogChan) (s\<lparr>log_outstanding := log_outstanding s - 1\<rparr>)"
    have "tx n p d start D V hs ?t"
      using tx True log_fields_cong [OF tx(2), of ?t] by (simp add: tx_def rep_woken rep_above)
    then show ?thesis using end_op_more [OF q True c] True by simp
  next
    case False
    then have o: "log_outstanding s = 1" using tx(3) by simp
    let ?s = "s\<lparr>log_outstanding := 0, log_committing := True\<rparr>"
    have r: "rep n p d D V (pinned hs) ?s" "log_fields d start hs ?s" using tx log_fields_cong [OF tx(2), of ?s] by (simp_all add: rep_above)
    note e = end_op_last [OF q(1) o c]
    show ?thesis
    proof (cases "length hs < LOGBLOCKS")
      case True
      then have "wp end_op P s (\<lambda>_ t. \<exists>D'. idle n p d start D' t \<and> (\<forall>k. on_disk n k \<and> \<not> in_log start k \<longrightarrow> D' k = V k))"
        unfolding wp_def [of end_op] e wp_def [of "bind _ _", symmetric] wp_bind [of commit]
        by (intro wp_mono [OF commit_idle [OF r(1) tx(4) r(2) dev a _ D]]) (auto simp: NBUF_LOG intro: wp_mono [OF after_commit])
      then show ?thesis using True o by simp
    next
      case full: False
      then have "length hs = NBUF" using log_fields_len [OF tx(2)] by (simp add: NBUF_LOG)
      then show ?thesis using commit_no_buffers [OF r(1) tx(4) r(2) _ a, of P] e full o by (simp add: bind_def)
    qed
  qed
qed

subsection \<open>Examples\<close>

text \<open>A transaction of one block, and one that fills the log with the blocks from 40 on.\<close>

definition tx1 :: files where
  "tx1 = tx0\<lparr>log_outstanding := 1, log_committing := False\<rparr>"

definition full0 :: files where
  "full0 = boot0\<lparr>bufs := (\<lambda>b. if b < NBUF
       then (linked b)\<lparr>b_dev := 1, b_blockno := 40 + of_nat b, b_refcnt := 1, b_valid := True, b_data := replicate BSIZE 0\<rparr> else linked b),
     log_start := 2, log_dev := 1, log_n := 30, log_outstanding := 1, log_committing := False, log_block := map (\<lambda>b. 40 + of_nat b) [0..<30]\<rparr>"

lemma tx_tx1: "tx 2000 0 1 2 (\<lambda>_. replicate BSIZE 0) ((\<lambda>_. replicate BSIZE 0)(40 := replicate BSIZE 7)) [40] tx1"
  using rep_tx0 log_fields_cong [OF tx0_select(6), of tx1]
  by (simp add: tx_def tx1_def rep_above homes_def on_disk_unat in_log_def LOGBLOCKS_def MAXOPBLOCKS_def)

lemma full0_select [simp]:
  "disk full0 = (\<lambda>_. replicate 512 0)" "sleeplocks full0 l = \<lparr>lk_locked = 0, lk_name = [], lk_pid = 0\<rparr>" "mycpu full0 = mycpu run0"
  "quiet full0" "disk_ok full0" "log_fields 1 2 (map (\<lambda>b. 40 + of_nat b) [0..<30]) full0" "log_outstanding full0 = 1" "\<not> log_committing full0"
  using disk_ok_boot0 quiet_cong [of full0 boot0]
  by (simp_all add: full0_def mycpu_def disk_ok_def log_fields_def LOGBLOCKS_def MAXOPBLOCKS_def)
    (simp_all add: boot0_def on_defs ext_defs run0_def procs0_def kmem0_def mach0_def mycpu_def)

lemma bcache_inv_full0: "bcache_inv full0"
proof -
  have "lru (bufs full0) = lru linked" by (rule lru_cong) (simp add: full0_def)
  moreover have "ring (bufs full0) xs = ring linked xs" for xs unfolding ring_def by (rule chain_cong) (simp_all add: full0_def)
  ultimately have "lru_ok (bufs full0)" using lru_ok_linked by (simp add: lru_ok_def)
  moreover have "of_nat b \<noteq> (of_nat c :: u32)" if "b < NBUF" "c < NBUF" "b \<noteq> c" for b c
    using that of_nat_inverse [of b "of_nat b :: u32"] of_nat_inverse [of c "of_nat c :: u32"] by (auto simp: NBUF_def MAXOPBLOCKS_def)
  ultimately show ?thesis by (auto simp: bcache_inv_def keys_ok_def full0_def)
qed

lemma rep_full0: "rep 2000 0 1 (\<lambda>_. replicate BSIZE 0) (\<lambda>_. replicate BSIZE 0) (pinned (map (\<lambda>b. 40 + of_nat b) [0..<30])) full0"
proof -
  have u: "unat (of_nat b :: u32) = b" if "b < 30" for b by (rule of_nat_inverse) (use that in simp_all)
  have d: "2 * unat k < 1999" if "unat (k - 40) < 30" for k :: u32
    using unat_add_nat [of 40 "unat (k - 40)"] that by simp
  have k: "k \<in> (\<lambda>b. 40 + of_nat b) ` {0..<30} \<longleftrightarrow> unat (k - 40) < 30" for k :: u32
  proof
    assume "unat (k - 40) < 30"
    then show "k \<in> (\<lambda>b. 40 + of_nat b) ` {0..<30}" by (intro image_eqI [of _ _ "unat (k - 40)"]) simp_all
  qed (auto simp: u)
  show ?thesis unfolding rep_cached cached_def
    by (rule exI [of _ "\<lambda>k. unat (k - 40)"])
      (simp add: bcache_inv_full0 view_ok_def buf_ok_def pinned_def k on_disk_unat disk_block_def,
       auto simp: full0_def BSIZE_def NBUF_def MAXOPBLOCKS_def replicate_add [symmetric] linked_def buf0_def u d)
qed

lemma tx_full0: "tx 2000 0 1 2 (\<lambda>_. replicate BSIZE 0) (\<lambda>_. replicate BSIZE 0) (map (\<lambda>b. 40 + of_nat b) [0..<30]) full0"
proof -
  have u: "unat (40 + of_nat b :: u32) = 40 + b" if "b < 30" for b using unat_add_nat [of 40 b] that by simp
  have "inj_on (\<lambda>b. 40 + of_nat b :: u32) {0..<30}"
  proof (rule inj_onI)
    fix b c assume b: "b \<in> {0..<30}" "c \<in> {0..<30}" "40 + of_nat b = (40 + of_nat c :: u32)"
    from b(3) have "unat (40 + of_nat b :: u32) = unat (40 + of_nat c :: u32)" by (rule arg_cong)
    moreover have "b < 30" "c < 30" using b(1,2) by simp_all
    ultimately show "b = c" by (simp only: u add_left_cancel)
  qed
  then have "homes 2000 2 (map (\<lambda>b. 40 + of_nat b) [0..<30])"
    by (simp only: homes_def distinct_map set_map set_upt distinct_upt)
      (auto simp only: image_iff atLeastLessThan_iff on_disk_unat in_log_def u LOGBLOCKS_def MAXOPBLOCKS_def; simp)
  then show ?thesis using rep_full0 unfolding tx_def by (simp only: full0_select zero_less_one simp_thms)
qed

theorem end_op_outcome_witness:
  "(\<exists>t D'. end_op (plain_dev 2000) tx1 = Ret () t \<and> idle 2000 0 1 2 D' t \<and> D' 40 = replicate BSIZE 7)
    \<and> (\<exists>t. end_op (plain_dev 2000) full0 = Panic ''bget: no buffers'' t)"
proof -
  have c: "log_area 2000 2" "head_n (replicate BSIZE 0) = 0" "\<not> log_committing tx1" "log_outstanding tx1 = 1" "length [40 :: u32] < LOGBLOCKS"
    "\<not> length (map (\<lambda>b. 40 + of_nat b :: u32) [0..<30]) < LOGBLOCKS" "on_disk 2000 40" "\<not> in_log 2 40"
    by (simp_all add: tx1_def log_area_def head_n_def get32_def word32_def BSIZE_def LOGBLOCKS_def MAXOPBLOCKS_def on_disk_unat in_log_def)
  have "wp end_op (plain_dev 2000) tx1 (\<lambda>_ t. \<exists>D'. idle 2000 0 1 2 D' t \<and> (\<forall>k. on_disk 2000 k \<and> \<not> in_log 2 k \<longrightarrow>
      D' k = ((\<lambda>_. replicate BSIZE 0)(40 := replicate BSIZE 7)) k))"
    using end_op_outcome [OF tx_tx1 plain_dev_ok(1) c(1,3,2)] c(4,5) by simp
  then obtain t D' where t: "end_op (plain_dev 2000) tx1 = Ret () t" "idle 2000 0 1 2 D' t" "D' 40 = replicate BSIZE 7"
    using c(7,8) wp_ex by fastforce
  moreover have "\<exists>t. end_op (plain_dev 2000) full0 = Panic ''bget: no buffers'' t"
    using end_op_outcome [OF tx_full0 plain_dev_ok(1) c(1) full0_select(8) c(2)]
    by (simp only: full0_select(7) less_irrefl if_False if_not_P [OF c(6)])
  ultimately show ?thesis by blast
qed

end
