(* ===== verification/Umalloc.thy ===== *)
theory Umalloc
  imports Ulib
begin

text \<open>
  The user memory allocator, \<open>user/umalloc.c\<close>. A header is two words at the start of its block: the address of the next
  free block and the size in units of headers. The heap is the process's memory with the static variable \<open>freep\<close>;
  the address of the static \<open>base\<close> is a parameter. What fresh memory from \<open>sbrk\<close> contains is left open. The loops
  follow pointers in memory and get fuel: \<open>malloc\<close> spins and \<open>free\<close> gives no heap when it runs out.
\<close>

record heap =
  umem :: memory
  freep :: u32

definition sizeof_Header :: u32 where "sizeof_Header = 8"

definition h_ptr :: "heap \<Rightarrow> u32 \<Rightarrow> u32" where "h_ptr h p = load32 (umem h) p"
definition h_size :: "heap \<Rightarrow> u32 \<Rightarrow> u32" where "h_size h p = load32 (umem h) (p + 4)"
definition set_ptr :: "u32 \<Rightarrow> u32 \<Rightarrow> heap \<Rightarrow> heap" where "set_ptr p v h = h\<lparr>umem := store32 (umem h) p v\<rparr>"
definition set_size :: "u32 \<Rightarrow> u32 \<Rightarrow> heap \<Rightarrow> heap" where "set_size p v h = h\<lparr>umem := store32 (umem h) (p + 4) v\<rparr>"

text \<open>Pointer arithmetic on \<^verbatim>\<open>Header *\<close>.\<close>

definition hdr_add :: "u32 \<Rightarrow> u32 \<Rightarrow> u32" where "hdr_add p n = p + sizeof_Header * n"

fun free_scan :: "nat \<Rightarrow> u32 \<Rightarrow> u32 \<Rightarrow> heap \<Rightarrow> u32 option" where
  "free_scan 0 bp p h = None"
| "free_scan (Suc fuel) bp p h =
     (if p < bp \<and> bp < h_ptr h p then Some p
      else if h_ptr h p \<le> p \<and> (p < bp \<or> bp < h_ptr h p) then Some p
      else free_scan fuel bp (h_ptr h p) h)"

definition free_link :: "u32 \<Rightarrow> u32 \<Rightarrow> heap \<Rightarrow> heap" where
  "free_link bp p h =
     (let h = (if hdr_add bp (h_size h bp) = h_ptr h p
               then (let h = set_size bp (h_size h bp + h_size h (h_ptr h p)) h in set_ptr bp (h_ptr h (h_ptr h p)) h)
               else set_ptr bp (h_ptr h p) h);
          h = (if hdr_add p (h_size h p) = bp
               then (let h = set_size p (h_size h p + h_size h bp) h in set_ptr p (h_ptr h bp) h)
               else set_ptr p bp h)
      in h\<lparr>freep := p\<rparr>)"

definition ufree :: "nat \<Rightarrow> u32 \<Rightarrow> heap \<Rightarrow> heap option" where
  "ufree fuel ap h = (let bp = ap - sizeof_Header in map_option (\<lambda>p. free_link bp p h) (free_scan fuel bp (freep h) h))"

definition SBRK_ERROR :: u32 where "SBRK_ERROR = -1"

definition morecore :: "nat \<Rightarrow> u32 \<Rightarrow> heap \<Rightarrow> ('w, u32 \<times> heap) user" where
  "morecore fuel nu h =
     (let nu = (if nu < 4096 then 4096 else nu) in
      ubind (sbrk (sint (nu * sizeof_Header))) (\<lambda>p.
      if p = SBRK_ERROR then val (0, h)
      else
        (case ufree fuel (hdr_add p 1) (set_size p nu h) of
           None \<Rightarrow> u_spin
         | Some h \<Rightarrow> val (freep h, h))))"

text \<open>Taking the block \<open>p\<close> after \<open>prevp\<close>, or its tail.\<close>

definition malloc_take :: "u32 \<Rightarrow> u32 \<Rightarrow> u32 \<Rightarrow> heap \<Rightarrow> u32 \<times> heap" where
  "malloc_take nunits prevp p h =
     (let (p, h) =
        (if h_size h p = nunits then (p, set_ptr prevp (h_ptr h p) h)
         else
           (let h = set_size p (h_size h p - nunits) h; p = hdr_add p (h_size h p) in (p, set_size p nunits h)))
      in (hdr_add p 1, h\<lparr>freep := prevp\<rparr>))"

fun malloc_loop :: "nat \<Rightarrow> u32 \<Rightarrow> u32 \<Rightarrow> u32 \<Rightarrow> heap \<Rightarrow> ('w, u32 \<times> heap) user" where
  "malloc_loop 0 nunits prevp p h = u_spin"
| "malloc_loop (Suc fuel) nunits prevp p h =
     (if nunits \<le> h_size h p then val (malloc_take nunits prevp p h)
      else if p = freep h
      then
        ubind (morecore fuel nunits h) (\<lambda>(p, h).
        if p = 0 then val (0, h) else malloc_loop fuel nunits p (h_ptr h p) h)
      else malloc_loop fuel nunits p (h_ptr h p) h)"

definition units_of :: "u32 \<Rightarrow> u32" where
  "units_of nbytes = (nbytes + sizeof_Header - 1) div sizeof_Header + 1"

definition malloc :: "u32 \<Rightarrow> nat \<Rightarrow> u32 \<Rightarrow> heap \<Rightarrow> ('w, u32 \<times> heap) user" where
  "malloc base fuel nbytes h =
     (let h = (if freep h = 0 then set_size base 0 (set_ptr base base h\<lparr>freep := base\<rparr>) else h) in
      malloc_loop fuel (units_of nbytes) (freep h) (h_ptr h (freep h)) h)"

end
