(* ===== verification/UmallocProps.thy ===== *)
theory UmallocProps
  imports Umalloc
begin

text \<open>
  The user memory allocator keeps its heap in order: the free blocks form a sorted ring in memory without adjacent
  blocks, the blocks handed out are disjoint from it and from each other, and every byte obtained from \<open>sbrk\<close> is in
  exactly one of them.
\<close>

section \<open>Headers in memory\<close>

definition hdr_ok :: "u32 \<Rightarrow> bool" where
  "hdr_ok a \<longleftrightarrow> aligned4 a \<and> unat a + 8 < 4294967296"

definition far :: "u32 \<Rightarrow> u32 \<Rightarrow> bool" where
  "far a b \<longleftrightarrow> hdr_ok a \<and> hdr_ok b \<and> (unat a + 8 \<le> unat b \<or> unat b + 8 \<le> unat a)"

lemma hdr_ok_words: "hdr_ok a \<Longrightarrow> aligned4 a \<and> aligned4 (a + 4) \<and> unat (a + 4) = unat a + 4 \<and> a \<noteq> a + 4"
proof -
  assume a: "hdr_ok a"
  then have u: "unat (a + 4) = unat a + 4" using unat_add_nat [of a 4] by (simp add: hdr_ok_def)
  moreover have "aligned4 (a + 4)" using a u by (simp add: hdr_ok_def unat_aligned4)
  ultimately show ?thesis using a by (simp add: hdr_ok_def)
qed

lemma hdr_same [simp]:
  assumes "hdr_ok a"
  shows "h_ptr (set_ptr a v h) a = v" "h_size (set_ptr a v h) a = h_size h a" "h_ptr (set_size a v h) a = h_ptr h a" "h_size (set_size a v h) a = v"
  using hdr_ok_words [OF assms] by (simp_all add: h_ptr_def h_size_def set_ptr_def set_size_def)

lemma hdr_far:
  assumes "far a b"
  shows "h_ptr (set_ptr a v h) b = h_ptr h b" "h_size (set_ptr a v h) b = h_size h b"
    "h_ptr (set_size a v h) b = h_ptr h b" "h_size (set_size a v h) b = h_size h b"
proof -
  have "hdr_ok a" "hdr_ok b" using assms by (simp_all add: far_def)
  note w = hdr_ok_words [OF this(1)] hdr_ok_words [OF this(2)]
  have "a \<noteq> b" "a \<noteq> b + 4" "a + 4 \<noteq> b" "a + 4 \<noteq> b + 4" using assms w by (auto simp: far_def word_unat_eq_iff)
  then show "h_ptr (set_ptr a v h) b = h_ptr h b" "h_size (set_ptr a v h) b = h_size h b"
    "h_ptr (set_size a v h) b = h_ptr h b" "h_size (set_size a v h) b = h_size h b"
    using w by (simp_all add: h_ptr_def h_size_def set_ptr_def set_size_def)
qed

lemma freep_set [simp]: "freep (set_ptr a v h) = freep h" "freep (set_size a v h) = freep h"
  "h_ptr (h\<lparr>freep := p\<rparr>) a = h_ptr h a" "h_size (h\<lparr>freep := p\<rparr>) a = h_size h a"
  by (simp_all add: set_ptr_def set_size_def h_ptr_def h_size_def)

lemma unat_hdr_add: "unat a + 8 * n < 4294967296 \<Longrightarrow> unat (hdr_add a (of_nat n)) = unat a + 8 * n"
  using unat_add_nat [of a "8 * n"] by (simp add: hdr_add_def sizeof_Header_def)

text \<open>A byte that is not in the header at \<open>a\<close>.\<close>

definition outside :: "u32 \<Rightarrow> u32 \<Rightarrow> bool" where
  "outside a x \<longleftrightarrow> unat x < unat a \<or> unat a + 8 \<le> unat x"

lemma umem_outside:
  assumes "hdr_ok a" "outside a x"
  shows "umem (set_ptr a v h) x = umem h x" "umem (set_size a v h) x = umem h x"
proof -
  have "unat (a + of_nat i) = unat a + i" "unat (a + 4 + of_nat i) = unat a + 4 + i" if "i < 4" for i
    using assms(1) that aligned4_add [of a i] aligned4_add [of "a + 4" i] hdr_ok_words [OF assms(1)] by simp_all
  then have "x \<noteq> a + of_nat i" "x \<noteq> a + 4 + of_nat i" if "i < 4" for i using assms(2) that by (fastforce simp: outside_def)+
  then show "umem (set_ptr a v h) x = umem h x" "umem (set_size a v h) x = umem h x"
    by (simp_all add: set_ptr_def set_size_def store32_other)
qed

section \<open>Blocks and lists of blocks\<close>

type_synonym block = "u32 \<times> nat"

definition rng :: "block \<Rightarrow> nat set" where
  "rng = (\<lambda>(a, n). {unat a ..< unat a + 8 * n})"

definition block_ok :: "nat \<Rightarrow> nat \<Rightarrow> block \<Rightarrow> bool" where
  "block_ok lo brk = (\<lambda>(a, n). aligned4 a \<and> 1 \<le> n \<and> lo \<le> unat a \<and> unat a + 8 * n \<le> brk)"

fun first :: "block list \<Rightarrow> u32 \<Rightarrow> u32" where
  "first [] r = r"
| "first (x # L) r = fst x"

fun seg :: "heap \<Rightarrow> block list \<Rightarrow> u32 \<Rightarrow> bool" where
  "seg h [] r = True"
| "seg h ((a, n) # L) r = (h_size h a = of_nat n \<and> h_ptr h a = first L r \<and> seg h L r)"

lemma first_append: "first (X @ Y) r = first X (first Y r)"
  by (cases X) simp_all

lemma seg_append: "seg h (X @ Y) r \<longleftrightarrow> seg h X (first Y r) \<and> seg h Y r"
  by (induction X) (auto simp: first_append)

lemma seg_cong:
  "seg h L r \<Longrightarrow> \<forall>x \<in> fst ` set L. h_size h' x = h_size h x \<and> h_ptr h' x = h_ptr h x \<Longrightarrow> seg h' L r"
  by (induction L) auto

definition sorted_blocks :: "block list \<Rightarrow> bool" where
  "sorted_blocks = sorted_wrt (\<lambda>(a, n) (a', n'). unat a + 8 * n < unat a')"

text \<open>A block in front of a list, merged with the first block when they touch; and what \<open>free\<close> does for it in memory.\<close>

fun join :: "block \<Rightarrow> block list \<Rightarrow> block list" where
  "join x [] = [x]"
| "join (a, n) ((a', n') # L) = (if unat a + 8 * n = unat a' then (a, n + n') # L else (a, n) # (a', n') # L)"

definition attach :: "u32 \<Rightarrow> u32 \<Rightarrow> heap \<Rightarrow> heap" where
  "attach a q h = (if hdr_add a (h_size h a) = q
     then (let h = set_size a (h_size h a + h_size h q) h in set_ptr a (h_ptr h q) h)
     else set_ptr a q h)"

lemma free_link_attach: "far bp p \<Longrightarrow> free_link bp p h = (attach p bp (attach bp (h_ptr h p) h))\<lparr>freep := p\<rparr>"
  by (simp add: free_link_def attach_def Let_def hdr_far)

lemma first_join [simp]: "first (join (a, n) Z) r = a"
  by (cases Z) auto

lemma attach_far:
  assumes "far a b"
  shows "h_ptr (attach a q h) b = h_ptr h b" "h_size (attach a q h) b = h_size h b"
  using assms by (simp_all add: attach_def Let_def hdr_far)

lemma umem_attach: "hdr_ok a \<Longrightarrow> outside a x \<Longrightarrow> umem (attach a q h) x = umem h x"
  by (simp add: attach_def Let_def umem_outside)

lemma attach_seg:
  assumes seg: "seg h Z r" and a: "h_size h a = of_nat n" "hdr_ok a" "unat a + 8 * n < 4294967296"
    and Z: "\<forall>x \<in> fst ` set Z. far a x" and r: "Z = [] \<Longrightarrow> unat a + 8 * n \<noteq> unat r"
  shows "seg (attach a (first Z r) h) (join (a, n) Z) r"
proof (cases Z)
  case Nil
  then have "hdr_add a (h_size h a) \<noteq> r" using unat_hdr_add [OF a(3)] a(1) r by auto
  then show ?thesis using a Nil by (simp add: attach_def)
next
  case (Cons x Z')
  obtain q k where x: "x = (q, k)" by fastforce
  have e: "hdr_add a (h_size h a) = q \<longleftrightarrow> unat a + 8 * n = unat q" unfolding a(1) word_unat_eq_iff unat_hdr_add [OF a(3)] by simp
  have "seg (attach a q h) Z r" by (rule seg_cong [OF seg]) (use Z attach_far in blast)
  moreover have "far a q" using Z Cons x by simp
  ultimately show ?thesis using seg a e Cons x by (auto simp: attach_def Let_def hdr_far)
qed

text \<open>The blocks of a list after \<open>join\<close>.\<close>

lemma bytes_join: "\<Union> (rng ` set (join (a, n) Z)) = rng (a, n) \<union> \<Union> (rng ` set Z)"
proof (cases Z)
  case (Cons x Z')
  obtain q k where x: "x = (q, k)" by fastforce
  have "rng (a, n + k) = rng (a, n) \<union> rng (q, k)" if "unat a + 8 * n = unat q" using that by (auto simp: rng_def)
  then show ?thesis using Cons x by auto
qed simp

lemma join_block_ok: "block_ok lo brk (a, n) \<Longrightarrow> \<forall>x \<in> set Z. block_ok lo brk x \<Longrightarrow> \<forall>x \<in> set (join (a, n) Z). block_ok lo brk x"
proof (cases Z)
  case (Cons x Z')
  obtain q k where x: "x = (q, k)" by fastforce
  assume "block_ok lo brk (a, n)" "\<forall>x \<in> set Z. block_ok lo brk x"
  moreover from this have "block_ok lo brk (a, n + k)" if "unat a + 8 * n = unat q" using that Cons x by (simp add: block_ok_def)
  ultimately show ?thesis using Cons x by simp
qed simp

lemma sorted_join:
  assumes "sorted_blocks Z" "\<forall>x \<in> set Z. unat a + 8 * n \<le> unat (fst x)" "\<forall>x \<in> set Z. 1 \<le> snd x"
  shows "sorted_blocks (join (a, n) Z)"
proof (cases Z)
  case (Cons x Z')
  obtain q k where x: "x = (q, k)" by fastforce
  have s: "sorted_blocks Z'" "\<forall>y \<in> set Z'. unat q + 8 * k < unat (fst y)" using assms(1) Cons x by (auto simp: sorted_blocks_def case_prod_beta)
  moreover have "1 \<le> k" "unat a + 8 * n \<le> unat q" using assms Cons x by simp_all
  ultimately have "\<forall>y \<in> set Z'. unat a + 8 * n < unat (fst y)" by force
  then show ?thesis using s \<open>unat a + 8 * n \<le> unat q\<close> Cons x by (auto simp: sorted_blocks_def case_prod_beta)
qed (simp add: sorted_blocks_def)

lemma join_fst: "w \<in> set (join (a, n) Z) \<Longrightarrow> fst w = a \<or> w \<in> set Z"
  by (cases Z) (auto split: if_splits)

section \<open>The heap\<close>

text \<open>\<open>T\<close> is the free list after \<open>base\<close>, \<open>A\<close> the blocks handed out; all of them lie above \<open>base\<close> and below \<open>brk\<close>.\<close>

definition bytes_of :: "block set \<Rightarrow> nat set" where
  "bytes_of B = \<Union> (rng ` B)"

definition heap_ok :: "u32 \<Rightarrow> nat \<Rightarrow> block list \<Rightarrow> block set \<Rightarrow> heap \<Rightarrow> bool" where
  "heap_ok b brk T A h \<longleftrightarrow> hdr_ok b \<and> 0 < unat b \<and> unat b + 8 \<le> brk \<and> brk < 4294967296 \<and> seg h ((b, 0) # T) b \<and> sorted_blocks T
     \<and> (\<forall>x \<in> set T \<union> A. block_ok (unat b + 8) brk x) \<and> (\<forall>x \<in> A. \<forall>y \<in> A. x \<noteq> y \<longrightarrow> rng x \<inter> rng y = {})
     \<and> bytes_of (set T) \<inter> bytes_of A = {} \<and> (\<forall>x \<in> A. h_size h (fst x) = of_nat (snd x)) \<and> freep h \<in> insert b (fst ` set T)"

lemma block_ok_hdr: "block_ok lo brk (a, n) \<Longrightarrow> brk < 4294967296 \<Longrightarrow> hdr_ok a \<and> unat a + 8 * n < 4294967296"
  by (auto simp: block_ok_def hdr_ok_def)

lemma rng_disjoint:
  assumes "rng (a, n) \<inter> rng (c, k) = {}" "1 \<le> n" "1 \<le> k"
  shows "unat a + 8 * n \<le> unat c \<or> unat c + 8 * k \<le> unat a"
proof (rule ccontr)
  assume "\<not> ?thesis"
  then have "max (unat a) (unat c) \<in> rng (a, n) \<inter> rng (c, k)" using assms(2,3) by (auto simp: rng_def)
  then show False using assms(1) by blast
qed

lemma far_blocks:
  assumes "block_ok lo brk (a, n)" "block_ok lo brk (c, k)" "brk < 4294967296" "rng (a, n) \<inter> rng (c, k) = {}"
  shows "far a c"
  using rng_disjoint [OF assms(4)] block_ok_hdr [OF assms(1,3)] block_ok_hdr [OF assms(2,3)] assms(1,2) by (auto simp: far_def block_ok_def)

lemma far_base: "hdr_ok b \<Longrightarrow> block_ok (unat b + 8) brk (a, n) \<Longrightarrow> brk < 4294967296 \<Longrightarrow> far a b \<and> far b a"
  using block_ok_hdr [of "unat b + 8" brk a n] by (auto simp: far_def block_ok_def)

text \<open>A block that overlaps no free block splits the free list.\<close>

lemma split_at:
  assumes "sorted_blocks T" "\<forall>x \<in> set T. 1 \<le> snd x" "\<forall>x \<in> set T. rng x \<inter> rng (c, m) = {}" "1 \<le> m"
  obtains Y Z where "T = Y @ Z" "\<forall>x \<in> set Y. unat (fst x) + 8 * snd x \<le> unat c" "\<forall>x \<in> set Z. unat c + 8 * m \<le> unat (fst x)"
proof
  let ?P = "\<lambda>x :: block. unat (fst x) < unat c"
  have d: "unat (fst x) + 8 * snd x \<le> unat c \<or> unat c + 8 * m \<le> unat (fst x)" if "x \<in> set T" for x
    using rng_disjoint [of "fst x" "snd x" c m] assms that by simp
  show "T = takeWhile ?P T @ dropWhile ?P T" by simp
  show "\<forall>x \<in> set (takeWhile ?P T). unat (fst x) + 8 * snd x \<le> unat c"
  proof
    fix x assume "x \<in> set (takeWhile ?P T)"
    from set_takeWhileD [OF this] show "unat (fst x) + 8 * snd x \<le> unat c" using d [of x] by simp
  qed
  have "sorted_wrt (\<lambda>x y. unat (fst x) \<le> unat (fst y)) T"
    using assms(1) unfolding sorted_blocks_def by (rule sorted_wrt_mono_rel [rotated]) auto
  then have drop: "\<not> ?P x" if "x \<in> set (dropWhile ?P T)" for x using that by (induction T) (auto split: if_splits)
  show "\<forall>x \<in> set (dropWhile ?P T). unat c + 8 * m \<le> unat (fst x)"
  proof
    fix x assume x: "x \<in> set (dropWhile ?P T)"
    then have "x \<in> set T" by (rule set_dropWhileD)
    then have "1 \<le> snd x" using assms(2) by blast
    then show "unat c + 8 * m \<le> unat (fst x)" using d [OF \<open>x \<in> set T\<close>] drop [OF x] by linarith
  qed
qed

text \<open>Walking the ring.\<close>

lemma seg_nth:
  "seg h L r \<Longrightarrow> i < length L \<Longrightarrow> h_ptr h (fst (L ! i)) = (if Suc i < length L then fst (L ! Suc i) else r) \<and> h_size h (fst (L ! i)) = of_nat (snd (L ! i))"
proof (induction L arbitrary: i)
  case (Cons x L)
  then show ?case by (cases x; cases i; cases L) auto
qed simp

lemma free_scan_found:
  assumes seg: "seg h L b" and b: "fst (L ! 0) = b" and d: "d < length L"
    and inc: "\<And>i j. i < j \<Longrightarrow> j < length L \<Longrightarrow> fst (L ! i) < fst (L ! j)"
    and lo: "\<And>i. i \<le> d \<Longrightarrow> fst (L ! i) < bp" and hi: "\<And>i. d < i \<Longrightarrow> i < length L \<Longrightarrow> bp < fst (L ! i)"
  shows "i < length L \<Longrightarrow> (if i \<le> d then d - i else length L - i + d) < fuel \<Longrightarrow> free_scan fuel bp (fst (L ! i)) h = Some (fst (L ! d))"
proof (induction fuel arbitrary: i)
  case (Suc fuel)
  note ptr = seg_nth [OF seg Suc.prems(1)]
  consider "i = d" | "i < d" | "d < i" by linarith
  then show ?case
  proof cases
    case 1
    have "b \<le> fst (L ! d)" using inc [of 0 d] b d by (cases d) auto
    then show ?thesis using 1 ptr lo [of d] hi [of "Suc d"] by (auto simp: not_less)
  next
    case 2
    then have "Suc i < length L" "fst (L ! i) < fst (L ! Suc i)" "fst (L ! Suc i) < bp" using d inc [of i "Suc i"] lo [of "Suc i"] by simp_all
    then show ?thesis using ptr 2 Suc.IH [of "Suc i"] Suc.prems by auto
  next
    case 3
    have "bp < fst (L ! i)" by (rule hi [OF 3 Suc.prems(1)])
    moreover have "b < bp" using lo [of 0] b by simp
    moreover have "fst (L ! i) < fst (L ! Suc i)" if "Suc i < length L" using inc [of i "Suc i"] that by simp
    moreover have "free_scan fuel bp b h = Some (fst (L ! d))" if "\<not> Suc i < length L"
    proof -
      have "0 < length L" "d < fuel" using Suc.prems 3 that by auto
      then show ?thesis using Suc.IH [of 0] b by simp
    qed
    ultimately show ?thesis using ptr 3 Suc.IH [of "Suc i"] Suc.prems b by (auto simp: not_less)
  qed
qed simp

lemma sorted_incr:
  assumes "sorted_blocks T" "\<forall>x \<in> set T. block_ok (unat b + 8) brk x" "i < j" "j < length ((b, 0) # T)"
  shows "fst (((b, 0) # T) ! i) < fst (((b, 0) # T) ! j)"
proof -
  have "sorted_wrt (\<lambda>x y. fst x < fst y) T"
    using assms(1) unfolding sorted_blocks_def by (rule sorted_wrt_mono_rel [rotated]) (auto simp: word_less_nat_alt)
  moreover have "\<forall>x \<in> set T. b < fst x" using assms(2) by (auto simp: block_ok_def word_less_nat_alt)
  ultimately have "sorted_wrt (\<lambda>x y. fst x < fst y) ((b, 0) # T)" by simp
  then show ?thesis using assms(3,4) by (rule sorted_wrt_nth_less)
qed

text \<open>\<open>free\<close> finds the block before the one it gets.\<close>

lemma ufree_scan:
  assumes ok: "heap_ok b brk T A h" and T: "T = Y @ Z" "\<forall>x \<in> set Y. fst x < bp" "\<forall>x \<in> set Z. bp < fst x" "b < bp"
    and fuel: "2 * length T + 2 < fuel"
  shows "free_scan fuel bp (freep h) h = Some (fst (last ((b, 0) # Y)))"
proof -
  let ?L = "(b, 0) # T"
  have seg: "seg h ?L b" and s: "sorted_blocks T" "\<forall>x \<in> set T. block_ok (unat b + 8) brk x" using ok by (simp_all add: heap_ok_def)
  have "freep h \<in> fst ` set ?L" using ok by (simp add: heap_ok_def)
  then obtain i where i: "i < length ?L" "freep h = fst (?L ! i)" by (metis (no_types, lifting) imageE in_set_conv_nth)
  have lo: "fst (?L ! j) < bp" if "j \<le> length Y" for j
  proof -
    have "?L ! j \<in> set ((b, 0) # Y)" using that T(1) nth_mem [of j "(b, 0) # Y"] by (simp add: nth_append nth_Cons split: nat.splits)
    then show ?thesis using T(2,4) by auto
  qed
  have hi: "bp < fst (?L ! j)" if "length Y < j" "j < length ?L" for j
  proof -
    have "?L ! j \<in> set Z" using that T(1) by (auto simp: nth_append nth_Cons split: nat.splits)
    then show ?thesis using T(3) by blast
  qed
  have "free_scan fuel bp (fst (?L ! i)) h = Some (fst (?L ! length Y))"
    by (rule free_scan_found [OF seg _ _ sorted_incr [OF s] lo hi]) (use i fuel T(1) in auto)
  moreover have "?L ! length Y = last ((b, 0) # Y)" using T(1) by (simp add: last_conv_nth nth_append nth_Cons split: nat.splits)
  ultimately show ?thesis using i by simp
qed

section \<open>Freeing a block\<close>

lemma far_sym: "far a c \<Longrightarrow> far c a"
  by (auto simp: far_def)

lemma free_link_seg:
  assumes seg: "seg h (X @ (p, n) # Z) r" and m: "h_size h bp = of_nat m" "unat bp + 8 * m < 4294967296" "unat p + 8 * n < 4294967296"
    and bp: "\<forall>x \<in> fst ` set (X @ (p, n) # Z). far bp x" and p: "\<forall>x \<in> fst ` set (X @ Z). far p x" and r: "Z = [] \<Longrightarrow> unat bp + 8 * m \<noteq> unat r"
  shows "seg (free_link bp p h) (X @ join (p, n) (join (bp, m) Z)) r"
proof -
  let ?h1 = "attach bp (first Z r) h" let ?h2 = "attach p bp ?h1"
  have s: "seg h X p" "h_size h p = of_nat n" "h_ptr h p = first Z r" "seg h Z r" using seg by (simp_all add: seg_append)
  have hd: "hdr_ok bp" "hdr_ok p" "far bp p" using bp by (auto simp: far_def)
  have "seg ?h1 (join (bp, m) Z) r" by (rule attach_seg [OF s(4) m(1) hd(1) m(2) _ r]) (use bp in auto)
  moreover have "h_size ?h1 p = of_nat n" using s(2) attach_far(2) [OF hd(3)] by simp
  moreover have "\<forall>x \<in> fst ` set (join (bp, m) Z). far p x" using p far_sym [OF hd(3)] by (auto dest!: join_fst)
  moreover have "join (bp, m) Z \<noteq> []" by (cases Z) (auto split: if_splits)
  ultimately have "seg ?h2 (join (p, n) (join (bp, m) Z)) r" using attach_seg [of ?h1 "join (bp, m) Z" r p n] hd(2) m(3) by simp
  moreover have "seg ?h2 X p" by (rule seg_cong [OF s(1)]) (use bp p attach_far in auto)
  ultimately have "seg ?h2 (X @ join (p, n) (join (bp, m) Z)) r" by (simp add: seg_append)
  then show ?thesis unfolding free_link_attach [OF hd(3)] s(3) by (rule seg_cong) simp
qed

text \<open>The list of free blocks with \<open>(bp, m)\<close> put between \<open>Y\<close> and \<open>Z\<close>, merged with its neighbours.\<close>

definition put :: "block list \<Rightarrow> block \<Rightarrow> block list \<Rightarrow> block list" where
  "put Y x Z = (if Y = [] then join x Z else butlast Y @ join (last Y) (join x Z))"

lemma length_join: "length (join x Z) \<le> Suc (length Z)"
  by (cases x; cases Z) auto

lemma length_put: "length (put Y x Z) \<le> Suc (length (Y @ Z))"
proof (cases Y rule: rev_cases)
  case Nil
  then show ?thesis using length_join [of x Z] by (simp add: put_def)
next
  case (snoc Y' y)
  have "length (join y (join x Z)) \<le> Suc (Suc (length Z))" using length_join [of y "join x Z"] length_join [of x Z] by linarith
  then show ?thesis by (simp add: put_def snoc)
qed

lemma put_blocks:
  assumes "\<forall>y \<in> set (Y @ Z). block_ok lo brk y" "block_ok lo brk x"
  shows "\<forall>y \<in> set (put Y x Z). block_ok lo brk y"
proof -
  have j: "\<forall>y \<in> set (join x Z). block_ok lo brk y" using join_block_ok [of lo brk "fst x" "snd x" Z] assms by simp
  show ?thesis
  proof (cases Y rule: rev_cases)
    case (snoc Y' y)
    then show ?thesis using join_block_ok [of lo brk "fst y" "snd y" "join x Z"] j assms by (auto simp: put_def)
  qed (simp add: put_def j)
qed

lemma bytes_put: "bytes_of (set (put Y x Z)) = bytes_of (set (Y @ Z)) \<union> rng x"
proof -
  have j: "bytes_of (set (join y L)) = rng y \<union> bytes_of (set L)" for y L using bytes_join [of "fst y" "snd y" L] by (simp add: bytes_of_def)
  show ?thesis
  proof (cases Y rule: rev_cases)
    case (snoc Y' y)
    then have "bytes_of (set (put Y x Z)) = bytes_of (set Y') \<union> bytes_of (set (join y (join x Z)))" by (simp add: put_def bytes_of_def)
    then show ?thesis using snoc by (simp add: j) (auto simp: bytes_of_def)
  qed (auto simp: put_def j)
qed

lemma sorted_put:
  assumes s: "sorted_blocks (Y @ Z)" and pos: "\<forall>y \<in> set (Y @ Z). 1 \<le> snd y" "1 \<le> m"
    and Y: "\<forall>x \<in> set Y. unat (fst x) + 8 * snd x \<le> unat c" and Z: "\<forall>x \<in> set Z. unat c + 8 * m \<le> unat (fst x)"
  shows "sorted_blocks (put Y (c, m) Z)"
proof -
  have j: "sorted_blocks (join (c, m) Z)" by (rule sorted_join) (use s pos Z in \<open>auto simp: sorted_blocks_def sorted_wrt_append\<close>)
  have c: "unat c \<le> unat (fst x)" "1 \<le> snd x" if "x \<in> set (join (c, m) Z)" for x
  proof -
    show "unat c \<le> unat (fst x)" using that Z by (auto dest!: join_fst)
    have "\<forall>x \<in> set Z. 1 \<le> snd x" using pos(1) by simp
    then show "1 \<le> snd x" using that pos(2) by (cases Z) (auto split: if_splits)
  qed
  show ?thesis
  proof (cases Y rule: rev_cases)
    case (snoc Y' y)
    obtain p n where y: "y = (p, n)" by fastforce
    have "sorted_blocks (join y (join (c, m) Z))" unfolding y by (rule sorted_join [OF j]) (use Y c snoc y in fastforce)+
    moreover have "sorted_blocks Y'" using s snoc by (simp add: sorted_blocks_def sorted_wrt_append)
    moreover have "unat (fst x) + 8 * snd x < unat (fst z)" if "x \<in> set Y'" "z \<in> set (join y (join (c, m) Z))" for x z
    proof -
      have "unat (fst x) + 8 * snd x < unat p" using s snoc y that(1) by (auto simp: sorted_blocks_def sorted_wrt_append case_prod_beta)
      moreover have "unat p \<le> unat c" using Y snoc y by simp
      moreover have "fst z = p \<or> unat c \<le> unat (fst z)" using that(2) join_fst [of z p n] c y by blast
      ultimately show ?thesis by auto
    qed
    ultimately show ?thesis using snoc by (auto simp: put_def sorted_blocks_def sorted_wrt_append case_prod_beta)
  qed (simp add: put_def j)
qed

lemma join_big: "\<exists>y \<in> set (join (a, n) Z). n \<le> snd y" "z \<in> set Z \<Longrightarrow> \<exists>y \<in> set (join (a, n) Z). snd z \<le> snd y"
  by (cases Z; auto split: if_splits)+

lemma put_big: "\<exists>y \<in> set (put Y (c, m) Z). m \<le> snd y"
proof (cases Y rule: rev_cases)
  case (snoc Y' y)
  obtain z where "z \<in> set (join (c, m) Z)" "m \<le> snd z" using join_big(1) by blast
  moreover from join_big(2) [OF this(1), of "fst y" "snd y"] obtain v where "v \<in> set (join y (join (c, m) Z))" "snd z \<le> snd v" by auto
  ultimately show ?thesis using snoc by (auto simp: put_def intro: order_trans)
qed (use join_big(1) in \<open>simp add: put_def\<close>)

lemma put_ring:
  assumes "unat b < unat c" "(b, 0) # Y = X @ [(p, n)]"
  shows "(b, 0) # put Y (c, m) Z = X @ join (p, n) (join (c, m) Z)"
proof (cases Y rule: rev_cases)
  case Nil
  then have "X = []" "p = b" "n = 0" using assms(2) by (simp_all add: Cons_eq_append_conv)
  then show ?thesis using assms(1) Nil by (cases Z) (auto simp: put_def)
next
  case (snoc Y' y)
  then have "X = (b, 0) # Y'" "y = (p, n)" using assms(2) by (simp_all add: Cons_eq_append_conv)
  then show ?thesis using snoc by (simp add: put_def)
qed

lemma bytes_disjointD: "bytes_of B \<inter> R = {} \<Longrightarrow> x \<in> B \<Longrightarrow> rng x \<inter> R = {}"
  by (auto simp: bytes_of_def)

lemma sorted_far:
  assumes "sorted_blocks L" "\<forall>x \<in> set L. block_ok lo brk x" "brk < 4294967296" "L = X @ (p, n) # Z" "x \<in> fst ` set (X @ Z)"
  shows "far p x"
proof -
  obtain k where k: "(x, k) \<in> set (X @ Z)" using assms(5) by (metis imageE prod.collapse)
  have "unat x + 8 * k < unat p \<or> unat p + 8 * n < unat x" using assms(1,4) k by (auto simp: sorted_blocks_def sorted_wrt_append)
  moreover have "block_ok lo brk (x, k)" "block_ok lo brk (p, n)" using assms(2,4) k by auto
  ultimately show ?thesis using block_ok_hdr [of lo brk x k] block_ok_hdr [of lo brk p n] assms(3) by (auto simp: far_def block_ok_def)
qed

text \<open>The block before \<open>bp\<close>, seen from the ring.\<close>

lemma free_pred:
  assumes ok: "heap_ok b brk T A h" and T: "T = Y @ Z" and X: "(b, 0) # Y = X @ [(p, n)]"
  shows "seg h (X @ (p, n) # Z) b" "unat p + 8 * n < 4294967296" "hdr_ok p" "\<forall>x \<in> fst ` set (X @ Z). far p x" "p = b \<or> (p, n) \<in> set T"
proof -
  have L: "(b, 0) # T = X @ (p, n) # Z" using T X by (simp add: Cons_eq_append_conv)
  have h: "hdr_ok b" "brk < 4294967296" "sorted_blocks T" "\<forall>x \<in> set T. block_ok (unat b + 8) brk x" using ok by (simp_all add: heap_ok_def)
  show "seg h (X @ (p, n) # Z) b" using ok L by (simp add: heap_ok_def)
  show c: "p = b \<or> (p, n) \<in> set T" using L by (cases X) auto
  show "unat p + 8 * n < 4294967296" "hdr_ok p"
    using L h block_ok_hdr [of "unat b + 8" brk p n] by (cases X; force simp: hdr_ok_def)+
  show "\<forall>x \<in> fst ` set (X @ Z). far p x"
  proof (cases X)
    case Nil
    then show ?thesis using L h far_base [OF h(1)] by force
  next
    case (Cons y X')
    then have T': "T = X' @ (p, n) # Z" "y = (b, 0)" using L by simp_all
    moreover have "far p b" using far_base [OF h(1), of brk p n] h T' by auto
    ultimately show ?thesis using sorted_far [OF h(3,4,2) T'(1)] Cons by auto
  qed
qed

lemma ufree_link:
  assumes ok: "heap_ok b brk T A h" and bp: "block_ok (unat b + 8) brk (bp, m)" "h_size h bp = of_nat m"
    and apart: "rng (bp, m) \<inter> bytes_of (set T) = {}" and fuel: "2 * length T + 2 < fuel"
  shows "\<exists>p T'. ufree fuel (bp + 8) h = Some (free_link bp p h) \<and> seg (free_link bp p h) ((b, 0) # T') b \<and> sorted_blocks T'
    \<and> (\<forall>x \<in> set T'. block_ok (unat b + 8) brk x) \<and> bytes_of (set T') = bytes_of (set T) \<union> rng (bp, m) \<and> length T' \<le> Suc (length T)
    \<and> p \<in> insert b (fst ` set T') \<and> far bp p \<and> (p = b \<or> (\<exists>n. (p, n) \<in> set T)) \<and> (\<exists>y \<in> set T'. m \<le> snd y)"
proof -
  have h: "hdr_ok b" "brk < 4294967296" "sorted_blocks T" "\<forall>x \<in> set T \<union> A. block_ok (unat b + 8) brk x" "bytes_of (set T) \<inter> bytes_of A = {}"
    using ok by (simp_all add: heap_ok_def)
  have m: "1 \<le> m" "unat b < unat bp" "unat b + 8 \<le> unat bp" using bp(1) by (auto simp: block_ok_def)
  have sz: "\<forall>x \<in> set T. 1 \<le> snd x" using h(4) by (auto simp: block_ok_def)
  have "\<forall>x \<in> set T. rng x \<inter> rng (bp, m) = {}" using apart by (auto simp: bytes_of_def)
  from split_at [OF h(3) sz this m(1)] obtain Y Z where YZ: "T = Y @ Z" "\<forall>x \<in> set Y. unat (fst x) + 8 * snd x \<le> unat bp"
    "\<forall>x \<in> set Z. unat bp + 8 * m \<le> unat (fst x)" by blast
  obtain X p n where X: "(b, 0) # Y = X @ [(p, n)]" by (cases "(b, 0) # Y" rule: rev_cases) auto
  note pred = free_pred [OF ok YZ(1) X]
  have Y: "\<forall>x \<in> set Y. fst x < bp"
  proof
    fix x assume "x \<in> set Y"
    then have "1 \<le> snd x" "unat (fst x) + 8 * snd x \<le> unat bp" using YZ(1,2) sz by simp_all
    then show "fst x < bp" by (simp add: word_less_nat_alt)
  qed
  have Z: "\<forall>x \<in> set Z. bp < fst x" using YZ(3) m(1) by (fastforce simp: word_less_nat_alt)
  have scan: "free_scan fuel bp (freep h) h = Some p"
    using ufree_scan [OF ok YZ(1) Y Z _ fuel] m(2) X by (simp add: word_less_nat_alt del: last.simps)
  let ?h = "free_link bp p h" let ?T = "put Y (bp, m) Z"
  have far: "far bp (fst x)" if "x \<in> insert (b, 0) (set T)" for x
    using that far_base [OF h(1) bp(1) h(2)] far_blocks [OF bp(1) _ h(2), of "fst x" "snd x"] h(4) apart by (fastforce simp: bytes_of_def)
  have L: "set (X @ (p, n) # Z) = insert (b, 0) (set T)" using X YZ(1) by (metis append.assoc append_Cons append_Nil list.simps(15) set_append)
  have fb: "\<forall>x \<in> fst ` set (X @ (p, n) # Z). far bp x" unfolding L using far by blast
  have "seg ?h (X @ join (p, n) (join (bp, m) Z)) b"
    using free_link_seg [OF pred(1) bp(2) _ pred(2) fb pred(4)] block_ok_hdr [OF bp(1) h(2)] m by simp
  then have seg: "seg ?h ((b, 0) # ?T) b" using put_ring [OF m(2) X] by metis
  have "p \<in> insert b (fst ` set ?T)"
  proof -
    have "join (p, n) W \<noteq> []" for W :: "block list" by (cases W) (auto split: if_splits)
    then have "p \<in> fst ` set (join (p, n) (join (bp, m) Z))" using first_join [of p n "join (bp, m) Z"] by (cases "join (p, n) (join (bp, m) Z)") auto
    then have "p \<in> fst ` set ((b, 0) # ?T)" unfolding put_ring [OF m(2) X] by auto
    then show ?thesis by simp
  qed
  moreover have "sorted_blocks ?T" by (rule sorted_put) (use h(3) sz YZ m(1) in auto)
  moreover have "\<forall>x \<in> set ?T. block_ok (unat b + 8) brk x" by (rule put_blocks) (use h(4) YZ(1) bp(1) in auto)
  moreover have "bytes_of (set ?T) = bytes_of (set T) \<union> rng (bp, m)" using bytes_put YZ(1) by simp
  moreover have "length ?T \<le> Suc (length T)" using length_put YZ(1) by simp
  moreover have "ufree fuel (bp + 8) h = Some ?h" using scan by (simp add: ufree_def sizeof_Header_def)
  moreover have "far bp p" using fb by simp
  ultimately show ?thesis using seg pred(5) put_big [of Y bp m Z] by blast
qed

lemma freep_free_link [simp]: "freep (free_link bp p h) = p"
  by (simp add: free_link_def Let_def)

lemma free_link_frame:
  assumes "far bp p"
  shows "far bp a \<Longrightarrow> far p a \<Longrightarrow> h_size (free_link bp p h) a = h_size h a"
    "outside bp x \<Longrightarrow> outside p x \<Longrightarrow> umem (free_link bp p h) x = umem h x"
  using assms by (simp_all add: free_link_attach attach_far umem_attach far_def)

lemma outside_block: "block_ok lo brk (a, n) \<Longrightarrow> unat x \<notin> rng (a, n) \<Longrightarrow> outside a x"
  by (auto simp: block_ok_def rng_def outside_def)

text \<open>The free blocks and \<open>base\<close> are apart from the blocks handed out.\<close>

lemma heap_far:
  assumes "heap_ok b brk T A h" "q = b \<or> (\<exists>j. (q, j) \<in> set T)" "(a, n) \<in> A"
  shows "far q a"
proof -
  have h: "hdr_ok b" "brk < 4294967296" "\<forall>x \<in> set T \<union> A. block_ok (unat b + 8) brk x" "bytes_of (set T) \<inter> bytes_of A = {}"
    using assms(1) by (simp_all add: heap_ok_def)
  have k: "block_ok (unat b + 8) brk (a, n)" using h(3) assms(3) by blast
  have "rng (q, j) \<inter> rng (a, n) = {}" if "(q, j) \<in> set T" for j using h(4) that assms(3) by (auto simp: bytes_of_def)
  then show ?thesis using assms(2) far_blocks [OF _ k h(2)] far_base [OF h(1) k h(2)] h(3) by blast
qed

lemma heap_outside:
  assumes "heap_ok b brk T A h" "q = b \<or> (\<exists>j. (q, j) \<in> set T)" "unat x \<in> bytes_of A"
  shows "outside q x"
proof -
  have h: "\<forall>x \<in> set T \<union> A. block_ok (unat b + 8) brk x" "bytes_of (set T) \<inter> bytes_of A = {}" using assms(1) by (simp_all add: heap_ok_def)
  obtain a n where "(a, n) \<in> A" "unat x \<in> rng (a, n)" using assms(3) by (auto simp: bytes_of_def)
  moreover from this have "block_ok (unat b + 8) brk (a, n)" using h(1) by blast
  ultimately have "outside b x" by (auto simp: rng_def block_ok_def outside_def)
  moreover have "outside q x" if "(q, j) \<in> set T" for j
    using outside_block [of "unat b + 8" brk q j x] h assms(3) that by (fastforce simp: bytes_of_def)
  ultimately show ?thesis using assms(2) by blast
qed

lemma ufree_ok:
  assumes ok: "heap_ok b brk T A h" and bp: "block_ok (unat b + 8) brk (bp, m)" "h_size h bp = of_nat m"
    and apart: "rng (bp, m) \<inter> bytes_of (set T) = {}" "rng (bp, m) \<inter> bytes_of A = {}" and fuel: "2 * length T + 2 < fuel"
  shows "\<exists>h' T'. ufree fuel (bp + 8) h = Some h' \<and> heap_ok b brk T' A h' \<and> bytes_of (set T') = bytes_of (set T) \<union> rng (bp, m)
    \<and> length T' \<le> Suc (length T) \<and> (\<exists>y \<in> set T'. m \<le> snd y) \<and> (\<forall>x. unat x \<in> bytes_of A \<longrightarrow> umem h' x = umem h x)"
proof -
  obtain p T' where p: "ufree fuel (bp + 8) h = Some (free_link bp p h)" "seg (free_link bp p h) ((b, 0) # T') b" "sorted_blocks T'"
    "\<forall>x \<in> set T'. block_ok (unat b + 8) brk x" "bytes_of (set T') = bytes_of (set T) \<union> rng (bp, m)" "length T' \<le> Suc (length T)"
    "p \<in> insert b (fst ` set T')" "far bp p" "p = b \<or> (\<exists>n. (p, n) \<in> set T)" "\<exists>y \<in> set T'. m \<le> snd y" using ufree_link [OF ok bp apart(1) fuel] by blast
  have h: "hdr_ok b" "brk < 4294967296" "\<forall>x \<in> set T \<union> A. block_ok (unat b + 8) brk x" "bytes_of (set T) \<inter> bytes_of A = {}" using ok by (simp_all add: heap_ok_def)
  have A: "far bp a \<and> far p a" if a: "(a, n) \<in> A" for a n
  proof -
    have "rng (bp, m) \<inter> rng (a, n) = {}" using apart(2) a by (auto simp: bytes_of_def)
    then show ?thesis using far_blocks [OF bp(1) _ h(2)] heap_far [OF ok p(9) a] h(3) a by blast
  qed
  have out: "outside bp x \<and> outside p x" if x: "unat x \<in> bytes_of A" for x
    using outside_block [OF bp(1)] heap_outside [OF ok p(9) x] apart(2) x by blast
  have "\<forall>x \<in> A. h_size (free_link bp p h) (fst x) = of_nat (snd x)" using ok A free_link_frame(1) [OF p(8)] by (auto simp: heap_ok_def)
  then have "heap_ok b brk T' A (free_link bp p h)" using ok p apart(2) h(4) unfolding heap_ok_def by auto
  then show ?thesis using p(1,5,6,10) out free_link_frame(2) [OF p(8)] by blast
qed

section \<open>Taking a block\<close>

text \<open>A free block is apart from everything else in the heap.\<close>

lemma free_block_apart:
  assumes ok: "heap_ok b brk T A h" and T: "T = Y @ (p, n) # Z"
  shows "block_ok (unat b + 8) brk (p, n)" "rng (p, n) \<inter> bytes_of (set (Y @ Z)) = {}" "rng (p, n) \<inter> bytes_of A = {}"
    "sorted_blocks (Y @ Z)" "bytes_of (set T) = bytes_of (set (Y @ Z)) \<union> rng (p, n)" "h_size h p = of_nat n"
proof -
  have h: "sorted_blocks T" "\<forall>x \<in> set T. block_ok (unat b + 8) brk x" "bytes_of (set T) \<inter> bytes_of A = {}" "seg h T b" using ok by (simp_all add: heap_ok_def)
  show "block_ok (unat b + 8) brk (p, n)" using h(2) T by simp
  have "rng (p, n) \<inter> rng x = {}" if "x \<in> set (Y @ Z)" for x
  proof -
    have "unat (fst x) + 8 * snd x < unat p \<or> unat p + 8 * n < unat (fst x)"
      using h(1) T that by (auto simp: sorted_blocks_def sorted_wrt_append case_prod_beta)
    then show ?thesis by (auto simp: rng_def case_prod_beta)
  qed
  then show "rng (p, n) \<inter> bytes_of (set (Y @ Z)) = {}" unfolding bytes_of_def by blast
  show "rng (p, n) \<inter> bytes_of A = {}" using h(3) T by (auto simp: bytes_of_def)
  show "sorted_blocks (Y @ Z)" using h(1) T by (auto simp: sorted_blocks_def sorted_wrt_append)
  show "bytes_of (set T) = bytes_of (set (Y @ Z)) \<union> rng (p, n)" using T by (auto simp: bytes_of_def)
  show "h_size h p = of_nat n" using h(4) T by (simp add: seg_append)
qed

text \<open>The heap after the block \<open>x\<close> has gone from the free bytes to the blocks handed out.\<close>

lemma heap_okI:
  assumes ok: "heap_ok b brk T A h" and seg: "seg h' ((b, 0) # T') b" "sorted_blocks T'" "\<forall>x \<in> set T'. block_ok (unat b + 8) brk x"
    and x: "block_ok (unat b + 8) brk x" "rng x \<inter> bytes_of (set T') = {}" "bytes_of (set T) = bytes_of (set T') \<union> rng x"
    and h': "h_size h' (fst x) = of_nat (snd x)" "\<forall>y \<in> A. h_size h' (fst y) = h_size h (fst y)" "freep h' \<in> insert b (fst ` set T')"
  shows "heap_ok b brk T' (insert x A) h'"
proof -
  have o: "bytes_of (set T) \<inter> bytes_of A = {}" "\<forall>y \<in> A. \<forall>z \<in> A. y \<noteq> z \<longrightarrow> rng y \<inter> rng z = {}" using ok by (simp_all add: heap_ok_def)
  have "rng x \<inter> rng y = {}" if "y \<in> A" for y using o(1) x(3) that by (auto simp: bytes_of_def)
  then have "\<forall>y \<in> insert x A. \<forall>z \<in> insert x A. y \<noteq> z \<longrightarrow> rng y \<inter> rng z = {}" using o(2) by (metis Int_commute insertE)
  moreover have "bytes_of (set T') \<inter> bytes_of (insert x A) = {}" using o(1) x(2,3) by (auto simp: bytes_of_def)
  ultimately show ?thesis using ok seg x(1) h' unfolding heap_ok_def by auto
qed

lemma take_exact:
  assumes ok: "heap_ok b brk T A h" and T: "T = Y @ (p, n) # Z" and X: "(b, 0) # Y = X @ [(q, k)]" and h': "h' = (set_ptr q (h_ptr h p) h)\<lparr>freep := q\<rparr>"
  shows "heap_ok b brk (Y @ Z) (insert (p, n) A) h'" "unat x \<in> bytes_of A \<Longrightarrow> umem h' x = umem h x"
proof -
  note pred = free_pred [OF ok T X] and part = free_block_apart [OF ok T]
  have q: "q = b \<or> (\<exists>j. (q, j) \<in> set T)" "hdr_ok q" using pred by auto
  have s: "seg h X q" "h_size h q = of_nat k" "seg h Z b" "h_ptr h p = first Z b" using pred(1) by (simp_all add: seg_append)
  have fq: "far q y" if "y \<in> fst ` set (X @ (p, n) # Z)" for y using pred(4) that by blast
  have "seg h' X q" by (rule seg_cong [OF s(1)]) (use fq in \<open>auto simp: h' hdr_far\<close>)
  moreover have "seg h' Z b" by (rule seg_cong [OF s(3)]) (use fq in \<open>auto simp: h' hdr_far\<close>)
  moreover have "h_size h' q = of_nat k" "h_ptr h' q = first Z b" using q(2) s by (simp_all add: h')
  ultimately have "seg h' (X @ (q, k) # Z) b" by (simp add: seg_append)
  moreover have L: "(b, 0) # Y @ Z = X @ (q, k) # Z" using X by (metis append.assoc append_Cons append_Nil)
  ultimately have seg: "seg h' ((b, 0) # Y @ Z) b" by metis
  have "q \<in> fst ` set ((b, 0) # Y @ Z)" unfolding L by simp
  then have fp: "freep h' \<in> insert b (fst ` set (Y @ Z))" by (simp add: h')
  have sz: "h_size h' p = of_nat n" "\<forall>y \<in> A. h_size h' (fst y) = h_size h (fst y)"
    using part(6) fq [of p] heap_far [OF ok q(1)] by (auto simp: h' hdr_far)
  show "heap_ok b brk (Y @ Z) (insert (p, n) A) h'"
    by (rule heap_okI [OF ok seg part(4) _ part(1,2,5) _ sz(2) fp]) (use ok T sz(1) in \<open>auto simp: heap_ok_def\<close>)
  show "unat x \<in> bytes_of A \<Longrightarrow> umem h' x = umem h x"
    using heap_outside [OF ok q(1)] umem_outside [OF q(2)] by (simp add: h')
qed

lemma take_split:
  assumes ok: "heap_ok b brk T A h" and T: "T = Y @ (p, n) # Z" and N: "1 \<le> N" "N < n" and q: "q \<in> insert b (fst ` set Y)"
    and a: "a = hdr_add p (of_nat (n - N))" and h': "h' = (set_size a (of_nat N) (set_size p (of_nat (n - N)) h))\<lparr>freep := q\<rparr>"
  shows "heap_ok b brk (Y @ (p, n - N) # Z) (insert (a, N) A) h'" "unat x \<in> bytes_of A \<Longrightarrow> umem h' x = umem h x"
    "bytes_of (set T) = bytes_of (set (Y @ (p, n - N) # Z)) \<union> rng (a, N)"
proof -
  note part = free_block_apart [OF ok T]
  have h: "hdr_ok b" "brk < 4294967296" "\<forall>x \<in> set T \<union> A. block_ok (unat b + 8) brk x" "seg h ((b, 0) # T) b" using ok by (simp_all add: heap_ok_def)
  have p: "hdr_ok p" "unat p + 8 * n < 4294967296" using block_ok_hdr [OF part(1) h(2)] by simp_all
  have ua: "unat a = unat p + 8 * (n - N)" unfolding a by (rule unat_hdr_add) (use p(2) in auto)
  have "aligned4 a" using p(1) by (simp add: hdr_ok_def unat_aligned4 ua mod_add_right_eq [symmetric])
  then have blk: "block_ok (unat b + 8) brk (a, N)" "block_ok (unat b + 8) brk (p, n - N)" using part(1) N ua by (auto simp: block_ok_def)
  have r: "rng (p, n) = rng (p, n - N) \<union> rng (a, N)" "rng (p, n - N) \<inter> rng (a, N) = {}" using N ua by (auto simp: rng_def)
  have pa: "far p a" by (rule far_blocks [OF blk(2,1) h(2) r(2)])
  have f: "far p (fst y) \<and> far a (fst y)" if "y \<in> set (Y @ Z) \<union> A" for y
  proof -
    have "rng (p, n) \<inter> rng y = {}" using part(2,3) that by (auto simp: bytes_of_def)
    then show ?thesis using far_blocks [OF _ _ h(2), of "unat b + 8" _ _ "fst y" "snd y"] blk part(1) h(3) T that r(1) by (auto simp: Int_Un_distrib2)
  qed
  have fb: "far p b \<and> far a b" using far_base [OF h(1) _ h(2)] blk by blast
  have same: "h_size h' (fst y) = h_size h (fst y) \<and> h_ptr h' (fst y) = h_ptr h (fst y)" if "y \<in> insert (b, 0) (set (Y @ Z) \<union> A)" for y
  proof -
    have "far p (fst y)" "far a (fst y)" using that f [of y] fb by auto
    then show ?thesis by (simp add: h' hdr_far)
  qed
  have "h_size h' p = of_nat (n - N)" "h_ptr h' p = h_ptr h p" using p(1) far_sym [OF pa] by (simp_all add: h' hdr_far)
  moreover have "seg h' Y p" "seg h' Z b" "h_size h' b = 0" "h_ptr h' b = first Y p"
    using h(4) same seg_cong [of h Y p h'] seg_cong [of h Z b h'] same [of "(b, 0)"] T by (auto simp: seg_append first_append)
  ultimately have seg: "seg h' ((b, 0) # Y @ (p, n - N) # Z) b" using h(4) T by (simp add: seg_append first_append)
  have srt: "sorted_blocks (Y @ (p, n - N) # Z)" using ok T by (force simp: heap_ok_def sorted_blocks_def sorted_wrt_append)
  show cover: "bytes_of (set T) = bytes_of (set (Y @ (p, n - N) # Z)) \<union> rng (a, N)" using part(5) r(1) by (auto simp: bytes_of_def)
  have ap: "rng (a, N) \<inter> bytes_of (set (Y @ (p, n - N) # Z)) = {}" using part(2) r by (auto simp: bytes_of_def)
  show "heap_ok b brk (Y @ (p, n - N) # Z) (insert (a, N) A) h'"
    by (rule heap_okI [OF ok seg srt _ blk(1) ap cover]) (use h(3) T blk(2) q same pa in \<open>auto simp: h' hdr_same far_def\<close>)
  show "unat x \<in> bytes_of A \<Longrightarrow> umem h' x = umem h x"
    using outside_block [OF blk(1)] outside_block [OF blk(2)] part(3) r(1) p(1) pa umem_outside by (fastforce simp: h' far_def)
qed

lemma unat_of_small: "n < 4294967296 \<Longrightarrow> unat (of_nat n :: u32) = n"
  by (simp add: unat_of_nat take_bit_nat_eq_self)

lemma of_nat_small:
  assumes "n < 4294967296" "k < 4294967296"
  shows "(of_nat n :: u32) \<le> of_nat k \<longleftrightarrow> n \<le> k" "(of_nat n :: u32) = of_nat k \<longleftrightarrow> n = k"
  using assms by (simp_all add: word_le_nat_alt word_unat_eq_iff unat_of_small)

lemma malloc_take_ok:
  assumes ok: "heap_ok b brk T A h" and T: "T = Y @ (p, n) # Z" and N: "1 \<le> N" "N \<le> n"
  shows "\<exists>a T' h'. malloc_take (of_nat N) (fst (last ((b, 0) # Y))) p h = (a + 8, h') \<and> heap_ok b brk T' (insert (a, N) A) h'
    \<and> bytes_of (set T) = bytes_of (set T') \<union> rng (a, N) \<and> (\<forall>x. unat x \<in> bytes_of A \<longrightarrow> umem h' x = umem h x)"
proof -
  obtain X q k where X: "(b, 0) # Y = X @ [(q, k)]" by (cases "(b, 0) # Y" rule: rev_cases) auto
  then have q: "fst (last ((b, 0) # Y)) = q" by simp
  have "q \<in> fst ` set ((b, 0) # Y)" unfolding X by simp
  then have qY: "q \<in> insert b (fst ` set Y)" by simp
  note part = free_block_apart [OF ok T]
  have "brk < 4294967296" using ok by (simp add: heap_ok_def)
  then have p: "hdr_ok p" "unat p + 8 * n < 4294967296" using block_ok_hdr [OF part(1)] by simp_all
  have eq: "h_size h p = of_nat N \<longleftrightarrow> n = N" using part(6) of_nat_small(2) [of n N] p(2) N by simp
  show ?thesis unfolding q
  proof (cases "n = N")
    case True
    then have t: "malloc_take (of_nat N) q p h = (p + 8, (set_ptr q (h_ptr h p) h)\<lparr>freep := q\<rparr>)"
      using part(6) by (simp add: malloc_take_def Let_def hdr_add_def sizeof_Header_def)
    from take_exact [OF ok T X refl] part(5) show "\<exists>a T' h'. malloc_take (of_nat N) q p h = (a + 8, h') \<and> heap_ok b brk T' (insert (a, N) A) h'
      \<and> bytes_of (set T) = bytes_of (set T') \<union> rng (a, N) \<and> (\<forall>x. unat x \<in> bytes_of A \<longrightarrow> umem h' x = umem h x)"
      unfolding t True by blast
  next
    case False
    let ?a = "hdr_add p (of_nat (n - N))"
    have "of_nat n - of_nat N = (of_nat (n - N) :: u32)" using N by simp
    then have t: "malloc_take (of_nat N) q p h = (?a + 8, (set_size ?a (of_nat N) (set_size p (of_nat (n - N)) h))\<lparr>freep := q\<rparr>)"
      using eq False part(6) p(1) by (simp add: malloc_take_def Let_def hdr_add_def [of _ 1] sizeof_Header_def)
    have "N < n" using N False by simp
    from take_split [OF ok T N(1) this qY refl refl] show "\<exists>a T' h'. malloc_take (of_nat N) q p h = (a + 8, h') \<and> heap_ok b brk T' (insert (a, N) A) h'
      \<and> bytes_of (set T) = bytes_of (set T') \<union> rng (a, N) \<and> (\<forall>x. unat x \<in> bytes_of A \<longrightarrow> umem h' x = umem h x)"
      unfolding t by blast
  qed
qed

section \<open>Searching the ring\<close>

definition cyc :: "block list \<Rightarrow> nat \<Rightarrow> block" where
  "cyc L i = L ! (i mod length L)"

lemma cyc_ptr:
  assumes "seg h L b" "L \<noteq> []" "fst (L ! 0) = b"
  shows "h_ptr h (fst (cyc L i)) = fst (cyc L (Suc i))" "h_size h (fst (cyc L i)) = of_nat (snd (cyc L i))"
proof -
  have "i mod length L < length L" using assms(2) by simp
  then show "h_ptr h (fst (cyc L i)) = fst (cyc L (Suc i))" "h_size h (fst (cyc L i)) = of_nat (snd (cyc L i))"
    using seg_nth [OF assms(1), of "i mod length L"] assms(3) by (auto simp: cyc_def mod_Suc)
qed

lemma malloc_advance:
  assumes "seg h L b" "L \<noteq> []" "fst (L ! 0) = b"
  shows "\<forall>u < t. \<not> N \<le> h_size h (fst (cyc L (Suc (i + u)))) \<and> fst (cyc L (Suc (i + u))) \<noteq> freep h \<Longrightarrow>
    malloc_loop (t + f) N (fst (cyc L i)) (fst (cyc L (Suc i))) h = malloc_loop f N (fst (cyc L (i + t))) (fst (cyc L (Suc (i + t)))) h"
proof (induction t arbitrary: i)
  case (Suc t)
  have "\<forall>u < t. \<not> N \<le> h_size h (fst (cyc L (Suc (Suc i + u)))) \<and> fst (cyc L (Suc (Suc i + u))) \<noteq> freep h"
    using Suc.prems by (metis add_Suc_shift Suc_less_eq)
  moreover have "\<not> N \<le> h_size h (fst (cyc L (Suc i))) \<and> fst (cyc L (Suc i)) \<noteq> freep h" using Suc.prems by force
  ultimately show ?case using Suc.IH [of "Suc i"] cyc_ptr [OF assms] by simp
qed simp

lemma cyc_inj:
  assumes "distinct (map fst L)" "L \<noteq> []" "fst (cyc L i) = fst (cyc L j)"
  shows "i mod length L = j mod length L"
proof -
  have "map fst L ! (i mod length L) = map fst L ! (j mod length L)" using assms(2,3) by (simp add: cyc_def)
  then show ?thesis using nth_eq_iff_index_eq [OF assms(1)] assms(2) by simp
qed

lemma ring_distinct:
  assumes "heap_ok b brk T A h"
  shows "distinct (map fst ((b, 0) # T))"
proof -
  have "sorted_blocks T" "\<forall>x \<in> set T. block_ok (unat b + 8) brk x" using assms by (simp_all add: heap_ok_def)
  note inc = sorted_incr [OF this]
  show ?thesis unfolding distinct_conv_nth
  proof (intro allI impI)
    fix i j assume ij: "i < length (map fst ((b, 0) # T))" "j < length (map fst ((b, 0) # T))" "i \<noteq> j"
    then have "fst (((b, 0) # T) ! i) \<noteq> fst (((b, 0) # T) ! j)" using inc [of i j] inc [of j i] by (metis length_map less_irrefl linorder_neqE_nat)
    then show "map fst ((b, 0) # T) ! i \<noteq> map fst ((b, 0) # T) ! j" using ij(1,2) by (simp only: nth_map length_map) simp
  qed
qed

text \<open>The search starts after \<open>freep\<close> and ends at \<open>freep\<close>: it stops at the first block that is large enough, or has seen all.\<close>

lemma malloc_search:
  assumes ok: "heap_ok b brk T A h" and N: "N < 4294967296"
  defines "L \<equiv> (b, 0) # T"
  shows "\<exists>i. freep h = fst (cyc L i) \<and> (\<forall>t f. t < length L \<longrightarrow> (\<forall>u < t. snd (cyc L (Suc (i + u))) < N) \<longrightarrow>
      (malloc_loop (t + f) (of_nat N) (freep h) (h_ptr h (freep h)) h :: ('w, u32 \<times> heap) user)
        = malloc_loop f (of_nat N) (fst (cyc L (i + t))) (fst (cyc L (Suc (i + t)))) h)"
proof -
  have seg: "seg h L b" "L \<noteq> []" "fst (L ! 0) = b" using ok by (simp_all add: heap_ok_def L_def)
  have "freep h \<in> fst ` set L" using ok by (simp add: heap_ok_def L_def)
  then obtain i where i: "i < length L" "freep h = fst (L ! i)" by (metis (no_types, lifting) imageE in_set_conv_nth)
  then have fp: "freep h = fst (cyc L i)" by (simp add: cyc_def)
  have sz: "snd x < 4294967296" if "x \<in> set L" for x
    using that ok block_ok_hdr [of "unat b + 8" brk "fst x" "snd x"] by (fastforce simp: L_def heap_ok_def)
  have small: "\<not> of_nat N \<le> h_size h (fst (cyc L j))" if "snd (cyc L j) < N" for j
    using of_nat_small(1) [OF N sz, of "cyc L j"] that cyc_ptr(2) [OF seg] seg(2) by (simp add: cyc_def)
  have other: "fst (cyc L (Suc (i + u))) \<noteq> freep h" if "Suc u < length L" for u
  proof
    assume "fst (cyc L (Suc (i + u))) = freep h"
    then have "Suc (i + u) mod length L = i mod length L" using cyc_inj ring_distinct [OF ok] seg(2) fp unfolding L_def by metis
    then have "Suc (i + u) mod length L = i" "i < length L" using i by simp_all
    then show False using that by (cases "Suc (i + u) < length L") (auto simp: mod_if split: if_splits)
  qed
  show ?thesis
  proof (rule exI [of _ i], intro conjI fp allI impI)
    fix t f assume t: "t < length L" "\<forall>u < t. snd (cyc L (Suc (i + u))) < N"
    have "\<forall>u < t. \<not> of_nat N \<le> h_size h (fst (cyc L (Suc (i + u)))) \<and> fst (cyc L (Suc (i + u))) \<noteq> freep h" using t small other by simp
    from malloc_advance [OF seg this, of f] show "(malloc_loop (t + f) (of_nat N) (freep h) (h_ptr h (freep h)) h :: ('w, u32 \<times> heap) user) =
      malloc_loop f (of_nat N) (fst (cyc L (i + t))) (fst (cyc L (Suc (i + t)))) h" using fp cyc_ptr(1) [OF seg] by simp
  qed
qed

lemma cyc_reach:
  assumes "j < length L"
  obtains u where "u < length L" "cyc L (Suc (i + u)) = L ! j"
proof
  let ?u = "(j + length L * Suc i - Suc i) mod length L"
  show "?u < length L" by (rule mod_less_divisor) (use assms in linarith)
  have "Suc i \<le> length L * Suc i" using assms by (cases "length L") simp_all
  then have "Suc i + (j + length L * Suc i - Suc i) = j + length L * Suc i" by linarith
  then have "(Suc i + ?u) mod length L = j mod length L" by (metis mod_add_right_eq mod_mult_self2)
  then show "cyc L (Suc (i + ?u)) = L ! j" using assms by (simp add: cyc_def)
qed

lemma malloc_found:
  assumes ok: "heap_ok b brk T A h" and N: "1 \<le> N" "N < 4294967296" and x: "x \<in> set T" "N \<le> snd x" and fuel: "length T < fuel"
  obtains Y p n Z where "T = Y @ (p, n) # Z" "N \<le> n"
    "(malloc_loop fuel (of_nat N) (freep h) (h_ptr h (freep h)) h :: ('w, u32 \<times> heap) user) = val (malloc_take (of_nat N) (fst (last ((b, 0) # Y))) p h)"
proof -
  let ?L = "(b, 0) # T" let ?P = "\<lambda>i u. N \<le> snd (cyc ?L (Suc (i + u)))"
  obtain i where i: "freep h = fst (cyc ?L i)" "\<forall>t f. t < length ?L \<longrightarrow> (\<forall>u < t. snd (cyc ?L (Suc (i + u))) < N) \<longrightarrow>
      (malloc_loop (t + f) (of_nat N) (freep h) (h_ptr h (freep h)) h :: ('w, u32 \<times> heap) user)
        = malloc_loop f (of_nat N) (fst (cyc ?L (i + t))) (fst (cyc ?L (Suc (i + t)))) h"
    using malloc_search [OF ok N(2)] by blast
  obtain j where "j < length ?L" "?L ! j = x" using x(1) by (metis in_set_conv_nth list.set_intros(2))
  then obtain u where u: "u < length ?L" "?P i u" using cyc_reach x(2) by metis
  define t where "t = (LEAST u. ?P i u)"
  have t: "?P i t" "t \<le> u" "\<forall>u < t. snd (cyc ?L (Suc (i + u))) < N"
    unfolding t_def using u(2) by (auto intro: LeastI Least_le dest: not_less_Least)
  define k where "k = (i + t) mod length ?L"
  have k0: "k < length ?L" unfolding k_def by (rule mod_less_divisor) simp
  have "snd (?L ! 0) < N" using N(1) by simp
  then have "Suc (i + t) mod length ?L \<noteq> 0" using t(1) unfolding cyc_def by (metis not_less)
  moreover have "Suc (i + t) mod length ?L = (if Suc k = length ?L then 0 else Suc k)" unfolding k_def by (rule mod_Suc)
  ultimately have k: "Suc (i + t) mod length ?L = Suc k" "Suc k < length ?L" using k0 by (metis Suc_lessI)+
  obtain p n where pn: "T ! k = (p, n)" by fastforce
  have T: "T = take k T @ (p, n) # drop (Suc k) T" using k(2) pn id_take_nth_drop [of k T] by simp
  have c: "cyc ?L (Suc (i + t)) = (p, n)" "cyc ?L (i + t) = ?L ! k" unfolding cyc_def k(1) k_def [symmetric] using pn by simp_all
  have l: "last ((b, 0) # take k T) = ?L ! k" using k(2) by (cases k) (auto simp: last_conv_nth)
  have "h_size h p = of_nat n" using free_block_apart(6) [OF ok T] .
  moreover have "n < 4294967296" using block_ok_hdr [OF free_block_apart(1) [OF ok T]] ok by (simp add: heap_ok_def)
  ultimately have big: "of_nat N \<le> h_size h p" using t(1) c of_nat_small(1) [OF N(2)] by simp
  have "fuel = t + Suc (fuel - t - 1)" using fuel t(2) u(1) by simp
  moreover have "(malloc_loop (t + Suc (fuel - t - 1)) (of_nat N) (freep h) (h_ptr h (freep h)) h :: ('w, u32 \<times> heap) user)
      = malloc_loop (Suc (fuel - t - 1)) (of_nat N) (fst (?L ! k)) p h"
    using i(2) [rule_format, OF le_less_trans [OF t(2) u(1)], of "Suc (fuel - t - 1)"] t(3) unfolding c fst_conv by blast
  moreover have "malloc_loop (Suc (fuel - t - 1)) (of_nat N) (fst (?L ! k)) p h = val (malloc_take (of_nat N) (fst (?L ! k)) p h)"
    using big by (simp only: malloc_loop.simps(2) if_True)
  ultimately have "(malloc_loop fuel (of_nat N) (freep h) (h_ptr h (freep h)) h :: ('w, u32 \<times> heap) user) = val (malloc_take (of_nat N) (fst (?L ! k)) p h)" by metis
  then show thesis using that [OF T] t(1) c l by simp
qed

lemma malloc_none:
  assumes ok: "heap_ok b brk T A h" and N: "1 \<le> N" "N < 4294967296" and small: "\<forall>x \<in> set T. snd x < N"
  shows "(malloc_loop (length T + Suc f) (of_nat N) (freep h) (h_ptr h (freep h)) h :: ('w, u32 \<times> heap) user) =
    ubind (morecore f (of_nat N) h) (\<lambda>(p, h). if p = 0 then val (0, h) else malloc_loop f (of_nat N) p (h_ptr h p) h)"
proof -
  let ?L = "(b, 0) # T"
  obtain i where i: "freep h = fst (cyc ?L i)" "\<forall>t f. t < length ?L \<longrightarrow> (\<forall>u < t. snd (cyc ?L (Suc (i + u))) < N) \<longrightarrow>
      (malloc_loop (t + f) (of_nat N) (freep h) (h_ptr h (freep h)) h :: ('w, u32 \<times> heap) user)
        = malloc_loop f (of_nat N) (fst (cyc ?L (i + t))) (fst (cyc ?L (Suc (i + t)))) h"
    using malloc_search [OF ok N(2)] by blast
  have all: "snd (cyc ?L j) < N" for j
  proof -
    have "cyc ?L j \<in> set ?L" unfolding cyc_def by (rule nth_mem) simp
    then show ?thesis using small N(1) by auto
  qed
  have "Suc (i + length T) = i + length ?L" by simp
  then have e: "cyc ?L (Suc (i + length T)) = cyc ?L i" unfolding cyc_def by (metis mod_add_self2)
  have "\<not> of_nat N \<le> h_size h (freep h)"
  proof -
    have "h_size h (freep h) = of_nat (snd (cyc ?L i))" using i(1) cyc_ptr(2) [of h ?L b i] ok by (simp add: heap_ok_def)
    then show ?thesis using of_nat_small(1) [OF N(2), of "snd (cyc ?L i)"] all [of i] N(2) by simp
  qed
  moreover have "(malloc_loop (length T + Suc f) (of_nat N) (freep h) (h_ptr h (freep h)) h :: ('w, u32 \<times> heap) user)
      = malloc_loop (Suc f) (of_nat N) (fst (cyc ?L (i + length T))) (freep h) h"
    using i(2) [rule_format, of "length T" "Suc f"] all i(1) e by (simp del: malloc_loop.simps)
  ultimately show ?thesis by (simp only: malloc_loop.simps(2) if_False if_True simp_thms)
qed

end
