(* ===== verification/UserHeap.thy ===== *)
theory UserHeap
  imports UmallocProps
begin

text \<open>
  The contract of \<open>malloc\<close> and \<open>free\<close>, over a system whose \<open>sbrk\<close> gives memory above the program break.
\<close>

section \<open>Memory from the system\<close>

text \<open>\<open>brk w\<close> is the program break. \<open>sbrk\<close> fails and leaves it, or moves it up past the new memory.\<close>

definition sbrk_ok :: "'w os \<Rightarrow> ('w \<Rightarrow> nat) \<Rightarrow> bool" where
  "sbrk_ok S brk \<longleftrightarrow> (\<forall>n w. 0 < n \<and> n < 2147483648 \<longrightarrow> (case os_sbrk S n SBRK_EAGER w of (a, v) \<Rightarrow>
     (a = SBRK_ERROR \<and> brk v = brk w)
     \<or> (a \<noteq> SBRK_ERROR \<and> aligned4 a \<and> brk w \<le> unat a \<and> unat a + nat n \<le> brk v \<and> brk v < 4294967296)))"

lemma block_ok_mono: "block_ok lo k x \<Longrightarrow> k \<le> k' \<Longrightarrow> block_ok lo k' x"
  by (cases x) (simp add: block_ok_def)

lemma heap_ok_mono: "heap_ok b k T A h \<Longrightarrow> k \<le> k' \<Longrightarrow> k' < 4294967296 \<Longrightarrow> heap_ok b k' T A h"
  unfolding heap_ok_def using block_ok_mono by (meson order_trans)

lemma freep_pos:
  assumes ok: "heap_ok b brk T A h"
  shows "freep h \<noteq> 0"
proof -
  have h: "0 < unat b" "\<forall>x \<in> set T. block_ok (unat b + 8) brk x" "freep h = b \<or> freep h \<in> fst ` set T" using ok by (simp_all add: heap_ok_def)
  have "0 < unat (fst x)" if "x \<in> set T" for x using h(2) that by (cases x) (auto simp: block_ok_def)
  then have "0 < unat (freep h)" using h(1,3) by auto
  then show ?thesis by auto
qed

lemma heap_ok_fresh:
  assumes ok: "heap_ok b brk T A h" and a: "block_ok (unat b + 8) brk (a, m)" "rng (a, m) \<inter> bytes_of (set T) = {}" "rng (a, m) \<inter> bytes_of A = {}"
  shows "heap_ok b brk T A (set_size a v h)" "unat x \<in> bytes_of A \<Longrightarrow> umem (set_size a v h) x = umem h x"
proof -
  have h: "hdr_ok b" "brk < 4294967296" "\<forall>x \<in> set T \<union> A. block_ok (unat b + 8) brk x" "seg h ((b, 0) # T) b" using ok by (simp_all add: heap_ok_def)
  have f: "far a (fst y)" if "y \<in> insert (b, 0) (set T \<union> A)" for y
  proof (cases "y = (b, 0)")
    case False
    then have "rng (a, m) \<inter> rng y = {}" using a(2,3) that by (auto simp: bytes_of_def)
    then show ?thesis using far_blocks [OF a(1) _ h(2), of "fst y" "snd y"] h(3) that False by auto
  qed (use far_base [OF h(1) a(1) h(2)] in simp)
  have "seg (set_size a v h) ((b, 0) # T) b"
  proof (rule seg_cong [OF h(4)], rule ballI)
    fix x assume "x \<in> fst ` set ((b, 0) # T)"
    then have "far a x" using f [of "(b, 0)"] f by auto
    then show "h_size (set_size a v h) x = h_size h x \<and> h_ptr (set_size a v h) x = h_ptr h x" by (simp add: hdr_far)
  qed
  moreover have "\<forall>y \<in> A. h_size (set_size a v h) (fst y) = h_size h (fst y)" using f by (simp add: hdr_far)
  ultimately show "heap_ok b brk T A (set_size a v h)" using ok by (simp add: heap_ok_def)
  show "unat x \<in> bytes_of A \<Longrightarrow> umem (set_size a v h) x = umem h x"
    using outside_block [OF a(1)] umem_outside(2) [of a] block_ok_hdr [OF a(1) h(2)] a(3) by blast
qed

lemma bytes_below:
  assumes "heap_ok b brk T A h" "x \<in> bytes_of (set T) \<union> bytes_of A"
  shows "x < brk"
proof -
  obtain y where "y \<in> set T \<union> A" "x \<in> rng y" using assms(2) by (auto simp: bytes_of_def)
  moreover from this have "block_ok (unat b + 8) brk y" using assms(1) unfolding heap_ok_def by blast
  ultimately show ?thesis by (cases y) (auto simp: rng_def block_ok_def)
qed

lemma morecore_ok:
  assumes S: "sbrk_ok S brk" and ok: "heap_ok b (brk w) T A h" and N: "1 \<le> N" "8 * N < 2147483648" and fuel: "2 * length T + 2 < fuel"
  shows "\<exists>r h' v. morecore fuel (of_nat N) h S w = Val (r, h') v \<and> (r = 0 \<and> h' = h \<and> brk v = brk w
    \<or> r \<noteq> 0 \<and> freep h' = r \<and> (\<forall>x. unat x \<in> bytes_of A \<longrightarrow> umem h' x = umem h x) \<and> brk w \<le> brk v
      \<and> (\<exists>T' R. heap_ok b (brk v) T' A h' \<and> bytes_of (set T') = bytes_of (set T) \<union> R \<and> R \<subseteq> {brk w..<brk v}
          \<and> length T' \<le> Suc (length T) \<and> (\<exists>y \<in> set T'. N \<le> snd y)))"
proof -
  define M where "M = max N 4096"
  have M: "1 \<le> M" "N \<le> M" "8 * M < 2147483648" using N by (auto simp: M_def)
  have nu: "(if (of_nat N :: u32) < 4096 then 4096 else of_nat N) = of_nat M"
    using of_nat_small(1) [of 4096 N] N by (simp add: M_def max_def not_le [symmetric])
  have "sint (of_nat (8 * M) :: u32) = int (8 * M)" using M(3) by (simp add: signed_of_nat signed_take_bit_int_eq_self del: of_nat_mult)
  then have sb: "sint (of_nat M * sizeof_Header) = int (8 * M)" by (simp add: sizeof_Header_def mult.commute)
  obtain a v where av: "os_sbrk S (int (8 * M)) SBRK_EAGER w = (a, v)" by fastforce
  have "0 < int (8 * M) \<and> int (8 * M) < 2147483648" using M by simp
  then have sbrk: "a = SBRK_ERROR \<and> brk v = brk w
     \<or> a \<noteq> SBRK_ERROR \<and> aligned4 a \<and> brk w \<le> unat a \<and> unat a + 8 * M \<le> brk v \<and> brk v < 4294967296"
    using S av unfolding sbrk_ok_def by (metis (mono_tags, lifting) nat_int split_conv)
  have run: "morecore fuel (of_nat N) h S w = (if a = SBRK_ERROR then Val (0, h) v
      else case ufree fuel (a + 8) (set_size a (of_nat M) h) of None \<Rightarrow> Spins v | Some h \<Rightarrow> Val (freep h, h) v)"
    unfolding morecore_def nu Let_def sb using av by (simp add: sbrk_def user_simps hdr_add_def sizeof_Header_def split: option.split)
  show ?thesis
  proof (cases "a = SBRK_ERROR")
    case True
    then show ?thesis using run sbrk by simp
  next
    case False
    then have a: "aligned4 a" "brk w \<le> unat a" "unat a + 8 * M \<le> brk v" "brk v < 4294967296" using sbrk by simp_all
    have b: "unat b + 8 \<le> brk w" using ok by (simp add: heap_ok_def)
    have ok1: "heap_ok b (brk v) T A h" by (rule heap_ok_mono [OF ok]) (use a in auto)
    have blk: "block_ok (unat b + 8) (brk v) (a, M)" using a b M(1) by (simp add: block_ok_def)
    have dis: "rng (a, M) \<inter> bytes_of (set T) = {}" "rng (a, M) \<inter> bytes_of A = {}"
      using bytes_below [OF ok] a(2) by (fastforce simp: rng_def)+
    have hdr: "hdr_ok a" using block_ok_hdr [OF blk a(4)] by simp
    note fresh = heap_ok_fresh [OF ok1 blk dis, where v = "of_nat M"]
    obtain h' T' where h': "ufree fuel (a + 8) (set_size a (of_nat M) h) = Some h'" "heap_ok b (brk v) T' A h'"
      "bytes_of (set T') = bytes_of (set T) \<union> rng (a, M)" "length T' \<le> Suc (length T)" "\<exists>y \<in> set T'. M \<le> snd y"
      "\<forall>x. unat x \<in> bytes_of A \<longrightarrow> umem h' x = umem (set_size a (of_nat M) h) x"
      using ufree_ok [OF fresh(1) blk _ dis fuel] hdr by auto
    have "freep h' \<noteq> 0" by (rule freep_pos [OF h'(2)])
    moreover have "rng (a, M) \<subseteq> {brk w..<brk v}" using a by (auto simp: rng_def)
    moreover have "\<forall>x. unat x \<in> bytes_of A \<longrightarrow> umem h' x = umem h x" using h'(6) fresh(2) by simp
    moreover have "\<exists>y \<in> set T'. N \<le> snd y" using h'(5) M(2) by (meson order_trans)
    ultimately show ?thesis using run False h'(1-4) a by (intro exI [of _ "freep h'"] exI [of _ h'] exI [of _ v]) auto
  qed
qed

section \<open>The program's own writes\<close>

definition payload :: "block set \<Rightarrow> nat set" where
  "payload A = (\<Union>(a, n) \<in> A. {unat a + 8 ..< unat a + 8 * n})"

lemma hdr_cong:
  assumes "hdr_ok a" "\<forall>x. unat a \<le> unat x \<and> unat x < unat a + 8 \<longrightarrow> m x = umem h x"
  shows "h_ptr (h\<lparr>umem := m\<rparr>) a = h_ptr h a" "h_size (h\<lparr>umem := m\<rparr>) a = h_size h a"
proof -
  have "unat (a + of_nat i) = unat a + i" "unat (a + 4 + of_nat i) = unat a + 4 + i" if "i < 4" for i
    using assms(1) that aligned4_add [of a i] aligned4_add [of "a + 4" i] hdr_ok_words [OF assms(1)] by simp_all
  then show "h_ptr (h\<lparr>umem := m\<rparr>) a = h_ptr h a" "h_size (h\<lparr>umem := m\<rparr>) a = h_size h a"
    unfolding h_ptr_def h_size_def by (auto intro!: load32_cong simp: assms(2))
qed

lemma heap_writes:
  assumes ok: "heap_ok b brk T A h" and m: "\<forall>x. unat x \<notin> payload A \<longrightarrow> m x = umem h x"
  shows "heap_ok b brk T A (h\<lparr>umem := m\<rparr>)"
proof -
  have h: "hdr_ok b" "brk < 4294967296" "\<forall>x \<in> set T \<union> A. block_ok (unat b + 8) brk x" "bytes_of (set T) \<inter> bytes_of A = {}"
    "\<forall>x \<in> A. \<forall>y \<in> A. x \<noteq> y \<longrightarrow> rng x \<inter> rng y = {}" "seg h ((b, 0) # T) b" using ok by (simp_all add: heap_ok_def)
  have hd: "h_ptr (h\<lparr>umem := m\<rparr>) (fst z) = h_ptr h (fst z) \<and> h_size (h\<lparr>umem := m\<rparr>) (fst z) = h_size h (fst z)" if z: "z \<in> insert (b, 0) (set T \<union> A)" for z
  proof -
    obtain a n where an: "z = (a, n)" by fastforce
    have hok: "hdr_ok a" using z an h(1,3) block_ok_hdr [OF _ h(2), of "unat b + 8" a n] by auto
    have "unat x \<notin> payload A" if x: "unat a \<le> unat x" "unat x < unat a + 8" for x
    proof
      assume "unat x \<in> payload A"
      then obtain c k where ck: "(c, k) \<in> A" "unat c + 8 \<le> unat x" "unat x < unat c + 8 * k" by (auto simp: payload_def)
      then have xr: "unat x \<in> rng (c, k)" "block_ok (unat b + 8) brk (c, k)" using h(3) by (auto simp: rng_def)
      have "z \<noteq> (c, k)" using ck x an by auto
      moreover have "z \<noteq> (b, 0)" using xr x an by (auto simp: rng_def block_ok_def)
      moreover from this have "block_ok (unat b + 8) brk (a, n)" using z an h(3) by auto
      then have "unat x \<in> rng z" using x an by (auto simp: rng_def block_ok_def)
      ultimately show False using z h(4,5) ck(1) xr(1) unfolding bytes_of_def by blast
    qed
    then show ?thesis using hdr_cong [OF hok, of m h] m an by auto
  qed
  have "seg (h\<lparr>umem := m\<rparr>) ((b, 0) # T) b" by (rule seg_cong [OF h(6)]) (use hd in fastforce)
  moreover have "\<forall>y \<in> A. h_size (h\<lparr>umem := m\<rparr>) (fst y) = h_size h (fst y)" using hd by simp
  ultimately show ?thesis using ok by (simp add: heap_ok_def)
qed

section \<open>The contract\<close>

text \<open>The heap with blocks \<open>A\<close> handed out and \<open>H\<close> the bytes obtained from the system so far.\<close>

definition heap_inv :: "u32 \<Rightarrow> nat \<Rightarrow> block set \<Rightarrow> nat set \<Rightarrow> heap \<Rightarrow> bool" where
  "heap_inv b brk A H h \<longleftrightarrow>
     freep h = 0 \<and> A = {} \<and> H = {} \<and> hdr_ok b \<and> 0 < unat b \<and> unat b + 8 \<le> brk \<and> brk < 4294967296
     \<or> (\<exists>T. heap_ok b brk T A h \<and> H = bytes_of (set T) \<union> bytes_of A)"

lemma heap_ok_init:
  assumes "hdr_ok b" "0 < unat b" "unat b + 8 \<le> brk" "brk < 4294967296"
  shows "heap_ok b brk [] {} (set_size b 0 (set_ptr b b h\<lparr>freep := b\<rparr>))"
  using assms by (simp add: heap_ok_def sorted_blocks_def bytes_of_def)

lemma unat_units_of:
  assumes "unat nbytes < 2147483632"
  shows "unat (units_of nbytes) = (unat nbytes + 7) div 8 + 1"
proof -
  have "nbytes + sizeof_Header - 1 = nbytes + 7" by (simp add: sizeof_Header_def)
  moreover have "unat (nbytes + 7) = unat nbytes + 7" using unat_add_nat [of nbytes 7] assms by simp
  ultimately have "unat ((nbytes + sizeof_Header - 1) div sizeof_Header) = (unat nbytes + 7) div 8" by (simp only: unat_div_distrib) (simp add: sizeof_Header_def)
  then show ?thesis unfolding units_of_def using unat_add_nat [of "(nbytes + sizeof_Header - 1) div sizeof_Header" 1] assms by simp
qed

lemma malloc_heap:
  assumes S: "sbrk_ok S brk" and ok: "heap_ok b (brk w) T A h" and N: "1 \<le> N" "8 * N < 2147483648" and fuel: "3 * length T + 5 \<le> fuel"
  shows "\<exists>r h' v. malloc_loop fuel (of_nat N) (freep h) (h_ptr h (freep h)) h S w = Val (r, h') v \<and> (\<forall>x. unat x \<in> bytes_of A \<longrightarrow> umem h' x = umem h x)
    \<and> (r = 0 \<and> h' = h \<and> brk v = brk w
       \<or> (\<exists>a T' R. r = a + 8 \<and> heap_ok b (brk v) T' (insert (a, N) A) h' \<and> R \<subseteq> {brk w..<brk v} \<and> bytes_of (set T') \<union> rng (a, N) = bytes_of (set T) \<union> R))"
proof (cases "\<exists>x \<in> set T. N \<le> snd x")
  case True
  then obtain x where x: "x \<in> set T" "N \<le> snd x" by blast
  have small: "N < 4294967296" "length T < fuel" using N(2) fuel by simp_all
  obtain Y p n Z where Y: "T = Y @ (p, n) # Z" "N \<le> n"
    "malloc_loop fuel (of_nat N) (freep h) (h_ptr h (freep h)) h = (val (malloc_take (of_nat N) (fst (last ((b, 0) # Y))) p h) :: ('a, u32 \<times> heap) user)"
    by (rule malloc_found [OF ok N(1) small(1) x small(2)])
  from malloc_take_ok [OF ok Y(1) N(1) Y(2)] show ?thesis unfolding Y(3) by (auto simp: user_simps intro!: exI [of _ "{}"])
next
  case False
  define f where "f = fuel - length T - 1"
  have f: "fuel = length T + Suc f" "2 * length T + 2 < f" using fuel by (simp_all add: f_def)
  have run: "malloc_loop fuel (of_nat N) (freep h) (h_ptr h (freep h)) h S w =
    ubind (morecore f (of_nat N) h) (\<lambda>(p, h). if p = 0 then val (0, h) else malloc_loop f (of_nat N) p (h_ptr h p) h) S w"
    unfolding f(1) by (subst malloc_none [OF ok N(1)]) (use N(2) False in \<open>auto simp: not_le\<close>)
  obtain r h1 v where m: "morecore f (of_nat N) h S w = Val (r, h1) v" "r = 0 \<and> h1 = h \<and> brk v = brk w
    \<or> r \<noteq> 0 \<and> freep h1 = r \<and> (\<forall>x. unat x \<in> bytes_of A \<longrightarrow> umem h1 x = umem h x) \<and> brk w \<le> brk v
      \<and> (\<exists>T' R. heap_ok b (brk v) T' A h1 \<and> bytes_of (set T') = bytes_of (set T) \<union> R \<and> R \<subseteq> {brk w..<brk v}
          \<and> length T' \<le> Suc (length T) \<and> (\<exists>y \<in> set T'. N \<le> snd y))"
    using morecore_ok [OF S ok N f(2)] by blast
  show ?thesis
  proof (cases "r = 0")
    case True
    then show ?thesis using m run by (simp add: ubind_def user_simps)
  next
    case False
    then obtain T1 R x where T1: "heap_ok b (brk v) T1 A h1" "bytes_of (set T1) = bytes_of (set T) \<union> R" "R \<subseteq> {brk w..<brk v}" "length T1 < f"
        "x \<in> set T1" "N \<le> snd x" and fr: "freep h1 = r" "\<forall>x. unat x \<in> bytes_of A \<longrightarrow> umem h1 x = umem h x" using m(2) f(2) by auto
    obtain Y p n Z where Y: "T1 = Y @ (p, n) # Z" "N \<le> n"
      "malloc_loop f (of_nat N) (freep h1) (h_ptr h1 (freep h1)) h1 = (val (malloc_take (of_nat N) (fst (last ((b, 0) # Y))) p h1) :: ('a, u32 \<times> heap) user)"
      by (rule malloc_found [OF T1(1) N(1) _ T1(5,6,4)]) (use N(2) in simp)
    obtain a T' h' where t: "malloc_take (of_nat N) (fst (last ((b, 0) # Y))) p h1 = (a + 8, h')" "heap_ok b (brk v) T' (insert (a, N) A) h'"
      "bytes_of (set T1) = bytes_of (set T') \<union> rng (a, N)" "\<forall>x. unat x \<in> bytes_of A \<longrightarrow> umem h' x = umem h1 x"
      using malloc_take_ok [OF T1(1) Y(1) N(1) Y(2)] by blast
    have "malloc_loop fuel (of_nat N) (freep h) (h_ptr h (freep h)) h S w = Val (a + 8, h') v"
      using run m(1) False Y(3) fr(1) t(1) by (simp add: ubind_def user_simps)
    moreover have "\<forall>x. unat x \<in> bytes_of A \<longrightarrow> umem h' x = umem h x" using t(4) fr(2) by simp
    moreover have "bytes_of (set T') \<union> rng (a, N) = bytes_of (set T) \<union> R" using t(3) T1(2) by simp
    ultimately show ?thesis using t(2) T1(3) by blast
  qed
qed

lemma malloc_inv:
  assumes S: "sbrk_ok S brk" and inv: "heap_inv b (brk w) A H h"
  shows "\<exists>F. \<forall>fuel \<ge> F. \<forall>nbytes. unat nbytes < 2147483632 \<longrightarrow>
    (\<exists>r h' v. malloc b fuel nbytes h S w = Val (r, h') v \<and> (\<forall>x. unat x \<in> bytes_of A \<longrightarrow> umem h' x = umem h x)
      \<and> (r = 0 \<and> brk v = brk w \<and> heap_inv b (brk v) A H h'
         \<or> (\<exists>a n H'. r = a + 8 \<and> r \<noteq> 0 \<and> unat nbytes + 8 \<le> 8 * n \<and> (a, n) \<notin> A \<and> heap_inv b (brk v) (insert (a, n) A) H' h'
              \<and> H \<subseteq> H' \<and> H' - H \<subseteq> {brk w..<brk v})))"
proof -
  define g where "g = (if freep h = 0 then set_size b 0 (set_ptr b b h\<lparr>freep := b\<rparr>) else h)"
  obtain T where T: "heap_ok b (brk w) T A g" "H = bytes_of (set T) \<union> bytes_of A" "\<forall>x. unat x \<in> bytes_of A \<longrightarrow> umem g x = umem h x"
  proof (cases "freep h = 0")
    case True
    then have "A = {}" "H = {}" "hdr_ok b" "0 < unat b" "unat b + 8 \<le> brk w" "brk w < 4294967296" using inv freep_pos by (auto simp: heap_inv_def)
    then show ?thesis using that [of "[]"] True heap_ok_init by (simp add: g_def bytes_of_def)
  qed (use inv that in \<open>auto simp: heap_inv_def g_def\<close>)
  show ?thesis
  proof (intro exI [of _ "3 * length T + 5"] allI impI)
    fix fuel and nbytes :: u32 assume fuel: "3 * length T + 5 \<le> fuel" and nb: "unat nbytes < 2147483632"
    define N where "N = unat (units_of nbytes)"
    have N: "N = (unat nbytes + 7) div 8 + 1" "1 \<le> N" "8 * N < 2147483648" "unat nbytes + 8 \<le> 8 * N"
      using unat_units_of [OF nb] nb by (simp_all add: N_def)
    have N5: "units_of nbytes = of_nat N" by (simp add: N_def)
    have run: "malloc b fuel nbytes h S w = malloc_loop fuel (of_nat N) (freep g) (h_ptr g (freep g)) g S w" by (simp add: malloc_def g_def Let_def N5)
    obtain r h' v where r: "malloc b fuel nbytes h S w = Val (r, h') v" "\<forall>x. unat x \<in> bytes_of A \<longrightarrow> umem h' x = umem g x"
      "r = 0 \<and> h' = g \<and> brk v = brk w \<or> (\<exists>a T' R. r = a + 8 \<and> heap_ok b (brk v) T' (insert (a, N) A) h' \<and> R \<subseteq> {brk w..<brk v}
         \<and> bytes_of (set T') \<union> rng (a, N) = bytes_of (set T) \<union> R)"
      unfolding run using malloc_heap [OF S T(1) N(2,3) fuel] by blast
    have "r = 0 \<and> brk v = brk w \<and> heap_inv b (brk v) A H h'
         \<or> (\<exists>a n H'. r = a + 8 \<and> r \<noteq> 0 \<and> unat nbytes + 8 \<le> 8 * n \<and> (a, n) \<notin> A \<and> heap_inv b (brk v) (insert (a, n) A) H' h'
              \<and> H \<subseteq> H' \<and> H' - H \<subseteq> {brk w..<brk v})" using r(3)
    proof (elim disjE exE conjE)
      fix a T' R assume t: "r = a + 8" "heap_ok b (brk v) T' (insert (a, N) A) h'" "R \<subseteq> {brk w..<brk v}" "bytes_of (set T') \<union> rng (a, N) = bytes_of (set T) \<union> R"
      have blk: "block_ok (unat b + 8) (brk v) (a, N)" "brk v < 4294967296" using t(2) by (simp_all add: heap_ok_def)
      have "unat (a + 8) = unat a + 8" using unat_add_nat [of a 8] block_ok_hdr [OF blk] by (simp add: hdr_ok_def)
      then have "r \<noteq> 0" using t(1) by auto
      moreover have "(a, N) \<notin> A"
      proof
        assume "(a, N) \<in> A"
        moreover have "unat a \<in> rng (a, N)" using N(2) by (simp add: rng_def)
        ultimately have "unat a \<in> bytes_of A" "unat a \<in> bytes_of (set T) \<union> R" using t(4) by (auto simp: bytes_of_def)
        then show False using T(1) bytes_below [OF T(1), of "unat a"] t(3) by (auto simp: heap_ok_def)
      qed
      moreover have "H \<union> R = bytes_of (set T') \<union> bytes_of (insert (a, N) A)" using t(4) T(2) by (auto simp: bytes_of_def)
      then have "heap_inv b (brk v) (insert (a, N) A) (H \<union> R) h'" using t(2) unfolding heap_inv_def by blast
      ultimately show ?thesis using t(1,3) N(4) by blast
    qed (use T in \<open>auto simp: heap_inv_def\<close>)
    then show "\<exists>r h' v. malloc b fuel nbytes h S w = Val (r, h') v \<and> (\<forall>x. unat x \<in> bytes_of A \<longrightarrow> umem h' x = umem h x)
      \<and> (r = 0 \<and> brk v = brk w \<and> heap_inv b (brk v) A H h'
         \<or> (\<exists>a n H'. r = a + 8 \<and> r \<noteq> 0 \<and> unat nbytes + 8 \<le> 8 * n \<and> (a, n) \<notin> A \<and> heap_inv b (brk v) (insert (a, n) A) H' h'
              \<and> H \<subseteq> H' \<and> H' - H \<subseteq> {brk w..<brk v}))" using r(1,2) T(3) by auto
  qed
qed

lemma free_inv:
  assumes inv: "heap_inv b brk A H h" and a: "(a, n) \<in> A"
  shows "\<exists>F. \<forall>fuel \<ge> F. \<exists>h'. ufree fuel (a + 8) h = Some h' \<and> heap_inv b brk (A - {(a, n)}) H h'
    \<and> (\<forall>x. unat x \<in> bytes_of (A - {(a, n)}) \<longrightarrow> umem h' x = umem h x)"
proof -
  obtain T where T: "heap_ok b brk T A h" "H = bytes_of (set T) \<union> bytes_of A" using inv a by (auto simp: heap_inv_def)
  let ?A = "A - {(a, n)}"
  have h: "\<forall>x \<in> A. \<forall>y \<in> A. x \<noteq> y \<longrightarrow> rng x \<inter> rng y = {}" "bytes_of (set T) \<inter> bytes_of A = {}" "block_ok (unat b + 8) brk (a, n)" "h_size h a = of_nat n"
    using T(1) a by (auto simp: heap_ok_def)
  have ok: "heap_ok b brk T ?A h" using T(1) unfolding heap_ok_def by (auto simp: bytes_of_def)
  have dis: "rng (a, n) \<inter> bytes_of (set T) = {}" "rng (a, n) \<inter> bytes_of ?A = {}" using h(1,2) a unfolding bytes_of_def by blast+
  have A: "bytes_of A = rng (a, n) \<union> bytes_of ?A" using a by (auto simp: bytes_of_def)
  show ?thesis
  proof (intro exI [of _ "2 * length T + 3"] allI impI)
    fix fuel assume "2 * length T + 3 \<le> fuel"
    then obtain h' T' where "ufree fuel (a + 8) h = Some h'" "heap_ok b brk T' ?A h'" "bytes_of (set T') = bytes_of (set T) \<union> rng (a, n)"
      "\<forall>x. unat x \<in> bytes_of ?A \<longrightarrow> umem h' x = umem h x" using ufree_ok [OF ok h(3,4) dis, of fuel] by auto
    moreover from this have "heap_inv b brk ?A H h'" using T(2) A unfolding heap_inv_def by blast
    ultimately show "\<exists>h'. ufree fuel (a + 8) h = Some h' \<and> heap_inv b brk ?A H h' \<and> (\<forall>x. unat x \<in> bytes_of ?A \<longrightarrow> umem h' x = umem h x)" by blast
  qed
qed


text \<open>A system that has a program break of its own, and a program that has not used its heap yet.\<close>

definition brk_os :: "stdio os" where
  "brk_os = (stdio_os 0)\<lparr>os_sbrk := (\<lambda>n t w. if nat n < 0x100000 \<and> length (outp w) < 0x1000
     then (of_nat (0x10000 + 4 * length (outp w)), w\<lparr>outp := outp w @ replicate (nat n) 0\<rparr>) else (SBRK_ERROR, w))\<rparr>"

definition brk_at :: "stdio \<Rightarrow> nat" where
  "brk_at w = 0x10000 + 4 * length (outp w)"

lemma sbrk_ok_brk_os: "sbrk_ok brk_os brk_at"
proof -
  have "aligned4 (of_nat (0x10000 + 4 * k))" "of_nat (0x10000 + 4 * k) \<noteq> SBRK_ERROR" "unat (of_nat (0x10000 + 4 * k) :: u32) = 0x10000 + 4 * k"
    if "k < 0x1000" for k
  proof -
    show u: "unat (of_nat (0x10000 + 4 * k) :: u32) = 0x10000 + 4 * k" by (rule unat_of_small) (use that in simp)
    show "aligned4 (of_nat (0x10000 + 4 * k))" unfolding unat_aligned4 u by (simp add: mod_add_eq [symmetric])
    show "of_nat (0x10000 + 4 * k) \<noteq> SBRK_ERROR"
    proof
      assume "of_nat (0x10000 + 4 * k) = SBRK_ERROR"
      then have "unat (of_nat (0x10000 + 4 * k) :: u32) = unat SBRK_ERROR" by (rule arg_cong)
      then show False using u that by (simp add: SBRK_ERROR_def unsigned_minus_1_eq_mask mask_eq_exp_minus_1)
    qed
  qed
  then show ?thesis by (simp add: sbrk_ok_def brk_os_def brk_at_def)
qed


end
