(* ===== verification/Spec2Isabelle.thy ===== *)
theory Spec2Isabelle
  imports Grep MkfsImage ProcWait ShProps Tools TrapProps TxEnd UserHeap
begin

text \<open>
  A verification of xv6 for the CPUTwo processor: the kernel under \<open>src/kernel\<close>, the user programs under
  \<open>src/user\<close> and the program under \<open>src/mkfs\<close> that builds the disk image.

  \<^bold>\<open>The program.\<close> The kernel runs on one CPU with a two-level page table, a serial line, a timer, an interrupt
  controller and a block device behind memory-mapped registers. \<open>entry.S\<close> enters \<open>start\<close> and \<open>main\<close>, which initialise
  the page allocator, the kernel page table, the process table, the vectors, the buffer cache, the inode and file
  tables and the disk, create the first process and run the scheduler for ever. User programs reach the kernel
  through \<open>uservec\<close> of the trampoline, \<open>usertrap\<close> and \<open>syscall\<close>, and leave it through \<open>prepare_return\<close> and \<open>userret\<close>.
  The file system is layered: the driver, the buffer cache, the redo log, inodes and directories, open files.

  \<^bold>\<open>Execution.\<close> \<open>Prelude\<close> has the C integers as machine words (\<open>u8\<close>, \<open>u16\<close>, \<open>u32\<close>), memory as a function from
  addresses to bytes, and the constants of \<open>param.h\<close> and \<open>memlayout.h\<close>. In \<open>Machine\<close> a kernel function is an
  operation on a state: it returns, panics, hangs, or is left off the CPU. The state is a record that every
  component extends with its globals (\<open>mach\<close>, \<open>kmem\<close>, \<open>procs\<close>, \<open>slocks\<close>, \<open>console\<close>, \<open>bcache\<close>, \<open>log\<close>, \<open>fs\<close>, \<open>files\<close>,
  \<open>sys\<close>), so an operation of a lower component runs in the state of a higher one. Code outside the repository is a
  parameter, the \<open>platform\<close>: what a device register reads and what a write to it does, and what the other threads do
  between a call of \<open>swtch\<close> and its return. A list of such resumptions is finite; a thread that is never resumed again
  ends off the CPU. \<open>wp m P s Q\<close> is total correctness: \<open>m\<close> returns, and its result satisfies \<open>Q\<close>.

  \<^bold>\<open>Fuel.\<close> Loops that sleep get one more round than the thread can be resumed, loops that poll a device
  get \<open>polls\<close> rounds of the platform, and loops over linked structures in memory get a bound in which the structure
  fits; running out is \<open>Hang\<close> (in user programs \<open>Spins\<close>), never a value, so a theorem that an operation returns shows
  that the bound suffices. \<open>scheduler\<close>, which never returns, takes the number of scans to follow. The theorems on
  \<open>grep\<close>, \<open>cat\<close>, \<open>wc\<close> and the shell's parser state how much fuel is enough for their input.

  \<^bold>\<open>The kernel's components,\<close> each in the theory that bears its name, with one definition for each function of the C
  file and auxiliary ones for its loops:
  \<^item> \<open>Spinlock\<close> (\<open>spinlock.c\<close>): interrupt nesting, mutual exclusion and its panics.
  \<^item> \<open>Kalloc\<close> (\<open>kalloc.c\<close>): the free list in memory is a set of distinct pages; the locale \<open>page_allocator\<close> is the contract
    other components rely on, interpreted on \<open>kalloc\<close> and \<open>kfree\<close>.
  \<^item> \<open>CString\<close> (\<open>string.c\<close>): overlapping moves and the word-filling \<open>memset\<close>.
  \<^item> \<open>Vm\<close> (\<open>vm.c\<close>), with \<open>PageTable\<close>, \<open>MapPages\<close>, \<open>UserMem\<close>, \<open>UserSpace\<close>, \<open>UserCopy\<close> and the properties in \<open>VmProps\<close>: what a page table
    maps as a function, that each operation changes exactly what it should, that no page leaks, and that the memory of
    a process is private.
  \<^item> \<open>ProcState\<close>, \<open>Proc\<close> (\<open>proc.c\<close>), with \<open>Quiet\<close>, \<open>Keeps\<close>, \<open>ProcProps\<close>, \<open>ProcMem\<close>, \<open>ProcWait\<close>: slots, sleep and wakeup, killing,
    reaping and scheduling. \<open>keeps I P m\<close> is preservation of an invariant by \<open>m\<close> under every interleaving in which the other
    threads preserve it too; the locale \<open>upper_inv\<close> lifts it to the components above.
  \<^item> \<open>Sleeplock\<close>, \<open>SleepProps\<close> (\<open>sleeplock.c\<close>).
  \<^item> \<open>Uart\<close>, \<open>Printf\<close>, \<open>Console\<close> (\<open>uart.c\<close>, \<open>printf.c\<close>, \<open>console.c\<close>), with \<open>PrintfProps\<close>, \<open>PrintfRun\<close>, \<open>ConsoleProps\<close>: the ring of
    the console as a line editor. \<open>Ring\<close> has the locale \<open>byte_ring\<close> that the console and the pipes both interpret.
  \<^item> \<open>Disk\<close>, \<open>DiskProps\<close> (\<open>virtio_disk.c\<close>): a block is two sectors of the device its comments document.
  \<^item> \<open>Bio\<close> (\<open>bio.c\<close>), \<open>Lru\<close>, \<open>BioProps\<close>, \<open>CacheView\<close>: the doubly linked list, and the cache as a view of the disk.
  \<^item> \<open>Log\<close> (\<open>log.c\<close>), \<open>LogView\<close>, \<open>Commit\<close>, \<open>Recover\<close>, \<open>Crash\<close>, \<open>CrashSafe\<close>: the sector writes of a commit and of a recovery, and
    that a power cut anywhere among them leaves a disk that boots to the old or to the new blocks. \<open>Tx\<close> is the view of
    code inside a transaction (the current blocks, those in the log, those locked), and \<open>TxEnd\<close> how a transaction
    begins and ends.
  \<^item> \<open>Fs\<close> (\<open>fs.c\<close>), with \<open>BlockAlloc\<close>: the bitmap as a set of free blocks. \<open>Pipe\<close>, \<open>PipeProps\<close> (\<open>pipe.c\<close>), \<open>File\<close> (\<open>file.c\<close>), \<open>Exec\<close> (\<open>exec.c\<close> and the parts of \<open>proc.c\<close> that use files),
    \<open>Syscall\<close> (\<open>syscall.c\<close>, \<open>sysproc.c\<close>, \<open>sysfile.c\<close>), \<open>Trap\<close> (\<open>trap.c\<close>, \<open>plic.c\<close>, \<open>start.c\<close>, \<open>main.c\<close>).
  \<^item> \<open>Asm\<close> (\<open>entry.S\<close>, \<open>swtch.S\<close>, \<open>kernelvec.S\<close>, \<open>trampoline.S\<close>) runs the instructions of the assembly files on registers,
    memory and supervisor registers; the hardware's page-table walk is a parameter. \<open>AsmProps\<close> and \<open>KernelVec\<close> show
    what is saved and restored, and \<open>TrapProps\<close> joins \<open>prepare_return\<close> in C with \<open>userret\<close> and \<open>uservec\<close>. The C model
    and the assembly model meet at the trap frame in memory and at the supervisor registers.

  \<^bold>\<open>User programs\<close> are functions of an operating system, a record of system calls that is a parameter (\<open>User\<close>), and end
  with a value, an exit, an exec, or not at all. \<open>Ulib\<close> (\<open>ulib.c\<close>), \<open>Uprintf\<close> (\<open>printf.c\<close>), \<open>Grep\<close> (\<open>grep.c\<close>: the matcher decides the
  regular language of its pattern, and \<open>grep\<close> prints the matching lines however reads cut the input), \<open>Umalloc\<close>, \<open>UmallocProps\<close>
  and \<open>UserHeap\<close> (\<open>umalloc.c\<close>: the circular free list as a set of blocks that tile the memory \<open>sbrk\<close> gave), \<open>Tools\<close> (the small
  programs) and \<open>Sh\<close>, \<open>ShProps\<close> (\<open>sh.c\<close>: the parser returns a well-formed command or an error on every line). Theorems
  about input and output assume a system whose \<open>read\<close> and \<open>write\<close> on the given descriptors are streams (\<open>streams\<close>), which
  \<open>stdio_os\<close> satisfies.

  \<^bold>\<open>The image builder\<close> runs on the host. \<open>Mkfs\<close> (\<open>mkfs.c\<close>) has its functions on the list of the image's blocks, with the host's
  file operations a parameter. \<open>MkfsInv\<close> states which blocks the files use and what is in them and that allocating,
  linking and filling a block preserve it; \<open>MkfsRun\<close> shows it for \<open>iappend\<close>'s loop, \<open>MkfsFiles\<close> for inodes read and written in
  the image, and \<open>MkfsImage\<close> puts the run together: the kernel's view of the image (superblock, log, bitmap as in
  \<open>BlockAlloc\<close>, directory entries as in \<open>Fs\<close>) is the list of files that \<open>mkfs\<close> was given.

  \<^bold>\<open>Concurrency.\<close> The kernel is built for one CPU and disables interrupts while it holds a spin lock, so threads
  interleave only where they give up the CPU or enable interrupts. Invariants (pipes, the console, the buffer
  cache) are proved for every interleaving at those points; functional theorems are for a thread that runs
  without contention (\<open>quiet\<close>), and say what it does when it must wait.

  \<^bold>\<open>Not modelled.\<close> The test programs (\<open>usertests.c\<close>, \<open>grind.c\<close>, \<open>forktest.c\<close>, \<open>stressfs.c\<close>, \<open>logstress.c\<close>, \<open>forphan.c\<close>, \<open>dorphan.c\<close> and
  \<open>test-xv6.py\<close>) exercise the system from outside and are no part of it. \<open>riscv.h\<close> is a left-over that no source includes,
  \<open>defs.h\<close> has prototypes only, and the linker scripts place sections; the symbols they define are parameters of the
  state. Instructions the compiler generates for the C code, the timing of devices, the contents of the TLB and
  the messages \<open>mkfs\<close> prints are outside the model.
\<close>

end
